(* ===== verification/Prelude.thy ===== *)
theory Prelude
  imports Main "HOL-Library.Word"
begin

text \<open>
  What the components share: the names of the machine types of the C++ code, the byte
  operations of \<open>std::string_view\<close> that the parsers use, and the collections that
  the component theories add their equations to.

  A byte is an \<open>8 word\<close> and a \<open>std::string_view\<close> is the list of its bytes.
  \<open>std::size_t\<close> is a 64-bit unsigned integer: where the code guards an addition or a
  subtraction against wrapping, sizes are \<open>nat\<close> and the guard is written with
  \<open>size_max\<close>; where it computes with wrapping words, they are \<open>64 word\<close>.
\<close>

unbundle bit_operations_syntax

type_synonym byte = "8 word"
type_synonym bytes = "byte list"
type_synonym u16 = "16 word"
type_synonym u32 = "32 word"
type_synonym u64 = "64 word"

abbreviation size_max :: nat where
  "size_max \<equiv> 18446744073709551615"

abbreviation u64_max :: u64 where
  "u64_max \<equiv> - 1"

abbreviation u32_max :: u32 where
  "u32_max \<equiv> - 1"

named_theorems field_syntax \<open>character classes and field syntax\<close>
named_theorems h2_defs \<open>transitions of the HTTP/2 stream record\<close>

subsection \<open>Bytes and literals\<close>

text \<open>A C++ string literal as the bytes of its characters.\<close>

definition ascii :: "string \<Rightarrow> bytes" where
  "ascii s = map (\<lambda>c. word_of_nat (of_char c)) s"

lemma ascii_Nil [simp]: "ascii [] = []"
  by (simp add: ascii_def)

lemma ascii_Cons [simp]: "ascii (c # cs) = word_of_nat (of_char c) # ascii cs"
  by (simp add: ascii_def)

lemma unat_byte_less: "unat (b :: byte) < 256"
  using unsigned_less [where 'a = nat and w = b] by simp

lemma unat_byte_mod [simp]: "unat (b :: byte) mod 256 = unat b"
  using unat_byte_less [of b] by simp

lemma byte_le_nat: "(a :: byte) \<le> b \<longleftrightarrow> unat a \<le> unat b"
  by (simp add: word_le_nat_alt)

lemma byte_less_nat: "(a :: byte) < b \<longleftrightarrow> unat a < unat b"
  by (simp add: word_less_nat_alt)

lemma byte_eq_nat: "(a :: byte) = b \<longleftrightarrow> unat a = unat b"
  by (simp add: word_unat_eq_iff)

subsection \<open>Searching and slicing views\<close>

text \<open>\<open>view.find(b)\<close>: the index of the first occurrence.\<close>

fun find_byte :: "byte \<Rightarrow> bytes \<Rightarrow> nat option" where
  "find_byte b [] = None"
| "find_byte b (x # xs) = (if x = b then Some 0 else map_option Suc (find_byte b xs))"

text \<open>\<open>view.find(b, from)\<close>: the index of the first occurrence at or after \<open>from\<close>.\<close>

definition find_byte_from :: "byte \<Rightarrow> bytes \<Rightarrow> nat \<Rightarrow> nat option" where
  "find_byte_from b xs from = map_option (\<lambda>i. from + i) (find_byte b (drop from xs))"

text \<open>\<open>view.substr(from, n)\<close> for \<open>from\<close> within the view.\<close>

definition substr :: "bytes \<Rightarrow> nat \<Rightarrow> nat \<Rightarrow> bytes" where
  "substr xs from n = take n (drop from xs)"

lemma length_substr [simp]: "length (substr xs from n) = min n (length xs - from)"
  by (simp add: substr_def min.commute)

lemma find_byte_Some_iff:
  "find_byte b xs = Some i \<longleftrightarrow> i < length xs \<and> xs ! i = b \<and> (\<forall>j < i. xs ! j \<noteq> b)"
proof (induction xs arbitrary: i)
  case Nil
  then show ?case by simp
next
  case (Cons x xs)
  show ?case
  proof (cases i)
    case 0
    then show ?thesis by auto
  next
    case (Suc n)
    show ?thesis
      unfolding Suc
      using Cons.IH [of n] by (auto simp: nth_Cons less_Suc_eq_0_disj split: nat.splits)
  qed
qed

lemma find_byte_None_iff: "find_byte b xs = None \<longleftrightarrow> b \<notin> set xs"
  by (induction xs) auto

lemma find_byte_append_notin:
  "b \<notin> set xs \<Longrightarrow> find_byte b (xs @ ys) = map_option (\<lambda>i. length xs + i) (find_byte b ys)"
proof (induction xs)
  case Nil
  show ?case by (cases "find_byte b ys") simp_all
next
  case (Cons x xs)
  then show ?case by (cases "find_byte b ys") auto
qed

lemma find_byte_append_Cons: "b \<notin> set xs \<Longrightarrow> find_byte b (xs @ b # ys) = Some (length xs)"
  by (simp add: find_byte_append_notin)

lemma find_byte_from_0 [simp]: "find_byte_from b xs 0 = find_byte b xs"
  by (simp add: find_byte_from_def option.map_ident)

lemma find_byte_from_Some_iff:
  "find_byte_from b xs from = Some i \<longleftrightarrow>
     from \<le> i \<and> i < length xs \<and> xs ! i = b \<and> (\<forall>j. from \<le> j \<longrightarrow> j < i \<longrightarrow> xs ! j \<noteq> b)"
proof (cases "from \<le> i")
  case False
  then show ?thesis by (auto simp: find_byte_from_def)
next
  case True
  then obtain k where k: "i = from + k" using le_Suc_ex by blast
  have "find_byte_from b xs from = Some i \<longleftrightarrow> find_byte b (drop from xs) = Some k"
    by (auto simp: find_byte_from_def k)
  also have "\<dots> \<longleftrightarrow> i < length xs \<and> xs ! i = b \<and> (\<forall>j < k. xs ! (from + j) \<noteq> b)"
    by (auto simp: find_byte_Some_iff k)
  also have "(\<forall>j < k. xs ! (from + j) \<noteq> b) \<longleftrightarrow> (\<forall>j. from \<le> j \<longrightarrow> j < i \<longrightarrow> xs ! j \<noteq> b)"
    unfolding k by (metis le_add1 le_add_diff_inverse nat_add_left_cancel_less)
  finally show ?thesis using True by blast
qed

lemma find_byte_from_None_iff:
  "find_byte_from b xs from = None \<longleftrightarrow> (\<forall>j. from \<le> j \<longrightarrow> j < length xs \<longrightarrow> xs ! j \<noteq> b)"
proof -
  have "find_byte_from b xs from = None \<longleftrightarrow> (\<forall>j < length xs - from. xs ! (from + j) \<noteq> b)"
    by (auto simp: find_byte_from_def find_byte_None_iff in_set_conv_nth)
  also have "\<dots> \<longleftrightarrow> (\<forall>j. from \<le> j \<longrightarrow> j < length xs \<longrightarrow> xs ! j \<noteq> b)"
    by (metis add.commute le_add1 le_add_diff_inverse less_diff_conv)
  finally show ?thesis .
qed

end
