(* ===== verification/Fifo.thy ===== *)
theory Fifo
  imports Prelude
begin

text \<open>
  The contract of a bounded first-in-first-out queue, shared by the fixed-slot ring
  (\<open>local_ring_queue\<close>) and by the node list of a channel. A queue is refused a push
  exactly when it holds as many elements as its capacity; a pop takes the oldest one.
\<close>

datatype 'a fifo_op = Push 'a | Pop

text \<open>A run of operations: the values whose push was accepted, the values popped, the
  final queue.\<close>

fun fifo_run ::
  "('a \<Rightarrow> 'q \<Rightarrow> 'q option) \<Rightarrow> ('q \<Rightarrow> ('a \<times> 'q) option) \<Rightarrow> 'a fifo_op list \<Rightarrow> 'q \<Rightarrow> 'a list \<times> 'a list \<times> 'q"
where
  "fifo_run push pop [] q = ([], [], q)"
| "fifo_run push pop (Push x # ops) q =
     (case push x q of
        None \<Rightarrow> fifo_run push pop ops q
      | Some q' \<Rightarrow> (case fifo_run push pop ops q' of (ins, outs, r) \<Rightarrow> (x # ins, outs, r)))"
| "fifo_run push pop (Pop # ops) q =
     (case pop q of
        None \<Rightarrow> fifo_run push pop ops q
      | Some (x, q') \<Rightarrow> (case fifo_run push pop ops q' of (ins, outs, r) \<Rightarrow> (ins, x # outs, r)))"

locale bounded_fifo =
  fixes inv :: "'q \<Rightarrow> bool"
    and contents :: "'q \<Rightarrow> 'a list"
    and cap :: "'q \<Rightarrow> nat"
    and push :: "'a \<Rightarrow> 'q \<Rightarrow> 'q option"
    and pop :: "'q \<Rightarrow> ('a \<times> 'q) option"
  assumes bounded: "inv q \<Longrightarrow> length (contents q) \<le> cap q"
    and push_None: "inv q \<Longrightarrow> push x q = None \<longleftrightarrow> length (contents q) = cap q"
    and push_Some: "inv q \<Longrightarrow> push x q = Some q' \<Longrightarrow>
      inv q' \<and> contents q' = contents q @ [x] \<and> cap q' = cap q"
    and pop_None: "inv q \<Longrightarrow> pop q = None \<longleftrightarrow> contents q = []"
    and pop_Some: "inv q \<Longrightarrow> pop q = Some (x, q') \<Longrightarrow>
      inv q' \<and> contents q = x # contents q' \<and> cap q' = cap q"
begin

lemma run_inv:
  "inv q \<Longrightarrow> fifo_run push pop ops q = (ins, outs, r) \<Longrightarrow> inv r \<and> cap r = cap q"
proof (induction ops arbitrary: q ins outs r)
  case Nil
  then show ?case by simp
next
  case (Cons op ops)
  have step: "inv r \<and> cap r = cap q"
    if "inv q'" "cap q' = cap q" "fifo_run push pop ops q' = (ins', outs', r)" for q' ins' outs'
    using Cons.IH [OF that(1,3)] that(2) by simp
  show ?case
  proof (cases op)
    case (Push x)
    then show ?thesis
      using Cons.prems step push_Some [OF Cons.prems(1), of x]
      by (cases "push x q") (auto split: prod.splits)
  next
    case Pop
    then show ?thesis
      using Cons.prems step pop_Some [OF Cons.prems(1)]
      by (cases "pop q") (auto split: prod.splits)
  qed
qed

text \<open>Nothing is lost, duplicated or reordered by any run.\<close>

lemma run_order:
  "inv q \<Longrightarrow> fifo_run push pop ops q = (ins, outs, r) \<Longrightarrow>
     contents q @ ins = outs @ contents r"
proof (induction ops arbitrary: q ins outs r)
  case Nil
  then show ?case by simp
next
  case (Cons op ops)
  show ?case
  proof (cases op)
    case (Push x)
    show ?thesis
    proof (cases "push x q")
      case None
      with Push Cons show ?thesis by simp
    next
      case (Some q')
      obtain ins' outs' r' where run: "fifo_run push pop ops q' = (ins', outs', r')"
        by (metis prod_cases3)
      from push_Some [OF Cons.prems(1) Some]
      have "inv q'" and "contents q' = contents q @ [x]" by auto
      with Cons.IH [OF _ run] Some Push Cons.prems(2) run show ?thesis by simp
    qed
  next
    case Pop
    show ?thesis
    proof (cases "pop q")
      case None
      with Pop Cons show ?thesis by simp
    next
      case (Some p)
      obtain x q' where p: "p = (x, q')" by fastforce
      obtain ins' outs' r' where run: "fifo_run push pop ops q' = (ins', outs', r')"
        by (metis prod_cases3)
      from pop_Some [OF Cons.prems(1)] Some p
      have "inv q'" and "contents q = x # contents q'" by auto
      with Cons.IH [OF _ run] Some p Pop Cons.prems(2) run show ?thesis by simp
    qed
  qed
qed

lemma run_bounded:
  "inv q \<Longrightarrow> fifo_run push pop ops q = (ins, outs, r) \<Longrightarrow> length (contents r) \<le> cap q"
  using run_inv bounded by metis

end

end
