(* ===== verification/Ring_Queue.thy ===== *)
theory Ring_Queue
  imports Fifo
begin

text \<open>
  \<open>local_ring_queue\<close> (ruvia-core/include/ruvia/core/local_ring_queue.h): a bounded
  single-thread FIFO over slots that stay constructed. \<open>None\<close> at the outer level of a
  result is \<open>std::terminate\<close>; a value whose assignment throws is an \<open>Inl\<close> argument
  of \<open>push_value\<close>.
\<close>

record 'a local_ring_queue =
  rq_storage :: "'a list"
  rq_head :: nat
  rq_size :: nat
  rq_prepared :: bool

definition rq_capacity :: "'a local_ring_queue \<Rightarrow> nat" where
  "rq_capacity q = length (rq_storage q)"

text \<open>The constructor: \<open>None\<close> is the \<open>std::invalid_argument\<close> of a zero capacity.\<close>

definition make_local_ring_queue :: "'a \<Rightarrow> nat \<Rightarrow> 'a local_ring_queue option" where
  "make_local_ring_queue initial capacity =
     (if capacity = 0 then None
      else Some \<lparr>rq_storage = replicate capacity initial, rq_head = 0, rq_size = 0,
                 rq_prepared = False\<rparr>)"

definition slot_index :: "'a local_ring_queue \<Rightarrow> nat \<Rightarrow> nat" where
  "slot_index q offset =
     (let remaining = rq_capacity q - rq_head q in
      if offset \<ge> remaining then offset - remaining else rq_head q + offset)"

definition rq_empty :: "'a local_ring_queue \<Rightarrow> bool" where
  "rq_empty q \<longleftrightarrow> rq_size q = 0"

definition rq_full :: "'a local_ring_queue \<Rightarrow> bool" where
  "rq_full q \<longleftrightarrow> rq_size q = rq_capacity q"

definition prepare_push :: "'a local_ring_queue \<Rightarrow> (nat option \<times> 'a local_ring_queue) option" where
  "prepare_push q =
     (if rq_prepared q then None
      else if rq_size q = rq_capacity q then Some (None, q)
      else Some (Some (slot_index q (rq_size q)), q\<lparr>rq_prepared := True\<rparr>))"

definition commit_push :: "'a local_ring_queue \<Rightarrow> 'a local_ring_queue option" where
  "commit_push q =
     (if \<not> rq_prepared q then None
      else Some (q\<lparr>rq_prepared := False, rq_size := Suc (rq_size q)\<rparr>))"

definition cancel_push :: "'a local_ring_queue \<Rightarrow> 'a local_ring_queue" where
  "cancel_push q = q\<lparr>rq_prepared := False\<rparr>"

definition write_slot :: "nat \<Rightarrow> 'a \<Rightarrow> 'a local_ring_queue \<Rightarrow> 'a local_ring_queue" where
  "write_slot i x q = q\<lparr>rq_storage := (rq_storage q)[i := x]\<rparr>"

text \<open>\<open>push_value\<close>: the assignment either stores the value or throws \<open>e\<close>, in which
  case the hidden reservation is cancelled before the exception leaves.\<close>

definition push_value ::
  "'e + 'a \<Rightarrow> 'a local_ring_queue \<Rightarrow> (('e + bool) \<times> 'a local_ring_queue) option" where
  "push_value input q =
     (case prepare_push q of
        None \<Rightarrow> None
      | Some (None, q') \<Rightarrow> Some (Inr False, q')
      | Some (Some slot, q') \<Rightarrow>
          (case input of
             Inl e \<Rightarrow> Some (Inl e, cancel_push q')
           | Inr x \<Rightarrow> map_option (\<lambda>r. (Inr True, r)) (commit_push (write_slot slot x q'))))"

definition rq_front :: "'a local_ring_queue \<Rightarrow> 'a option" where
  "rq_front q = (if rq_size q = 0 then None else Some (rq_storage q ! rq_head q))"

definition rq_pop :: "'a local_ring_queue \<Rightarrow> 'a local_ring_queue option" where
  "rq_pop q =
     (if rq_size q = 0 then None
      else Some (q\<lparr>rq_head := slot_index q 1, rq_size := rq_size q - 1\<rparr>))"

text \<open>\<open>try_pop\<close>: the inner \<open>None\<close> is the \<open>false\<close> of an empty queue.\<close>

definition rq_try_pop :: "'a local_ring_queue \<Rightarrow> ('a option \<times> 'a local_ring_queue) option" where
  "rq_try_pop q =
     (case rq_front q of
        None \<Rightarrow> Some (None, q)
      | Some x \<Rightarrow> map_option (\<lambda>r. (Some x, r)) (rq_pop q))"

subsection \<open>The abstract queue\<close>

definition rq_inv :: "'a local_ring_queue \<Rightarrow> bool" where
  "rq_inv q \<longleftrightarrow> rq_head q < rq_capacity q \<and> rq_size q \<le> rq_capacity q \<and>
     (rq_prepared q \<longrightarrow> rq_size q < rq_capacity q)"

definition rq_contents :: "'a local_ring_queue \<Rightarrow> 'a list" where
  "rq_contents q = map (\<lambda>i. rq_storage q ! slot_index q i) [0..<rq_size q]"

lemma slot_index_mod:
  "rq_head q < rq_capacity q \<Longrightarrow> i \<le> rq_capacity q \<Longrightarrow>
     slot_index q i = (rq_head q + i) mod rq_capacity q"
  by (auto simp: slot_index_def Let_def mod_if)

lemma slot_index_less:
  "rq_head q < rq_capacity q \<Longrightarrow> i \<le> rq_capacity q \<Longrightarrow> slot_index q i < rq_capacity q"
  by (simp add: slot_index_mod)

lemma slot_index_inj:
  "rq_head q < rq_capacity q \<Longrightarrow> i < rq_capacity q \<Longrightarrow> j < rq_capacity q \<Longrightarrow>
     slot_index q i = slot_index q j \<Longrightarrow> i = j"
  by (auto simp: slot_index_def Let_def split: if_splits)

lemma length_rq_contents [simp]: "length (rq_contents q) = rq_size q"
  by (simp add: rq_contents_def)

lemma nth_rq_contents: "i < rq_size q \<Longrightarrow> rq_contents q ! i = rq_storage q ! slot_index q i"
  by (simp add: rq_contents_def)

lemma make_local_ring_queue_inv:
  "make_local_ring_queue d n = Some q \<Longrightarrow>
     rq_inv q \<and> \<not> rq_prepared q \<and> rq_contents q = [] \<and> rq_capacity q = n"
  by (auto simp: make_local_ring_queue_def rq_inv_def rq_contents_def rq_capacity_def split: if_splits)

text \<open>A committed push of a prepared slot appends the written value.\<close>

lemma rq_contents_push:
  fixes x :: 'a
  assumes "rq_inv q" and "rq_size q < rq_capacity q"
  defines "q' \<equiv> q\<lparr>rq_storage := (rq_storage q)[slot_index q (rq_size q) := x],
                   rq_size := Suc (rq_size q)\<rparr>"
  shows "rq_contents q' = rq_contents q @ [x]"
proof (rule nth_equalityI)
  show "length (rq_contents q') = length (rq_contents q @ [x])"
    by (simp add: q'_def)
next
  fix i
  assume "i < length (rq_contents q')"
  then have i: "i \<le> rq_size q" by (simp add: q'_def)
  have head: "rq_head q < rq_capacity q" using assms(1) by (simp add: rq_inv_def)
  have idx: "slot_index q' j = slot_index q j" for j
    by (simp add: q'_def slot_index_def rq_capacity_def Let_def)
  have lt: "slot_index q (rq_size q) < length (rq_storage q)"
    using slot_index_less [OF head, of "rq_size q"] assms(2) by (simp add: rq_capacity_def)
  have "rq_contents q' ! i = (rq_storage q)[slot_index q (rq_size q) := x] ! slot_index q i"
    using i nth_rq_contents [of i q'] idx [of i] by (simp add: q'_def)
  also have "\<dots> = (rq_contents q @ [x]) ! i"
  proof (cases "i = rq_size q")
    case True
    then show ?thesis using lt by (simp add: nth_append)
  next
    case False
    with i have i': "i < rq_size q" by simp
    then have "slot_index q (rq_size q) \<noteq> slot_index q i"
      using slot_index_inj [OF head, of "rq_size q" i] assms(2) by auto
    with i' show ?thesis by (simp add: nth_append rq_contents_def)
  qed
  finally show "rq_contents q' ! i = (rq_contents q @ [x]) ! i" .
qed

lemma rq_contents_pop:
  assumes "rq_inv q" and "rq_size q \<noteq> 0"
  defines "q' \<equiv> q\<lparr>rq_head := slot_index q 1, rq_size := rq_size q - 1\<rparr>"
  shows "rq_contents q = rq_storage q ! rq_head q # rq_contents q'" and "rq_inv q'"
proof -
  have head: "rq_head q < rq_capacity q" and le: "rq_size q \<le> rq_capacity q"
    using assms(1) by (auto simp: rq_inv_def)
  have cap: "rq_capacity q' = rq_capacity q" by (simp add: q'_def rq_capacity_def)
  have one: "1 \<le> rq_capacity q" using head by simp
  have head': "rq_head q' = (rq_head q + 1) mod rq_capacity q"
    using slot_index_mod [OF head one] by (simp add: q'_def)
  have head'_less: "rq_head q' < rq_capacity q'" using head head' cap by simp
  have idx: "slot_index q' i = slot_index q (Suc i)" if "Suc i < rq_size q" for i
    using that le slot_index_mod [OF head, of "Suc i"] slot_index_mod [OF head'_less, of i]
    by (simp add: cap head' mod_simps)
  have zero: "slot_index q 0 = rq_head q"
    using head by (simp add: slot_index_def Let_def)
  show "rq_contents q = rq_storage q ! rq_head q # rq_contents q'"
  proof (rule nth_equalityI)
    show "length (rq_contents q) = length (rq_storage q ! rq_head q # rq_contents q')"
      using assms(2) by (simp add: q'_def)
  next
    fix i
    assume i: "i < length (rq_contents q)"
    show "rq_contents q ! i = (rq_storage q ! rq_head q # rq_contents q') ! i"
    proof (cases i)
      case 0
      then show ?thesis using i zero by (simp add: rq_contents_def)
    next
      case (Suc j)
      then have "Suc j < rq_size q" using i by simp
      moreover from this have "rq_contents q' ! j = rq_storage q ! slot_index q' j"
        using nth_rq_contents [of j q'] by (simp add: q'_def)
      ultimately show ?thesis using Suc by (simp add: idx nth_rq_contents)
    qed
  qed
  show "rq_inv q'"
    using head'_less le assms(2) unfolding rq_inv_def cap by (auto simp: q'_def)
qed

subsection \<open>The queue operations refine the bounded FIFO\<close>

text \<open>\<open>try_push\<close> and \<open>try_pop\<close> between reservations, as the FIFO contract sees them.\<close>

definition rq_push :: "'a \<Rightarrow> 'a local_ring_queue \<Rightarrow> 'a local_ring_queue option" where
  "rq_push x q =
     (case push_value (Inr x :: unit + 'a) q of Some (Inr True, r) \<Rightarrow> Some r | _ \<Rightarrow> None)"

definition rq_take :: "'a local_ring_queue \<Rightarrow> ('a \<times> 'a local_ring_queue) option" where
  "rq_take q = (case rq_try_pop q of Some (Some x, r) \<Rightarrow> Some (x, r) | _ \<Rightarrow> None)"

definition rq_idle :: "'a local_ring_queue \<Rightarrow> bool" where
  "rq_idle q \<longleftrightarrow> rq_inv q \<and> \<not> rq_prepared q"

lemma push_value_idle:
  assumes "rq_idle q"
  shows "push_value (Inr x) q =
     (if rq_size q = rq_capacity q then Some (Inr False, q)
      else Some (Inr True, q\<lparr>rq_storage := (rq_storage q)[slot_index q (rq_size q) := x],
                             rq_size := Suc (rq_size q)\<rparr>))"
  using assms
  by (simp add: push_value_def prepare_push_def commit_push_def write_slot_def rq_idle_def)

lemma rq_try_pop_eq:
  "rq_try_pop q =
     (if rq_size q = 0 then Some (None, q)
      else Some (Some (rq_storage q ! rq_head q),
                 q\<lparr>rq_head := slot_index q 1, rq_size := rq_size q - 1\<rparr>))"
  by (simp add: rq_try_pop_def rq_front_def rq_pop_def)

interpretation ring: bounded_fifo rq_idle rq_contents rq_capacity rq_push rq_take
proof
  fix q :: "'a local_ring_queue"
  assume inv: "rq_idle q"
  then have size: "rq_size q \<le> rq_capacity q" by (simp add: rq_idle_def rq_inv_def)
  show "length (rq_contents q) \<le> rq_capacity q" using size by simp
  show "rq_push x q = None \<longleftrightarrow> length (rq_contents q) = rq_capacity q" for x
    by (simp add: rq_push_def push_value_idle [OF inv])
  show "rq_idle q' \<and> rq_contents q' = rq_contents q @ [x] \<and> rq_capacity q' = rq_capacity q"
    if "rq_push x q = Some q'" for x q'
  proof -
    from that inv have lt: "rq_size q < rq_capacity q"
      and q': "q' = q\<lparr>rq_storage := (rq_storage q)[slot_index q (rq_size q) := x],
                      rq_size := Suc (rq_size q)\<rparr>"
      using size by (auto simp: rq_push_def push_value_idle split: if_splits)
    from inv lt have "rq_idle q'" unfolding q' by (simp add: rq_idle_def rq_inv_def rq_capacity_def)
    moreover have "rq_contents q' = rq_contents q @ [x]"
      unfolding q' using rq_contents_push [OF _ lt] inv by (simp add: rq_idle_def)
    ultimately show ?thesis unfolding q' by (simp add: rq_capacity_def)
  qed
  show "rq_take q = None \<longleftrightarrow> rq_contents q = []"
    by (simp add: rq_take_def rq_try_pop_eq rq_contents_def)
  show "rq_idle q' \<and> rq_contents q = x # rq_contents q' \<and> rq_capacity q' = rq_capacity q"
    if "rq_take q = Some (x, q')" for x q'
  proof -
    from that have ne: "rq_size q \<noteq> 0" and x: "x = rq_storage q ! rq_head q"
      and q': "q' = q\<lparr>rq_head := slot_index q 1, rq_size := rq_size q - 1\<rparr>"
      by (auto simp: rq_take_def rq_try_pop_eq split: if_splits)
    have "rq_inv q" using inv by (simp add: rq_idle_def)
    from rq_contents_pop [OF this ne] inv show ?thesis
      unfolding x q' by (simp add: rq_idle_def rq_capacity_def)
  qed
qed

text \<open>
  Property C15. From a newly built queue, for every sequence of \<open>try_push\<close> and
  \<open>try_pop\<close> calls: the values popped, followed by the values still held, are exactly the
  values whose push was accepted, in that order, and the queue never holds more than its
  capacity.
\<close>

theorem ring_queue_fifo:
  assumes "make_local_ring_queue d n = Some q"
    and "fifo_run rq_push rq_take ops q = (ins, outs, r)"
  shows "ins = outs @ rq_contents r \<and> length (rq_contents r) \<le> n"
proof -
  from make_local_ring_queue_inv [OF assms(1)]
  have "rq_idle q" and "rq_contents q = []" and "rq_capacity q = n"
    by (auto simp: rq_idle_def)
  with ring.run_order [OF _ assms(2)] ring.run_bounded [OF _ assms(2)] show ?thesis by simp
qed

theorem ring_queue_fifo_witness:
  "fifo_run rq_push rq_take [Push 1, Push 2, Push 3, Pop, Push 4, Pop, Pop]
     \<lparr>rq_storage = [0, 0 :: nat], rq_head = 0, rq_size = 0, rq_prepared = False\<rparr> =
   ([1, 2, 4], [1, 2, 4],
     \<lparr>rq_storage = [4, 2], rq_head = 1, rq_size = 0, rq_prepared = False\<rparr>) \<and>
   [1, 2, 4] = [1, 2, 4] @ rq_contents
     \<lparr>rq_storage = [4, 2 :: nat], rq_head = 1, rq_size = 0, rq_prepared = False\<rparr>"
proof -
  let ?q = "\<lparr>rq_storage = [0, 0 :: nat], rq_head = 0, rq_size = 0, rq_prepared = False\<rparr>"
  have make: "make_local_ring_queue 0 2 = Some ?q"
    by (simp add: make_local_ring_queue_def numeral_2_eq_2)
  have run: "fifo_run rq_push rq_take [Push 1, Push 2, Push 3, Pop, Push 4, Pop, Pop] ?q =
     ([1, 2, 4], [1, 2, 4],
       \<lparr>rq_storage = [4, 2], rq_head = 1, rq_size = 0, rq_prepared = False\<rparr>)"
    by (simp add: rq_push_def rq_take_def rq_try_pop_def rq_front_def rq_pop_def push_value_def
        prepare_push_def commit_push_def write_slot_def slot_index_def rq_capacity_def Let_def)
  show ?thesis using run ring_queue_fifo [OF make run] by simp
qed

end
