(* ===== verification/Wide.thy ===== *)
theory Wide
  imports Prelude
begin

text \<open>
  The 128-bit arithmetic of the rate limiter (ruvia-web/src/ratelimit/rate_limiter.cpp):
  a product of two 64-bit words kept in two words, its predecessor, and its restoring long
  division by a word. All words wrap, as the C++ types do.
\<close>

definition saturating_add :: "u64 \<Rightarrow> u64 \<Rightarrow> u64" where
  "saturating_add left right = (if right > - 1 - left then - 1 else left + right)"

record wide_unsigned =
  wide_high :: u64
  wide_low :: u64

text \<open>The defaulted ordering: lexicographic, high word first.\<close>

definition wide_less :: "wide_unsigned \<Rightarrow> wide_unsigned \<Rightarrow> bool" where
  "wide_less a b \<longleftrightarrow>
     wide_high a < wide_high b \<or> wide_high a = wide_high b \<and> wide_low a < wide_low b"

definition multiply_wide :: "u64 \<Rightarrow> u64 \<Rightarrow> wide_unsigned" where
  "multiply_wide left right =
     (let half_mask = 0xffffffff;
          low_low = (left AND half_mask) * (right AND half_mask);
          low_high = (left AND half_mask) * drop_bit 32 right;
          high_low = drop_bit 32 left * (right AND half_mask);
          high_high = drop_bit 32 left * drop_bit 32 right;
          middle = drop_bit 32 low_low + (low_high AND half_mask) + (high_low AND half_mask)
      in \<lparr>wide_high = high_high + drop_bit 32 low_high + drop_bit 32 high_low + drop_bit 32 middle,
          wide_low = push_bit 32 middle OR (low_low AND half_mask)\<rparr>)"

definition wide_predecessor :: "wide_unsigned \<Rightarrow> wide_unsigned" where
  "wide_predecessor value =
     (if wide_low value = 0 then \<lparr>wide_high = wide_high value - 1, wide_low = - 1\<rparr>
      else \<lparr>wide_high = wide_high value, wide_low = wide_low value - 1\<rparr>)"

text \<open>One iteration of the division loop; the state is the remainder and the quotient.\<close>

definition divide_step :: "u64 \<Rightarrow> u64 \<Rightarrow> nat \<Rightarrow> u64 \<times> u64 \<Rightarrow> u64 \<times> u64" where
  "divide_step low divisor b = (\<lambda>(remainder, quotient).
     let carry = drop_bit 63 remainder \<noteq> 0;
         remainder' = push_bit 1 remainder OR (drop_bit b low AND 1);
         quotient' = push_bit 1 quotient
     in if carry \<or> remainder' \<ge> divisor then (remainder' - divisor, quotient' OR 1)
        else (remainder', quotient'))"

text \<open>The loop from bit \<open>n - 1\<close> down to bit 0.\<close>

fun divide_loop :: "u64 \<Rightarrow> u64 \<Rightarrow> nat \<Rightarrow> u64 \<times> u64 \<Rightarrow> u64 \<times> u64" where
  "divide_loop low divisor 0 s = s"
| "divide_loop low divisor (Suc n) s = divide_loop low divisor n (divide_step low divisor n s)"

definition divide_wide :: "wide_unsigned \<Rightarrow> u64 \<Rightarrow> u64" where
  "divide_wide dividend divisor =
     (if wide_high dividend = 0 then wide_low dividend div divisor
      else snd (divide_loop (wide_low dividend) divisor 64 (wide_high dividend, 0)))"

subsection \<open>The value of a wide word\<close>

definition wide_val :: "wide_unsigned \<Rightarrow> nat" where
  "wide_val w = unat (wide_high w) * 2 ^ 64 + unat (wide_low w)"

lemma unat_u64_less: "unat (w :: u64) < 2 ^ 64"
  using unsigned_less [where 'a = nat and w = w] by simp

lemma unat_u64_max: "unat (- 1 :: u64) = 2 ^ 64 - 1"
  by (simp add: unsigned_minus_1_eq_mask mask_eq_exp_minus_1)

lemma unat_add_small: "unat (a :: u64) + unat b < 2 ^ 64 \<Longrightarrow> unat (a + b) = unat a + unat b"
  by (simp add: unat_word_ariths)

lemma unat_mult_small: "unat (a :: u64) * unat b < 2 ^ 64 \<Longrightarrow> unat (a * b) = unat a * unat b"
  by (simp add: unat_word_ariths)

lemma unat_drop: "unat (drop_bit n (w :: u64)) = unat w div 2 ^ n"
  by (subst unat_drop_bit_eq) (simp add: drop_bit_eq_div)

lemma unat_half_mask: "unat ((w :: u64) AND 0xffffffff) = unat w mod 2 ^ 32"
proof -
  have "w AND 0xffffffff = take_bit 32 w"
    by (simp add: take_bit_eq_mask mask_eq_exp_minus_1)
  then show ?thesis by (simp add: unsigned_take_bit_eq take_bit_eq_mod unat_mod_distrib)
qed

lemma unat_complement: "unat (- 1 - a :: u64) = 2 ^ 64 - 1 - unat a"
proof -
  have "a \<le> - 1" by (simp add: word_le_nat_alt unat_u64_max) (use unat_u64_less [of a] in simp)
  then show ?thesis by (simp add: unat_sub unat_u64_max)
qed

lemma saturating_add_val:
  "unat (saturating_add a b) = min (unat a + unat b) (2 ^ 64 - 1)"
  using unat_u64_less [of a] unat_u64_less [of b]
  by (auto simp: saturating_add_def word_less_nat_alt unat_complement unat_u64_max unat_add_small)

lemma wide_less_val: "wide_less a b \<longleftrightarrow> wide_val a < wide_val b"
proof -
  have "unat (wide_low a) < 2 ^ 64" "unat (wide_low b) < 2 ^ 64"
    by (rule unat_u64_less)+
  then show ?thesis
    by (auto simp: wide_less_def wide_val_def word_less_nat_alt word_unat_eq_iff)
qed

lemma unat_push_32: "unat (push_bit 32 (w :: u64)) = (unat w mod 2 ^ 32) * 2 ^ 32"
proof -
  have "unat (push_bit 32 w) = (unat w * 2 ^ 32) mod 2 ^ 64"
    by (simp add: push_bit_eq_mult unat_word_ariths)
  also have "\<dots> = (unat w mod 2 ^ 32) * 2 ^ 32"
    by (simp add: mult_mod_left)
  finally show ?thesis .
qed

lemma unat_or_low_half:
  "unat (push_bit 32 (m :: u64) OR (l AND 0xffffffff)) = (unat m mod 2 ^ 32) * 2 ^ 32 + unat l mod 2 ^ 32"
proof -
  have disjoint: "push_bit 32 m AND (l AND 0xffffffff) = 0"
  proof (rule bit_word_eqI)
    fix n
    assume "n < LENGTH(64)"
    have "l AND 0xffffffff = take_bit 32 l" by (simp add: take_bit_eq_mask mask_eq_exp_minus_1)
    then show "bit (push_bit 32 m AND (l AND 0xffffffff)) n \<longleftrightarrow> bit (0 :: u64) n"
      by (auto simp: bit_simps)
  qed
  have "push_bit 32 m OR (l AND 0xffffffff) = push_bit 32 m + (l AND 0xffffffff)"
    using disjoint by (intro disjunctive_add [symmetric]) (metis bit_and_iff bit_0_eq bot_apply bot_bool_def)
  moreover have "unat (push_bit 32 m) + unat (l AND 0xffffffff) < 2 ^ 64"
  proof -
    have "unat m mod 2 ^ 32 \<le> 2 ^ 32 - 1" and "unat l mod 2 ^ 32 < (2 :: nat) ^ 32" by simp_all
    then have "(unat m mod 2 ^ 32) * 2 ^ 32 + unat l mod 2 ^ 32 < (2 ^ 32 - 1) * 2 ^ 32 + 2 ^ 32"
      by (simp add: add_le_less_mono)
    then show ?thesis by (simp add: unat_push_32 unat_half_mask)
  qed
  ultimately show ?thesis by (simp add: unat_add_small unat_push_32 unat_half_mask)
qed

lemma half_product_less:
  assumes "a < 2 ^ 32" and "b < (2 :: nat) ^ 32"
  shows "a * b \<le> (2 ^ 32 - 1) * (2 ^ 32 - 1)"
  using assms by (intro mult_le_mono) auto

lemma split_product:
  fixes a0 a1 b0 b1 h :: nat
  assumes "h > 0"
  defines "m \<equiv> a0 * b0 div h + a0 * b1 mod h + a1 * b0 mod h"
  shows "(a1 * h + a0) * (b1 * h + b0) =
    (a1 * b1 + a0 * b1 div h + a1 * b0 div h + m div h) * (h * h) + ((m mod h) * h + a0 * b0 mod h)"
proof -
  have dm: "x = (x div h) * h + x mod h" for x by simp
  have "(a1 * h + a0) * (b1 * h + b0) = a1 * b1 * (h * h) + (a0 * b1) * h + (a1 * b0) * h + a0 * b0"
    by (simp add: algebra_simps)
  also have "\<dots> = a1 * b1 * (h * h) + ((a0 * b1 div h) * h + a0 * b1 mod h) * h
      + ((a1 * b0 div h) * h + a1 * b0 mod h) * h + ((a0 * b0 div h) * h + a0 * b0 mod h)"
    using dm [of "a0 * b1"] dm [of "a1 * b0"] dm [of "a0 * b0"] by argo
  also have "\<dots> = (a1 * b1 + a0 * b1 div h + a1 * b0 div h) * (h * h) + m * h + a0 * b0 mod h"
    unfolding m_def by (simp only: distrib_left distrib_right ac_simps)
  also have "m * h = ((m div h) * h + m mod h) * h" using dm [of m] by argo
  finally show ?thesis by (simp only: distrib_left distrib_right ac_simps)
qed

lemma multiply_wide_val: "wide_val (multiply_wide left right) = unat left * unat right"
proof -
  let ?h = "2 ^ 32 :: nat"
  define a0 where "a0 = unat left mod ?h"
  define a1 where "a1 = unat left div ?h"
  define b0 where "b0 = unat right mod ?h"
  define b1 where "b1 = unat right div ?h"
  define m where "m = a0 * b0 div ?h + a0 * b1 mod ?h + a1 * b0 mod ?h"
  have bounds: "a0 < ?h" "b0 < ?h" "a1 < ?h" "b1 < ?h"
    using unat_u64_less [of left] unat_u64_less [of right]
    by (simp_all add: a0_def a1_def b0_def b1_def less_mult_imp_div_less)
  have small: "x * y < 2 ^ 64" if "x < ?h" "y < ?h" for x y
    using half_product_less [OF that] by simp
  define ll where "ll = (left AND 0xffffffff) * (right AND 0xffffffff)"
  define lh where "lh = (left AND 0xffffffff) * drop_bit 32 right"
  define hl where "hl = drop_bit 32 left * (right AND 0xffffffff)"
  define hh where "hh = drop_bit 32 left * drop_bit 32 right"
  define mid where "mid = drop_bit 32 ll + (lh AND 0xffffffff) + (hl AND 0xffffffff)"
  have ll: "unat ll = a0 * b0"
    using small [of a0 b0] bounds by (simp add: ll_def unat_mult_small unat_half_mask a0_def b0_def)
  have lh: "unat lh = a0 * b1"
    using small [of a0 b1] bounds by (simp add: lh_def unat_mult_small unat_half_mask unat_drop a0_def b1_def)
  have hl: "unat hl = a1 * b0"
    using small [of a1 b0] bounds by (simp add: hl_def unat_mult_small unat_half_mask unat_drop a1_def b0_def)
  have hh: "unat hh = a1 * b1"
    using small [of a1 b1] bounds by (simp add: hh_def unat_mult_small unat_drop a1_def b1_def)
  have m_small: "m < 3 * ?h"
    using bounds half_product_less [of a0 b0]
    by (simp add: m_def)
  have mid: "unat mid = m"
    using m_small by (simp add: mid_def unat_add_small unat_half_mask unat_drop ll lh hl m_def)
  have wide: "multiply_wide left right =
      \<lparr>wide_high = hh + drop_bit 32 lh + drop_bit 32 hl + drop_bit 32 mid,
       wide_low = push_bit 32 mid OR (ll AND 0xffffffff)\<rparr>"
    by (simp add: multiply_wide_def Let_def ll_def lh_def hl_def hh_def mid_def)
  define high where "high = a1 * b1 + a0 * b1 div ?h + a1 * b0 div ?h + m div ?h"
  have split: "unat left * unat right = high * (?h * ?h) + ((m mod ?h) * ?h + a0 * b0 mod ?h)"
    using split_product [of ?h a1 a0 b1 b0] by (simp add: high_def m_def a0_def a1_def b0_def b1_def)
  have "unat left * unat right < 2 ^ 64 * 2 ^ 64"
    using unat_u64_less [of left] unat_u64_less [of right] by (rule mult_strict_mono) simp_all
  then have "high < 2 ^ 64" using split by simp
  then have "unat (wide_high (multiply_wide left right)) = high"
    by (simp add: wide high_def unat_add_small unat_drop hh lh hl mid)
  then show ?thesis
    by (simp add: wide_val_def wide split unat_or_low_half mid ll)
qed


subsection \<open>Restoring division\<close>

lemma push_or_low_bit: "push_bit 1 (r :: u64) OR (x AND 1) = 2 * r + (x AND 1)"
proof -
  have "push_bit 1 r OR (x AND 1) = push_bit 1 r + (x AND 1)"
    by (rule disjunctive_add [symmetric])
      (simp only: bit_push_bit_iff bit_and_iff bit_1_iff, auto)
  then show ?thesis by (simp add: push_bit_eq_mult mult.commute)
qed

lemma unat_and_1: "unat ((x :: u64) AND 1) = unat x mod 2"
proof -
  have "x AND 1 = x mod 2" by (simp add: and_one_eq)
  then show ?thesis by (simp add: unat_mod_distrib)
qed

lemma unat_shift_in:
  "unat (push_bit 1 (r :: u64) OR (drop_bit b low AND 1)) =
     (2 * unat r + unat low div 2 ^ b mod 2) mod 2 ^ 64"
  unfolding push_or_low_bit by (simp add: unat_word_ariths unat_and_1 unat_drop mod_simps)

lemma carry_iff: "drop_bit 63 (r :: u64) \<noteq> 0 \<longleftrightarrow> 2 ^ 63 \<le> unat r"
proof -
  have "drop_bit 63 r = 0 \<longleftrightarrow> unat r div 2 ^ 63 = 0"
    by (metis unat_drop unat_eq_zero)
  then show ?thesis by (simp add: div_eq_0_iff not_less)
qed

lemma div_pow_step:
  fixes x h l :: nat
  assumes "x = h * 2 ^ 64 + l" and "n < 64"
  shows "x div 2 ^ n = 2 * (x div 2 ^ Suc n) + l div 2 ^ n mod 2"
proof -
  have "x div 2 ^ n = 2 * (x div 2 ^ n div 2) + x div 2 ^ n mod 2" by simp
  moreover have "x div 2 ^ n div 2 = x div 2 ^ Suc n"
    by (simp add: div_mult2_eq [symmetric] mult.commute)
  moreover have "x div 2 ^ n = h * 2 ^ (64 - n) + l div 2 ^ n"
  proof -
    have "h * 2 ^ 64 = (h * 2 ^ (64 - n)) * 2 ^ n" using assms(2) by (simp flip: power_add)
    then have "x = l + (h * 2 ^ (64 - n)) * 2 ^ n" using assms(1) by (simp only: add.commute)
    moreover have "(2 :: nat) ^ n \<noteq> 0" by simp
    ultimately show ?thesis by (metis add.commute div_mult_self1)
  qed
  moreover have "(h * 2 ^ (64 - n) + l div 2 ^ n) mod 2 = l div 2 ^ n mod 2"
  proof -
    have "even (h * 2 ^ (64 - n))" using assms(2) by simp
    then have "h * 2 ^ (64 - n) mod 2 = 0" by (simp only: even_iff_mod_2_eq_zero)
    then show ?thesis by (metis add_0 mod_add_left_eq)
  qed
  ultimately show ?thesis by simp
qed

lemma divide_step_val:
  assumes inv: "unat q * unat d + unat r = X" and rd: "unat r < unat d"
    and q: "unat q < 2 ^ k" and k: "k < 64"
    and step: "divide_step low d b (r, q) = (r', q')"
  shows "unat q' * unat d + unat r' = 2 * X + unat low div 2 ^ b mod 2
    \<and> unat r' < unat d \<and> unat q' < 2 ^ Suc k"
proof -
  define s where "s = 2 * unat r + unat low div 2 ^ b mod 2"
  have bit: "unat low div 2 ^ b mod 2 \<le> 1" by simp
  have s_less: "s < 2 * unat d" using rd bit unfolding s_def by linarith
  have r64: "unat r < 2 ^ 64" and d64: "unat d < 2 ^ 64" by (rule unat_u64_less)+
  define r1 where "r1 = push_bit 1 r OR (drop_bit b low AND 1)"
  define q1 where "q1 = push_bit 1 q"
  have r1: "unat r1 = s mod 2 ^ 64" unfolding s_def r1_def by (rule unat_shift_in)
  have q2: "unat q1 = 2 * unat q"
  proof -
    have "2 ^ Suc k \<le> (2 :: nat) ^ 64" using k by (intro power_increasing) auto
    then have "2 * unat q < 2 ^ 64" using q by simp
    then show ?thesis by (simp add: q1_def push_bit_eq_mult unat_word_ariths mult.commute)
  qed
  have q2': "unat (q1 OR 1) = 2 * unat q + 1"
  proof -
    have "2 ^ Suc k \<le> (2 :: nat) ^ 64" using k by (intro power_increasing) auto
    then have "2 * unat q + 1 < 2 ^ 64" using q by simp
    moreover have "q1 OR 1 = 2 * q + 1" using push_or_low_bit [of q 1] by (simp add: q1_def)
    ultimately show ?thesis by (simp add: unat_word_ariths mod_simps)
  qed
  have test: "drop_bit 63 r \<noteq> 0 \<or> r1 \<ge> d \<longleftrightarrow> unat d \<le> s"
  proof (cases "2 ^ 63 \<le> unat r")
    case True
    then have "2 ^ 64 \<le> s" by (simp add: s_def)
    then show ?thesis using d64 True by (simp add: carry_iff)
  next
    case False
    then have "s < 2 ^ 64" using bit by (simp add: s_def)
    then show ?thesis using False by (simp add: carry_iff word_le_nat_alt r1)
  qed
  show ?thesis
  proof (cases "unat d \<le> s")
    case True
    then have eq: "r' = r1 - d" "q' = q1 OR 1"
      using step test by (auto simp: divide_step_def Let_def r1_def q1_def)
    have "unat (r1 - d) = s - unat d"
    proof (cases "s < 2 ^ 64")
      case True
      then have "d \<le> r1" using \<open>unat d \<le> s\<close> by (simp add: word_le_nat_alt r1)
      then show ?thesis using True by (simp add: unat_sub r1)
    next
      case False
      then have m: "unat r1 = s - 2 ^ 64" using r1 s_less d64 by (simp add: mod_if)
      then have "unat r1 < unat d" using s_less d64 False by linarith
      then show ?thesis using m False d64 by (simp add: unat_sub_if_size word_size)
    qed
    then show ?thesis using True s_less inv q unfolding eq q2' by (simp add: s_def algebra_simps)
  next
    case False
    then have eq: "r' = r1" "q' = q1"
      using step test by (auto simp: divide_step_def Let_def r1_def q1_def)
    have "unat r1 = s" using r1 False d64 by simp
    then show ?thesis using False inv q unfolding eq q2 by (simp add: s_def algebra_simps)
  qed
qed

lemma divide_loop_val:
  assumes "n \<le> 64" and "X = unat h * 2 ^ 64 + unat low"
    and "unat q * unat d + unat r = X div 2 ^ n" and "unat r < unat d" and "unat q < 2 ^ (64 - n)"
    and "divide_loop low d n (r, q) = (r', q')"
  shows "unat q' * unat d + unat r' = X \<and> unat r' < unat d"
  using assms
proof (induction n arbitrary: r q)
  case 0
  then show ?case by simp
next
  case (Suc n)
  obtain r1 q1 where step: "divide_step low d n (r, q) = (r1, q1)" by fastforce
  have "unat q1 * unat d + unat r1 = 2 * (X div 2 ^ Suc n) + unat low div 2 ^ n mod 2
      \<and> unat r1 < unat d \<and> unat q1 < 2 ^ Suc (64 - Suc n)"
    using Suc.prems(1) by (intro divide_step_val [OF Suc.prems(3,4,5) _ step]) simp
  moreover have "(2 :: nat) ^ Suc (64 - Suc n) = 2 ^ (64 - n)"
    using Suc.prems(1) by (metis Suc_diff_Suc Suc_le_lessD)
  moreover have "X div 2 ^ n = 2 * (X div 2 ^ Suc n) + unat low div 2 ^ n mod 2"
    using div_pow_step [OF Suc.prems(2)] Suc.prems(1) by simp
  ultimately show ?case
    using Suc.IH [OF _ Suc.prems(2), of q1 r1] Suc.prems(1,6) step by simp
qed

lemma divide_wide_val:
  assumes "wide_high dividend < divisor"
  shows "unat (divide_wide dividend divisor) = wide_val dividend div unat divisor"
proof (cases "wide_high dividend = 0")
  case True
  then show ?thesis by (simp add: divide_wide_def wide_val_def unat_div_distrib)
next
  case False
  obtain r q where loop: "divide_loop (wide_low dividend) divisor 64 (wide_high dividend, 0) = (r, q)"
    by fastforce
  have "unat q * unat divisor + unat r = wide_val dividend \<and> unat r < unat divisor"
    using assms unat_u64_less [of "wide_low dividend"]
    by (intro divide_loop_val [OF _ _ _ _ _ loop]) (simp_all add: wide_val_def word_less_nat_alt)
  moreover from this have "wide_val dividend div unat divisor = unat q"
    by (intro div_nat_eqI) (auto simp: algebra_simps)
  ultimately show ?thesis using False loop by (simp add: divide_wide_def)
qed

lemma wide_predecessor_val:
  assumes "wide_val value \<noteq> 0"
  shows "wide_val (wide_predecessor value) = wide_val value - 1"
proof (cases "wide_low value = 0")
  case True
  then have "wide_high value \<noteq> 0" using assms by (auto simp: wide_val_def)
  then have "unat (wide_high value - 1) = unat (wide_high value) - 1"
    and "unat (wide_high value) \<noteq> 0"
    by (simp_all add: unat_minus_one unat_eq_zero)
  then show ?thesis
    using True by (cases "unat (wide_high value)") (simp_all add: wide_predecessor_def wide_val_def unat_u64_max)
next
  case False
  then have "unat (wide_low value - 1) = unat (wide_low value) - 1" and "unat (wide_low value) \<noteq> 0"
    by (simp_all add: unat_minus_one unat_eq_zero)
  then show ?thesis using False by (simp add: wide_predecessor_def wide_val_def)
qed

end
