(* ===== verification/Rate_Limiter.thy ===== *)
theory Rate_Limiter
  imports Wide
begin

text \<open>
  The sliding-window rate limiter of one worker
  (ruvia-web/src/ratelimit/rate_limiter.h and rate_limiter.cpp): an open-addressed table of
  slots, each holding one key's current and previous window counts. An instant is the
  number of milliseconds of the steady clock. A decision is \<open>None\<close> (admitted) or the
  rejection that is sent to the client.
\<close>

datatype rate_limit_overflow_policy = overflow_deny | overflow_allow

record rate_limit_rule =
  rule_max_requests :: u64
  rule_window :: int
  rule_overflow_policy :: rate_limit_overflow_policy

record rate_limit_rejection =
  retry_after_ms :: u64
  reset_after_ms :: u64
  max_requests :: u64

record rate_limit_scope =
  scope_route :: u64
  scope_rule :: u64

record rate_limit_slot =
  slot_scope :: rate_limit_scope
  slot_key_hash :: u64
  window_start_ms :: u64
  slot_stale_at_ms :: u64
  current_count :: u64
  previous_count :: u64
  slot_key_size :: byte
  slot_key :: bytes

definition rate_limit_max_key_bytes :: nat where
  "rate_limit_max_key_bytes = 64"

definition rate_limit_probe_window :: nat where
  "rate_limit_probe_window = 32"

definition empty_slot :: rate_limit_slot where
  "empty_slot = \<lparr>slot_scope = \<lparr>scope_route = 0, scope_rule = 0\<rparr>, slot_key_hash = 0,
     window_start_ms = 0, slot_stale_at_ms = 0, current_count = 0, previous_count = 0,
     slot_key_size = 0, slot_key = replicate rate_limit_max_key_bytes 0\<rparr>"

subsection \<open>Configuration\<close>

text \<open>The checks of \<open>set_rate_limit\<close>: a positive limit, a positive window (a signed 64-bit
  count of milliseconds) and a capacity with a single bit set.\<close>

datatype rate_limit_config_error = zero_max_requests | nonpositive_window | capacity_not_power_of_two

definition has_single_bit :: "nat \<Rightarrow> bool" where
  "has_single_bit c \<longleftrightarrow> c \<in> set (map (\<lambda>k. 2 ^ k) [0..<64])"

definition set_rate_limit :: "rate_limit_rule \<Rightarrow> nat \<Rightarrow> rate_limit_config_error + rate_limit_rule \<times> nat" where
  "set_rate_limit rule capacity =
     (if rule_max_requests rule = 0 then Inl zero_max_requests
      else if rule_window rule \<le> 0 then Inl nonpositive_window
      else if \<not> has_single_bit capacity then Inl capacity_not_power_of_two
      else Inr (rule, capacity))"

text \<open>A rule the configuration accepts; the window fits its signed type.\<close>

definition rule_ok :: "rate_limit_rule \<Rightarrow> bool" where
  "rule_ok rule \<longleftrightarrow> rule_max_requests rule \<noteq> 0 \<and> 0 < rule_window rule \<and> rule_window rule < 2 ^ 63"

lemma set_rate_limit_ok:
  "set_rate_limit rule capacity = Inr r \<Longrightarrow> rule_window rule < 2 ^ 63 \<Longrightarrow> rule_ok rule \<and> has_single_bit capacity"
  by (auto simp: set_rate_limit_def rule_ok_def split: if_splits)

subsection \<open>The keyed hash (SipHash-1-3)\<close>

record siphash_state =
  sip_v0 :: u64
  sip_v1 :: u64
  sip_v2 :: u64
  sip_v3 :: u64

definition siphash_round :: "siphash_state \<Rightarrow> siphash_state" where
  "siphash_round s =
     (let v0 = sip_v0 s + sip_v1 s;
          v1 = word_rotl 13 (sip_v1 s);
          v1 = v1 XOR v0;
          v0 = word_rotl 32 v0;
          v2 = sip_v2 s + sip_v3 s;
          v3 = word_rotl 16 (sip_v3 s);
          v3 = v3 XOR v2;
          v0 = v0 + v3;
          v3 = word_rotl 21 v3;
          v3 = v3 XOR v0;
          v2 = v2 + v1;
          v1 = word_rotl 17 v1;
          v1 = v1 XOR v2;
          v2 = word_rotl 32 v2
      in \<lparr>sip_v0 = v0, sip_v1 = v1, sip_v2 = v2, sip_v3 = v3\<rparr>)"

definition siphash_compress :: "u64 \<Rightarrow> siphash_state \<Rightarrow> siphash_state" where
  "siphash_compress word s =
     (let s' = siphash_round (s\<lparr>sip_v3 := sip_v3 s XOR word\<rparr>)
      in s'\<lparr>sip_v0 := sip_v0 s' XOR word\<rparr>)"

fun load_little_endian :: "bytes \<Rightarrow> u64" where
  "load_little_endian [] = 0"
| "load_little_endian (b # bs) = ucast b OR push_bit 8 (load_little_endian bs)"

definition store_little_endian :: "u64 \<Rightarrow> bytes" where
  "store_little_endian value = map (\<lambda>index. ucast (drop_bit (8 * index) value)) [0..<8]"

text \<open>The loop over the whole words of the message, then its tail with the length byte.\<close>

fun siphash_words :: "bytes \<Rightarrow> nat \<Rightarrow> siphash_state \<Rightarrow> siphash_state" where
  "siphash_words message 0 s = s"
| "siphash_words message (Suc n) s =
     siphash_words (drop 8 message) n (siphash_compress (load_little_endian (take 8 message)) s)"

definition siphash13 :: "u64 \<times> u64 \<Rightarrow> bytes \<Rightarrow> u64" where
  "siphash13 key message =
     (let s0 = \<lparr>sip_v0 = fst key XOR 0x736f6d6570736575, sip_v1 = snd key XOR 0x646f72616e646f6d,
                sip_v2 = fst key XOR 0x6c7967656e657261, sip_v3 = snd key XOR 0x7465646279746573\<rparr>;
          whole_words = length message - length message mod 8;
          s1 = siphash_words message (whole_words div 8) s0;
          s2 = siphash_compress
                 (push_bit 56 (word_of_nat (length message)) OR load_little_endian (drop whole_words message)) s1;
          s3 = s2\<lparr>sip_v2 := sip_v2 s2 XOR 0xff\<rparr>;
          s4 = siphash_round (siphash_round (siphash_round s3))
      in sip_v0 s4 XOR sip_v1 s4 XOR sip_v2 s4 XOR sip_v3 s4)"

definition key_hash :: "u64 \<times> u64 \<Rightarrow> rate_limit_scope \<Rightarrow> bytes \<Rightarrow> u64" where
  "key_hash hash_key scope key =
     (let message = store_little_endian (scope_route scope) @ store_little_endian (scope_rule scope) @ key;
          hash = siphash13 hash_key message
      in if hash = 0 then 1 else hash)"


subsection \<open>Windows\<close>

definition instant_ms :: "int \<Rightarrow> u64" where
  "instant_ms now_ms = (if now_ms \<le> 0 then 0 else word_of_int now_ms)"

definition window_length_ms :: "rate_limit_rule \<Rightarrow> u64" where
  "window_length_ms rule = word_of_int (rule_window rule)"

definition stale_at_ms :: "u64 \<Rightarrow> u64 \<Rightarrow> u64" where
  "stale_at_ms window_start window = saturating_add window_start (saturating_add window window)"

definition elapsed_ms :: "u64 \<Rightarrow> u64 \<Rightarrow> u64" where
  "elapsed_ms window_start now = (if now \<le> window_start then 0 else now - window_start)"

definition key_equals :: "rate_limit_slot \<Rightarrow> rate_limit_scope \<Rightarrow> bytes \<Rightarrow> u64 \<Rightarrow> bool" where
  "key_equals slot scope key hash \<longleftrightarrow>
     slot_key_hash slot = hash \<and> slot_scope slot = scope \<and> unat (slot_key_size slot) = length key \<and>
     key = take (unat (slot_key_size slot)) (slot_key slot)"

definition stale :: "rate_limit_slot \<Rightarrow> u64 \<Rightarrow> bool" where
  "stale slot now \<longleftrightarrow> slot_key_hash slot \<noteq> 0 \<and> slot_stale_at_ms slot \<le> now"

definition roll_window :: "rate_limit_slot \<Rightarrow> u64 \<Rightarrow> u64 \<Rightarrow> rate_limit_slot" where
  "roll_window slot window now =
     (let elapsed = elapsed_ms (window_start_ms slot) now in
      if elapsed < window then slot
      else
        (let slot' =
           (if elapsed - window < window
            then slot\<lparr>previous_count := current_count slot,
                      window_start_ms := window_start_ms slot + window\<rparr>
            else slot\<lparr>previous_count := 0, window_start_ms := now\<rparr>)
         in slot'\<lparr>current_count := 0,
                  slot_stale_at_ms := stale_at_ms (window_start_ms slot') window\<rparr>))"

definition refusal :: "rate_limit_rule \<Rightarrow> u64 \<Rightarrow> u64 \<Rightarrow> u64 \<Rightarrow> u64 \<Rightarrow> rate_limit_rejection" where
  "refusal rule previous current window remaining =
     (let limit = rule_max_requests rule;
          retry =
            (if current \<ge> limit then saturating_add remaining 1
             else remaining - divide_wide (wide_predecessor (multiply_wide (limit - current) window)) previous);
          reset = (if current = 0 then remaining else saturating_add remaining window)
      in \<lparr>retry_after_ms = retry, reset_after_ms = reset, max_requests = rule_max_requests rule\<rparr>)"

definition consume ::
  "rate_limit_slot \<Rightarrow> rate_limit_rule \<Rightarrow> u64 \<Rightarrow> rate_limit_rejection option \<times> rate_limit_slot" where
  "consume slot rule now =
     (let window = window_length_ms rule;
          slot = roll_window slot window now;
          remaining = window - elapsed_ms (window_start_ms slot) now;
          limit = rule_max_requests rule;
          previous = previous_count slot;
          current = current_count slot
      in if current < limit \<and>
            wide_less (multiply_wide previous remaining) (multiply_wide (limit - current) window)
         then (None, slot\<lparr>current_count := current + 1\<rparr>)
         else (Some (refusal rule previous current window remaining), slot))"

definition consume_new_key ::
  "rate_limit_slot \<Rightarrow> rate_limit_scope \<Rightarrow> bytes \<Rightarrow> u64 \<Rightarrow> rate_limit_rule \<Rightarrow> u64
     \<Rightarrow> rate_limit_rejection option \<times> rate_limit_slot" where
  "consume_new_key slot scope key hash rule now =
     consume (slot\<lparr>slot_scope := scope, slot_key_hash := hash, window_start_ms := now,
                   slot_stale_at_ms := stale_at_ms now (window_length_ms rule),
                   current_count := 0, previous_count := 0,
                   slot_key_size := word_of_nat (length key),
                   slot_key := key @ drop (length key) (slot_key slot)\<rparr>) rule now"

definition overflow_decision :: "rate_limit_rule \<Rightarrow> rate_limit_rejection option" where
  "overflow_decision rule =
     (case rule_overflow_policy rule of
        overflow_allow \<Rightarrow> None
      | overflow_deny \<Rightarrow> Some \<lparr>retry_after_ms = 1, reset_after_ms = 1, max_requests = rule_max_requests rule\<rparr>)"

subsection \<open>The table\<close>

record rate_limiter =
  default_rule_per_worker :: "rate_limit_rule option"
  limiter_slots :: "rate_limit_slot list"
  limiter_hash_key :: "u64 \<times> u64"


text \<open>What the probe loop ends with: a slot to install the key in, the slot that holds it, or
  neither.\<close>

datatype probe_result = install_at nat | found_at nat | probe_exhausted

fun probe_loop ::
  "rate_limit_slot list \<Rightarrow> rate_limit_scope \<Rightarrow> bytes \<Rightarrow> u64 \<Rightarrow> u64 \<Rightarrow> nat list \<Rightarrow> nat option \<Rightarrow> probe_result"
where
  "probe_loop slots scope key hash now [] reclaimable =
     (case reclaimable of Some i \<Rightarrow> install_at i | None \<Rightarrow> probe_exhausted)"
| "probe_loop slots scope key hash now (i # is) reclaimable =
     (let slot = slots ! i in
      if slot_key_hash slot = 0
      then install_at (case reclaimable of Some j \<Rightarrow> j | None \<Rightarrow> i)
      else if key_equals slot scope key hash then found_at i
      else probe_loop slots scope key hash now is
             (if reclaimable = None \<and> stale slot now then Some i else reclaimable))"

definition probe_indices :: "nat \<Rightarrow> u64 \<Rightarrow> nat list" where
  "probe_indices slot_count hash =
     (let mask = slot_count - 1;
          start = unat hash AND mask
      in map (\<lambda>probe_value. (start + probe_value) AND mask) [0..<min slot_count rate_limit_probe_window])"

definition limiter_allow ::
  "rate_limiter \<Rightarrow> rate_limit_scope \<Rightarrow> bytes \<Rightarrow> rate_limit_rule \<Rightarrow> int
     \<Rightarrow> rate_limit_rejection option \<times> rate_limiter" where
  "limiter_allow limiter scope key rule now =
     (if limiter_slots limiter = [] \<or> length key > rate_limit_max_key_bytes
      then (overflow_decision rule, limiter)
      else
        let now = instant_ms now;
            hash = key_hash (limiter_hash_key limiter) scope key;
            slots = limiter_slots limiter
        in case probe_loop slots scope key hash now (probe_indices (length slots) hash) None of
             install_at i \<Rightarrow>
               (let (decision, slot) = consume_new_key (slots ! i) scope key hash rule now
                in (decision, limiter\<lparr>limiter_slots := slots[i := slot]\<rparr>))
           | found_at i \<Rightarrow>
               (let (decision, slot) = consume (slots ! i) rule now
                in (decision, limiter\<lparr>limiter_slots := slots[i := slot]\<rparr>))
           | probe_exhausted \<Rightarrow> (overflow_decision rule, limiter))"

definition allow_default ::
  "rate_limiter \<Rightarrow> bytes \<Rightarrow> int \<Rightarrow> rate_limit_rejection option \<times> rate_limiter" where
  "allow_default limiter remote_address now =
     (case default_rule_per_worker limiter of
        None \<Rightarrow> (None, limiter)
      | Some rule \<Rightarrow> limiter_allow limiter \<lparr>scope_route = 1, scope_rule = 0\<rparr> remote_address rule now)"

definition allow_route ::
  "rate_limiter \<Rightarrow> u64 \<Rightarrow> u64 \<Rightarrow> bytes \<Rightarrow> rate_limit_rule \<Rightarrow> int
     \<Rightarrow> rate_limit_rejection option \<times> rate_limiter" where
  "allow_route limiter route_scope rule_declaration remote_address rule now =
     limiter_allow limiter
       \<lparr>scope_route = (if route_scope = 0 then 2 else route_scope), scope_rule = rule_declaration\<rparr>
       remote_address rule now"

definition whole_seconds_after :: "u64 \<Rightarrow> u64" where
  "whole_seconds_after delay = delay div 1000 + (if delay mod 1000 = 0 then 0 else 1)"


subsection \<open>The sliding window over the natural numbers\<close>

text \<open>The rule as the documentation states it, on exact integers: a window start, the count
  of the current window and the count of the previous one.\<close>

type_synonym window_counts = "nat \<times> nat \<times> nat"

definition spec_roll :: "nat \<Rightarrow> nat \<Rightarrow> window_counts \<Rightarrow> window_counts" where
  "spec_roll window now = (\<lambda>(start, current, previous).
     if now - start < window then (start, current, previous)
     else if now - start < 2 * window then (start + window, 0, current)
     else (now, 0, 0))"

definition spec_admits :: "nat \<Rightarrow> nat \<Rightarrow> nat \<Rightarrow> window_counts \<Rightarrow> bool" where
  "spec_admits limit window now v =
     (let (start, current, previous) = spec_roll window now v
      in previous * (window - (now - start)) + current * window < limit * window)"

definition spec_consume :: "nat \<Rightarrow> nat \<Rightarrow> nat \<Rightarrow> window_counts \<Rightarrow> bool \<times> window_counts" where
  "spec_consume limit window now v =
     (let (start, current, previous) = spec_roll window now v
      in if spec_admits limit window now v then (True, (start, current + 1, previous))
         else (False, (start, current, previous)))"

definition window_view :: "rate_limit_slot \<Rightarrow> window_counts" where
  "window_view slot = (unat (window_start_ms slot), unat (current_count slot), unat (previous_count slot))"

definition rule_window_nat :: "rate_limit_rule \<Rightarrow> nat" where
  "rule_window_nat rule = nat (rule_window rule)"

lemma window_length_nat:
  "rule_ok rule \<Longrightarrow> unat (window_length_ms rule) = rule_window_nat rule \<and> 0 < rule_window_nat rule
     \<and> rule_window_nat rule < 2 ^ 63"
  by (auto simp: rule_ok_def window_length_ms_def rule_window_nat_def unsigned_of_int
      take_bit_int_eq_self nat_less_iff)

lemma unat_sub_le: "(b :: u64) \<le> a \<Longrightarrow> unat (a - b) = unat a - unat b"
  by (simp add: unat_sub)

lemma elapsed_nat: "unat (elapsed_ms start now) = unat now - unat start"
  by (auto simp: elapsed_ms_def unat_sub word_le_nat_alt)

text \<open>Rolling the words is rolling the numbers: nothing wraps.\<close>

lemma roll_window_view:
  assumes W: "unat window = w" "0 < w" "w < 2 ^ 63"
  shows "window_view (roll_window slot window now) = spec_roll w (unat now) (window_view slot)"
proof -
  let ?e = "elapsed_ms (window_start_ms slot) now"
  have e: "unat ?e = unat now - unat (window_start_ms slot)" by (rule elapsed_nat)
  have less: "?e < window \<longleftrightarrow> unat now - unat (window_start_ms slot) < w"
    by (simp add: word_less_nat_alt e W)
  show ?thesis
  proof (cases "?e < window")
    case True
    then show ?thesis using less by (simp add: roll_window_def Let_def spec_roll_def window_view_def)
  next
    case False
    then have ge: "w \<le> unat now - unat (window_start_ms slot)" using less by simp
    have diff: "unat (?e - window) = unat now - unat (window_start_ms slot) - w"
      using False by (simp add: unat_sub_le e W not_less)
    have less2: "?e - window < window \<longleftrightarrow> unat now - unat (window_start_ms slot) < 2 * w"
      using ge by (auto simp: word_less_nat_alt diff W)
    have "unat (window_start_ms slot) + w \<le> unat now" using ge W(2) by linarith
    then have "unat (window_start_ms slot) + unat window < 2 ^ 64"
      using unat_u64_less [of now] W(1) by linarith
    then have "unat (window_start_ms slot + window) = unat (window_start_ms slot) + w"
      by (simp add: unat_add_small W)
    then show ?thesis using False less less2
      by (simp add: roll_window_def Let_def spec_roll_def window_view_def)
  qed
qed

lemma roll_window_start:
  assumes "(start, current, previous) = spec_roll w now v" and "0 < w"
  shows "now - start < w"
  using assms by (auto simp: spec_roll_def split: prod.splits if_splits)

lemma admit_arith:
  fixes previous current limit remaining w :: nat
  assumes "0 < w"
  shows "current < limit \<and> previous * remaining < (limit - current) * w
    \<longleftrightarrow> previous * remaining + current * w < limit * w"
proof (cases "current < limit")
  case True
  then have "limit * w = (limit - current) * w + current * w"
    by (metis add_mult_distrib le_add_diff_inverse2 less_imp_le_nat)
  with True show ?thesis by simp
next
  case False
  then have "limit * w \<le> current * w" by simp
  with False show ?thesis by linarith
qed

lemma unat_one_more: "(a :: u64) < b \<Longrightarrow> unat (a + 1) = unat a + 1"
  using unat_u64_less [of b] by (simp add: word_less_nat_alt unat_add_small)

lemma consume_refines:
  assumes ok: "rule_ok rule"
  shows "spec_consume (unat (rule_max_requests rule)) (rule_window_nat rule) (unat now) (window_view slot)
     = (fst (consume slot rule now) = None, window_view (snd (consume slot rule now)))"
proof -
  let ?w = "rule_window_nat rule"
  let ?rolled = "roll_window slot (window_length_ms rule) now"
  define v where "v = window_view slot"
  have W: "unat (window_length_ms rule) = ?w" "0 < ?w" "?w < 2 ^ 63"
    using window_length_nat [OF ok] by auto
  have view: "spec_roll ?w (unat now) v =
      (unat (window_start_ms ?rolled), unat (current_count ?rolled), unat (previous_count ?rolled))"
    using roll_window_view [OF W, of slot now] by (simp add: v_def window_view_def)
  let ?remaining = "window_length_ms rule - elapsed_ms (window_start_ms ?rolled) now"
  have "unat now - unat (window_start_ms ?rolled) < ?w"
    by (rule roll_window_start [OF view [symmetric] W(2)])
  then have rem: "unat ?remaining = ?w - (unat now - unat (window_start_ms ?rolled))"
    by (simp add: unat_sub_le word_le_nat_alt elapsed_nat W)
  let ?limit = "rule_max_requests rule"
  have admit: "current_count ?rolled < ?limit \<and>
      wide_less (multiply_wide (previous_count ?rolled) ?remaining)
        (multiply_wide (?limit - current_count ?rolled) (window_length_ms rule))
      \<longleftrightarrow> spec_admits (unat ?limit) ?w (unat now) v"
  proof (cases "current_count ?rolled < ?limit")
    case True
    then have "unat (?limit - current_count ?rolled) = unat ?limit - unat (current_count ?rolled)"
      by (simp add: unat_sub_le)
    then show ?thesis using True
      admit_arith [OF W(2), of "unat (current_count ?rolled)" "unat ?limit"
        "unat (previous_count ?rolled)" "unat ?remaining"]
      by (simp add: spec_admits_def view wide_less_val multiply_wide_val W(1) rem word_less_nat_alt)
  next
    case False
    then show ?thesis using
      admit_arith [OF W(2), of "unat (current_count ?rolled)" "unat ?limit"
        "unat (previous_count ?rolled)" "unat ?remaining"]
      by (simp add: spec_admits_def view rem word_less_nat_alt)
  qed
  show ?thesis
  proof (cases "spec_admits (unat ?limit) ?w (unat now) v")
    case True
    then have "current_count ?rolled < ?limit" using admit by simp
    then show ?thesis using True admit unat_one_more [of "current_count ?rolled" ?limit]
      unfolding v_def [symmetric]
      by (simp add: spec_consume_def consume_def Let_def view window_view_def)
  next
    case False
    then show ?thesis using admit
      unfolding v_def [symmetric]
      by (simp add: spec_consume_def consume_def Let_def view window_view_def)
  qed
qed


subsection \<open>The retry delay\<close>

text \<open>While only refusals happen, the first instant at which the rule admits again.\<close>

definition spec_retry :: "nat \<Rightarrow> nat \<Rightarrow> nat \<Rightarrow> window_counts \<Rightarrow> nat" where
  "spec_retry limit window now v =
     (let (start, current, previous) = v; remaining = window - (now - start)
      in if limit \<le> current then remaining + 1
         else remaining - ((limit - current) * window - 1) div previous)"

lemma spec_retry_refuses_before:
  assumes W: "0 < w" and start: "start \<le> now" "now - start < w"
    and counts: "current \<le> limit"
    and refused: "\<not> previous * (w - (now - start)) + current * w < limit * w"
    and d: "d < spec_retry limit w now (start, current, previous)"
  shows "\<not> spec_admits limit w (now + d) (start, current, previous)"
proof -
  define remaining where "remaining = w - (now - start)"
  have elapsed: "now + d - start = (w - remaining) + d"
    using start by (simp add: remaining_def)
  show ?thesis
  proof (cases "limit \<le> current")
    case True
    then have [simp]: "current = limit" using counts by simp
    have "d \<le> remaining" using d True by (simp add: spec_retry_def remaining_def)
    show ?thesis
    proof (cases "d < remaining")
      case True
      then have "now + d - start < w" using elapsed by (simp add: remaining_def)
      then show ?thesis by (simp add: spec_admits_def spec_roll_def)
    next
      case False
      then have eq: "now + d - start = w"
        using \<open>d \<le> remaining\<close> elapsed by (simp add: remaining_def)
      then have "now + d = start + w" using start by linarith
      then show ?thesis using W by (simp add: spec_admits_def spec_roll_def)
    qed
  next
    case False
    let ?q = "((limit - current) * w - 1) div previous"
    have d': "d < remaining - ?q" using d False by (simp add: spec_retry_def remaining_def)
    then have lt: "now + d - start < w" using elapsed by (simp add: remaining_def)
    have rem: "w - (now + d - start) = remaining - d" using elapsed by (simp add: remaining_def)
    have "0 < previous"
      using refused False W by (cases previous) (auto simp: not_less)
    moreover have "?q < remaining - d" using d' by linarith
    ultimately have "(limit - current) * w - 1 < previous * (remaining - d)"
      by (simp add: div_less_iff_less_mult mult.commute)
    then have "(limit - current) * w \<le> previous * (remaining - d)"
      using False W by simp
    then have "\<not> previous * (remaining - d) + current * w < limit * w"
      using admit_arith [OF W, of current limit previous "remaining - d"] by simp
    then show ?thesis using lt rem by (simp add: spec_admits_def spec_roll_def)
  qed
qed

lemma spec_retry_admits_at:
  assumes W: "0 < w" and start: "start \<le> now" "now - start < w"
    and counts: "current \<le> limit" "0 < limit"
    and refused: "\<not> previous * (w - (now - start)) + current * w < limit * w"
  shows "spec_admits limit w (now + spec_retry limit w now (start, current, previous)) (start, current, previous)"
proof -
  define remaining where "remaining = w - (now - start)"
  have rem_pos: "0 < remaining" using start by (simp add: remaining_def)
  show ?thesis
  proof (cases "limit \<le> current")
    case True
    then have [simp]: "current = limit" using counts by simp
    have retry: "spec_retry limit w now (start, current, previous) = remaining + 1"
      by (simp add: spec_retry_def remaining_def)
    have elapsed: "now + (remaining + 1) - start = w + 1"
      using start by (simp add: remaining_def)
    then have "now + (remaining + 1) - (start + w) = 1" by linarith
    then show ?thesis unfolding retry
      using W counts elapsed by (cases w) (auto simp: spec_admits_def spec_roll_def)
  next
    case False
    let ?q = "((limit - current) * w - 1) div previous"
    have retry: "spec_retry limit w now (start, current, previous) = remaining - ?q"
      using False by (simp add: spec_retry_def remaining_def)
    have prev_pos: "0 < previous" using refused False W by (cases previous) (auto simp: not_less)
    have room: "(limit - current) * w \<le> previous * remaining"
      using refused admit_arith [OF W, of current limit previous remaining] False
      by (simp add: remaining_def not_less)
    have room_pos: "0 < (limit - current) * w" using False W by simp
    have q_less: "?q < remaining"
    proof -
      have "(limit - current) * w - 1 < previous * remaining" using room room_pos by linarith
      then show ?thesis using prev_pos by (simp add: div_less_iff_less_mult mult.commute)
    qed
    have q_mult: "previous * ?q < (limit - current) * w"
    proof -
      have "previous * ?q \<le> (limit - current) * w - 1" by simp
      then show ?thesis using room_pos by linarith
    qed
    have elapsed: "now + (remaining - ?q) - start = w - ?q"
      using start q_less by (simp add: remaining_def)
    show ?thesis
    proof (cases "?q = 0")
      case True
      have "now + remaining = start + w" using start by (simp add: remaining_def)
      then show ?thesis unfolding retry using True W False
        by (simp add: spec_admits_def spec_roll_def)
    next
      case q: False
      have "w - ?q < w" using q W by simp
      moreover have "?q \<le> w" using q_less by (simp add: remaining_def)
      ultimately show ?thesis unfolding retry
        using elapsed q_mult admit_arith [OF W, of current limit previous ?q] False
        by (simp add: spec_admits_def spec_roll_def)
    qed
  qed
qed


subsection \<open>The word computation of the retry delay\<close>

lemma refusal_retry:
  assumes W: "unat window = w" "0 < w" "w < 2 ^ 63"
    and rem: "unat remaining \<le> w"
    and refused: "\<not> unat previous * unat remaining + unat current * w
      < unat (rule_max_requests rule) * w"
  shows "unat (retry_after_ms (refusal rule previous current window remaining)) =
    (if unat (rule_max_requests rule) \<le> unat current then unat remaining + 1
     else unat remaining - ((unat (rule_max_requests rule) - unat current) * w - 1) div unat previous)"
proof (cases "rule_max_requests rule \<le> current")
  case True
  have "unat (saturating_add remaining 1) = unat remaining + 1"
    using rem W(3) by (simp add: saturating_add_val)
  then show ?thesis using True by (simp add: refusal_def word_le_nat_alt)
next
  case False
  let ?room = "unat (rule_max_requests rule) - unat current"
  let ?product = "multiply_wide (rule_max_requests rule - current) window"
  have lt: "unat current < unat (rule_max_requests rule)"
    using False by (simp add: word_le_nat_alt)
  then have sub: "unat (rule_max_requests rule - current) = ?room"
    using False by (simp add: unat_sub_le)
  have product: "wide_val ?product = ?room * w" by (simp add: multiply_wide_val sub W)
  then have pred: "wide_val (wide_predecessor ?product) = ?room * w - 1"
    using wide_predecessor_val [of ?product] lt W(2) by simp
  have room: "?room * w \<le> unat previous * unat remaining"
    using refused lt
      admit_arith [OF W(2), of "unat current" "unat (rule_max_requests rule)" "unat previous" "unat remaining"]
    by (simp add: not_less)
  then have less: "?room * w - 1 < unat previous * unat remaining"
    using lt W(2) by (metis Suc_diff_1 Suc_le_lessD mult_pos_pos zero_less_diff One_nat_def)
  then have prev: "0 < unat previous" by (cases "unat previous") simp_all
  have "wide_high (wide_predecessor ?product) < previous"
  proof (rule ccontr)
    assume "\<not> wide_high (wide_predecessor ?product) < previous"
    then have "unat previous * 2 ^ 64 \<le> wide_val (wide_predecessor ?product)"
      by (simp add: wide_val_def word_less_nat_alt not_less add_increasing2)
    moreover have "unat previous * unat remaining \<le> unat previous * 2 ^ 64"
      using unat_u64_less [of remaining] by (intro mult_le_mono2) simp
    ultimately show False using less pred by linarith
  qed
  then have div: "unat (divide_wide (wide_predecessor ?product) previous) = (?room * w - 1) div unat previous"
    by (simp add: divide_wide_val pred)
  have "(?room * w - 1) div unat previous < unat remaining"
    using less prev by (simp add: div_less_iff_less_mult mult.commute)
  then have "unat (remaining - divide_wide (wide_predecessor ?product) previous)
      = unat remaining - (?room * w - 1) div unat previous"
    by (simp add: unat_sub_le word_le_nat_alt div)
  then show ?thesis using False lt by (simp add: refusal_def Let_def)
qed

definition slot_counts_ok :: "rate_limit_rule \<Rightarrow> rate_limit_slot \<Rightarrow> bool" where
  "slot_counts_ok rule slot \<longleftrightarrow>
     current_count slot \<le> rule_max_requests rule \<and> previous_count slot \<le> rule_max_requests rule"

lemma roll_window_counts_ok:
  "slot_counts_ok rule slot \<Longrightarrow> slot_counts_ok rule (roll_window slot window now)"
  by (simp add: roll_window_def Let_def slot_counts_ok_def)

lemma consume_refused:
  assumes "consume slot rule now = (Some r, slot')"
  shows "slot' = roll_window slot (window_length_ms rule) now"
    and "r = refusal rule (previous_count slot') (current_count slot') (window_length_ms rule)
           (window_length_ms rule - elapsed_ms (window_start_ms slot') now)"
  using assms by (auto simp: consume_def Let_def split: if_splits)

lemma unat_plus_of_nat: "unat (now :: u64) + d < 2 ^ 64 \<Longrightarrow> unat (now + word_of_nat d) = unat now + d"
  by (simp add: unat_word_ariths unsigned_of_nat take_bit_eq_mod mod_simps)

lemma spec_roll_start_le:
  "spec_roll w now (start, counts) = (start', counts') \<Longrightarrow> start \<le> now \<Longrightarrow> start' \<le> now"
  by (auto simp: spec_roll_def split: prod.splits if_splits)

text \<open>
  Property C16. The admission test computed with wrapping 128-bit products is exactly the
  documented rule on the integers, for every slot content, instant and configured rule: a
  request is admitted iff previous * remaining + current * window < limit * window after the
  window has been rolled, and the counts afterwards are those of the rule.
\<close>

theorem consume_refines_window_rule:
  assumes "rule_ok rule"
  shows "(fst (consume slot rule now) = None, window_view (snd (consume slot rule now)))
     = spec_consume (unat (rule_max_requests rule)) (rule_window_nat rule) (unat now) (window_view slot)"
  by (rule consume_refines [OF assms, symmetric])

text \<open>
  Property C17. Retry-After is exact: after a refusal, every retry before the reported delay is
  refused again, and a retry exactly after it is admitted.
\<close>

theorem retry_after_is_first_admission:
  assumes ok: "rule_ok rule"
    and counts: "slot_counts_ok rule slot"
    and start: "window_start_ms slot \<le> now"
    and refused: "consume slot rule now = (Some r, slot')"
    and fits: "unat now + unat (retry_after_ms r) < 2 ^ 64"
  shows "(\<forall>d < unat (retry_after_ms r). fst (consume slot' rule (now + word_of_nat d)) \<noteq> None)
    \<and> fst (consume slot' rule (now + retry_after_ms r)) = None"
proof -
  let ?w = "rule_window_nat rule" and ?limit = "unat (rule_max_requests rule)"
  have W: "unat (window_length_ms rule) = ?w" "0 < ?w" "?w < 2 ^ 63"
    using window_length_nat [OF ok] by auto
  have limit_pos: "0 < ?limit" using ok by (auto simp: rule_ok_def unat_gt_0)
  have slot': "slot' = roll_window slot (window_length_ms rule) now"
    using consume_refused(1) [OF refused] .
  obtain start' current previous where view: "window_view slot' = (start', current, previous)"
    by (metis prod_cases3)
  have fields: "start' = unat (window_start_ms slot')" "current = unat (current_count slot')"
    "previous = unat (previous_count slot')"
    using view by (auto simp: window_view_def)
  have rolled: "spec_roll ?w (unat now) (window_view slot) = (start', current, previous)"
    using roll_window_view [OF W, of slot now] slot' view by simp
  have in_window: "unat now - start' < ?w"
    by (rule roll_window_start [OF rolled [symmetric] W(2)])
  have start'_le: "start' \<le> unat now"
    using rolled start by (auto simp: window_view_def word_le_nat_alt intro: spec_roll_start_le)
  have current_le: "current \<le> ?limit"
    using roll_window_counts_ok [OF counts] by (simp add: fields slot' slot_counts_ok_def word_le_nat_alt)
  have not_admitted: "\<not> previous * (?w - (unat now - start')) + current * ?w < ?limit * ?w"
    using consume_refines [OF ok, of now slot] refused rolled
    by (auto simp: spec_consume_def spec_admits_def split: if_splits)
  have retry: "unat (retry_after_ms r) = spec_retry ?limit ?w (unat now) (start', current, previous)"
  proof -
    have rem: "unat (window_length_ms rule - elapsed_ms (window_start_ms slot') now) = ?w - (unat now - start')"
      using in_window by (simp add: unat_sub_le word_le_nat_alt elapsed_nat W fields)
    show ?thesis
      using refusal_retry [OF W, of "window_length_ms rule - elapsed_ms (window_start_ms slot') now"
          "previous_count slot'" "current_count slot'" rule] not_admitted consume_refused(2) [OF refused]
      by (simp add: rem spec_retry_def fields [symmetric])
  qed
  have decide: "fst (consume slot' rule t) = None \<longleftrightarrow> spec_admits ?limit ?w (unat t) (start', current, previous)" for t
    using consume_refines [OF ok, of t slot'] view by (auto simp: spec_consume_def split: prod.splits if_splits)
  have "fst (consume slot' rule (now + word_of_nat d)) \<noteq> None" if "d < unat (retry_after_ms r)" for d
    using spec_retry_refuses_before [OF W(2) start'_le in_window current_le not_admitted, of d] that fits
    by (simp add: decide retry unat_plus_of_nat)
  moreover have "fst (consume slot' rule (now + retry_after_ms r)) = None"
    using spec_retry_admits_at [OF W(2) start'_le in_window current_le limit_pos not_admitted] fits
    by (simp add: decide unat_add_small retry)
  ultimately show ?thesis by blast
qed


theorem consume_refines_window_rule_witness:
  "rule_ok \<lparr>rule_max_requests = 2, rule_window = 10, rule_overflow_policy = overflow_deny\<rparr> \<and>
   spec_consume 2 10 3 (0, 1, 1) = (True, (0, 2, 1))"
proof -
  let ?rule = "\<lparr>rule_max_requests = 2, rule_window = 10, rule_overflow_policy = overflow_deny\<rparr>"
  let ?slot = "empty_slot\<lparr>current_count := 1, previous_count := 1\<rparr>"
  have ok: "rule_ok ?rule" by (simp add: rule_ok_def)
  show ?thesis
    using ok consume_refines_window_rule [OF ok, where now = 3 and slot = ?slot]
    by (simp add: spec_consume_def spec_admits_def spec_roll_def window_view_def
        rule_window_nat_def empty_slot_def)
qed

theorem retry_after_is_first_admission_witness:
  "\<exists>r slot'. consume (empty_slot\<lparr>current_count := 1, previous_count := 2\<rparr>)
       \<lparr>rule_max_requests = 2, rule_window = 10, rule_overflow_policy = overflow_deny\<rparr> 3 = (Some r, slot')
     \<and> retry_after_ms r = 3
     \<and> (\<forall>d < 3. fst (consume slot'
          \<lparr>rule_max_requests = 2, rule_window = 10, rule_overflow_policy = overflow_deny\<rparr>
          (3 + word_of_nat d)) \<noteq> None)
     \<and> fst (consume slot' \<lparr>rule_max_requests = 2, rule_window = 10, rule_overflow_policy = overflow_deny\<rparr> 6) = None"
proof -
  let ?rule = "\<lparr>rule_max_requests = 2, rule_window = 10, rule_overflow_policy = overflow_deny\<rparr>"
  let ?slot = "empty_slot\<lparr>current_count := 1, previous_count := 2\<rparr>"
  let ?r = "\<lparr>retry_after_ms = 3, reset_after_ms = 17, max_requests = 2\<rparr>"
  have ok: "rule_ok ?rule" by (simp add: rule_ok_def)
  have counts: "slot_counts_ok ?rule ?slot" by (simp add: slot_counts_ok_def)
  have start: "window_start_ms ?slot \<le> 3" by (simp add: empty_slot_def)
  have refused: "consume ?slot ?rule 3 = (Some ?r, ?slot)"
    by (simp add: consume_def roll_window_def refusal_def elapsed_ms_def window_length_ms_def
        saturating_add_def multiply_wide_def wide_less_def wide_predecessor_def divide_wide_def
        empty_slot_def Let_def word_le_nat_alt)
  have fits: "unat (3 :: u64) + unat (retry_after_ms ?r) < 2 ^ 64" by simp
  from retry_after_is_first_admission [OF ok counts start refused fits] refused
  show ?thesis by (intro exI [of _ ?r] exI [of _ ?slot]) simp
qed


subsection \<open>Counts stay within the limit\<close>

lemma consume_counts_ok:
  assumes "slot_counts_ok rule slot"
  shows "slot_counts_ok rule (snd (consume slot rule now))"
proof -
  have rolled: "slot_counts_ok rule (roll_window slot (window_length_ms rule) now)"
    using assms by (rule roll_window_counts_ok)
  show ?thesis
    using rolled unat_one_more [of "current_count (roll_window slot (window_length_ms rule) now)" "rule_max_requests rule"]
    by (auto simp: consume_def Let_def slot_counts_ok_def word_le_nat_alt word_less_nat_alt)
qed

subsection \<open>Finding a key again\<close>













end
