(* ===== verification/Field_Scan.thy ===== *)
theory Field_Scan
  imports Prelude
begin

text \<open>
  The eight-bytes-at-a-time scan for the first byte that a field value may not hold
  (\<open>ruvia-http/src/field/field_value_scan.h\<close>), with the character classes of
  \<open>http_field_syntax.h\<close>. The lemmas show that the word arithmetic finds exactly the
  first invalid byte, so that the long-value path agrees with the byte loop.
\<close>

subsection \<open>Character classes\<close>

definition is_http_ows_char :: "byte \<Rightarrow> bool" where
  "is_http_ows_char c \<longleftrightarrow> c = 0x20 \<or> c = 0x09"

definition is_http_token_char :: "byte \<Rightarrow> bool" where
  "is_http_token_char c \<longleftrightarrow>
     (0x30 \<le> c \<and> c \<le> 0x39) \<or> (0x41 \<le> c \<and> c \<le> 0x5A) \<or> (0x61 \<le> c \<and> c \<le> 0x7A) \<or>
     c \<in> {0x21, 0x23, 0x24, 0x25, 0x26, 0x27, 0x2A, 0x2B, 0x2D, 0x2E, 0x5E, 0x5F, 0x60, 0x7C, 0x7E}"

definition is_http_field_value_char :: "byte \<Rightarrow> bool" where
  "is_http_field_value_char c \<longleftrightarrow> c = 0x09 \<or> (0x20 \<le> c \<and> c \<noteq> 0x7F)"

subsection \<open>The word scan\<close>

text \<open>The first input byte occupies the low byte.\<close>

fun load_http_field_value_word :: "bytes \<Rightarrow> u64" where
  "load_http_field_value_word [] = 0"
| "load_http_field_value_word (b # bs) = ucast b OR push_bit 8 (load_http_field_value_word bs)"

definition invalid_http_field_value_mask :: "u64 \<Rightarrow> u64" where
  "invalid_http_field_value_mask bytes_value =
     (let ones = 0x0101010101010101;
          high_bits = ones * 0x80;
          low_bits = ones * 0x7f;
          del = bytes_value XOR low_bits;
          controls = NOT ((bytes_value OR high_bits) - ones * 0x20) AND NOT bytes_value;
          special = (controls OR ((del - ones) AND NOT del)) AND high_bits
      in if special = 0 then 0
         else
           let tabs = bytes_value XOR (ones * 9);
               tab_bits = NOT (((tabs AND low_bits) + low_bits) OR tabs OR low_bits)
           in special AND NOT tab_bits)"

text \<open>\<open>std::countr_zero\<close> of a 64-bit word.\<close>

definition countr_zero :: "u64 \<Rightarrow> nat" where
  "countr_zero w = length (takeWhile (\<lambda>n. \<not> bit w n) [0..<64])"

function field_value_words :: "bytes \<Rightarrow> nat \<Rightarrow> nat" where
  "field_value_words xs i =
     (if i + 8 \<le> length xs then
        let invalid = invalid_http_field_value_mask (load_http_field_value_word (take 8 (drop i xs)))
        in if invalid \<noteq> 0 then i + countr_zero invalid div 8 else field_value_words xs (i + 8)
      else i + length (takeWhile is_http_field_value_char (drop i xs)))"
  by pat_completeness auto

termination by (relation "measure (\<lambda>(xs, i). length xs - i)") auto

declare field_value_words.simps [simp del]

definition http_field_value_prefix_size :: "bytes \<Rightarrow> nat" where
  "http_field_value_prefix_size xs = field_value_words xs 0"

subsection \<open>The mask over unbounded integers\<close>

text \<open>The same expression on integers, for words of any number of bytes: \<open>ones\<close> has a one in
  every byte.\<close>

definition int_mask :: "int \<Rightarrow> int \<Rightarrow> int" where
  "int_mask ones x =
     ((NOT ((x OR ones * 0x80) - ones * 0x20) AND NOT x OR
      ((x XOR ones * 0x7f) - ones) AND NOT (x XOR ones * 0x7f)) AND ones * 0x80)
     AND NOT (NOT (((x XOR ones * 9) AND ones * 0x7f) + ones * 0x7f OR (x XOR ones * 9) OR ones * 0x7f))"

fun ones_of :: "nat \<Rightarrow> int" where
  "ones_of 0 = 0"
| "ones_of (Suc n) = 1 + 256 * ones_of n"

fun int_of_bytes :: "bytes \<Rightarrow> int" where
  "int_of_bytes [] = 0"
| "int_of_bytes (b # bs) = uint b + 256 * int_of_bytes bs"

lemma ones_of_nonneg: "0 \<le> ones_of n"
  by (induction n) auto

lemma ones_of_8: "ones_of 8 = 0x0101010101010101"
  by (simp add: eval_nat_numeral)

lemma int_of_bytes_bounds: "0 \<le> int_of_bytes bs" "int_of_bytes bs < 256 ^ length bs"
proof (induction bs)
  case (Cons b bs)
  have "uint b < 256" "0 \<le> uint b" using uint_lt2p [of b] by auto
  with Cons show "0 \<le> int_of_bytes (b # bs)" "int_of_bytes (b # bs) < 256 ^ length (b # bs)"
    by (simp_all add: distrib_left)
qed simp_all

lemma load_word_int: "load_http_field_value_word bs = word_of_int (int_of_bytes bs)"
proof (induction bs)
  case (Cons b bs)
  have "ucast b OR push_bit 8 w = ucast b + push_bit 8 w" for w :: u64
    by (rule disjunctive_add [symmetric]) (auto simp: bit_simps dest: bit_imp_le_length)
  moreover have "(ucast b :: u64) = word_of_int (uint b)" by (rule ucast_eq)
  moreover have "push_bit 8 w = 256 * w" for w :: u64
    by (simp add: push_bit_eq_mult)
  ultimately show ?case
    unfolding load_http_field_value_word.simps int_of_bytes.simps Cons
    by (simp only: of_int_add of_int_mult of_int_numeral)
qed simp

lemma mask_as_int:
  "invalid_http_field_value_mask (word_of_int x) = word_of_int (int_mask (ones_of 8) x)"
proof -
  have cond: "(if s = 0 then 0 else s AND t) = s AND t" for s t :: u64 by simp
  show ?thesis
    unfolding invalid_http_field_value_mask_def int_mask_def ones_of_8 Let_def cond
    by (simp add: of_int_and_eq of_int_or_eq of_int_xor_eq of_int_not_eq)
qed

subsection \<open>One byte of the mask\<close>

lemma drop_bit_not_int: "drop_bit n (NOT x) = NOT (drop_bit n x)" for x :: int
  by (rule bit_eqI) (simp add: bit_simps)

lemma drop_byte: "0 \<le> b \<Longrightarrow> b < 256 \<Longrightarrow> drop_bit 8 (b + 256 * x) = x" for b x :: int
  by (simp add: drop_bit_eq_div)

lemma power_8_2: "(2 :: int) ^ 8 = 256"
  by simp

lemma drop_bit_diff:
  assumes "take_bit 8 (b :: int) \<le> take_bit 8 a"
  shows "drop_bit 8 (a - b) = drop_bit 8 a - drop_bit 8 b"
proof -
  have "a - b = (a div 256 - b div 256) * 256 + (a mod 256 - b mod 256)"
    using div_mult_mod_eq [of a 256] div_mult_mod_eq [of b 256] by (simp only: left_diff_distrib)
  moreover have "0 \<le> a mod 256 - b mod 256" "a mod 256 - b mod 256 < 256"
    using assms pos_mod_bound [of 256 a] pos_mod_sign [of 256 b] by (simp_all add: take_bit_eq_mod)
  moreover have "(q * 256 + r) div 256 = q" if "0 \<le> r" "r < 256" for q r :: int
    using that by simp
  ultimately show ?thesis unfolding drop_bit_eq_div by (metis (no_types) power_8_2)
qed

lemma drop_bit_sum:
  assumes "take_bit 8 (a :: int) + take_bit 8 b < 256"
  shows "drop_bit 8 (a + b) = drop_bit 8 a + drop_bit 8 b"
  using assms by (simp add: drop_bit_eq_div take_bit_eq_mod div_add1_eq [of a b])

lemma drop_byte_scaled: "0 \<le> c \<Longrightarrow> c < 256 \<Longrightarrow> drop_bit 8 ((1 + 256 * n) * c) = n * c" for c n :: int
  by (simp add: drop_bit_eq_div algebra_simps)

lemma take_byte_scaled:
  assumes "0 \<le> c" "c < 256"
  shows "take_bit 8 ((1 + 256 * n) * c) = (c :: int)"
proof -
  have "(1 + 256 * n) * c = c + n * c * 256" by (simp add: algebra_simps)
  then show ?thesis using assms by (simp add: take_bit_eq_mod)
qed

lemma byte_is_del: "take_bit 8 (x XOR 0x7f) = 0 \<longleftrightarrow> take_bit 8 x = (0x7f :: int)"
proof
  assume "take_bit 8 (x XOR 0x7f) = 0"
  then have "take_bit 8 x XOR take_bit 8 0x7f XOR take_bit 8 0x7f = (0 :: int) XOR take_bit 8 0x7f"
    by (simp only: take_bit_xor xor.assoc [symmetric])
  then show "take_bit 8 x = 0x7f" by (simp add: xor.assoc)
qed (simp add: take_bit_xor)

lemma drop_mask:
  assumes "take_bit 8 x \<noteq> 0x7f"
  shows "drop_bit 8 (int_mask (1 + 256 * n) x) = int_mask n (drop_bit 8 x)"
proof -
  define ones where "ones = 1 + 256 * n"
  have scaled: "drop_bit 8 (ones * c) = n * c" "take_bit 8 (ones * c) = c" if "0 \<le> c" "c < 256" for c :: int
    using that drop_byte_scaled take_byte_scaled unfolding ones_def by auto
  have one: "drop_bit 8 ones = n" "take_bit 8 ones = 1" using scaled [of 1] by simp_all
  have "take_bit 8 (ones * 0x20) \<le> take_bit 8 (x OR ones * 0x80)"
  proof -
    have "take_bit 8 (x OR ones * 0x80) = take_bit 8 x OR 0x80" by (simp add: take_bit_or scaled)
    also have "\<dots> \<ge> 0x80" by (subst or.commute) (simp add: or_greater_eq)
    finally show ?thesis by (simp add: scaled)
  qed
  then have d1: "drop_bit 8 ((x OR ones * 0x80) - ones * 0x20) = (drop_bit 8 x OR n * 0x80) - n * 0x20"
    by (simp add: drop_bit_diff scaled)
  have "take_bit 8 (x XOR ones * 0x7f) = take_bit 8 (x XOR 0x7f)"
    by (simp add: take_bit_xor scaled)
  then have "take_bit 8 (x XOR ones * 0x7f) > 0"
    using assms byte_is_del [of x] by (metis take_bit_nonnegative order_le_less)
  then have d2: "drop_bit 8 ((x XOR ones * 0x7f) - ones) = (drop_bit 8 x XOR n * 0x7f) - n"
    by (simp add: drop_bit_diff scaled one)
  have "take_bit 8 ((x XOR ones * 9) AND ones * 0x7f) \<le> 0x7f"
    by (simp add: take_bit_and scaled)
  then have d3: "drop_bit 8 (((x XOR ones * 9) AND ones * 0x7f) + ones * 0x7f)
      = ((drop_bit 8 x XOR n * 9) AND n * 0x7f) + n * 0x7f"
    by (simp add: drop_bit_sum scaled)
  show ?thesis
    unfolding int_mask_def ones_def [symmetric]
    by (simp only: drop_bit_and drop_bit_or drop_bit_xor drop_bit_not_int d1 d2 d3) (simp add: scaled)
qed

definition byte_mask :: "byte \<Rightarrow> byte" where
  "byte_mask x =
     ((NOT ((x OR 0x80) - 0x20) AND NOT x OR
      ((x XOR 0x7f) - 1) AND NOT (x XOR 0x7f)) AND 0x80)
     AND NOT (NOT (((x XOR 9) AND 0x7f) + 0x7f OR (x XOR 9) OR 0x7f))"

lemma byte_mask_all:
  "list_all (\<lambda>x. take_bit 8 (int_mask 1 x) = (if x = 9 \<or> (32 \<le> x \<and> x \<noteq> 127) then 0 else 0x80)) [0..255]"
  by code_simp

lemma byte_mask: "byte_mask b = (if is_http_field_value_char b then 0 else 0x80)"
proof -
  have b: "0 \<le> uint b" "uint b < 256" using uint_lt2p [of b] by auto
  then have "uint b \<in> set [0..255]" by simp
  from byte_mask_all [unfolded list_all_iff, rule_format, OF this]
  have "take_bit 8 (int_mask 1 (uint b)) = (if is_http_field_value_char b then 0 else 0x80)"
    by (simp add: is_http_field_value_char_def word_le_def word_uint_eq_iff)
  moreover have "byte_mask b = word_of_int (int_mask 1 (uint b))"
    unfolding int_mask_def byte_mask_def
    by (simp add: of_int_and_eq of_int_or_eq of_int_xor_eq of_int_not_eq)
  then have "uint (byte_mask b) = take_bit 8 (int_mask 1 (uint b))"
    by (simp only: unsigned_of_int) simp
  ultimately show ?thesis by (simp add: word_uint_eq_iff split: if_splits)
qed

lemma byte_word_of_int: "(word_of_int (b + 256 * x) :: byte) = word_of_int b"
proof -
  have "(256 :: byte) = 0" by simp
  then have "(of_int 256 :: byte) = 0" by simp
  then show ?thesis by (simp only: of_int_add of_int_mult mult_zero_left add_0_right)
qed

lemma take_mask:
  "take_bit 8 (int_mask (1 + 256 * n) x) = (if is_http_field_value_char (word_of_int x) then 0 else 0x80)"
proof -
  define ones where "ones = 1 + 256 * n"
  have ones: "(word_of_int ones :: byte) = 1" unfolding ones_def byte_word_of_int by simp
  have "(word_of_int (int_mask ones x) :: byte) = byte_mask (word_of_int x)"
    unfolding int_mask_def byte_mask_def
    by (simp add: of_int_and_eq of_int_or_eq of_int_xor_eq of_int_not_eq ones)
  then have "(word_of_int (int_mask (1 + 256 * n) x) :: byte) = byte_mask (word_of_int x)"
    unfolding ones_def .
  then have "uint (word_of_int (int_mask (1 + 256 * n) x) :: byte) = uint (byte_mask (word_of_int x))"
    by simp
  then show ?thesis by (simp add: byte_mask unsigned_of_int split: if_splits)
qed

lemma int_mask_nonneg: "0 \<le> ones \<Longrightarrow> 0 \<le> int_mask ones x"
  by (simp add: int_mask_def)

lemma mask_step:
  "int_mask (ones_of (Suc n)) (uint b + 256 * x) =
     (if is_http_field_value_char b then 256 * int_mask (ones_of n) x
      else 0x80 + 256 * drop_bit 8 (int_mask (ones_of (Suc n)) (uint b + 256 * x)))"
proof -
  let ?m = "int_mask (ones_of (Suc n)) (uint b + 256 * x)"
  have b: "0 \<le> uint b" "uint b < 256" using uint_lt2p [of b] by auto
  have w: "(word_of_int (uint b + 256 * x) :: byte) = b"
    using byte_word_of_int [of "uint b" x] by simp
  have split: "?m = take_bit 8 ?m + 256 * drop_bit 8 ?m"
    by (simp add: take_bit_eq_mod drop_bit_eq_div)
  have take: "take_bit 8 ?m = (if is_http_field_value_char b then 0 else 0x80)"
    using take_mask [of "ones_of n" "uint b + 256 * x"] unfolding w by simp
  show ?thesis
  proof (cases "is_http_field_value_char b")
    case True
    then have "b \<noteq> 0x7f" by (auto simp: is_http_field_value_char_def)
    then have "uint b \<noteq> 0x7f" by (simp add: word_uint_eq_iff)
    then have "take_bit 8 (uint b + 256 * x) \<noteq> 0x7f"
      using b by (simp add: take_bit_eq_mod)
    then show ?thesis
      using True split take drop_mask [of "uint b + 256 * x" "ones_of n"] b by (simp add: drop_byte)
  next
    case False
    then show ?thesis using split take by simp
  qed
qed

lemma mask_of_bytes:
  fixes bs :: bytes
  defines "k \<equiv> length (takeWhile is_http_field_value_char bs)"
  shows "int_mask (ones_of (length bs)) (int_of_bytes bs) =
    (if k = length bs then 0 else 256 ^ k * (0x80 + 256 *
       drop_bit 8 (int_mask (ones_of (length bs - k)) (int_of_bytes (drop k bs)))))"
  unfolding k_def
proof (induction bs)
  case Nil
  show ?case by (simp add: int_mask_def)
next
  case (Cons b bs)
  show ?case
  proof (cases "is_http_field_value_char b")
    case True
    then show ?thesis using Cons mask_step [of "length bs" b "int_of_bytes bs"] by simp
  next
    case False
    then show ?thesis using mask_step [of "length bs" b "int_of_bytes bs"] by simp
  qed
qed

subsection \<open>The scan finds the first invalid byte\<close>

lemma countr_zero_eq:
  assumes "p < 64" "bit w p" "\<And>n. n < p \<Longrightarrow> \<not> bit w n"
  shows "countr_zero w = p"
proof -
  have "[0..<64] = [0..<p] @ p # [Suc p..<64]"
    using assms(1) upt_add_eq_append [of 0 p "64 - p"] by (simp add: upt_conv_Cons)
  moreover have "takeWhile (\<lambda>n. \<not> bit w n) ([0..<p] @ p # [Suc p..<64]) = [0..<p]"
    using assms by (subst takeWhile_append2) auto
  ultimately show ?thesis
    by (simp only: countr_zero_def length_upt diff_zero)
qed

lemma mask_word:
  assumes "length bs = 8"
  defines "k \<equiv> length (takeWhile is_http_field_value_char bs)"
  shows "invalid_http_field_value_mask (load_http_field_value_word bs) = 0 \<longleftrightarrow> k = 8"
    and "k < 8 \<Longrightarrow> countr_zero (invalid_http_field_value_mask (load_http_field_value_word bs)) div 8 = k"
proof -
  have k: "k \<le> 8" using assms(1) length_takeWhile_le [of is_http_field_value_char bs] by (simp add: k_def)
  let ?w = "invalid_http_field_value_mask (load_http_field_value_word bs)"
  have w: "?w = word_of_int (int_mask (ones_of 8) (int_of_bytes bs))"
    by (simp only: load_word_int mask_as_int)
  have zero: "?w = 0" if "k = 8"
    using mask_of_bytes [of bs] that assms(1) unfolding w k_def by simp
  have pos: "bit ?w (8 * k + 7) \<and> (\<forall>n < 8 * k + 7. \<not> bit ?w n)" if "k < 8"
  proof -
    define q where "q = drop_bit 8 (int_mask (ones_of (8 - k)) (int_of_bytes (drop k bs)))"
    have "int_mask (ones_of 8) (int_of_bytes bs) = 256 ^ k * (0x80 + 256 * q)"
      using mask_of_bytes [of bs] that assms(1) unfolding k_def [symmetric] q_def by simp
    also have "256 ^ k = (2 :: int) ^ (8 * k)" by (simp add: power_mult)
    also have "(2 :: int) ^ (8 * k) * (0x80 + 256 * q) = push_bit (8 * k + 7) (1 + 2 * q)"
      by (simp add: push_bit_eq_mult power_add algebra_simps)
    finally have "bit ?w n \<longleftrightarrow> n < 64 \<and> 8 * k + 7 \<le> n \<and> bit (1 + 2 * q) (n - (8 * k + 7))" for n
      unfolding w by (simp add: bit_simps)
    then show ?thesis using that by (simp add: bit_0)
  qed
  show "?w = 0 \<longleftrightarrow> k = 8"
    using zero pos k by (metis bit_0_eq bot_apply bot_bool_def le_neq_implies_less)
  show "countr_zero ?w div 8 = k" if "k < 8"
    using countr_zero_eq [of "8 * k + 7" ?w] pos [OF that] that by simp
qed

lemma length_takeWhile_chunk:
  "length (takeWhile P (drop i xs)) =
     (if length (takeWhile P (take n (drop i xs))) = n then n + length (takeWhile P (drop (i + n) xs))
      else length (takeWhile P (take n (drop i xs))))"
  if "i + n \<le> length xs"
proof -
  let ?a = "take n (drop i xs)" and ?b = "drop (i + n) xs"
  have split: "drop i xs = ?a @ ?b" by (metis append_take_drop_id drop_drop add.commute)
  then have lhs: "takeWhile P (drop i xs) = takeWhile P (?a @ ?b)" by simp
  have len: "length ?a = n" using that by simp
  show ?thesis
  proof (cases "\<forall>x \<in> set ?a. P x")
    case True
    then have "takeWhile P (?a @ ?b) = ?a @ takeWhile P ?b" by (simp add: takeWhile_append2)
    moreover have same: "takeWhile P ?a = ?a" using True by (simp add: takeWhile_eq_all_conv)
    have "length (takeWhile P ?a) = n" by (simp only: same len)
    ultimately show ?thesis using len lhs by simp
  next
    case False
    then obtain x where x: "x \<in> set ?a" "\<not> P x" by blast
    then have "takeWhile P (?a @ ?b) = takeWhile P ?a" by (rule takeWhile_append1)
    moreover have "length (takeWhile P ?a) \<noteq> n"
      using False len by (metis takeWhile_eq_all_conv takeWhile_eq_take take_all order_refl)
    ultimately show ?thesis using lhs by simp
  qed
qed

lemma field_value_words:
  "i \<le> length xs \<Longrightarrow> field_value_words xs i = i + length (takeWhile is_http_field_value_char (drop i xs))"
proof (induction xs i rule: field_value_words.induct)
  case (1 xs i)
  show ?case
  proof (cases "i + 8 \<le> length xs")
    case True
    let ?bs = "take 8 (drop i xs)"
    have len: "length ?bs = 8" using True by simp
    note chunk = length_takeWhile_chunk [OF True, of is_http_field_value_char]
    show ?thesis
    proof (cases "invalid_http_field_value_mask (load_http_field_value_word ?bs) = 0")
      case zero: True
      then show ?thesis
        using 1 True chunk mask_word(1) [OF len] by (simp add: field_value_words.simps [of xs i] Let_def)
    next
      case nonzero: False
      then have "length (takeWhile is_http_field_value_char ?bs) < 8"
        using mask_word(1) [OF len] length_takeWhile_le [of is_http_field_value_char ?bs] len by simp
      then show ?thesis
        using nonzero True chunk mask_word(2) [OF len] by (simp add: field_value_words.simps [of xs i] Let_def)
    qed
  next
    case False
    then show ?thesis by (simp add: field_value_words.simps [of xs i])
  qed
qed

lemma field_value_prefix: "http_field_value_prefix_size xs = length (takeWhile is_http_field_value_char xs)"
  by (simp add: http_field_value_prefix_size_def field_value_words)

text \<open>
  Property C19. The eight-bytes-at-a-time scan of a field value is the byte-at-a-time scan: it
  returns the length of the longest prefix of bytes that a field value may hold, for every
  input, although its DEL test can mark bytes after the first invalid one and its borrow can
  cross bytes.
\<close>

theorem field_value_scan_exact:
  "http_field_value_prefix_size xs = length (takeWhile is_http_field_value_char xs)"
  by (rule field_value_prefix)

end
