(* ===== verification/Field_Syntax.thy ===== *)
theory Field_Syntax
  imports Field_Scan
begin

text \<open>
  HTTP field-line syntax: case-insensitive comparison (\<open>http_ascii.h\<close>), token and value
  predicates (\<open>http_field_syntax.h\<close>) and the quote-aware delimiter scans and the
  quoted-string reader (\<open>http_field_values.h\<close>). A visitor is a function on a state of
  its own that returns the new state and whether to keep going.
\<close>

subsection \<open>ASCII case\<close>

definition http_ascii_to_lower :: "byte \<Rightarrow> byte" where
  "http_ascii_to_lower c = (if 0x41 \<le> c \<and> c \<le> 0x5A then c + (0x61 - 0x41) else c)"

fun http_ascii_equals_ignore_case :: "bytes \<Rightarrow> bytes \<Rightarrow> bool" where
  "http_ascii_equals_ignore_case [] [] \<longleftrightarrow> True"
| "http_ascii_equals_ignore_case (a # as) (b # bs) \<longleftrightarrow>
     http_ascii_to_lower a = http_ascii_to_lower b \<and> http_ascii_equals_ignore_case as bs"
| "http_ascii_equals_ignore_case _ _ \<longleftrightarrow> False"

lemma equals_ignore_case_map:
  "http_ascii_equals_ignore_case a b \<longleftrightarrow> map http_ascii_to_lower a = map http_ascii_to_lower b"
  by (induction a b rule: http_ascii_equals_ignore_case.induct) auto

subsection \<open>Trimming and prefixes\<close>

definition http_trim_ows :: "bytes \<Rightarrow> bytes" where
  "http_trim_ows v = rev (dropWhile is_http_ows_char (rev (dropWhile is_http_ows_char v)))"

text \<open>Four bytes at a time, then one by one.\<close>

function token_prefix_from :: "bytes \<Rightarrow> nat \<Rightarrow> nat" where
  "token_prefix_from v i =
     (if i + 4 \<le> length v \<and> is_http_token_char (v ! i) \<and> is_http_token_char (v ! (i + 1)) \<and>
         is_http_token_char (v ! (i + 2)) \<and> is_http_token_char (v ! (i + 3))
      then token_prefix_from v (i + 4)
      else i + length (takeWhile is_http_token_char (drop i v)))"
  by pat_completeness auto

termination by (relation "measure (\<lambda>(v, i). length v - i)") auto

declare token_prefix_from.simps [simp del]

definition http_token_prefix_size :: "bytes \<Rightarrow> nat" where
  "http_token_prefix_size v = token_prefix_from v 0"

definition is_valid_long_http_field_value_bytes :: "bytes \<Rightarrow> bool" where
  "is_valid_long_http_field_value_bytes v \<longleftrightarrow> http_field_value_prefix_size v = length v"

definition is_valid_http_field_value_bytes :: "bytes \<Rightarrow> bool" where
  "is_valid_http_field_value_bytes v \<longleftrightarrow>
     (if length v > 32 then is_valid_long_http_field_value_bytes v
      else list_all is_http_field_value_char v)"

definition is_valid_http_header_name :: "bytes \<Rightarrow> bool" where
  "is_valid_http_header_name name \<longleftrightarrow> name \<noteq> [] \<and> http_token_prefix_size name = length name"

definition is_valid_http_header_value :: "bytes \<Rightarrow> bool" where
  "is_valid_http_header_value v \<longleftrightarrow>
     v = [] \<or>
     (\<not> (is_http_ows_char (hd v) \<or> is_http_ows_char (last v)) \<and> is_valid_http_field_value_bytes v)"

lemma take_4_drop: "i + 4 \<le> length v \<Longrightarrow> take 4 (drop i v) = [v ! i, v ! (i + 1), v ! (i + 2), v ! (i + 3)]"
  by (rule nth_equalityI) (auto simp: less_Suc_eq eval_nat_numeral nth_Cons split: nat.splits)

lemma token_prefix_from: "i \<le> length v \<Longrightarrow>
  token_prefix_from v i = i + length (takeWhile is_http_token_char (drop i v))"
proof (induction v i rule: token_prefix_from.induct)
  case (1 v i)
  show ?case
  proof (cases "i + 4 \<le> length v \<and> is_http_token_char (v ! i) \<and> is_http_token_char (v ! (i + 1)) \<and>
         is_http_token_char (v ! (i + 2)) \<and> is_http_token_char (v ! (i + 3))")
    case True
    then have fits: "i + 4 \<le> length v" by blast
    have "length (takeWhile is_http_token_char (take 4 (drop i v))) = 4"
      using True by (simp only: take_4_drop [OF fits]) simp
    then show ?thesis
      using 1 True length_takeWhile_chunk [OF fits, of is_http_token_char]
      by (simp add: token_prefix_from.simps [of v i])
  next
    case False
    then show ?thesis by (simp only: token_prefix_from.simps [of v i] if_False)
  qed
qed

lemma token_prefix_size: "http_token_prefix_size v = length (takeWhile is_http_token_char v)"
  by (simp add: http_token_prefix_size_def token_prefix_from)

lemma length_takeWhile_eq: "length (takeWhile P xs) = length xs \<longleftrightarrow> list_all P xs"
  by (induction xs) auto

lemma valid_value_bytes: "is_valid_http_field_value_bytes v \<longleftrightarrow> list_all is_http_field_value_char v"
  by (simp add: is_valid_http_field_value_bytes_def is_valid_long_http_field_value_bytes_def
      field_value_prefix length_takeWhile_eq)

lemma valid_header_name: "is_valid_http_header_name v \<longleftrightarrow> v \<noteq> [] \<and> list_all is_http_token_char v"
  by (simp add: is_valid_http_header_name_def token_prefix_size length_takeWhile_eq)

lemma trim_ows_ends:
  "http_trim_ows v = [] \<or> \<not> is_http_ows_char (hd (http_trim_ows v)) \<and> \<not> is_http_ows_char (last (http_trim_ows v))"
proof -
  let ?d = "dropWhile is_http_ows_char v"
  let ?r = "dropWhile is_http_ows_char (rev ?d)"
  show ?thesis
  proof (cases "?r = []")
    case False
    then have last: "\<not> is_http_ows_char (last (rev ?r))"
      using hd_dropWhile [of is_http_ows_char "rev ?d"] by (simp add: last_rev)
    obtain pre where "rev ?d = pre @ ?r" by (metis takeWhile_dropWhile_id)
    then have d: "?d = rev ?r @ rev pre" by (metis rev_append rev_rev_ident)
    then have "hd (rev ?r) = hd ?d" using False by (metis hd_append rev_is_Nil_conv)
    moreover have "?d \<noteq> []" using d False by (metis Nil_is_append_conv rev_is_Nil_conv)
    ultimately have "\<not> is_http_ows_char (hd (rev ?r))" using hd_dropWhile [of is_http_ows_char v] by metis
    with last show ?thesis by (simp add: http_trim_ows_def)
  qed (simp add: http_trim_ows_def)
qed

lemma trim_ows_set: "set (http_trim_ows v) \<subseteq> set v"
  by (auto simp: http_trim_ows_def dest!: set_dropWhileD)

lemma trim_ows_id: "v = [] \<or> \<not> is_http_ows_char (hd v) \<and> \<not> is_http_ows_char (last v) \<Longrightarrow> http_trim_ows v = v"
  unfolding http_trim_ows_def by (metis dropWhile_eq_self_iff hd_rev rev_is_Nil_conv rev_rev_ident)

text \<open>
  A field line's value, once trimmed of optional white space, is a normalized
  header value exactly when the untrimmed value consists of bytes of the field-content
  repertoire: trimming never turns an invalid value into a valid one or the reverse, on the
  short path as on the long one.
\<close>

theorem trimmed_value_valid:
  "is_valid_http_header_value (http_trim_ows v) \<longleftrightarrow> list_all is_http_field_value_char v"
proof -
  have ows: "is_http_field_value_char c" if "is_http_ows_char c" for c
    using that by (auto simp: is_http_ows_char_def is_http_field_value_char_def)
  have drop: "list_all is_http_field_value_char (dropWhile is_http_ows_char w)
      \<longleftrightarrow> list_all is_http_field_value_char w" for w
    by (induction w) (auto simp: ows)
  have "list_all is_http_field_value_char (http_trim_ows v) \<longleftrightarrow> list_all is_http_field_value_char v"
    unfolding http_trim_ows_def by (simp add: drop list_all_rev)
  then show ?thesis
    using trim_ows_ends [of v] by (auto simp: is_valid_http_header_value_def valid_value_bytes)
qed

subsection \<open>Quote-aware lists\<close>

text \<open>The loop of \<open>http_find_unquoted_delimiter\<close>, at \<open>index\<close>.\<close>

function find_unquoted :: "bytes \<Rightarrow> nat \<Rightarrow> byte \<Rightarrow> bool \<Rightarrow> nat \<Rightarrow> nat" where
  "find_unquoted v start delimiter quoted index =
     (if index < length v then
        let ch = v ! index in
        if quoted then
          (if ch = 0x5C \<and> index + 1 < length v then find_unquoted v start delimiter True (index + 2)
           else if ch = 0x22 then find_unquoted v start delimiter False (index + 1)
           else find_unquoted v start delimiter True (index + 1))
        else if ch = 0x22 then find_unquoted v start delimiter True (index + 1)
        else if ch = delimiter \<and> start \<le> index then index
        else find_unquoted v start delimiter False (index + 1)
      else length v)"
  by pat_completeness auto

termination by (relation "measure (\<lambda>(v, start, delimiter, quoted, index). length v - index)") auto

declare find_unquoted.simps [simp del]

definition http_find_unquoted_delimiter :: "bytes \<Rightarrow> nat \<Rightarrow> byte \<Rightarrow> nat" where
  "http_find_unquoted_delimiter v start delimiter =
     (if start \<ge> length v then length v else find_unquoted v start delimiter False 0)"

definition http_emit_field_parameter ::
  "bytes \<Rightarrow> ('s \<Rightarrow> bytes \<Rightarrow> bytes \<Rightarrow> 's \<times> bool) \<Rightarrow> 's \<Rightarrow> 's \<times> bool" where
  "http_emit_field_parameter part visitor s =
     (case find_byte 0x3D part of
        None \<Rightarrow> (s, True)
      | Some equals \<Rightarrow> visitor s (http_trim_ows (take equals part)) (http_trim_ows (drop (equals + 1) part)))"

text \<open>The scan over the rest of the view: the distance to the delimiter.\<close>

fun unquoted_distance :: "byte \<Rightarrow> bool \<Rightarrow> bytes \<Rightarrow> nat" where
  "unquoted_distance d q [] = 0"
| "unquoted_distance d True (c # cs) =
     (if c = 0x5C \<and> cs \<noteq> [] then 2 + unquoted_distance d True (tl cs)
      else 1 + unquoted_distance d (c \<noteq> 0x22) cs)"
| "unquoted_distance d False (c # cs) =
     (if c = 0x22 then 1 + unquoted_distance d True cs
      else if c = d then 0 else 1 + unquoted_distance d False cs)"

lemma unquoted_distance_le: "unquoted_distance d q v \<le> length v"
  by (induction d q v rule: unquoted_distance.induct) (auto simp: Suc_le_eq neq_Nil_conv)

lemma find_unquoted_distance:
  "start \<le> index \<Longrightarrow> index \<le> length v \<Longrightarrow>
     find_unquoted v start delimiter quoted index = index + unquoted_distance delimiter quoted (drop index v)"
proof (induction v start delimiter quoted index rule: find_unquoted.induct)
  case (1 v start delimiter quoted index)
  show ?case
  proof (cases "index < length v")
    case True
    then have drop: "drop index v = v ! index # drop (Suc index) v" by (simp add: Cons_nth_drop_Suc)
    have tl: "tl (drop (Suc index) v) = drop (index + 2) v" by (simp add: drop_Suc tl_drop)
    have ne: "drop (Suc index) v \<noteq> [] \<longleftrightarrow> index + 1 < length v" by auto
    note step = find_unquoted.simps [of v start delimiter True index]
      find_unquoted.simps [of v start delimiter False index]
    show ?thesis
    proof (cases quoted)
      case q: True
      consider "v ! index = 0x5C \<and> index + 1 < length v"
        | "\<not> (v ! index = 0x5C \<and> index + 1 < length v)" "v ! index = 0x22"
        | "\<not> (v ! index = 0x5C \<and> index + 1 < length v)" "v ! index \<noteq> 0x22" by blast
      then show ?thesis
        using 1(1-3) 1(6) True q ne tl
        by cases (auto simp: step drop Let_def simp del: drop_eq_Nil)
    next
      case q: False
      then show ?thesis
        using 1(4-6) True by (auto simp: step drop Let_def)
    qed
  next
    case False
    then show ?thesis using 1 by (subst find_unquoted.simps) simp
  qed
qed

lemma find_unquoted_from_0: "http_find_unquoted_delimiter v 0 d = unquoted_distance d False v"
  by (simp add: http_find_unquoted_delimiter_def find_unquoted_distance)

text \<open>The visiting loop shared by the comma and the semicolon visitors; \<open>emit\<close> is what is
  done with a trimmed segment. The first argument is \<open>value.substr(start)\<close>.\<close>

function visit_quoted_segments ::
  "byte \<Rightarrow> (bytes \<Rightarrow> 's \<Rightarrow> 's \<times> bool) \<Rightarrow> bytes \<Rightarrow> 's \<Rightarrow> 's" where
  "visit_quoted_segments delimiter emit rest s =
     (let n = http_find_unquoted_delimiter rest 0 delimiter;
          (s', more) = emit (http_trim_ows (take n rest)) s
      in if \<not> more \<or> n \<ge> length rest then s'
         else visit_quoted_segments delimiter emit (drop (n + 1) rest) s')"
  by pat_completeness auto

termination by (relation "measure (\<lambda>(d, emit, rest, s). length rest)") auto

declare visit_quoted_segments.simps [simp del]

definition http_visit_comma_separated_quoted_field_items ::
  "bytes \<Rightarrow> ('s \<Rightarrow> bytes \<Rightarrow> 's \<times> bool) \<Rightarrow> 's \<Rightarrow> 's" where
  "http_visit_comma_separated_quoted_field_items v visitor s =
     visit_quoted_segments 0x2C (\<lambda>item s. visitor s item) v s"

definition http_visit_semicolon_parameters_quoted_field ::
  "bytes \<Rightarrow> ('s \<Rightarrow> bytes \<Rightarrow> bytes \<Rightarrow> 's \<times> bool) \<Rightarrow> 's \<Rightarrow> 's" where
  "http_visit_semicolon_parameters_quoted_field v visitor s =
     visit_quoted_segments 0x3B (\<lambda>part s. http_emit_field_parameter part visitor s) v s"

definition http_trim_quoted_field_value :: "bytes \<Rightarrow> bytes" where
  "http_trim_quoted_field_value v =
     (if length v \<ge> 2 \<and> hd v = 0x22 \<and> last v = 0x22 then butlast (tl v) else v)"

subsection \<open>The quoted-string reader\<close>

datatype quoted_state = quoted_open | quoted_closed | quoted_failed

record http_quoted_string_cursor =
  qs_input :: bytes
  qs_position :: nat
  qs_state :: quoted_state

definition quoted_string_cursor :: "bytes \<Rightarrow> http_quoted_string_cursor" where
  "quoted_string_cursor input =
     \<lparr>qs_input = input, qs_position = 1,
      qs_state = (if input \<noteq> [] \<and> hd input = 0x22 then quoted_open else quoted_failed)\<rparr>"

definition qs_next :: "http_quoted_string_cursor \<Rightarrow> byte option \<times> http_quoted_string_cursor" where
  "qs_next c =
     (if qs_state c \<noteq> quoted_open then (None, c)
      else if qs_position c = length (qs_input c) then (None, c\<lparr>qs_state := quoted_failed\<rparr>)
      else
        let b = qs_input c ! qs_position c; c = c\<lparr>qs_position := qs_position c + 1\<rparr> in
        if b = 0x22 then (None, c\<lparr>qs_state := quoted_closed\<rparr>)
        else if b = 0x5C then
          (if qs_position c = length (qs_input c) then (None, c\<lparr>qs_state := quoted_failed\<rparr>)
           else
             let b = qs_input c ! qs_position c; c = c\<lparr>qs_position := qs_position c + 1\<rparr> in
             if \<not> is_http_field_value_char b then (None, c\<lparr>qs_state := quoted_failed\<rparr>) else (Some b, c))
        else if \<not> is_http_field_value_char b then (None, c\<lparr>qs_state := quoted_failed\<rparr>) else (Some b, c))"

text \<open>Drains the cursor: the decoded content and the final cursor. The position grows with
  every byte, so the length of the input bounds the number of calls.\<close>

fun qs_drain :: "nat \<Rightarrow> http_quoted_string_cursor \<Rightarrow> bytes \<times> http_quoted_string_cursor" where
  "qs_drain 0 c = ([], c)"
| "qs_drain (Suc fuel) c =
     (case qs_next c of
        (None, c') \<Rightarrow> ([], c')
      | (Some b, c') \<Rightarrow> (case qs_drain fuel c' of (bs, c'') \<Rightarrow> (b # bs, c'')))"

definition http_quoted_string_size :: "bytes \<Rightarrow> nat" where
  "http_quoted_string_size input =
     (let c = snd (qs_drain (length input) (quoted_string_cursor input))
      in if qs_state c = quoted_closed then qs_position c else 0)"

definition http_is_quoted_string :: "bytes \<Rightarrow> bool" where
  "http_is_quoted_string v \<longleftrightarrow> v \<noteq> [] \<and> http_quoted_string_size v = length v"

subsection \<open>Splitting inverts joining\<close>

text \<open>The quoting state after an item, \<open>None\<close> when an unquoted delimiter or a dangling
  escape occurs in it.\<close>

fun quoted_after :: "byte \<Rightarrow> bool \<Rightarrow> bytes \<Rightarrow> bool option" where
  "quoted_after d q [] = Some q"
| "quoted_after d True (c # cs) =
     (if c = 0x5C then (case cs of [] \<Rightarrow> None | _ # rest \<Rightarrow> quoted_after d True rest)
      else quoted_after d (c \<noteq> 0x22) cs)"
| "quoted_after d False (c # cs) =
     (if c = 0x22 then quoted_after d True cs else if c = d then None else quoted_after d False cs)"

fun join_with :: "byte \<Rightarrow> bytes list \<Rightarrow> bytes" where
  "join_with d [] = []"
| "join_with d [x] = x"
| "join_with d (x # y # xs) = x @ d # join_with d (y # xs)"

lemma unquoted_distance_item:
  "quoted_after d q item = Some False \<Longrightarrow> d \<noteq> 0x22 \<Longrightarrow>
     unquoted_distance d q (item @ d # rest) = length item \<and> unquoted_distance d q item = length item"
  by (induction d q item rule: quoted_after.induct) (auto split: list.splits if_splits)

lemma visit_segment_last:
  "quoted_after d False x = Some False \<Longrightarrow> d \<noteq> 0x22 \<Longrightarrow>
     visit_quoted_segments d emit x s = fst (emit (http_trim_ows x) s)"
  by (subst visit_quoted_segments.simps)
    (simp add: find_unquoted_from_0 unquoted_distance_item Let_def split: prod.splits)

lemma visit_segment_more:
  "quoted_after d False x = Some False \<Longrightarrow> d \<noteq> 0x22 \<Longrightarrow> emit (http_trim_ows x) s = (s', True) \<Longrightarrow>
     visit_quoted_segments d emit (x @ d # rest) s = visit_quoted_segments d emit rest s'"
  by (subst visit_quoted_segments.simps)
    (simp add: find_unquoted_from_0 unquoted_distance_item Let_def)

text \<open>
  The comma visitor inverts joining: for any non-empty list of members in which
  every quoted string is closed and no comma stands outside quotes, visiting the joined value
  reports exactly the members, each trimmed, in order. Commas inside quotes and escaped quotes
  never split a member.
\<close>

theorem comma_visit_inverts_join:
  assumes "members \<noteq> []" and "\<forall>m \<in> set members. quoted_after 0x2C False m = Some False"
  shows "http_visit_comma_separated_quoted_field_items (join_with 0x2C members)
    (\<lambda>seen item. (seen @ [item], True)) seen = seen @ map http_trim_ows members"
  using assms unfolding http_visit_comma_separated_quoted_field_items_def
  by (induction "0x2C :: byte" members arbitrary: seen rule: join_with.induct)
    (simp_all add: visit_segment_last visit_segment_more)

theorem comma_visit_inverts_join_witness:
  "http_visit_comma_separated_quoted_field_items [0x61, 0x2C, 0x20, 0x22, 0x78, 0x2C, 0x79, 0x22]
     (\<lambda>seen item. (seen @ [item], True)) [] = [[0x61], [0x22, 0x78, 0x2C, 0x79, 0x22]]"
proof -
  let ?m = "[[0x61], [0x20, 0x22, 0x78, 0x2C, 0x79, 0x22]] :: bytes list"
  have "\<forall>m \<in> set ?m. quoted_after 0x2C False m = Some False" by simp
  from comma_visit_inverts_join [OF _ this, of "[]"] show ?thesis
    by (simp add: http_trim_ows_def is_http_ows_char_def)
qed

subsection \<open>Quoted strings\<close>

text \<open>The quoted-string that carries some content: quotes and backslashes escaped.\<close>

definition quote_content :: "bytes \<Rightarrow> bytes" where
  "quote_content content =
     0x22 # concat (map (\<lambda>b. if b = 0x22 \<or> b = 0x5C then [0x5C, b] else [b]) content) @ [0x22]"

lemma qs_next_byte:
  assumes "qs_state c = quoted_open" "qs_input c = pre @ (if b = 0x22 \<or> b = 0x5C then [0x5C, b] else [b]) @ post"
    and "qs_position c = length pre" "is_http_field_value_char b"
  shows "qs_next c = (Some b, c\<lparr>qs_position := length pre + length (if b = 0x22 \<or> b = 0x5C then [0x5C, b] else [b])\<rparr>)"
  using assms by (auto simp: qs_next_def Let_def nth_append)

lemma qs_drain_content:
  assumes "list_all is_http_field_value_char content" "qs_state c = quoted_open"
    and "qs_input c = pre @ tl (quote_content content) @ rest" "qs_position c = length pre"
    and "length content < fuel"
  shows "qs_drain fuel c = (content, c\<lparr>qs_position := length pre + length (tl (quote_content content)),
    qs_state := quoted_closed\<rparr>)"
  using assms
proof (induction content arbitrary: c pre fuel)
  case Nil
  then obtain f where "fuel = Suc f" by (cases fuel) auto
  with Nil show ?case by (simp add: quote_content_def qs_next_def Let_def nth_append)
next
  case (Cons b content)
  let ?e = "if b = 0x22 \<or> b = 0x5C then [0x5C, b] else [b]"
  obtain f where f: "fuel = Suc f" using Cons.prems by (cases fuel) auto
  have tl: "tl (quote_content (b # content)) = ?e @ tl (quote_content content)"
    by (simp add: quote_content_def)
  have "qs_next c = (Some b, c\<lparr>qs_position := length pre + length ?e\<rparr>)"
    by (rule qs_next_byte) (use Cons.prems tl in auto)
  moreover have "qs_drain f (c\<lparr>qs_position := length pre + length ?e\<rparr>)
    = (content, c\<lparr>qs_position := length (pre @ ?e) + length (tl (quote_content content)), qs_state := quoted_closed\<rparr>)"
    using Cons.IH [of "c\<lparr>qs_position := length pre + length ?e\<rparr>" "pre @ ?e" f] Cons.prems f tl by simp
  ultimately show ?case unfolding tl by (simp add: f)
qed

text \<open>
  The quoted-string reader decodes what quoting encodes: for content of valid
  field bytes, reading the quoted form returns the content, and the size it reports is the
  length of the quoted form whatever bytes follow.
\<close>

theorem quoted_string_roundtrip:
  assumes "list_all is_http_field_value_char content"
  shows "fst (qs_drain (length (quote_content content @ rest))
           (quoted_string_cursor (quote_content content @ rest))) = content
    \<and> http_quoted_string_size (quote_content content @ rest) = length (quote_content content)"
proof -
  let ?input = "quote_content content @ rest"
  obtain t where t: "quote_content content = 0x22 # t" by (simp add: quote_content_def)
  have "length content \<le> length (concat (map (\<lambda>b. if b = 0x22 \<or> b = 0x5C then [0x5C, b] else [b]) content))"
    by (induction content) auto
  then have "length content < length ?input" by (simp add: quote_content_def)
  then have "qs_drain (length ?input) (quoted_string_cursor ?input) =
    (content, (quoted_string_cursor ?input)\<lparr>qs_position := length [0x22 :: byte] + length (tl (quote_content content)),
       qs_state := quoted_closed\<rparr>)"
    using assms
    by (intro qs_drain_content) (auto simp: quoted_string_cursor_def t)
  then show ?thesis
    by (simp add: http_quoted_string_size_def t)
qed

theorem quoted_string_roundtrip_witness:
  "fst (qs_drain 7 (quoted_string_cursor [0x22, 0x61, 0x5C, 0x22, 0x62, 0x22, 0x7A])) = [0x61, 0x22, 0x62]
   \<and> http_quoted_string_size [0x22, 0x61, 0x5C, 0x22, 0x62, 0x22, 0x7A] = 6"
proof -
  have "list_all is_http_field_value_char [0x61, 0x22, 0x62]"
    by (simp add: is_http_field_value_char_def word_le_nat_alt)
  note roundtrip = quoted_string_roundtrip [OF this, of "[0x7A]"]
  have input: "quote_content [0x61, 0x22, 0x62] @ [0x7A] = [0x22, 0x61, 0x5C, 0x22, 0x62, 0x22, 0x7A]"
    and size: "length (quote_content [0x61, 0x22, 0x62]) = 6"
    and total: "length ([0x22, 0x61, 0x5C, 0x22, 0x62, 0x22, 0x7A] :: bytes) = 7"
    by (simp_all add: quote_content_def)
  from roundtrip show ?thesis unfolding input size total .
qed

definition qs_closed_ok :: "http_quoted_string_cursor \<Rightarrow> bool" where
  "qs_closed_ok c \<longleftrightarrow>
     (qs_state c = quoted_open \<longrightarrow> qs_position c \<le> length (qs_input c)) \<and>
     (qs_state c = quoted_closed \<longrightarrow> 0 < qs_position c \<and> qs_position c \<le> length (qs_input c)
        \<and> qs_input c ! (qs_position c - 1) = 0x22)"

lemma qs_next_ok: "qs_closed_ok c \<Longrightarrow> qs_closed_ok (snd (qs_next c)) \<and> qs_input (snd (qs_next c)) = qs_input c"
  by (auto simp: qs_closed_ok_def qs_next_def Let_def)

lemma qs_drain_ok:
  "qs_closed_ok c \<Longrightarrow> qs_closed_ok (snd (qs_drain fuel c)) \<and> qs_input (snd (qs_drain fuel c)) = qs_input c"
proof (induction fuel arbitrary: c)
  case (Suc fuel)
  obtain b c' where step: "qs_next c = (b, c')" by fastforce
  then have "qs_closed_ok c'" "qs_input c' = qs_input c" using qs_next_ok [OF Suc.prems] by auto
  with Suc.IH [of c'] step show ?case by (auto split: option.splits prod.splits)
qed simp

lemma quoted_string_size_ends:
  assumes "http_quoted_string_size input = n" "n \<noteq> 0"
  shows "n \<le> length input" "input ! (n - 1) = 0x22"
proof -
  let ?c = "snd (qs_drain (length input) (quoted_string_cursor input))"
  have "qs_closed_ok (quoted_string_cursor input)"
    by (cases input) (auto simp: qs_closed_ok_def quoted_string_cursor_def)
  from qs_drain_ok [OF this, of "length input"]
  have "qs_closed_ok ?c" "qs_input ?c = input" by (auto simp: quoted_string_cursor_def)
  with assms show "n \<le> length input" "input ! (n - 1) = 0x22"
    by (auto simp: http_quoted_string_size_def qs_closed_ok_def Let_def split: if_splits)
qed

end
