(* ===== verification/Chunk_Line.thy ===== *)
theory Chunk_Line
  imports Field_Syntax
begin

text \<open>
  The chunk-size line of the HTTP/1 chunked coding: hexadecimal digits (\<open>http_hex.h\<close>), the
  chunk-extension grammar and \<open>parse_http_chunk_size_line\<close>
  (\<open>ruvia-http/src/http1/http_parser_syntax.cpp\<close>). A cursor into the line is modelled by the
  rest of the line behind it. The size is a 64-bit word and the shift wraps as in C++; the
  guard before it is the code's.
\<close>

subsection \<open>Hexadecimal digits\<close>

text \<open>\<open>None\<close> is the \<open>-1\<close> of the code.\<close>

definition http_decode_hex_nibble :: "byte \<Rightarrow> nat option" where
  "http_decode_hex_nibble c =
     (if 0x30 \<le> c \<and> c \<le> 0x39 then Some (unat c - 0x30)
      else if 0x41 \<le> c \<and> c \<le> 0x46 then Some (unat c - 0x41 + 10)
      else if 0x61 \<le> c \<and> c \<le> 0x66 then Some (unat c - 0x61 + 10)
      else None)"

definition http_lower_hex_digit :: "nat \<Rightarrow> byte" where
  "http_lower_hex_digit n =
     [0x30, 0x31, 0x32, 0x33, 0x34, 0x35, 0x36, 0x37, 0x38, 0x39, 0x61, 0x62, 0x63, 0x64, 0x65, 0x66]
       ! (n AND 0x0F)"

definition http_upper_hex_digit :: "nat \<Rightarrow> byte" where
  "http_upper_hex_digit n =
     [0x30, 0x31, 0x32, 0x33, 0x34, 0x35, 0x36, 0x37, 0x38, 0x39, 0x41, 0x42, 0x43, 0x44, 0x45, 0x46]
       ! (n AND 0x0F)"

lemma hex_nibble_less: "http_decode_hex_nibble c = Some n \<Longrightarrow> n < 16"
  by (auto simp: http_decode_hex_nibble_def word_le_nat_alt split: if_splits)

lemma hex_digit_cases:
  assumes "n < 16"
  shows "http_decode_hex_nibble (http_lower_hex_digit n) = Some n"
    and "http_decode_hex_nibble (http_upper_hex_digit n) = Some n"
proof -
  have "n AND 15 = take_bit 4 n" by (simp add: take_bit_eq_mask mask_eq_exp_minus_1)
  then have "n AND 15 = n" using assms by (simp add: take_bit_nat_eq_self)
  moreover have "n \<in> set [0..<16]" using assms by simp
  then have "n \<in> {0,1,2,3,4,5,6,7,8,9,10,11,12,13,14,15}" by (simp add: upt_conv_Cons eval_nat_numeral)
  ultimately show "http_decode_hex_nibble (http_lower_hex_digit n) = Some n"
    and "http_decode_hex_nibble (http_upper_hex_digit n) = Some n"
    by (auto simp: http_decode_hex_nibble_def http_lower_hex_digit_def http_upper_hex_digit_def word_le_nat_alt)
qed

subsection \<open>Chunk extensions\<close>

definition skip_bws :: "bytes \<Rightarrow> bytes" where
  "skip_bws rest = dropWhile (\<lambda>c. c = 0x20 \<or> c = 0x09) rest"

definition parse_token :: "bytes \<Rightarrow> bool \<times> bytes" where
  "parse_token rest = (takeWhile is_http_token_char rest \<noteq> [], dropWhile is_http_token_char rest)"

lemma length_skip_bws: "length (skip_bws r) \<le> length r"
  by (simp add: skip_bws_def length_dropWhile_le)

lemma length_parse_token: "length (snd (parse_token r)) \<le> length r"
  by (simp add: parse_token_def length_dropWhile_le)

text \<open>The body of the loop, entered with a non-empty rest: \<open>Inl\<close> is a return, \<open>Inr\<close> the rest
  the next iteration starts from.\<close>

definition chunk_extension_step :: "bytes \<Rightarrow> bool + bytes" where
  "chunk_extension_step rest =
     (let rest = skip_bws rest in
      if rest = [] then Inl False
      else if hd rest \<noteq> 0x3B then Inl False
      else
        let (name_ok, after_name) = parse_token (skip_bws (tl rest)) in
        if \<not> name_ok then Inl False
        else
          let rest = skip_bws after_name in
          if rest = [] then Inl (rest = after_name)
          else if hd rest = 0x3B then Inr rest
          else if hd rest \<noteq> 0x3D then Inl False
          else
            let rest = skip_bws (tl rest) in
            if rest = [] then Inl False
            else
              let after_value =
                (if hd rest = 0x22 then
                   (let quoted_size = http_quoted_string_size rest in
                    if quoted_size = 0 then None else Some (drop quoted_size rest))
                 else
                   (let (value_ok, after) = parse_token rest in
                    if value_ok then Some after else None))
              in case after_value of
                   None \<Rightarrow> Inl False
                 | Some before_trailing_bws \<Rightarrow>
                     (let rest = skip_bws before_trailing_bws in
                      if rest = [] then Inl (rest = before_trailing_bws)
                      else if hd rest \<noteq> 0x3B then Inl False
                      else Inr rest))"

lemma chunk_extension_step_progress:
  assumes "chunk_extension_step rest = Inr rest'"
  shows "length rest' < length rest"
proof -
  let ?a = "skip_bws rest"
  have a: "length ?a \<le> length rest" by (rule length_skip_bws)
  let ?b = "snd (parse_token (skip_bws (tl ?a)))"
  have b: "length ?b \<le> length ?a - 1"
    using length_parse_token [of "skip_bws (tl ?a)"] length_skip_bws [of "tl ?a"] by simp
  let ?c = "skip_bws ?b"
  let ?d = "skip_bws (tl ?c)"
  have c: "length ?c \<le> length ?b" by (rule length_skip_bws)
  have d: "length ?d \<le> length ?c" using length_skip_bws [of "tl ?c"] by simp
  have ne: "?a \<noteq> []" using assms by (auto simp: chunk_extension_step_def)
  have "length rest' \<le> length ?b"
  proof -
    have q: "length (skip_bws (drop n ?d)) \<le> length ?b" for n
      using length_skip_bws [of "drop n ?d"] c d by simp
    have t: "length (skip_bws (snd (parse_token ?d))) \<le> length ?b"
      using length_skip_bws [of "snd (parse_token ?d)"] length_parse_token [of ?d] c d by simp
    show ?thesis
      using assms c q t
      by (auto simp: chunk_extension_step_def Let_def case_prod_unfold split: if_splits option.splits)
  qed
  with a b ne show ?thesis by (cases ?a) auto
qed

function chunk_extension_loop :: "bytes \<Rightarrow> bool" where
  "chunk_extension_loop rest =
     (if rest = [] then True
      else case chunk_extension_step rest of Inl result \<Rightarrow> result | Inr rest' \<Rightarrow> chunk_extension_loop rest')"
  by pat_completeness auto

termination
  by (relation "measure length") (auto intro: chunk_extension_step_progress)

declare chunk_extension_loop.simps [simp del]

definition is_valid_http_chunk_extension :: "bytes \<Rightarrow> bool" where
  "is_valid_http_chunk_extension v \<longleftrightarrow> (if v = [] then True else chunk_extension_loop v)"

subsection \<open>The size line\<close>

record http_chunk_size_line =
  chunk_size :: u64
  overhead_bytes :: nat

definition max_before_shift :: u64 where
  "max_before_shift = drop_bit 4 (- 1)"

text \<open>The digit loop: \<open>None\<close> is the return on overflow; otherwise the cursor, the number of
  leading zero digits, the value and the rest.\<close>

fun chunk_digits :: "bytes \<Rightarrow> nat \<Rightarrow> nat \<Rightarrow> u64 \<Rightarrow> (nat \<times> nat \<times> u64 \<times> bytes) option" where
  "chunk_digits [] cursor zeros parsed = Some (cursor, zeros, parsed, [])"
| "chunk_digits (c # cs) cursor zeros parsed =
     (case http_decode_hex_nibble c of
        None \<Rightarrow> Some (cursor, zeros, parsed, c # cs)
      | Some nibble \<Rightarrow>
          if parsed > max_before_shift then None
          else chunk_digits cs (cursor + 1) (if parsed = 0 \<and> nibble = 0 then zeros + 1 else zeros)
                 (push_bit 4 parsed OR word_of_nat nibble))"

definition parse_http_chunk_size_line :: "bytes \<Rightarrow> http_chunk_size_line option" where
  "parse_http_chunk_size_line v =
     (case chunk_digits v 0 0 0 of
        None \<Rightarrow> None
      | Some (cursor, zeros, parsed, rest) \<Rightarrow>
          if cursor = 0 \<or> \<not> is_valid_http_chunk_extension rest then None
          else Some \<lparr>chunk_size = parsed, overhead_bytes = length v - max (cursor - zeros) 1\<rparr>)"

subsection \<open>What the parser accepts\<close>

definition is_hex_char :: "byte \<Rightarrow> bool" where
  "is_hex_char c \<longleftrightarrow> http_decode_hex_nibble c \<noteq> None"

definition hex_value_from :: "nat \<Rightarrow> bytes \<Rightarrow> nat" where
  "hex_value_from start ds = foldl (\<lambda>v c. v * 16 + the (http_decode_hex_nibble c)) start ds"

definition hex_value :: "bytes \<Rightarrow> nat" where
  "hex_value ds = hex_value_from 0 ds"

lemma hex_value_from_ge: "start \<le> hex_value_from start ds"
proof (induction ds arbitrary: start)
  case (Cons c ds)
  have "start \<le> start * 16 + the (http_decode_hex_nibble c)" by simp
  also have "\<dots> \<le> hex_value_from start (c # ds)"
    using Cons [of "start * 16 + the (http_decode_hex_nibble c)"] by (simp add: hex_value_from_def)
  finally show ?case .
qed (simp add: hex_value_from_def)

lemma max_before_shift_nat: "unat max_before_shift = 2 ^ 60 - 1"
proof -
  have "max_before_shift = 0x0FFFFFFFFFFFFFFF" by (simp add: max_before_shift_def mask_eq_exp_minus_1)
  moreover have "unat (0x0FFFFFFFFFFFFFFF :: u64) = 2 ^ 60 - 1" by simp
  ultimately show ?thesis by (simp only:)
qed

lemma shift_in_nibble:
  assumes "n < 16" "p \<le> max_before_shift"
  shows "unat (push_bit 4 p OR word_of_nat n) = unat p * 16 + n"
proof -
  have p: "unat p * 16 + n < 2 ^ 64"
    using assms max_before_shift_nat by (simp add: word_le_nat_alt)
  have n: "take_bit 4 n = n" using assms(1) by (simp add: take_bit_nat_eq_self)
  have "push_bit 4 p OR word_of_nat n = push_bit 4 p + (word_of_nat n :: u64)"
  proof (rule disjunctive_add [symmetric])
    show "\<not> bit (push_bit 4 p) i \<or> \<not> bit (word_of_nat n :: u64) i" for i
      using arg_cong [OF n, of "\<lambda>x. bit x i"] by (auto simp: bit_simps)
  qed
  also have "\<dots> = word_of_nat (unat p * 16 + n)"
    by (simp add: push_bit_eq_mult)
  finally show ?thesis
    using p by (simp only: unsigned_of_nat) (simp add: take_bit_nat_eq_self)
qed

lemma chunk_digits_eq:
  "chunk_digits v cursor zeros parsed =
     (let ds = takeWhile is_hex_char v; total = hex_value_from (unat parsed) ds in
      if 2 ^ 64 \<le> total then None
      else Some (cursor + length ds,
                 zeros + (if parsed = 0 then length (takeWhile (\<lambda>c. http_decode_hex_nibble c = Some 0) ds) else 0),
                 word_of_nat total, dropWhile is_hex_char v))"
proof (induction v arbitrary: cursor zeros parsed)
  case Nil
  have "unat parsed < 2 ^ 64" using unsigned_less [where 'a = nat and w = parsed] by simp
  then show ?case by (simp add: hex_value_from_def)
next
  case (Cons c cs)
  have bound: "unat parsed < 2 ^ 64" using unsigned_less [where 'a = nat and w = parsed] by simp
  show ?case
  proof (cases "http_decode_hex_nibble c")
    case None
    then show ?thesis using bound by (simp add: is_hex_char_def hex_value_from_def)
  next
    case (Some n)
    have n: "n < 16" using hex_nibble_less [OF Some] .
    have hex: "is_hex_char c" using Some by (simp add: is_hex_char_def)
    show ?thesis
    proof (cases "parsed > max_before_shift")
      case True
      then have "2 ^ 60 \<le> unat parsed" using max_before_shift_nat by (simp add: word_less_nat_alt)
      then have "2 ^ 64 \<le> unat parsed * 16 + n" by simp
      also have "\<dots> \<le> hex_value_from (unat parsed * 16 + n) (takeWhile is_hex_char cs)" by (rule hex_value_from_ge)
      finally show ?thesis using True Some hex by (simp add: hex_value_from_def Let_def)
    next
      case False
      then have shift: "unat (push_bit 4 parsed OR word_of_nat n) = unat parsed * 16 + n"
        using shift_in_nibble [OF n] by simp
      have zero: "push_bit 4 parsed OR word_of_nat n = (0 :: u64) \<longleftrightarrow> parsed = 0 \<and> n = 0"
        using shift by (metis add_is_0 mult_is_0 unat_0 unat_eq_zero zero_neq_numeral)
      show ?thesis
        using False Some hex
        by (simp add: Cons.IH shift zero hex_value_from_def Let_def)
    qed
  qed
qed

lemma parse_chunk_size_line_eq:
  "parse_http_chunk_size_line v =
     (let ds = takeWhile is_hex_char v; ext = dropWhile is_hex_char v;
          zeros = takeWhile (\<lambda>c. http_decode_hex_nibble c = Some 0) ds in
      if ds = [] \<or> 2 ^ 64 \<le> hex_value ds \<or> \<not> is_valid_http_chunk_extension ext then None
      else Some \<lparr>chunk_size = word_of_nat (hex_value ds),
                 overhead_bytes = length ext + (length ds - max (length ds - length zeros) 1)\<rparr>)"
proof -
  let ?ds = "takeWhile is_hex_char v"
  have "length v = length ?ds + length (dropWhile is_hex_char v)"
    by (metis length_append takeWhile_dropWhile_id)
  moreover have "length (takeWhile (\<lambda>c. http_decode_hex_nibble c = Some 0) ?ds) \<le> length ?ds"
    by (rule length_takeWhile_le)
  ultimately show ?thesis
    by (cases "?ds = []")
      (auto simp: parse_http_chunk_size_line_def chunk_digits_eq Let_def hex_value_def max_def Suc_le_eq)
qed

text \<open>
  Property C20. A chunk-size line is accepted exactly when it is one or more hexadecimal
  digits whose value fits 64 bits, directly followed by a valid chunk extension; the size is
  that value (the shifts never lose a bit) and the overhead counts the extension and the
  leading zeros. Nothing may precede the digits.
\<close>

theorem chunk_size_line_exact:
  "parse_http_chunk_size_line line = Some r \<longleftrightarrow>
     (\<exists>ds ext. line = ds @ ext \<and> ds \<noteq> [] \<and> list_all is_hex_char ds \<and> (ext = [] \<or> \<not> is_hex_char (hd ext))
        \<and> hex_value ds < 2 ^ 64 \<and> is_valid_http_chunk_extension ext
        \<and> unat (chunk_size r) = hex_value ds
        \<and> overhead_bytes r = length ext + (length ds -
            max (length (dropWhile (\<lambda>c. http_decode_hex_nibble c = Some 0) ds)) 1))"
proof -
  have drop: "length ds - length (takeWhile P ds) = length (dropWhile P ds)" for P and ds :: bytes
    by (metis add_diff_cancel_left' length_append takeWhile_dropWhile_id)
  have split: "takeWhile is_hex_char (ds @ ext) = ds \<and> dropWhile is_hex_char (ds @ ext) = ext"
    if "list_all is_hex_char ds" "ext = [] \<or> \<not> is_hex_char (hd ext)" for ds ext
    using that by (cases ext) (auto simp: list_all_iff takeWhile_append2 dropWhile_append2)
  have nat: "unat (word_of_nat n :: u64) = n" if "n < 2 ^ 64" for n
    using that by (simp add: unsigned_of_nat take_bit_nat_eq_self)
  show ?thesis
  proof
    assume "parse_http_chunk_size_line line = Some r"
    moreover have "line = takeWhile is_hex_char line @ dropWhile is_hex_char line" by simp
    moreover have "list_all is_hex_char (takeWhile is_hex_char line)"
      by (auto simp: list_all_iff dest: set_takeWhileD)
    moreover have "dropWhile is_hex_char line = [] \<or> \<not> is_hex_char (hd (dropWhile is_hex_char line))"
      using hd_dropWhile [of is_hex_char line] by blast
    ultimately show "\<exists>ds ext. line = ds @ ext \<and> ds \<noteq> [] \<and> list_all is_hex_char ds
        \<and> (ext = [] \<or> \<not> is_hex_char (hd ext))
        \<and> hex_value ds < 2 ^ 64 \<and> is_valid_http_chunk_extension ext
        \<and> unat (chunk_size r) = hex_value ds
        \<and> overhead_bytes r = length ext + (length ds -
            max (length (dropWhile (\<lambda>c. http_decode_hex_nibble c = Some 0) ds)) 1)"
      by (intro exI [of _ "takeWhile is_hex_char line"] exI [of _ "dropWhile is_hex_char line"])
        (auto simp: parse_chunk_size_line_eq Let_def drop nat not_le split: if_splits)
  next
    assume "\<exists>ds ext. line = ds @ ext \<and> ds \<noteq> [] \<and> list_all is_hex_char ds
        \<and> (ext = [] \<or> \<not> is_hex_char (hd ext))
        \<and> hex_value ds < 2 ^ 64 \<and> is_valid_http_chunk_extension ext
        \<and> unat (chunk_size r) = hex_value ds
        \<and> overhead_bytes r = length ext + (length ds -
            max (length (dropWhile (\<lambda>c. http_decode_hex_nibble c = Some 0) ds)) 1)"
    then obtain ds ext where line: "line = ds @ ext" "ds \<noteq> []" "hex_value ds < 2 ^ 64"
        "is_valid_http_chunk_extension ext" "unat (chunk_size r) = hex_value ds"
        "overhead_bytes r = length ext + (length ds -
            max (length (dropWhile (\<lambda>c. http_decode_hex_nibble c = Some 0) ds)) 1)"
      and s: "takeWhile is_hex_char line = ds" "dropWhile is_hex_char line = ext"
      using split by blast
    have "word_of_nat (unat (chunk_size r)) = chunk_size r" by simp
    then have "chunk_size r = word_of_nat (hex_value ds)" using line(5) by simp
    with line show "parse_http_chunk_size_line line = Some r"
      unfolding parse_chunk_size_line_eq Let_def s by (simp add: drop)
  qed
qed

theorem chunk_size_line_exact_witness:
  "\<exists>ds ext. ascii ''1f'' = ds @ ext \<and> ds \<noteq> [] \<and> hex_value ds = 31 \<and> is_valid_http_chunk_extension ext"
proof -
  have "parse_http_chunk_size_line (ascii ''1f'') = Some \<lparr>chunk_size = 31, overhead_bytes = 0\<rparr>"
    by (simp add: parse_http_chunk_size_line_def http_decode_hex_nibble_def word_le_nat_alt word_less_nat_alt
        max_before_shift_nat is_valid_http_chunk_extension_def)
  from chunk_size_line_exact [THEN iffD1, OF this] show ?thesis by auto
qed

subsection \<open>No white space at the ends of the line\<close>

lemma skip_bws_last: "skip_bws r \<noteq> [] \<Longrightarrow> last (skip_bws r) = last r"
  by (metis last_appendR skip_bws_def takeWhile_dropWhile_id)

lemma parse_token_last: "snd (parse_token r) \<noteq> [] \<Longrightarrow> last (snd (parse_token r)) = last r"
  by (metis last_appendR parse_token_def snd_conv takeWhile_dropWhile_id)

lemma token_not_ows: "is_http_token_char c \<Longrightarrow> \<not> is_http_ows_char c"
  by (auto simp: is_http_token_char_def is_http_ows_char_def word_le_nat_alt)

lemma parse_token_all:
  assumes "fst (parse_token r)" "snd (parse_token r) = []"
  shows "r \<noteq> [] \<and> \<not> is_http_ows_char (last r)"
proof -
  have "r \<noteq> []" "\<forall>c \<in> set r. is_http_token_char c"
    using assms by (auto simp: parse_token_def dropWhile_eq_Nil_conv)
  then show ?thesis using token_not_ows last_in_set by blast
qed

lemma last_tl_ne: "tl r \<noteq> [] \<Longrightarrow> last (tl r) = last r"
  by (cases r) auto

lemma quoted_size_last:
  assumes "http_quoted_string_size r \<noteq> 0" "drop (http_quoted_string_size r) r = []"
  shows "r \<noteq> [] \<and> \<not> is_http_ows_char (last r)"
proof -
  note ends = quoted_string_size_ends [OF refl assms(1)]
  have "r \<noteq> []" using ends(1) assms(1) by auto
  moreover have "http_quoted_string_size r = length r" using ends(1) assms(2) by simp
  then have "last r = 0x22" using ends(2) \<open>r \<noteq> []\<close> by (simp add: last_conv_nth)
  ultimately show ?thesis by (simp add: is_http_ows_char_def)
qed

lemma chunk_extension_step_last:
  shows "chunk_extension_step rest = Inl True \<Longrightarrow> \<not> is_http_ows_char (last rest)"
    and "chunk_extension_step rest = Inr rest' \<Longrightarrow> rest' \<noteq> [] \<and> last rest' = last rest"
proof -
  define a where "a = skip_bws rest"
  define t where "t = skip_bws (tl a)"
  define b where "b = snd (parse_token t)"
  define c where "c = skip_bws b"
  define d where "d = skip_bws (tl c)"
  have a: "a \<noteq> [] \<Longrightarrow> last a = last rest" unfolding a_def by (rule skip_bws_last)
  have t: "t \<noteq> [] \<Longrightarrow> a \<noteq> [] \<and> last t = last a"
    unfolding t_def using skip_bws_last [of "tl a"] last_tl_ne [of a] by (cases a) (auto simp: skip_bws_def)
  have b: "b \<noteq> [] \<Longrightarrow> t \<noteq> [] \<and> last b = last t"
    unfolding b_def using parse_token_last [of t] by (cases t) (auto simp: parse_token_def)
  have c: "c \<noteq> [] \<Longrightarrow> b \<noteq> [] \<and> last c = last b"
    unfolding c_def using skip_bws_last [of b] by (cases b) (auto simp: skip_bws_def)
  have d: "d \<noteq> [] \<Longrightarrow> c \<noteq> [] \<and> last d = last c"
    unfolding d_def using skip_bws_last [of "tl c"] last_tl_ne [of c] by (cases c) (auto simp: skip_bws_def)
  have after: "skip_bws x = x \<Longrightarrow> x = [] \<or> x \<noteq> []" for x by simp
  have drop: "skip_bws (drop n d) \<noteq> [] \<Longrightarrow> d \<noteq> [] \<and> last (skip_bws (drop n d)) = last d" for n
    using skip_bws_last [of "drop n d"] last_drop [of n d]
    by (cases "drop n d = []") (auto simp: skip_bws_def not_le)
  have tok: "skip_bws (snd (parse_token d)) \<noteq> [] \<Longrightarrow> d \<noteq> [] \<and> last (skip_bws (snd (parse_token d))) = last d"
  proof -
    assume ne: "skip_bws (snd (parse_token d)) \<noteq> []"
    then have "snd (parse_token d) \<noteq> []" by (auto simp: skip_bws_def)
    moreover from this have "d \<noteq> []" by (auto simp: parse_token_def)
    ultimately show ?thesis using skip_bws_last [OF ne] parse_token_last [of d] by simp
  qed
  have step: "chunk_extension_step rest =
     (if a = [] then Inl False
      else if hd a \<noteq> 0x3B then Inl False
      else if \<not> fst (parse_token t) then Inl False
      else if c = [] then Inl (c = b)
      else if hd c = 0x3B then Inr c
      else if hd c \<noteq> 0x3D then Inl False
      else if d = [] then Inl False
      else case (if hd d = 0x22 then
                  (if http_quoted_string_size d = 0 then None else Some (drop (http_quoted_string_size d) d))
                 else if fst (parse_token d) then Some (snd (parse_token d)) else None) of
             None \<Rightarrow> Inl False
           | Some x \<Rightarrow>
               (if skip_bws x = [] then Inl (skip_bws x = x)
                else if hd (skip_bws x) \<noteq> 0x3B then Inl False else Inr (skip_bws x)))"
    unfolding chunk_extension_step_def Let_def a_def t_def b_def c_def d_def case_prod_unfold by simp
  show "\<not> is_http_ows_char (last rest)" if "chunk_extension_step rest = Inl True"
    using that a t b c d parse_token_all [of t] parse_token_all [of d] quoted_size_last [of d] b_def
    unfolding step by (auto split: if_splits option.splits)
  show "rest' \<noteq> [] \<and> last rest' = last rest" if "chunk_extension_step rest = Inr rest'"
    using that a t b c d drop tok [THEN conjunct1] tok [THEN conjunct2] unfolding step by (auto split: if_splits option.splits)
qed

lemma chunk_extension_last:
  "rest \<noteq> [] \<Longrightarrow> chunk_extension_loop rest \<Longrightarrow> \<not> is_http_ows_char (last rest)"
proof (induction rest rule: chunk_extension_loop.induct)
  case (1 rest)
  show ?case
  proof (cases "chunk_extension_step rest")
    case (Inl b)
    then show ?thesis
      using 1(2,3) chunk_extension_step_last(1) [of rest] by (simp add: chunk_extension_loop.simps [of rest])
  next
    case (Inr rest')
    then show ?thesis
      using 1 chunk_extension_step_last(2) [OF Inr] by (simp add: chunk_extension_loop.simps [of rest])
  qed
qed

text \<open>
  An accepted chunk-size line has no optional white space at either end: the
  first byte is a hexadecimal digit and the last is neither SP nor HTAB, whatever extensions
  it carries. White space around the size is what request-smuggling differentials build on.
\<close>

theorem chunk_size_line_tight:
  assumes "parse_http_chunk_size_line line = Some r"
  shows "line \<noteq> [] \<and> is_hex_char (hd line) \<and> \<not> is_http_ows_char (last line)"
proof -
  let ?ds = "takeWhile is_hex_char line" and ?ext = "dropWhile is_hex_char line"
  have ds: "?ds \<noteq> []" and ext: "is_valid_http_chunk_extension ?ext"
    using assms by (auto simp: parse_chunk_size_line_eq Let_def split: if_splits)
  have hd: "line \<noteq> []" "is_hex_char (hd line)" using ds by (cases line; auto split: if_splits)+
  have "\<not> is_http_ows_char (last line)"
  proof (cases "?ext = []")
    case True
    then have "is_hex_char (last line)" using hd(1) by (simp add: dropWhile_eq_Nil_conv)
    then show ?thesis
      by (auto simp: is_hex_char_def http_decode_hex_nibble_def is_http_ows_char_def word_le_nat_alt split: if_splits)
  next
    case False
    then have "\<not> is_http_ows_char (last ?ext)"
      using ext chunk_extension_last by (simp add: is_valid_http_chunk_extension_def)
    then show ?thesis using False by (metis last_appendR takeWhile_dropWhile_id)
  qed
  with hd show ?thesis by blast
qed

theorem chunk_size_line_tight_witness:
  "parse_http_chunk_size_line (ascii ''1a;x'') = Some \<lparr>chunk_size = 26, overhead_bytes = 2\<rparr>
   \<and> \<not> is_http_ows_char (last (ascii ''1a;x''))"
proof -
  have "parse_http_chunk_size_line (ascii ''1a;x'') = Some \<lparr>chunk_size = 26, overhead_bytes = 2\<rparr>"
    by (simp add: parse_http_chunk_size_line_def http_decode_hex_nibble_def word_le_nat_alt word_less_nat_alt
        max_before_shift_nat is_valid_http_chunk_extension_def chunk_extension_loop.simps chunk_extension_step_def
        skip_bws_def parse_token_def is_http_token_char_def)
  from this chunk_size_line_tight [OF this] show ?thesis by blast
qed

end
