(* ===== verification/Byte_Budget.thy ===== *)
theory Byte_Budget
  imports Prelude
begin

text \<open>
  The byte ceilings of the protocol layers: \<open>protocol_byte_limit.h\<close> and the field section
  budget of \<open>http_field_section.h\<close> with the constants of \<open>http_limits.h\<close>. Sizes are
  natural numbers up to \<open>size_max\<close>; every subtraction of the code is guarded, as written.
\<close>

definition max_http_header_bytes :: nat where
  "max_http_header_bytes = 64 * 1024"

definition max_http_header_fields :: nat where
  "max_http_header_fields = 256"

definition http_field_line_overhead :: nat where
  "http_field_line_overhead = 4"

subsection \<open>Optional ceilings\<close>

text \<open>\<open>maximum_\<close>; \<open>None\<close> is unlimited.\<close>

type_synonym protocol_byte_limit = "nat option"

definition limited :: "int \<Rightarrow> protocol_byte_limit option" where
  "limited bytes_value =
     (if bytes_value < 0 \<or> bytes_value > int size_max \<or> bytes_value = 0 then None
      else Some (Some (nat bytes_value)))"

definition limit_exceeds :: "protocol_byte_limit \<Rightarrow> nat \<Rightarrow> bool" where
  "limit_exceeds maximum bytes_value \<longleftrightarrow> (case maximum of None \<Rightarrow> False | Some m \<Rightarrow> bytes_value > m)"

definition addition_exceeds :: "protocol_byte_limit \<Rightarrow> nat \<Rightarrow> nat \<Rightarrow> bool" where
  "addition_exceeds maximum current added \<longleftrightarrow>
     (if added > size_max - current then True
      else (case maximum of None \<Rightarrow> False | Some m \<Rightarrow> current > m \<or> added > m - current))"

definition read_ceiling :: "protocol_byte_limit \<Rightarrow> nat" where
  "read_ceiling maximum = (case maximum of None \<Rightarrow> size_max | Some m \<Rightarrow> m)"

lemma addition_exceeds_iff:
  assumes "current \<le> size_max" "read_ceiling maximum \<le> size_max"
  shows "addition_exceeds maximum current added \<longleftrightarrow> read_ceiling maximum < current + added"
  using assms by (auto simp: addition_exceeds_def read_ceiling_def split: option.splits)

subsection \<open>Field section budget\<close>

record http_field_section_budget =
  budget_bytes :: nat
  budget_fields :: nat

definition budget_add :: "nat \<Rightarrow> http_field_section_budget \<Rightarrow> http_field_section_budget option" where
  "budget_add bytes_value b =
     (if bytes_value > max_http_header_bytes - budget_bytes b then None
      else Some (b\<lparr>budget_bytes := budget_bytes b + bytes_value\<rparr>))"

definition budget_add_field :: "nat \<Rightarrow> nat \<Rightarrow> http_field_section_budget \<Rightarrow> http_field_section_budget option" where
  "budget_add_field name_bytes value_bytes b =
     (let remaining = max_http_header_bytes - budget_bytes b in
      if budget_fields b = max_http_header_fields \<or> remaining < http_field_line_overhead \<or>
         name_bytes > remaining - http_field_line_overhead \<or>
         value_bytes > remaining - http_field_line_overhead - name_bytes
      then None
      else Some (b\<lparr>budget_bytes := budget_bytes b + (name_bytes + value_bytes + http_field_line_overhead),
                  budget_fields := budget_fields b + 1\<rparr>))"

definition empty_budget :: http_field_section_budget where
  "empty_budget = \<lparr>budget_bytes = 0, budget_fields = 0\<rparr>"

definition http_trailer_section_budget :: http_field_section_budget where
  "http_trailer_section_budget =
     (case budget_add (length [0x0D :: byte, 0x0A]) empty_budget of Some b \<Rightarrow> b | None \<Rightarrow> empty_budget)"

definition budget_ok :: "http_field_section_budget \<Rightarrow> bool" where
  "budget_ok b \<longleftrightarrow> budget_bytes b \<le> max_http_header_bytes \<and> budget_fields b \<le> max_http_header_fields"

text \<open>What a list of fields, given by the sizes of their names and values, costs.\<close>

definition fields_cost :: "(nat \<times> nat) list \<Rightarrow> nat" where
  "fields_cost fs = (\<Sum>(n, v) \<leftarrow> fs. n + v + http_field_line_overhead)"

fun charge_fields :: "(nat \<times> nat) list \<Rightarrow> http_field_section_budget \<Rightarrow> http_field_section_budget option" where
  "charge_fields [] b = Some b"
| "charge_fields ((n, v) # fs) b =
     (case budget_add_field n v b of None \<Rightarrow> None | Some b' \<Rightarrow> charge_fields fs b')"

lemma trailer_section_budget: "http_trailer_section_budget = \<lparr>budget_bytes = 2, budget_fields = 0\<rparr>"
  by (simp add: http_trailer_section_budget_def budget_add_def empty_budget_def max_http_header_bytes_def)

lemma budget_add_field_Some:
  "budget_ok b \<Longrightarrow> budget_add_field n v b = Some b' \<longleftrightarrow>
     b' = b\<lparr>budget_bytes := budget_bytes b + (n + v + http_field_line_overhead),
           budget_fields := budget_fields b + 1\<rparr> \<and> budget_ok b'"
  by (auto simp: budget_add_field_def budget_ok_def Let_def http_field_line_overhead_def
      max_http_header_bytes_def max_http_header_fields_def)

lemma charge_fields_Some:
  "budget_ok b \<Longrightarrow> charge_fields fs b = Some b' \<longleftrightarrow>
     b' = b\<lparr>budget_bytes := budget_bytes b + fields_cost fs, budget_fields := budget_fields b + length fs\<rparr>
     \<and> budget_ok b'"
proof (induction fs b arbitrary: b' rule: charge_fields.induct)
  case (1 b)
  then show ?case by (auto simp: fields_cost_def)
next
  case (2 n v fs b)
  show ?case
  proof (cases "budget_add_field n v b")
    case None
    let ?b1 = "b\<lparr>budget_bytes := budget_bytes b + (n + v + http_field_line_overhead),
           budget_fields := budget_fields b + 1\<rparr>"
    have "\<not> budget_ok ?b1" using None 2(2) budget_add_field_Some [of b n v ?b1] by auto
    then show ?thesis using None by (auto simp: budget_ok_def fields_cost_def)
  next
    case (Some b1)
    then have "b1 = b\<lparr>budget_bytes := budget_bytes b + (n + v + http_field_line_overhead),
           budget_fields := budget_fields b + 1\<rparr>" and "budget_ok b1"
      using budget_add_field_Some 2(2) by auto
    then show ?thesis using 2(1) [OF Some] Some by (auto simp: fields_cost_def add.assoc)
  qed
qed

text \<open>
  Charging the fields of a section succeeds exactly when the section fits: at
  most 256 fields whose names, values and four bytes each add up to no more than 64 KiB
  beyond what was charged before. No order of the guards and no wrap of a subtraction lets a
  larger section pass, and a section that fits is never refused.
\<close>

theorem section_budget_exact:
  assumes "budget_ok b"
  shows "charge_fields fs b \<noteq> None \<longleftrightarrow>
    budget_bytes b + fields_cost fs \<le> max_http_header_bytes
    \<and> budget_fields b + length fs \<le> max_http_header_fields"
  using charge_fields_Some [OF assms, of fs] by (auto simp: budget_ok_def)

theorem section_budget_exact_witness:
  "charge_fields [(65530, 0)] http_trailer_section_budget \<noteq> None
   \<and> charge_fields [(65530, 1)] http_trailer_section_budget = None"
proof -
  have ok: "budget_ok http_trailer_section_budget"
    by (simp add: budget_ok_def trailer_section_budget max_http_header_bytes_def)
  show ?thesis
    using section_budget_exact [OF ok, of "[(65530, 0)]"] section_budget_exact [OF ok, of "[(65530, 1)]"]
    by (simp add: trailer_section_budget max_http_header_bytes_def max_http_header_fields_def
        fields_cost_def http_field_line_overhead_def)
qed

end
