(* ===== verification/Header_Kinds.thy ===== *)
theory Header_Kinds
  imports Field_Syntax
begin

text \<open>
  The identities of request header fields: \<open>request_header_kind.h\<close>, the switch of
  \<open>classify_request_header\<close> (\<open>http_parser_syntax.cpp\<close>), the duplicate-detection bits of
  \<open>http_parser_syntax.h\<close> and the trailer policy of \<open>http_trailer_fields.h\<close>.
\<close>

datatype request_header_kind =
    kind_other | kind_accept | kind_accept_encoding
  | kind_access_control_request_headers | kind_access_control_request_method | kind_authorization
  | kind_connection | kind_content_encoding | kind_content_length
  | kind_content_type | kind_cookie | kind_expect
  | kind_host | kind_if_match | kind_if_modified_since
  | kind_if_none_match | kind_if_range | kind_if_unmodified_since
  | kind_origin | kind_range | kind_sec_websocket_key
  | kind_sec_websocket_protocol | kind_sec_websocket_version | kind_transfer_encoding
  | kind_upgrade | kind_user_agent | kind_forwarded
  | kind_x_forwarded_for | kind_x_forwarded_proto | kind_sec_websocket_extensions
  | kind_te | kind_trailer | kind_proxy_authorization

text \<open>The value of an enumerator.\<close>

fun kind_index :: "request_header_kind \<Rightarrow> nat" where
  "kind_index kind_other = 0"
| "kind_index kind_accept = 1"
| "kind_index kind_accept_encoding = 2"
| "kind_index kind_access_control_request_headers = 3"
| "kind_index kind_access_control_request_method = 4"
| "kind_index kind_authorization = 5"
| "kind_index kind_connection = 6"
| "kind_index kind_content_encoding = 7"
| "kind_index kind_content_length = 8"
| "kind_index kind_content_type = 9"
| "kind_index kind_cookie = 10"
| "kind_index kind_expect = 11"
| "kind_index kind_host = 12"
| "kind_index kind_if_match = 13"
| "kind_index kind_if_modified_since = 14"
| "kind_index kind_if_none_match = 15"
| "kind_index kind_if_range = 16"
| "kind_index kind_if_unmodified_since = 17"
| "kind_index kind_origin = 18"
| "kind_index kind_range = 19"
| "kind_index kind_sec_websocket_key = 20"
| "kind_index kind_sec_websocket_protocol = 21"
| "kind_index kind_sec_websocket_version = 22"
| "kind_index kind_transfer_encoding = 23"
| "kind_index kind_upgrade = 24"
| "kind_index kind_user_agent = 25"
| "kind_index kind_forwarded = 26"
| "kind_index kind_x_forwarded_for = 27"
| "kind_index kind_x_forwarded_proto = 28"
| "kind_index kind_sec_websocket_extensions = 29"
| "kind_index kind_te = 30"
| "kind_index kind_trailer = 31"
| "kind_index kind_proxy_authorization = 32"

definition request_header_kind_count :: nat where
  "request_header_kind_count = kind_index kind_proxy_authorization + 1"

definition request_header_kind_known_slot :: "request_header_kind \<Rightarrow> nat" where
  "request_header_kind_known_slot kind =
     (if kind_index kind = 0 then request_header_kind_count else kind_index kind - 1)"

definition singleton_request_header_bit :: "request_header_kind \<Rightarrow> u32" where
  "singleton_request_header_bit kind =
     (if kind \<in> {kind_access_control_request_method, kind_authorization, kind_content_type, kind_if_modified_since,
        kind_if_range, kind_if_unmodified_since, kind_origin, kind_range,
        kind_sec_websocket_key, kind_sec_websocket_version, kind_user_agent}
      then push_bit (kind_index kind) 1 else 0)"

definition classify_request_header :: "bytes \<Rightarrow> request_header_kind" where
  "classify_request_header name =
     (if name = [] then kind_other
     else let first = http_ascii_to_lower (hd name);
              is_name = (\<lambda>s. http_ascii_equals_ignore_case name (ascii s))
     in if length name = 2 then
       (if first = 0x74 \<and> is_name ''TE'' then kind_te
        else kind_other)
     else if length name = 4 then
       (if first = 0x68 \<and> is_name ''Host'' then kind_host
        else kind_other)
     else if length name = 5 then
       (if first = 0x72 \<and> is_name ''Range'' then kind_range
        else kind_other)
     else if length name = 6 then
       (if first = 0x61 \<and> is_name ''Accept'' then kind_accept
        else if first = 0x63 \<and> is_name ''Cookie'' then kind_cookie
        else if first = 0x65 \<and> is_name ''Expect'' then kind_expect
        else if first = 0x6F \<and> is_name ''Origin'' then kind_origin
        else kind_other)
     else if length name = 7 then
       (if first = 0x75 \<and> is_name ''Upgrade'' then kind_upgrade
        else if first = 0x74 \<and> is_name ''Trailer'' then kind_trailer
        else kind_other)
     else if length name = 9 then
       (if first = 0x66 \<and> is_name ''Forwarded'' then kind_forwarded
        else kind_other)
     else if length name = 8 then
       (if first = 0x69 \<and> is_name ''If-Match'' then kind_if_match
        else if first = 0x69 \<and> is_name ''If-Range'' then kind_if_range
        else kind_other)
     else if length name = 10 then
       (if first = 0x63 \<and> is_name ''Connection'' then kind_connection
        else if first = 0x75 \<and> is_name ''User-Agent'' then kind_user_agent
        else kind_other)
     else if length name = 12 then
       (if first = 0x63 \<and> is_name ''Content-Type'' then kind_content_type
        else kind_other)
     else if length name = 13 then
       (if first = 0x61 \<and> is_name ''Authorization'' then kind_authorization
        else if first = 0x69 \<and> is_name ''If-None-Match'' then kind_if_none_match
        else kind_other)
     else if length name = 14 then
       (if first = 0x63 \<and> is_name ''Content-Length'' then kind_content_length
        else kind_other)
     else if length name = 15 then
       (if first = 0x61 \<and> is_name ''Accept-Encoding'' then kind_accept_encoding
        else if first = 0x78 \<and> is_name ''X-Forwarded-For'' then kind_x_forwarded_for
        else kind_other)
     else if length name = 16 then
       (if first = 0x63 \<and> is_name ''Content-Encoding'' then kind_content_encoding
        else kind_other)
     else if length name = 17 then
       (if first = 0x69 \<and> is_name ''If-Modified-Since'' then kind_if_modified_since
        else if first = 0x73 \<and> is_name ''Sec-WebSocket-Key'' then kind_sec_websocket_key
        else if first = 0x74 \<and> is_name ''Transfer-Encoding'' then kind_transfer_encoding
        else if first = 0x78 \<and> is_name ''X-Forwarded-Proto'' then kind_x_forwarded_proto
        else kind_other)
     else if length name = 19 then
       (if first = 0x69 \<and> is_name ''If-Unmodified-Since'' then kind_if_unmodified_since
        else if first = 0x70 \<and> is_name ''Proxy-Authorization'' then kind_proxy_authorization
        else kind_other)
     else if length name = 21 then
       (if first = 0x73 \<and> is_name ''Sec-WebSocket-Version'' then kind_sec_websocket_version
        else kind_other)
     else if length name = 22 then
       (if first = 0x73 \<and> is_name ''Sec-WebSocket-Protocol'' then kind_sec_websocket_protocol
        else kind_other)
     else if length name = 24 then
       (if first = 0x73 \<and> is_name ''Sec-WebSocket-Extensions'' then kind_sec_websocket_extensions
        else kind_other)
     else if length name = 29 then
       (if first = 0x61 \<and> is_name ''Access-Control-Request-Method'' then kind_access_control_request_method
        else kind_other)
     else if length name = 30 then
       (if first = 0x61 \<and> is_name ''Access-Control-Request-Headers'' then kind_access_control_request_headers
        else kind_other)
     else kind_other)"

subsection \<open>Trailer policy\<close>

definition is_forbidden_common_trailer_name :: "bytes \<Rightarrow> request_header_kind \<Rightarrow> bool" where
  "is_forbidden_common_trailer_name name kind \<longleftrightarrow>
     (let is_name = (\<lambda>s. http_ascii_equals_ignore_case name (ascii s)) in
      if kind \<in> {kind_host, kind_content_length, kind_transfer_encoding, kind_connection,
        kind_content_encoding, kind_content_type, kind_cookie, kind_expect,
        kind_if_match, kind_if_modified_since, kind_if_none_match, kind_if_range,
        kind_if_unmodified_since, kind_range, kind_upgrade, kind_authorization,
        kind_te, kind_trailer, kind_proxy_authorization}
      then True
      else if length name = 10 then is_name ''Keep-Alive'' \<or> is_name ''Set-Cookie''
      else if length name = 12 then is_name ''Max-Forwards''
      else if length name = 13 then is_name ''Cache-Control'' \<or> is_name ''Content-Range''
      else if length name = 16 then is_name ''Proxy-Connection''
      else if length name = 18 then is_name ''Proxy-Authenticate''
      else False)"

definition is_forbidden_http_request_trailer_name :: "bytes \<Rightarrow> bool" where
  "is_forbidden_http_request_trailer_name name \<longleftrightarrow>
     (let kind = classify_request_header name in
      if is_forbidden_common_trailer_name name kind then True
      else kind = kind_access_control_request_headers \<or> kind = kind_access_control_request_method \<or>
           kind = kind_origin \<or> http_ascii_equals_ignore_case name (ascii ''Accept-Ranges''))"

subsection \<open>The switch is a table lookup\<close>

text \<open>The registered spelling of every known field name.\<close>

definition request_header_names :: "(string \<times> request_header_kind) list" where
  "request_header_names =
    [(''TE'', kind_te),
     (''Host'', kind_host),
     (''Range'', kind_range),
     (''Accept'', kind_accept),
     (''Cookie'', kind_cookie),
     (''Expect'', kind_expect),
     (''Origin'', kind_origin),
     (''Upgrade'', kind_upgrade),
     (''Trailer'', kind_trailer),
     (''Forwarded'', kind_forwarded),
     (''If-Match'', kind_if_match),
     (''If-Range'', kind_if_range),
     (''Connection'', kind_connection),
     (''User-Agent'', kind_user_agent),
     (''Content-Type'', kind_content_type),
     (''Authorization'', kind_authorization),
     (''If-None-Match'', kind_if_none_match),
     (''Content-Length'', kind_content_length),
     (''Accept-Encoding'', kind_accept_encoding),
     (''X-Forwarded-For'', kind_x_forwarded_for),
     (''Content-Encoding'', kind_content_encoding),
     (''If-Modified-Since'', kind_if_modified_since),
     (''Sec-WebSocket-Key'', kind_sec_websocket_key),
     (''Transfer-Encoding'', kind_transfer_encoding),
     (''X-Forwarded-Proto'', kind_x_forwarded_proto),
     (''If-Unmodified-Since'', kind_if_unmodified_since),
     (''Proxy-Authorization'', kind_proxy_authorization),
     (''Sec-WebSocket-Version'', kind_sec_websocket_version),
     (''Sec-WebSocket-Protocol'', kind_sec_websocket_protocol),
     (''Sec-WebSocket-Extensions'', kind_sec_websocket_extensions),
     (''Access-Control-Request-Method'', kind_access_control_request_method),
     (''Access-Control-Request-Headers'', kind_access_control_request_headers)]"

definition table_kind :: "bytes \<Rightarrow> request_header_kind" where
  "table_kind name =
     (case find (\<lambda>(s, k). http_ascii_equals_ignore_case name (ascii s)) request_header_names of
        Some (s, k) \<Rightarrow> k | None \<Rightarrow> kind_other)"

lemma find_Some_matches: "find P xs = Some x \<Longrightarrow> P x \<and> x \<in> set xs"
  by (auto simp: find_Some_iff)

lemma lower_lower [simp]: "http_ascii_to_lower (http_ascii_to_lower c) = http_ascii_to_lower c"
  using unat_byte_less [of c]
  by (auto simp: http_ascii_to_lower_def word_le_nat_alt unat_word_ariths)

lemma classify_lowered: "classify_request_header (map http_ascii_to_lower name) = classify_request_header name"
proof (cases name)
  case (Cons c cs)
  have "http_ascii_equals_ignore_case (map http_ascii_to_lower name) = http_ascii_equals_ignore_case name"
    by (rule ext) (simp add: equals_ignore_case_map o_def)
  then show ?thesis
    unfolding classify_request_header_def by (simp only: Cons list.sel list.map lower_lower length_map list.size list.distinct)
qed simp

lemma length_ascii: "length (ascii s) = length s"
  by (simp add: ascii_def)

lemma ascii_eq_Nil: "ascii s = [] \<longleftrightarrow> s = []"
  by (simp add: ascii_def)

lemma hd_lower_ascii: "hd (map http_ascii_to_lower (ascii (c # cs))) = http_ascii_to_lower (word_of_nat (of_char c))"
  by simp

lemma equals_ignore_case_lowered: "http_ascii_equals_ignore_case (map http_ascii_to_lower a) a"
  by (simp add: equals_ignore_case_map o_def)

lemma if_match_not_if_range:
  "\<not> http_ascii_equals_ignore_case (map http_ascii_to_lower (ascii ''If-Range'')) (ascii ''If-Match'')"
  by (simp add: http_ascii_to_lower_def word_le_nat_alt)

lemma registered_names_classified:
  "list_all (\<lambda>(s, k). classify_request_header (map http_ascii_to_lower (ascii s)) = k) request_header_names"
  by (simp add: request_header_names_def classify_request_header_def Let_def length_ascii ascii_eq_Nil
      hd_lower_ascii equals_ignore_case_lowered if_match_not_if_range
      http_ascii_to_lower_def [of "numeral n" for n] word_le_nat_alt del: ascii_Cons list.map)

lemma classify_known:
  assumes "map http_ascii_to_lower name = map http_ascii_to_lower (ascii s)" "(s, k) \<in> set request_header_names"
  shows "classify_request_header name = k"
  using assms registered_names_classified classify_lowered [of name]
  by (auto simp: list_all_iff)

lemma classify_unknown:
  assumes "list_all (\<lambda>(s, k). \<not> http_ascii_equals_ignore_case name (ascii s)) request_header_names"
  shows "classify_request_header name = kind_other"
  using assms unfolding request_header_names_def classify_request_header_def by (simp add: Let_def del: ascii_Cons)

lemma classify_table: "classify_request_header name = table_kind name"
proof (cases "find (\<lambda>(s, k). http_ascii_equals_ignore_case name (ascii s)) request_header_names")
  case None
  then have "list_all (\<lambda>(s, k). \<not> http_ascii_equals_ignore_case name (ascii s)) request_header_names"
    by (auto simp: find_None_iff list_all_iff)
  from classify_unknown [OF this] None show ?thesis by (simp add: table_kind_def)
next
  case (Some e)
  obtain s k where e: "e = (s, k)" by fastforce
  with find_Some_matches [OF Some] have "(s, k) \<in> set request_header_names"
    and "http_ascii_equals_ignore_case name (ascii s)" by auto
  then have "classify_request_header name = k"
    by (intro classify_known) (auto simp: equals_ignore_case_map)
  with Some e show ?thesis by (simp add: table_kind_def)
qed

text \<open>
  The two-level switch on the length and the first letter that classifies a
  request header agrees with a case-insensitive lookup of the whole name in the table of
  registered names, for every byte string: no known field is missed because it sits under a
  wrong length or letter, and nothing else is taken for one.
\<close>

theorem classify_is_table_lookup:
  "classify_request_header name = table_kind name"
  by (rule classify_table)

text \<open>
  The duplicate-detection mask can tell its fields apart: two kinds with a
  non-zero bit have the same bit only when they are the same kind, and the bit is one bit of
  the 32.
\<close>

theorem singleton_bits_distinct:
  "singleton_request_header_bit k AND singleton_request_header_bit k' \<noteq> 0 \<longleftrightarrow>
     k = k' \<and> singleton_request_header_bit k \<noteq> 0"
  by (cases k; cases k') (simp_all add: singleton_request_header_bit_def)

end
