(* ===== verification/Trailer_Block.thy ===== *)
theory Trailer_Block
  imports Byte_Budget Header_Kinds
begin

text \<open>
  The parser of a received HTTP/1 trailer section, \<open>visit_http1_trailer_block\<close>
  (\<open>http_trailer_fields.h\<close>), and the unfolding of folded field lines
  (\<open>field_line_folding.h\<close>). A view into the block is a pair of its begin and end offsets
  where the code compares data pointers, and the bytes it covers elsewhere.
\<close>

subsection \<open>Searching for CRLF\<close>

fun crlf_index :: "bytes \<Rightarrow> nat option" where
  "crlf_index (a # b # rest) =
     (if a = 0x0D \<and> b = 0x0A then Some 0 else map_option Suc (crlf_index (b # rest)))"
| "crlf_index _ = None"

definition find_crlf :: "bytes \<Rightarrow> nat \<Rightarrow> nat option" where
  "find_crlf v from = map_option (\<lambda>i. from + i) (crlf_index (drop from v))"

lemma crlf_index_bound: "crlf_index v = Some i \<Longrightarrow> i + 2 \<le> length v"
  by (induction v arbitrary: i rule: crlf_index.induct) (auto split: if_splits)

lemma find_crlf_bounds:
  assumes "find_crlf v from = Some i"
  shows "from \<le> i" "i + 2 \<le> length v"
proof -
  obtain k where k: "crlf_index (drop from v) = Some k" "i = from + k"
    using assms by (auto simp: find_crlf_def)
  show "from \<le> i" using k by simp
  show "i + 2 \<le> length v" using crlf_index_bound [OF k(1)] k(2) by simp
qed

subsection \<open>The section parser\<close>

datatype http1_trailer_obs_fold = obs_fold_reject | obs_fold_accept

datatype http_trailer_block_status = trailer_ok | invalid_field | section_too_large | visitor_stopped

text \<open>\<open>http_trim_ows\<close> of the view between two offsets, as offsets.\<close>

definition trim_span :: "bytes \<Rightarrow> nat \<Rightarrow> nat \<Rightarrow> nat \<times> nat" where
  "trim_span block b e =
     (let s = substr block b (e - b);
          b' = b + (length s - length (dropWhile is_http_ows_char s))
      in (b', b' + length (http_trim_ows s)))"

definition span_bytes :: "bytes \<Rightarrow> nat \<times> nat \<Rightarrow> bytes" where
  "span_bytes block s = substr block (fst s) (snd s - fst s)"

definition line_stop :: "bytes \<Rightarrow> nat option \<Rightarrow> nat" where
  "line_stop block line_end = (case line_end of None \<Rightarrow> length block | Some e \<Rightarrow> e)"

text \<open>What is kept of the value so far: its view, its unfolded size and the separators not
  yet followed by a non-empty piece.\<close>

type_synonym folded_value = "(nat \<times> nat) \<times> nat \<times> nat"

definition add_piece :: "nat \<times> nat \<Rightarrow> folded_value \<Rightarrow> folded_value" where
  "add_piece piece acc =
     (case acc of (val_span, value_bytes, pending) \<Rightarrow>
        let size = snd piece - fst piece in
        if size = 0 then acc
        else if value_bytes = 0 then (piece, value_bytes + size, 0)
        else ((fst val_span, snd piece), value_bytes + pending + size, 0))"

definition add_separator :: "folded_value \<Rightarrow> folded_value" where
  "add_separator acc = (case acc of (val_span, value_bytes, pending) \<Rightarrow> (val_span, value_bytes, pending + 1))"

text \<open>The inner loop over the pieces of a folded value; \<open>None\<close> is \<open>invalid_field\<close>. The result
  is the value's view, its unfolded size and the end of its last line.\<close>

function fold_pieces ::
  "bytes \<Rightarrow> http1_trailer_obs_fold \<Rightarrow> nat option \<Rightarrow> nat \<times> nat \<Rightarrow> folded_value
     \<Rightarrow> ((nat \<times> nat) \<times> nat \<times> nat option) option" where
  "fold_pieces block obs_fold line_end piece acc =
     (if \<not> is_valid_http_field_value_bytes (span_bytes block piece) then None
      else case line_end of
             None \<Rightarrow> Some (fst (add_piece piece acc), fst (snd (add_piece piece acc)), line_end)
           | Some e \<Rightarrow>
               if obs_fold = obs_fold_reject \<or> e + 2 \<ge> length block \<or> \<not> is_http_ows_char (block ! (e + 2))
               then Some (fst (add_piece piece acc), fst (snd (add_piece piece acc)), line_end)
               else fold_pieces block obs_fold (find_crlf block (e + 2))
                      (trim_span block (e + 2) (line_stop block (find_crlf block (e + 2))))
                      (add_separator (add_piece piece acc)))"
  by pat_completeness auto

termination
  by (relation "measure (\<lambda>(block, f, line_end, p, acc). length block - line_stop block line_end)")
    (auto simp: line_stop_def split: option.splits dest: find_crlf_bounds)

declare fold_pieces.simps [simp del]

lemma fold_pieces_end:
  "fold_pieces block obs_fold line_end piece acc = Some (v, n, e) \<Longrightarrow>
     line_stop block line_end \<le> line_stop block e \<and> (e \<noteq> None \<longrightarrow> line_end \<noteq> None) \<and>
     (\<forall>x. e = Some x \<longrightarrow> line_end = Some x \<or> x + 2 \<le> length block)"
proof (induction block obs_fold line_end piece acc rule: fold_pieces.induct)
  case (1 block obs_fold line_end piece acc)
  note step = fold_pieces.simps [of block obs_fold line_end piece acc]
  show ?case
  proof (cases "case line_end of None \<Rightarrow> True
      | Some x \<Rightarrow> obs_fold = obs_fold_reject \<or> x + 2 \<ge> length block \<or> \<not> is_http_ows_char (block ! (x + 2))")
    case True
    then have "e = line_end"
      using 1(2) unfolding step by (auto split: option.splits if_splits)
    then show ?thesis by simp
  next
    case False
    then obtain x where x: "line_end = Some x"
        "\<not> (obs_fold = obs_fold_reject \<or> x + 2 \<ge> length block \<or> \<not> is_http_ows_char (block ! (x + 2)))"
      by (auto split: option.splits)
    have valid: "\<not> \<not> is_valid_http_field_value_bytes (span_bytes block piece)"
      using 1(2) unfolding step by (auto split: if_splits)
    let ?le = "find_crlf block (x + 2)"
    have "fold_pieces block obs_fold ?le (trim_span block (x + 2) (line_stop block ?le))
        (add_separator (add_piece piece acc)) = Some (v, n, e)"
      using 1(2) x valid unfolding step by simp
    from 1(1) [OF valid x this]
    have "line_stop block ?le \<le> line_stop block e" "\<forall>y. e = Some y \<longrightarrow> ?le = Some y \<or> y + 2 \<le> length block"
      by auto
    moreover have "x \<le> line_stop block ?le"
      using x(2) find_crlf_bounds [of block "x + 2"] by (auto simp: line_stop_def split: option.splits)
    ultimately show ?thesis using x(1) find_crlf_bounds(2) [of block "x + 2"]
      by (auto simp: line_stop_def)
  qed
qed

text \<open>One iteration of the outer loop.\<close>

type_synonym 's field_visitor = "bytes \<Rightarrow> bytes \<Rightarrow> 's \<Rightarrow> 's \<times> bool"

datatype 's line_outcome =
    line_return http_trailer_block_status http_field_section_budget 's
  | line_next nat http_field_section_budget 's

definition trailer_line ::
  "bytes \<Rightarrow> http1_trailer_obs_fold \<Rightarrow> (bytes \<Rightarrow> bool) \<Rightarrow> 's field_visitor \<Rightarrow> nat
     \<Rightarrow> http_field_section_budget \<Rightarrow> 's \<Rightarrow> 's line_outcome" where
  "trailer_line block obs_fold discarded_name visitor cursor budget s =
     (let line_end = find_crlf block cursor;
          line = substr block cursor (line_stop block line_end - cursor);
          colon = http_token_prefix_size line
      in if colon = 0 \<or> colon = length line \<or> line ! colon \<noteq> 0x3A then line_return invalid_field budget s
         else
           let name = take colon line;
               piece = trim_span block (cursor + colon + 1) (line_stop block line_end)
           in case fold_pieces block obs_fold line_end piece (piece, 0, 0) of
                None \<Rightarrow> line_return invalid_field budget s
              | Some (val_span, value_bytes, line_end') \<Rightarrow>
                  (case budget_add_field (length name) value_bytes budget of
                     None \<Rightarrow> line_return section_too_large budget s
                   | Some budget' \<Rightarrow>
                       (let (s', more) = (if discarded_name name then (s, True)
                                          else visitor name (span_bytes block val_span) s)
                        in if \<not> more then line_return visitor_stopped budget' s'
                           else case line_end' of
                                  None \<Rightarrow> line_return trailer_ok budget' s'
                                | Some e \<Rightarrow> line_next (e + 2) budget' s')))"

lemma trailer_line_progress:
  assumes "trailer_line block obs_fold discarded_name visitor cursor budget s = line_next cursor' budget' s'"
  shows "cursor < cursor'" "cursor' \<le> length block"
proof -
  let ?e = "find_crlf block cursor"
  obtain piece v n e where fold: "fold_pieces block obs_fold ?e piece (piece, 0, 0) = Some (v, n, Some e)"
    and cursor': "cursor' = e + 2"
    using assms by (auto simp: trailer_line_def Let_def split: if_splits option.splits prod.splits)
  from fold_pieces_end [OF fold] obtain x where x: "?e = Some x" "line_stop block ?e \<le> e"
      "e = x \<or> e + 2 \<le> length block" by (auto simp: line_stop_def)
  then have "cursor \<le> x" "x + 2 \<le> length block" "x \<le> e"
    using find_crlf_bounds [OF x(1)] by (auto simp: line_stop_def)
  with x cursor' show "cursor < cursor'" "cursor' \<le> length block" by auto
qed

function trailer_lines ::
  "bytes \<Rightarrow> http1_trailer_obs_fold \<Rightarrow> (bytes \<Rightarrow> bool) \<Rightarrow> 's field_visitor \<Rightarrow> nat
     \<Rightarrow> http_field_section_budget \<Rightarrow> 's \<Rightarrow> http_trailer_block_status \<times> http_field_section_budget \<times> 's" where
  "trailer_lines block obs_fold discarded_name visitor cursor budget s =
     (if cursor < length block then
        (case trailer_line block obs_fold discarded_name visitor cursor budget s of
           line_return status budget' s' \<Rightarrow> (status, budget', s')
         | line_next cursor' budget' s' \<Rightarrow>
             trailer_lines block obs_fold discarded_name visitor cursor' budget' s')
      else (trailer_ok, budget, s))"
  by pat_completeness auto

termination
  by (relation "measure (\<lambda>(block, f, d, v, cursor, b, s). length block - cursor)")
    (auto dest!: trailer_line_progress(1))

declare trailer_lines.simps [simp del]

definition visit_http1_trailer_block ::
  "bytes \<Rightarrow> http1_trailer_obs_fold \<Rightarrow> (bytes \<Rightarrow> bool) \<Rightarrow> http_field_section_budget \<Rightarrow> 's field_visitor \<Rightarrow> 's
     \<Rightarrow> http_trailer_block_status \<times> http_field_section_budget \<times> 's" where
  "visit_http1_trailer_block block obs_fold discarded_name budget visitor s =
     (if length block > max_http_header_bytes then (section_too_large, budget, s)
      else trailer_lines block obs_fold discarded_name visitor 0 budget s)"

subsection \<open>Trimmed views\<close>

lemma trim_ows_slice:
  "http_trim_ows s = take (length (http_trim_ows s)) (drop (length s - length (dropWhile is_http_ows_char s)) s)"
proof -
  let ?d = "dropWhile is_http_ows_char s"
  have "length s - length ?d = length (takeWhile is_http_ows_char s)"
    by (metis add_diff_cancel_right' length_append takeWhile_dropWhile_id)
  then have d: "?d = drop (length s - length ?d) s" by (metis dropWhile_eq_drop)
  have "?d = rev (dropWhile is_http_ows_char (rev ?d)) @ rev (takeWhile is_http_ows_char (rev ?d))"
    by (metis rev_append rev_rev_ident takeWhile_dropWhile_id)
  then have "http_trim_ows s = take (length (http_trim_ows s)) ?d"
    unfolding http_trim_ows_def by (metis append_eq_conv_conj)
  with d show ?thesis by metis
qed

lemma trim_ows_length: "length (http_trim_ows s) + (length s - length (dropWhile is_http_ows_char s)) \<le> length s"
proof -
  have "length (http_trim_ows s) \<le> length (dropWhile is_http_ows_char s)"
    unfolding http_trim_ows_def by (metis length_dropWhile_le length_rev)
  then show ?thesis using length_dropWhile_le [of is_http_ows_char s] by linarith
qed

lemma span_bytes_trim: "span_bytes block (trim_span block b e) = http_trim_ows (substr block b (e - b))"
proof -
  let ?s = "substr block b (e - b)"
  let ?k = "length ?s - length (dropWhile is_http_ows_char ?s)" and ?n = "length (http_trim_ows ?s)"
  have fits: "?n + ?k \<le> length ?s" by (rule trim_ows_length)
  have slice: "take n (drop k (take m xs)) = take n (drop k xs)" if "n + k \<le> length (take m xs)" for n k m and xs :: bytes
  proof -
    have "min n (m - k) = n" using that by auto
    then show ?thesis by (simp add: drop_take)
  qed
  have "take ?n (drop ?k ?s) = take ?n (drop ?k (drop b block))"
    using slice [OF fits [unfolded substr_def]] unfolding substr_def .
  then have "substr block (b + ?k) ?n = take ?n (drop ?k ?s)"
    by (simp add: substr_def add.commute)
  also have "\<dots> = http_trim_ows ?s" by (rule trim_ows_slice [symmetric])
  finally show ?thesis by (simp add: span_bytes_def trim_span_def Let_def)
qed

lemma trim_span_size: "snd (trim_span block b e) - fst (trim_span block b e) = length (http_trim_ows (substr block b (e - b)))"
  by (simp add: trim_span_def Let_def)

text \<open>A line that is not continued: its value is the trimmed rest of the line.\<close>

lemma fold_pieces_single:
  assumes "obs_fold = obs_fold_reject \<or> (\<forall>e. line_end = Some e \<longrightarrow> e + 2 \<ge> length block \<or> \<not> is_http_ows_char (block ! (e + 2)))"
  shows "fold_pieces block obs_fold line_end piece (piece, 0, 0) =
    (if is_valid_http_field_value_bytes (span_bytes block piece)
     then Some (piece, snd piece - fst piece, line_end) else None)"
  using assms by (subst fold_pieces.simps) (auto simp: add_piece_def Let_def split: option.splits)

subsection \<open>Parsing inverts writing\<close>

definition render_field :: "bytes \<times> bytes \<Rightarrow> bytes" where
  "render_field f = fst f @ [0x3A, 0x20] @ snd f @ [0x0D, 0x0A]"

definition render_fields :: "(bytes \<times> bytes) list \<Rightarrow> bytes" where
  "render_fields fs = concat (map render_field fs)"

definition field_sizes :: "(bytes \<times> bytes) list \<Rightarrow> (nat \<times> nat) list" where
  "field_sizes fs = map (\<lambda>(n, v). (length n, length v)) fs"

lemma crlf_index_append: "0x0D \<notin> set xs \<Longrightarrow> crlf_index (xs @ 0x0D # 0x0A # rest) = Some (length xs)"
proof (induction xs)
  case (Cons x xs)
  then show ?case by (cases xs) auto
qed simp

lemma cr_not_token: "list_all is_http_token_char n \<Longrightarrow> 0x0D \<notin> set n"
  by (auto simp: list_all_iff is_http_token_char_def word_le_nat_alt)

lemma cr_not_value: "list_all is_http_field_value_char v \<Longrightarrow> 0x0D \<notin> set v"
  by (auto simp: list_all_iff is_http_field_value_char_def word_le_nat_alt)

lemma trim_after_space:
  assumes "is_valid_http_header_value v"
  shows "http_trim_ows (0x20 # v) = v"
proof -
  have "http_trim_ows (0x20 # v) = http_trim_ows v"
    by (simp add: http_trim_ows_def is_http_ows_char_def)
  also have "\<dots> = v" using assms by (intro trim_ows_id) (auto simp: is_valid_http_header_value_def)
  finally show ?thesis .
qed

lemma trailer_line_field:
  assumes field: "is_valid_http_header_name n" "is_valid_http_header_value v"
    and block: "block = pre @ render_field (n, v) @ rest" "rest = [] \<or> \<not> is_http_ows_char (hd rest)"
    and charge: "budget_add_field (length n) (length v) b = Some b'"
  shows "trailer_line block obs_fold discarded visitor (length pre) b s =
    (let (s', more) = (if discarded n then (s, True) else visitor n v s)
     in if more then line_next (length pre + length (render_field (n, v))) b' s'
        else line_return visitor_stopped b' s')"
proof -
  have token: "list_all is_http_token_char n" "n \<noteq> []" using field by (auto simp: valid_header_name)
  have chars: "list_all is_http_field_value_char v"
    using field by (cases "v = []") (auto simp: is_valid_http_header_value_def valid_value_bytes)
  let ?line = "n @ 0x3A # 0x20 # v"
  let ?e = "length pre + length ?line"
  have "0x0D \<notin> set ?line" using cr_not_token [OF token(1)] cr_not_value [OF chars] by auto
  then have "crlf_index (drop (length pre) block) = Some (length ?line)"
    using crlf_index_append [of ?line rest] by (simp add: block render_field_def)
  then have e: "find_crlf block (length pre) = Some ?e" by (simp add: find_crlf_def)
  have line: "substr block (length pre) (length ?line) = ?line"
    by (simp add: substr_def block render_field_def)
  have "\<not> is_http_token_char 0x3A" by (simp add: is_http_token_char_def word_le_nat_alt)
  then have prefix: "http_token_prefix_size ?line = length n"
    using token(1) by (simp add: token_prefix_size takeWhile_append2 list_all_iff)
  let ?piece = "trim_span block (length pre + length n + 1) ?e"
  have "substr block (length pre + length n + 1) (?e - (length pre + length n + 1)) = 0x20 # v"
    by (simp add: substr_def block render_field_def)
  then have piece: "span_bytes block ?piece = v" "snd ?piece - fst ?piece = length v"
    using trim_after_space [OF field(2)] by (simp_all only: span_bytes_trim trim_span_size)
  have "?e + 2 \<ge> length block \<or> \<not> is_http_ows_char (block ! (?e + 2))"
    using block(2) by (cases rest) (auto simp: block(1) render_field_def nth_append)
  then have fold: "fold_pieces block obs_fold (Some ?e) ?piece (?piece, 0, 0) = Some (?piece, length v, Some ?e)"
    using piece chars by (subst fold_pieces_single) (auto simp: valid_value_bytes)
  have stop: "line_stop block (Some ?e) = ?e" by (simp add: line_stop_def)
  have size: "?e - length pre = length ?line" by simp
  have next_cursor: "?e + 2 = length pre + length (render_field (n, v))" by (simp add: render_field_def)
  have colon: "\<not> (length n = 0 \<or> length n = length ?line \<or> ?line ! length n \<noteq> 0x3A)" using token by simp
  have name: "take (length n) ?line = n" by simp
  show ?thesis
    unfolding trailer_line_def Let_def e stop size line prefix name
    using colon by (simp only: if_False fold piece charge option.case prod.case next_cursor)
      (simp add: Let_def split: prod.splits)
qed

lemma render_head: "is_valid_http_header_name n \<Longrightarrow> \<not> is_http_ows_char (hd (render_field (n, v) @ rest))"
proof -
  assume "is_valid_http_header_name n"
  then have "n \<noteq> []" "is_http_token_char (hd n)" by (cases n; auto simp: valid_header_name)+
  then show ?thesis
    by (auto simp: render_field_def hd_append is_http_token_char_def is_http_ows_char_def word_le_nat_alt)
qed

lemma trailer_lines_render:
  assumes "\<forall>(n, v) \<in> set fs. is_valid_http_header_name n \<and> is_valid_http_header_value v"
    and "charge_fields (field_sizes fs) b = Some b'"
  shows "trailer_lines (pre @ render_fields fs) obs_fold discarded
      (\<lambda>n v seen. (seen @ [(n, v)], True)) (length pre) b seen
    = (trailer_ok, b', seen @ filter (\<lambda>(n, v). \<not> discarded n) fs)"
  using assms
proof (induction fs arbitrary: pre b seen)
  case Nil
  then show ?case by (subst trailer_lines.simps) (simp add: render_fields_def field_sizes_def)
next
  case (Cons f fs)
  obtain n v where f: "f = (n, v)" by fastforce
  have field: "is_valid_http_header_name n" "is_valid_http_header_value v" using Cons.prems(1) f by auto
  obtain b1 where charge: "budget_add_field (length n) (length v) b = Some b1"
    and rest: "charge_fields (field_sizes fs) b1 = Some b'"
    using Cons.prems(2) by (auto simp: f field_sizes_def split: option.splits)
  let ?block = "pre @ render_fields (f # fs)"
  have block: "?block = pre @ render_field (n, v) @ render_fields fs" by (simp add: render_fields_def f)
  have after: "render_fields fs = [] \<or> \<not> is_http_ows_char (hd (render_fields fs))"
  proof (cases fs)
    case (Cons g gs)
    then show ?thesis
      using Cons.prems(1) render_head [of "fst g" "snd g" "render_fields gs"]
      by (cases g) (auto simp: render_fields_def)
  qed (simp add: render_fields_def)
  have less: "length pre < length ?block" by (simp add: block render_field_def)
  let ?seen = "if discarded n then seen else seen @ [(n, v)]"
  have "trailer_line ?block obs_fold discarded (\<lambda>n v seen. (seen @ [(n, v)], True)) (length pre) b seen
      = line_next (length (pre @ render_field (n, v))) b1 ?seen"
    using trailer_line_field [OF field block after charge, of obs_fold discarded
        "\<lambda>n v seen. (seen @ [(n, v)], True)" seen] by simp
  then have "trailer_lines ?block obs_fold discarded (\<lambda>n v seen. (seen @ [(n, v)], True)) (length pre) b seen
      = trailer_lines ?block obs_fold discarded (\<lambda>n v seen. (seen @ [(n, v)], True))
          (length (pre @ render_field (n, v))) b1 ?seen"
    using less by (subst trailer_lines.simps) simp
  also have "\<dots> = (trailer_ok, b', ?seen @ filter (\<lambda>(n, v). \<not> discarded n) fs)"
    using Cons.IH [of b1 "pre @ render_field (n, v)"] Cons.prems(1) rest by (simp add: block)
  finally show ?case by (simp add: f)
qed

lemma length_render: "length (render_fields fs) = fields_cost (field_sizes fs)"
  by (induction fs) (auto simp: render_fields_def field_sizes_def fields_cost_def render_field_def
      http_field_line_overhead_def)

text \<open>
  Property C21. Parsing a trailer section inverts writing it: for any list of valid fields
  that fits the section budget, the parser accepts the written section, hands the visitor
  exactly the fields whose names the policy does not discard, in order and unchanged, and
  charges the budget for all of them, whether folds are accepted or not.
\<close>

theorem trailer_block_roundtrip:
  assumes "\<forall>(n, v) \<in> set fs. is_valid_http_header_name n \<and> is_valid_http_header_value v"
    and "budget_ok b" "charge_fields (field_sizes fs) b = Some b'"
  shows "visit_http1_trailer_block (render_fields fs) obs_fold discarded b
      (\<lambda>n v seen. (seen @ [(n, v)], True)) []
    = (trailer_ok, b', filter (\<lambda>(n, v). \<not> discarded n) fs)"
proof -
  have "length (render_fields fs) \<le> max_http_header_bytes"
    using charge_fields_Some [OF assms(2), of "field_sizes fs" b'] assms(3)
    by (auto simp: length_render budget_ok_def)
  then show ?thesis
    using trailer_lines_render [OF assms(1,3), of "[]"]
    by (simp add: visit_http1_trailer_block_def)
qed

theorem trailer_block_roundtrip_witness:
  "visit_http1_trailer_block (ascii ''ETag: x'' @ [0x0D, 0x0A] @ ascii ''Host: y'' @ [0x0D, 0x0A]) obs_fold_accept
     is_forbidden_http_request_trailer_name http_trailer_section_budget
     (\<lambda>n v seen. (seen @ [(n, v)], True)) []
   = (trailer_ok, \<lparr>budget_bytes = 20, budget_fields = 2\<rparr>, [(ascii ''ETag'', ascii ''x'')])"
proof -
  let ?fs = "[(ascii ''ETag'', ascii ''x''), (ascii ''Host'', ascii ''y'')]"
  have fields: "\<forall>(n, v) \<in> set ?fs. is_valid_http_header_name n \<and> is_valid_http_header_value v"
    by (simp add: valid_header_name is_valid_http_header_value_def valid_value_bytes is_http_token_char_def
        is_http_field_value_char_def is_http_ows_char_def word_le_nat_alt)
  have ok: "budget_ok http_trailer_section_budget"
    by (simp add: budget_ok_def trailer_section_budget max_http_header_bytes_def)
  have charge: "charge_fields (field_sizes ?fs) http_trailer_section_budget = Some \<lparr>budget_bytes = 20, budget_fields = 2\<rparr>"
    by (simp add: field_sizes_def trailer_section_budget budget_add_field_def max_http_header_bytes_def
        max_http_header_fields_def http_field_line_overhead_def)
  have forbidden: "\<not> is_forbidden_http_request_trailer_name (ascii ''ETag'')"
    "is_forbidden_http_request_trailer_name (ascii ''Host'')"
    by (simp_all add: is_forbidden_http_request_trailer_name_def is_forbidden_common_trailer_name_def
        classify_request_header_def Let_def http_ascii_to_lower_def word_le_nat_alt)
  have "render_fields ?fs = ascii ''ETag: x'' @ [0x0D, 0x0A] @ ascii ''Host: y'' @ [0x0D, 0x0A]"
    by (simp add: render_fields_def render_field_def)
  then show ?thesis
    using trailer_block_roundtrip [OF fields ok charge, of obs_fold_accept is_forbidden_http_request_trailer_name]
      forbidden by (simp del: ascii_Cons)
qed

subsection \<open>What a received section can contain\<close>









end
