(* ===== verification/Chunked_Decoder.thy ===== *)
theory Chunked_Decoder
  imports Chunk_Line Trailer_Block
begin

text \<open>
  The incremental decoder of the HTTP/1 chunked coding
  (\<open>http1_chunked_body_decoder.h\<close> and \<open>.cpp\<close>). Every call gets the bytes available so far
  from the first unconsumed one; the decoder returns how many it consumed and what it found.
  Calling it with a zero body quota throws and is \<open>None\<close>.
\<close>

datatype http1_chunk_decode_error = invalid_framing | body_limit_exceeded | framing_limit_exceeded

datatype http1_chunk_decode_result =
    need_more nat
  | body_chunk nat bytes
  | complete nat bytes
  | failure nat http1_chunk_decode_error

fun consumed_bytes :: "http1_chunk_decode_result \<Rightarrow> nat" where
  "consumed_bytes (need_more n) = n"
| "consumed_bytes (body_chunk n _) = n"
| "consumed_bytes (complete n _) = n"
| "consumed_bytes (failure n _) = n"

datatype chunk_progress = at_size_line | at_body | at_delimiter | at_trailers | at_complete

datatype chunk_state = in_progress chunk_progress | decode_failed http1_chunk_decode_error

record http1_chunked_body_decoder =
  cd_body_limit :: protocol_byte_limit
  cd_obs_fold :: http1_trailer_obs_fold
  cd_state :: chunk_state
  size_line_search_offset :: nat
  trailer_search_offset :: nat
  cd_remaining :: nat
  decoded_bytes :: nat
  framing_overhead_bytes :: nat

definition make_chunked_body_decoder ::
  "protocol_byte_limit \<Rightarrow> http1_trailer_obs_fold \<Rightarrow> http1_chunked_body_decoder" where
  "make_chunked_body_decoder limit obs_fold =
     \<lparr>cd_body_limit = limit, cd_obs_fold = obs_fold, cd_state = in_progress at_size_line,
      size_line_search_offset = 0, trailer_search_offset = 0, cd_remaining = 0,
      decoded_bytes = 0, framing_overhead_bytes = 0\<rparr>"

definition chunk_fail ::
  "nat \<Rightarrow> http1_chunk_decode_error \<Rightarrow> http1_chunked_body_decoder
     \<Rightarrow> http1_chunk_decode_result \<times> http1_chunked_body_decoder" where
  "chunk_fail consumed e d = (failure consumed e, d\<lparr>cd_state := decode_failed e\<rparr>)"

definition starts_with_crlf :: "bytes \<Rightarrow> bool" where
  "starts_with_crlf v \<longleftrightarrow> take 2 v = [0x0D, 0x0A]"

text \<open>\<open>None\<close>: the two bytes at the cursor are not CRLF.\<close>

definition consume_delimiter ::
  "bytes \<Rightarrow> nat \<Rightarrow> http1_chunked_body_decoder \<Rightarrow> (nat \<times> http1_chunked_body_decoder) option" where
  "consume_delimiter available cursor d =
     (if \<not> starts_with_crlf (drop cursor available) then None
      else Some (cursor + 2, d\<lparr>cd_state := in_progress at_size_line\<rparr>))"

definition trailers_valid :: "http1_chunked_body_decoder \<Rightarrow> bytes \<Rightarrow> bool" where
  "trailers_valid d trailers \<longleftrightarrow>
     fst (visit_http1_trailer_block trailers (cd_obs_fold d) (\<lambda>_. False) http_trailer_section_budget
            (\<lambda>_ _ s. (s, True)) ()) = trailer_ok"

subsection \<open>The cases of the loop\<close>

text \<open>A case either returns or continues the loop at a new cursor.\<close>

datatype decode_step =
    step_return http1_chunk_decode_result http1_chunked_body_decoder
  | step_continue nat http1_chunked_body_decoder

definition step_fail :: "nat \<Rightarrow> http1_chunk_decode_error \<Rightarrow> http1_chunked_body_decoder \<Rightarrow> decode_step" where
  "step_fail consumed e d = (case chunk_fail consumed e d of (r, d') \<Rightarrow> step_return r d')"

definition decode_size_line :: "bytes \<Rightarrow> nat \<Rightarrow> http1_chunked_body_decoder \<Rightarrow> decode_step" where
  "decode_size_line available cursor d =
     (let line = substr available cursor max_http_header_bytes in
      case find_byte_from 0x0A line (size_line_search_offset d) of
        None \<Rightarrow>
          (if length line \<ge> max_http_header_bytes then step_fail cursor framing_limit_exceeded d
           else step_return (need_more cursor) (d\<lparr>size_line_search_offset := length line\<rparr>))
      | Some line_feed \<Rightarrow>
          if line_feed = 0 \<or> line ! (line_feed - 1) \<noteq> 0x0D then step_fail cursor invalid_framing d
          else
            let d = d\<lparr>size_line_search_offset := 0\<rparr>; line_end = line_feed - 1 in
            case parse_http_chunk_size_line (take line_end line) of
              None \<Rightarrow> step_fail cursor invalid_framing d
            | Some size_line \<Rightarrow>
                if max_http_header_bytes - framing_overhead_bytes d < overhead_bytes size_line
                then step_fail cursor framing_limit_exceeded d
                else
                  let d = d\<lparr>framing_overhead_bytes := framing_overhead_bytes d + overhead_bytes size_line\<rparr>;
                      cursor = cursor + (line_end + 2);
                      size = unat (chunk_size size_line)
                  in if size = 0
                     then step_continue cursor (d\<lparr>cd_state := in_progress at_trailers, trailer_search_offset := 0\<rparr>)
                     else if addition_exceeds (cd_body_limit d) (decoded_bytes d) size
                     then step_fail cursor body_limit_exceeded d
                     else step_continue cursor
                            (d\<lparr>decoded_bytes := decoded_bytes d + size, cd_remaining := size,
                               cd_state := in_progress at_body\<rparr>))"

definition decode_body :: "bytes \<Rightarrow> nat \<Rightarrow> nat \<Rightarrow> http1_chunked_body_decoder \<Rightarrow> decode_step" where
  "decode_body available max_body_bytes cursor d =
     (let n = min (cd_remaining d) (min (length available - cursor) max_body_bytes) in
      if n = 0 then step_return (need_more cursor) d
      else
        let body = substr available cursor n;
            d = d\<lparr>cd_remaining := cd_remaining d - n\<rparr>;
            cursor = cursor + n
        in if cd_remaining d = 0 then
             (let d = d\<lparr>cd_state := in_progress at_delimiter\<rparr> in
              if length available - cursor \<ge> 2
              then (case consume_delimiter available cursor d of
                      None \<Rightarrow> step_fail cursor invalid_framing d
                    | Some (cursor', d') \<Rightarrow> step_return (body_chunk cursor' body) d')
              else step_return (body_chunk cursor body) d)
           else step_return (body_chunk cursor body) d)"

definition decode_delimiter :: "bytes \<Rightarrow> nat \<Rightarrow> http1_chunked_body_decoder \<Rightarrow> decode_step" where
  "decode_delimiter available cursor d =
     (if length available - cursor < 2 then step_return (need_more cursor) d
      else case consume_delimiter available cursor d of
             None \<Rightarrow> step_fail cursor invalid_framing d
           | Some (cursor', d') \<Rightarrow> step_continue cursor' d')"

text \<open>The scan for the end of the trailer section: \<open>Inl\<close> is a bare LF, \<open>Inr None\<close> no end yet,
  \<open>Inr (Some e)\<close> the offset of the CRLF CRLF that ends it.\<close>

function find_trailer_end :: "bytes \<Rightarrow> nat \<Rightarrow> unit + nat option" where
  "find_trailer_end trailers from =
     (case find_byte_from 0x0A trailers from of
        None \<Rightarrow> Inr None
      | Some line_feed \<Rightarrow>
          if line_feed = 0 \<or> trailers ! (line_feed - 1) \<noteq> 0x0D then Inl ()
          else if line_feed \<ge> 3 \<and> trailers ! (line_feed - 2) = 0x0A then Inr (Some (line_feed - 3))
          else find_trailer_end trailers (line_feed + 1))"
  by pat_completeness auto

termination
  by (relation "measure (\<lambda>(trailers, from). length trailers - from)") (auto simp: find_byte_from_Some_iff)

declare find_trailer_end.simps [simp del]

definition decode_trailers :: "bytes \<Rightarrow> nat \<Rightarrow> http1_chunked_body_decoder \<Rightarrow> decode_step" where
  "decode_trailers available cursor d =
     (let trailers = substr available cursor max_http_header_bytes in
      if starts_with_crlf trailers
      then step_return (complete (cursor + 2) []) (d\<lparr>cd_state := in_progress at_complete\<rparr>)
      else case find_trailer_end trailers (trailer_search_offset d) of
             Inl _ \<Rightarrow> step_fail cursor invalid_framing d
           | Inr None \<Rightarrow>
               (if length trailers \<ge> max_http_header_bytes then step_fail cursor framing_limit_exceeded d
                else step_return (need_more cursor) (d\<lparr>trailer_search_offset := length trailers\<rparr>))
           | Inr (Some trailer_end) \<Rightarrow>
               (if \<not> trailers_valid d (take trailer_end trailers) then step_fail cursor invalid_framing d
                else step_return (complete (cursor + (trailer_end + 4)) (take trailer_end trailers))
                       (d\<lparr>cd_state := in_progress at_complete\<rparr>)))"

definition decode_step_at ::
  "bytes \<Rightarrow> nat \<Rightarrow> nat \<Rightarrow> chunk_progress \<Rightarrow> http1_chunked_body_decoder \<Rightarrow> decode_step" where
  "decode_step_at available max_body_bytes cursor p d =
     (case p of
        at_size_line \<Rightarrow> decode_size_line available cursor d
      | at_body \<Rightarrow> decode_body available max_body_bytes cursor d
      | at_delimiter \<Rightarrow> decode_delimiter available cursor d
      | at_trailers \<Rightarrow> decode_trailers available cursor d
      | at_complete \<Rightarrow> step_return (complete cursor []) d)"

lemma decode_step_at_continue:
  assumes "decode_step_at available max_body_bytes cursor p d = step_continue cursor' d'"
  shows "cursor < cursor'" "cursor' \<le> length available"
proof -
  have "cursor + 2 \<le> cursor' \<and> cursor' \<le> length available"
  proof (cases p)
    case at_size_line
    then obtain line_feed where lf:
        "find_byte_from 0x0A (substr available cursor max_http_header_bytes) (size_line_search_offset d) = Some line_feed"
      and c: "line_feed \<noteq> 0" "cursor' = cursor + (line_feed - 1 + 2)"
      using assms
      by (auto simp: decode_step_at_def decode_size_line_def Let_def step_fail_def chunk_fail_def
          split: option.splits if_splits)
    have "line_feed < length available - cursor" using lf by (auto simp: find_byte_from_Some_iff)
    with c show ?thesis by auto
  next
    case at_delimiter
    then show ?thesis
      using assms
      by (auto simp: decode_step_at_def decode_delimiter_def consume_delimiter_def step_fail_def chunk_fail_def
          split: option.splits if_splits)
  qed (use assms in \<open>auto simp: decode_step_at_def decode_body_def decode_trailers_def Let_def step_fail_def
          chunk_fail_def consume_delimiter_def split: option.splits if_splits sum.splits\<close>)
  then show "cursor < cursor'" "cursor' \<le> length available" by auto
qed

lemma decode_step_at_decreases:
  "decode_step_at available max_body_bytes cursor p d = step_continue cursor' d' \<Longrightarrow>
     length available - cursor' < length available - cursor"
  using decode_step_at_continue [of available max_body_bytes cursor p d cursor' d'] by simp

text \<open>The failed state is tested before the loop in the code; no case continues the loop in it,
  so the test at the head of every iteration is the same.\<close>

function decode_loop ::
  "bytes \<Rightarrow> nat \<Rightarrow> nat \<Rightarrow> http1_chunked_body_decoder
     \<Rightarrow> http1_chunk_decode_result \<times> http1_chunked_body_decoder" where
  "decode_loop available max_body_bytes cursor d =
     (case cd_state d of
        decode_failed e \<Rightarrow> (failure 0 e, d)
      | in_progress p \<Rightarrow>
          (case decode_step_at available max_body_bytes cursor p d of
             step_return r d' \<Rightarrow> (r, d')
           | step_continue cursor' d' \<Rightarrow> decode_loop available max_body_bytes cursor' d'))"
  by pat_completeness auto

termination
  by (relation "measure (\<lambda>(available, m, cursor, d). length available - cursor)")
    (auto intro: decode_step_at_decreases)

declare decode_loop.simps [simp del]

definition chunk_decode ::
  "bytes \<Rightarrow> nat \<Rightarrow> http1_chunked_body_decoder
     \<Rightarrow> (http1_chunk_decode_result \<times> http1_chunked_body_decoder) option" where
  "chunk_decode available max_body_bytes d =
     (if max_body_bytes = 0 then None else Some (decode_loop available max_body_bytes 0 d))"

subsection \<open>Every result is within the input\<close>

lemma decode_step_at_return:
  assumes "decode_step_at available max_body_bytes cursor p d = step_return r d'" "cursor \<le> length available"
  shows "cursor \<le> consumed_bytes r" "consumed_bytes r \<le> length available"
proof -
  have "cursor \<le> consumed_bytes r \<and> consumed_bytes r \<le> length available"
  proof (cases p)
    case at_size_line
    then show ?thesis
      using assms
      by (auto simp: decode_step_at_def decode_size_line_def Let_def step_fail_def chunk_fail_def
          find_byte_from_Some_iff split: option.splits if_splits)
  next
    case at_body
    then show ?thesis
      using assms
      by (auto simp: decode_step_at_def decode_body_def Let_def step_fail_def chunk_fail_def
          consume_delimiter_def split: option.splits if_splits)
  next
    case at_delimiter
    then show ?thesis
      using assms
      by (auto simp: decode_step_at_def decode_delimiter_def step_fail_def chunk_fail_def
          consume_delimiter_def split: option.splits if_splits)
  next
    case at_trailers
    let ?t = "substr available cursor max_http_header_bytes"
    have start: "starts_with_crlf ?t \<Longrightarrow> cursor + 2 \<le> length available"
      using assms(2) by (auto simp: starts_with_crlf_def dest!: arg_cong [where f = length])
    have stop: "cursor + (e + 4) \<le> length available"
      if "find_trailer_end ?t start = Inr (Some e)" for e start
    proof -
      have "e + 4 \<le> length ?t"
        using that
      proof (induction ?t start rule: find_trailer_end.induct)
        case (1 start)
        then show ?case
          by (subst (asm) find_trailer_end.simps) (auto simp: find_byte_from_Some_iff split: option.splits if_splits)
      qed
      then show ?thesis using assms(2) by auto
    qed
    show ?thesis
      using at_trailers assms start stop
      by (auto simp: decode_step_at_def decode_trailers_def Let_def step_fail_def chunk_fail_def
          split: option.splits if_splits sum.splits)
  next
    case at_complete
    then show ?thesis using assms by (auto simp: decode_step_at_def)
  qed
  then show "cursor \<le> consumed_bytes r" "consumed_bytes r \<le> length available" by auto
qed

lemma decode_loop_consumed:
  "cursor \<le> length available \<Longrightarrow> decode_loop available max_body_bytes cursor d = (r, d') \<Longrightarrow>
     consumed_bytes r \<le> length available"
proof (induction available max_body_bytes cursor d rule: decode_loop.induct)
  case (1 available max_body_bytes cursor d)
  show ?case
  proof (cases "cd_state d")
    case (decode_failed e)
    then show ?thesis using 1 by (auto simp: decode_loop.simps [of available max_body_bytes cursor d])
  next
    case (in_progress p)
    show ?thesis
    proof (cases "decode_step_at available max_body_bytes cursor p d")
      case (step_return r' d'')
      then show ?thesis
        using 1 in_progress decode_step_at_return [OF step_return]
        by (simp add: decode_loop.simps [of available max_body_bytes cursor d])
    next
      case (step_continue c d1)
      then show ?thesis
        using 1 in_progress decode_step_at_continue [OF step_continue]
        by (simp add: decode_loop.simps [of available max_body_bytes cursor d])
    qed
  qed
qed

subsection \<open>The body limit\<close>

text \<open>The invariant of the counters, and the number of body bytes delivered so far.\<close>

definition chunk_inv :: "http1_chunked_body_decoder \<Rightarrow> bool" where
  "chunk_inv d \<longleftrightarrow>
     decoded_bytes d \<le> read_ceiling (cd_body_limit d) \<and> read_ceiling (cd_body_limit d) \<le> size_max \<and>
     cd_remaining d \<le> decoded_bytes d \<and> framing_overhead_bytes d \<le> max_http_header_bytes \<and>
     (case cd_state d of
        in_progress p \<Rightarrow> (if p = at_body then 0 < cd_remaining d else cd_remaining d = 0)
      | decode_failed _ \<Rightarrow> True)"

definition delivered :: "http1_chunked_body_decoder \<Rightarrow> nat" where
  "delivered d = decoded_bytes d - cd_remaining d"

fun result_body :: "http1_chunk_decode_result \<Rightarrow> bytes" where
  "result_body (body_chunk _ b) = b"
| "result_body _ = []"

fun step_outcome :: "decode_step \<Rightarrow> bytes \<times> http1_chunked_body_decoder" where
  "step_outcome (step_return r d) = (result_body r, d)"
| "step_outcome (step_continue _ d) = ([], d)"

lemma decode_step_at_inv:
  assumes "chunk_inv d" "cd_state d = in_progress p"
    and "step_outcome (decode_step_at available max_body_bytes cursor p d) = (body, d')"
  shows "chunk_inv d' \<and> delivered d + length body \<le> delivered d' \<and> cd_body_limit d' = cd_body_limit d"
proof (cases p)
  case at_size_line
  have limit: "decoded_bytes d + n \<le> read_ceiling (cd_body_limit d)"
    if "\<not> addition_exceeds (cd_body_limit d) (decoded_bytes d) n" for n
    using that addition_exceeds_iff [of "decoded_bytes d" "cd_body_limit d" n] assms(1)
    by (simp add: chunk_inv_def)
  show ?thesis
    using assms at_size_line limit
    by (auto simp: decode_step_at_def decode_size_line_def Let_def step_fail_def chunk_fail_def
        chunk_inv_def delivered_def split: option.splits if_splits)
next
  case at_body
  show ?thesis
    using assms at_body
    by (auto simp: decode_step_at_def decode_body_def Let_def step_fail_def chunk_fail_def
        consume_delimiter_def chunk_inv_def delivered_def split: option.splits if_splits)
next
  case at_delimiter
  then show ?thesis
    using assms
    by (auto simp: decode_step_at_def decode_delimiter_def step_fail_def chunk_fail_def
        consume_delimiter_def chunk_inv_def delivered_def split: option.splits if_splits)
next
  case at_trailers
  then show ?thesis
    using assms
    by (auto simp: decode_step_at_def decode_trailers_def Let_def step_fail_def chunk_fail_def
        chunk_inv_def delivered_def split: option.splits if_splits sum.splits)
next
  case at_complete
  then show ?thesis using assms by (auto simp: decode_step_at_def)
qed

lemma decode_loop_inv:
  "chunk_inv d \<Longrightarrow> decode_loop available max_body_bytes cursor d = (r, d') \<Longrightarrow>
     chunk_inv d' \<and> delivered d + length (result_body r) \<le> delivered d' \<and> cd_body_limit d' = cd_body_limit d"
proof (induction available max_body_bytes cursor d rule: decode_loop.induct)
  case (1 available max_body_bytes cursor d)
  note step = decode_loop.simps [of available max_body_bytes cursor d]
  show ?case
  proof (cases "cd_state d")
    case (decode_failed e)
    then show ?thesis using 1(2,3) by (auto simp: step)
  next
    case (in_progress p)
    note inv = decode_step_at_inv [OF 1(2) in_progress, of available max_body_bytes cursor]
    show ?thesis
    proof (cases "decode_step_at available max_body_bytes cursor p d")
      case (step_return r' d'')
      then have "r = r'" "d' = d''" using 1(3) in_progress by (simp_all add: step)
      then show ?thesis using inv [of "result_body r'" d''] step_return by simp
    next
      case (step_continue c d1)
      then have d1: "chunk_inv d1" "delivered d \<le> delivered d1" "cd_body_limit d1 = cd_body_limit d"
        using inv [of "[]" d1] by auto
      have "decode_loop available max_body_bytes c d1 = (r, d')"
        using 1(3) in_progress step_continue by (simp add: step)
      from 1(1) [OF in_progress step_continue d1(1) this] d1 show ?thesis by simp
    qed
  qed
qed

text \<open>A sequence of calls with arbitrary inputs and quotas; the body bytes they report.\<close>

fun decode_calls :: "(bytes \<times> nat) list \<Rightarrow> http1_chunked_body_decoder \<Rightarrow> bytes \<times> http1_chunked_body_decoder" where
  "decode_calls [] d = ([], d)"
| "decode_calls ((available, quota) # calls) d =
     (case chunk_decode available quota d of
        None \<Rightarrow> decode_calls calls d
      | Some (r, d') \<Rightarrow> (case decode_calls calls d' of (body, d'') \<Rightarrow> (result_body r @ body, d'')))"

lemma decode_calls_inv:
  "chunk_inv d \<Longrightarrow> decode_calls calls d = (body, d') \<Longrightarrow>
     chunk_inv d' \<and> delivered d + length body \<le> delivered d' \<and> cd_body_limit d' = cd_body_limit d"
proof (induction calls d arbitrary: body d' rule: decode_calls.induct)
  case (1 d)
  then show ?case by simp
next
  case (2 available quota calls d)
  show ?case
  proof (cases "chunk_decode available quota d")
    case None
    then show ?thesis using 2 by simp
  next
    case (Some rd)
    obtain r d1 where rd: "rd = (r, d1)" by fastforce
    then have "decode_loop available quota 0 d = (r, d1)" using Some by (auto simp: chunk_decode_def split: if_splits)
    note first = decode_loop_inv [OF 2(3) this]
    obtain body' d2 where rest: "decode_calls calls d1 = (body', d2)" by fastforce
    then have "body = result_body r @ body'" "d' = d2" using 2(4) Some rd by auto
    with first 2(2) [OF Some rd [symmetric] _ rest] show ?thesis by auto
  qed
qed

text \<open>
  Property C23. Whatever a peer sends and however the input is split over calls, the body
  bytes a decoder delivers in total never exceed its configured limit: an oversized chunk is
  refused at its size line, and the sum of the sizes cannot wrap past the check.
\<close>

theorem chunked_body_limit:
  assumes "read_ceiling limit \<le> size_max"
  shows "length (fst (decode_calls calls (make_chunked_body_decoder limit obs_fold))) \<le> read_ceiling limit"
proof -
  let ?d = "make_chunked_body_decoder limit obs_fold"
  have inv: "chunk_inv ?d"
    using assms by (simp add: chunk_inv_def make_chunked_body_decoder_def)
  obtain body d' where run: "decode_calls calls ?d = (body, d')" by fastforce
  from decode_calls_inv [OF inv run]
  have "length body \<le> read_ceiling (cd_body_limit ?d)" by (auto simp: chunk_inv_def delivered_def)
  then show ?thesis unfolding run by (simp add: make_chunked_body_decoder_def)
qed

theorem chunked_body_limit_witness:
  "length (fst (decode_calls [(ascii ''3'' @ [0x0D, 0x0A] @ ascii ''abc'', 2)]
     (make_chunked_body_decoder (Some 2) obs_fold_reject))) \<le> 2"
  using chunked_body_limit [of "Some 2" "[(ascii ''3'' @ [0x0D, 0x0A] @ ascii ''abc'', 2)]" obs_fold_reject]
  by (simp add: read_ceiling_def)

subsection \<open>Splitting the input does not matter\<close>

fun shift_result :: "nat \<Rightarrow> http1_chunk_decode_result \<Rightarrow> http1_chunk_decode_result" where
  "shift_result k (need_more n) = need_more (k + n)"
| "shift_result k (body_chunk n b) = body_chunk (k + n) b"
| "shift_result k (complete n t) = complete (k + n) t"
| "shift_result k (failure n e) = failure (k + n) e"

fun shift_step :: "nat \<Rightarrow> decode_step \<Rightarrow> decode_step" where
  "shift_step k (step_return r d) = step_return (shift_result k r) d"
| "shift_step k (step_continue c d) = step_continue (k + c) d"

lemma substr_shift: "substr (pre @ x) (length pre + c) n = substr x c n"
  by (simp add: substr_def)

lemma step_fail_shift: "step_fail (k + c) e d = shift_step k (step_fail c e d)"
  by (simp add: step_fail_def chunk_fail_def)

lemma decode_step_shift:
  "decode_step_at (pre @ x) q (length pre + c) p d = shift_step (length pre) (decode_step_at x q c p d)"
proof (cases p)
  case at_size_line
  then show ?thesis
    by (auto simp: decode_step_at_def decode_size_line_def Let_def substr_shift step_fail_def chunk_fail_def
        split: option.splits)
next
  case at_body
  then show ?thesis
    by (auto simp: decode_step_at_def decode_body_def Let_def substr_shift step_fail_def chunk_fail_def
        consume_delimiter_def add.assoc split: option.splits)
next
  case at_delimiter
  then show ?thesis
    by (auto simp: decode_step_at_def decode_delimiter_def Let_def step_fail_def chunk_fail_def
        consume_delimiter_def split: option.splits)
next
  case at_trailers
  then show ?thesis
    by (auto simp: decode_step_at_def decode_trailers_def Let_def substr_shift step_fail_def chunk_fail_def
        split: option.splits sum.splits)
qed (simp add: decode_step_at_def)

lemma step_continue_state:
  assumes "decode_step_at available q c p d = step_continue c' d'"
  shows "\<exists>p'. cd_state d' = in_progress p'"
  using assms
  by (cases p)
    (auto simp: decode_step_at_def decode_size_line_def decode_body_def decode_delimiter_def
      decode_trailers_def Let_def step_fail_def chunk_fail_def consume_delimiter_def
      split: option.splits if_splits sum.splits)

lemma decode_loop_shift:
  "cd_state d = in_progress p \<Longrightarrow>
     decode_loop (pre @ x) q (length pre + c) d = apfst (shift_result (length pre)) (decode_loop x q c d)"
proof (induction x q c d arbitrary: p rule: decode_loop.induct)
  case (1 x q c d)
  note steps = decode_loop.simps [of "pre @ x" q "length pre + c" d] decode_loop.simps [of x q c d]
  show ?case
  proof (cases "decode_step_at x q c p d")
    case (step_return r d')
    then show ?thesis by (simp add: steps 1(2) decode_step_shift)
  next
    case (step_continue c' d')
    then obtain p' where "cd_state d' = in_progress p'" using step_continue_state by blast
    from 1(1) [OF 1(2) step_continue this] show ?thesis
      by (simp add: steps 1(2) decode_step_shift step_continue)
  qed
qed


lemma take_append_prefix: "\<exists>zs. take n (xs @ ys) = take n xs @ zs"
  by auto














subsection \<open>Failures are final\<close>

text \<open>
  A decoder that has reported an error reports the same error for every later
  call, consumes nothing of its input and delivers no further body.
\<close>

theorem chunked_failure_sticky:
  assumes "chunk_decode available q d = Some (failure n e, d')" "0 < q'"
  shows "chunk_decode available' q' d' = Some (failure 0 e, d')"
proof -
  have "cd_state d' = decode_failed e"
    if "decode_loop available q c d = (failure n e, d')" for c
    using that
  proof (induction available q c d rule: decode_loop.induct)
    case (1 available q c d)
    note step = decode_loop.simps [of available q c d]
    show ?case
    proof (cases "cd_state d")
      case (decode_failed e')
      then show ?thesis using 1(2) by (auto simp: step)
    next
      case (in_progress p)
      show ?thesis
      proof (cases "decode_step_at available q c p d")
        case (step_return r d1)
        then have "decode_step_at available q c p d = step_return (failure n e) d'"
          using 1(2) in_progress by (simp add: step)
        then show ?thesis
          by (cases p)
            (auto simp: decode_step_at_def decode_size_line_def decode_body_def decode_delimiter_def
              decode_trailers_def Let_def step_fail_def chunk_fail_def
              split: option.splits if_splits sum.splits)
      next
        case (step_continue c1 d1)
        then show ?thesis using 1 in_progress by (simp add: step)
      qed
    qed
  qed
  then have "cd_state d' = decode_failed e"
    using assms(1) by (auto simp: chunk_decode_def split: if_splits)
  then show ?thesis using assms(2) by (simp add: chunk_decode_def decode_loop.simps)
qed

theorem chunked_failure_sticky_witness:
  "\<exists>d'. chunk_decode [0x0A] 9 (make_chunked_body_decoder None obs_fold_reject) = Some (failure 0 invalid_framing, d')
     \<and> chunk_decode (ascii ''ok'') 1 d' = Some (failure 0 invalid_framing, d')"
proof -
  let ?d = "make_chunked_body_decoder None obs_fold_reject"
  have run: "chunk_decode [0x0A] 9 ?d = Some (failure 0 invalid_framing, ?d\<lparr>cd_state := decode_failed invalid_framing\<rparr>)"
    by (simp add: chunk_decode_def decode_loop.simps make_chunked_body_decoder_def decode_step_at_def
        decode_size_line_def substr_def max_http_header_bytes_def find_byte_from_def Let_def
        step_fail_def chunk_fail_def)
  from run chunked_failure_sticky [OF run, of 1 "ascii ''ok''"] show ?thesis by auto
qed

subsection \<open>Decoding inverts chunking\<close>

text \<open>A caller that reads a message to its end: it collects the body views and drops what was
  consumed. The result is the body, the trailer block and the bytes behind the message.\<close>

fun drain_body ::
  "nat \<Rightarrow> nat \<Rightarrow> bytes \<Rightarrow> http1_chunked_body_decoder \<Rightarrow> (bytes \<times> bytes \<times> bytes) option" where
  "drain_body 0 q input d = None"
| "drain_body (Suc fuel) q input d =
     (case chunk_decode input q d of
        Some (body_chunk n b, d') \<Rightarrow> map_option (apfst (\<lambda>bs. b @ bs)) (drain_body fuel q (drop n input) d')
      | Some (complete n t, d') \<Rightarrow> Some ([], t, drop n input)
      | _ \<Rightarrow> None)"

abbreviation crlf :: bytes where
  "crlf \<equiv> [0x0D, 0x0A]"

text \<open>A chunk is the text of its size line and its payload.\<close>

definition encode_chunk :: "bytes \<times> bytes \<Rightarrow> bytes" where
  "encode_chunk c = fst c @ crlf @ snd c @ crlf"

definition line_fits :: "bytes \<Rightarrow> nat \<Rightarrow> bool" where
  "line_fits line n \<longleftrightarrow>
     0x0A \<notin> set line \<and> length line + 2 \<le> max_http_header_bytes \<and>
     (\<exists>r. parse_http_chunk_size_line line = Some r \<and> unat (chunk_size r) = n)"

definition line_overhead :: "bytes \<Rightarrow> nat" where
  "line_overhead line = (case parse_http_chunk_size_line line of Some r \<Rightarrow> overhead_bytes r | None \<Rightarrow> 0)"

lemma drain_skip:
  assumes "decode_step_at (pre @ x) q 0 p d = step_continue (length pre) d1"
    and "cd_state d = in_progress p" "0 < q"
  shows "drain_body fuel q (pre @ x) d = drain_body fuel q x d1"
proof -
  obtain p1 where p1: "cd_state d1 = in_progress p1" using step_continue_state [OF assms(1)] by blast
  have "decode_loop (pre @ x) q 0 d = apfst (shift_result (length pre)) (decode_loop x q 0 d1)"
    using decode_loop_shift [OF p1, of pre x q 0] assms(1,2) by (simp add: decode_loop.simps [of "pre @ x" q 0 d])
  then have decode: "chunk_decode (pre @ x) q d = map_option (apfst (shift_result (length pre))) (chunk_decode x q d1)"
    using assms(3) by (simp add: chunk_decode_def)
  show ?thesis
  proof (cases fuel)
    case (Suc f)
    obtain r d' where loop: "chunk_decode x q d1 = Some (r, d')"
      using assms(3) by (cases "decode_loop x q 0 d1") (auto simp: chunk_decode_def)
    show ?thesis using decode by (cases r) (simp_all add: Suc loop)
  qed simp
qed

lemma decode_line_step:
  assumes "line_fits line n" "cd_state d = in_progress at_size_line" "size_line_search_offset d = 0"
    and "framing_overhead_bytes d + line_overhead line \<le> max_http_header_bytes"
    and "\<not> addition_exceeds (cd_body_limit d) (decoded_bytes d) n"
  shows "decode_step_at ((line @ crlf) @ x) q 0 at_size_line d = step_continue (length (line @ crlf))
    (if n = 0
     then d\<lparr>framing_overhead_bytes := framing_overhead_bytes d + line_overhead line,
            cd_state := in_progress at_trailers, trailer_search_offset := 0\<rparr>
     else d\<lparr>framing_overhead_bytes := framing_overhead_bytes d + line_overhead line,
            decoded_bytes := decoded_bytes d + n, cd_remaining := n, cd_state := in_progress at_body\<rparr>)"
proof -
  obtain r where r: "parse_http_chunk_size_line line = Some r" "unat (chunk_size r) = n"
    and lf: "0x0A \<notin> set line" and len: "length line + 2 \<le> max_http_header_bytes"
    using assms(1) by (auto simp: line_fits_def)
  define L where "L = substr ((line @ crlf) @ x) 0 max_http_header_bytes"
  obtain zs where L: "L = (line @ [0x0D]) @ 0x0A # zs"
    using len by (simp add: L_def substr_def take_Cons' numeral_2_eq_2)
  have lf': "0x0A \<notin> set (line @ [0x0D])" using lf by simp
  have find: "find_byte 0x0A L = Some (length line + 1)"
    unfolding L using find_byte_append_Cons [OF lf', of zs] by simp
  have cr: "L ! length line = 0x0D" "take (length line) L = line" by (simp_all add: L nth_append)
  have d: "d\<lparr>size_line_search_offset := 0\<rparr> = d" using assms(3) by (cases d) simp
  have budget: "\<not> max_http_header_bytes - framing_overhead_bytes d < overhead_bytes r"
    using assms(4) r by (simp add: line_overhead_def)
  show ?thesis
    using assms(5) r budget
    unfolding decode_step_at_def decode_size_line_def L_def [symmetric] Let_def
    by (simp add: assms(3) find cr d line_overhead_def)
qed

lemma prepend_twice:
  "map_option (apfst (\<lambda>bs. a @ bs)) (map_option (apfst (\<lambda>bs. b @ bs)) X)
     = map_option (apfst (\<lambda>bs. (a @ b) @ bs)) X"
  by (cases X) auto

lemma drain_payload:
  assumes "payload \<noteq> []" "cd_state d = in_progress at_body" "cd_remaining d = length payload" "0 < q"
    and "length (payload @ crlf @ rest) < fuel"
  shows "\<exists>fuel'. length rest < fuel' \<and>
    drain_body fuel q (payload @ crlf @ rest) d =
      map_option (apfst (\<lambda>bs. payload @ bs))
        (drain_body fuel' q rest (d\<lparr>cd_remaining := 0, cd_state := in_progress at_size_line\<rparr>))"
  using assms
proof (induction "length payload" arbitrary: payload d fuel rule: less_induct)
  case less
  obtain f where f: "fuel = Suc f" using less.prems(5) by (cases fuel) auto
  let ?n = "min (length payload) q"
  have n: "?n \<noteq> 0" using less.prems(1,4) by simp
  note loop = decode_loop.simps [of "payload @ crlf @ rest" q 0 d]
  show ?case
  proof (cases "length payload \<le> q")
    case True
    have d: "d\<lparr>cd_remaining := 0, cd_state := in_progress at_size_line\<rparr>
        = d\<lparr>cd_remaining := cd_remaining d - length payload, cd_state := in_progress at_size_line\<rparr>"
      using less.prems(3) by simp
    have "chunk_decode (payload @ crlf @ rest) q d
        = Some (body_chunk (length payload + 2) payload, d\<lparr>cd_remaining := 0, cd_state := in_progress at_size_line\<rparr>)"
      using less.prems(1-4) True
      unfolding chunk_decode_def loop
      by (simp add: decode_step_at_def decode_body_def Let_def min_def substr_def
          consume_delimiter_def starts_with_crlf_def)
    then have "drain_body fuel q (payload @ crlf @ rest) d =
      map_option (apfst (\<lambda>bs. payload @ bs))
        (drain_body f q rest (d\<lparr>cd_remaining := 0, cd_state := in_progress at_size_line\<rparr>))"
      by (simp add: f)
    moreover have "length rest < f" using less.prems(5) f by simp
    ultimately show ?thesis by blast
  next
    case False
    let ?d = "d\<lparr>cd_remaining := length payload - q\<rparr>" and ?p = "drop q payload"
    have "chunk_decode (payload @ crlf @ rest) q d = Some (body_chunk q (take q payload), ?d)"
      using less.prems(1-4) False
      unfolding chunk_decode_def loop
      by (simp add: decode_step_at_def decode_body_def Let_def min_def substr_def)
    then have run: "drain_body fuel q (payload @ crlf @ rest) d =
      map_option (apfst (\<lambda>bs. take q payload @ bs)) (drain_body f q (?p @ crlf @ rest) ?d)"
      using False by (simp add: f)
    have "\<exists>fuel'. length rest < fuel' \<and> drain_body f q (?p @ crlf @ rest) ?d =
      map_option (apfst (\<lambda>bs. ?p @ bs))
        (drain_body fuel' q rest (?d\<lparr>cd_remaining := 0, cd_state := in_progress at_size_line\<rparr>))"
      by (rule less.hyps) (use less.prems False f in auto)
    then obtain fuel' where fuel': "length rest < fuel'" and
      drained: "drain_body f q (?p @ crlf @ rest) ?d = map_option (apfst (\<lambda>bs. ?p @ bs))
        (drain_body fuel' q rest (?d\<lparr>cd_remaining := 0, cd_state := in_progress at_size_line\<rparr>))" by blast
    have d: "?d\<lparr>cd_remaining := 0, cd_state := in_progress at_size_line\<rparr>
        = d\<lparr>cd_remaining := 0, cd_state := in_progress at_size_line\<rparr>" by simp
    have "drain_body fuel q (payload @ crlf @ rest) d = map_option (apfst (\<lambda>bs. payload @ bs))
        (drain_body fuel' q rest (d\<lparr>cd_remaining := 0, cd_state := in_progress at_size_line\<rparr>))"
      unfolding run drained d prepend_twice append_take_drop_id ..
    with fuel' show ?thesis by blast
  qed
qed

text \<open>The message: chunks, the last chunk's size line, and an empty trailer section.\<close>

definition encode_chunked :: "(bytes \<times> bytes) list \<Rightarrow> bytes \<Rightarrow> bytes" where
  "encode_chunked chunks last_line = concat (map encode_chunk chunks) @ last_line @ crlf @ crlf"

lemma drain_chunks:
  assumes "\<forall>(line, payload) \<in> set chunks. payload \<noteq> [] \<and> line_fits line (length payload)" "line_fits last_line 0"
    and "chunk_inv d" "cd_state d = in_progress at_size_line" "size_line_search_offset d = 0"
    and "framing_overhead_bytes d + (\<Sum>(line, payload) \<leftarrow> chunks. line_overhead line) + line_overhead last_line
      \<le> max_http_header_bytes"
    and "decoded_bytes d + (\<Sum>(line, payload) \<leftarrow> chunks. length payload) \<le> read_ceiling (cd_body_limit d)"
    and "length (encode_chunked chunks last_line @ rest) < fuel" "0 < q"
  shows "drain_body fuel q (encode_chunked chunks last_line @ rest) d = Some (concat (map snd chunks), [], rest)"
  using assms
proof (induction chunks arbitrary: d fuel)
  case Nil
  obtain f where f: "fuel = Suc f" using Nil.prems(8) by (cases fuel) auto
  have "\<not> addition_exceeds (cd_body_limit d) (decoded_bytes d) 0"
    using addition_exceeds_iff [of "decoded_bytes d" "cd_body_limit d" 0] Nil.prems(3)
    by (simp add: chunk_inv_def)
  then have step: "decode_step_at ((last_line @ crlf) @ crlf @ rest) q 0 at_size_line d
      = step_continue (length (last_line @ crlf))
        (d\<lparr>framing_overhead_bytes := framing_overhead_bytes d + line_overhead last_line,
            cd_state := in_progress at_trailers, trailer_search_offset := 0\<rparr>)"
    using decode_line_step [OF Nil.prems(2,4,5)] Nil.prems(6) by simp
  have "encode_chunked [] last_line @ rest = (last_line @ crlf) @ crlf @ rest" by (simp add: encode_chunked_def)
  then show ?case
    using drain_skip [OF step Nil.prems(4,9), of fuel] Nil.prems(9)
    by (simp add: f chunk_decode_def decode_loop.simps decode_step_at_def decode_trailers_def
        starts_with_crlf_def substr_def max_http_header_bytes_def)
next
  case (Cons c chunks)
  obtain line payload where c: "c = (line, payload)" by fastforce
  have fits: "line_fits line (length payload)" and ne: "payload \<noteq> []" using Cons.prems(1) c by auto
  have add: "\<not> addition_exceeds (cd_body_limit d) (decoded_bytes d) (length payload)"
    using addition_exceeds_iff [of "decoded_bytes d" "cd_body_limit d" "length payload"] Cons.prems(3,7) c
    by (simp add: chunk_inv_def)
  have overhead: "framing_overhead_bytes d + line_overhead line \<le> max_http_header_bytes" using Cons.prems(6) c by simp
  let ?rest = "encode_chunked chunks last_line @ rest"
  have input: "encode_chunked (c # chunks) last_line @ rest = (line @ crlf) @ payload @ crlf @ ?rest"
    by (simp add: encode_chunked_def encode_chunk_def c)
  let ?d = "d\<lparr>framing_overhead_bytes := framing_overhead_bytes d + line_overhead line,
            decoded_bytes := decoded_bytes d + length payload, cd_remaining := length payload,
            cd_state := in_progress at_body\<rparr>"
  have step: "decode_step_at ((line @ crlf) @ payload @ crlf @ ?rest) q 0 at_size_line d
      = step_continue (length (line @ crlf)) ?d"
    using decode_line_step [OF fits Cons.prems(4,5) overhead add] ne by simp
  let ?d' = "?d\<lparr>cd_remaining := 0, cd_state := in_progress at_size_line\<rparr>"
  have "length (payload @ crlf @ ?rest) < fuel" using Cons.prems(8) input by simp
  then have "\<exists>fuel'. length ?rest < fuel' \<and> drain_body fuel q (payload @ crlf @ ?rest) ?d
      = map_option (apfst (\<lambda>bs. payload @ bs)) (drain_body fuel' q ?rest ?d')"
    by (intro drain_payload [OF ne _ _ Cons.prems(9)]) auto
  then obtain fuel' where fuel': "length ?rest < fuel'" and drained:
    "drain_body fuel q (payload @ crlf @ ?rest) ?d = map_option (apfst (\<lambda>bs. payload @ bs)) (drain_body fuel' q ?rest ?d')"
    by blast
  have "drain_body fuel' q ?rest ?d' = Some (concat (map snd chunks), [], rest)"
    by (rule Cons.IH) (use Cons.prems fuel' c add in \<open>auto simp: chunk_inv_def\<close>)
  then show ?case
    unfolding input drain_skip [OF step Cons.prems(4,9)] drained by (simp add: c)
qed

text \<open>
  Property C25. Decoding inverts chunking: a message made of any chunks whose size lines give
  their payload sizes (in any accepted spelling, within the framing budget and the body
  limit), ended by a zero-size line, is read back as the concatenation of the payloads, with
  exactly the bytes behind the message left over, for every quota the caller reads with.
\<close>

theorem chunked_roundtrip:
  assumes "\<forall>(line, payload) \<in> set chunks. payload \<noteq> [] \<and> line_fits line (length payload)"
    and "line_fits last_line 0" "0 < q" "read_ceiling limit \<le> size_max"
    and "(\<Sum>(line, payload) \<leftarrow> chunks. line_overhead line) + line_overhead last_line \<le> max_http_header_bytes"
    and "(\<Sum>(line, payload) \<leftarrow> chunks. length payload) \<le> read_ceiling limit"
  shows "drain_body (Suc (length (encode_chunked chunks last_line @ rest))) q
      (encode_chunked chunks last_line @ rest) (make_chunked_body_decoder limit obs_fold)
    = Some (concat (map snd chunks), [], rest)"
  by (rule drain_chunks [OF assms(1,2)])
    (use assms(3-6) in \<open>auto simp: make_chunked_body_decoder_def chunk_inv_def\<close>)

theorem chunked_roundtrip_witness:
  "drain_body 15 1 (ascii ''02'' @ crlf @ ascii ''hi'' @ crlf @ ascii ''0'' @ crlf @ crlf @ ascii ''x'')
     (make_chunked_body_decoder (Some 5) obs_fold_reject) = Some (ascii ''hi'', [], ascii ''x'')"
proof -
  have two: "parse_http_chunk_size_line (ascii ''02'') = Some \<lparr>chunk_size = 2, overhead_bytes = 1\<rparr>"
    and zero: "parse_http_chunk_size_line (ascii ''0'') = Some \<lparr>chunk_size = 0, overhead_bytes = 0\<rparr>"
    by (simp_all add: parse_http_chunk_size_line_def http_decode_hex_nibble_def word_le_nat_alt
        word_less_nat_alt is_valid_http_chunk_extension_def max_before_shift_nat)
  let ?chunks = "[(ascii ''02'', ascii ''hi'')]"
  have chunks: "\<forall>(line, payload) \<in> set ?chunks. payload \<noteq> [] \<and> line_fits line (length payload)"
    using two by (simp add: line_fits_def max_http_header_bytes_def)
  have last: "line_fits (ascii ''0'') 0" using zero by (simp add: line_fits_def max_http_header_bytes_def)
  have overhead: "(\<Sum>(line, payload) \<leftarrow> ?chunks. line_overhead line) + line_overhead (ascii ''0'') \<le> max_http_header_bytes"
    using two zero by (simp add: line_overhead_def max_http_header_bytes_def)
  have size: "(\<Sum>(line, payload) \<leftarrow> ?chunks. length payload) \<le> read_ceiling (Some 5)"
    by (simp add: read_ceiling_def)
  have ceiling: "read_ceiling (Some 5) \<le> size_max" by (simp add: read_ceiling_def)
  have input: "encode_chunked ?chunks (ascii ''0'') @ ascii ''x''
      = ascii ''02'' @ crlf @ ascii ''hi'' @ crlf @ ascii ''0'' @ crlf @ crlf @ ascii ''x''"
    by (simp add: encode_chunked_def encode_chunk_def)
  have len: "Suc (length (ascii ''02'' @ crlf @ ascii ''hi'' @ crlf @ ascii ''0'' @ crlf @ crlf @ ascii ''x'')) = 15"
    by simp
  from chunked_roundtrip [OF chunks last zero_less_one ceiling overhead size, of "ascii ''x''" obs_fold_reject]
  show ?thesis unfolding input len by simp
qed

end
