(* ===== verification/Byte_Stream.thy ===== *)
theory Byte_Stream
  imports Prelude
begin

text \<open>
  The contract of a byte stream that is written at one end and read at the other: what a put
  appends, a take removes from the front. It is shared by the transport input buffer
  (\<open>http_io_buffer\<close>) and by the queued output of a WebSocket connection; what its
  clients rely on is proved once here.
\<close>

datatype 'x stream_op = Put 'x | Take nat

text \<open>A run: the bytes put by the accepted puts, the bytes taken, the final state. A take
  of more bytes than the stream holds is refused.\<close>

fun stream_run ::
  "('s \<Rightarrow> bytes) \<Rightarrow> ('x \<Rightarrow> 's \<Rightarrow> 's option) \<Rightarrow> ('x \<Rightarrow> 's \<Rightarrow> bytes) \<Rightarrow> (nat \<Rightarrow> 's \<Rightarrow> 's) \<Rightarrow>
     'x stream_op list \<Rightarrow> 's \<Rightarrow> bytes \<times> bytes \<times> 's"
where
  "stream_run contents put wire drain [] s = ([], [], s)"
| "stream_run contents put wire drain (Put x # ops) s =
     (case put x s of
        None \<Rightarrow> stream_run contents put wire drain ops s
      | Some s' \<Rightarrow> (case stream_run contents put wire drain ops s' of (ins, outs, r) \<Rightarrow> (wire x s @ ins, outs, r)))"
| "stream_run contents put wire drain (Take n # ops) s =
     (if n \<le> length (contents s) then
        (case stream_run contents put wire drain ops (drain n s) of
           (ins, outs, r) \<Rightarrow> (ins, take n (contents s) @ outs, r))
      else stream_run contents put wire drain ops s)"

locale byte_stream =
  fixes inv :: "'s \<Rightarrow> bool"
    and contents :: "'s \<Rightarrow> bytes"
    and put :: "'x \<Rightarrow> 's \<Rightarrow> 's option"
    and wire :: "'x \<Rightarrow> 's \<Rightarrow> bytes"
    and drain :: "nat \<Rightarrow> 's \<Rightarrow> 's"
  assumes put_Some: "inv s \<Longrightarrow> put x s = Some s' \<Longrightarrow> inv s' \<and> contents s' = contents s @ wire x s"
    and drain_law: "inv s \<Longrightarrow> n \<le> length (contents s) \<Longrightarrow>
      inv (drain n s) \<and> contents (drain n s) = drop n (contents s)"
begin

lemma run_conserves:
  "inv s \<Longrightarrow> stream_run contents put wire drain ops s = (ins, outs, r) \<Longrightarrow>
     inv r \<and> contents s @ ins = outs @ contents r"
proof (induction ops arbitrary: s ins outs r)
  case Nil
  then show ?case by simp
next
  case (Cons op ops)
  show ?case
  proof (cases op)
    case (Put x)
    show ?thesis
    proof (cases "put x s")
      case None
      then show ?thesis using Cons Put by simp
    next
      case (Some s')
      obtain ins' outs' r' where run: "stream_run contents put wire drain ops s' = (ins', outs', r')"
        by (metis prod_cases3)
      show ?thesis
        using Cons.IH [OF _ run] put_Some [OF Cons.prems(1) Some] Cons.prems(2) Put Some run by auto
    qed
  next
    case (Take n)
    obtain ins' outs' r' where run: "stream_run contents put wire drain ops (drain n s) = (ins', outs', r')"
      by (metis prod_cases3)
    show ?thesis
    proof (cases "n \<le> length (contents s)")
      case True
      note law = drain_law [OF Cons.prems(1) True]
      have "inv r' \<and> drop n (contents s) @ ins' = outs' @ contents r'"
        using Cons.IH [OF _ run] law by simp
      moreover from this have "contents s @ ins' = (take n (contents s) @ outs') @ contents r'"
        by (metis append_assoc append_take_drop_id)
      ultimately show ?thesis using Cons.prems(2) Take True run by simp
    next
      case False
      then show ?thesis using Cons Take by simp
    qed
  qed
qed

text \<open>What is taken from an empty stream is a prefix of what was put into it.\<close>

lemma run_prefix:
  assumes "inv s" "contents s = []" "stream_run contents put wire drain ops s = (ins, outs, r)"
  shows "outs = take (length outs) ins"
  using run_conserves [OF assms(1,3)] assms(2) by simp

end

end
