(* ===== verification/Io_Buffer.thy ===== *)
theory Io_Buffer
  imports Byte_Stream
begin

text \<open>
  The transport input buffer \<open>http_io_buffer\<close> (\<open>http_io_buffer.h\<close>,
  \<open>http_io_buffer.cpp\<close>): a storage block with a readable window. A storage byte that
  was never written is \<open>None\<close>, so that "uninitialized bytes are never part of the readable
  window" is a property of the model; an appended view is either foreign bytes or a range of the
  buffer's own storage, so that the aliasing rule of \<open>append\<close> is one too. \<open>None\<close>
  as a result is \<open>std::length_error\<close>.
\<close>

definition max_io_buffer_bytes :: nat where
  "max_io_buffer_bytes = 9223372036854775807"

text \<open>\<open>capacity_\<close> is the length of \<open>storage_\<close>; no storage is the empty list.\<close>

record http_io_buffer =
  buf_storage :: "byte option list"
  buf_begin :: nat
  buf_end :: nat

definition empty_io_buffer :: http_io_buffer where
  "empty_io_buffer = \<lparr>buf_storage = [], buf_begin = 0, buf_end = 0\<rparr>"

definition buf_capacity :: "http_io_buffer \<Rightarrow> nat" where
  "buf_capacity b = length (buf_storage b)"

definition buf_size :: "http_io_buffer \<Rightarrow> nat" where
  "buf_size b = buf_end b - buf_begin b"

text \<open>The readable window, and the view of its bytes.\<close>

definition buf_window :: "http_io_buffer \<Rightarrow> byte option list" where
  "buf_window b = take (buf_size b) (drop (buf_begin b) (buf_storage b))"

definition buf_view :: "http_io_buffer \<Rightarrow> bytes" where
  "buf_view b = map the (buf_window b)"

text \<open>\<open>memcpy\<close> and \<open>memmove\<close> of a block read before it is written.\<close>

definition blit :: "'a list \<Rightarrow> nat \<Rightarrow> 'a list \<Rightarrow> 'a list" where
  "blit dst pos src = take pos dst @ src @ drop (pos + length src) dst"

datatype byte_source = External bytes | Own nat nat

definition source_bytes :: "http_io_buffer \<Rightarrow> byte_source \<Rightarrow> byte option list" where
  "source_bytes b src =
     (case src of External xs \<Rightarrow> map Some xs | Own offset n \<Rightarrow> take n (drop offset (buf_storage b)))"

definition source_size :: "byte_source \<Rightarrow> nat" where
  "source_size src = (case src of External xs \<Rightarrow> length xs | Own offset n \<Rightarrow> n)"

text \<open>\<open>http_text_overlaps(bytes, storage)\<close>: foreign views are disjoint from the storage.\<close>

definition overlaps_storage :: "byte_source \<Rightarrow> bool" where
  "overlaps_storage src \<longleftrightarrow> (case src of External xs \<Rightarrow> False | Own offset n \<Rightarrow> n \<noteq> 0)"

subsection \<open>Operations\<close>

definition buf_release :: "http_io_buffer \<Rightarrow> http_io_buffer" where
  "buf_release b = b\<lparr>buf_storage := [], buf_begin := 0, buf_end := 0\<rparr>"

definition buf_reallocate :: "nat \<Rightarrow> byte_source \<Rightarrow> http_io_buffer \<Rightarrow> http_io_buffer" where
  "buf_reallocate capacity tail b =
     (let live = buf_size b;
          fresh = replicate capacity None;
          with_live = (if live \<noteq> 0 then blit fresh 0 (buf_window b) else fresh);
          with_tail = (if source_size tail \<noteq> 0 then blit with_live live (source_bytes b tail) else with_live)
      in (buf_release b)\<lparr>buf_storage := with_tail, buf_begin := 0, buf_end := live + source_size tail\<rparr>)"

definition move_window_to_front :: "http_io_buffer \<Rightarrow> http_io_buffer" where
  "move_window_to_front b =
     (if buf_begin b = 0 then b
      else b\<lparr>buf_storage := blit (buf_storage b) 0 (buf_window b), buf_begin := 0, buf_end := buf_size b\<rparr>)"

definition room_capacity :: "nat \<Rightarrow> http_io_buffer \<Rightarrow> nat option" where
  "room_capacity n b =
     (if n > max_io_buffer_bytes - buf_size b then None
      else if buf_capacity b - buf_size b \<ge> n \<and> buf_begin b \<ge> buf_size b then Some (buf_capacity b)
      else Some (max (buf_size b + n)
                     (if buf_capacity b > max_io_buffer_bytes div 2 then max_io_buffer_bytes
                      else buf_capacity b * 2)))"

definition make_room :: "nat \<Rightarrow> http_io_buffer \<Rightarrow> http_io_buffer option" where
  "make_room n b =
     (case room_capacity n b of
        None \<Rightarrow> None
      | Some capacity \<Rightarrow>
          Some (if capacity > buf_capacity b then buf_reallocate capacity (External []) b
                else move_window_to_front b))"

text \<open>The prepared span is the storage from \<open>end_\<close> on.\<close>

definition buf_prepare :: "nat \<Rightarrow> http_io_buffer \<Rightarrow> http_io_buffer option" where
  "buf_prepare n b = (if buf_capacity b - buf_end b < n then make_room n b else Some b)"

definition buf_prepare_spare :: "http_io_buffer \<Rightarrow> http_io_buffer" where
  "buf_prepare_spare b = move_window_to_front b"

text \<open>What the caller writes into a prepared span.\<close>

definition fill_span :: "bytes \<Rightarrow> http_io_buffer \<Rightarrow> http_io_buffer" where
  "fill_span xs b = b\<lparr>buf_storage := blit (buf_storage b) (buf_end b) (map Some xs)\<rparr>"

definition buf_commit :: "nat \<Rightarrow> http_io_buffer \<Rightarrow> http_io_buffer option" where
  "buf_commit n b =
     (if n > buf_capacity b - buf_end b then None else Some (b\<lparr>buf_end := buf_end b + n\<rparr>))"

text \<open>Copying the source behind the window, then publishing it.\<close>

definition copy_behind :: "byte_source \<Rightarrow> http_io_buffer \<Rightarrow> http_io_buffer" where
  "copy_behind src b =
     b\<lparr>buf_storage := blit (buf_storage b) (buf_end b) (source_bytes b src),
       buf_end := buf_end b + source_size src\<rparr>"

definition buf_append :: "byte_source \<Rightarrow> http_io_buffer \<Rightarrow> http_io_buffer option" where
  "buf_append src b =
     (if source_size src = 0 then Some b
      else if buf_capacity b - buf_end b \<ge> source_size src then Some (copy_behind src b)
      else if \<not> overlaps_storage src
      then (case make_room (source_size src) b of None \<Rightarrow> None | Some b' \<Rightarrow> Some (copy_behind src b'))
      else (case room_capacity (source_size src) b of
              None \<Rightarrow> None
            | Some capacity \<Rightarrow> Some (buf_reallocate capacity src b)))"

definition buf_clear :: "http_io_buffer \<Rightarrow> http_io_buffer" where
  "buf_clear b = b\<lparr>buf_begin := 0, buf_end := 0\<rparr>"

definition buf_consume :: "nat \<Rightarrow> http_io_buffer \<Rightarrow> http_io_buffer" where
  "buf_consume n b =
     (let b' = b\<lparr>buf_begin := buf_begin b + min n (buf_size b)\<rparr> in
      if buf_begin b' = buf_end b' then buf_clear b' else b')"

definition buf_reserve :: "nat \<Rightarrow> http_io_buffer \<Rightarrow> http_io_buffer option" where
  "buf_reserve n b =
     (if n > max_io_buffer_bytes then None
      else if n > buf_capacity b then Some (buf_reallocate n (External []) b)
      else Some b)"

definition buf_shrink_to :: "nat \<Rightarrow> http_io_buffer \<Rightarrow> http_io_buffer" where
  "buf_shrink_to n b =
     (let target = max (buf_size b) n in
      if buf_capacity b > target then buf_reallocate target (External []) b else b)"

definition clear_retaining_small :: "nat \<Rightarrow> http_io_buffer \<Rightarrow> http_io_buffer" where
  "clear_retaining_small retained b =
     (let b' = buf_clear b in if buf_capacity b' > retained then buf_release b' else b')"

text \<open>The move constructor: the new buffer and what it leaves behind.\<close>

definition buf_move :: "http_io_buffer \<Rightarrow> http_io_buffer \<times> http_io_buffer" where
  "buf_move other = (\<lparr>buf_storage = buf_storage other, buf_begin = buf_begin other, buf_end = buf_end other\<rparr>,
                     buf_release other)"

subsection \<open>The readable window\<close>

definition buf_ok :: "http_io_buffer \<Rightarrow> bool" where
  "buf_ok b \<longleftrightarrow>
     buf_begin b \<le> buf_end b \<and> buf_end b \<le> buf_capacity b \<and> buf_capacity b \<le> max_io_buffer_bytes \<and>
     None \<notin> set (buf_window b)"

text \<open>A view the caller may append: foreign bytes, or written bytes of the storage.\<close>

definition source_ok :: "http_io_buffer \<Rightarrow> byte_source \<Rightarrow> bool" where
  "source_ok b src \<longleftrightarrow>
     (case src of External xs \<Rightarrow> True
      | Own offset n \<Rightarrow> offset + n \<le> buf_capacity b \<and> None \<notin> set (source_bytes b src))"

definition source_view :: "http_io_buffer \<Rightarrow> byte_source \<Rightarrow> bytes" where
  "source_view b src = map the (source_bytes b src)"

lemma length_blit [simp]: "pos + length src \<le> length dst \<Longrightarrow> length (blit dst pos src) = length dst"
  by (simp add: blit_def)

lemma blit_empty [simp]: "blit dst pos [] = dst"
  by (simp add: blit_def)

lemma blit_slice: "pos \<le> length dst \<Longrightarrow> take (length src) (drop pos (blit dst pos src)) = src"
  by (simp add: blit_def)

lemma blit_before: "n \<le> pos \<Longrightarrow> pos \<le> length dst \<Longrightarrow> take n (blit dst pos src) = take n dst"
  by (simp add: blit_def min_def)

lemma blit_extends:
  assumes "a \<le> pos" "pos + length src \<le> length dst"
  shows "take (pos - a + length src) (drop a (blit dst pos src)) = take (pos - a) (drop a dst) @ src"
  using assms by (simp add: blit_def take_drop [symmetric] drop_take)

lemma length_source_bytes: "source_ok b src \<Longrightarrow> length (source_bytes b src) = source_size src"
  by (auto simp: source_ok_def source_bytes_def source_size_def buf_capacity_def split: byte_source.splits)

lemma source_defined: "source_ok b src \<Longrightarrow> None \<notin> set (source_bytes b src)"
  by (auto simp: source_ok_def source_bytes_def split: byte_source.splits)

lemma source_ok_External [simp]: "source_ok b (External xs)"
  by (simp add: source_ok_def)

lemma source_External [simp]:
  "source_bytes b (External xs) = map Some xs" "source_size (External xs) = length xs" "source_view b (External xs) = xs"
  by (simp_all add: source_bytes_def source_size_def source_view_def comp_def)

lemma length_window: "buf_ok b \<Longrightarrow> length (buf_window b) = buf_size b"
  by (auto simp: buf_ok_def buf_window_def buf_size_def buf_capacity_def)

lemma length_view: "buf_ok b \<Longrightarrow> length (buf_view b) = buf_size b"
  by (simp add: buf_view_def length_window)

lemma view_append: "buf_window b' = buf_window b @ xs \<Longrightarrow> buf_view b' = buf_view b @ map the xs"
  by (simp add: buf_view_def)

lemma size_le_capacity: "buf_ok b \<Longrightarrow> buf_size b \<le> buf_capacity b"
  by (auto simp: buf_ok_def buf_size_def)

text \<open>Appending behind the window, whatever moved before: the shape all writers share.\<close>

lemma reallocate_window:
  assumes "buf_ok b" "source_ok b tail" "buf_size b + source_size tail \<le> capacity" "capacity \<le> max_io_buffer_bytes"
  shows "buf_window (buf_reallocate capacity tail b) = buf_window b @ source_bytes b tail"
    "buf_ok (buf_reallocate capacity tail b)" "buf_capacity (buf_reallocate capacity tail b) = capacity"
    "buf_begin (buf_reallocate capacity tail b) = 0"
    "buf_end (buf_reallocate capacity tail b) = buf_size b + source_size tail"
proof -
  let ?fresh = "replicate capacity None :: byte option list"
  let ?w = "buf_window b" and ?t = "source_bytes b tail"
  have lw: "length ?w = buf_size b" and lt: "length ?t = source_size tail"
    using length_window [OF assms(1)] length_source_bytes [OF assms(2)] by auto
  have live: "(if buf_size b \<noteq> 0 then blit ?fresh 0 ?w else ?fresh) = blit ?fresh 0 ?w"
    using lw by (cases "buf_size b = 0") auto
  have tail_eq: "(if source_size tail \<noteq> 0 then blit s (buf_size b) ?t else s) = blit s (buf_size b) ?t" for s
    using lt by (cases "source_size tail = 0") auto
  have st: "buf_storage (buf_reallocate capacity tail b) = blit (blit ?fresh 0 ?w) (buf_size b) ?t"
    unfolding buf_reallocate_def Let_def live tail_eq by simp
  show b0: "buf_begin (buf_reallocate capacity tail b) = 0"
    and e: "buf_end (buf_reallocate capacity tail b) = buf_size b + source_size tail"
    by (simp_all add: buf_reallocate_def Let_def)
  show cap: "buf_capacity (buf_reallocate capacity tail b) = capacity"
    unfolding buf_capacity_def st using lw lt assms(3) by simp
  have front: "take (buf_size b) (blit ?fresh 0 ?w) = ?w"
    using blit_slice [of 0 ?fresh ?w] lw by simp
  have "take (buf_size b - 0 + length ?t) (drop 0 (blit (blit ?fresh 0 ?w) (buf_size b) ?t))
      = take (buf_size b - 0) (drop 0 (blit ?fresh 0 ?w)) @ ?t"
    by (rule blit_extends) (use lw lt assms(3) in simp_all)
  then show w: "buf_window (buf_reallocate capacity tail b) = ?w @ ?t"
    unfolding buf_window_def [of "buf_reallocate capacity tail b"] buf_size_def [of "buf_reallocate capacity tail b"] b0 e st
    using front lt by simp
  show "buf_ok (buf_reallocate capacity tail b)"
    unfolding buf_ok_def b0 e cap w
    using assms source_defined [OF assms(2)] by (auto simp: buf_ok_def)
qed

lemma move_window:
  assumes "buf_ok b"
  shows "buf_window (move_window_to_front b) = buf_window b" "buf_ok (move_window_to_front b)"
    "buf_capacity (move_window_to_front b) = buf_capacity b" "buf_begin (move_window_to_front b) = 0"
    "buf_end (move_window_to_front b) = buf_size b"
proof -
  let ?w = "buf_window b"
  have lw: "length ?w = buf_size b" by (rule length_window [OF assms])
  have le: "buf_size b \<le> buf_capacity b" by (rule size_le_capacity [OF assms])
  show cap: "buf_capacity (move_window_to_front b) = buf_capacity b"
    using lw le by (auto simp: move_window_to_front_def buf_capacity_def)
  show b0: "buf_begin (move_window_to_front b) = 0" by (simp add: move_window_to_front_def)
  show e: "buf_end (move_window_to_front b) = buf_size b" by (simp add: move_window_to_front_def buf_size_def)
  show w: "buf_window (move_window_to_front b) = ?w"
  proof (cases "buf_begin b = 0")
    case True
    then show ?thesis by (simp add: move_window_to_front_def)
  next
    case False
    have "take (buf_size b) (blit (buf_storage b) 0 ?w) = ?w"
      using blit_slice [of 0 "buf_storage b" ?w] lw by simp
    then show ?thesis
      using False by (simp add: move_window_to_front_def buf_window_def buf_size_def)
  qed
  show "buf_ok (move_window_to_front b)"
    using assms le unfolding buf_ok_def cap b0 e w by simp
qed

lemma room_capacity_Some:
  assumes "buf_ok b" "room_capacity n b = Some c"
  shows "buf_size b + n \<le> c" "c \<le> max_io_buffer_bytes" "buf_capacity b \<le> c"
  using assms size_le_capacity [OF assms(1)]
  by (auto simp: room_capacity_def buf_ok_def max_def split: if_splits)

lemma make_room_Some:
  assumes "buf_ok b" "make_room n b = Some b'"
  shows "buf_window b' = buf_window b" "buf_ok b'" "buf_end b' + n \<le> buf_capacity b'"
    "buf_begin b' = 0" "buf_end b' = buf_size b"
proof -
  obtain c where c: "room_capacity n b = Some c"
    and b': "b' = (if c > buf_capacity b then buf_reallocate c (External []) b else move_window_to_front b)"
    using assms(2) by (auto simp: make_room_def split: option.splits)
  note r = room_capacity_Some [OF assms(1) c]
  have fits: "buf_size b + source_size (External []) \<le> c" using r by simp
  note re = reallocate_window [OF assms(1) source_ok_External fits r(2)]
  note mv = move_window [OF assms(1)]
  show "buf_window b' = buf_window b" "buf_ok b'" "buf_end b' + n \<le> buf_capacity b'"
    "buf_begin b' = 0" "buf_end b' = buf_size b"
    unfolding b' using re mv r by (auto split: if_splits)
qed

lemma copy_behind_ok:
  assumes "buf_ok b" "source_ok b src" "buf_end b + source_size src \<le> buf_capacity b"
  shows "buf_window (copy_behind src b) = buf_window b @ source_bytes b src" "buf_ok (copy_behind src b)"
proof -
  have lt: "length (source_bytes b src) = source_size src" by (rule length_source_bytes [OF assms(2)])
  have e: "buf_begin b \<le> buf_end b" using assms(1) by (simp add: buf_ok_def)
  show w: "buf_window (copy_behind src b) = buf_window b @ source_bytes b src"
    using blit_extends [OF e, of "source_bytes b src" "buf_storage b"] lt assms(3) e
    by (simp add: buf_window_def buf_size_def copy_behind_def buf_capacity_def add.commute)
  have "buf_capacity (copy_behind src b) = buf_capacity b"
    using lt assms(3) by (simp add: copy_behind_def buf_capacity_def)
  then show "buf_ok (copy_behind src b)"
    unfolding buf_ok_def w using assms e source_defined [OF assms(2)]
    by (auto simp: buf_ok_def copy_behind_def)
qed

lemma append_window:
  assumes "buf_ok b" "source_ok b src" "buf_append src b = Some b'"
  shows "buf_window b' = buf_window b @ source_bytes b src" "buf_ok b'"
proof -
  have "buf_window b' = buf_window b @ source_bytes b src \<and> buf_ok b'"
  proof (cases "source_size src = 0")
    case True
    then show ?thesis using assms length_source_bytes [OF assms(2)] by (simp add: buf_append_def)
  next
    case some: False
    show ?thesis
    proof (cases "source_size src \<le> buf_capacity b - buf_end b")
      case True
      then have "buf_end b + source_size src \<le> buf_capacity b"
        using assms(1) unfolding buf_ok_def by linarith
      then show ?thesis using copy_behind_ok [OF assms(1,2)] assms(3) some True by (simp add: buf_append_def)
    next
      case full: False
      show ?thesis
      proof (cases src)
        case (External xs)
        then obtain m where m: "make_room (source_size src) b = Some m" "b' = copy_behind src m"
          using assms(3) some full by (simp add: buf_append_def overlaps_storage_def split: option.splits)
        note room = make_room_Some [OF assms(1) m(1)]
        show ?thesis using copy_behind_ok [OF room(2), of src] room m(2) External by simp
      next
        case (Own offset n)
        then obtain c where c: "room_capacity (source_size src) b = Some c" "b' = buf_reallocate c src b"
          using assms(3) some full by (simp add: buf_append_def overlaps_storage_def source_size_def split: option.splits)
        note r = room_capacity_Some [OF assms(1) c(1)]
        show ?thesis using reallocate_window(1,2) [OF assms(1,2) r(1,2)] c(2) by simp
      qed
    qed
  qed
  then show "buf_window b' = buf_window b @ source_bytes b src" "buf_ok b'" by simp_all
qed

lemma consume_window:
  assumes "buf_ok b"
  shows "buf_window (buf_consume n b) = drop n (buf_window b)" "buf_ok (buf_consume n b)"
proof -
  have le: "buf_begin b \<le> buf_end b" "buf_end b \<le> buf_capacity b" using assms by (simp_all add: buf_ok_def)
  show w: "buf_window (buf_consume n b) = drop n (buf_window b)"
    using le by (auto simp: buf_consume_def buf_clear_def buf_window_def buf_size_def Let_def min_def drop_take
        add.commute)
  have "buf_begin (buf_consume n b) \<le> buf_end (buf_consume n b)" "buf_end (buf_consume n b) \<le> buf_capacity (buf_consume n b)"
    "buf_capacity (buf_consume n b) = buf_capacity b"
    using le by (auto simp: buf_consume_def buf_clear_def Let_def buf_size_def buf_capacity_def)
  then show "buf_ok (buf_consume n b)"
    unfolding buf_ok_def w using assms by (auto simp: buf_ok_def dest: in_set_dropD)
qed

lemma clear_ok: "buf_ok b \<Longrightarrow> buf_ok (buf_clear b) \<and> buf_view (buf_clear b) = []"
  by (simp add: buf_ok_def buf_clear_def buf_view_def buf_window_def buf_size_def buf_capacity_def)

lemma empty_ok: "buf_ok empty_io_buffer"
  by (simp add: buf_ok_def empty_io_buffer_def buf_window_def buf_size_def buf_capacity_def)

lemma view_empty: "buf_view empty_io_buffer = []"
  by (simp add: buf_view_def buf_window_def buf_size_def empty_io_buffer_def)

lemma window_view: "buf_ok b \<Longrightarrow> buf_window b = map Some (buf_view b)"
proof -
  assume ok: "buf_ok b"
  have "Some (the x) = x" if "x \<in> set (buf_window b)" for x
    using ok that by (cases x) (auto simp: buf_ok_def)
  then show ?thesis by (simp add: buf_view_def comp_def map_idI)
qed

text \<open>The buffer provides the byte-stream contract; its clients append their own views too.\<close>

definition buf_put :: "byte_source \<Rightarrow> http_io_buffer \<Rightarrow> http_io_buffer option" where
  "buf_put src b = (if source_ok b src then buf_append src b else None)"

definition source_wire :: "byte_source \<Rightarrow> http_io_buffer \<Rightarrow> bytes" where
  "source_wire src b = source_view b src"

interpretation iob: byte_stream buf_ok buf_view buf_put source_wire buf_consume
proof
  fix b src b'
  assume "buf_ok b" "buf_put src b = Some b'"
  then show "buf_ok b' \<and> buf_view b' = buf_view b @ source_wire src b"
    using append_window [of b src b']
    by (auto simp: buf_put_def source_wire_def source_view_def buf_view_def split: if_splits)
next
  fix b n
  assume "buf_ok b" "n \<le> length (buf_view b)"
  then show "buf_ok (buf_consume n b) \<and> buf_view (buf_consume n b) = drop n (buf_view b)"
    using consume_window [of b n] by (simp add: buf_view_def drop_map)
qed

text \<open>A read cycle: prepare a span, let the transport write part of it, commit what it wrote.\<close>

definition read_cycle :: "nat \<Rightarrow> bytes \<Rightarrow> http_io_buffer \<Rightarrow> http_io_buffer option" where
  "read_cycle n xs b =
     (case buf_prepare n b of None \<Rightarrow> None | Some b' \<Rightarrow> buf_commit (length xs) (fill_span xs b'))"

lemma fill_commit:
  assumes "buf_ok b" "buf_end b + length xs \<le> buf_capacity b"
  shows "buf_commit (length xs) (fill_span xs b) = Some (copy_behind (External xs) b)"
  using assms by (simp add: buf_commit_def fill_span_def copy_behind_def buf_capacity_def)

lemma prepare_ok:
  assumes "buf_ok b" "buf_prepare n b = Some b'"
  shows "buf_window b' = buf_window b \<and> buf_ok b' \<and> buf_end b' + n \<le> buf_capacity b'"
  using assms make_room_Some [OF assms(1), of n b']
  by (auto simp: buf_prepare_def buf_ok_def split: if_splits)

subsection \<open>The cost of moving bytes\<close>

text \<open>
  The live bytes an append of \<open>n\<close> foreign bytes copies to make room, and a run of appends
  and consumes with the total of appended and of moved bytes.
\<close>

definition moved_bytes :: "nat \<Rightarrow> http_io_buffer \<Rightarrow> nat" where
  "moved_bytes n b =
     (if n = 0 \<or> buf_capacity b - buf_end b \<ge> n then 0
      else (case room_capacity n b of
              None \<Rightarrow> 0
            | Some capacity \<Rightarrow>
                if capacity > buf_capacity b \<or> buf_begin b \<noteq> 0 then buf_size b else 0))"

fun io_run :: "bytes stream_op list \<Rightarrow> http_io_buffer \<Rightarrow> nat \<times> nat \<times> http_io_buffer" where
  "io_run [] b = (0, 0, b)"
| "io_run (Put xs # ops) b =
     (case buf_append (External xs) b of
        None \<Rightarrow> io_run ops b
      | Some b' \<Rightarrow> (case io_run ops b' of
           (appended, moved, r) \<Rightarrow> (length xs + appended, moved_bytes (length xs) b + moved, r)))"
| "io_run (Take n # ops) b = io_run ops (buf_consume n b)"

text \<open>The potential: what compaction may recover, and how full the storage is beyond half.\<close>

definition room_potential :: "http_io_buffer \<Rightarrow> nat" where
  "room_potential b = buf_begin b + (2 * buf_end b - buf_capacity b)"

definition io_account :: "http_io_buffer \<Rightarrow> nat \<Rightarrow> nat \<Rightarrow> nat \<Rightarrow> bool" where
  "io_account b appended consumed moved \<longleftrightarrow>
     buf_ok b \<and> consumed + buf_size b = appended \<and> buf_begin b \<le> consumed \<and> buf_capacity b \<le> 2 * appended \<and>
     moved + room_potential b \<le> 3 * appended + consumed"

lemma io_account_append:
  assumes acc: "io_account b a c m" and app: "buf_append (External xs) b = Some b'"
    and small: "a + length xs \<le> max_io_buffer_bytes div 4"
  shows "io_account b' (a + length xs) c (m + moved_bytes (length xs) b)"
proof -
  let ?n = "length xs"
  have ok: "buf_ok b" and A: "c + buf_size b = a" "buf_begin b \<le> c" "buf_capacity b \<le> 2 * a"
      "m + room_potential b \<le> 3 * a + c"
    using acc by (auto simp: io_account_def)
  have le: "buf_begin b \<le> buf_end b" "buf_end b \<le> buf_capacity b" using ok by (auto simp: buf_ok_def)
  have b'ok: "buf_ok b'" and w: "buf_window b' = buf_window b @ map Some xs"
    using append_window [OF ok _ app] by simp_all
  have size': "buf_size b' = buf_size b + ?n"
    using arg_cong [OF w, of length] length_window [OF ok] length_window [OF b'ok] by simp
  have end': "buf_end b' = buf_begin b' + buf_size b'"
    using b'ok by (auto simp: buf_ok_def buf_size_def)
  have bsize: "buf_size b = buf_end b - buf_begin b" by (simp add: buf_size_def)
  have goal: ?thesis
    if "buf_begin b' \<le> buf_begin b" "buf_capacity b' \<le> 2 * (a + ?n)"
      "moved_bytes ?n b + room_potential b' \<le> room_potential b + 3 * ?n"
    using that A size' b'ok by (simp add: io_account_def)
  show ?thesis
  proof (cases "?n = 0 \<or> buf_capacity b - buf_end b \<ge> ?n")
    case True
    then have "b' = (if ?n = 0 then b else copy_behind (External xs) b)"
      using app by (auto simp: buf_append_def)
    then have "buf_begin b' = buf_begin b" "buf_capacity b' = buf_capacity b" "buf_end b' = buf_end b + ?n"
      using True le by (auto simp: copy_behind_def buf_capacity_def)
    moreover have "moved_bytes ?n b = 0" using True by (simp add: moved_bytes_def)
    ultimately show ?thesis using goal A by (simp add: room_potential_def)
  next
    case False
    then obtain r where r: "make_room ?n b = Some r" "b' = copy_behind (External xs) r"
      using app by (auto simp: buf_append_def overlaps_storage_def split: option.splits)
    obtain k where k: "room_capacity ?n b = Some k"
      and rk: "r = (if k > buf_capacity b then buf_reallocate k (External []) b else move_window_to_front b)"
      using r(1) by (auto simp: make_room_def split: option.splits)
    note mr = make_room_Some [OF ok r(1)]
    have b0: "buf_begin b' = 0" and e': "buf_end b' = buf_size b + ?n"
      using mr by (simp_all add: r(2) copy_behind_def)
    have capr: "buf_capacity b' = buf_capacity r"
      using mr by (simp add: r(2) copy_behind_def buf_capacity_def)
    have tight: "buf_capacity b < buf_end b + ?n" using False le by linarith
    have cap_small: "\<not> buf_capacity b > max_io_buffer_bytes div 2"
      using tight small A le bsize by linarith
    show ?thesis
    proof (cases "buf_capacity b < k")
      case True
      then have k_eq: "k = max (buf_size b + ?n) (buf_capacity b * 2)"
        using k cap_small by (auto simp: room_capacity_def split: if_splits)
      have capk: "buf_capacity b' = k"
        unfolding capr rk using True reallocate_window(3) [OF ok source_ok_External, of "[]" k]
          room_capacity_Some [OF ok k] by simp
      have "moved_bytes ?n b = buf_size b" using False True k by (simp add: moved_bytes_def)
      moreover have "buf_size b + room_potential b' \<le> room_potential b + 3 * ?n \<and> k \<le> 2 * (a + ?n)"
      proof (cases "buf_capacity b * 2 \<le> buf_size b + ?n")
        case True
        then have "k = buf_size b + ?n" using k_eq by simp
        moreover have "buf_size b \<le> ?n" "buf_size b \<le> a" using True le bsize A(1) by linarith+
        ultimately show ?thesis
          unfolding room_potential_def b0 e' capk by simp
      next
        case False
        then have "k = buf_capacity b * 2" using k_eq by simp
        moreover have "buf_size b \<le> buf_end b" "buf_end b \<le> a" "buf_size b \<le> buf_capacity b"
          using A(1,2) le bsize by linarith+
        moreover from calculation tight have "buf_size b \<le> (2 * buf_end b - buf_capacity b) + ?n" by arith
        ultimately have "2 * (buf_size b + ?n) - k \<le> 2 * ?n" "k \<le> 2 * (a + ?n)"
          "buf_size b \<le> (2 * buf_end b - buf_capacity b) + ?n"
          using tight by (simp_all add: algebra_simps)
        then show ?thesis
          unfolding room_potential_def b0 e' capk by linarith
      qed
      ultimately show ?thesis using goal b0 capk by simp
    next
      case compact: False
      then have k_eq: "k = buf_capacity b" using room_capacity_Some(3) [OF ok k] by simp
      have recover: "buf_size b \<le> buf_begin b"
      proof (rule ccontr)
        assume "\<not> ?thesis"
        then have "k = max (buf_size b + ?n) (buf_capacity b * 2)"
          using k cap_small by (auto simp: room_capacity_def split: if_splits)
        then show False using False k_eq by (simp add: max_def split: if_splits)
      qed
      have capk: "buf_capacity b' = buf_capacity b"
        unfolding capr rk using compact move_window(3) [OF ok] by simp
      have "moved_bytes ?n b \<le> buf_size b" using k by (simp add: moved_bytes_def)
      moreover have "2 * (buf_size b + ?n) - buf_capacity b \<le> (2 * buf_end b - buf_capacity b) + 2 * ?n"
        using bsize by arith
      ultimately have "moved_bytes ?n b + room_potential b' \<le> room_potential b + 3 * ?n"
        using recover unfolding room_potential_def b0 e' capk by linarith
      moreover have "buf_capacity b' \<le> 2 * (a + ?n)" using A(3) capk by simp
      ultimately show ?thesis using goal b0 by simp
    qed
  qed
qed

lemma io_account_consume:
  assumes "io_account b a c m"
  shows "io_account (buf_consume n b) a (c + min n (buf_size b)) m"
proof -
  have ok: "buf_ok b" using assms by (simp add: io_account_def)
  have "buf_size (buf_consume n b) = buf_size b - min n (buf_size b)"
    "buf_begin (buf_consume n b) \<le> buf_begin b + min n (buf_size b)"
    "buf_end (buf_consume n b) \<le> buf_end b" "buf_capacity (buf_consume n b) = buf_capacity b"
    using ok by (auto simp: buf_consume_def buf_clear_def buf_size_def Let_def buf_capacity_def buf_ok_def)
  then show ?thesis
    using assms consume_window(2) [OF ok, of n] unfolding io_account_def room_potential_def by linarith
qed

lemma io_run_account:
  "io_account b a c m \<Longrightarrow> io_run ops b = (appended, moved, r) \<Longrightarrow>
     a + appended \<le> max_io_buffer_bytes div 4 \<Longrightarrow> \<exists>c'. io_account r (a + appended) c' (m + moved)"
proof (induction ops arbitrary: b a c m appended moved)
  case Nil
  then show ?case by auto
next
  case (Cons op ops)
  show ?case
  proof (cases op)
    case (Put xs)
    show ?thesis
    proof (cases "buf_append (External xs) b")
      case None
      then show ?thesis using Cons Put by simp
    next
      case (Some b')
      obtain a' m' where run: "io_run ops b' = (a', m', r)"
        and eq: "appended = length xs + a'" "moved = moved_bytes (length xs) b + m'"
        using Cons.prems(2) Put Some by (auto split: prod.splits)
      have step: "io_account b' (a + length xs) c (m + moved_bytes (length xs) b)"
        by (rule io_account_append [OF Cons.prems(1) Some]) (use Cons.prems(3) eq in simp)
      show ?thesis
        using Cons.IH [OF step run] Cons.prems(3) by (simp add: eq add.assoc)
    qed
  next
    case (Take n)
    then show ?thesis
      using Cons.IH [OF io_account_consume [OF Cons.prems(1)]] Cons.prems by simp
  qed
qed

subsection \<open>Properties\<close>

text \<open>
  Property C27. Appending a view, which may be a range of the buffer's own storage, is refused
  exactly when the readable bytes and the view exceed the addressable range; otherwise the
  readable window becomes the old one followed by the bytes the view had before the call,
  whether the call filled spare storage, compacted or reallocated, and the window never covers
  an unwritten byte.
\<close>

theorem io_buffer_append_exact:
  assumes "buf_ok b" "source_ok b src"
  shows "if buf_size b + source_size src \<le> max_io_buffer_bytes
    then \<exists>b'. buf_append src b = Some b' \<and> buf_ok b' \<and> buf_view b' = buf_view b @ source_view b src
    else buf_append src b = None"
proof -
  have bounds: "buf_begin b \<le> buf_end b" "buf_end b \<le> buf_capacity b" "buf_capacity b \<le> max_io_buffer_bytes"
    and size: "buf_size b = buf_end b - buf_begin b"
    using assms(1) by (auto simp: buf_ok_def buf_size_def)
  have room: "room_capacity n b = None \<longleftrightarrow> max_io_buffer_bytes < buf_size b + n" for n
    using bounds size by (auto simp: room_capacity_def)
  have none: "buf_append src b = None \<longleftrightarrow> max_io_buffer_bytes < buf_size b + source_size src"
  proof (cases "source_size src = 0 \<or> source_size src \<le> buf_capacity b - buf_end b")
    case True
    then have "\<not> max_io_buffer_bytes < buf_size b + source_size src" using bounds size by linarith
    then show ?thesis using True by (auto simp: buf_append_def)
  next
    case False
    then show ?thesis
      using room [of "source_size src"] by (auto simp: buf_append_def make_room_def split: option.splits)
  qed
  show ?thesis
  proof (cases "buf_append src b")
    case None
    then show ?thesis using none by simp
  next
    case (Some b')
    have "buf_view b' = buf_view b @ source_view b src"
      using append_window(1) [OF assms Some] by (simp add: buf_view_def source_view_def)
    then show ?thesis using none Some append_window(2) [OF assms Some] by simp
  qed
qed

lemma io_buffer_append_exact_witness:
  "let b = \<lparr>buf_storage = [None, Some 7, Some 8], buf_begin = 1, buf_end = 3\<rparr> in
   \<exists>b'. buf_append (Own 1 2) b = Some b' \<and> buf_view b' = [7, 8, 7, 8]"
  using io_buffer_append_exact [of "\<lparr>buf_storage = [None, Some 7, Some 8], buf_begin = 1, buf_end = 3\<rparr>" "Own 1 2"]
  by (auto simp: buf_ok_def buf_capacity_def buf_window_def buf_size_def max_io_buffer_bytes_def source_ok_def
      source_bytes_def source_size_def buf_view_def source_view_def Let_def numeral_2_eq_2)

text \<open>
  Whatever sequence of appends, of foreign views or of its own bytes, and of
  consumes a fresh buffer goes through, the bytes consumed followed by those still readable are
  the bytes appended, in order.
\<close>

theorem io_buffer_stream:
  "stream_run buf_view buf_put source_wire buf_consume ops empty_io_buffer = (ins, outs, b) \<Longrightarrow>
     buf_ok b \<and> ins = outs @ buf_view b"
  using iob.run_conserves [OF empty_ok] view_empty by simp

lemma io_buffer_stream_witness:
  "\<exists>b. buf_ok b \<and> [1, 2, 2, 3] = [1] @ buf_view b"
proof -
  have "\<exists>b. stream_run buf_view buf_put source_wire buf_consume
      [Put (External [1, 2]), Take 1, Put (Own 1 1), Put (External [3])] empty_io_buffer = ([1, 2, 2, 3], [1], b)"
    by (simp add: buf_put_def buf_append_def empty_io_buffer_def buf_capacity_def overlaps_storage_def
        make_room_def room_capacity_def buf_size_def max_io_buffer_bytes_def buf_reallocate_def buf_release_def
        copy_behind_def blit_def source_wire_def source_view_def buf_view_def buf_window_def buf_consume_def
        source_ok_def source_bytes_def source_size_def Let_def move_window_to_front_def)
  then show ?thesis using io_buffer_stream by blast
qed

text \<open>
  A transport read through \<open>prepare\<close> and \<open>commit\<close> publishes
  exactly the bytes the transport wrote: committing no more than was written into the prepared
  span extends the readable window by those bytes and by no uninitialized one.
\<close>

theorem io_buffer_read_cycle:
  assumes "buf_ok b" "length xs \<le> n" "buf_size b + n \<le> max_io_buffer_bytes"
  shows "\<exists>b'. read_cycle n xs b = Some b' \<and> buf_ok b' \<and> buf_view b' = buf_view b @ xs"
proof -
  obtain p where p: "buf_prepare n b = Some p"
  proof (cases "buf_capacity b - buf_end b < n")
    case True
    have "make_room n b \<noteq> None"
      using assms(3) by (auto simp: make_room_def room_capacity_def)
    then show ?thesis using that True by (auto simp: buf_prepare_def)
  qed (auto simp: buf_prepare_def intro: that)
  note ok = prepare_ok [OF assms(1) p]
  have fits: "buf_end p + length xs \<le> buf_capacity p" using ok assms(2) by linarith
  have "read_cycle n xs b = Some (copy_behind (External xs) p)"
    using fill_commit [OF _ fits] ok p by (simp add: read_cycle_def)
  then show ?thesis
    using copy_behind_ok [of p "External xs"] ok fits by (simp add: buf_view_def comp_def)
qed

lemma io_buffer_read_cycle_witness:
  "\<exists>b'. read_cycle 4 [1, 2] empty_io_buffer = Some b' \<and> buf_ok b' \<and> buf_view b' = [1, 2]"
  using io_buffer_read_cycle [OF empty_ok, of "[1, 2]" 4] view_empty
  by (simp add: buf_size_def empty_io_buffer_def max_io_buffer_bytes_def)

text \<open>
  Making room is amortized linear: over any sequence of appends and consumes that
  starts from an empty buffer, the live bytes that compaction and growth ever move are at most
  four times the bytes appended, and the storage is at most twice the bytes appended.
\<close>

theorem io_buffer_amortized:
  assumes "io_run ops empty_io_buffer = (appended, moved, b)" "appended \<le> max_io_buffer_bytes div 4"
  shows "moved \<le> 4 * appended \<and> buf_capacity b \<le> 2 * appended"
proof -
  have "io_account empty_io_buffer 0 0 0"
    using empty_ok by (simp add: io_account_def room_potential_def empty_io_buffer_def buf_size_def buf_capacity_def)
  from io_run_account [OF this assms(1)] assms(2) obtain c where "io_account b appended c moved" by auto
  then show ?thesis by (auto simp: io_account_def)
qed

lemma io_buffer_amortized_witness:
  "(1 :: nat) \<le> 4 * 3 \<and> (\<exists>b. io_run [Put [1, 2], Take 1, Put [3]] empty_io_buffer = (3, 1, b) \<and> buf_capacity b \<le> 6)"
proof -
  have run: "\<exists>b. io_run [Put [1, 2], Take 1, Put [3]] empty_io_buffer = (3, 1, b)"
    by (simp add: buf_append_def empty_io_buffer_def buf_capacity_def overlaps_storage_def
        make_room_def room_capacity_def buf_size_def max_io_buffer_bytes_def buf_reallocate_def buf_release_def
        copy_behind_def blit_def buf_view_def buf_window_def buf_consume_def moved_bytes_def
        source_bytes_def source_size_def Let_def move_window_to_front_def)
  then show ?thesis using io_buffer_amortized by (fastforce simp: max_io_buffer_bytes_def)
qed

end
