(* ===== verification/Masking.thy ===== *)
theory Masking
  imports Io_Buffer
begin

text \<open>
  The payload masking of RFC 6455 section 5.3, \<open>decode_masked_websocket_payload\<close> of
  \<open>http_websocket_frame_codec.h\<close>: the loops over 16-byte and 8-byte words and the bytewise
  tail. Loads and stores through \<open>memcpy\<close> are little-endian word conversions (the
  supported targets are; the result does not depend on it). The lemmas show that the word loops
  compute the bytewise exclusive or with the repeated key.
\<close>

subsection \<open>Words in memory\<close>

fun load_word :: "bytes \<Rightarrow> 'a::len word" where
  "load_word [] = 0"
| "load_word (b # bs) = ucast b OR push_bit 8 (load_word bs)"

fun store_word :: "nat \<Rightarrow> 'a::len word \<Rightarrow> bytes" where
  "store_word 0 w = []"
| "store_word (Suc n) w = ucast w # store_word n (drop_bit 8 w)"

lemma bit_load_word:
  "bit (load_word bs :: 'a::len word) m \<longleftrightarrow>
     m < LENGTH('a) \<and> m div 8 < length bs \<and> bit (bs ! (m div 8)) (m mod 8)"
proof (induction bs arbitrary: m)
  case Nil
  then show ?case by simp
next
  case (Cons b bs)
  show ?case
  proof (cases "m < 8")
    case True
    then show ?thesis by (auto simp: bit_simps)
  next
    case False
    then have m: "m div 8 = Suc ((m - 8) div 8)" "m mod 8 = (m - 8) mod 8"
      by (simp_all add: le_div_geq le_mod_geq)
    have "\<not> bit b m" using False bit_imp_le_length [of b m] by auto
    then show ?thesis using False Cons.IH [of "m - 8"] by (auto simp: bit_simps m)
  qed
qed

lemma length_store_word [simp]: "length (store_word n w) = n"
  by (induction n arbitrary: w) auto

lemma nth_store_word: "i < n \<Longrightarrow> store_word n w ! i = ucast (drop_bit (8 * i) w)"
  by (induction n arbitrary: w i) (auto simp: nth_Cons drop_bit_drop_bit ac_simps split: nat.splits)

text \<open>One step of a word loop: load, exclusive or with a key word, store.\<close>

lemma store_xor_load:
  fixes key :: "'a::len word"
  assumes n: "length blk = n" "8 * n \<le> LENGTH('a)"
    and key: "\<And>i j. i < n \<Longrightarrow> j < 8 \<Longrightarrow> bit key (8 * i + j) = bit (k i) j"
  shows "store_word n (load_word blk XOR key) = map (\<lambda>i. blk ! i XOR k i) [0..<n]"
proof (rule nth_equalityI)
  fix i assume "i < length (store_word n (load_word blk XOR key))"
  then have i: "i < n" by simp
  have inside: "8 * i + j < LENGTH('a)" if "j < 8" for j using i n that by linarith
  have dm: "(8 * i + j) div 8 = i" "(8 * i + j) mod 8 = j" if "j < 8" for j using that by auto
  show "store_word n (load_word blk XOR key) ! i = map (\<lambda>i. blk ! i XOR k i) [0..<n] ! i"
  proof (rule bit_eqI)
    fix j
    show "bit (store_word n (load_word blk XOR key) ! i) j = bit (map (\<lambda>i. blk ! i XOR k i) [0..<n] ! i) j"
      using i inside [of j] key [of i j] dm [of j] n(1)
      by (cases "j < 8") (auto simp: nth_store_word bit_simps bit_load_word dest: bit_imp_le_length)
  qed
qed simp

subsection \<open>The masking loops\<close>

text \<open>
  A loop that replaces whole blocks of \<open>width\<close> bytes from \<open>i\<close> on. A store has the size of
  its load; the guard on the length of the block makes that, and so termination, explicit.
\<close>

function xor_blocks :: "nat \<Rightarrow> (bytes \<Rightarrow> bytes) \<Rightarrow> bytes \<Rightarrow> nat \<Rightarrow> bytes \<times> nat" where
  "xor_blocks width f payload i =
     (if 0 < width \<and> i \<le> length payload \<and> length payload - i \<ge> width \<and> length (f (take width (drop i payload))) = width
      then xor_blocks width f (blit payload i (f (take width (drop i payload)))) (i + width)
      else (payload, i))"
  by pat_completeness auto

termination
  by (relation "measure (\<lambda>(width, f, payload, i). length payload - i)") (auto simp: blit_def)

declare xor_blocks.simps [simp del]

function mask_tail :: "bytes \<Rightarrow> bytes \<Rightarrow> nat \<Rightarrow> bytes" where
  "mask_tail mkey payload i =
     (if i < length payload
      then mask_tail mkey (payload[i := payload ! i XOR mkey ! (i mod 4)]) (i + 1)
      else payload)"
  by pat_completeness auto

termination by (relation "measure (\<lambda>(mkey, payload, i). length payload - i)") auto

declare mask_tail.simps [simp del]

definition decode_masked_websocket_payload :: "bytes \<Rightarrow> bytes \<Rightarrow> bytes" where
  "decode_masked_websocket_payload payload mkey =
     (let key = load_word (take 4 mkey @ take 4 mkey) :: 64 word;
          wide_key = (ucast key OR push_bit 64 (ucast key)) :: 128 word;
          (payload1, i1) = xor_blocks 16 (\<lambda>block. store_word 16 (load_word block XOR wide_key)) payload 0;
          (payload2, i2) = xor_blocks 8 (\<lambda>word. store_word 8 (load_word word XOR key)) payload1 i1
      in mask_tail mkey payload2 i2)"

text \<open>The specification: every byte is masked with the key byte of its position.\<close>

definition mask_bytes :: "bytes \<Rightarrow> bytes \<Rightarrow> bytes" where
  "mask_bytes mkey payload = map (\<lambda>i. payload ! i XOR mkey ! (i mod 4)) [0..<length payload]"

lemma length_mask_bytes [simp]: "length (mask_bytes mkey payload) = length payload"
  by (simp add: mask_bytes_def)

lemma nth_mask_bytes [simp]: "i < length payload \<Longrightarrow> mask_bytes mkey payload ! i = payload ! i XOR mkey ! (i mod 4)"
  by (simp add: mask_bytes_def)

lemma mask_bytes_involution: "mask_bytes mkey (mask_bytes mkey payload) = payload"
  by (rule nth_equalityI) (simp_all add: ac_simps)

text \<open>The loop state: the first \<open>i\<close> bytes are masked, the others are not yet.\<close>

definition masked_upto :: "bytes \<Rightarrow> bytes \<Rightarrow> nat \<Rightarrow> bytes" where
  "masked_upto mkey payload i = take i (mask_bytes mkey payload) @ drop i payload"

lemma length_masked_upto [simp]: "length (masked_upto mkey payload i) = length payload"
  by (simp add: masked_upto_def min_def)

lemma nth_masked_upto:
  "j < length payload \<Longrightarrow>
     masked_upto mkey payload i ! j = (if j < i then payload ! j XOR mkey ! (j mod 4) else payload ! j)"
  by (auto simp: masked_upto_def nth_append min_def)

lemma masked_upto_0 [simp]: "masked_upto mkey payload 0 = payload"
  by (simp add: masked_upto_def)

lemma masked_upto_all [simp]: "masked_upto mkey payload (length payload) = mask_bytes mkey payload"
  by (simp add: masked_upto_def)

lemma nth_blit:
  "pos + length src \<le> length dst \<Longrightarrow> j < length dst \<Longrightarrow>
     blit dst pos src ! j = (if pos \<le> j \<and> j < pos + length src then src ! (j - pos) else dst ! j)"
  by (auto simp: blit_def nth_append min_def)

lemma xor_blocks_masked:
  assumes f: "\<And>block. length block = width \<Longrightarrow> f block = map (\<lambda>i. block ! i XOR mkey ! (i mod 4)) [0..<width]"
    and width: "0 < width" "4 dvd width"
  shows "4 dvd i \<Longrightarrow> i \<le> length payload \<Longrightarrow>
    \<exists>i'. xor_blocks width f (masked_upto mkey payload i) i = (masked_upto mkey payload i', i') \<and>
      4 dvd i' \<and> i' \<le> length payload"
proof (induction "length payload - i" arbitrary: i rule: less_induct)
  case less
  let ?p = "masked_upto mkey payload i"
  let ?b = "take width (drop i ?p)"
  show ?case
  proof (cases "length payload - i \<ge> width")
    case False
    then have "xor_blocks width f ?p i = (?p, i)" by (subst xor_blocks.simps) simp
    then show ?thesis using less.prems by auto
  next
    case True
    have lb: "length ?b = width" using True by simp
    have block: "f ?b = map (\<lambda>j. ?b ! j XOR mkey ! (j mod 4)) [0..<width]" by (rule f [OF lb])
    have same: "(i + j) mod 4 = j mod 4" for j using less.prems(1) by (auto elim!: dvdE)
    have "blit ?p i (f ?b) = masked_upto mkey payload (i + width)"
    proof (rule nth_equalityI)
      show "length (blit ?p i (f ?b)) = length (masked_upto mkey payload (i + width))"
        using True less.prems by (simp add: block)
    next
      fix j assume "j < length (blit ?p i (f ?b))"
      then have j: "j < length payload" using True less.prems by (simp add: block)
      have fits: "i + length (f ?b) \<le> length ?p" using True less.prems by (simp add: block)
      show "blit ?p i (f ?b) ! j = masked_upto mkey payload (i + width) ! j"
      proof (cases "i \<le> j \<and> j < i + width")
        case True
        then obtain d where d: "j = i + d" "d < width" by (auto dest: le_Suc_ex)
        have "?b ! d = payload ! j" using d j True by (simp add: nth_masked_upto)
        then have "blit ?p i (f ?b) ! j = payload ! j XOR mkey ! (j mod 4)"
          using d j True same [of d] nth_blit [OF fits, of j] by (simp add: block)
        then show ?thesis using j True by (simp add: nth_masked_upto)
      next
        case False
        then show ?thesis using j nth_blit [OF fits, of j] by (auto simp: block nth_masked_upto)
      qed
    qed
    then have step: "xor_blocks width f ?p i = xor_blocks width f (masked_upto mkey payload (i + width)) (i + width)"
      using True less.prems width block by (subst xor_blocks.simps) simp
    show ?thesis
      unfolding step using less.hyps [of "i + width"] less.prems True width by simp
  qed
qed

lemma mask_tail_masked: "i \<le> length payload \<Longrightarrow> mask_tail mkey (masked_upto mkey payload i) i = mask_bytes mkey payload"
proof (induction "length payload - i" arbitrary: i)
  case 0
  then have "i = length payload" by simp
  then show ?case by (subst mask_tail.simps) simp
next
  case (Suc n)
  let ?p = "masked_upto mkey payload i"
  have i: "i < length payload" using Suc by simp
  have "?p[i := ?p ! i XOR mkey ! (i mod 4)] = masked_upto mkey payload (i + 1)"
    by (rule nth_equalityI) (auto simp: nth_list_update nth_masked_upto i less_Suc_eq)
  then show ?case
    using Suc i by (subst mask_tail.simps) simp
qed

lemma key_bits:
  assumes "length mkey = 4" "m < 64"
  shows "bit (load_word (take 4 mkey @ take 4 mkey) :: 64 word) m = bit (mkey ! (m div 8 mod 4)) (m mod 8)"
proof -
  have "m div 8 < 8" using assms(2) by linarith
  moreover have "x mod 4 = (if x < 4 then x else x - 4)" if "x < 8" for x :: nat using that by arith
  ultimately show ?thesis using assms by (auto simp: bit_load_word nth_append)
qed

lemma mask_loops:
  assumes "length mkey = 4"
  shows "decode_masked_websocket_payload payload mkey = mask_bytes mkey payload"
proof -
  define key where "key = (load_word (take 4 mkey @ take 4 mkey) :: 64 word)"
  define wide where "wide = (ucast key OR push_bit 64 (ucast key) :: 128 word)"
  have key: "bit key (8 * i + j) = bit (mkey ! (i mod 4)) j" if "i < 8" "j < 8" for i j
    unfolding key_def using key_bits [OF assms, of "8 * i + j"] that by simp
  have wide: "bit wide (8 * i + j) = bit (mkey ! (i mod 4)) j" if ij: "i < 16" "j < 8" for i j
  proof (cases "i < 8")
    case True
    then show ?thesis using key [of i j] ij by (simp add: wide_def bit_simps)
  next
    case False
    then have "(8 * i + j - 64) = 8 * (i - 8) + j" "(i - 8) mod 4 = i mod 4" "i - 8 < 8" "8 * (i - 8) + j < 128"
      using ij by (auto simp: mod_if)
    moreover have "\<not> bit key (8 * i + j)" using False bit_imp_le_length [of key "8 * i + j"] by auto
    ultimately show ?thesis using key [of "i - 8" j] ij False by (simp add: wide_def bit_simps)
  qed
  have f16: "store_word 16 (load_word b XOR wide) = map (\<lambda>i. b ! i XOR mkey ! (i mod 4)) [0..<16]" if "length b = 16" for b
    by (rule store_xor_load [OF that]) (use wide in simp_all)
  have f8: "store_word 8 (load_word b XOR key) = map (\<lambda>i. b ! i XOR mkey ! (i mod 4)) [0..<8]" if "length b = 8" for b
    by (rule store_xor_load [OF that]) (use key in simp_all)
  let ?f16 = "\<lambda>block. store_word 16 (load_word block XOR wide)" and ?f8 = "\<lambda>word. store_word 8 (load_word word XOR key)"
  obtain i1 where 1: "xor_blocks 16 ?f16 payload 0 = (masked_upto mkey payload i1, i1)" "4 dvd i1" "i1 \<le> length payload"
    using xor_blocks_masked [of 16 ?f16 mkey 0 payload] f16 by auto
  obtain i2 where 2: "xor_blocks 8 ?f8 (masked_upto mkey payload i1) i1 = (masked_upto mkey payload i2, i2)" "i2 \<le> length payload"
    using xor_blocks_masked [of 8 ?f8 mkey i1 payload] f8 1 by auto
  show ?thesis
    unfolding decode_masked_websocket_payload_def Let_def key_def [symmetric] wide_def [symmetric]
    using 1 2 mask_tail_masked [of i2 payload mkey] by simp
qed

text \<open>
  Property C28. The 16-byte and 8-byte word loops and the tail mask a payload of any size exactly
  as the bytewise rule of RFC 6455 does (byte \<open>i\<close> with key byte \<open>i mod 4\<close>), and
  masking twice with one key gives the payload back.
\<close>

theorem masking_is_bytewise:
  assumes "length mkey = 4"
  shows "decode_masked_websocket_payload payload mkey = mask_bytes mkey payload \<and>
    decode_masked_websocket_payload (decode_masked_websocket_payload payload mkey) mkey = payload"
  by (simp add: mask_loops [OF assms] mask_bytes_involution)

lemma masking_is_bytewise_witness:
  "decode_masked_websocket_payload [10, 20, 30, 40, 50] [1, 2, 3, 4] = [11, 22, 29, 44, 51]"
  using masking_is_bytewise [of "[1, 2, 3, 4]" "[10, 20, 30, 40, 50]"]
  by (simp add: mask_bytes_def upt_rec)

end
