(* ===== verification/Utf8.thy ===== *)
theory Utf8
  imports Prelude
begin

text \<open>
  UTF-8 well-formedness (\<open>ruvia-http/include/ruvia/http/http_utf8.h\<close>): the classification of
  one sequence under Unicode Table 3-7 and the validity scan. The specification is the
  encoding of scalar values; the lemmas show that the scan accepts exactly their
  concatenations.
\<close>

record utf8_sequence =
  sequence_length :: nat
  well_formed :: bool

text \<open>The loop over the \<open>trail\<close> continuation bytes, at \<open>k\<close>.\<close>

function scan_trail :: "bytes \<Rightarrow> nat \<Rightarrow> nat \<Rightarrow> nat \<Rightarrow> byte \<Rightarrow> byte \<Rightarrow> utf8_sequence" where
  "scan_trail input i trail k low high =
     (if k \<le> trail then
        if i + k \<ge> length input then \<lparr>sequence_length = k, well_formed = False\<rparr>
        else if input ! (i + k) < low \<or> input ! (i + k) > high
        then \<lparr>sequence_length = k, well_formed = False\<rparr>
        else scan_trail input i trail (k + 1) 0x80 0xBF
      else \<lparr>sequence_length = trail + 1, well_formed = True\<rparr>)"
  by pat_completeness auto

termination by (relation "measure (\<lambda>(input, i, trail, k, low, high). trail + 1 - k)") auto

declare scan_trail.simps [simp del]

definition scan_utf8_sequence :: "bytes \<Rightarrow> nat \<Rightarrow> utf8_sequence" where
  "scan_utf8_sequence input i =
     (let lead = input ! i in
      if lead \<ge> 0xC2 \<and> lead \<le> 0xDF then scan_trail input i 1 1 0x80 0xBF
      else if lead \<ge> 0xE0 \<and> lead \<le> 0xEF
      then scan_trail input i 2 1 (if lead = 0xE0 then 0xA0 else 0x80) (if lead = 0xED then 0x9F else 0xBF)
      else if lead \<ge> 0xF0 \<and> lead \<le> 0xF4
      then scan_trail input i 3 1 (if lead = 0xF0 then 0x90 else 0x80) (if lead = 0xF4 then 0x8F else 0xBF)
      else \<lparr>sequence_length = 1, well_formed = False\<rparr>)"

lemma scan_trail_length: "0 < k \<Longrightarrow> 0 < sequence_length (scan_trail input i trail k low high)"
  by (induction input i trail k low high rule: scan_trail.induct)
    (subst scan_trail.simps, auto)

lemma scan_length: "0 < sequence_length (scan_utf8_sequence input i)"
  by (auto simp: scan_utf8_sequence_def Let_def intro!: scan_trail_length)

function valid_utf8_from :: "bytes \<Rightarrow> nat \<Rightarrow> bool" where
  "valid_utf8_from v i =
     (if i < length v then
        if v ! i < 0x80 then valid_utf8_from v (i + 1)
        else
          let sequence = scan_utf8_sequence v i in
          if \<not> well_formed sequence then False
          else valid_utf8_from v (i + sequence_length sequence)
      else True)"
  by pat_completeness auto

termination
  by (relation "measure (\<lambda>(v, i). length v - i)") (auto simp: scan_length diff_less_mono2)

declare valid_utf8_from.simps [simp del]

definition is_valid_utf8 :: "bytes \<Rightarrow> bool" where
  "is_valid_utf8 v \<longleftrightarrow> valid_utf8_from v 0"

subsection \<open>Scalar values\<close>

definition is_scalar :: "nat \<Rightarrow> bool" where
  "is_scalar c \<longleftrightarrow> c < 0x110000 \<and> \<not> (0xD800 \<le> c \<and> c \<le> 0xDFFF)"

definition utf8_encode :: "nat \<Rightarrow> bytes" where
  "utf8_encode c =
     (if c < 0x80 then [word_of_nat c]
      else if c < 0x800 then [word_of_nat (0xC0 + c div 64), word_of_nat (0x80 + c mod 64)]
      else if c < 0x10000
      then [word_of_nat (0xE0 + c div 4096), word_of_nat (0x80 + c div 64 mod 64), word_of_nat (0x80 + c mod 64)]
      else [word_of_nat (0xF0 + c div 262144), word_of_nat (0x80 + c div 4096 mod 64),
            word_of_nat (0x80 + c div 64 mod 64), word_of_nat (0x80 + c mod 64)])"

lemma unat_small: "n < 256 \<Longrightarrow> unat (word_of_nat n :: byte) = n"
  by (simp add: unsigned_of_nat take_bit_nat_eq_self)

lemma byte_of_unat: "unat (b :: byte) = n \<Longrightarrow> b = word_of_nat n"
  by auto

text \<open>The scan of the bytes behind the lead, on the rest of the input.\<close>

definition trail_ok :: "nat \<Rightarrow> nat \<Rightarrow> nat \<Rightarrow> bytes \<Rightarrow> bool" where
  "trail_ok n low high rest \<longleftrightarrow>
     n \<le> length rest \<and>
     (\<forall>k < n. (if k = 0 then low else 0x80) \<le> unat (rest ! k) \<and> unat (rest ! k) \<le> (if k = 0 then high else 0xBF))"

lemma scan_trail_ok:
  "0 < k \<Longrightarrow> well_formed (scan_trail input i trail k low high) \<longleftrightarrow>
     trail_ok (trail + 1 - k) (unat low) (unat high) (drop (i + k) input)"
proof (induction input i trail k low high rule: scan_trail.induct)
  case (1 input i trail k low high)
  show ?case
  proof (cases "k \<le> trail \<and> i + k < length input \<and> low \<le> input ! (i + k) \<and> input ! (i + k) \<le> high")
    case True
    then have cons: "drop (i + k) input = input ! (i + k) # drop (i + (k + 1)) input"
      by (simp add: Cons_nth_drop_Suc)
    have n: "trail + 1 - k = Suc (trail + 1 - (k + 1))" using True by (auto simp: Suc_diff_le)
    have "well_formed (scan_trail input i trail k low high)
        \<longleftrightarrow> well_formed (scan_trail input i trail (k + 1) 0x80 0xBF)"
      using True by (subst scan_trail.simps) auto
    also have "\<dots> \<longleftrightarrow> trail_ok (trail + 1 - (k + 1)) 0x80 0xBF (drop (i + (k + 1)) input)"
      using 1(1) True by (simp add: not_less)
    also have "\<dots> \<longleftrightarrow> trail_ok (trail + 1 - k) (unat low) (unat high) (drop (i + k) input)"
      using True unfolding cons n trail_ok_def by (auto simp: byte_le_nat All_less_Suc2)
    finally show ?thesis .
  next
    case False
    then show ?thesis
      by (subst scan_trail.simps) (auto simp: trail_ok_def byte_le_nat byte_less_nat not_le not_less)
  qed
qed

lemma scan_trail_size:
  "0 < k \<Longrightarrow> k \<le> trail + 1 \<Longrightarrow> well_formed (scan_trail input i trail k low high) \<Longrightarrow>
     sequence_length (scan_trail input i trail k low high) = trail + 1"
proof (induction input i trail k low high rule: scan_trail.induct)
  case (1 input i trail k low high)
  note step = scan_trail.simps [of input i trail k low high]
  show ?case using 1 unfolding step by (auto split: if_splits)
qed

text \<open>The three shapes of a sequence behind its lead byte.\<close>

definition lead_shape :: "nat \<Rightarrow> (nat \<times> nat \<times> nat) option" where
  "lead_shape l =
     (if 0xC2 \<le> l \<and> l \<le> 0xDF then Some (1, 0x80, 0xBF)
      else if 0xE0 \<le> l \<and> l \<le> 0xEF
      then Some (2, if l = 0xE0 then 0xA0 else 0x80, if l = 0xED then 0x9F else 0xBF)
      else if 0xF0 \<le> l \<and> l \<le> 0xF4
      then Some (3, if l = 0xF0 then 0x90 else 0x80, if l = 0xF4 then 0x8F else 0xBF)
      else None)"

lemma scan_shape:
  "well_formed (scan_utf8_sequence v i) \<longleftrightarrow>
     (\<exists>n low high. lead_shape (unat (v ! i)) = Some (n, low, high) \<and> trail_ok n low high (drop (i + 1) v))"
  "well_formed (scan_utf8_sequence v i) \<Longrightarrow> lead_shape (unat (v ! i)) = Some (n, low, high) \<Longrightarrow>
     sequence_length (scan_utf8_sequence v i) = n + 1"
  by (auto simp: scan_utf8_sequence_def lead_shape_def Let_def byte_le_nat byte_eq_nat scan_trail_ok
      scan_trail_size split: if_splits)

lemma split_64: "(z :: nat) < 64 \<Longrightarrow> (q * 64 + z) div 64 = q \<and> (q * 64 + z) mod 64 = z"
  by simp

lemma encode_2: "x < 32 \<Longrightarrow> y < 64 \<Longrightarrow> 2 \<le> x \<Longrightarrow>
    utf8_encode (x * 64 + y) = [word_of_nat (0xC0 + x), word_of_nat (0x80 + y)]"
  by (simp add: utf8_encode_def)

lemma encode_3:
  assumes "x < 16" "y < 64" "z < 64" "32 \<le> x * 64 + y"
  shows "utf8_encode ((x * 64 + y) * 64 + z) = [word_of_nat (0xE0 + x), word_of_nat (0x80 + y), word_of_nat (0x80 + z)]"
proof -
  define q where "q = (x * 64 + y) * 64 + z"
  have q: "q div 64 = x * 64 + y" "q mod 64 = z" unfolding q_def using split_64 [OF assms(3), of "x * 64 + y"] by blast+
  have "q div 4096 = q div 64 div 64" using div_mult2_eq [of q 64 64] by simp
  then have q2: "q div 4096 = x" "q div 64 mod 64 = y" using q(1) split_64 [OF assms(2), of x] by simp_all
  have "0x800 \<le> q" "q < 0x10000" unfolding q_def using assms by (simp_all add: algebra_simps)
  then show ?thesis unfolding q_def [symmetric] by (simp add: utf8_encode_def q(2) q2)
qed

lemma encode_4:
  assumes "x < 8" "y < 64" "z < 64" "w < 64" "16 \<le> x * 64 + y"
  shows "utf8_encode (((x * 64 + y) * 64 + z) * 64 + w)
      = [word_of_nat (0xF0 + x), word_of_nat (0x80 + y), word_of_nat (0x80 + z), word_of_nat (0x80 + w)]"
proof -
  define q where "q = ((x * 64 + y) * 64 + z) * 64 + w"
  have q: "q div 64 = (x * 64 + y) * 64 + z" "q mod 64 = w" unfolding q_def using split_64 [OF assms(4), of "(x * 64 + y) * 64 + z"] by blast+
  have "q div 4096 = q div 64 div 64" "q div 262144 = q div 64 div 64 div 64"
    using div_mult2_eq [of q 64 64] div_mult2_eq [of q 4096 64] by simp_all
  then have q2: "q div 4096 = x * 64 + y" "q div 64 mod 64 = z" "q div 262144 = x"
    using q(1) split_64 [OF assms(3), of "x * 64 + y"] split_64 [OF assms(2), of x] by simp_all
  have q3: "q div 4096 mod 64 = y" unfolding q2(1) using split_64 [OF assms(2)] by simp
  have "0x10000 \<le> q" unfolding q_def using assms by (simp add: algebra_simps)
  then show ?thesis unfolding q_def [symmetric] by (simp add: utf8_encode_def q(2) q2(2,3) q3)
qed

lemma take_trail:
  assumes "n \<le> length (drop (i + 1) v)" "i < length v"
  shows "take (n + 1) (drop i v) = v ! i # take n (drop (i + 1) v)"
  using assms by (simp add: Cons_nth_drop_Suc [symmetric])

lemma byte_offset: "unat (b :: byte) = 0x80 + y \<Longrightarrow> b = word_of_nat (0x80 + y)"
  by (rule byte_of_unat)

lemma scan_decode:
  assumes "i < length v" "well_formed (scan_utf8_sequence v i)"
  shows "\<exists>c. is_scalar c \<and> 0x80 \<le> c \<and>
    take (sequence_length (scan_utf8_sequence v i)) (drop i v) = utf8_encode c"
proof -
  let ?rest = "drop (i + 1) v" and ?lead = "unat (v ! i)"
  obtain n low high where shape: "lead_shape ?lead = Some (n, low, high)" and ok: "trail_ok n low high ?rest"
    using scan_shape(1) [THEN iffD1, OF assms(2)] by blast
  have size: "sequence_length (scan_utf8_sequence v i) = n + 1" by (rule scan_shape(2) [OF assms(2) shape])
  have len: "n \<le> length ?rest" using ok by (simp add: trail_ok_def)
  note taken = take_trail [OF len assms(1)]
  define y where "y k = unat (?rest ! k) - 0x80" for k
  have y: "?rest ! k = word_of_nat (0x80 + y k) \<and> y k < 64" if "k < n" for k
  proof -
    have "0x80 \<le> unat (?rest ! k)" "unat (?rest ! k) \<le> 0xBF"
      using ok shape that by (auto simp: trail_ok_def lead_shape_def split: if_splits)
    then show ?thesis by (auto simp: y_def intro!: byte_of_unat)
  qed
  have lead: "v ! i = word_of_nat ?lead" by simp
  have first: "low \<le> unat (?rest ! 0) \<and> unat (?rest ! 0) \<le> high"
    using ok [unfolded trail_ok_def, THEN conjunct2, rule_format, of 0] shape
    by (auto simp: lead_shape_def split: if_splits)
  consider (two) "0xC2 \<le> ?lead \<and> ?lead \<le> 0xDF" "n = 1"
    | (three) "0xE0 \<le> ?lead \<and> ?lead \<le> 0xEF" "n = 2" "?lead = 0xE0 \<longrightarrow> low = 0xA0" "?lead = 0xED \<longrightarrow> high = 0x9F"
    | (four) "0xF0 \<le> ?lead \<and> ?lead \<le> 0xF4" "n = 3" "?lead = 0xF0 \<longrightarrow> low = 0x90" "?lead = 0xF4 \<longrightarrow> high = 0x8F"
    using shape by (auto simp: lead_shape_def split: if_splits)
  then show ?thesis
  proof cases
    case two
    obtain x where x: "?lead = 0xC0 + x" "2 \<le> x" "x < 32" using two by (auto intro: that [of "?lead - 0xC0"])
    have "take 1 ?rest = [?rest ! 0]" using len two by (cases ?rest) auto
    then have "take (n + 1) (drop i v) = utf8_encode (x * 64 + y 0)"
      using taken two y [of 0] x lead by (simp add: encode_2)
    moreover have "is_scalar (x * 64 + y 0)" "0x80 \<le> x * 64 + y 0"
      using x y [of 0] two by (auto simp: is_scalar_def)
    ultimately show ?thesis unfolding size by blast
  next
    case three
    obtain x where x: "?lead = 0xE0 + x" "x < 16" using three by (auto intro: that [of "?lead - 0xE0"])
    have bounds: "x = 0 \<longrightarrow> 32 \<le> y 0" "x = 13 \<longrightarrow> y 0 < 32" "y 0 < 64" "y 1 < 64"
      using first three x y [of 0] y [of 1] by (auto simp: y_def)
    have "take 2 ?rest = [?rest ! 0, ?rest ! 1]"
      using len three by (cases ?rest; cases "tl ?rest") (auto simp: numeral_2_eq_2)
    moreover have min: "32 \<le> x * 64 + y 0" using bounds(1) by (cases x) auto
    ultimately have "take (n + 1) (drop i v) = utf8_encode ((x * 64 + y 0) * 64 + y 1)"
      using taken three y [of 0] y [of 1] x lead bounds
      unfolding encode_3 [OF x(2) bounds(3,4) min] by simp
    moreover have "is_scalar ((x * 64 + y 0) * 64 + y 1)" "0x80 \<le> (x * 64 + y 0) * 64 + y 1"
    proof -
      show "0x80 \<le> (x * 64 + y 0) * 64 + y 1" using min by simp
      have "x * 64 + y 0 < 0x360 \<or> 0x380 \<le> x * 64 + y 0"
        using bounds(2,3) by (cases "x < 13"; cases "x = 13") auto
      then show "is_scalar ((x * 64 + y 0) * 64 + y 1)"
        using bounds x by (auto simp: is_scalar_def)
    qed
    ultimately show ?thesis unfolding size by blast
  next
    case four
    obtain x where x: "?lead = 0xF0 + x" "x < 5" using four by (auto intro: that [of "?lead - 0xF0"])
    have bounds: "x = 0 \<longrightarrow> 16 \<le> y 0" "x = 4 \<longrightarrow> y 0 < 16" "y 0 < 64" "y 1 < 64" "y 2 < 64"
      using first four x y [of 0] y [of 1] y [of 2] by (auto simp: y_def)
    have "take 3 ?rest = [?rest ! 0, ?rest ! 1, ?rest ! 2]"
      using len four by (cases ?rest; cases "tl ?rest"; cases "tl (tl ?rest)") (auto simp: numeral_3_eq_3 numeral_2_eq_2)
    moreover have min: "16 \<le> x * 64 + y 0" using bounds(1) by (cases x) auto
    moreover have less8: "x < 8" using x(2) by simp
    ultimately have "take (n + 1) (drop i v) = utf8_encode (((x * 64 + y 0) * 64 + y 1) * 64 + y 2)"
      using taken four y [of 0] y [of 1] y [of 2] x lead bounds
      unfolding encode_4 [OF less8 bounds(3-5) min] by simp
    moreover have "x * 64 + y 0 < 0x110"
      using bounds(2,3) x by (cases "x = 4") auto
    then have "is_scalar (((x * 64 + y 0) * 64 + y 1) * 64 + y 2)" "0x80 \<le> ((x * 64 + y 0) * 64 + y 1) * 64 + y 2"
      using min bounds by (auto simp: is_scalar_def)
    ultimately show ?thesis unfolding size by blast
  qed
qed

text \<open>The converse: the scan steps over the encoding of a scalar value.\<close>

lemma nat_div_64_bounds: "(c :: nat) div 64 * 64 \<le> c" "c < c div 64 * 64 + 64"
  using div_mult_mod_eq [of c 64] mod_less_divisor [of 64 c] by linarith+

lemma trail_ok_1: "trail_ok 1 l h (a # rest) \<longleftrightarrow> l \<le> unat a \<and> unat a \<le> h"
  by (auto simp: trail_ok_def)

lemma trail_ok_2: "trail_ok 2 l h (a # b # rest) \<longleftrightarrow>
    l \<le> unat a \<and> unat a \<le> h \<and> 0x80 \<le> unat b \<and> unat b \<le> 0xBF"
  by (auto simp: trail_ok_def numeral_2_eq_2 All_less_Suc2)

lemma trail_ok_3: "trail_ok 3 l h (a # b # c # rest) \<longleftrightarrow>
    l \<le> unat a \<and> unat a \<le> h \<and> 0x80 \<le> unat b \<and> unat b \<le> 0xBF \<and> 0x80 \<le> unat c \<and> unat c \<le> 0xBF"
  by (auto simp: trail_ok_def numeral_3_eq_3 All_less_Suc2)

lemma encode_shape:
  assumes "is_scalar c" "0x80 \<le> c"
  shows "\<exists>lead tl n low high. utf8_encode c = lead # tl \<and> length tl = n \<and> 0x80 \<le> unat lead \<and>
    lead_shape (unat lead) = Some (n, low, high) \<and> (\<forall>rest. trail_ok n low high (tl @ rest))"
proof -
  have m: "x mod 64 \<le> 63" for x :: nat
    using mod_less_divisor [of 64 x] by linarith
  consider "c < 0x800" | "0x800 \<le> c" "c < 0x10000" | "0x10000 \<le> c" by linarith
  then show ?thesis
  proof cases
    case 1
    define q where "q = c div 64"
    have "2 \<le> q" "q < 32" unfolding q_def using 1 assms(2) by auto
    then show ?thesis
      using 1 assms(2) m [of c]
      by (simp add: utf8_encode_def trail_ok_1 [simplified] unat_small lead_shape_def q_def [symmetric] m del: of_nat_add of_nat_mod)
  next
    case 2
    define q r where "q = c div 4096" and "r = c div 64 mod 64"
    have qr: "q * 64 + r = c div 64" "r < 64"
      unfolding q_def r_def using div_mult2_eq [of c 64 64] by simp_all
    then have b: "32 \<le> q * 64 + r" "q * 64 + r < 1024" "q * 64 + r < 0x360 \<or> 0x380 \<le> q * 64 + r"
      using 2 assms(1) nat_div_64_bounds [of c] unfolding is_scalar_def by auto
    then have "q < 16" "q = 0 \<longrightarrow> 32 \<le> r" "q = 13 \<longrightarrow> r \<le> 31" "r \<le> 63" using qr(2) by auto
    then show ?thesis
      using 2 qr(2) m [of c]
      by (simp add: utf8_encode_def trail_ok_2 [unfolded numeral_2_eq_2] unat_small lead_shape_def q_def [symmetric] r_def [symmetric] m del: of_nat_add of_nat_mod)
  next
    case 3
    define q r where "q = c div 262144" and "r = c div 4096 mod 64"
    have d: "c div 4096 = c div 64 div 64" "c div 262144 = c div 4096 div 64"
      using div_mult2_eq [of c 64 64] div_mult2_eq [of c 4096 64] by simp_all
    have qr: "q * 64 + r = c div 4096" "r < 64" unfolding q_def r_def d(2) by simp_all
    have "16 \<le> c div 4096" "c div 4096 < 0x110" using 3 assms(1) by (auto simp: is_scalar_def)
    then have "q < 5" "q = 0 \<longrightarrow> 16 \<le> r" "q = 4 \<longrightarrow> r \<le> 15" "r \<le> 63" using qr by auto
    then show ?thesis
      using 3 qr(2) m [of c] m [of "c div 64"]
      by (simp add: utf8_encode_def trail_ok_3 [unfolded numeral_3_eq_3] unat_small lead_shape_def q_def [symmetric] r_def [symmetric] m del: of_nat_add of_nat_mod)
  qed
qed

lemma scan_encode:
  assumes "drop i v = utf8_encode c @ rest" "is_scalar c" "0x80 \<le> c"
  shows "well_formed (scan_utf8_sequence v i)" "sequence_length (scan_utf8_sequence v i) = length (utf8_encode c)"
    "0x80 \<le> unat (v ! i)" "i < length v"
proof -
  obtain lead tl n low high where e: "utf8_encode c = lead # tl" "length tl = n" "0x80 \<le> unat lead"
      "lead_shape (unat lead) = Some (n, low, high)" "\<forall>rest. trail_ok n low high (tl @ rest)"
    using encode_shape [OF assms(2,3)] by blast
  have d: "drop i v = lead # (tl @ rest)" using assms(1) e(1) by simp
  show i: "i < length v" by (rule ccontr) (use d in simp)
  have "drop i v = v ! i # drop (i + 1) v" using i by (simp add: Cons_nth_drop_Suc)
  with d have parts: "v ! i = lead" "drop (i + 1) v = tl @ rest" by simp_all
  show wf: "well_formed (scan_utf8_sequence v i)"
    unfolding scan_shape(1) parts using e(4,5) by blast
  show "sequence_length (scan_utf8_sequence v i) = length (utf8_encode c)"
    using scan_shape(2) [OF wf, of n low high] e parts(1) by simp
  show "0x80 \<le> unat (v ! i)" using e(3) parts(1) by simp
qed

lemma encode_small: "c < 0x80 \<Longrightarrow> utf8_encode c = [word_of_nat c]"
  by (simp add: utf8_encode_def)

lemma encode_nonempty: "0 < length (utf8_encode c)"
  by (simp add: utf8_encode_def)

lemma valid_utf8_complete:
  "\<forall>c \<in> set cs. is_scalar c \<Longrightarrow> drop i v = concat (map utf8_encode cs) \<Longrightarrow> valid_utf8_from v i"
proof (induction cs arbitrary: i)
  case Nil
  then show ?case by (subst valid_utf8_from.simps) simp
next
  case (Cons c cs)
  let ?rest = "concat (map utf8_encode cs)"
  have d: "drop i v = utf8_encode c @ ?rest" and c: "is_scalar c" using Cons.prems by auto
  have step: "drop (i + length (utf8_encode c)) v = ?rest"
    using arg_cong [OF d, of "drop (length (utf8_encode c))"] by (simp add: add.commute)
  have next_ok: "valid_utf8_from v (i + length (utf8_encode c))"
    using Cons.IH [OF _ step] Cons.prems(1) by simp
  show ?case
  proof (cases "c < 0x80")
    case True
    then have small: "drop i v = word_of_nat c # ?rest" using d encode_small by simp
    have i: "i < length v" by (rule ccontr) (use small in simp)
    then have "v ! i = word_of_nat c" using small by (simp add: Cons_nth_drop_Suc [symmetric])
    then have "v ! i < 0x80" using True by (simp add: byte_less_nat unat_small)
    then show ?thesis
      using next_ok True i by (subst valid_utf8_from.simps) (simp add: encode_small)
  next
    case False
    note scan = scan_encode [OF d c, simplified not_less [symmetric], OF False]
    show ?thesis
      using next_ok scan by (subst valid_utf8_from.simps) (simp add: Let_def byte_less_nat not_le)
  qed
qed

lemma valid_utf8_sound:
  "valid_utf8_from v i \<Longrightarrow> i \<le> length v \<Longrightarrow>
     \<exists>cs. (\<forall>c \<in> set cs. is_scalar c) \<and> drop i v = concat (map utf8_encode cs)"
proof (induction v i rule: valid_utf8_from.induct)
  case (1 v i)
  note step = valid_utf8_from.simps [of v i]
  let ?n = "sequence_length (scan_utf8_sequence v i)"
  show ?case
  proof (cases "i < length v")
    case False
    then have "drop i v = concat (map utf8_encode [])" by simp
    then show ?thesis by (intro exI [of _ "[]"]) simp
  next
    case inside: True
    have glue: ?thesis
      if c: "is_scalar c" and t: "take n (drop i v) = utf8_encode c"
        and ih: "\<exists>cs. (\<forall>c \<in> set cs. is_scalar c) \<and> drop (i + n) v = concat (map utf8_encode cs)" for c n
    proof -
      obtain cs where cs: "\<forall>c \<in> set cs. is_scalar c" "drop (i + n) v = concat (map utf8_encode cs)"
        using ih by blast
      have "drop i v = utf8_encode c @ drop (i + n) v"
        using append_take_drop_id [of n "drop i v"] t by (simp add: add.commute)
      then show ?thesis using c cs by (intro exI [of _ "c # cs"]) simp
    qed
    show ?thesis
    proof (cases "v ! i < 0x80")
      case True
      let ?c = "unat (v ! i)"
      have small: "?c < 0x80" using True by (simp add: byte_less_nat)
      have "take 1 (drop i v) = utf8_encode ?c"
        using inside small by (simp add: encode_small Cons_nth_drop_Suc [symmetric])
      moreover have "is_scalar ?c" using small by (simp add: is_scalar_def)
      moreover have "valid_utf8_from v (i + 1)" using 1(3) inside True unfolding step by simp
      ultimately show ?thesis using glue 1(1) [OF inside True] inside by simp
    next
      case False
      have wf: "well_formed (scan_utf8_sequence v i)" and rest: "valid_utf8_from v (i + ?n)"
        using 1(3) inside False unfolding step by (auto simp: Let_def split: if_splits)
      obtain c where c: "is_scalar c" "take ?n (drop i v) = utf8_encode c"
        using scan_decode [OF inside wf] by blast
      have "i + ?n \<le> length v"
      proof -
        obtain n low high where s: "lead_shape (unat (v ! i)) = Some (n, low, high)" "trail_ok n low high (drop (i + 1) v)"
          using scan_shape(1) [THEN iffD1, OF wf] by blast
        then show ?thesis using scan_shape(2) [OF wf s(1)] inside by (auto simp: trail_ok_def)
      qed
      then show ?thesis using glue [OF c] 1(2) [OF inside False refl _ rest] wf by simp
    qed
  qed
qed

text \<open>
  Property C26. \<open>is_valid_utf8\<close> accepts a string exactly when it is the concatenation of the
  UTF-8 encodings of a sequence of Unicode scalar values: no overlong form, surrogate, value
  above U+10FFFF or truncated sequence passes, and nothing well formed is refused.
\<close>

theorem utf8_valid_iff:
  "is_valid_utf8 v \<longleftrightarrow> (\<exists>cs. list_all is_scalar cs \<and> v = concat (map utf8_encode cs))"
  using valid_utf8_sound [of v 0] valid_utf8_complete [of _ 0 v]
  unfolding is_valid_utf8_def list_all_iff by auto

end
