(* ===== verification/Websocket_Frame.thy ===== *)
theory Websocket_Frame
  imports Masking Utf8 Byte_Budget
begin

text \<open>
  The RFC 6455 frame layer: the wire vocabulary of \<open>http_websocket_frame_codec.h\<close>, the Close
  payload codec (\<open>websocket_close_payload.h\<close>, \<open>websocket_close_payload.cpp\<close>,
  \<open>websocket_protocol.h\<close>) and the frame reader (\<open>http_websocket_frame_reader.h\<close>),
  which parses and unmasks in place over the input buffer of \<open>Io_Buffer\<close>.
\<close>

subsection \<open>Wire vocabulary\<close>

datatype websocket_protocol_failure = Protocol_error | Invalid_payload_data | Message_too_large

definition websocket_protocol_failure_close_code :: "websocket_protocol_failure \<Rightarrow> u16" where
  "websocket_protocol_failure_close_code failure =
     (case failure of Protocol_error \<Rightarrow> 1002 | Invalid_payload_data \<Rightarrow> 1007 | Message_too_large \<Rightarrow> 1009)"

datatype websocket_frame_kind = Continuation | Text | Binary | Close | Ping | Pong

definition kind_code :: "websocket_frame_kind \<Rightarrow> byte" where
  "kind_code k =
     (case k of Continuation \<Rightarrow> 0x0 | Text \<Rightarrow> 0x1 | Binary \<Rightarrow> 0x2 | Close \<Rightarrow> 0x8 | Ping \<Rightarrow> 0x9 | Pong \<Rightarrow> 0xA)"

text \<open>\<open>static_cast<websocket_frame_kind>\<close> of a valid raw opcode.\<close>

definition kind_of_raw :: "byte \<Rightarrow> websocket_frame_kind" where
  "kind_of_raw raw =
     (if raw = 0x0 then Continuation else if raw = 0x1 then Text else if raw = 0x2 then Binary
      else if raw = 0x8 then Close else if raw = 0x9 then Ping else Pong)"

text \<open>\<open>websocket_opcode\<close> is the frame kinds other than the continuation.\<close>

datatype websocket_opcode = Op_text | Op_binary | Op_close | Op_ping | Op_pong

definition opcode_code :: "websocket_opcode \<Rightarrow> byte" where
  "opcode_code op =
     (case op of Op_text \<Rightarrow> 0x1 | Op_binary \<Rightarrow> 0x2 | Op_close \<Rightarrow> 0x8 | Op_ping \<Rightarrow> 0x9 | Op_pong \<Rightarrow> 0xA)"

definition opcode_kind :: "websocket_opcode \<Rightarrow> websocket_frame_kind" where
  "opcode_kind op =
     (case op of Op_text \<Rightarrow> Text | Op_binary \<Rightarrow> Binary | Op_close \<Rightarrow> Close | Op_ping \<Rightarrow> Ping | Op_pong \<Rightarrow> Pong)"

record websocket_frame_start =
  start_kind :: websocket_frame_kind
  start_final :: bool
  start_compressed :: bool

definition is_invalid_websocket_raw_opcode :: "byte \<Rightarrow> bool" where
  "is_invalid_websocket_raw_opcode raw \<longleftrightarrow> raw \<ge> 0x3 \<and> raw \<le> 0x7 \<or> raw \<ge> 0xB"

definition is_websocket_control_frame_kind :: "websocket_frame_kind \<Rightarrow> bool" where
  "is_websocket_control_frame_kind k \<longleftrightarrow> kind_code k \<ge> 0x8"

definition decode_websocket_frame_start ::
  "byte \<Rightarrow> byte \<Rightarrow> bool \<Rightarrow> bool \<Rightarrow> websocket_frame_start option" where
  "decode_websocket_frame_start first second allow_rsv1 expect_masked =
     (let raw_opcode = first AND 0x0F;
          rsv1 = (first AND 0x40 \<noteq> 0)
      in if first AND 0x30 \<noteq> 0 \<or> (second AND 0x80 \<noteq> 0) \<noteq> expect_masked \<or>
            is_invalid_websocket_raw_opcode raw_opcode
         then None
         else if rsv1 \<and> (\<not> allow_rsv1 \<or> raw_opcode = 0 \<or> raw_opcode \<ge> 0x8) then None
         else Some \<lparr>start_kind = kind_of_raw raw_opcode, start_final = (first AND 0x80 \<noteq> 0),
                    start_compressed = rsv1\<rparr>)"

definition is_invalid_websocket_control_frame :: "websocket_frame_start \<Rightarrow> u64 \<Rightarrow> bool" where
  "is_invalid_websocket_control_frame frame payload_size \<longleftrightarrow>
     is_websocket_control_frame_kind (start_kind frame) \<and> (\<not> start_final frame \<or> payload_size > 125)"

definition websocket_frame_length_exceeds_limit :: "u64 \<Rightarrow> protocol_byte_limit \<Rightarrow> bool" where
  "websocket_frame_length_exceeds_limit payload_size message_limit \<longleftrightarrow>
     (if payload_size > word_of_nat size_max then True else limit_exceeds message_limit (unat payload_size))"

definition websocket_frame_exceeds_message_limit ::
  "websocket_frame_kind \<Rightarrow> u64 \<Rightarrow> protocol_byte_limit \<Rightarrow> bool" where
  "websocket_frame_exceeds_message_limit kind payload_size message_limit \<longleftrightarrow>
     \<not> is_websocket_control_frame_kind kind \<and> websocket_frame_length_exceeds_limit payload_size message_limit"

definition read_websocket_uint16 :: "bytes \<Rightarrow> u16" where
  "read_websocket_uint16 data = push_bit 8 (ucast (data ! 0)) OR ucast (data ! 1)"

definition read_websocket_uint64 :: "bytes \<Rightarrow> websocket_protocol_failure + u64" where
  "read_websocket_uint64 data =
     (if data ! 0 AND 0x80 \<noteq> 0 then Inl Protocol_error
      else Inr (fold (\<lambda>byte value. push_bit 8 value OR ucast byte) (take 8 data) 0))"

definition encode_websocket_frame_header :: "websocket_opcode \<Rightarrow> nat \<Rightarrow> bool \<Rightarrow> bool \<Rightarrow> bytes" where
  "encode_websocket_frame_header opcode payload_size rsv1 masked =
     (let first = 0x80 OR (if rsv1 then 0x40 else 0) OR opcode_code opcode;
          size = word_of_nat payload_size :: u64;
          flag = (if masked then 0x80 else 0) :: byte
      in if payload_size \<le> 125 then [first, flag OR ucast size]
         else if payload_size \<le> 0xFFFF
         then [first, flag OR 126, ucast (drop_bit 8 size AND 0xFF), ucast (size AND 0xFF)]
         else [first, flag OR 127] @
              List.map (\<lambda>shift. ucast (drop_bit shift size AND 0xFF)) [56, 48, 40, 32, 24, 16, 8, 0])"

subsection \<open>Close payloads\<close>

definition close_code_valid :: "u16 \<Rightarrow> bool" where
  "close_code_valid v \<longleftrightarrow> v \<ge> 1000 \<and> v \<le> 1003 \<or> v \<ge> 1007 \<and> v \<le> 1014 \<or> v \<ge> 3000 \<and> v \<le> 4999"

datatype websocket_close_payload_encode_error = Invalid_reason | Reason_too_large

definition websocket_encoded_close_payload :: "u16 \<Rightarrow> bytes \<Rightarrow> bytes" where
  "websocket_encoded_close_payload code reason =
     [ucast (drop_bit 8 code AND 0xFF), ucast (code AND 0xFF)] @ reason"

definition encode_websocket_close_payload ::
  "u16 \<Rightarrow> bytes \<Rightarrow> websocket_close_payload_encode_error + bytes" where
  "encode_websocket_close_payload code reason =
     (if length reason > 123 then Inl Reason_too_large
      else if \<not> is_valid_utf8 reason then Inl Invalid_reason
      else Inr (websocket_encoded_close_payload code reason))"

definition websocket_close_payload_failure :: "bytes \<Rightarrow> websocket_protocol_failure option" where
  "websocket_close_payload_failure payload =
     (if length payload = 1 then Some Protocol_error
      else if length payload < 2 then None
      else if \<not> close_code_valid (read_websocket_uint16 payload) then Some Protocol_error
      else if \<not> is_valid_utf8 (drop 2 payload) then Some Invalid_payload_data
      else None)"

subsection \<open>The frame reader\<close>

record websocket_frame_view =
  view_kind :: websocket_frame_kind
  view_payload :: bytes
  view_final :: bool
  view_compressed :: bool

datatype websocket_frame_read_result =
  Need_input nat | Read_frame websocket_frame_view | Read_failure websocket_protocol_failure

definition websocket_retained_buffer_bytes :: nat where
  "websocket_retained_buffer_bytes = 16 * 1024"

text \<open>The buffer and \<open>pending_consume\<close>, which the next read consumes.\<close>

definition consume_websocket_read_frame :: "http_io_buffer \<Rightarrow> nat \<Rightarrow> http_io_buffer \<times> nat" where
  "consume_websocket_read_frame buffer pending =
     (if pending = 0 then (buffer, pending)
      else let buffer' = buf_consume pending buffer in
           (if buf_size buffer' = 0 then clear_retaining_small websocket_retained_buffer_bytes buffer' else buffer', 0))"

text \<open>Writing through \<open>buffer.data() + offset\<close>.\<close>

definition write_window :: "nat \<Rightarrow> bytes \<Rightarrow> http_io_buffer \<Rightarrow> http_io_buffer" where
  "write_window offset xs b = b\<lparr>buf_storage := blit (buf_storage b) (buf_begin b + offset) (map Some xs)\<rparr>"

text \<open>The length field: \<open>Inl None\<close> needs input, \<open>Inl (Some e)\<close> is a failure.\<close>

definition read_frame_length :: "bytes \<Rightarrow> websocket_protocol_failure option + u64 \<times> nat" where
  "read_frame_length data =
     (let available = length data;
          length7 = ucast (data ! 1 AND 0x7F) :: u64
      in if length7 = 126
         then (if available < 4 then Inl None else Inr (ucast (read_websocket_uint16 (drop 2 data)), 4))
         else if length7 = 127
         then (if available < 10 then Inl None
               else (case read_websocket_uint64 (drop 2 data) of
                       Inl e \<Rightarrow> Inl (Some e)
                     | Inr n \<Rightarrow> Inr (n, 10)))
         else Inr (length7, 2))"

definition websocket_try_read_frame ::
  "http_io_buffer \<Rightarrow> nat \<Rightarrow> protocol_byte_limit \<Rightarrow> bool \<Rightarrow> bool \<Rightarrow>
     websocket_frame_read_result \<times> http_io_buffer \<times> nat" where
  "websocket_try_read_frame buffer0 pending0 message_limit permessage_deflate expect_masked =
     (let (buffer, pending) = consume_websocket_read_frame buffer0 pending0;
          data = buf_view buffer;
          available = buf_size buffer
      in if available < 2 then (Need_input 0, buffer, pending)
         else (case decode_websocket_frame_start (data ! 0) (data ! 1) permessage_deflate expect_masked of
           None \<Rightarrow> (Read_failure Protocol_error, buffer, pending)
         | Some frame_start \<Rightarrow> (case read_frame_length data of
             Inl None \<Rightarrow> (Need_input 0, buffer, pending)
           | Inl (Some e) \<Rightarrow> (Read_failure e, buffer, pending)
           | Inr (len, header_size) \<Rightarrow>
               if is_invalid_websocket_control_frame frame_start len
               then (Read_failure Protocol_error, buffer, pending)
               else if websocket_frame_exceeds_message_limit (start_kind frame_start) len message_limit
               then (Read_failure Message_too_large, buffer, pending)
               else
                 let mask_bytes = (if expect_masked then 4 else 0 :: nat) in
                 if len > word_of_nat (size_max - header_size - mask_bytes)
                 then (Read_failure Protocol_error, buffer, pending)
                 else
                   let total_frame_bytes = header_size + mask_bytes + unat len in
                   if available < total_frame_bytes
                   then (Need_input (total_frame_bytes - available), buffer, pending)
                   else
                     let mask_offset = header_size;
                         payload_offset = mask_offset + mask_bytes;
                         payload_size = unat len;
                         payload0 = substr data payload_offset payload_size;
                         payload = (if expect_masked
                                    then decode_masked_websocket_payload payload0 (substr data mask_offset 4)
                                    else payload0);
                         buffer' = (if expect_masked then write_window payload_offset payload buffer else buffer)
                     in (case (if start_kind frame_start = Close then websocket_close_payload_failure payload else None) of
                           Some failure \<Rightarrow> (Read_failure failure, buffer', pending)
                         | None \<Rightarrow>
                             (Read_frame \<lparr>view_kind = start_kind frame_start, view_payload = payload,
                                          view_final = start_final frame_start,
                                          view_compressed = start_compressed frame_start\<rparr>,
                              buffer', total_frame_bytes)))))"

subsection \<open>Reading from the stream\<close>

text \<open>
  The same parse on the readable bytes alone: the result, and how many bytes the frame takes.
  The reader over the buffer is this function on its view, \<open>try_read_scan\<close>.
\<close>

definition scan_frame ::
  "protocol_byte_limit \<Rightarrow> bool \<Rightarrow> bool \<Rightarrow> bytes \<Rightarrow> websocket_frame_read_result \<times> nat" where
  "scan_frame limit deflate masked data =
     (if length data < 2 then (Need_input 0, 0)
      else (case decode_websocket_frame_start (data ! 0) (data ! 1) deflate masked of
        None \<Rightarrow> (Read_failure Protocol_error, 0)
      | Some s \<Rightarrow> (case read_frame_length data of
          Inl None \<Rightarrow> (Need_input 0, 0)
        | Inl (Some e) \<Rightarrow> (Read_failure e, 0)
        | Inr (len, header_size) \<Rightarrow>
            if is_invalid_websocket_control_frame s len then (Read_failure Protocol_error, 0)
            else if websocket_frame_exceeds_message_limit (start_kind s) len limit then (Read_failure Message_too_large, 0)
            else
              let m = (if masked then 4 else 0 :: nat); total = header_size + m + unat len in
              if len > word_of_nat (size_max - header_size - m) then (Read_failure Protocol_error, 0)
              else if length data < total then (Need_input (total - length data), 0)
              else
                let raw = substr data (header_size + m) (unat len);
                    payload = (if masked then decode_masked_websocket_payload raw (substr data header_size 4) else raw)
                in (case (if start_kind s = Close then websocket_close_payload_failure payload else None) of
                      Some e \<Rightarrow> (Read_failure e, 0)
                    | None \<Rightarrow> (Read_frame \<lparr>view_kind = start_kind s, view_payload = payload,
                                 view_final = start_final s, view_compressed = start_compressed s\<rparr>, total)))))"

lemma write_window_view:
  assumes "buf_ok b" "offset + length xs \<le> buf_size b"
  shows "buf_view (write_window offset xs b) = blit (buf_view b) offset xs" "buf_ok (write_window offset xs b)"
    "buf_size (write_window offset xs b) = buf_size b"
proof -
  let ?s = "buf_storage b" and ?i = "buf_begin b" and ?n = "buf_size b"
  have le: "?i + ?n \<le> length ?s" using assms(1) by (auto simp: buf_ok_def buf_size_def buf_capacity_def)
  have pos: "?i + offset + length (map Some xs) \<le> length ?s" using assms(2) le by simp
  show size: "buf_size (write_window offset xs b) = ?n"
    by (simp add: write_window_def buf_size_def)
  have w: "buf_window (write_window offset xs b) = blit (buf_window b) offset (map Some xs)"
  proof (rule nth_equalityI)
    show "length (buf_window (write_window offset xs b)) = length (blit (buf_window b) offset (map Some xs))"
      using assms(2) le pos by (simp add: buf_window_def size) (simp add: write_window_def)
  next
    fix j assume "j < length (buf_window (write_window offset xs b))"
    then have j: "j < ?n" by (simp add: buf_window_def size)
    have lw: "offset + length (map Some xs) \<le> length (buf_window b)" using assms length_window [OF assms(1)] by simp
    have "buf_window (write_window offset xs b) ! j = blit ?s (?i + offset) (map Some xs) ! (?i + j)"
      using j le pos by (simp add: buf_window_def size) (simp add: write_window_def)
    also have "\<dots> = blit (buf_window b) offset (map Some xs) ! j"
      using j le nth_blit [OF pos, of "?i + j"] nth_blit [OF lw, of j] length_window [OF assms(1)]
      by (auto simp: buf_window_def)
    finally show "buf_window (write_window offset xs b) ! j = blit (buf_window b) offset (map Some xs) ! j" .
  qed
  then show "buf_view (write_window offset xs b) = blit (buf_view b) offset xs"
    by (simp add: buf_view_def blit_def take_map drop_map comp_def)
  have "None \<notin> set (blit (buf_window b) offset (map Some xs))"
    using assms(1) by (auto simp: blit_def buf_ok_def dest: in_set_takeD in_set_dropD)
  then show "buf_ok (write_window offset xs b)"
    using assms(1) pos unfolding buf_ok_def w by (simp add: write_window_def buf_capacity_def)
qed

lemma clear_retaining_ok:
  assumes "buf_ok b"
  shows "buf_ok (clear_retaining_small n b)" "buf_view (clear_retaining_small n b) = []"
  using clear_ok [OF assms]
  by (auto simp: clear_retaining_small_def Let_def buf_release_def buf_ok_def buf_clear_def buf_capacity_def
      buf_view_def buf_window_def buf_size_def)

lemma consume_read_view:
  assumes "buf_ok b" "consume_websocket_read_frame b pending = (b', p)"
  shows "buf_ok b'" "buf_view b' = drop pending (buf_view b)" "p = 0"
proof -
  note c = consume_window [OF assms(1), of pending]
  have view: "buf_view (buf_consume pending b) = drop pending (buf_view b)"
    using c(1) by (simp add: buf_view_def drop_map)
  show "buf_ok b'" "buf_view b' = drop pending (buf_view b)" "p = 0"
    using assms c(2) view length_view [OF c(2)] clear_retaining_ok [OF c(2)]
    by (auto simp: consume_websocket_read_frame_def Let_def split: if_splits)
qed

lemma try_read_scan:
  assumes "buf_ok b0" "websocket_try_read_frame b0 pending limit deflate masked = (r, b', p)"
  defines "v \<equiv> drop pending (buf_view b0)"
  shows "r = fst (scan_frame limit deflate masked v)" "buf_ok b'" "p = snd (scan_frame limit deflate masked v)"
    "p \<le> length (buf_view b')" "drop p (buf_view b') = (case r of Read_failure e \<Rightarrow> buf_view b' | _ \<Rightarrow> drop p v)"
    "length (buf_view b') = length v"
proof -
  obtain b p0 where c: "consume_websocket_read_frame b0 pending = (b, p0)" by fastforce
  note cv = consume_read_view [OF assms(1) c, folded v_def]
  have size: "buf_size b = length v" using length_view [OF cv(1)] cv(2) by simp
  have all: "r = fst (scan_frame limit deflate masked v) \<and> buf_ok b' \<and> p = snd (scan_frame limit deflate masked v) \<and>
    p \<le> length (buf_view b') \<and> drop p (buf_view b') = (case r of Read_failure e \<Rightarrow> buf_view b' | _ \<Rightarrow> drop p v) \<and>
    length (buf_view b') = length v"
  proof (cases "b' = b")
    case True
    then show ?thesis
      using assms(2) cv size
      by (auto simp: websocket_try_read_frame_def scan_frame_def c Let_def split: if_splits option.splits sum.splits prod.splits)
  next
    case changed: False
    obtain s where s: "decode_websocket_frame_start (v ! 0) (v ! 1) deflate masked = Some s"
      using assms(2) changed cv size
      by (auto simp: websocket_try_read_frame_def c Let_def split: if_splits option.splits)
    obtain len hs where l: "read_frame_length v = Inr (len, hs)"
      using assms(2) changed cv size s
      by (auto simp: websocket_try_read_frame_def c Let_def split: if_splits option.splits sum.splits prod.splits)
    define payload where "payload = decode_masked_websocket_payload (substr v (hs + 4) (unat len)) (substr v hs 4)"
    have cond: "\<not> length v < 2" "\<not> is_invalid_websocket_control_frame s len"
        "\<not> websocket_frame_exceeds_message_limit (start_kind s) len limit" "masked"
        "\<not> word_of_nat (size_max - hs - 4) < len" "\<not> length v < hs + 4 + unat len"
      using assms(2) changed cv size s l
      by (simp_all add: websocket_try_read_frame_def c Let_def split: if_splits option.splits)
    have b': "b' = write_window (hs + 4) payload b"
      using assms(2) cv size s l cond
      by (auto simp: websocket_try_read_frame_def c Let_def payload_def split: option.splits if_splits)
    have scan: "scan_frame limit deflate masked v = (r, p)"
      using assms(2) cv size s l cond
      by (auto simp: websocket_try_read_frame_def scan_frame_def c Let_def payload_def split: option.splits if_splits)
    have p: "p = (case r of Read_frame f \<Rightarrow> hs + 4 + unat len | _ \<Rightarrow> 0)" "\<And>n. r \<noteq> Need_input n"
      using scan s l cond by (auto simp: scan_frame_def Let_def split: option.splits if_splits)
    have "length (substr v hs 4) = 4" using cond(6) by simp
    then have lp: "length payload = unat len"
      using cond(6) by (simp add: payload_def mask_loops)
    have fits: "hs + 4 + length payload \<le> buf_size b" using lp cond(6) size by simp
    note w = write_window_view [OF cv(1) fits, folded b', unfolded cv(2)]
    have lv: "length (buf_view b') = length v" using w(1) fits size by simp
    have "drop (hs + 4 + unat len) (buf_view b') = drop (hs + 4 + unat len) v"
      unfolding w(1) using lp fits size by (simp add: blit_def min_def)
    then show ?thesis
      using scan w(2) lv p cond(6) by (cases r) auto
  qed
  show "r = fst (scan_frame limit deflate masked v)" "buf_ok b'" "p = snd (scan_frame limit deflate masked v)"
    "p \<le> length (buf_view b')" "drop p (buf_view b') = (case r of Read_failure e \<Rightarrow> buf_view b' | _ \<Rightarrow> drop p v)"
    "length (buf_view b') = length v"
    using all by blast+
qed

subsection \<open>Arrival in pieces\<close>




lemma frame_length_header:
  "2 \<le> length v \<Longrightarrow> read_frame_length v = Inr (len, hs) \<Longrightarrow> hs \<le> length v \<and> 2 \<le> hs \<and> hs \<le> 10"
  by (auto simp: read_frame_length_def Let_def split: if_splits sum.splits)


lemma scan_frame_short: "length v < 2 \<Longrightarrow> scan_frame limit deflate masked v = (Need_input 0, 0)"
  by (simp add: scan_frame_def)





subsection \<open>Encoding and reading\<close>

text \<open>The wire form of a final frame: header, key and payload.\<close>

definition frame_wire :: "websocket_opcode \<Rightarrow> bytes \<Rightarrow> bool \<Rightarrow> bytes option \<Rightarrow> bytes" where
  "frame_wire op payload rsv1 key =
     encode_websocket_frame_header op (length payload) rsv1 (key \<noteq> None) @
     (case key of None \<Rightarrow> payload | Some k \<Rightarrow> k @ mask_bytes k payload)"

lemma small_bits: "n < 128 \<Longrightarrow> bit (word_of_nat n :: byte) j \<Longrightarrow> j < 7"
proof -
  assume n: "n < 128" and b: "bit (word_of_nat n :: byte) j"
  have "take_bit 7 n = n" using n by (simp add: take_bit_nat_eq_self)
  then show "j < 7" using b bit_take_bit_iff [of 7 n j] by (simp add: bit_simps)
qed

lemma bit_0x80: "bit (0x80 :: byte) j \<longleftrightarrow> j = 7" "bit (0x80 :: int) j \<longleftrightarrow> j = 7" "bit (0x80 :: nat) j \<longleftrightarrow> j = 7"
proof -
  have "(0x80 :: byte) = 2 ^ 7" "(0x80 :: int) = 2 ^ 7" "(0x80 :: nat) = 2 ^ 7" by simp_all
  then show "bit (0x80 :: byte) j \<longleftrightarrow> j = 7" "bit (0x80 :: int) j \<longleftrightarrow> j = 7" "bit (0x80 :: nat) j \<longleftrightarrow> j = 7"
    by (simp_all only: bit_exp_iff) auto
qed

lemma bit_0x7F: "bit (0x7F :: byte) j \<longleftrightarrow> j < 7" "bit (0x7F :: int) j \<longleftrightarrow> j < 7"
proof -
  have "(0x7F :: byte) = mask 7" "(0x7F :: int) = mask 7" by (simp_all add: mask_eq_exp_minus_1)
  then show "bit (0x7F :: byte) j \<longleftrightarrow> j < 7" "bit (0x7F :: int) j \<longleftrightarrow> j < 7"
    by (simp_all only: bit_mask_iff) auto
qed

lemma bit_0xFF:
  "bit (0xFF :: u64) j \<longleftrightarrow> j < 8" "bit (0xFF :: byte) j \<longleftrightarrow> j < 8" "bit (0xFF :: nat) j \<longleftrightarrow> j < 8"
  "bit (0xFF :: int) j \<longleftrightarrow> j < 8"
proof -
  have "(0xFF :: u64) = mask 8" "(0xFF :: byte) = mask 8" "(0xFF :: nat) = mask 8" "(0xFF :: int) = mask 8"
    by (simp_all add: mask_eq_exp_minus_1)
  then show "bit (0xFF :: u64) j \<longleftrightarrow> j < 8" "bit (0xFF :: byte) j \<longleftrightarrow> j < 8" "bit (0xFF :: nat) j \<longleftrightarrow> j < 8"
    "bit (0xFF :: int) j \<longleftrightarrow> j < 8"
    by (simp_all only: bit_mask_iff) auto
qed

lemma flag_byte:
  assumes "n < 128"
  shows "((if masked then 0x80 else 0) OR word_of_nat n :: byte) AND 0x80 \<noteq> 0 \<longleftrightarrow> masked"
    "((if masked then 0x80 else 0) OR word_of_nat n :: byte) AND 0x7F = word_of_nat n"
proof -
  define w where "w = (word_of_nat n :: byte)"
  have n7: "\<not> bit w 7" "\<And>j. bit w j \<Longrightarrow> j < 7"
    unfolding w_def using small_bits [OF assms] by blast+
  have "((if masked then 0x80 else 0) OR w) AND 0x80 = (if masked then 0x80 else 0)"
    by (rule bit_word_eqI) (use n7(1) in \<open>auto simp: bit_simps bit_0x80\<close>)
  then show "((if masked then 0x80 else 0) OR word_of_nat n :: byte) AND 0x80 \<noteq> 0 \<longleftrightarrow> masked"
    unfolding w_def by simp
  have "((if masked then 0x80 else 0) OR w) AND 0x7F = w"
    by (rule bit_word_eqI) (use n7(2) in \<open>auto simp: bit_simps bit_0x80 bit_0x7F\<close>)
  then show "((if masked then 0x80 else 0) OR word_of_nat n :: byte) AND 0x7F = word_of_nat n"
    unfolding w_def .
qed

lemma decode_encoded_start:
  assumes "(second AND 0x80 \<noteq> 0) = masked" "rsv1 \<longrightarrow> allow \<and> op \<in> {Op_text, Op_binary}"
  shows "decode_websocket_frame_start (0x80 OR (if rsv1 then 0x40 else 0) OR opcode_code op) second allow masked
    = Some \<lparr>start_kind = opcode_kind op, start_final = True, start_compressed = rsv1\<rparr>"
  using assms
  by (cases op; cases rsv1)
    (auto simp: decode_websocket_frame_start_def opcode_code_def opcode_kind_def kind_of_raw_def
      is_invalid_websocket_raw_opcode_def Let_def byte_le_nat)

lemma join_byte:
  assumes "s + 8 \<le> 64"
  shows "push_bit 8 (drop_bit (s + 8) w) OR ucast (ucast (drop_bit s w AND 0xFF) :: byte) = drop_bit s (w :: u64)"
proof (rule bit_word_eqI)
  fix n assume n: "n < LENGTH(64)"
  show "bit (push_bit 8 (drop_bit (s + 8) w) OR ucast (ucast (drop_bit s w AND 0xFF) :: byte)) n = bit (drop_bit s w) n"
  proof (cases "n < 8")
    case True
    then show ?thesis using n by (simp add: bit_simps bit_0xFF)
  next
    case False
    then have "s + 8 + (n - 8) = s + n" by simp
    then show ?thesis using n False by (simp add: bit_simps bit_0xFF)
  qed
qed

lemma uint64_roundtrip:
  assumes "n < 2 ^ 63"
  shows "read_websocket_uint64 (List.map (\<lambda>shift. ucast (drop_bit shift (word_of_nat n :: u64) AND 0xFF))
      [56, 48, 40, 32, 24, 16, 8, 0] @ rest) = Inr (word_of_nat n)"
proof -
  let ?w = "word_of_nat n :: u64" and ?b = "\<lambda>s. ucast (drop_bit s (word_of_nat n :: u64) AND 0xFF) :: byte"
  have "\<not> bit ?w 63"
  proof -
    have "take_bit 63 n = n" using assms by (simp add: take_bit_nat_eq_self)
    then have "\<not> bit n 63" using bit_take_bit_iff [of 63 n 63] by simp
    then show ?thesis by (simp add: bit_simps)
  qed
  then have "?b 56 AND 0x80 = 0" by (auto intro!: bit_word_eqI simp: bit_simps bit_0x80)
  moreover have "fold (\<lambda>byte value. push_bit 8 value OR ucast byte) (List.map ?b [56, 48, 40, 32, 24, 16, 8, 0]) 0 = ?w"
    using join_byte [of 56 ?w] join_byte [of 48 ?w] join_byte [of 40 ?w] join_byte [of 32 ?w]
      join_byte [of 24 ?w] join_byte [of 16 ?w] join_byte [of 8 ?w] join_byte [of 0 ?w]
    by simp
  ultimately show ?thesis unfolding read_websocket_uint64_def by simp
qed

lemma uint16_roundtrip:
  assumes "n \<le> 0xFFFF"
  shows "ucast (read_websocket_uint16 (ucast (drop_bit 8 (word_of_nat n :: u64) AND 0xFF) #
      ucast ((word_of_nat n :: u64) AND 0xFF) # rest)) = (word_of_nat n :: u64)"
proof (rule bit_word_eqI)
  fix j assume j: "j < LENGTH(64)"
  have "take_bit 16 n = n" using assms by (simp add: take_bit_nat_eq_self)
  then have small: "bit n j \<Longrightarrow> j < 16" using bit_take_bit_iff [of 16 n j] by simp
  show "bit (ucast (read_websocket_uint16 (ucast (drop_bit 8 (word_of_nat n :: u64) AND 0xFF) #
      ucast ((word_of_nat n :: u64) AND 0xFF) # rest)) :: u64) j = bit (word_of_nat n :: u64) j"
  proof (cases "j < 8")
    case True
    then show ?thesis by (simp add: read_websocket_uint16_def bit_simps bit_0xFF)
  next
    case False
    then have "8 + (j - 8) = j" by simp
    then show ?thesis using False small j
      by (cases "j < 16") (auto simp: read_websocket_uint16_def bit_simps bit_0xFF)
  qed
qed

lemma unat_size: "n < 2 ^ 63 \<Longrightarrow> unat (word_of_nat n :: u64) = n"
  by (simp add: unsigned_of_nat take_bit_nat_eq_self)

lemma read_encoded_length:
  assumes n: "n < 2 ^ 63"
  shows "read_frame_length (encode_websocket_frame_header op n rsv1 masked @ rest)
    = Inr (word_of_nat n, length (encode_websocket_frame_header op n rsv1 masked))"
proof -
  note flag = flag_byte [where masked = masked]
  consider "n \<le> 125" | "125 < n" "n \<le> 0xFFFF" | "0xFFFF < n" by linarith
  then show ?thesis
  proof cases
    case 1
    have u: "unat (word_of_nat n :: byte) = n" "unat (word_of_nat n :: u64) = n"
      using 1 by (simp_all add: unsigned_of_nat take_bit_nat_eq_self)
    have casts: "ucast (word_of_nat n :: byte) = (word_of_nat n :: u64)" "ucast (word_of_nat n :: u64) = (word_of_nat n :: byte)"
      using u 1 by (simp_all add: word_unat_eq_iff unsigned_ucast_eq unsigned_of_nat take_bit_nat_eq_self)
    have "(word_of_nat n :: u64) \<noteq> 126" "(word_of_nat n :: u64) \<noteq> 127"
      using u(2) 1 by (auto dest: arg_cong [where f = unat])
    then show ?thesis
      using 1 flag(2) [of n] by (simp add: encode_websocket_frame_header_def Let_def read_frame_length_def casts)
  next
    case 2
    then show ?thesis
      using flag(2) [of 126] uint16_roundtrip [of n rest]
      by (simp add: encode_websocket_frame_header_def Let_def read_frame_length_def)
  next
    case 3
    then show ?thesis
      using flag(2) [of 127] uint64_roundtrip [OF n, of rest]
      by (simp add: encode_websocket_frame_header_def Let_def read_frame_length_def)
  qed
qed

lemma length_header:
  "length (encode_websocket_frame_header op n rsv1 masked) = (if n \<le> 125 then 2 else if n \<le> 0xFFFF then 4 else 10)"
  by (simp add: encode_websocket_frame_header_def Let_def)

text \<open>The sizes an encoder may send: control frames stay within 125 bytes, data frames
  within the reader's limit, and the whole frame within \<open>size_max\<close>.\<close>

definition sendable :: "websocket_opcode \<Rightarrow> bytes \<Rightarrow> bool \<Rightarrow> bool" where
  "sendable op payload rsv1 \<longleftrightarrow>
     length payload < 2 ^ 63 \<and>
     (rsv1 \<longrightarrow> op \<in> {Op_text, Op_binary}) \<and>
     (op \<in> {Op_close, Op_ping, Op_pong} \<longrightarrow> length payload \<le> 125) \<and>
     (op = Op_close \<longrightarrow> websocket_close_payload_failure payload = None)"

definition within_limit :: "protocol_byte_limit \<Rightarrow> websocket_opcode \<Rightarrow> bytes \<Rightarrow> bool" where
  "within_limit limit op payload \<longleftrightarrow> op \<in> {Op_close, Op_ping, Op_pong} \<or> \<not> limit_exceeds limit (length payload)"

lemma header_start:
  assumes "rsv1 \<longrightarrow> allow \<and> op \<in> {Op_text, Op_binary}"
  shows "decode_websocket_frame_start ((encode_websocket_frame_header op n rsv1 masked @ rest) ! 0)
      ((encode_websocket_frame_header op n rsv1 masked @ rest) ! 1) allow masked
    = Some \<lparr>start_kind = opcode_kind op, start_final = True, start_compressed = rsv1\<rparr>"
proof -
  obtain m where m: "m < 128" "(encode_websocket_frame_header op n rsv1 masked @ rest) ! 1
      = (if masked then 0x80 else 0) OR word_of_nat m"
  proof (cases "n \<le> 125")
    case True
    moreover have "ucast (word_of_nat n :: u64) = (word_of_nat n :: byte)"
      using True by (simp add: word_unat_eq_iff unsigned_ucast_eq unsigned_of_nat take_bit_nat_eq_self)
    ultimately show ?thesis by (intro that [of n]) (simp_all add: encode_websocket_frame_header_def Let_def)
  next
    case False
    then show ?thesis
      by (cases "n \<le> 0xFFFF")
        (auto intro: that [of 126] that [of 127] simp: encode_websocket_frame_header_def Let_def)
  qed
  have first: "(encode_websocket_frame_header op n rsv1 masked @ rest) ! 0 = 0x80 OR (if rsv1 then 0x40 else 0) OR opcode_code op"
    by (simp add: encode_websocket_frame_header_def Let_def)
  show ?thesis
    unfolding first m(2) by (rule decode_encoded_start) (use flag_byte(1) [OF m(1), of masked] assms in auto)
qed

lemma scan_frame_complete:
  assumes "2 \<le> length v" "decode_websocket_frame_start (v ! 0) (v ! 1) deflate m = Some s"
    and "read_frame_length v = Inr (len, hs)" "\<not> is_invalid_websocket_control_frame s len"
    and "\<not> websocket_frame_exceeds_message_limit (start_kind s) len limit"
    and "\<not> word_of_nat (size_max - hs - (if m then 4 else 0)) < len"
    and "hs + (if m then 4 else 0) + unat len \<le> length v"
    and "(if m then decode_masked_websocket_payload (substr v (hs + (if m then 4 else 0)) (unat len)) (substr v hs 4)
      else substr v (hs + (if m then 4 else 0)) (unat len)) = payload"
    and "start_kind s = Close \<longrightarrow> websocket_close_payload_failure payload = None"
  shows "scan_frame limit deflate m v = (Read_frame \<lparr>view_kind = start_kind s, view_payload = payload,
      view_final = start_final s, view_compressed = start_compressed s\<rparr>, hs + (if m then 4 else 0) + unat len)"
  using assms by (cases m) (auto simp: scan_frame_def Let_def split: option.splits)

lemma scan_frame_wire:
  assumes s: "sendable op payload rsv1" and lim: "within_limit limit op payload" and r: "rsv1 \<longrightarrow> allow"
    and key: "\<And>k. key = Some k \<Longrightarrow> length k = 4"
  shows "scan_frame limit allow (key \<noteq> None) (frame_wire op payload rsv1 key @ rest)
    = (Read_frame \<lparr>view_kind = opcode_kind op, view_payload = payload, view_final = True, view_compressed = rsv1\<rparr>,
       length (frame_wire op payload rsv1 key))"
proof -
  let ?n = "length payload" and ?m = "key \<noteq> None"
  let ?h = "encode_websocket_frame_header op ?n rsv1 ?m"
  define body where "body = (case key of None \<Rightarrow> payload | Some k \<Rightarrow> k @ mask_bytes k payload)"
  have n63: "?n < 2 ^ 63" using s by (simp add: sendable_def)
  have w: "frame_wire op payload rsv1 key @ rest = ?h @ (body @ rest)" by (simp add: frame_wire_def body_def)
  have u: "unat (word_of_nat ?n :: u64) = ?n" by (rule unat_size [OF n63])
  have lh: "2 \<le> length ?h" "length ?h \<le> 10" by (simp_all add: length_header)
  have lb: "length body = (if ?m then 4 else 0) + ?n" using key by (auto simp: body_def split: option.splits)
  have start: "decode_websocket_frame_start ((?h @ (body @ rest)) ! 0) ((?h @ (body @ rest)) ! 1) allow ?m
      = Some \<lparr>start_kind = opcode_kind op, start_final = True, start_compressed = rsv1\<rparr>"
    by (rule header_start) (use s r in \<open>auto simp: sendable_def\<close>)
  have len: "read_frame_length (?h @ (body @ rest)) = Inr (word_of_nat ?n, length ?h)"
    by (rule read_encoded_length [OF n63])
  have c1: "\<not> is_invalid_websocket_control_frame
      \<lparr>start_kind = opcode_kind op, start_final = True, start_compressed = rsv1\<rparr> (word_of_nat ?n)"
    using s u by (cases op)
      (auto simp: is_invalid_websocket_control_frame_def sendable_def opcode_kind_def word_less_nat_alt
        is_websocket_control_frame_kind_def kind_code_def byte_le_nat)
  have c2: "\<not> websocket_frame_exceeds_message_limit (opcode_kind op) (word_of_nat ?n) limit"
    using lim u n63 unfolding websocket_frame_exceeds_message_limit_def websocket_frame_length_exceeds_limit_def
    by (cases op) (auto simp: within_limit_def opcode_kind_def word_less_nat_alt
        is_websocket_control_frame_kind_def kind_code_def byte_le_nat)
  have c3: "\<not> word_of_nat (size_max - length ?h - (if ?m then 4 else 0)) < (word_of_nat ?n :: u64)"
  proof -
    have "unat (word_of_nat (size_max - length ?h - (if ?m then 4 else 0)) :: u64)
        = size_max - length ?h - (if ?m then 4 else 0)"
      by (simp add: unsigned_of_nat take_bit_nat_eq_self)
    moreover have "?n \<le> size_max - length ?h - (if ?m then 4 else 0)" 
    proof -
      have "(if ?m then 4 else 0 :: nat) \<le> 4" "?n < 9223372036854775808" using n63 by simp_all
      then show ?thesis using lh(2) by linarith
    qed
    ultimately show ?thesis using u unfolding word_less_nat_alt by (simp only: not_less)
  qed
  have payload: "(if ?m then decode_masked_websocket_payload
        (substr (?h @ body @ rest) (length ?h + (if ?m then 4 else 0)) ?n) (substr (?h @ body @ rest) (length ?h) 4)
      else substr (?h @ body @ rest) (length ?h + (if ?m then 4 else 0)) ?n) = payload"
  proof (cases key)
    case None
    then show ?thesis by (simp add: body_def substr_def)
  next
    case (Some k)
    then have "length k = 4" by (rule key)
    then show ?thesis
      using Some by (simp add: body_def substr_def mask_loops mask_bytes_involution)
  qed
  have close: "opcode_kind op = Close \<longrightarrow> websocket_close_payload_failure payload = None"
    using s by (cases op) (auto simp: sendable_def opcode_kind_def)
  have total: "length (frame_wire op payload rsv1 key) = length ?h + (if ?m then 4 else 0) + ?n"
    using lb by (simp add: frame_wire_def body_def)
  define s where "s = \<lparr>start_kind = opcode_kind op, start_final = True, start_compressed = rsv1\<rparr>"
  have payload': "(if ?m then decode_masked_websocket_payload
        (substr (?h @ body @ rest) (length ?h + (if ?m then 4 else 0)) (unat (word_of_nat ?n :: u64)))
        (substr (?h @ body @ rest) (length ?h) 4)
      else substr (?h @ body @ rest) (length ?h + (if ?m then 4 else 0)) (unat (word_of_nat ?n :: u64))) = payload"
    unfolding u by (rule payload)
  have fits: "length ?h + (if ?m then 4 else 0) + unat (word_of_nat ?n :: u64) \<le> length (?h @ (body @ rest))"
    using lb u by simp
  have two: "2 \<le> length (?h @ (body @ rest))" using lh by simp
  have "start_kind s = opcode_kind op" "start_final s" "start_compressed s = rsv1" by (simp_all add: s_def)
  then show ?thesis
    unfolding total w
    using scan_frame_complete [OF two start [folded s_def] len c1 [folded s_def] _ c3 fits payload']
      c2 close u by simp
qed

subsection \<open>Properties\<close>

text \<open>
  Property C29. A frame written by the encoder, masked (client to server) or not (server to
  client), is read back by the peer's reader as exactly one final frame with its opcode, payload
  and compression bit, whatever bytes follow it; the reader keeps its bytes counted until the
  next read and leaves those behind it untouched.
\<close>

theorem websocket_frame_roundtrip:
  assumes "sendable op payload rsv1" "within_limit limit op payload" "rsv1 \<longrightarrow> allow"
    and "key = None \<or> (\<exists>k. key = Some k \<and> length k = 4)"
    and "buf_ok b" "buf_view b = frame_wire op payload rsv1 key @ rest"
  shows "\<exists>b'. websocket_try_read_frame b 0 limit allow (key \<noteq> None)
      = (Read_frame \<lparr>view_kind = opcode_kind op, view_payload = payload, view_final = True, view_compressed = rsv1\<rparr>,
         b', length (frame_wire op payload rsv1 key)) \<and>
    buf_ok b' \<and> drop (length (frame_wire op payload rsv1 key)) (buf_view b') = rest"
proof -
  obtain r b' p where read: "websocket_try_read_frame b 0 limit allow (key \<noteq> None) = (r, b', p)"
    by (metis prod_cases3)
  have k: "\<And>k. key = Some k \<Longrightarrow> length k = 4" using assms(4) by auto
  note t = try_read_scan [OF assms(5) read]
  have wire: "scan_frame limit allow (key \<noteq> None) (frame_wire op payload rsv1 key @ rest)
    = (Read_frame \<lparr>view_kind = opcode_kind op, view_payload = payload, view_final = True, view_compressed = rsv1\<rparr>,
       length (frame_wire op payload rsv1 key))"
    by (rule scan_frame_wire [OF assms(1-3)]) (rule k)
  show ?thesis
    using t wire assms(6) read by (intro exI [of _ b']) simp
qed

lemma websocket_frame_roundtrip_witness:
  "\<exists>b'. websocket_try_read_frame
      \<lparr>buf_storage = map Some [0x81, 0x82, 1, 2, 3, 4, 0x49, 0x6B, 0x99], buf_begin = 0, buf_end = 9\<rparr> 0 (Some 10) False True
    = (Read_frame \<lparr>view_kind = Text, view_payload = [0x48, 0x69], view_final = True, view_compressed = False\<rparr>, b', 8)"
proof -
  let ?b = "\<lparr>buf_storage = map Some [0x81, 0x82, 1, 2, 3, 4, 0x49, 0x6B, 0x99 :: byte], buf_begin = 0, buf_end = 9\<rparr>"
  have wire: "frame_wire Op_text [0x48, 0x69] False (Some [1, 2, 3, 4]) = [0x81, 0x82, 1, 2, 3, 4, 0x49, 0x6B]"
    by (simp add: frame_wire_def encode_websocket_frame_header_def opcode_code_def mask_bytes_def upt_rec Let_def)
  have "buf_ok ?b" "buf_view ?b = frame_wire Op_text [0x48, 0x69] False (Some [1, 2, 3, 4]) @ [0x99]"
    unfolding wire
    by (simp_all add: buf_ok_def buf_view_def buf_window_def buf_size_def buf_capacity_def max_io_buffer_bytes_def)
  from websocket_frame_roundtrip [of Op_text "[0x48, 0x69]" False "Some 10" False "Some [1, 2, 3, 4]", OF _ _ _ _ this]
  show ?thesis
    unfolding wire by (auto simp: sendable_def within_limit_def limit_exceeds_def opcode_kind_def)
qed

lemma read_frame_bounds:
  assumes "buf_ok b" "websocket_try_read_frame b pending limit deflate masked = (Read_frame f, b', p)"
  shows "(if is_websocket_control_frame_kind (view_kind f)
      then view_final f \<and> \<not> view_compressed f \<and> length (view_payload f) \<le> 125
      else \<not> limit_exceeds limit (length (view_payload f)) \<and> (view_compressed f \<longrightarrow> deflate \<and> view_kind f \<noteq> Continuation)) \<and>
    (view_kind f = Close \<longrightarrow> websocket_close_payload_failure (view_payload f) = None) \<and>
    length (view_payload f) + 2 \<le> p \<and> p \<le> buf_size b'"
proof -
  let ?v = "drop pending (buf_view b)"
  note t = try_read_scan [OF assms]
  have scan: "scan_frame limit deflate masked ?v = (Read_frame f, p)" using t(1,3) by simp
  have l2: "2 \<le> length ?v" using scan scan_frame_short [of ?v limit deflate masked] by (cases "2 \<le> length ?v") auto
  obtain s where s: "decode_websocket_frame_start (?v ! 0) (?v ! 1) deflate masked = Some s"
    using scan l2 unfolding scan_frame_def by (auto split: option.splits)
  obtain len hs where l: "read_frame_length ?v = Inr (len, hs)"
    using scan l2 s unfolding scan_frame_def by (auto split: option.splits sum.splits)
  define m where "m = (if masked then 4 else 0 :: nat)"
  have c: "\<not> is_invalid_websocket_control_frame s len"
      "\<not> websocket_frame_exceeds_message_limit (start_kind s) len limit" "hs + m + unat len \<le> length ?v"
      "view_kind f = start_kind s" "view_final f = start_final s" "view_compressed f = start_compressed s"
      "length (view_payload f) = unat len" "p = hs + m + unat len"
      "start_kind s = Close \<longrightarrow> websocket_close_payload_failure (view_payload f) = None"
    using scan l2 s l unfolding scan_frame_def m_def
    by (auto simp: Let_def mask_loops split: if_splits option.splits)
  have kind: "start_compressed s \<longrightarrow> deflate \<and> start_kind s \<in> {Text, Binary}"
    using s by (auto simp: decode_websocket_frame_start_def Let_def kind_of_raw_def
        is_invalid_websocket_raw_opcode_def byte_le_nat byte_eq_nat split: if_splits)
  have small: "unat len \<le> 125" "start_final s" if "is_websocket_control_frame_kind (start_kind s)"
    using c(1) that by (auto simp: is_invalid_websocket_control_frame_def word_less_nat_alt not_less)
  have "\<not> limit_exceeds limit (unat len)" if "\<not> is_websocket_control_frame_kind (start_kind s)"
    using c(2) that by (auto simp: websocket_frame_exceeds_message_limit_def websocket_frame_length_exceeds_limit_def split: if_splits)
  moreover have "\<not> start_compressed s" if "is_websocket_control_frame_kind (start_kind s)"
    using kind that by (auto simp: is_websocket_control_frame_kind_def kind_code_def byte_le_nat)
  moreover have "p \<le> buf_size b'" using t(4) length_view [OF t(2)] by simp
  ultimately show ?thesis
    using c kind small frame_length_header [OF l2 l] by auto
qed

text \<open>
  Whatever bytes the peer sends, a frame the reader hands over obeys the protocol's
  bounds: a control frame is final, uncompressed and at most 125 bytes, a Close frame's payload is
  empty or a registered status code with a UTF-8 reason, a data frame is within the message limit,
  and a compressed one only appears where the extension was negotiated; the reader counts at least
  the two header bytes and never more than it holds.
\<close>

theorem websocket_read_sound:
  assumes "buf_ok b" "websocket_try_read_frame b pending limit deflate masked = (Read_frame f, b', p)"
  shows "(if is_websocket_control_frame_kind (view_kind f)
      then view_final f \<and> \<not> view_compressed f \<and> length (view_payload f) \<le> 125
      else \<not> limit_exceeds limit (length (view_payload f)) \<and> (view_compressed f \<longrightarrow> deflate \<and> view_kind f \<noteq> Continuation)) \<and>
    (view_kind f = Close \<longrightarrow> websocket_close_payload_failure (view_payload f) = None) \<and>
    length (view_payload f) + 2 \<le> p \<and> p \<le> buf_size b'"
  by (rule read_frame_bounds [OF assms])

lemma websocket_read_sound_witness:
  "let f = \<lparr>view_kind = Ping, view_payload = [7], view_final = True, view_compressed = False\<rparr> in
   view_final f \<and> length (view_payload f) \<le> 125"
proof -
  let ?b = "\<lparr>buf_storage = map Some [0x89, 0x01, 7 :: byte], buf_begin = 0, buf_end = 3\<rparr>"
  let ?f = "\<lparr>view_kind = Ping, view_payload = [7], view_final = True, view_compressed = False\<rparr>"
  have "buf_ok ?b"
    by (simp add: buf_ok_def buf_view_def buf_window_def buf_size_def buf_capacity_def max_io_buffer_bytes_def)
  moreover have "\<exists>b' p. websocket_try_read_frame ?b 0 None False False = (Read_frame ?f, b', p)"
    by (simp add: websocket_try_read_frame_def consume_websocket_read_frame_def buf_view_def buf_window_def
        buf_size_def decode_websocket_frame_start_def is_invalid_websocket_raw_opcode_def byte_le_nat
        read_frame_length_def Let_def is_invalid_websocket_control_frame_def kind_of_raw_def
        is_websocket_control_frame_kind_def kind_code_def websocket_frame_exceeds_message_limit_def substr_def)
  ultimately have "is_websocket_control_frame_kind (view_kind ?f) \<Longrightarrow> view_final ?f \<and> length (view_payload ?f) \<le> 125"
    using websocket_read_sound [of ?b 0 None False False ?f] by (auto simp del: websocket_frame_view.simps)
  then show ?thesis by (simp add: is_websocket_control_frame_kind_def kind_code_def byte_le_nat)
qed

lemma close_code_read: "read_websocket_uint16 (websocket_encoded_close_payload code reason) = code"
proof (rule bit_word_eqI)
  fix j assume j: "j < LENGTH(16)"
  show "bit (read_websocket_uint16 (websocket_encoded_close_payload code reason)) j = bit code j"
  proof (cases "j < 8")
    case True
    then show ?thesis
      by (simp add: read_websocket_uint16_def websocket_encoded_close_payload_def bit_simps bit_0xFF)
  next
    case False
    then have "8 + (j - 8) = j" "j - 8 < 8" using j by auto
    then show ?thesis using False j
      by (simp add: read_websocket_uint16_def websocket_encoded_close_payload_def bit_simps bit_0xFF)
  qed
qed

text \<open>
  Every Close payload the encoder produces for a valid status code is accepted by the
  peer's check and decodes to the same code and reason; it fits a control frame. The encoder
  refuses exactly the reasons that are longer than 123 bytes or not UTF-8.
\<close>

theorem close_payload_roundtrip:
  assumes "close_code_valid code"
  shows "if length reason \<le> 123 \<and> is_valid_utf8 reason
    then \<exists>p. encode_websocket_close_payload code reason = Inr p \<and> length p \<le> 125 \<and>
      websocket_close_payload_failure p = None \<and> read_websocket_uint16 p = code \<and> drop 2 p = reason
    else isl (encode_websocket_close_payload code reason)"
  using assms close_code_read [of code reason]
  by (simp add: encode_websocket_close_payload_def websocket_close_payload_failure_def)
    (simp add: websocket_encoded_close_payload_def)

lemma close_payload_roundtrip_witness:
  "\<exists>p. encode_websocket_close_payload 1000 [0x6F, 0x6B] = Inr p \<and> websocket_close_payload_failure p = None"
  using close_payload_roundtrip [of 1000 "[0x6F, 0x6B]"]
  by (auto simp: close_code_valid_def is_valid_utf8_def valid_utf8_from.simps split: if_splits)

end
