(* ===== verification/Websocket_Assembler.thy ===== *)
theory Websocket_Assembler
  imports Websocket_Frame
begin

text \<open>
  Message reassembly (\<open>http_websocket_inbound_assembler.h\<close>): control-frame dispatch,
  fragments, the message limit across fragments and UTF-8 validation of text.
\<close>

datatype websocket_inbound_content_encoding = Identity | Per_message_deflate

datatype websocket_inbound_result =
    Inbound_continue
  | Inbound_control websocket_opcode bytes
  | Inbound_message websocket_opcode bytes websocket_inbound_content_encoding
  | Inbound_failure websocket_protocol_failure

datatype websocket_inbound_state = Idle | Fragmented websocket_opcode websocket_inbound_content_encoding

record websocket_inbound_assembler =
  asm_message :: bytes
  asm_state :: websocket_inbound_state

definition initial_assembler :: websocket_inbound_assembler where
  "initial_assembler = \<lparr>asm_message = [], asm_state = Idle\<rparr>"

text \<open>\<open>static_cast<websocket_opcode>(frame.kind())\<close>; a continuation is never cast.\<close>

definition kind_opcode :: "websocket_frame_kind \<Rightarrow> websocket_opcode" where
  "kind_opcode k =
     (case k of Text \<Rightarrow> Op_text | Binary \<Rightarrow> Op_binary | Close \<Rightarrow> Op_close | Ping \<Rightarrow> Op_ping | Pong \<Rightarrow> Op_pong
      | Continuation \<Rightarrow> Op_text)"

definition release_completed :: "websocket_inbound_assembler \<Rightarrow> websocket_inbound_assembler" where
  "release_completed a = (case asm_state a of Idle \<Rightarrow> a\<lparr>asm_message := []\<rparr> | Fragmented op enc \<Rightarrow> a)"

definition assembler_accept ::
  "websocket_frame_view \<Rightarrow> protocol_byte_limit \<Rightarrow> websocket_inbound_assembler \<Rightarrow>
     websocket_inbound_result \<times> websocket_inbound_assembler" where
  "assembler_accept frame limit a =
     (if is_websocket_control_frame_kind (view_kind frame)
      then (Inbound_control (kind_opcode (view_kind frame)) (view_payload frame), a)
      else if view_kind frame = Continuation
      then (case asm_state a of
              Idle \<Rightarrow> (Inbound_failure Protocol_error, a)
            | Fragmented opcode encoding \<Rightarrow>
                if addition_exceeds limit (length (asm_message a)) (length (view_payload frame))
                then (Inbound_failure Message_too_large, a)
                else
                  let a1 = a\<lparr>asm_message := asm_message a @ view_payload frame\<rparr> in
                  if \<not> view_final frame then (Inbound_continue, a1)
                  else
                    let a2 = a1\<lparr>asm_state := Idle\<rparr> in
                    if encoding = Per_message_deflate
                    then (Inbound_message opcode (asm_message a2) Per_message_deflate, a2)
                    else if opcode = Op_text \<and> \<not> is_valid_utf8 (asm_message a2)
                    then (Inbound_failure Invalid_payload_data, a2)
                    else (Inbound_message opcode (asm_message a2) Identity, a2))
      else if view_kind frame = Text \<or> view_kind frame = Binary
      then (case asm_state a of
              Fragmented opcode encoding \<Rightarrow> (Inbound_failure Protocol_error, a)
            | Idle \<Rightarrow>
                let opcode = kind_opcode (view_kind frame) in
                if view_final frame
                then (if view_compressed frame
                      then (Inbound_message opcode (view_payload frame) Per_message_deflate, a)
                      else if opcode = Op_text \<and> \<not> is_valid_utf8 (view_payload frame)
                      then (Inbound_failure Invalid_payload_data, a)
                      else (Inbound_message opcode (view_payload frame) Identity, a))
                else (Inbound_continue,
                      a\<lparr>asm_message := view_payload frame,
                         asm_state := Fragmented opcode (if view_compressed frame then Per_message_deflate else Identity)\<rparr>))
      else (Inbound_continue, a))"

subsection \<open>Frames in sequence\<close>

fun accept_frames ::
  "protocol_byte_limit \<Rightarrow> websocket_frame_view list \<Rightarrow> websocket_inbound_assembler \<Rightarrow>
     websocket_inbound_result list \<times> websocket_inbound_assembler" where
  "accept_frames limit [] a = ([], a)"
| "accept_frames limit (f # fs) a =
     (case assembler_accept f limit a of
        (r, a1) \<Rightarrow> (case accept_frames limit fs a1 of (rs, a2) \<Rightarrow> (r # rs, a2)))"

text \<open>
  A message cut into fragments with control frames between them: \<open>Inl\<close> is a fragment,
  \<open>Inr\<close> a control frame. The first fragment carries the opcode and the compression bit,
  the last one the FIN bit.
\<close>

fun is_fragment :: "bytes + websocket_frame_view \<Rightarrow> bool" where
  "is_fragment (Inl b) = True"
| "is_fragment (Inr f) = False"

fun fragment_frames ::
  "websocket_opcode \<Rightarrow> websocket_inbound_content_encoding \<Rightarrow> bool \<Rightarrow> (bytes + websocket_frame_view) list \<Rightarrow>
     websocket_frame_view list" where
  "fragment_frames op enc started [] = []"
| "fragment_frames op enc started (Inr f # ps) = f # fragment_frames op enc started ps"
| "fragment_frames op enc started (Inl b # ps) =
     \<lparr>view_kind = (if started then Continuation else opcode_kind op), view_payload = b,
      view_final = list_all (\<lambda>p. \<not> is_fragment p) ps,
      view_compressed = (\<not> started \<and> enc = Per_message_deflate)\<rparr> # fragment_frames op enc True ps"

fun fragments_of :: "(bytes + websocket_frame_view) list \<Rightarrow> bytes" where
  "fragments_of [] = []"
| "fragments_of (Inl b # ps) = b @ fragments_of ps"
| "fragments_of (Inr f # ps) = fragments_of ps"

text \<open>What the pieces must come out as: controls and continues in place, the message at its last fragment.\<close>

fun fragment_results ::
  "websocket_opcode \<Rightarrow> websocket_inbound_content_encoding \<Rightarrow> bytes \<Rightarrow> (bytes + websocket_frame_view) list \<Rightarrow>
     websocket_inbound_result list" where
  "fragment_results op enc msg [] = []"
| "fragment_results op enc msg (Inr f # ps) =
     Inbound_control (kind_opcode (view_kind f)) (view_payload f) # fragment_results op enc msg ps"
| "fragment_results op enc msg (Inl b # ps) =
     (if list_all (\<lambda>p. \<not> is_fragment p) ps then Inbound_message op msg enc else Inbound_continue) #
     fragment_results op enc msg ps"

definition control_pieces :: "(bytes + websocket_frame_view) list \<Rightarrow> bool" where
  "control_pieces ps \<longleftrightarrow> list_all (\<lambda>p. case p of Inl b \<Rightarrow> True | Inr f \<Rightarrow> is_websocket_control_frame_kind (view_kind f)) ps"

lemma control_kinds [simp]:
  "\<not> is_websocket_control_frame_kind Continuation" "\<not> is_websocket_control_frame_kind Text"
  "\<not> is_websocket_control_frame_kind Binary" "is_websocket_control_frame_kind Close"
  "is_websocket_control_frame_kind Ping" "is_websocket_control_frame_kind Pong"
  by (simp_all add: is_websocket_control_frame_kind_def kind_code_def byte_le_nat)

lemma accept_control:
  "is_websocket_control_frame_kind (view_kind f) \<Longrightarrow>
     assembler_accept f limit a = (Inbound_control (kind_opcode (view_kind f)) (view_payload f), a)"
  by (simp add: assembler_accept_def)

lemma accept_controls:
  "control_pieces ps \<Longrightarrow> list_all (\<lambda>p. \<not> is_fragment p) ps \<Longrightarrow>
     accept_frames limit (fragment_frames op enc started ps) a = (fragment_results op enc msg ps, a)"
proof (induction ps)
  case Nil
  then show ?case by simp
next
  case (Cons p ps)
  then show ?case by (cases p) (auto simp: control_pieces_def accept_control)
qed

text \<open>The fragments behind the first one.\<close>

lemma accept_continuations:
  assumes enc: "enc = Identity \<longrightarrow> op = Op_text \<longrightarrow> is_valid_utf8 msg"
  shows "control_pieces ps \<Longrightarrow> \<not> list_all (\<lambda>p. \<not> is_fragment p) ps \<Longrightarrow>
    asm_state a = Fragmented op enc \<Longrightarrow> asm_message a @ fragments_of ps = msg \<Longrightarrow>
    length msg \<le> read_ceiling limit \<Longrightarrow> read_ceiling limit \<le> size_max \<Longrightarrow>
    \<exists>a'. accept_frames limit (fragment_frames op enc True ps) a = (fragment_results op enc msg ps, a') \<and>
      asm_state a' = Idle"
proof (induction ps arbitrary: a)
  case Nil
  then show ?case by simp
next
  case (Cons p ps)
  show ?case
  proof (cases p)
    case (Inr f)
    have "\<exists>a'. accept_frames limit (fragment_frames op enc True ps) a = (fragment_results op enc msg ps, a') \<and> asm_state a' = Idle"
      by (rule Cons.IH) (use Cons.prems Inr in \<open>simp_all add: control_pieces_def\<close>)
    then show ?thesis using Inr Cons.prems(1) by (auto simp: control_pieces_def accept_control)
  next
    case (Inl b)
    have ctl: "control_pieces ps" using Cons.prems(1) by (simp add: control_pieces_def)
    have len: "length (asm_message a) + length b + length (fragments_of ps) = length msg"
      using arg_cong [OF Cons.prems(4), of length] Inl by simp
    have fits: "\<not> addition_exceeds limit (length (asm_message a)) (length b)"
      using addition_exceeds_iff [of "length (asm_message a)" limit "length b"] Cons.prems(5,6) len by linarith
    show ?thesis
    proof (cases "list_all (\<lambda>p. \<not> is_fragment p) ps")
      case True
      define a2 where "a2 = a\<lparr>asm_message := asm_message a @ b, asm_state := Idle\<rparr>"
      have none: "fragments_of qs = []" if "list_all (\<lambda>p. \<not> is_fragment p) qs" for qs
        using that
      proof (induction qs)
        case (Cons q qs)
        then show ?case by (cases q) auto
      qed simp
      have msg: "asm_message a @ b = msg" using none [OF True] Cons.prems(4) Inl by simp
      have "accept_frames limit (fragment_frames op enc True ps) a2 = (fragment_results op enc msg ps, a2)"
        by (rule accept_controls [OF ctl True])
      then show ?thesis
        using Inl True fits Cons.prems(3) msg enc
        by (cases enc) (auto simp: assembler_accept_def Let_def a2_def)
    next
      case False
      define a1 where "a1 = a\<lparr>asm_message := asm_message a @ b\<rparr>"
      have "\<exists>a'. accept_frames limit (fragment_frames op enc True ps) a1 = (fragment_results op enc msg ps, a') \<and> asm_state a' = Idle"
        by (rule Cons.IH [OF ctl False]) (use Cons.prems Inl in \<open>simp_all add: a1_def\<close>)
      then show ?thesis
        using Inl False fits Cons.prems(3)
        by (auto simp: assembler_accept_def Let_def a1_def)
    qed
  qed
qed

lemma accept_fragments:
  assumes "enc = Identity \<longrightarrow> op = Op_text \<longrightarrow> is_valid_utf8 msg" and "op \<in> {Op_text, Op_binary}"
  shows "control_pieces ps \<Longrightarrow> \<not> list_all (\<lambda>p. \<not> is_fragment p) ps \<Longrightarrow> asm_state a = Idle \<Longrightarrow> fragments_of ps = msg \<Longrightarrow>
    length msg \<le> read_ceiling limit \<Longrightarrow> read_ceiling limit \<le> size_max \<Longrightarrow>
    \<exists>a'. accept_frames limit (fragment_frames op enc False ps) a = (fragment_results op enc msg ps, a') \<and>
      asm_state a' = Idle"
proof (induction ps arbitrary: a)
  case Nil
  then show ?case by simp
next
  case (Cons p ps)
  have ctl: "control_pieces ps" using Cons.prems(1) by (simp add: control_pieces_def)
  show ?case
  proof (cases p)
    case (Inr f)
    have "\<exists>a'. accept_frames limit (fragment_frames op enc False ps) a = (fragment_results op enc msg ps, a') \<and> asm_state a' = Idle"
      by (rule Cons.IH) (use Cons.prems Inr in \<open>simp_all add: control_pieces_def\<close>)
    then show ?thesis using Inr Cons.prems(1) by (auto simp: control_pieces_def accept_control)
  next
    case (Inl b)
    have kind: "opcode_kind op \<in> {Text, Binary}" "kind_opcode (opcode_kind op) = op"
      using assms(2) by (auto simp: opcode_kind_def kind_opcode_def)
    show ?thesis
    proof (cases "list_all (\<lambda>p. \<not> is_fragment p) ps")
      case True
      have none: "fragments_of qs = []" if "list_all (\<lambda>p. \<not> is_fragment p) qs" for qs
        using that
      proof (induction qs)
        case (Cons q qs)
        then show ?case by (cases q) auto
      qed simp
      have msg: "b = msg" using none [OF True] Cons.prems(4) Inl by simp
      have "accept_frames limit (fragment_frames op enc True ps) a = (fragment_results op enc msg ps, a)"
        by (rule accept_controls [OF ctl True])
      then show ?thesis
        using Inl True Cons.prems(3) msg assms(1) kind
        by (cases enc) (auto simp: assembler_accept_def Let_def)
    next
      case False
      define a1 where "a1 = a\<lparr>asm_message := b, asm_state := Fragmented op enc\<rparr>"
      have "\<exists>a'. accept_frames limit (fragment_frames op enc True ps) a1 = (fragment_results op enc msg ps, a') \<and> asm_state a' = Idle"
        by (rule accept_continuations [OF assms(1) ctl False]) (use Cons.prems Inl in \<open>simp_all add: a1_def\<close>)
      then show ?thesis
        using Inl False Cons.prems(3) kind
        by (cases enc) (auto simp: assembler_accept_def Let_def a1_def)
    qed
  qed
qed

text \<open>The state between frames: the message so far is within the limit.\<close>

definition assembler_ok :: "protocol_byte_limit \<Rightarrow> websocket_inbound_assembler \<Rightarrow> bool" where
  "assembler_ok limit a \<longleftrightarrow>
     (case asm_state a of Idle \<Rightarrow> True
      | Fragmented op enc \<Rightarrow> op \<in> {Op_text, Op_binary} \<and> length (asm_message a) \<le> read_ceiling limit)"

definition inbound_ok :: "protocol_byte_limit \<Rightarrow> websocket_inbound_result \<Rightarrow> bool" where
  "inbound_ok limit r \<longleftrightarrow>
     (case r of
        Inbound_message op msg enc \<Rightarrow>
          op \<in> {Op_text, Op_binary} \<and> length msg \<le> read_ceiling limit \<and>
          (op = Op_text \<longrightarrow> enc = Identity \<longrightarrow> is_valid_utf8 msg)
      | Inbound_control op p \<Rightarrow> op \<in> {Op_close, Op_ping, Op_pong}
      | _ \<Rightarrow> True)"

lemma limit_exceeds_ceiling: "n \<le> size_max \<Longrightarrow> limit_exceeds limit n \<longleftrightarrow> read_ceiling limit < n"
  by (auto simp: limit_exceeds_def read_ceiling_def split: option.splits)

lemma accept_ok:
  assumes "assembler_ok limit a" "read_ceiling limit \<le> size_max" "length (view_payload f) \<le> size_max"
    and "\<not> is_websocket_control_frame_kind (view_kind f) \<Longrightarrow> \<not> limit_exceeds limit (length (view_payload f))"
    and "assembler_accept f limit a = (r, a')"
  shows "inbound_ok limit r" "assembler_ok limit a'"
proof -
  have frame: "\<not> is_websocket_control_frame_kind (view_kind f) \<Longrightarrow> length (view_payload f) \<le> read_ceiling limit"
    using assms(3,4) limit_exceeds_ceiling by force
  have "inbound_ok limit r \<and> assembler_ok limit a'"
  proof (cases "view_kind f = Continuation")
    case True
    show ?thesis
    proof (cases "asm_state a")
      case Idle
      then show ?thesis using assms(1,5) True by (auto simp: assembler_accept_def inbound_ok_def)
    next
      case (Fragmented op enc)
      have "length (asm_message a) \<le> size_max" using assms(1,2) Fragmented by (simp add: assembler_ok_def)
      note add = addition_exceeds_iff [OF this assms(2), of "length (view_payload f)"]
      show ?thesis
        using assms(1,5) True Fragmented add
        by (auto simp: assembler_accept_def inbound_ok_def assembler_ok_def Let_def split: if_splits)
    qed
  next
    case False
    then show ?thesis
      using assms(1,5) frame
      by (cases "view_kind f"; cases "asm_state a")
        (auto simp: assembler_accept_def inbound_ok_def assembler_ok_def kind_opcode_def Let_def split: if_splits)
  qed
  then show "inbound_ok limit r" "assembler_ok limit a'" by simp_all
qed

lemma release_ok: "assembler_ok limit a \<Longrightarrow> assembler_ok limit (release_completed a)"
  by (auto simp: assembler_ok_def release_completed_def split: websocket_inbound_state.splits)

lemma accept_frames_ok:
  "assembler_ok limit a \<Longrightarrow> read_ceiling limit \<le> size_max \<Longrightarrow>
     list_all (\<lambda>f. length (view_payload f) \<le> size_max \<and>
       (is_websocket_control_frame_kind (view_kind f) \<or> \<not> limit_exceeds limit (length (view_payload f)))) fs \<Longrightarrow>
     accept_frames limit fs a = (rs, a') \<Longrightarrow> list_all (inbound_ok limit) rs \<and> assembler_ok limit a'"
proof (induction fs arbitrary: a rs)
  case Nil
  then show ?case by simp
next
  case (Cons f fs)
  obtain r a1 where step: "assembler_accept f limit a = (r, a1)" by fastforce
  obtain rs' where run: "accept_frames limit fs a1 = (rs', a')" "rs = r # rs'"
    using Cons.prems(4) step by (auto split: prod.splits)
  have ok: "inbound_ok limit r" "assembler_ok limit a1"
    using accept_ok [OF Cons.prems(1,2) _ _ step] Cons.prems(3) by auto
  show ?case
    using Cons.IH [OF ok(2) Cons.prems(2) _ run(1)] Cons.prems(3) ok(1) run(2) by simp
qed

subsection \<open>Properties\<close>

text \<open>
  Property C31. A message within the limit, cut into any number of fragments with any control
  frames between them, is reassembled: every control frame comes out in its place, every fragment
  but the last only continues, and the last one yields the whole message with the opcode and the
  compression bit of the first; the assembler is idle again.
\<close>

theorem fragmented_message_reassembled:
  assumes "control_pieces ps" "\<not> list_all (\<lambda>p. \<not> is_fragment p) ps" "op \<in> {Op_text, Op_binary}"
    and "length (fragments_of ps) \<le> read_ceiling limit" "read_ceiling limit \<le> size_max"
    and "enc = Identity \<longrightarrow> op = Op_text \<longrightarrow> is_valid_utf8 (fragments_of ps)" "asm_state a = Idle"
  shows "\<exists>a'. accept_frames limit (fragment_frames op enc False ps) a
      = (fragment_results op enc (fragments_of ps) ps, a') \<and> asm_state a' = Idle"
  by (rule accept_fragments [OF assms(6,3,1,2,7) refl assms(4,5)])

lemma fragmented_message_reassembled_witness:
  "\<exists>a'. accept_frames (Some 4) (fragment_frames Op_binary Identity False
      [Inl [1], Inr \<lparr>view_kind = Ping, view_payload = [9], view_final = True, view_compressed = False\<rparr>, Inl [2, 3]])
      initial_assembler
    = ([Inbound_continue, Inbound_control Op_ping [9], Inbound_message Op_binary [1, 2, 3] Identity], a')"
  using fragmented_message_reassembled [of "[Inl [1], Inr \<lparr>view_kind = Ping, view_payload = [9],
      view_final = True, view_compressed = False\<rparr>, Inl [2, 3]]" Op_binary "Some 4" Identity initial_assembler]
  by (auto simp: control_pieces_def read_ceiling_def initial_assembler_def kind_opcode_def)

text \<open>
  Whatever frames the reader delivers, in any order, every message the assembler
  hands over is within the message limit across all its fragments, is text or binary, and is valid
  UTF-8 where it is uncompressed text; every control result is a control opcode.
\<close>

theorem inbound_messages_bounded:
  assumes "read_ceiling limit \<le> size_max"
    and "list_all (\<lambda>f. length (view_payload f) \<le> size_max \<and>
      (is_websocket_control_frame_kind (view_kind f) \<or> \<not> limit_exceeds limit (length (view_payload f)))) fs"
  shows "list_all (inbound_ok limit) (fst (accept_frames limit fs initial_assembler))"
proof -
  have "assembler_ok limit initial_assembler" by (simp add: assembler_ok_def initial_assembler_def)
  then show ?thesis
    using accept_frames_ok [OF _ assms] by (metis prod.collapse)
qed

lemma inbound_messages_bounded_witness:
  "list_all (inbound_ok (Some 2)) (fst (accept_frames (Some 2)
     [\<lparr>view_kind = Binary, view_payload = [1, 2], view_final = False, view_compressed = False\<rparr>,
      \<lparr>view_kind = Continuation, view_payload = [3], view_final = True, view_compressed = False\<rparr>] initial_assembler))"
  by (rule inbound_messages_bounded) (simp_all add: read_ceiling_def limit_exceeds_def)

end
