(* ===== verification/Websocket_Connection.thy ===== *)
theory Websocket_Connection
  imports Websocket_Assembler
begin

text \<open>
  The sans-I/O WebSocket connection (\<open>websocket_connection.h\<close>,
  \<open>websocket_connection.cpp\<close>): input reading, message delivery, output queueing and the
  closing handshake. The mask key generator and the permessage-deflate codec (zlib) are arguments,
  in the record \<open>ws_env\<close>, with their own state in the connection; an exception the code
  throws is a value of the result. Two history fields, which no operation reads, record the frames
  queued so far and the output bytes already consumed.
\<close>

subsection \<open>Options and construction\<close>

datatype websocket_connection_role = Server | Client

record websocket_compression =
  compression_enabled :: bool
  server_no_context_takeover :: bool
  client_no_context_takeover :: bool
  server_max_window_bits :: "int option"
  client_max_window_bits :: "int option"

record websocket_deflater_config =
  compression_level :: int
  mem_level :: int

definition validate_websocket_deflater_config :: "websocket_deflater_config \<Rightarrow> bool" where
  "validate_websocket_deflater_config config \<longleftrightarrow>
     \<not> (compression_level config < 0 \<or> compression_level config > 9) \<and>
     \<not> (mem_level config < 1 \<or> mem_level config > 9)"

record websocket_connection_options =
  opt_message_limit :: protocol_byte_limit
  opt_compression :: websocket_compression
  opt_role :: websocket_connection_role
  opt_has_mask_key_generator :: bool
  opt_deflater :: websocket_deflater_config
  opt_max_buffered_input_bytes :: nat

datatype close_phase_type =
  Open | Local_close_queued | Awaiting_peer_close | Final_output_queued | Handshake_output_queued
  | Awaiting_peer_eof | Transport_end_ready | Closed

record ('k, 'd) websocket_connection =
  ws_input :: http_io_buffer
  ws_max_buffered_input_bytes :: nat
  ws_message_limit :: protocol_byte_limit
  ws_pending_consume :: nat
  ws_needed_input_bytes :: nat
  ws_out_buffer :: bytes
  ws_out_offset :: nat
  ws_borrowed_output :: bytes
  ws_assembler :: websocket_inbound_assembler
  ws_deflate :: "'d option"
  ws_role :: websocket_connection_role
  ws_mask_keys :: 'k
  ws_close_phase :: close_phase_type
  \<comment> \<open>history: the frames queued (opcode, wire payload, RSV1, key), the bytes consumed\<close>
  ws_sent :: "(websocket_opcode \<times> bytes \<times> bool \<times> bytes option) list"
  ws_written :: bytes

datatype websocket_inflate_result = Inflate_ok | Inflate_error | Inflate_too_large

text \<open>
  The collaborators: the key generator (\<open>None\<close> is a failure), \<open>compress\<close>
  (\<open>None\<close> is \<open>false\<close>), \<open>discard_compression\<close> (\<open>None\<close> is
  its \<open>runtime_error\<close>), \<open>decompress\<close> and \<open>std::pmr::string::max_size\<close>.
\<close>

record ('k, 'd) ws_env =
  generate_mask_key :: "'k \<Rightarrow> bytes option \<times> 'k"
  deflate_compress :: "bytes \<Rightarrow> 'd \<Rightarrow> bytes option \<times> 'd"
  deflate_discard :: "'d \<Rightarrow> 'd option"
  deflate_decompress :: "bytes \<Rightarrow> protocol_byte_limit \<Rightarrow> 'd \<Rightarrow> (websocket_inflate_result \<times> bytes) \<times> 'd"
  string_max_size :: nat

definition window_or_default :: "int option \<Rightarrow> int" where
  "window_or_default w = (case w of None \<Rightarrow> 15 | Some b \<Rightarrow> b)"

text \<open>The checks and the codec of \<open>initialize_codecs\<close>; \<open>Inl ()\<close> is
  \<open>std::invalid_argument\<close>. \<open>make_deflate\<close> constructs the codec from the takeover
  flags and windows of the two directions.\<close>

definition initialize_codecs ::
  "(websocket_deflater_config \<Rightarrow> bool \<Rightarrow> bool \<Rightarrow> int \<Rightarrow> int \<Rightarrow> 'd) \<Rightarrow> websocket_connection_options \<Rightarrow> unit + 'd option" where
  "initialize_codecs make_deflate options =
     (let compression = opt_compression options;
          server = (opt_role options = Server)
      in if opt_max_buffered_input_bytes options = 0 then Inl ()
         else if window_or_default (server_max_window_bits compression) < 8 \<or>
                 window_or_default (server_max_window_bits compression) > 15 \<or>
                 window_or_default (client_max_window_bits compression) < 8 \<or>
                 window_or_default (client_max_window_bits compression) > 15 then Inl ()
         else if opt_role options = Client \<and> \<not> opt_has_mask_key_generator options then Inl ()
         else if \<not> validate_websocket_deflater_config (opt_deflater options) then Inl ()
         else if compression_enabled compression
         then let send_takeover = (\<not> (if server then server_no_context_takeover compression
                                       else client_no_context_takeover compression));
                  receive_takeover = (\<not> (if server then client_no_context_takeover compression
                                          else server_no_context_takeover compression));
                  send_window = window_or_default (if server then server_max_window_bits compression
                                                   else client_max_window_bits compression);
                  receive_window = window_or_default (if server then client_max_window_bits compression
                                                      else server_max_window_bits compression)
              in Inr (Some (make_deflate (opt_deflater options) send_takeover receive_takeover send_window receive_window))
         else Inr None)"

definition make_websocket_connection ::
  "(websocket_deflater_config \<Rightarrow> bool \<Rightarrow> bool \<Rightarrow> int \<Rightarrow> int \<Rightarrow> 'd) \<Rightarrow> http_io_buffer \<Rightarrow> 'k \<Rightarrow>
     websocket_connection_options \<Rightarrow> ('k, 'd) websocket_connection option" where
  "make_websocket_connection make_deflate input keys options =
     (case initialize_codecs make_deflate options of
        Inl _ \<Rightarrow> None
      | Inr codec \<Rightarrow>
          Some \<lparr>ws_input = input, ws_max_buffered_input_bytes = opt_max_buffered_input_bytes options,
                ws_message_limit = opt_message_limit options, ws_pending_consume = 0, ws_needed_input_bytes = 0,
                ws_out_buffer = [], ws_out_offset = 0, ws_borrowed_output = [], ws_assembler = initial_assembler,
                ws_deflate = codec, ws_role = opt_role options, ws_mask_keys = keys, ws_close_phase = Open,
                ws_sent = [], ws_written = []\<rparr>)"

subsection \<open>Output\<close>

datatype websocket_payload_storage = Copy | Borrow

datatype websocket_liveness_mode = Live_open | Live_awaiting_peer_close | Live_awaiting_peer_eof | Live_inactive

definition pending_input_bytes :: "('k, 'd) websocket_connection \<Rightarrow> nat" where
  "pending_input_bytes c = buf_size (ws_input c) - ws_pending_consume c"

definition release_consumed_input :: "('k, 'd) websocket_connection \<Rightarrow> ('k, 'd) websocket_connection" where
  "release_consumed_input c = c\<lparr>ws_input := buf_consume (ws_pending_consume c) (ws_input c), ws_pending_consume := 0\<rparr>"

definition liveness_mode :: "('k, 'd) websocket_connection \<Rightarrow> websocket_liveness_mode" where
  "liveness_mode c =
     (case ws_close_phase c of
        Open \<Rightarrow> Live_open
      | Local_close_queued \<Rightarrow> Live_awaiting_peer_close
      | Awaiting_peer_close \<Rightarrow> Live_awaiting_peer_close
      | Handshake_output_queued \<Rightarrow> Live_awaiting_peer_eof
      | Awaiting_peer_eof \<Rightarrow> Live_awaiting_peer_eof
      | Final_output_queued \<Rightarrow> Live_inactive
      | Transport_end_ready \<Rightarrow> Live_inactive
      | Closed \<Rightarrow> Live_inactive)"

text \<open>Whether the sizes fit behind \<open>used\<close>; the first that does not is a \<open>length_error\<close>.\<close>

fun output_fits :: "nat \<Rightarrow> nat \<Rightarrow> nat list \<Rightarrow> bool" where
  "output_fits max_size used [] = True"
| "output_fits max_size used (n # ns) = (if n > max_size - used then False else output_fits max_size (used + n) ns)"

text \<open>\<open>append_frame\<close>; \<open>aliases\<close> is \<open>http_text_aliases_string(payload, out_buffer_)\<close>.
  The flag of the result is \<open>False\<close> when the call throws.\<close>

definition compact_output :: "('k, 'd) websocket_connection \<Rightarrow> ('k, 'd) websocket_connection" where
  "compact_output c =
     (if ws_out_offset c > 0 \<and> ws_out_offset c \<ge> length (ws_out_buffer c) - ws_out_offset c
      then c\<lparr>ws_out_buffer := drop (ws_out_offset c) (ws_out_buffer c), ws_out_offset := 0\<rparr>
      else c)"

definition append_frame ::
  "('k, 'd) ws_env \<Rightarrow> websocket_opcode \<Rightarrow> bytes \<Rightarrow> bool \<Rightarrow> websocket_payload_storage \<Rightarrow> bool \<Rightarrow>
     ('k, 'd) websocket_connection \<Rightarrow> bool \<times> ('k, 'd) websocket_connection" where
  "append_frame env opcode payload rsv1 storage0 aliases c0 =
     (let storage = (if aliases then Copy else storage0);
          c1 = compact_output c0;
          masked = (ws_role c1 = Client);
          (drawn, keys) = (if masked then generate_mask_key env (ws_mask_keys c1) else (Some [], ws_mask_keys c1));
          c2 = c1\<lparr>ws_mask_keys := keys\<rparr>
      in case drawn of
           None \<Rightarrow> (False, c2)
         | Some key \<Rightarrow>
             let borrow = (storage = Borrow \<and> \<not> masked);
                 header = encode_websocket_frame_header opcode (length payload) rsv1 masked;
                 sizes = [length (ws_borrowed_output c2), length header, if masked then 4 else 0,
                          if borrow then 0 else length payload]
             in if \<not> output_fits (string_max_size env) (length (ws_out_buffer c2)) sizes then (False, c2)
                else
                  (True, c2\<lparr>ws_out_buffer := ws_out_buffer c2 @ ws_borrowed_output c2 @ header @
                              (if masked then key @ decode_masked_websocket_payload payload key
                               else if borrow then [] else payload),
                            ws_borrowed_output := (if borrow then payload else []),
                            ws_sent := ws_sent c2 @ [(opcode, payload, rsv1, if masked then Some key else None)]\<rparr>))"

definition output_queued :: "('k, 'd) websocket_connection \<Rightarrow> bool" where
  "output_queued c \<longleftrightarrow> ws_out_offset c < length (ws_out_buffer c) \<or> ws_borrowed_output c \<noteq> []"

text \<open>\<open>fail\<close>: encoding a Close payload without a reason never fails.\<close>

definition ws_fail :: "('k, 'd) ws_env \<Rightarrow> u16 \<Rightarrow> ('k, 'd) websocket_connection \<Rightarrow> bool \<times> ('k, 'd) websocket_connection" where
  "ws_fail env code c =
     (case ws_close_phase c of
        Open \<Rightarrow>
          (case encode_websocket_close_payload code [] of
             Inl _ \<Rightarrow> (False, c)
           | Inr payload \<Rightarrow>
               (case append_frame env Op_close payload False Copy False c of
                  (False, c') \<Rightarrow> (False, c')
                | (True, c') \<Rightarrow> (True, c'\<lparr>ws_close_phase := Final_output_queued\<rparr>)))
      | Local_close_queued \<Rightarrow> (True, c\<lparr>ws_close_phase := Final_output_queued\<rparr>)
      | Awaiting_peer_close \<Rightarrow>
          (True, c\<lparr>ws_close_phase := (if output_queued c then Final_output_queued else Transport_end_ready)\<rparr>)
      | _ \<Rightarrow> (True, c))"

definition handshake_complete_phase :: "('k, 'd) websocket_connection \<Rightarrow> close_phase_type" where
  "handshake_complete_phase c =
     (if ws_role c = Client then (if output_queued c then Handshake_output_queued else Awaiting_peer_eof)
      else (if output_queued c then Final_output_queued else Transport_end_ready))"

definition receive_peer_close :: "('k, 'd) websocket_connection \<Rightarrow> ('k, 'd) websocket_connection" where
  "receive_peer_close c =
     (if ws_close_phase c = Local_close_queued \<or> ws_close_phase c = Awaiting_peer_close
      then c\<lparr>ws_close_phase := handshake_complete_phase c\<rparr> else c)"

definition discard_input :: "('k, 'd) websocket_connection \<Rightarrow> ('k, 'd) websocket_connection" where
  "discard_input c = c\<lparr>ws_pending_consume := 0, ws_input := buf_consume (buf_size (ws_input c)) (ws_input c)\<rparr>"

subsection \<open>Submitting frames\<close>

datatype websocket_frame_submit_status =
  Submit_accepted | Submit_not_open | Submit_invalid_opcode | Submit_message_too_large
  | Submit_invalid_text_payload | Submit_control_frame_too_large

text \<open>The trial compression and the frame; \<open>False\<close> when it throws, with whether a
  compression was attempted.\<close>

definition submit_try ::
  "('k, 'd) ws_env \<Rightarrow> websocket_opcode \<Rightarrow> bytes \<Rightarrow> bool \<Rightarrow> websocket_payload_storage \<Rightarrow> bool \<Rightarrow>
     ('k, 'd) websocket_connection \<Rightarrow> bool \<times> ('k, 'd) websocket_connection" where
  "submit_try env opcode payload attempt storage aliases c =
     (case (if attempt then ws_deflate c else None) of
        None \<Rightarrow> append_frame env opcode payload False storage aliases c
      | Some d \<Rightarrow>
          (case deflate_compress env payload d of
             (Some deflated, d') \<Rightarrow>
               if length deflated < length payload
               then append_frame env opcode deflated True Copy False (c\<lparr>ws_deflate := Some d'\<rparr>)
               else (case deflate_discard env d' of
                       None \<Rightarrow> (False, c\<lparr>ws_deflate := Some d'\<rparr>)
                     | Some d'' \<Rightarrow> append_frame env opcode payload False storage aliases (c\<lparr>ws_deflate := Some d''\<rparr>))
           | (None, d') \<Rightarrow>
               (case deflate_discard env d' of
                  None \<Rightarrow> (False, c\<lparr>ws_deflate := Some d'\<rparr>)
                | Some d'' \<Rightarrow> append_frame env opcode payload False storage aliases (c\<lparr>ws_deflate := Some d''\<rparr>))))"

text \<open>\<open>submit_frame\<close> of the implementation; \<open>None\<close> is an exception.\<close>

definition ws_submit ::
  "('k, 'd) ws_env \<Rightarrow> websocket_opcode \<Rightarrow> bytes \<Rightarrow> bool \<Rightarrow> websocket_payload_storage \<Rightarrow> bool \<Rightarrow>
     ('k, 'd) websocket_connection \<Rightarrow> websocket_frame_submit_status option \<times> ('k, 'd) websocket_connection" where
  "ws_submit env opcode payload compress storage aliases c =
     (let data_frame = (opcode = Op_text \<or> opcode = Op_binary);
          control_frame = (opcode = Op_ping \<or> opcode = Op_pong)
      in if ws_close_phase c \<noteq> Open then (Some Submit_not_open, c)
         else if \<not> data_frame \<and> \<not> control_frame then (Some Submit_invalid_opcode, c)
         else if data_frame \<and> limit_exceeds (ws_message_limit c) (length payload) then (Some Submit_message_too_large, c)
         else if opcode = Op_text \<and> \<not> is_valid_utf8 payload then (Some Submit_invalid_text_payload, c)
         else if control_frame \<and> length payload > 125 then (Some Submit_control_frame_too_large, c)
         else
           let attempt = (data_frame \<and> compress \<and> ws_deflate c \<noteq> None)
           in case submit_try env opcode payload attempt storage aliases c of
                (True, c') \<Rightarrow> (Some Submit_accepted, c')
              | (False, c') \<Rightarrow>
                  (if attempt
                   then (case ws_deflate c' of
                           None \<Rightarrow> (None, c')
                         | Some d \<Rightarrow>
                             (case deflate_discard env d of
                                None \<Rightarrow> (None, c'\<lparr>ws_close_phase := Transport_end_ready\<rparr>)
                              | Some d' \<Rightarrow> (None, c'\<lparr>ws_deflate := Some d'\<rparr>)))
                   else (None, c')))"

definition ws_submit_frame ::
  "('k, 'd) ws_env \<Rightarrow> websocket_opcode \<Rightarrow> bytes \<Rightarrow> bool \<Rightarrow> bool \<Rightarrow>
     ('k, 'd) websocket_connection \<Rightarrow> websocket_frame_submit_status option \<times> ('k, 'd) websocket_connection" where
  "ws_submit_frame env opcode payload compress aliases c = ws_submit env opcode payload compress Copy aliases c"

definition ws_submit_borrowed_frame ::
  "('k, 'd) ws_env \<Rightarrow> websocket_opcode \<Rightarrow> bytes \<Rightarrow> bool \<Rightarrow> bool \<Rightarrow>
     ('k, 'd) websocket_connection \<Rightarrow> websocket_frame_submit_status option \<times> ('k, 'd) websocket_connection" where
  "ws_submit_borrowed_frame env opcode payload compress aliases c = ws_submit env opcode payload compress Borrow aliases c"

datatype websocket_close_submit_status =
  Close_accepted | Close_already_closing | Close_closed | Close_invalid_code | Close_invalid_reason
  | Close_reason_too_large

definition ws_submit_close ::
  "('k, 'd) ws_env \<Rightarrow> u16 \<Rightarrow> bytes \<Rightarrow>
     ('k, 'd) websocket_connection \<Rightarrow> websocket_close_submit_status option \<times> ('k, 'd) websocket_connection" where
  "ws_submit_close env code reason c =
     (if ws_close_phase c = Closed then (Some Close_closed, c)
      else if ws_close_phase c \<noteq> Open then (Some Close_already_closing, c)
      else if ws_role c = Server \<and> code = 1010 then (Some Close_invalid_code, c)
      else (case encode_websocket_close_payload code reason of
              Inl Invalid_reason \<Rightarrow> (Some Close_invalid_reason, c)
            | Inl Reason_too_large \<Rightarrow> (Some Close_reason_too_large, c)
            | Inr payload \<Rightarrow>
                (case append_frame env Op_close payload False Copy False c of
                   (False, c') \<Rightarrow> (None, c')
                 | (True, c') \<Rightarrow> (Some Close_accepted, c'\<lparr>ws_close_phase := Local_close_queued\<rparr>))))"

subsection \<open>Input and events\<close>

datatype websocket_feed_status = Feed_accepted | Feed_inactive | Feed_backpressured

text \<open>\<open>feed\<close>; the input may be a view of the input buffer's own storage. \<open>None\<close> is a
  \<open>length_error\<close> of the buffer.\<close>

definition ws_feed ::
  "byte_source \<Rightarrow> ('k, 'd) websocket_connection \<Rightarrow> websocket_feed_status option \<times> ('k, 'd) websocket_connection" where
  "ws_feed input c =
     (let append = (\<lambda>c. case buf_append input (ws_input c) of
                          None \<Rightarrow> (None, c)
                        | Some b \<Rightarrow> (Some Feed_accepted, c\<lparr>ws_input := b\<rparr>))
      in if liveness_mode c = Live_inactive then (Some Feed_inactive, c)
         else if liveness_mode c = Live_awaiting_peer_eof then (Some Feed_accepted, c)
         else if buf_size (ws_input c) > ws_max_buffered_input_bytes c \<or>
                 source_size input > ws_max_buffered_input_bytes c - buf_size (ws_input c)
         then (if pending_input_bytes c > ws_max_buffered_input_bytes c \<or>
                  source_size input > ws_max_buffered_input_bytes c - pending_input_bytes c
               then (Some Feed_backpressured, c)
               else append (release_consumed_input c))
         else append c)"

datatype websocket_event =
    Message_event websocket_opcode bytes
  | Ping_event bytes
  | Pong_event bytes
  | Close_event u16 bytes
  | Protocol_error_event u16
  | Transport_end_event

text \<open>One round of the loop of \<open>next_event\<close>: another round, a returned value, an exception.\<close>

datatype ('k, 'd) event_step =
    Again "('k, 'd) websocket_connection"
  | Return "websocket_event option" "('k, 'd) websocket_connection"
  | Throw "('k, 'd) websocket_connection"

definition protocol_failure_event ::
  "('k, 'd) ws_env \<Rightarrow> websocket_protocol_failure \<Rightarrow> ('k, 'd) websocket_connection \<Rightarrow> ('k, 'd) event_step" where
  "protocol_failure_event env failure c =
     (let code = websocket_protocol_failure_close_code failure in
      case ws_fail env code c of
        (False, c') \<Rightarrow> Throw c'
      | (True, c') \<Rightarrow> Return (Some (Protocol_error_event code)) c')"

definition control_event ::
  "('k, 'd) ws_env \<Rightarrow> websocket_opcode \<Rightarrow> bytes \<Rightarrow> ('k, 'd) websocket_connection \<Rightarrow> ('k, 'd) event_step" where
  "control_event env opcode payload c =
     (if opcode = Op_ping
      then (case append_frame env Op_pong payload False Copy False c of
              (False, c') \<Rightarrow> Throw c'
            | (True, c') \<Rightarrow> Return (Some (Ping_event payload)) c')
      else if opcode = Op_pong then Return (Some (Pong_event payload)) c
      else
        let code = (if length payload \<ge> 2 then read_websocket_uint16 payload else 1005);
            reason = (if length payload > 2 then drop 2 payload else [])
        in if ws_close_phase c = Open
           then (case append_frame env Op_close payload False Copy False c of
                   (False, c') \<Rightarrow> Throw c'
                 | (True, c') \<Rightarrow>
                     Return (Some (Close_event code reason)) (c'\<lparr>ws_close_phase := handshake_complete_phase c'\<rparr>))
           else Return (Some (Close_event code reason)) (receive_peer_close c))"

definition message_event ::
  "('k, 'd) ws_env \<Rightarrow> websocket_opcode \<Rightarrow> bytes \<Rightarrow> websocket_inbound_content_encoding \<Rightarrow>
     ('k, 'd) websocket_connection \<Rightarrow> ('k, 'd) event_step" where
  "message_event env opcode payload encoding c =
     (if encoding = Identity
      then (if ws_close_phase c \<noteq> Open then Again (c\<lparr>ws_assembler := release_completed (ws_assembler c)\<rparr>)
            else Return (Some (Message_event opcode payload)) c)
      else (case ws_deflate c of
              None \<Rightarrow> Throw c
            | Some d \<Rightarrow>
                (case deflate_decompress env payload (ws_message_limit c) d of
                   ((inflate_result, inflated), d') \<Rightarrow>
                     let c1 = c\<lparr>ws_deflate := Some d'\<rparr> in
                     if inflate_result = Inflate_too_large then protocol_failure_event env Message_too_large c1
                     else if inflate_result \<noteq> Inflate_ok then protocol_failure_event env Protocol_error c1
                     else if opcode = Op_text \<and> \<not> is_valid_utf8 inflated
                     then protocol_failure_event env Invalid_payload_data c1
                     else if ws_close_phase c1 \<noteq> Open
                     then Again (c1\<lparr>ws_assembler := release_completed (ws_assembler c1)\<rparr>)
                     else Return (Some (Message_event opcode inflated)) c1)))"

definition event_round :: "('k, 'd) ws_env \<Rightarrow> ('k, 'd) websocket_connection \<Rightarrow> ('k, 'd) event_step" where
  "event_round env c =
     (case websocket_try_read_frame (ws_input c) (ws_pending_consume c) (ws_message_limit c)
             (ws_deflate c \<noteq> None) (ws_role c = Server) of
        (read, input, pending) \<Rightarrow>
          let c1 = c\<lparr>ws_input := input, ws_pending_consume := pending\<rparr> in
          (case read of
             Need_input missing \<Rightarrow> Return None (c1\<lparr>ws_needed_input_bytes := missing\<rparr>)
           | Read_failure failure \<Rightarrow> protocol_failure_event env failure c1
           | Read_frame frame \<Rightarrow>
               (case assembler_accept frame (ws_message_limit c1) (ws_assembler c1) of
                  (inbound, asm) \<Rightarrow>
                    let c2 = c1\<lparr>ws_assembler := asm\<rparr> in
                    (case inbound of
                       Inbound_failure failure \<Rightarrow> protocol_failure_event env failure c2
                     | Inbound_continue \<Rightarrow> Again c2
                     | Inbound_control opcode payload \<Rightarrow> control_event env opcode payload c2
                     | Inbound_message opcode payload encoding \<Rightarrow> message_event env opcode payload encoding c2))))"

text \<open>The rounds, at most \<open>fuel\<close> of them.\<close>

fun event_loop ::
  "nat \<Rightarrow> ('k, 'd) ws_env \<Rightarrow> ('k, 'd) websocket_connection \<Rightarrow> ('k, 'd) event_step option" where
  "event_loop 0 env c = None"
| "event_loop (Suc fuel) env c =
     (case event_round env c of Again c' \<Rightarrow> event_loop fuel env c' | r \<Rightarrow> Some r)"

text \<open>
  \<open>next_event\<close>: \<open>Inl ()\<close> in the result is an exception, after the handler made the
  transport end ready. Every round but the last consumes a frame of at least two input bytes, so
  the fuel is the input size plus one; running out of it is the outer \<open>None\<close>, which
  \<open>next_event_terminates\<close> excludes.
\<close>

definition ws_next_event ::
  "('k, 'd) ws_env \<Rightarrow> ('k, 'd) websocket_connection \<Rightarrow>
     ((unit + websocket_event option) \<times> ('k, 'd) websocket_connection) option" where
  "ws_next_event env c0 =
     (let c = c0\<lparr>ws_assembler := release_completed (ws_assembler c0), ws_needed_input_bytes := 0\<rparr> in
      if ws_close_phase c = Final_output_queued \<or> ws_close_phase c = Transport_end_ready \<or> ws_close_phase c = Closed
      then Some (Inr (Some Transport_end_event), c)
      else if ws_close_phase c = Handshake_output_queued then Some (Inr None, c)
      else if ws_close_phase c = Awaiting_peer_eof then Some (Inr None, discard_input c)
      else (case event_loop (Suc (buf_size (ws_input c))) env c of
              None \<Rightarrow> None
            | Some (Again c') \<Rightarrow> None
            | Some (Return e c') \<Rightarrow> Some (Inr e, c')
            | Some (Throw c') \<Rightarrow>
                Some (Inl (), if ws_close_phase c' \<noteq> Closed then c'\<lparr>ws_close_phase := Transport_end_ready\<rparr> else c')))"

subsection \<open>The driver's side\<close>

datatype websocket_transport_disposition = Keep_open | End_transport

record websocket_output_plan =
  plan_bytes :: bytes
  plan_borrowed_bytes :: bytes
  plan_disposition :: websocket_transport_disposition

definition ws_output_plan :: "('k, 'd) websocket_connection \<Rightarrow> websocket_output_plan" where
  "ws_output_plan c =
     (if ws_close_phase c = Transport_end_ready \<or> ws_close_phase c = Closed
      then \<lparr>plan_bytes = [], plan_borrowed_bytes = [],
            plan_disposition = (if ws_close_phase c = Transport_end_ready then End_transport else Keep_open)\<rparr>
      else \<lparr>plan_bytes = drop (ws_out_offset c) (ws_out_buffer c), plan_borrowed_bytes = ws_borrowed_output c,
            plan_disposition = (if ws_close_phase c = Final_output_queued then End_transport else Keep_open)\<rparr>)"

datatype websocket_output_consume_status = Consume_pending | Consume_drained | Consume_out_of_range

definition ws_consume_output ::
  "nat \<Rightarrow> ('k, 'd) websocket_connection \<Rightarrow> websocket_output_consume_status \<times> ('k, 'd) websocket_connection" where
  "ws_consume_output n c =
     (if n = 0 \<and> (ws_close_phase c = Transport_end_ready \<or> ws_close_phase c = Closed) then (Consume_drained, c)
      else
        let owned = length (ws_out_buffer c) - ws_out_offset c in
        if n > owned \<and> n - owned > length (ws_borrowed_output c) then (Consume_out_of_range, c)
        else if n < owned
        then (Consume_pending,
              c\<lparr>ws_out_offset := ws_out_offset c + n,
                ws_written := ws_written c @ take n (drop (ws_out_offset c) (ws_out_buffer c))\<rparr>)
        else
          let c1 = c\<lparr>ws_out_buffer := [], ws_out_offset := 0,
                     ws_written := ws_written c @ drop (ws_out_offset c) (ws_out_buffer c) @
                       take (n - owned) (ws_borrowed_output c)\<rparr>
          in if n - owned < length (ws_borrowed_output c1)
             then (Consume_pending, c1\<lparr>ws_borrowed_output := drop (n - owned) (ws_borrowed_output c1)\<rparr>)
             else
               (Consume_drained,
                c1\<lparr>ws_borrowed_output := [],
                   ws_close_phase :=
                     (if ws_close_phase c1 = Local_close_queued then Awaiting_peer_close
                      else if ws_close_phase c1 = Final_output_queued then Transport_end_ready
                      else if ws_close_phase c1 = Handshake_output_queued then Awaiting_peer_eof
                      else ws_close_phase c1)\<rparr>))"

definition ws_commit_transport_end :: "('k, 'd) websocket_connection \<Rightarrow> ('k, 'd) websocket_connection" where
  "ws_commit_transport_end c = (if ws_close_phase c = Transport_end_ready then c\<lparr>ws_close_phase := Closed\<rparr> else c)"

definition ws_notify_transport_eof :: "('k, 'd) websocket_connection \<Rightarrow> ('k, 'd) websocket_connection" where
  "ws_notify_transport_eof c = (if ws_close_phase c \<noteq> Closed then c\<lparr>ws_close_phase := Transport_end_ready\<rparr> else c)"

datatype websocket_abort_disposition = Abort_transport | No_transport_action

definition ws_abort :: "('k, 'd) websocket_connection \<Rightarrow> websocket_abort_disposition \<times> ('k, 'd) websocket_connection" where
  "ws_abort c =
     (if ws_close_phase c = Closed then (No_transport_action, c)
      else (Abort_transport, c\<lparr>ws_close_phase := Closed\<rparr>))"

end
