(* ===== verification/Websocket_Output.thy ===== *)
theory Websocket_Output
  imports Websocket_Connection
begin

text \<open>
  The output side of the WebSocket connection: what is queued and what was consumed form one byte
  stream, the concatenation of the wire forms of the frames sent. The queue is an instance of the
  byte-stream contract; every operation of the connection keeps the stream.
\<close>

subsection \<open>The output queue\<close>

definition pending_output :: "('k, 'd) websocket_connection \<Rightarrow> bytes" where
  "pending_output c = drop (ws_out_offset c) (ws_out_buffer c) @ ws_borrowed_output c"

text \<open>What the collaborators promise: keys of four bytes, strings no longer than the address
  space allows, inflated messages within the limit (\<open>websocket_deflate_codecs.h\<close>).\<close>

definition env_ok :: "('k, 'd) ws_env \<Rightarrow> bool" where
  "env_ok env \<longleftrightarrow>
     (\<forall>s key s'. generate_mask_key env s = (Some key, s') \<longrightarrow> length key = 4) \<and>
     string_max_size env < 2 ^ 63 \<and>
     (\<forall>p limit d out d'. deflate_decompress env p limit d = ((Inflate_ok, out), d') \<longrightarrow> length out \<le> read_ceiling limit)"

definition drawn_key :: "('k, 'd) ws_env \<Rightarrow> ('k, 'd) websocket_connection \<Rightarrow> bytes option" where
  "drawn_key env c = (if ws_role c = Client then fst (generate_mask_key env (ws_mask_keys c)) else None)"

text \<open>The fields an append leaves alone.\<close>

definition same_but_output :: "('k, 'd) websocket_connection \<Rightarrow> ('k, 'd) websocket_connection \<Rightarrow> bool" where
  "same_but_output c c' \<longleftrightarrow>
     ws_input c' = ws_input c \<and> ws_max_buffered_input_bytes c' = ws_max_buffered_input_bytes c \<and>
     ws_message_limit c' = ws_message_limit c \<and> ws_pending_consume c' = ws_pending_consume c \<and>
     ws_needed_input_bytes c' = ws_needed_input_bytes c \<and> ws_assembler c' = ws_assembler c \<and>
     ws_deflate c' = ws_deflate c \<and> ws_role c' = ws_role c \<and> ws_close_phase c' = ws_close_phase c \<and>
     ws_written c' = ws_written c"

lemma compact_output_pending:
  "ws_out_offset c \<le> length (ws_out_buffer c) \<Longrightarrow>
     pending_output (compact_output c) = pending_output c \<and>
     ws_out_offset (compact_output c) \<le> length (ws_out_buffer (compact_output c)) \<and>
     same_but_output c (compact_output c) \<and> ws_sent (compact_output c) = ws_sent c \<and>
     ws_mask_keys (compact_output c) = ws_mask_keys c \<and> ws_borrowed_output (compact_output c) = ws_borrowed_output c"
  by (auto simp: compact_output_def pending_output_def same_but_output_def)

lemma append_frame_cases:
  assumes "ws_out_offset c \<le> length (ws_out_buffer c)" "env_ok env"
    and "append_frame env op payload rsv1 sto aliases c = (ok, c')"
  shows "same_but_output c c'" "ws_out_offset c' \<le> length (ws_out_buffer c')"
    "\<not> ok \<Longrightarrow> pending_output c' = pending_output c \<and> ws_sent c' = ws_sent c"
    "ok \<Longrightarrow> pending_output c' = pending_output c @ frame_wire op payload rsv1 (drawn_key env c) \<and>
       ws_sent c' = ws_sent c @ [(op, payload, rsv1, drawn_key env c)] \<and>
       (drawn_key env c \<noteq> None \<longleftrightarrow> ws_role c = Client) \<and> (\<forall>k. drawn_key env c = Some k \<longrightarrow> length k = 4)"
proof -
  note compact = compact_output_pending [OF assms(1)]
  define c1 where "c1 = compact_output c"
  have role: "ws_role c1 = ws_role c" "ws_mask_keys c1 = ws_mask_keys c"
    using compact by (simp_all add: c1_def same_but_output_def)
  obtain drawn keys where d: "(if ws_role c1 = Client then generate_mask_key env (ws_mask_keys c1)
      else (Some [], ws_mask_keys c1)) = (drawn, keys)" by fastforce
  have all: "same_but_output c c' \<and> ws_out_offset c' \<le> length (ws_out_buffer c') \<and>
    (\<not> ok \<longrightarrow> pending_output c' = pending_output c \<and> ws_sent c' = ws_sent c) \<and>
    (ok \<longrightarrow> pending_output c' = pending_output c @ frame_wire op payload rsv1 (drawn_key env c) \<and>
       ws_sent c' = ws_sent c @ [(op, payload, rsv1, drawn_key env c)] \<and>
       (drawn_key env c \<noteq> None \<longleftrightarrow> ws_role c = Client) \<and> (\<forall>k. drawn_key env c = Some k \<longrightarrow> length k = 4))"
  proof (cases drawn)
    case None
    then have "ok = False" "c' = c1\<lparr>ws_mask_keys := keys\<rparr>"
      using assms(3) d by (auto simp: append_frame_def Let_def c1_def [symmetric])
    then show ?thesis using compact by (auto simp: same_but_output_def pending_output_def c1_def [symmetric])
  next
    case (Some key)
    show ?thesis
    proof (cases ok)
      case False
      then have "c' = c1\<lparr>ws_mask_keys := keys\<rparr>"
        using assms(3) d Some by (auto simp: append_frame_def Let_def c1_def [symmetric] split: if_splits)
      then show ?thesis using compact False by (auto simp: same_but_output_def pending_output_def c1_def [symmetric])
    next
      case ok: True
      have le: "ws_out_offset c1 \<le> length (ws_out_buffer c1)" using compact by (simp add: c1_def)
      have pend: "pending_output c = drop (ws_out_offset c1) (ws_out_buffer c1) @ ws_borrowed_output c1"
        using compact unfolding c1_def pending_output_def by metis
      have sent: "ws_sent c1 = ws_sent c" using compact by (simp add: c1_def)
      have same: "same_but_output c c1" using compact by (simp add: c1_def)
      show ?thesis
      proof (cases "ws_role c = Client")
        case True
        then have dk: "drawn_key env c = Some key" using d Some role by (simp add: drawn_key_def)
        have "generate_mask_key env (ws_mask_keys c1) = (Some key, keys)" using d Some True role by simp
        then have l4: "length key = 4" using assms(2) unfolding env_ok_def by blast
        have "c' = c1\<lparr>ws_mask_keys := keys,
            ws_out_buffer := ws_out_buffer c1 @ ws_borrowed_output c1 @
              encode_websocket_frame_header op (length payload) rsv1 True @ key @ decode_masked_websocket_payload payload key,
            ws_borrowed_output := [], ws_sent := ws_sent c1 @ [(op, payload, rsv1, Some key)]\<rparr>"
          using assms(3) d Some True ok role
          by (auto simp: append_frame_def Let_def c1_def [symmetric] split: if_splits)
        then show ?thesis
          using ok dk l4 le same True sent unfolding pend
          by (auto simp: same_but_output_def pending_output_def frame_wire_def mask_loops)
      next
        case False
        then have dk: "drawn_key env c = None" by (simp add: drawn_key_def)
        define b where "b = ((if aliases then Copy else sto) = Borrow)"
        have "c' = c1\<lparr>ws_mask_keys := keys,
            ws_out_buffer := ws_out_buffer c1 @ ws_borrowed_output c1 @
              encode_websocket_frame_header op (length payload) rsv1 False @ (if b then [] else payload),
            ws_borrowed_output := (if b then payload else []),
            ws_sent := ws_sent c1 @ [(op, payload, rsv1, None)]\<rparr>"
          using assms(3) d Some False ok role unfolding b_def
          by (auto simp: append_frame_def Let_def c1_def [symmetric] split: if_splits)
        then show ?thesis
          using ok dk le same False sent unfolding pend
          by (auto simp: same_but_output_def pending_output_def frame_wire_def)
      qed
    qed
  qed
  show "same_but_output c c'" "ws_out_offset c' \<le> length (ws_out_buffer c')"
    "\<not> ok \<Longrightarrow> pending_output c' = pending_output c \<and> ws_sent c' = ws_sent c"
    "ok \<Longrightarrow> pending_output c' = pending_output c @ frame_wire op payload rsv1 (drawn_key env c) \<and>
       ws_sent c' = ws_sent c @ [(op, payload, rsv1, drawn_key env c)] \<and>
       (drawn_key env c \<noteq> None \<longleftrightarrow> ws_role c = Client) \<and> (\<forall>k. drawn_key env c = Some k \<longrightarrow> length k = 4)"
    using all by blast+
qed

lemma consume_output_pending:
  assumes "ws_out_offset c \<le> length (ws_out_buffer c)" "ws_consume_output n c = (st, c')"
  shows "ws_out_offset c' \<le> length (ws_out_buffer c')"
    "st = Consume_out_of_range \<longleftrightarrow> length (pending_output c) < n"
    "n \<le> length (pending_output c) \<Longrightarrow>
       pending_output c' = drop n (pending_output c) \<and> ws_written c' = ws_written c @ take n (pending_output c)"
    "st = Consume_out_of_range \<Longrightarrow> c' = c"
    "ws_sent c' = ws_sent c" "ws_role c' = ws_role c" "ws_input c' = ws_input c"
    "ws_pending_consume c' = ws_pending_consume c" "ws_assembler c' = ws_assembler c"
    "ws_message_limit c' = ws_message_limit c" "ws_max_buffered_input_bytes c' = ws_max_buffered_input_bytes c"
proof -
  have "ws_out_offset c' \<le> length (ws_out_buffer c') \<and>
    (st = Consume_out_of_range \<longleftrightarrow> length (pending_output c) < n) \<and>
    (n \<le> length (pending_output c) \<longrightarrow>
       pending_output c' = drop n (pending_output c) \<and> ws_written c' = ws_written c @ take n (pending_output c)) \<and>
    (st = Consume_out_of_range \<longrightarrow> c' = c)"
    using assms by (auto simp: ws_consume_output_def Let_def pending_output_def add.commute split: if_splits)
  then show "ws_out_offset c' \<le> length (ws_out_buffer c')"
    "st = Consume_out_of_range \<longleftrightarrow> length (pending_output c) < n"
    "n \<le> length (pending_output c) \<Longrightarrow>
       pending_output c' = drop n (pending_output c) \<and> ws_written c' = ws_written c @ take n (pending_output c)"
    "st = Consume_out_of_range \<Longrightarrow> c' = c"
    by blast+
  show "ws_sent c' = ws_sent c" "ws_role c' = ws_role c" "ws_input c' = ws_input c"
    "ws_pending_consume c' = ws_pending_consume c" "ws_assembler c' = ws_assembler c"
    "ws_message_limit c' = ws_message_limit c" "ws_max_buffered_input_bytes c' = ws_max_buffered_input_bytes c"
    using assms(2) by (auto simp: ws_consume_output_def Let_def split: if_splits)
qed

text \<open>The queue as a byte stream: a put is a frame, its wire form depends on the key drawn.\<close>

type_synonym frame_request = "websocket_opcode \<times> bytes \<times> bool \<times> websocket_payload_storage \<times> bool"

definition output_inv :: "('k, 'd) ws_env \<Rightarrow> ('k, 'd) websocket_connection \<Rightarrow> bool" where
  "output_inv env c \<longleftrightarrow> env_ok env \<and> ws_out_offset c \<le> length (ws_out_buffer c)"

definition output_put :: "('k, 'd) ws_env \<Rightarrow> frame_request \<Rightarrow> ('k, 'd) websocket_connection \<Rightarrow> ('k, 'd) websocket_connection option" where
  "output_put env = (\<lambda>(op, payload, rsv1, sto, aliases) c.
     case append_frame env op payload rsv1 sto aliases c of (True, c') \<Rightarrow> Some c' | (False, c') \<Rightarrow> None)"

definition output_wire :: "('k, 'd) ws_env \<Rightarrow> frame_request \<Rightarrow> ('k, 'd) websocket_connection \<Rightarrow> bytes" where
  "output_wire env = (\<lambda>(op, payload, rsv1, sto, aliases) c. frame_wire op payload rsv1 (drawn_key env c))"

definition output_drain :: "nat \<Rightarrow> ('k, 'd) websocket_connection \<Rightarrow> ('k, 'd) websocket_connection" where
  "output_drain n c = snd (ws_consume_output n c)"

interpretation wso: byte_stream "output_inv env" pending_output "output_put env" "output_wire env" output_drain
  for env :: "('k, 'd) ws_env"
proof
  fix c c' :: "('k, 'd) websocket_connection" and x
  assume inv: "output_inv env c" and put: "output_put env x c = Some c'"
  obtain op payload rsv1 sto aliases where x: "x = (op, payload, rsv1, sto, aliases)" by (metis prod_cases5)
  have "append_frame env op payload rsv1 sto aliases c = (True, c')"
    using put by (auto simp: output_put_def x split: prod.splits bool.splits)
  from append_frame_cases [OF _ _ this] inv
  show "output_inv env c' \<and> pending_output c' = pending_output c @ output_wire env x c"
    by (simp add: output_inv_def output_wire_def x)
next
  fix c :: "('k, 'd) websocket_connection" and n
  assume inv: "output_inv env c" and n: "n \<le> length (pending_output c)"
  obtain st c' where "ws_consume_output n c = (st, c')" by fastforce
  from consume_output_pending [OF _ this] inv n
  show "output_inv env (output_drain n c) \<and> pending_output (output_drain n c) = drop n (pending_output c)"
    using \<open>ws_consume_output n c = (st, c')\<close> by (simp add: output_inv_def output_drain_def)
qed

end
