(* ===== verification/Websocket_Invariant.thy ===== *)
theory Websocket_Invariant
  imports Websocket_Output
begin

text \<open>
  The states a WebSocket connection can reach. The step relation has one rule per public
  operation, labelled with what the operation returned; the invariant says that the output is the
  stream of well-formed frames recorded as sent, in an order the closing handshake allows, and
  that the input side is well formed.
\<close>

subsection \<open>The invariant\<close>

definition frames_wire :: "(websocket_opcode \<times> bytes \<times> bool \<times> bytes option) list \<Rightarrow> bytes" where
  "frames_wire fs = concat (map (\<lambda>(op, payload, rsv1, key). frame_wire op payload rsv1 key) fs)"

definition sent_ok :: "websocket_connection_role \<Rightarrow> websocket_opcode \<times> bytes \<times> bool \<times> bytes option \<Rightarrow> bool" where
  "sent_ok role = (\<lambda>(op, payload, rsv1, key).
     sendable op payload rsv1 \<and> (key \<noteq> None \<longleftrightarrow> role = Client) \<and> (\<forall>k. key = Some k \<longrightarrow> length k = 4))"

text \<open>Behind a Close only Pongs are sent.\<close>

fun close_order :: "websocket_opcode list \<Rightarrow> bool" where
  "close_order [] = True"
| "close_order (op # ops) = (if op = Op_close then list_all (\<lambda>x. x = Op_pong) ops else close_order ops)"

lemma close_order_snoc:
  "close_order (ops @ [op]) \<longleftrightarrow> close_order ops \<and> (Op_close \<in> set ops \<longrightarrow> op = Op_pong)"
  by (induction ops) auto

definition ws_core :: "('k, 'd) websocket_connection \<Rightarrow> bool" where
  "ws_core c \<longleftrightarrow>
     ws_out_offset c \<le> length (ws_out_buffer c) \<and>
     ws_written c @ pending_output c = frames_wire (ws_sent c) \<and>
     list_all (sent_ok (ws_role c)) (ws_sent c) \<and> close_order (map fst (ws_sent c)) \<and>
     buf_ok (ws_input c) \<and> ws_pending_consume c \<le> buf_size (ws_input c) \<and>
     assembler_ok (ws_message_limit c) (ws_assembler c) \<and> read_ceiling (ws_message_limit c) \<le> size_max"

definition no_close_sent :: "('k, 'd) websocket_connection \<Rightarrow> bool" where
  "no_close_sent c \<longleftrightarrow> Op_close \<notin> set (map fst (ws_sent c))"

definition ws_inv :: "('k, 'd) websocket_connection \<Rightarrow> bool" where
  "ws_inv c \<longleftrightarrow> ws_core c \<and> (ws_close_phase c = Open \<longrightarrow> no_close_sent c)"

text \<open>How far the closing handshake has come.\<close>

fun phase_rank :: "close_phase_type \<Rightarrow> nat" where
  "phase_rank Open = 0"
| "phase_rank Local_close_queued = 1"
| "phase_rank Awaiting_peer_close = 2"
| "phase_rank Final_output_queued = 3"
| "phase_rank Handshake_output_queued = 3"
| "phase_rank Awaiting_peer_eof = 4"
| "phase_rank Transport_end_ready = 5"
| "phase_rank Closed = 6"

abbreviation rank :: "('k, 'd) websocket_connection \<Rightarrow> nat" where
  "rank c \<equiv> phase_rank (ws_close_phase c)"

lemma rank_open [simp]: "phase_rank p = 0 \<longleftrightarrow> p = Open"
  by (cases p) simp_all

lemma append_inv:
  assumes "ws_core c" "env_ok env" "sendable op payload rsv1"
    and "Op_close \<in> set (map fst (ws_sent c)) \<Longrightarrow> op = Op_pong"
    and "append_frame env op payload rsv1 sto aliases c = (ok, c')"
  shows "ws_core c'" "same_but_output c c'"
    "map fst (ws_sent c') = map fst (ws_sent c) @ (if ok then [op] else [])"
proof -
  note cs = append_frame_cases [OF _ assms(2,5)]
  have off: "ws_out_offset c \<le> length (ws_out_buffer c)" using assms(1) by (simp add: ws_core_def)
  note cs = append_frame_cases [OF off assms(2,5)]
  show same: "same_but_output c c'" by (rule cs(1))
  show fst: "map fst (ws_sent c') = map fst (ws_sent c) @ (if ok then [op] else [])"
    using cs(3,4) by (cases ok) auto
  have role: "ws_role c' = ws_role c" "ws_written c' = ws_written c" using same by (simp_all add: same_but_output_def)
  have "ws_written c' @ pending_output c' = frames_wire (ws_sent c')"
    using cs(3,4) assms(1) role by (cases ok) (auto simp: ws_core_def frames_wire_def)
  moreover have "list_all (sent_ok (ws_role c')) (ws_sent c')"
    using cs(3,4) assms(1,3) role by (cases ok) (auto simp: ws_core_def sent_ok_def)
  moreover have "close_order (map fst (ws_sent c'))"
    using fst assms(1,4) by (cases ok) (auto simp: ws_core_def close_order_snoc)
  ultimately show "ws_core c'"
    using cs(2) same assms(1) by (simp add: ws_core_def same_but_output_def)
qed

lemma core_phase [simp]: "ws_core (c\<lparr>ws_close_phase := p\<rparr>) = ws_core c"
  by (simp add: ws_core_def pending_output_def)

lemma core_needed [simp]: "ws_core (c\<lparr>ws_needed_input_bytes := n\<rparr>) = ws_core c"
  by (simp add: ws_core_def pending_output_def)

lemma core_deflate [simp]: "ws_core (c\<lparr>ws_deflate := d\<rparr>) = ws_core c"
  by (simp add: ws_core_def pending_output_def)

lemma no_close_updates [simp]:
  "no_close_sent (c\<lparr>ws_close_phase := p\<rparr>) = no_close_sent c"
  "no_close_sent (c\<lparr>ws_needed_input_bytes := n\<rparr>) = no_close_sent c"
  "no_close_sent (c\<lparr>ws_deflate := d\<rparr>) = no_close_sent c"
  "no_close_sent (c\<lparr>ws_assembler := a\<rparr>) = no_close_sent c"
  "no_close_sent (c\<lparr>ws_input := b, ws_pending_consume := m\<rparr>) = no_close_sent c"
  by (simp_all add: no_close_sent_def)

lemma inv_not_open: "ws_core c \<Longrightarrow> ws_close_phase c \<noteq> Open \<Longrightarrow> ws_inv c"
  by (simp add: ws_inv_def)

subsection \<open>Failing, receiving and submitting\<close>

lemma close_code_sendable:
  assumes "encode_websocket_close_payload code reason = Inr p" "close_code_valid code"
  shows "sendable Op_close p False"
proof -
  have e: "p = websocket_encoded_close_payload code reason" "length reason \<le> 123" "is_valid_utf8 reason"
    using assms(1) by (auto simp: encode_websocket_close_payload_def split: if_splits)
  have "websocket_close_payload_failure p = None"
    using assms(2) e(3) close_code_read [of code reason]
    by (simp add: websocket_close_payload_failure_def e(1)) (simp add: websocket_encoded_close_payload_def)
  then show ?thesis using e by (simp add: sendable_def websocket_encoded_close_payload_def)
qed

lemma failure_code_valid: "close_code_valid (websocket_protocol_failure_close_code e)"
  by (cases e) (simp_all add: websocket_protocol_failure_close_code_def close_code_valid_def)

text \<open>What one round and its parts may change, beside the invariant.\<close>

definition round_ok :: "('k, 'd) websocket_connection \<Rightarrow> ('k, 'd) websocket_connection \<Rightarrow> bool" where
  "round_ok c c' \<longleftrightarrow>
     ws_inv c' \<and> rank c \<le> rank c' \<and> ws_role c' = ws_role c \<and> ws_message_limit c' = ws_message_limit c \<and>
     ws_max_buffered_input_bytes c' = ws_max_buffered_input_bytes c \<and> ws_written c' = ws_written c"

lemma round_ok_refl: "ws_inv c \<Longrightarrow> round_ok c c"
  by (simp add: round_ok_def)

lemma round_ok_trans: "round_ok a b \<Longrightarrow> round_ok b c \<Longrightarrow> round_ok a c"
  by (auto simp: round_ok_def)

lemma fail_ok:
  assumes inv: "ws_inv c" and env: "env_ok env" and code: "close_code_valid code"
    and f: "ws_fail env code c = (ok, c')" and early: "rank c \<le> 2"
  shows "round_ok c c'" "ok \<Longrightarrow> ws_close_phase c' = Final_output_queued \<or> ws_close_phase c' = Transport_end_ready"
proof -
  have "round_ok c c' \<and> (ok \<longrightarrow> ws_close_phase c' = Final_output_queued \<or> ws_close_phase c' = Transport_end_ready)"
  proof (cases "ws_close_phase c = Open")
    case True
    have enc: "encode_websocket_close_payload code [] = Inr (websocket_encoded_close_payload code [])"
      by (simp add: encode_websocket_close_payload_def is_valid_utf8_def valid_utf8_from.simps)
    obtain ok' d where a: "append_frame env Op_close (websocket_encoded_close_payload code []) False Copy False c = (ok', d)"
      by fastforce
    have none: "no_close_sent c" using inv True by (simp add: ws_inv_def)
    have core: "ws_core c" using inv by (simp add: ws_inv_def)
    have "Op_close \<in> set (map fst (ws_sent c)) \<Longrightarrow> Op_close = Op_pong"
      using none unfolding no_close_sent_def by blast
    note ap = append_inv [OF core env close_code_sendable [OF enc code] this a]
    have c': "c' = (if ok' then d\<lparr>ws_close_phase := Final_output_queued\<rparr> else d)" "ok = ok'"
      using f True enc a by (auto simp: ws_fail_def split: bool.splits)
    have "no_close_sent d" if "\<not> ok'" using ap(3) that none by (simp add: no_close_sent_def)
    then show ?thesis
      using ap(1,2) c' True by (auto simp: round_ok_def ws_inv_def same_but_output_def)
  next
    case False
    then show ?thesis
      using f inv early by (cases "ws_close_phase c") (auto simp: ws_fail_def round_ok_def ws_inv_def split: if_splits)
  qed
  then show "round_ok c c'" "ok \<Longrightarrow> ws_close_phase c' = Final_output_queued \<or> ws_close_phase c' = Transport_end_ready"
    by blast+
qed

text \<open>The connection of a round's outcome.\<close>

fun step_state :: "('k, 'd) event_step \<Rightarrow> ('k, 'd) websocket_connection" where
  "step_state (Again c) = c"
| "step_state (Return e c) = c"
| "step_state (Throw c) = c"

lemma failure_event_ok:
  assumes "ws_inv c" "env_ok env" "rank c \<le> 2"
  shows "round_ok c (step_state (protocol_failure_event env e c))"
    "protocol_failure_event env e c \<noteq> Again d"
    "protocol_failure_event env e c = Return ev d \<Longrightarrow>
       ev = Some (Protocol_error_event (websocket_protocol_failure_close_code e)) \<and>
       (ws_close_phase d = Final_output_queued \<or> ws_close_phase d = Transport_end_ready)"
proof -
  obtain ok c' where f: "ws_fail env (websocket_protocol_failure_close_code e) c = (ok, c')" by fastforce
  note ok = fail_ok [OF assms(1,2) failure_code_valid f assms(3)]
  show "round_ok c (step_state (protocol_failure_event env e c))"
    "protocol_failure_event env e c \<noteq> Again d"
    "protocol_failure_event env e c = Return ev d \<Longrightarrow>
       ev = Some (Protocol_error_event (websocket_protocol_failure_close_code e)) \<and>
       (ws_close_phase d = Final_output_queued \<or> ws_close_phase d = Transport_end_ready)"
    using ok f by (auto simp: protocol_failure_event_def Let_def split: bool.splits)
qed

text \<open>What the reader guarantees of a frame.\<close>

definition frame_ok :: "protocol_byte_limit \<Rightarrow> websocket_frame_view \<Rightarrow> bool" where
  "frame_ok limit f \<longleftrightarrow>
     (is_websocket_control_frame_kind (view_kind f) \<longrightarrow> length (view_payload f) \<le> 125) \<and>
     (\<not> is_websocket_control_frame_kind (view_kind f) \<longrightarrow> \<not> limit_exceeds limit (length (view_payload f))) \<and>
     (view_kind f = Close \<longrightarrow> websocket_close_payload_failure (view_payload f) = None) \<and>
     length (view_payload f) \<le> size_max"

lemma read_round:
  assumes "ws_core c"
    and "websocket_try_read_frame (ws_input c) (ws_pending_consume c) limit deflate masked = (r, b, p)"
  shows "buf_ok b" "p \<le> buf_size b" "buf_size b = buf_size (ws_input c) - ws_pending_consume c"
    "r = Read_frame f \<Longrightarrow> frame_ok limit f \<and> 2 \<le> p"
proof -
  have ok: "buf_ok (ws_input c)" "ws_pending_consume c \<le> buf_size (ws_input c)" using assms(1) by (auto simp: ws_core_def)
  note t = try_read_scan [OF ok(1) assms(2)]
  show bok: "buf_ok b" by (rule t(2))
  show p: "p \<le> buf_size b" using t(4) length_view [OF t(2)] by simp
  show "buf_size b = buf_size (ws_input c) - ws_pending_consume c"
    using t(6) length_view [OF t(2)] length_view [OF ok(1)] by simp
  assume r: "r = Read_frame f"
  note s = read_frame_bounds [OF ok(1) assms(2) [unfolded r]]
  have "buf_size b \<le> size_max"
    using size_le_capacity [OF bok] bok by (auto simp: buf_ok_def max_io_buffer_bytes_def)
  then show "frame_ok limit f \<and> 2 \<le> p" using s p by (auto simp: frame_ok_def split: if_splits)
qed

lemma handshake_phase_rank: "3 \<le> phase_rank (handshake_complete_phase c)"
  by (simp add: handshake_complete_phase_def)

lemma control_event_ok:
  assumes "ws_inv c" "env_ok env" "rank c \<le> 2" "op \<in> {Op_close, Op_ping, Op_pong}" "length payload \<le> 125"
    and "op = Op_close \<longrightarrow> websocket_close_payload_failure payload = None"
  shows "round_ok c (step_state (control_event env op payload c))" "control_event env op payload c \<noteq> Again d"
    "control_event env op payload c = Return ev d \<Longrightarrow> ev \<notin> Some ` (range Protocol_error_event \<union> range (case_prod Message_event))"
proof -
  have core: "ws_core c" using assms(1) by (simp add: ws_inv_def)
  have pong: "sendable Op_pong payload False" using assms(5) by (simp add: sendable_def)
  show "round_ok c (step_state (control_event env op payload c))"
  proof (cases "op = Op_ping")
    case True
    obtain ok c' where a: "append_frame env Op_pong payload False Copy False c = (ok, c')" by fastforce
    note ap = append_inv [OF core assms(2) pong refl a]
    have "round_ok c c'"
      using ap assms(1) by (auto simp: round_ok_def ws_inv_def no_close_sent_def same_but_output_def)
    then show ?thesis using True a by (simp add: control_event_def split: bool.splits)
  next
    case notping: False
    show ?thesis
    proof (cases "op = Op_pong")
      case True
      then show ?thesis using assms(1) by (simp add: control_event_def round_ok_refl)
    next
      case False
      then have close: "op = Op_close" using assms(4) notping by simp
      show ?thesis
      proof (cases "ws_close_phase c = Open")
        case True
        obtain ok c' where a: "append_frame env Op_close payload False Copy False c = (ok, c')" by fastforce
        have none: "no_close_sent c" using assms(1) True by (simp add: ws_inv_def)
        then have "Op_close \<in> set (map fst (ws_sent c)) \<Longrightarrow> Op_close = Op_pong"
          unfolding no_close_sent_def by blast
        note ap = append_inv [OF core assms(2) _ this a]
        have send: "sendable Op_close payload False" using assms(5,6) close by (simp add: sendable_def)
        note ap = ap [OF send]
        have "no_close_sent c'" if "\<not> ok" using ap(3) that none by (simp add: no_close_sent_def)
        then show ?thesis
          using ap handshake_phase_rank [of c'] True close a
          by (auto simp: control_event_def round_ok_def ws_inv_def same_but_output_def split: bool.splits)
      next
        case False
        have "round_ok c (receive_peer_close c)"
          using assms(1,3) False handshake_phase_rank [of c]
          by (auto simp: receive_peer_close_def round_ok_def ws_inv_def)
        then show ?thesis using close False by (simp add: control_event_def Let_def)
      qed
    qed
  qed
  show "control_event env op payload c \<noteq> Again d"
    by (auto simp: control_event_def Let_def split: prod.splits bool.splits)
  show "control_event env op payload c = Return ev d \<Longrightarrow> ev \<notin> Some ` (range Protocol_error_event \<union> range (case_prod Message_event))"
    by (auto simp: control_event_def Let_def split: prod.splits bool.splits if_splits)
qed

text \<open>A delivered message: while the connection is open, text or binary, within the limit, UTF-8 text.\<close>

definition delivered_ok :: "('k, 'd) websocket_connection \<Rightarrow> websocket_event option \<Rightarrow> bool" where
  "delivered_ok c ev \<longleftrightarrow>
     (case ev of
        Some (Message_event op payload) \<Rightarrow>
          ws_close_phase c = Open \<and> op \<in> {Op_text, Op_binary} \<and> length payload \<le> read_ceiling (ws_message_limit c) \<and>
          (op = Op_text \<longrightarrow> is_valid_utf8 payload)
      | _ \<Rightarrow> True)"

lemma core_assembler:
  "ws_core c \<Longrightarrow> assembler_ok (ws_message_limit c) a \<Longrightarrow> ws_core (c\<lparr>ws_assembler := a\<rparr>)"
  by (simp add: ws_core_def pending_output_def)

lemma release_inv:
  assumes "ws_inv c"
  shows "round_ok c (c\<lparr>ws_assembler := release_completed (ws_assembler c)\<rparr>)"
  using assms core_assembler [of c "release_completed (ws_assembler c)"] release_ok [of "ws_message_limit c" "ws_assembler c"]
  by (auto simp: round_ok_def ws_inv_def) (auto simp: ws_core_def)

lemma message_event_ok:
  assumes "ws_inv c" "env_ok env" "rank c \<le> 2"
    and "inbound_ok (ws_message_limit c) (Inbound_message op payload enc)"
  shows "round_ok c (step_state (message_event env op payload enc c))"
    "message_event env op payload enc c = Again d \<Longrightarrow> ws_input d = ws_input c \<and> ws_pending_consume d = ws_pending_consume c \<and>
       ws_close_phase d = ws_close_phase c"
    "message_event env op payload enc c = Return ev d \<Longrightarrow> delivered_ok c ev"
    "message_event env op payload enc c = Return (Some (Protocol_error_event code)) d \<Longrightarrow>
       (\<exists>e. code = websocket_protocol_failure_close_code e) \<and>
       (ws_close_phase d = Final_output_queued \<or> ws_close_phase d = Transport_end_ready)"
proof -
  have in_ok: "op \<in> {Op_text, Op_binary}" "length payload \<le> read_ceiling (ws_message_limit c)"
      "op = Op_text \<longrightarrow> enc = Identity \<longrightarrow> is_valid_utf8 payload"
    using assms(4) by (auto simp: inbound_ok_def)
  note rel = release_inv
  have all: "round_ok c (step_state (message_event env op payload enc c)) \<and>
    (\<forall>d. message_event env op payload enc c = Again d \<longrightarrow> ws_input d = ws_input c \<and>
       ws_pending_consume d = ws_pending_consume c \<and> ws_close_phase d = ws_close_phase c) \<and>
    (\<forall>ev d. message_event env op payload enc c = Return ev d \<longrightarrow> delivered_ok c ev) \<and>
    (\<forall>code d. message_event env op payload enc c = Return (Some (Protocol_error_event code)) d \<longrightarrow>
       (\<exists>e. code = websocket_protocol_failure_close_code e) \<and>
       (ws_close_phase d = Final_output_queued \<or> ws_close_phase d = Transport_end_ready))"
  proof (cases "enc = Identity")
    case True
    then show ?thesis
      using rel [OF assms(1)] assms(1) in_ok
      by (auto simp: message_event_def delivered_ok_def round_ok_refl)
  next
    case False
    show ?thesis
    proof (cases "ws_deflate c")
      case None
      then show ?thesis using False assms(1) by (simp add: message_event_def round_ok_refl)
    next
      case (Some z)
      obtain res out z' where dec: "deflate_decompress env payload (ws_message_limit c) z = ((res, out), z')"
        by (metis prod.collapse)
      define c1 where "c1 = c\<lparr>ws_deflate := Some z'\<rparr>"
      have c1: "ws_inv c1" "rank c1 \<le> 2" "round_ok c c1"
        using assms(1,3) by (simp_all add: c1_def round_ok_def ws_inv_def)
      note fe = failure_event_ok [OF c1(1) assms(2) c1(2)]
      have small: "res = Inflate_ok \<longrightarrow> length out \<le> read_ceiling (ws_message_limit c)"
        using assms(2) dec unfolding env_ok_def by blast
      have me: "message_event env op payload enc c =
        (if res = Inflate_too_large then protocol_failure_event env Message_too_large c1
         else if res \<noteq> Inflate_ok then protocol_failure_event env Protocol_error c1
         else if op = Op_text \<and> \<not> is_valid_utf8 out then protocol_failure_event env Invalid_payload_data c1
         else if ws_close_phase c1 \<noteq> Open then Again (c1\<lparr>ws_assembler := release_completed (ws_assembler c1)\<rparr>)
         else Return (Some (Message_event op out)) c1)"
        using False Some dec by (simp add: message_event_def c1_def Let_def)
      show ?thesis
      proof (cases "res = Inflate_ok \<and> \<not> (op = Op_text \<and> \<not> is_valid_utf8 out)")
        case True
        then show ?thesis
          using me c1 rel [OF c1(1)] round_ok_trans [OF c1(3)] in_ok(1) small
          by (auto simp: delivered_ok_def c1_def)
      next
        case bad: False
        then obtain e where e: "message_event env op payload enc c = protocol_failure_event env e c1"
          using me by (metis (full_types))
        show ?thesis
          unfolding e using fe(1,2) fe(3) round_ok_trans [OF c1(3)]
          by (fastforce simp: delivered_ok_def)
      qed
    qed
  qed
  show "round_ok c (step_state (message_event env op payload enc c))"
    "message_event env op payload enc c = Again d \<Longrightarrow> ws_input d = ws_input c \<and> ws_pending_consume d = ws_pending_consume c \<and>
       ws_close_phase d = ws_close_phase c"
    "message_event env op payload enc c = Return ev d \<Longrightarrow> delivered_ok c ev"
    "message_event env op payload enc c = Return (Some (Protocol_error_event code)) d \<Longrightarrow>
       (\<exists>e. code = websocket_protocol_failure_close_code e) \<and>
       (ws_close_phase d = Final_output_queued \<or> ws_close_phase d = Transport_end_ready)"
    using all by blast+
qed

text \<open>What every outcome of a round satisfies.\<close>

definition outcome_ok :: "('k, 'd) websocket_connection \<Rightarrow> ('k, 'd) event_step \<Rightarrow> bool" where
  "outcome_ok c s \<longleftrightarrow>
     round_ok c (step_state s) \<and>
     (\<forall>ev d. s = Return ev d \<longrightarrow> delivered_ok c ev) \<and>
     (\<forall>code d. s = Return (Some (Protocol_error_event code)) d \<longrightarrow>
        (\<exists>e. code = websocket_protocol_failure_close_code e) \<and>
        (ws_close_phase d = Final_output_queued \<or> ws_close_phase d = Transport_end_ready))"

lemma failure_outcome:
  assumes "ws_inv c" "env_ok env" "rank c \<le> 2"
  shows "outcome_ok c (protocol_failure_event env e c)"
  using failure_event_ok [OF assms] unfolding outcome_ok_def by (fastforce simp: delivered_ok_def)

lemma outcome_trans:
  assumes "round_ok b c" "ws_close_phase c = ws_close_phase b" "outcome_ok c s"
  shows "outcome_ok b s"
proof -
  have "delivered_ok c ev = delivered_ok b ev" for ev
    using assms(1,2) by (auto simp: delivered_ok_def round_ok_def split: option.splits websocket_event.splits)
  then show ?thesis
    using assms(3) round_ok_trans [OF assms(1)] unfolding outcome_ok_def by blast
qed

text \<open>The input bytes still to be read.\<close>

lemma event_round_ok:
  assumes inv: "ws_inv c" and env: "env_ok env" and rank: "rank c \<le> 2"
  shows "outcome_ok c (event_round env c)"
    "event_round env c = Again d \<Longrightarrow> pending_input_bytes d < pending_input_bytes c \<and> ws_close_phase d = ws_close_phase c"
proof -
  have core: "ws_core c" using inv by (simp add: ws_inv_def)
  obtain r b p where read: "websocket_try_read_frame (ws_input c) (ws_pending_consume c) (ws_message_limit c)
      (ws_deflate c \<noteq> None) (ws_role c = Server) = (r, b, p)" by (metis prod_cases3)
  note rd = read_round [OF core read]
  define c1 where "c1 = c\<lparr>ws_input := b, ws_pending_consume := p\<rparr>"
  have core1: "ws_core c1" using core rd(1,2) by (simp add: c1_def ws_core_def pending_output_def)
  have c1: "ws_inv c1" "round_ok c c1" "rank c1 \<le> 2" "ws_close_phase c1 = ws_close_phase c"
    using core1 inv rank by (simp_all add: c1_def round_ok_def ws_inv_def)
  note lift = outcome_trans [OF c1(2,4)]
  have all: "outcome_ok c (event_round env c) \<and>
    (\<forall>d. event_round env c = Again d \<longrightarrow> pending_input_bytes d < pending_input_bytes c \<and> ws_close_phase d = ws_close_phase c)"
  proof (cases r)
    case (Need_input n)
    have "ws_inv (c1\<lparr>ws_needed_input_bytes := n\<rparr>)" using c1(1) by (simp add: ws_inv_def)
    then have "outcome_ok c1 (Return None (c1\<lparr>ws_needed_input_bytes := n\<rparr>))"
      by (simp add: outcome_ok_def round_ok_def delivered_ok_def)
    then show ?thesis
      using read Need_input lift by (simp add: event_round_def c1_def [symmetric] Let_def)
  next
    case (Read_failure e)
    then have "event_round env c = protocol_failure_event env e c1"
      using read by (simp add: event_round_def c1_def Let_def)
    then show ?thesis
      using lift [OF failure_outcome [OF c1(1) env c1(3)]] failure_event_ok(2) [OF c1(1) env c1(3)] by simp
  next
    case (Read_frame f)
    have f: "frame_ok (ws_message_limit c1) f" "2 \<le> p" using rd(4) [OF Read_frame] by (simp_all add: c1_def)
    obtain ib a where acc: "assembler_accept f (ws_message_limit c1) (ws_assembler c1) = (ib, a)" by fastforce
    have limits: "assembler_ok (ws_message_limit c1) (ws_assembler c1)" "read_ceiling (ws_message_limit c1) \<le> size_max"
      using core1 by (simp_all add: ws_core_def)
    note ao = accept_ok [OF limits _ _ acc]
    have ib: "inbound_ok (ws_message_limit c1) ib" "assembler_ok (ws_message_limit c1) a"
      using ao f(1) by (auto simp: frame_ok_def)
    define c2 where "c2 = c1\<lparr>ws_assembler := a\<rparr>"
    have c2: "ws_inv c2" "round_ok c c2" "rank c2 \<le> 2" "ws_close_phase c2 = ws_close_phase c" "ws_message_limit c2 = ws_message_limit c1"
      using core_assembler [OF core1 ib(2)] c1 by (auto simp: c2_def ws_inv_def round_ok_def)
    note lift2 = outcome_trans [OF c2(2,4)]
    have less: "pending_input_bytes d < pending_input_bytes c"
      if "ws_input d = b" "ws_pending_consume d = p" for d :: "('a, 'b) websocket_connection"
      using that rd(2,3) f(2) by (simp add: pending_input_bytes_def)
    have er: "event_round env c = (case ib of
        Inbound_failure failure \<Rightarrow> protocol_failure_event env failure c2
      | Inbound_continue \<Rightarrow> Again c2
      | Inbound_control opcode payload \<Rightarrow> control_event env opcode payload c2
      | Inbound_message opcode payload encoding \<Rightarrow> message_event env opcode payload encoding c2)"
      using read Read_frame acc by (cases ib) (simp_all add: event_round_def c1_def c2_def Let_def)
    show ?thesis
    proof (cases ib)
      case Inbound_continue
      have "outcome_ok c2 (Again c2)" using c2(1) by (simp add: outcome_ok_def round_ok_refl)
      then show ?thesis
        using er Inbound_continue lift2 less [of c2] c2(4) by (auto simp: c2_def c1_def)
    next
      case (Inbound_control op payload)
      have ctl: "is_websocket_control_frame_kind (view_kind f)" "op = kind_opcode (view_kind f)" "payload = view_payload f"
        using acc Inbound_control by (auto simp: assembler_accept_def Let_def split: if_splits websocket_inbound_state.splits)
      have ops: "op \<in> {Op_close, Op_ping, Op_pong}" "length payload \<le> 125"
          "op = Op_close \<longrightarrow> websocket_close_payload_failure payload = None"
        using ctl f(1) by (cases "view_kind f"; auto simp: kind_opcode_def frame_ok_def)+
      note ce = control_event_ok [OF c2(1) env c2(3) ops]
      have "outcome_ok c2 (control_event env op payload c2)"
      proof -
        have plain: "delivered_ok c2 ev \<and> (\<forall>code. ev \<noteq> Some (Protocol_error_event code))"
          if "control_event env op payload c2 = Return ev d" for ev d
          using ce(3) [OF that] by (auto simp: delivered_ok_def image_iff split: option.splits websocket_event.splits)
        then show ?thesis using ce(1) unfolding outcome_ok_def by blast
      qed
      then show ?thesis using er Inbound_control lift2 ce(2) by auto
    next
      case (Inbound_message op payload enc)
      have "inbound_ok (ws_message_limit c2) (Inbound_message op payload enc)" using ib(1) Inbound_message c2(5) by simp
      note me = message_event_ok [OF c2(1) env c2(3) this]
      have "outcome_ok c2 (message_event env op payload enc c2)"
        using me(1) me(3) me(4) unfolding outcome_ok_def by blast
      from lift2 [OF this] have out: "outcome_ok c (event_round env c)" using er Inbound_message by simp
      have "pending_input_bytes d < pending_input_bytes c \<and> ws_close_phase d = ws_close_phase c"
        if "event_round env c = Again d" for d
        using me(2) [of d] that er Inbound_message less [of d] c2(4) by (simp add: c2_def c1_def)
      then show ?thesis using out by blast
    next
      case (Inbound_failure e)
      then show ?thesis
        using er lift2 [OF failure_outcome [OF c2(1) env c2(3)]] failure_event_ok(2) [OF c2(1) env c2(3)] by simp
    qed
  qed
  show "outcome_ok c (event_round env c)"
    "event_round env c = Again d \<Longrightarrow> pending_input_bytes d < pending_input_bytes c \<and> ws_close_phase d = ws_close_phase c"
    using all by blast+
qed

lemma event_loop_ok:
  "ws_inv c \<Longrightarrow> env_ok env \<Longrightarrow> rank c \<le> 2 \<Longrightarrow> pending_input_bytes c < fuel \<Longrightarrow>
     \<exists>s. event_loop fuel env c = Some s \<and> outcome_ok c s \<and> (\<forall>d. s \<noteq> Again d)"
proof (induction fuel arbitrary: c)
  case 0
  then show ?case by simp
next
  case (Suc fuel)
  note er = event_round_ok [OF Suc.prems(1-3)]
  show ?case
  proof (cases "event_round env c")
    case (Again d)
    note ag = er(2) [OF Again]
    have d: "round_ok c d" using er(1) Again by (simp add: outcome_ok_def)
    then have "ws_inv d" "rank d \<le> 2" using ag Suc.prems(3) by (simp_all add: round_ok_def)
    then obtain s where "event_loop fuel env d = Some s" "outcome_ok d s" "\<forall>e. s \<noteq> Again e"
      using Suc.IH [of d] ag Suc.prems(2,4) by auto
    then show ?thesis using Again outcome_trans [OF d] ag by simp
  next
    case (Return ev d)
    then show ?thesis using er(1) by simp
  next
    case (Throw d)
    then show ?thesis using er(1) by simp
  qed
qed

text \<open>One call of \<open>next_event\<close>.\<close>

lemma next_event_ok:
  assumes inv: "ws_inv c" and env: "env_ok env"
  shows "\<exists>r c'. ws_next_event env c = Some (r, c') \<and> round_ok c c' \<and>
    (\<forall>ev. r = Inr ev \<longrightarrow> delivered_ok c ev) \<and>
    (\<forall>code. r = Inr (Some (Protocol_error_event code)) \<longrightarrow>
      (\<exists>e. code = websocket_protocol_failure_close_code e) \<and>
      (ws_close_phase c' = Final_output_queued \<or> ws_close_phase c' = Transport_end_ready)) \<and>
    (3 \<le> rank c \<longrightarrow> r = Inr None \<or> r = Inr (Some Transport_end_event))"
proof -
  define c1 where "c1 = c\<lparr>ws_assembler := release_completed (ws_assembler c), ws_needed_input_bytes := 0\<rparr>"
  have c1: "round_ok c c1" "ws_close_phase c1 = ws_close_phase c"
    using release_inv [OF inv] by (auto simp: c1_def round_ok_def ws_inv_def)
  then have inv1: "ws_inv c1" by (simp add: round_ok_def)
  show ?thesis
  proof (cases "3 \<le> rank c")
    case True
    have disc: "round_ok c (discard_input c1)" if "ws_close_phase c = Awaiting_peer_eof"
    proof -
      have core: "ws_core c1" using inv1 by (simp add: ws_inv_def)
      then have "buf_ok (ws_input c1)" by (simp add: ws_core_def)
      then have "ws_core (discard_input c1)"
        using core consume_window(2) by (simp add: ws_core_def discard_input_def pending_output_def)
      then show ?thesis
        using c1 that by (auto simp: round_ok_def ws_inv_def discard_input_def)
    qed
    show ?thesis
      using True disc c1 by (cases "ws_close_phase c") (auto simp: ws_next_event_def c1_def [symmetric] Let_def delivered_ok_def)
  next
    case False
    then have early: "rank c1 \<le> 2" using c1(2) by simp
    have fuel: "pending_input_bytes c1 < Suc (buf_size (ws_input c1))" by (simp add: pending_input_bytes_def)
    obtain s where s: "event_loop (Suc (buf_size (ws_input c1))) env c1 = Some s" "outcome_ok c1 s" "\<forall>d. s \<noteq> Again d"
      using event_loop_ok [OF inv1 env early fuel] by blast
    have out: "outcome_ok c s" by (rule outcome_trans [OF c1 s(2)])
    have ne: "ws_next_event env c = (case s of
        Again c' \<Rightarrow> None
      | Return e c' \<Rightarrow> Some (Inr e, c')
      | Throw c' \<Rightarrow> Some (Inl (), if ws_close_phase c' \<noteq> Closed then c'\<lparr>ws_close_phase := Transport_end_ready\<rparr> else c'))"
      using False s(1) c1(2)
      by (cases "ws_close_phase c") (auto simp: ws_next_event_def c1_def [symmetric] Let_def)
    show ?thesis
    proof (cases s)
      case (Again d)
      then show ?thesis using s(3) by simp
    next
      case (Return ev d)
      then show ?thesis using ne out False by (auto simp: outcome_ok_def)
    next
      case (Throw d)
      then have "round_ok c d" using out by (simp add: outcome_ok_def)
      then have "round_ok c (if ws_close_phase d \<noteq> Closed then d\<lparr>ws_close_phase := Transport_end_ready\<rparr> else d)"
        using False by (auto simp: round_ok_def ws_inv_def)
      then show ?thesis using ne Throw False by auto
    qed
  qed
qed

end
