(* ===== verification/Websocket_Runs.thy ===== *)
theory Websocket_Runs
  imports Websocket_Invariant
begin

text \<open>
  Runs of a WebSocket connection: one rule per public operation, labelled with what it returned,
  and the properties that hold in every reachable state.
\<close>

subsection \<open>The other operations keep the invariant\<close>

lemma feed_ok:
  assumes inv: "ws_inv c" and src: "source_ok (ws_input c) src" and f: "ws_feed src c = (st, c')"
  shows "round_ok c c'" "ws_close_phase c' = ws_close_phase c"
    "st = Some Feed_accepted \<Longrightarrow> liveness_mode c \<noteq> Live_awaiting_peer_eof \<Longrightarrow>
       drop (ws_pending_consume c') (buf_view (ws_input c')) =
       drop (ws_pending_consume c) (buf_view (ws_input c)) @ source_view (ws_input c) src \<and>
       pending_input_bytes c' \<le> ws_max_buffered_input_bytes c"
    "st \<noteq> Some Feed_accepted \<Longrightarrow> drop (ws_pending_consume c') (buf_view (ws_input c')) =
       drop (ws_pending_consume c) (buf_view (ws_input c))"
proof -
  have core: "ws_core c" and b: "buf_ok (ws_input c)" "ws_pending_consume c \<le> buf_size (ws_input c)"
    using inv by (simp_all add: ws_inv_def ws_core_def)
  have lb: "length (buf_view (ws_input c)) = buf_size (ws_input c)" by (rule length_view [OF b(1)])
  define r where "r = release_consumed_input c"
  have rel: "ws_inv r" "round_ok c r" "ws_close_phase r = ws_close_phase c" "ws_pending_consume r = 0"
      "buf_view (ws_input r) = drop (ws_pending_consume c) (buf_view (ws_input c))" "buf_ok (ws_input r)"
    using inv core consume_window [OF b(1), of "ws_pending_consume c"]
    by (auto simp: r_def release_consumed_input_def ws_inv_def ws_core_def round_ok_def pending_output_def
        no_close_sent_def buf_view_def drop_map)
  have storage: "source_bytes (ws_input r) src = source_bytes (ws_input c) src" "source_ok (ws_input r) src"
  proof -
    have "buf_storage (ws_input r) = buf_storage (ws_input c)"
      by (auto simp: r_def release_consumed_input_def buf_consume_def buf_clear_def Let_def)
    then show "source_bytes (ws_input r) src = source_bytes (ws_input c) src" "source_ok (ws_input r) src"
      using src by (auto simp: source_bytes_def source_ok_def buf_capacity_def split: byte_source.splits)
  qed
  have app: "round_ok c d' \<and> ws_close_phase d' = ws_close_phase c \<and>
      drop (ws_pending_consume d') (buf_view (ws_input d')) =
        drop (ws_pending_consume c) (buf_view (ws_input c)) @ source_view (ws_input c) src \<and>
      pending_input_bytes d' = pending_input_bytes c + source_size src"
    if d: "d = c \<or> d = r" and a: "buf_append src (ws_input d) = Some bb" and d': "d' = d\<lparr>ws_input := bb\<rparr>" for d d' bb
  proof -
    have dok: "ws_inv d" "round_ok c d" "ws_close_phase d = ws_close_phase c" "buf_ok (ws_input d)"
        "source_ok (ws_input d) src" "source_view (ws_input d) src = source_view (ws_input c) src"
      using d inv rel b src storage by (auto simp: round_ok_refl source_view_def)
    have pend: "ws_pending_consume d \<le> length (buf_view (ws_input d))"
      "drop (ws_pending_consume d) (buf_view (ws_input d)) = drop (ws_pending_consume c) (buf_view (ws_input c))"
      using d rel b lb by auto
    note w = append_window [OF dok(4,5) a]
    have view: "buf_view bb = buf_view (ws_input d) @ source_view (ws_input c) src"
      using view_append [OF w(1)] dok(6) by (simp add: source_view_def)
    have lsrc: "length (source_view (ws_input c) src) = source_size src"
      using length_source_bytes [OF src] by (simp add: source_view_def)
    have size: "buf_size bb = buf_size (ws_input d) + source_size src"
      using arg_cong [OF view, of length] length_view [OF w(2)] length_view [OF dok(4)] lsrc by simp
    have "ws_inv d'"
      using dok(1) w(2) size by (auto simp: d' ws_inv_def ws_core_def pending_output_def no_close_sent_def)
    moreover have "pending_input_bytes d = pending_input_bytes c"
      using arg_cong [OF pend(2), of length] lb length_view [OF dok(4)] by (simp add: pending_input_bytes_def)
    ultimately show ?thesis
      using dok(2,3) pend view size length_view [OF dok(4)]
      by (auto simp: d' round_ok_def pending_input_bytes_def)
  qed
  have all: "round_ok c c' \<and> ws_close_phase c' = ws_close_phase c \<and>
    (st = Some Feed_accepted \<longrightarrow> liveness_mode c \<noteq> Live_awaiting_peer_eof \<longrightarrow>
       drop (ws_pending_consume c') (buf_view (ws_input c')) =
       drop (ws_pending_consume c) (buf_view (ws_input c)) @ source_view (ws_input c) src \<and>
       pending_input_bytes c' \<le> ws_max_buffered_input_bytes c) \<and>
    (st \<noteq> Some Feed_accepted \<longrightarrow> drop (ws_pending_consume c') (buf_view (ws_input c')) =
       drop (ws_pending_consume c) (buf_view (ws_input c)))"
  proof (cases "liveness_mode c = Live_inactive \<or> liveness_mode c = Live_awaiting_peer_eof")
    case True
    then show ?thesis using f inv by (auto simp: ws_feed_def Let_def round_ok_refl)
  next
    case live: False
    have pib: "pending_input_bytes c \<le> buf_size (ws_input c)" by (simp add: pending_input_bytes_def)
    show ?thesis
    proof (cases "buf_size (ws_input c) > ws_max_buffered_input_bytes c \<or>
        source_size src > ws_max_buffered_input_bytes c - buf_size (ws_input c)")
      case False
      show ?thesis
      proof (cases "buf_append src (ws_input c)")
        case None
        then show ?thesis using f live False inv by (auto simp: ws_feed_def Let_def round_ok_refl)
      next
        case (Some bb)
        then have "st = Some Feed_accepted" "c' = c\<lparr>ws_input := bb\<rparr>"
          using f live False by (auto simp: ws_feed_def Let_def)
        then show ?thesis using app [of c bb c'] Some False pib by auto
      qed
    next
      case True
      show ?thesis
      proof (cases "pending_input_bytes c > ws_max_buffered_input_bytes c \<or>
          source_size src > ws_max_buffered_input_bytes c - pending_input_bytes c")
        case full: True
        then show ?thesis using f live True inv by (auto simp: ws_feed_def Let_def round_ok_refl)
      next
        case False
        show ?thesis
        proof (cases "buf_append src (ws_input r)")
          case None
          then have "st = None" "c' = r" using f live True False by (auto simp: ws_feed_def Let_def r_def [symmetric])
          then show ?thesis using rel by auto
        next
          case (Some bb)
          then have "st = Some Feed_accepted" "c' = r\<lparr>ws_input := bb\<rparr>"
            using f live True False by (auto simp: ws_feed_def Let_def r_def [symmetric])
          then show ?thesis using app [of r bb c'] Some False by auto
        qed
      qed
    qed
  qed
  show "round_ok c c'" "ws_close_phase c' = ws_close_phase c"
    "st = Some Feed_accepted \<Longrightarrow> liveness_mode c \<noteq> Live_awaiting_peer_eof \<Longrightarrow>
       drop (ws_pending_consume c') (buf_view (ws_input c')) =
       drop (ws_pending_consume c) (buf_view (ws_input c)) @ source_view (ws_input c) src \<and>
       pending_input_bytes c' \<le> ws_max_buffered_input_bytes c"
    "st \<noteq> Some Feed_accepted \<Longrightarrow> drop (ws_pending_consume c') (buf_view (ws_input c')) =
       drop (ws_pending_consume c) (buf_view (ws_input c))"
    using all by blast+
qed

lemma append_open:
  assumes "ws_inv c" "env_ok env" "sendable op payload rsv1" "ws_close_phase c = Open" "op \<noteq> Op_close"
    and "append_frame env op payload rsv1 sto aliases c = (ok, c')"
  shows "ws_inv c'" "same_but_output c c'" "ws_close_phase c' = Open"
proof -
  have core: "ws_core c" and none: "no_close_sent c" using assms(1,4) by (simp_all add: ws_inv_def)
  have "Op_close \<in> set (map fst (ws_sent c)) \<Longrightarrow> op = Op_pong" using none unfolding no_close_sent_def by blast
  note ap = append_inv [OF core assms(2,3) this assms(6)]
  show "same_but_output c c'" by (rule ap(2))
  then show "ws_close_phase c' = Open" using assms(4) by (simp add: same_but_output_def)
  show "ws_inv c'" using ap(1,3) none assms(5) by (auto simp: ws_inv_def no_close_sent_def)
qed

lemma submit_try_ok:
  assumes inv: "ws_inv c" and env: "env_ok env" and open_c: "ws_close_phase c = Open"
    and op: "op \<in> {Op_text, Op_binary, Op_ping, Op_pong}" "attempt \<longrightarrow> op \<in> {Op_text, Op_binary}"
    and size: "length payload < 2 ^ 63" "op \<in> {Op_ping, Op_pong} \<longrightarrow> length payload \<le> 125"
    and t: "submit_try env op payload attempt sto aliases c = (ok, c')"
  shows "round_ok c c'" "ws_close_phase c' = Open"
proof -
  have plain: "sendable op payload False" using op(1) size by (auto simp: sendable_def)
  have frame: "round_ok c d' \<and> ws_close_phase d' = Open"
    if a: "append_frame env op p r s al (c\<lparr>ws_deflate := z\<rparr>) = (k, d')" and sd: "sendable op p r" for p r s al z k d'
  proof -
    have "ws_inv (c\<lparr>ws_deflate := z\<rparr>)" using inv by (simp add: ws_inv_def)
    from append_open [OF this env sd _ _ a] open_c op(1) show ?thesis
      by (auto simp: round_ok_def same_but_output_def)
  qed
  have keep: "round_ok c (c\<lparr>ws_deflate := z\<rparr>)" for z using inv by (auto simp: round_ok_def ws_inv_def)
  have same: "c\<lparr>ws_deflate := ws_deflate c\<rparr> = c" by simp
  have "round_ok c c' \<and> ws_close_phase c' = Open"
  proof (cases "if attempt then ws_deflate c else None")
    case None
    then have "append_frame env op payload False sto aliases (c\<lparr>ws_deflate := ws_deflate c\<rparr>) = (ok, c')"
      using t by (simp add: submit_try_def)
    then show ?thesis using frame plain by blast
  next
    case (Some d)
    then have at: "attempt" by (simp split: if_splits)
    obtain res d' where comp: "deflate_compress env payload d = (res, d')" by fastforce
    have deflated: "sendable op z True" if "length z < length payload" for z
      using that size(1) op at by (auto simp: sendable_def)
    show ?thesis
    proof (cases "\<exists>z. res = Some z \<and> length z < length payload")
      case True
      then obtain z where z: "res = Some z" "length z < length payload" by blast
      then have "append_frame env op z True Copy False (c\<lparr>ws_deflate := Some d'\<rparr>) = (ok, c')"
        using t Some comp by (simp add: submit_try_def)
      then show ?thesis using frame deflated [OF z(2)] by blast
    next
      case False
      show ?thesis
      proof (cases "deflate_discard env d'")
        case None
        then have "c' = c\<lparr>ws_deflate := Some d'\<rparr>"
          using t Some comp False by (auto simp: submit_try_def split: option.splits if_splits)
        then show ?thesis using keep open_c by simp
      next
        case (Some d'')
        then have "append_frame env op payload False sto aliases (c\<lparr>ws_deflate := Some d''\<rparr>) = (ok, c')"
          using t \<open>(if attempt then ws_deflate c else None) = Some d\<close> comp False
          by (auto simp: submit_try_def split: option.splits if_splits)
        then show ?thesis using frame plain by blast
      qed
    qed
  qed
  then show "round_ok c c'" "ws_close_phase c' = Open" by simp_all
qed

lemma submit_ok:
  assumes inv: "ws_inv c" and env: "env_ok env" and size: "length payload < 2 ^ 63"
    and s: "ws_submit env op payload compress sto aliases c = (st, c')"
  shows "round_ok c c'"
proof (cases "ws_close_phase c = Open \<and> op \<in> {Op_text, Op_binary, Op_ping, Op_pong} \<and>
    \<not> (op \<in> {Op_text, Op_binary} \<and> limit_exceeds (ws_message_limit c) (length payload)) \<and>
    \<not> (op = Op_text \<and> \<not> is_valid_utf8 payload) \<and> \<not> (op \<in> {Op_ping, Op_pong} \<and> length payload > 125)")
  case False
  then have "c' = c" using s by (cases op) (auto simp: ws_submit_def Let_def split: if_splits)
  then show ?thesis using inv by (simp add: round_ok_refl)
next
  case True
  define attempt where "attempt \<longleftrightarrow> op \<in> {Op_text, Op_binary} \<and> compress \<and> ws_deflate c \<noteq> None"
  obtain ok d where t: "submit_try env op payload attempt sto aliases c = (ok, d)" by fastforce
  have ops: "op \<in> {Op_text, Op_binary, Op_ping, Op_pong}" "attempt \<longrightarrow> op \<in> {Op_text, Op_binary}"
      "op \<in> {Op_ping, Op_pong} \<longrightarrow> length payload \<le> 125" "ws_close_phase c = Open"
    using True by (auto simp: attempt_def)
  note tr = submit_try_ok [OF inv env ops(4) ops(1,2) size ops(3) t]
  have "c' = d \<or> c' = d\<lparr>ws_close_phase := Transport_end_ready\<rparr> \<or> (\<exists>z. c' = d\<lparr>ws_deflate := z\<rparr>)"
    using s True t unfolding attempt_def
    by (cases ok) (auto simp: ws_submit_def Let_def split: if_splits option.splits)
  then show ?thesis using tr ops(4) by (auto simp: round_ok_def ws_inv_def)
qed

lemma submit_close_ok:
  assumes inv: "ws_inv c" and env: "env_ok env" and code: "close_code_valid code"
    and s: "ws_submit_close env code reason c = (st, c')"
  shows "round_ok c c'"
proof (cases "ws_close_phase c = Open \<and> \<not> (ws_role c = Server \<and> code = 1010) \<and>
    (\<exists>p. encode_websocket_close_payload code reason = Inr p)")
  case False
  then have "c' = c"
    using s by (auto simp: ws_submit_close_def split: if_splits sum.splits websocket_close_payload_encode_error.splits)
  then show ?thesis using inv by (simp add: round_ok_refl)
next
  case True
  then obtain p where p: "encode_websocket_close_payload code reason = Inr p" by blast
  obtain ok d where a: "append_frame env Op_close p False Copy False c = (ok, d)" by fastforce
  have core: "ws_core c" and none: "no_close_sent c" using inv True by (simp_all add: ws_inv_def)
  then have "Op_close \<in> set (map fst (ws_sent c)) \<Longrightarrow> Op_close = Op_pong" unfolding no_close_sent_def by blast
  note ap = append_inv [OF core env close_code_sendable [OF p code] this a]
  have "c' = (if ok then d\<lparr>ws_close_phase := Local_close_queued\<rparr> else d)"
    using s True p a by (auto simp: ws_submit_close_def split: bool.splits)
  then show ?thesis
    using ap none True by (cases ok) (auto simp: round_ok_def ws_inv_def same_but_output_def no_close_sent_def)
qed

lemma consume_ok:
  assumes inv: "ws_inv c" and s: "ws_consume_output n c = (st, c')"
  shows "ws_inv c'" "rank c \<le> rank c'" "ws_role c' = ws_role c" "ws_message_limit c' = ws_message_limit c"
proof -
  have core: "ws_core c" using inv by (simp add: ws_inv_def)
  then have off: "ws_out_offset c \<le> length (ws_out_buffer c)" by (simp add: ws_core_def)
  note cp = consume_output_pending [OF off s]
  have stream: "ws_written c' @ pending_output c' = frames_wire (ws_sent c')"
  proof (cases "n \<le> length (pending_output c)")
    case True
    then have "ws_written c' @ pending_output c' = ws_written c @ take n (pending_output c) @ drop n (pending_output c)"
      using cp(3) by simp
    also have "\<dots> = ws_written c @ pending_output c" by (simp only: append_take_drop_id)
    finally show ?thesis using core cp(5) by (simp add: ws_core_def)
  next
    case False
    then show ?thesis using cp(2,4) core by (simp add: ws_core_def)
  qed
  have phase: "ws_close_phase c' = Open \<longrightarrow> ws_close_phase c = Open"
    using s by (auto simp: ws_consume_output_def Let_def split: if_splits)
  show "ws_inv c'"
    using core stream cp(1,5-11) phase inv by (auto simp: ws_inv_def ws_core_def no_close_sent_def)
  show "rank c \<le> rank c'"
    using s by (cases "ws_close_phase c") (auto simp: ws_consume_output_def Let_def split: if_splits)
  show "ws_role c' = ws_role c" "ws_message_limit c' = ws_message_limit c" by (rule cp(6), rule cp(10))
qed

subsection \<open>Steps and reachable states\<close>

datatype ws_label =
    Fed "websocket_feed_status option"
  | Polled "unit + websocket_event option"
  | Submitted websocket_opcode "websocket_frame_submit_status option"
  | Close_submitted "websocket_close_submit_status option"
  | Consumed nat websocket_output_consume_status
  | Committed
  | Eof
  | Aborted websocket_abort_disposition

text \<open>
  One call of a public operation. An appended view is foreign or lies in the input buffer; a
  payload has the size of an object, a Close code is a validated one
  (\<open>websocket_close_code\<close>).
\<close>

inductive ws_step ::
  "('k, 'd) ws_env \<Rightarrow> ('k, 'd) websocket_connection \<Rightarrow> ws_label \<Rightarrow> ('k, 'd) websocket_connection \<Rightarrow> bool"
  for env where
  feed: "source_ok (ws_input c) src \<Longrightarrow> ws_feed src c = (st, c') \<Longrightarrow> ws_step env c (Fed st) c'"
| poll: "ws_next_event env c = Some (r, c') \<Longrightarrow> ws_step env c (Polled r) c'"
| submit: "length payload < 2 ^ 63 \<Longrightarrow> ws_submit_frame env op payload compress aliases c = (st, c') \<Longrightarrow>
    ws_step env c (Submitted op st) c'"
| borrow: "length payload < 2 ^ 63 \<Longrightarrow> ws_submit_borrowed_frame env op payload compress aliases c = (st, c') \<Longrightarrow>
    ws_step env c (Submitted op st) c'"
| close: "close_code_valid code \<Longrightarrow> ws_submit_close env code reason c = (st, c') \<Longrightarrow>
    ws_step env c (Close_submitted st) c'"
| consume: "ws_consume_output n c = (st, c') \<Longrightarrow> ws_step env c (Consumed n st) c'"
| commit: "ws_step env c Committed (ws_commit_transport_end c)"
| eof: "ws_step env c Eof (ws_notify_transport_eof c)"
| abort: "ws_abort c = (st, c') \<Longrightarrow> ws_step env c (Aborted st) c'"

inductive_cases ws_step_cases: "ws_step env c l c'"

inductive ws_run ::
  "('k, 'd) ws_env \<Rightarrow> ('k, 'd) websocket_connection \<Rightarrow> ws_label list \<Rightarrow> ('k, 'd) websocket_connection \<Rightarrow> bool"
  for env where
  stop: "ws_run env c [] c"
| step: "ws_step env c l c' \<Longrightarrow> ws_run env c' ls d \<Longrightarrow> ws_run env c (l # ls) d"

inductive_simps ws_run_Nil: "ws_run env c [] d"
inductive_simps ws_run_Cons: "ws_run env c (l # ls) d"

definition ws_fresh :: "('k, 'd) websocket_connection \<Rightarrow> bool" where
  "ws_fresh c \<longleftrightarrow>
     (\<exists>make_deflate input keys options. make_websocket_connection make_deflate input keys options = Some c \<and>
        buf_ok input \<and> read_ceiling (opt_message_limit options) \<le> size_max)"

lemma fresh_inv:
  assumes "ws_fresh c"
  shows "ws_inv c \<and> ws_close_phase c = Open"
proof -
  obtain mk :: "websocket_deflater_config \<Rightarrow> bool \<Rightarrow> bool \<Rightarrow> int \<Rightarrow> int \<Rightarrow> 'b"
    and input and keys :: 'a and options where
    c: "make_websocket_connection mk input keys options = Some c" and
    ok: "buf_ok input" "read_ceiling (opt_message_limit options) \<le> size_max"
    using assms unfolding ws_fresh_def by blast
  obtain codec where codec: "initialize_codecs mk options = Inr codec"
    using c by (cases "initialize_codecs mk options") (auto simp: make_websocket_connection_def)
  show ?thesis
    using c ok unfolding make_websocket_connection_def codec
    by (auto simp: ws_inv_def ws_core_def no_close_sent_def pending_output_def
        frames_wire_def assembler_ok_def initial_assembler_def)
qed

lemma step_inv:
  assumes "ws_step env c l c'" "ws_inv c" "env_ok env"
  shows "ws_inv c' \<and> rank c \<le> rank c' \<and> ws_role c' = ws_role c \<and> ws_message_limit c' = ws_message_limit c"
  using assms(1)
proof (cases rule: ws_step.cases)
  case (feed src st)
  then show ?thesis using feed_ok(1) [OF assms(2)] by (auto simp: round_ok_def)
next
  case (poll r)
  then show ?thesis using next_event_ok [OF assms(2,3)] by (auto simp: round_ok_def)
next
  case (submit payload op compress aliases st)
  then show ?thesis using submit_ok [OF assms(2,3)] by (auto simp: ws_submit_frame_def round_ok_def)
next
  case (borrow payload op compress aliases st)
  then show ?thesis using submit_ok [OF assms(2,3)] by (auto simp: ws_submit_borrowed_frame_def round_ok_def)
next
  case (close code reason st)
  then show ?thesis using submit_close_ok [OF assms(2,3)] by (auto simp: round_ok_def)
next
  case (consume n st)
  then show ?thesis using consume_ok [OF assms(2)] by blast
next
  case commit
  then show ?thesis using assms(2) by (auto simp: ws_commit_transport_end_def ws_inv_def)
next
  case eof
  have "phase_rank p \<le> 5 \<or> p = Closed" for p by (cases p) simp_all
  then show ?thesis using eof assms(2) by (auto simp: ws_notify_transport_eof_def ws_inv_def)
next
  case (abort st)
  have "phase_rank p \<le> 6" for p by (cases p) simp_all
  then show ?thesis using abort assms(2) by (auto simp: ws_abort_def ws_inv_def split: if_splits)
qed

lemma ws_run_inv:
  "ws_run env c ls d \<Longrightarrow> ws_inv c \<Longrightarrow> env_ok env \<Longrightarrow>
     ws_inv d \<and> rank c \<le> rank d \<and> ws_role d = ws_role c \<and> ws_message_limit d = ws_message_limit c"
proof (induction rule: ws_run.induct)
  case (stop c)
  then show ?case by simp
next
  case (step c l c' ls d)
  then show ?case using step_inv [OF step.hyps(1) step.prems] by auto
qed

lemma fresh_run_inv: "ws_fresh c \<Longrightarrow> env_ok env \<Longrightarrow> ws_run env c ls d \<Longrightarrow> ws_inv d"
  using fresh_inv ws_run_inv by blast

subsection \<open>The peer reading the output\<close>

text \<open>Every frame a reader finds in a byte string, in order.\<close>

function scan_frames :: "protocol_byte_limit \<Rightarrow> bool \<Rightarrow> bool \<Rightarrow> bytes \<Rightarrow> websocket_frame_view list" where
  "scan_frames limit deflate masked v =
     (case scan_frame limit deflate masked v of
        (Read_frame f, n) \<Rightarrow> if 0 < n \<and> n \<le> length v then f # scan_frames limit deflate masked (drop n v) else []
      | _ \<Rightarrow> [])"
  by pat_completeness auto

termination by (relation "measure (\<lambda>(limit, deflate, masked, v). length v)") auto

declare scan_frames.simps [simp del]

definition sent_view :: "websocket_opcode \<times> bytes \<times> bool \<times> bytes option \<Rightarrow> websocket_frame_view" where
  "sent_view = (\<lambda>(op, payload, rsv1, key).
     \<lparr>view_kind = opcode_kind op, view_payload = payload, view_final = True, view_compressed = rsv1\<rparr>)"

definition readable_by :: "protocol_byte_limit \<Rightarrow> bool \<Rightarrow> websocket_opcode \<times> bytes \<times> bool \<times> bytes option \<Rightarrow> bool" where
  "readable_by limit deflate = (\<lambda>(op, payload, rsv1, key). within_limit limit op payload \<and> (rsv1 \<longrightarrow> deflate))"

lemma scan_frames_wire:
  "list_all (sent_ok role) fs \<Longrightarrow> list_all (readable_by limit deflate) fs \<Longrightarrow>
     scan_frames limit deflate (role = Client) (frames_wire fs) = map sent_view fs"
proof (induction fs)
  case Nil
  then show ?case by (subst scan_frames.simps) (simp add: frames_wire_def scan_frame_short)
next
  case (Cons f fs)
  obtain op payload rsv1 key where f: "f = (op, payload, rsv1, key)" by (metis prod_cases4)
  have ok: "sendable op payload rsv1" "key \<noteq> None \<longleftrightarrow> role = Client" "\<And>k. key = Some k \<Longrightarrow> length k = 4"
      "within_limit limit op payload" "rsv1 \<longrightarrow> deflate"
    using Cons.prems by (auto simp: f sent_ok_def readable_by_def)
  let ?w = "frame_wire op payload rsv1 key"
  have wire: "frames_wire (f # fs) = ?w @ frames_wire fs" by (simp add: frames_wire_def f)
  have pos: "0 < length ?w" using length_header [of op "length payload"] by (simp add: frame_wire_def)
  have scan: "scan_frame limit deflate (role = Client) (?w @ frames_wire fs)
      = (Read_frame (sent_view f), length ?w)"
    using scan_frame_wire [OF ok(1,4,5), of key "frames_wire fs"] ok(2,3) by (simp add: f sent_view_def)
  show ?case
    unfolding wire using scan pos Cons by (subst scan_frames.simps) simp
qed

lemma close_order_nth:
  "close_order ops \<Longrightarrow> i < j \<Longrightarrow> j < length ops \<Longrightarrow> ops ! i = Op_close \<Longrightarrow> ops ! j = Op_pong"
proof (induction ops arbitrary: i j)
  case Nil
  then show ?case by simp
next
  case (Cons op ops)
  then show ?case by (cases i; cases j) (auto simp: list_all_length split: if_splits)
qed

text \<open>Once the end is settled, it stays settled.\<close>

definition ending :: "('k, 'd) websocket_connection \<Rightarrow> bool" where
  "ending c \<longleftrightarrow> ws_close_phase c \<in> {Final_output_queued, Transport_end_ready, Closed}"

lemma ending_step: "ws_step env c l c' \<Longrightarrow> ending c \<Longrightarrow> ending c'"
  by (auto elim!: ws_step_cases
      simp: ending_def ws_feed_def liveness_mode_def ws_next_event_def ws_submit_frame_def ws_submit_borrowed_frame_def
        ws_submit_def ws_submit_close_def ws_consume_output_def ws_commit_transport_end_def ws_notify_transport_eof_def
        ws_abort_def Let_def split: if_splits)

lemma ending_run: "ws_run env c ls d \<Longrightarrow> ending c \<Longrightarrow> ending d"
  by (induction rule: ws_run.induct) (auto dest: ending_step)

lemma ending_poll: "ending c \<Longrightarrow> \<exists>c'. ws_next_event env c = Some (Inr (Some Transport_end_event), c')"
  by (auto simp: ending_def ws_next_event_def Let_def)

subsection \<open>Properties\<close>

text \<open>
  Property C32. Whatever sequence of calls a connection goes through, the bytes it has handed to
  the transport followed by those still queued are exactly the wire forms of the frames it sent,
  and a peer's reader splits them into these frames again: no operation, exception, compaction or
  borrowed payload ever corrupts or reorders the output stream.
\<close>

theorem websocket_output_framed:
  assumes "ws_fresh c" "env_ok env" "ws_run env c ls d"
    and "list_all (readable_by limit deflate) (ws_sent d)"
  shows "ws_written d @ pending_output d = frames_wire (ws_sent d) \<and>
    scan_frames limit deflate (ws_role d = Client) (ws_written d @ pending_output d) = map sent_view (ws_sent d)"
  using fresh_run_inv [OF assms(1-3)] scan_frames_wire [OF _ assms(4)] by (auto simp: ws_inv_def ws_core_def)

text \<open>
  Property C33. A connection sends at most one Close frame, and after it only Pongs: no data frame
  or Ping follows a Close on the wire (RFC 6455 section 5.5.1), whichever side started the closing
  handshake and whatever failed.
\<close>

theorem websocket_close_discipline:
  assumes "ws_fresh c" "env_ok env" "ws_run env c ls d"
    and "i < j" "j < length (ws_sent d)" "fst (ws_sent d ! i) = Op_close"
  shows "fst (ws_sent d ! j) = Op_pong"
  using fresh_run_inv [OF assms(1-3)] close_order_nth [of "map fst (ws_sent d)" i j] assms(4-6)
  by (simp add: ws_inv_def ws_core_def)

text \<open>
  The closing handshake only moves forward: along any sequence of calls the phase
  never returns to an earlier stage, so a connection that left the open state is never open again
  and one whose transport ended stays ended; while it is open no Close has been sent.
\<close>

theorem websocket_phase_monotone:
  assumes "ws_fresh c" "env_ok env" "ws_run env c ls d" "ws_run env d ms e"
  shows "phase_rank (ws_close_phase d) \<le> phase_rank (ws_close_phase e) \<and>
    (liveness_mode e = Live_open \<longrightarrow> liveness_mode d = Live_open \<and> Op_close \<notin> set (map fst (ws_sent e)))"
proof -
  have inv: "ws_inv d" by (rule fresh_run_inv [OF assms(1-3)])
  note r = ws_run_inv [OF assms(4) inv assms(2)]
  have "liveness_mode x = Live_open \<longleftrightarrow> ws_close_phase x = Open" for x :: "('a, 'b) websocket_connection"
    by (cases "ws_close_phase x") (simp_all add: liveness_mode_def)
  then show ?thesis using r by (auto simp: ws_inv_def no_close_sent_def)
qed

text \<open>
  Property C34. \<open>next_event\<close> always returns: in every reachable state the loop over
  frames ends within as many rounds as there are unread input bytes, whatever those bytes are.
\<close>

theorem next_event_terminates:
  assumes "ws_fresh c" "env_ok env" "ws_run env c ls d"
  shows "\<exists>r d'. ws_next_event env d = Some (r, d')"
  using next_event_ok [OF fresh_run_inv [OF assms] assms(2)] by blast


text \<open>
  Property C36. A protocol violation is final: the event carries one of the Close codes 1002, 1007
  and 1009, and in every state the connection can reach afterwards \<open>next_event\<close> reports
  only the transport end and new frames are refused.
\<close>

theorem protocol_error_is_final:
  assumes "ws_fresh c" "env_ok env" "ws_run env c ls d"
    and "ws_next_event env d = Some (Inr (Some (Protocol_error_event code)), d')" "ws_run env d' ms e"
  shows "code \<in> {1002, 1007, 1009} \<and> (\<exists>e'. ws_next_event env e = Some (Inr (Some Transport_end_event), e')) \<and>
    ws_submit_frame env op payload compress aliases e = (Some Submit_not_open, e)"
proof -
  have n: "\<exists>x. code = websocket_protocol_failure_close_code x" "ending d'"
    using next_event_ok [OF fresh_run_inv [OF assms(1-3)] assms(2)] assms(4) by (auto simp: ending_def)
  from n(1) obtain x where "code = websocket_protocol_failure_close_code x" by blast
  then have "code \<in> {1002, 1007, 1009}" by (cases x) (simp_all add: websocket_protocol_failure_close_code_def)
  moreover have "ending e" by (rule ending_run [OF assms(5) n(2)])
  ultimately show ?thesis
    using ending_poll [of e env] by (auto simp: ending_def ws_submit_frame_def ws_submit_def)
qed

text \<open>
  Input is neither lost nor unbounded: an accepted feed, of foreign bytes or of a view
  of the input buffer itself, extends the unread input by exactly those bytes and keeps it within
  the configured bound; a feed that is refused changes nothing that is unread.
\<close>

theorem feed_bounded_and_exact:
  assumes "ws_fresh c" "env_ok env" "ws_run env c ls d"
    and "source_ok (ws_input d) src" "ws_feed src d = (st, d')" "liveness_mode d \<noteq> Live_awaiting_peer_eof"
  shows "drop (ws_pending_consume d') (buf_view (ws_input d'))
      = drop (ws_pending_consume d) (buf_view (ws_input d)) @
        (if st = Some Feed_accepted then source_view (ws_input d) src else []) \<and>
    (st = Some Feed_accepted \<longrightarrow> pending_input_bytes d' \<le> ws_max_buffered_input_bytes d)"
  using feed_ok [OF fresh_run_inv [OF assms(1-3)] assms(4,5)] assms(6) by auto

subsection \<open>The closing handshake completes\<close>

fun drained_phase :: "close_phase_type \<Rightarrow> close_phase_type" where
  "drained_phase Local_close_queued = Awaiting_peer_close"
| "drained_phase Final_output_queued = Transport_end_ready"
| "drained_phase Handshake_output_queued = Awaiting_peer_eof"
| "drained_phase p = p"

lemma consume_all_phase:
  "ws_out_offset c \<le> length (ws_out_buffer c) \<Longrightarrow>
     ws_close_phase (snd (ws_consume_output (length (pending_output c)) c)) = drained_phase (ws_close_phase c)"
  by (cases "ws_close_phase c") (auto simp: ws_consume_output_def pending_output_def Let_def)

lemma close_round:
  assumes inv: "ws_inv c" and phase: "ws_close_phase c \<in> {Local_close_queued, Awaiting_peer_close}"
    and unread: "drop (ws_pending_consume c) (buf_view (ws_input c)) = frame_wire Op_close p False key @ rest"
    and key: "key \<noteq> None \<longleftrightarrow> ws_role c = Server" "\<And>k. key = Some k \<Longrightarrow> length k = 4"
    and send: "sendable Op_close p False"
  shows "\<exists>d. event_round env c = Return (Some (Close_event (if 2 \<le> length p then read_websocket_uint16 p else 1005) (drop 2 p))) d \<and>
    ws_inv d \<and> ws_close_phase d = handshake_complete_phase d \<and> ws_role d = ws_role c"
proof -
  have core: "ws_core c" using inv by (simp add: ws_inv_def)
  then have bok: "buf_ok (ws_input c)" by (simp add: ws_core_def)
  obtain r b n where read: "websocket_try_read_frame (ws_input c) (ws_pending_consume c) (ws_message_limit c)
      (ws_deflate c \<noteq> None) (ws_role c = Server) = (r, b, n)" by (metis prod_cases3)
  have "within_limit (ws_message_limit c) Op_close p" by (simp add: within_limit_def)
  note wire = scan_frame_wire [OF send this, where allow = "ws_deflate c \<noteq> None" and key = key and rest = rest]
  let ?f = "\<lparr>view_kind = Close, view_payload = p, view_final = True, view_compressed = False\<rparr>"
  have r: "r = Read_frame ?f"
    using try_read_scan(1) [OF bok read] wire key unread by (simp add: opcode_kind_def)
  note rd = read_round(1,2) [OF core read]
  define c1 where "c1 = c\<lparr>ws_input := b, ws_pending_consume := n\<rparr>"
  have c1: "ws_inv c1" "ws_close_phase c1 = ws_close_phase c" "ws_role c1 = ws_role c"
    using inv rd by (auto simp: c1_def ws_inv_def ws_core_def pending_output_def)
  have acc: "assembler_accept ?f (ws_message_limit c1) (ws_assembler c1) = (Inbound_control Op_close p, ws_assembler c1)"
    by (simp add: accept_control kind_opcode_def)
  have same: "c1\<lparr>ws_assembler := ws_assembler c1\<rparr> = c1" by simp
  have round: "event_round env c = control_event env Op_close p c1"
    using read r acc by (simp add: event_round_def c1_def Let_def)
  have "receive_peer_close c1 = c1\<lparr>ws_close_phase := handshake_complete_phase c1\<rparr>"
    using phase c1(2) by (auto simp: receive_peer_close_def)
  moreover have "handshake_complete_phase (c1\<lparr>ws_close_phase := q\<rparr>) = handshake_complete_phase c1" for q
    by (simp add: handshake_complete_phase_def output_queued_def)
  moreover have "phase_rank (handshake_complete_phase c1) \<noteq> 0" using handshake_phase_rank [of c1] by linarith
  ultimately show ?thesis
    unfolding round using phase c1
    by (intro exI [of _ "receive_peer_close c1"]) (auto simp: control_event_def Let_def ws_inv_def)
qed

text \<open>
  Property C37. A closing handshake that this side started completes: once the peer's Close arrives,
  in whatever bytes follow it and however much of the own output is still queued, the next event is
  that Close with the peer's code and reason, and when the queued output has been written a server
  plans the transport end at once, while a client waits for the server's end of file and plans it
  then.
\<close>

theorem close_handshake_completes:
  assumes "ws_fresh c" "env_ok env" "ws_run env c ls d"
    and "ws_close_phase d \<in> {Local_close_queued, Awaiting_peer_close}"
    and "drop (ws_pending_consume d) (buf_view (ws_input d)) = frame_wire Op_close p False key @ rest"
    and "key \<noteq> None \<longleftrightarrow> ws_role d = Server" "key = None \<or> (\<exists>k. key = Some k \<and> length k = 4)"
    and "sendable Op_close p False"
  shows "\<exists>d'. ws_next_event env d
      = Some (Inr (Some (Close_event (if 2 \<le> length p then read_websocket_uint16 p else 1005) (drop 2 p))), d') \<and>
    (let e = snd (ws_consume_output (length (pending_output d')) d');
         f = (if ws_role d = Client then ws_notify_transport_eof e else e)
     in (ws_role d = Client \<longrightarrow> liveness_mode e = Live_awaiting_peer_eof \<and> plan_disposition (ws_output_plan e) = Keep_open) \<and>
        plan_disposition (ws_output_plan f) = End_transport \<and> plan_bytes (ws_output_plan f) = [])"
proof -
  define d1 where "d1 = d\<lparr>ws_assembler := release_completed (ws_assembler d), ws_needed_input_bytes := 0\<rparr>"
  have inv: "ws_inv d" by (rule fresh_run_inv [OF assms(1-3)])
  have d1: "ws_inv d1" "ws_close_phase d1 = ws_close_phase d" "ws_role d1 = ws_role d"
      "ws_input d1 = ws_input d" "ws_pending_consume d1 = ws_pending_consume d"
    using release_inv [OF inv] by (auto simp: d1_def round_ok_def ws_inv_def)
  have k: "\<And>k. key = Some k \<Longrightarrow> length k = 4" using assms(7) by auto
  obtain d' where round: "event_round env d1
      = Return (Some (Close_event (if 2 \<le> length p then read_websocket_uint16 p else 1005) (drop 2 p))) d'"
    and d': "ws_inv d'" "ws_close_phase d' = handshake_complete_phase d'" "ws_role d' = ws_role d"
    using close_round [OF d1(1) _ _ _ k assms(8), where rest = rest and env = env] assms(4-6) d1(2-5) by auto
  have ne: "ws_next_event env d
      = Some (Inr (Some (Close_event (if 2 \<le> length p then read_websocket_uint16 p else 1005) (drop 2 p))), d')"
    using assms(4) round d1(2) by (auto simp: ws_next_event_def d1_def [symmetric] Let_def)
  have off: "ws_out_offset d' \<le> length (ws_out_buffer d')" using d'(1) by (simp add: ws_inv_def ws_core_def)
  have "ws_close_phase (snd (ws_consume_output (length (pending_output d')) d'))
      = (if ws_role d = Client then Awaiting_peer_eof else Transport_end_ready)"
    unfolding consume_all_phase [OF off] d'(2) by (simp add: handshake_complete_phase_def d'(3))
  then show ?thesis
    using ne by (intro exI [of _ d'])
      (auto simp: Let_def liveness_mode_def ws_output_plan_def ws_notify_transport_eof_def)
qed

subsection \<open>A concrete connection\<close>

text \<open>A server without compression and collaborators that keep their promises.\<close>

definition demo_env :: "(unit, unit) ws_env" where
  "demo_env =
     \<lparr>generate_mask_key = (\<lambda>s. (Some [1, 2, 3, 4], s)), deflate_compress = (\<lambda>p d. (None, d)),
      deflate_discard = Some, deflate_decompress = (\<lambda>p limit d. ((Inflate_error, []), d)), string_max_size = 1000\<rparr>"

definition demo_options :: websocket_connection_options where
  "demo_options =
     \<lparr>opt_message_limit = Some 100,
      opt_compression = \<lparr>compression_enabled = False, server_no_context_takeover = True,
        client_no_context_takeover = True, server_max_window_bits = None, client_max_window_bits = None\<rparr>,
      opt_role = Server, opt_has_mask_key_generator = False,
      opt_deflater = \<lparr>compression_level = 6, mem_level = 8\<rparr>, opt_max_buffered_input_bytes = 114\<rparr>"

definition demo_conn :: "(unit, unit) websocket_connection" where
  "demo_conn =
     \<lparr>ws_input = empty_io_buffer, ws_max_buffered_input_bytes = 114, ws_message_limit = Some 100,
      ws_pending_consume = 0, ws_needed_input_bytes = 0, ws_out_buffer = [], ws_out_offset = 0,
      ws_borrowed_output = [], ws_assembler = initial_assembler, ws_deflate = None, ws_role = Server,
      ws_mask_keys = (), ws_close_phase = Open, ws_sent = [], ws_written = []\<rparr>"

lemma demo_env_ok: "env_ok demo_env"
  by (simp add: env_ok_def demo_env_def)

lemma demo_fresh: "ws_fresh demo_conn"
proof -
  have "make_websocket_connection (\<lambda>_ _ _ _ _. ()) empty_io_buffer () demo_options = Some demo_conn"
    by (simp add: make_websocket_connection_def initialize_codecs_def demo_options_def demo_conn_def
        window_or_default_def validate_websocket_deflater_config_def Let_def)
  then show ?thesis
    unfolding ws_fresh_def using empty_ok
    by (intro exI conjI) (auto simp: demo_options_def read_ceiling_def)
qed

lemmas demo_output = append_frame_def compact_output_def encode_websocket_frame_header_def opcode_code_def
  demo_env_def demo_conn_def Let_def

definition demo_ping :: "(unit, unit) websocket_connection" where
  "demo_ping = demo_conn\<lparr>ws_out_buffer := [0x89, 1, 7], ws_sent := [(Op_ping, [7], False, None)]\<rparr>"

lemma demo_ping_run: "ws_run demo_env demo_conn [Submitted Op_ping (Some Submit_accepted)] demo_ping"
proof -
  have "ws_submit_frame demo_env Op_ping [7] False False demo_conn = (Some Submit_accepted, demo_ping)"
    by (simp add: ws_submit_frame_def ws_submit_def submit_try_def demo_ping_def demo_output)
  then show ?thesis by (auto simp: ws_run_Cons ws_run_Nil intro!: ws_step.submit)
qed

definition demo_closing :: "(unit, unit) websocket_connection" where
  "demo_closing = demo_conn\<lparr>ws_out_buffer := [0x88, 2, 3, 0xE8], ws_sent := [(Op_close, [3, 0xE8], False, None)],
     ws_close_phase := Local_close_queued\<rparr>"

lemma demo_closing_step: "ws_step demo_env demo_conn (Close_submitted (Some Close_accepted)) demo_closing"
proof -
  have "ws_submit_close demo_env 1000 [] demo_conn = (Some Close_accepted, demo_closing)"
    by (simp add: ws_submit_close_def demo_closing_def encode_websocket_close_payload_def
        websocket_encoded_close_payload_def is_valid_utf8_def valid_utf8_from.simps demo_output)
  then show ?thesis by (auto intro!: ws_step.close simp: close_code_valid_def)
qed

text \<open>An input buffer that just received \<open>xs\<close>.\<close>

definition filled :: "bytes \<Rightarrow> http_io_buffer" where
  "filled xs = \<lparr>buf_storage = map Some xs, buf_begin = 0, buf_end = length xs\<rparr>"

lemma append_empty: "xs \<noteq> [] \<Longrightarrow> length xs \<le> max_io_buffer_bytes \<Longrightarrow>
    buf_append (External xs) empty_io_buffer = Some (filled xs)"
  by (auto simp: buf_append_def empty_io_buffer_def buf_capacity_def overlaps_storage_def make_room_def
      room_capacity_def buf_size_def buf_reallocate_def buf_release_def copy_behind_def blit_def filled_def Let_def)

lemma demo_feed:
  assumes "ws_input c = empty_io_buffer" "xs \<noteq> []" "length xs \<le> 114" "ws_max_buffered_input_bytes c = 114"
    and "liveness_mode c \<noteq> Live_inactive" "liveness_mode c \<noteq> Live_awaiting_peer_eof"
  shows "ws_step env c (Fed (Some Feed_accepted)) (c\<lparr>ws_input := filled xs\<rparr>)"
proof -
  have "length xs \<le> max_io_buffer_bytes" using assms(3) by (simp add: max_io_buffer_bytes_def)
  then have "ws_feed (External xs) c = (Some Feed_accepted, c\<lparr>ws_input := filled xs\<rparr>)"
    using assms append_empty by (simp add: ws_feed_def buf_size_def empty_io_buffer_def)
  then show ?thesis using ws_step.feed [of c "External xs"] by simp
qed

lemma view_filled [simp]: "buf_view (filled xs) = xs" "buf_size (filled xs) = length xs"
  by (simp_all add: buf_view_def buf_window_def filled_def buf_size_def comp_def)

lemmas demo_reading = websocket_try_read_frame_def consume_websocket_read_frame_def
  decode_websocket_frame_start_def is_invalid_websocket_raw_opcode_def byte_le_nat read_frame_length_def
  is_invalid_websocket_control_frame_def kind_of_raw_def is_websocket_control_frame_kind_def kind_code_def
  websocket_frame_exceeds_message_limit_def websocket_frame_length_exceeds_limit_def limit_exceeds_def
  substr_def mask_loops mask_bytes_def upt_rec

lemma websocket_output_framed_witness:
  "scan_frames None False False [0x89, 1, 7] =
    [\<lparr>view_kind = Ping, view_payload = [7], view_final = True, view_compressed = False\<rparr>]"
  using websocket_output_framed [OF demo_fresh demo_env_ok demo_ping_run, of None False, THEN conjunct2]
  by (simp add: demo_ping_def demo_conn_def readable_by_def within_limit_def pending_output_def sent_view_def
      opcode_kind_def)

lemma websocket_phase_monotone_witness:
  "phase_rank (ws_close_phase demo_conn) \<le> phase_rank (ws_close_phase demo_closing)"
proof -
  have "ws_run demo_env demo_conn [Close_submitted (Some Close_accepted)] demo_closing"
    using demo_closing_step by (simp add: ws_run_Cons ws_run_Nil)
  then show ?thesis
    using websocket_phase_monotone [OF demo_fresh demo_env_ok ws_run.stop] by blast
qed

lemma next_event_terminates_witness: "\<exists>r d'. ws_next_event demo_env demo_conn = Some (r, d')"
  by (rule next_event_terminates [OF demo_fresh demo_env_ok ws_run.stop])

lemma feed_bounded_and_exact_witness:
  "\<exists>d'. ws_feed (External [1, 2]) demo_conn = (Some Feed_accepted, d') \<and>
     drop (ws_pending_consume d') (buf_view (ws_input d')) = [1, 2] \<and> pending_input_bytes d' \<le> 114"
proof -
  have "ws_feed (External [1, 2]) demo_conn = (Some Feed_accepted, demo_conn\<lparr>ws_input := filled [1, 2]\<rparr>)"
    using append_empty [of "[1, 2]"]
    by (simp add: ws_feed_def demo_conn_def liveness_mode_def buf_size_def empty_io_buffer_def max_io_buffer_bytes_def)
  then show ?thesis
    using feed_bounded_and_exact [OF demo_fresh demo_env_ok ws_run.stop, of "External [1, 2]" "Some Feed_accepted"]
    by (auto simp: demo_conn_def liveness_mode_def view_empty)
qed

lemma protocol_error_is_final_witness:
  "\<exists>d'. ws_next_event demo_env (demo_conn\<lparr>ws_input := filled [0, 0]\<rparr>) = Some (Inr (Some (Protocol_error_event 1002)), d') \<and>
     (\<exists>e'. ws_next_event demo_env d' = Some (Inr (Some Transport_end_event), e'))"
proof -
  have run: "ws_run demo_env demo_conn [Fed (Some Feed_accepted)] (demo_conn\<lparr>ws_input := filled [0, 0]\<rparr>)"
    using demo_feed [of demo_conn "[0, 0]" demo_env]
    by (auto simp: ws_run_Cons ws_run_Nil) (simp_all add: demo_conn_def liveness_mode_def)
  have "\<exists>d'. ws_next_event demo_env (demo_conn\<lparr>ws_input := filled [0, 0]\<rparr>) = Some (Inr (Some (Protocol_error_event 1002)), d')"
    by (simp add: ws_next_event_def event_round_def protocol_failure_event_def ws_fail_def demo_reading demo_output
        websocket_protocol_failure_close_code_def encode_websocket_close_payload_def
        websocket_encoded_close_payload_def is_valid_utf8_def valid_utf8_from.simps)
  then show ?thesis
    using protocol_error_is_final [OF demo_fresh demo_env_ok run _ ws_run.stop] by blast
qed


lemma close_handshake_completes_witness:
  "\<exists>d'. ws_next_event demo_env (demo_closing\<lparr>ws_input := filled [0x88, 0x80, 1, 2, 3, 4]\<rparr>)
     = Some (Inr (Some (Close_event 1005 [])), d')"
proof -
  let ?d = "demo_closing\<lparr>ws_input := filled [0x88, 0x80, 1, 2, 3, 4]\<rparr>"
  have "ws_step demo_env demo_closing (Fed (Some Feed_accepted)) ?d"
    by (rule demo_feed) (simp_all add: demo_closing_def demo_conn_def liveness_mode_def)
  then have run: "ws_run demo_env demo_conn [Close_submitted (Some Close_accepted), Fed (Some Feed_accepted)] ?d"
    using demo_closing_step by (auto simp: ws_run_Cons ws_run_Nil)
  have wire: "frame_wire Op_close [] False (Some [1, 2, 3, 4]) = [0x88, 0x80, 1, 2, 3, 4]"
    by (simp add: frame_wire_def encode_websocket_frame_header_def opcode_code_def mask_bytes_def Let_def)
  have "sendable Op_close [] False" by (simp add: sendable_def websocket_close_payload_failure_def)
  from close_handshake_completes [OF demo_fresh demo_env_ok run, of "[]" "Some [1, 2, 3, 4]" "[]", OF _ _ _ _ this]
  show ?thesis by (auto simp: demo_closing_def demo_conn_def wire)
qed

text \<open>A call whose first round returns.\<close>

lemma next_event_return:
  assumes "c\<lparr>ws_assembler := release_completed (ws_assembler c), ws_needed_input_bytes := 0\<rparr> = c"
    and "ws_close_phase c = Local_close_queued" "event_round env c = Return ev d"
  shows "ws_next_event env c = Some (Inr ev, d)"
  unfolding ws_next_event_def assms(1) using assms(2,3) by simp

lemma websocket_close_discipline_witness:
  "\<exists>d. ws_next_event demo_env (demo_closing\<lparr>ws_input := filled [0x89, 0x81, 1, 2, 3, 4, 6]\<rparr>)
     = Some (Inr (Some (Ping_event [7])), d) \<and> fst (ws_sent d ! 1) = Op_pong"
proof -
  let ?c = "demo_closing\<lparr>ws_input := filled [0x89, 0x81, 1, 2, 3, 4, 6]\<rparr>"
  have fed: "ws_step demo_env demo_closing (Fed (Some Feed_accepted)) ?c"
    by (rule demo_feed) (simp_all add: demo_closing_def demo_conn_def liveness_mode_def)
  have "\<exists>d. ws_next_event demo_env ?c = Some (Inr (Some (Ping_event [7])), d) \<and>
      map fst (ws_sent d) = [Op_close, Op_pong]"
  proof -
    let ?b = "filled [0x89, 0x81, 1, 2, 3, 4, 6]" and ?b' = "filled [0x89, 0x81, 1, 2, 3, 4, 7]"
    have read: "websocket_try_read_frame ?b 0 (Some 100) False True
        = (Read_frame \<lparr>view_kind = Ping, view_payload = [7], view_final = True, view_compressed = False\<rparr>, ?b', 7)"
      by (simp add: demo_reading) (simp add: write_window_def filled_def blit_def)
    have pong: "append_frame demo_env Op_pong [7] False Copy False (?c\<lparr>ws_input := ?b', ws_pending_consume := 7\<rparr>)
        = (True, ?c\<lparr>ws_input := ?b', ws_pending_consume := 7, ws_out_buffer := [0x88, 2, 3, 0xE8, 0x8A, 1, 7],
             ws_sent := [(Op_close, [3, 0xE8], False, None), (Op_pong, [7], False, None)]\<rparr>)"
      by (simp add: demo_closing_def demo_output)
    have "event_round demo_env ?c = control_event demo_env Op_ping [7] (?c\<lparr>ws_input := ?b', ws_pending_consume := 7\<rparr>)"
      using read by (simp add: event_round_def demo_closing_def demo_conn_def assembler_accept_def kind_opcode_def)
    then have round: "event_round demo_env ?c = Return (Some (Ping_event [7])) (?c\<lparr>ws_input := ?b', ws_pending_consume := 7,
        ws_out_buffer := [0x88, 2, 3, 0xE8, 0x8A, 1, 7],
        ws_sent := [(Op_close, [3, 0xE8], False, None), (Op_pong, [7], False, None)]\<rparr>)"
      using pong by (simp add: control_event_def)
    have same: "?c\<lparr>ws_assembler := release_completed (ws_assembler ?c), ws_needed_input_bytes := 0\<rparr> = ?c"
      by (simp add: demo_closing_def demo_conn_def initial_assembler_def release_completed_def)
    have phase: "ws_close_phase ?c = Local_close_queued" by (simp add: demo_closing_def)
    show ?thesis
      by (intro exI conjI, rule next_event_return [OF same phase round]) simp
  qed
  then obtain d where d: "ws_next_event demo_env ?c = Some (Inr (Some (Ping_event [7])), d)"
      "map fst (ws_sent d) = [Op_close, Op_pong]" by (elim exE conjE)
  have run: "ws_run demo_env demo_conn
      [Close_submitted (Some Close_accepted), Fed (Some Feed_accepted), Polled (Inr (Some (Ping_event [7])))] d"
    by (rule ws_run.step [OF demo_closing_step ws_run.step [OF fed ws_run.step [OF ws_step.poll [OF d(1)] ws_run.stop]]])
  have "length (ws_sent d) = 2" "fst (ws_sent d ! 0) = Op_close"
    using d(2) arg_cong [OF d(2), of length] by (auto simp: map_eq_Cons_conv)
  then show ?thesis
    using websocket_close_discipline [OF demo_fresh demo_env_ok run, of 0 1] d(1) by auto
qed

end
