(* ===== verification/Slots.thy ===== *)
theory Slots
  imports Prelude "HOL-Library.Multiset"
begin

text \<open>
  Arrays of slots as the fixed-capacity tables of the code use them: the first slot that
  satisfies a test, the values in the occupied slots, and removal by moving the last element
  into the gap. What is in a table is a multiset; where it is does not matter to its clients.
\<close>

fun first_index :: "('a \<Rightarrow> bool) \<Rightarrow> 'a list \<Rightarrow> nat option" where
  "first_index P [] = None"
| "first_index P (x # xs) = (if P x then Some 0 else map_option Suc (first_index P xs))"

lemma first_index_None: "first_index P xs = None \<longleftrightarrow> (\<forall>x\<in>set xs. \<not> P x)"
  by (induction xs) auto

lemma first_index_Some:
  "first_index P xs = Some k \<Longrightarrow> k < length xs \<and> P (xs ! k) \<and> (\<forall>j<k. \<not> P (xs ! j))"
proof (induction xs arbitrary: k)
  case (Cons x xs)
  then show ?case by (cases k) (auto simp: nth_Cons less_Suc_eq_0_disj split: if_splits nat.splits)
qed simp

text \<open>\<open>xs[k] = xs.back(); xs.pop_back()\<close>\<close>

definition swap_erase :: "nat \<Rightarrow> 'a list \<Rightarrow> 'a list" where
  "swap_erase k xs = butlast (if k + 1 \<noteq> length xs then xs[k := last xs] else xs)"

lemma length_swap_erase [simp]: "length (swap_erase k xs) = length xs - 1"
  by (simp add: swap_erase_def)

lemma map_swap_erase: "xs \<noteq> [] \<Longrightarrow> map f (swap_erase k xs) = swap_erase k (map f xs)"
  by (auto simp: swap_erase_def map_butlast map_update last_map)

lemma mset_swap_erase:
  assumes "k < length xs"
  shows "mset (swap_erase k xs) = mset xs - {#xs ! k#}"
proof (cases "k + 1 = length xs")
  case True
  then have ne: "xs \<noteq> []" by auto
  have "k = length xs - 1" using True by simp
  then have last: "xs ! k = last xs" using ne by (simp add: last_conv_nth)
  have "mset xs = mset (butlast xs) + {#last xs#}"
    by (subst append_butlast_last_id [OF ne, symmetric]) (simp del: append_butlast_last_id)
  then show ?thesis using True last by (simp add: swap_erase_def)
next
  case False
  then have ne: "xs \<noteq> []" and less: "k < length (butlast xs)" using assms by auto
  have split: "xs = butlast xs @ [last xs]" using ne by simp
  have "xs[k := last xs] = (butlast xs)[k := last xs] @ [last xs]"
    by (subst split) (use less in \<open>simp add: list_update_append\<close>)
  then have "swap_erase k xs = (butlast xs)[k := last xs]"
    using False by (simp add: swap_erase_def)
  moreover have "mset xs = mset (butlast xs) + {#last xs#}"
    by (subst split) simp
  moreover have "xs ! k = butlast xs ! k" using less by (simp add: nth_butlast)
  ultimately show ?thesis using less by (simp add: mset_update)
qed

lemma distinct_submset:
  assumes "mset xs \<subseteq># mset ys" "distinct ys"
  shows "distinct xs"
proof -
  have "count (mset ys) a \<le> 1" for a
    using assms(2) by (simp add: distinct_count_atmost_1)
  then have "count (mset xs) a \<le> 1" for a
    using mset_subset_eq_count [OF assms(1)] le_trans by blast
  moreover have "count (mset xs) a \<noteq> 0" if "a \<in> set xs" for a
    using that by (simp add: count_eq_zero_iff)
  ultimately have "count (mset xs) a = (if a \<in> set xs then 1 else 0)" for a
    by (metis One_nat_def count_mset_0_iff le_SucE le_zero_eq)
  then show ?thesis by (simp add: distinct_count_atmost_1)
qed

text \<open>The occupied slots.\<close>

definition somes :: "'a option list \<Rightarrow> 'a list" where
  "somes xs = concat (map (case_option [] (\<lambda>s. [s])) xs)"

definition opt_mset :: "'a option \<Rightarrow> 'a multiset" where
  "opt_mset x = case_option {#} (\<lambda>s. {#s#}) x"

lemma opt_mset_simps [simp]: "opt_mset None = {#}" "opt_mset (Some s) = {#s#}"
  by (simp_all add: opt_mset_def)

lemma somes_simps [simp]:
  "somes [] = []" "somes (None # xs) = somes xs" "somes (Some s # xs) = s # somes xs"
  "somes (xs @ ys) = somes xs @ somes ys"
  by (simp_all add: somes_def)

lemma set_somes [simp]: "set (somes xs) = {s. Some s \<in> set xs}"
  by (induction xs) (auto simp: somes_def split: option.splits)

lemma mset_somes: "mset (somes xs) = \<Sum>\<^sub># (image_mset opt_mset (mset xs))"
  by (induction xs) (auto simp: somes_def opt_mset_def split: option.splits)

lemma mset_somes_update:
  assumes "k < length xs"
  shows "mset (somes (xs[k := y])) + opt_mset (xs ! k) = mset (somes xs) + opt_mset y"
proof -
  have "mset xs = add_mset (xs ! k) (mset xs - {#xs ! k#})"
    using assms by (simp add: insert_DiffM)
  then have "image_mset opt_mset (mset xs) =
      add_mset (opt_mset (xs ! k)) (image_mset opt_mset (mset xs - {#xs ! k#}))"
    by (metis image_mset_add_mset)
  then show ?thesis using assms by (simp add: mset_somes mset_update)
qed

lemma mset_somes_swap_erase:
  assumes "k < length xs"
  shows "mset (somes (swap_erase k xs)) + opt_mset (xs ! k) = mset (somes xs)"
proof -
  have "mset xs = add_mset (xs ! k) (mset xs - {#xs ! k#})"
    using assms by (simp add: insert_DiffM)
  then have "image_mset opt_mset (mset xs) =
      add_mset (opt_mset (xs ! k)) (image_mset opt_mset (mset xs - {#xs ! k#}))"
    by (metis image_mset_add_mset)
  then show ?thesis using assms by (simp add: mset_somes mset_swap_erase)
qed

end
