(* ===== verification/Keyed_Store.thy ===== *)
theory Keyed_Store
  imports Prelude
begin

text \<open>
  The contract of a table of records that carry their own key: what a lookup returns after a
  record was created, rewritten in place or removed. It is what the connection relies on in the
  stream table; quantities summed over all live records are its main client.
\<close>

locale keyed_store =
  fixes inv :: "'t \<Rightarrow> bool"
    and lookup :: "'t \<Rightarrow> 'k \<Rightarrow> 'v option"
    and key :: "'v \<Rightarrow> 'k"
    and fresh :: "'k \<Rightarrow> 'v"
    and usable :: "'k \<Rightarrow> bool"
    and create :: "'k \<Rightarrow> 't \<Rightarrow> 'v option \<times> 't"
    and rewrite :: "'v \<Rightarrow> 't \<Rightarrow> 't"
    and remove :: "'k \<Rightarrow> 't \<Rightarrow> bool \<times> 't"
  assumes finite_dom: "inv t \<Longrightarrow> finite (dom (lookup t))"
    and lookup_key: "inv t \<Longrightarrow> lookup t k = Some v \<Longrightarrow> key v = k"
    and create_present: "inv t \<Longrightarrow> lookup t k = Some v \<Longrightarrow> create k t = (Some v, t)"
    and create_refused: "inv t \<Longrightarrow> create k t = (None, t') \<Longrightarrow> t' = t"
    and create_new: "inv t \<Longrightarrow> usable k \<Longrightarrow> lookup t k = None \<Longrightarrow>
      create k t = (Some v, t') \<Longrightarrow> v = fresh k \<and> inv t' \<and> lookup t' = (lookup t)(k \<mapsto> fresh k)"
    and rewrite: "inv t \<Longrightarrow> lookup t (key v) \<noteq> None \<Longrightarrow>
      inv (rewrite v t) \<and> lookup (rewrite v t) = (lookup t)(key v \<mapsto> v)"
    and remove: "inv t \<Longrightarrow> inv (snd (remove k t)) \<and> lookup (snd (remove k t)) = (lookup t)(k := None)"
begin

definition total :: "('v \<Rightarrow> nat) \<Rightarrow> 't \<Rightarrow> nat" where
  "total f t = (\<Sum>k\<in>dom (lookup t). f (the (lookup t k)))"

lemma total_split:
  assumes "inv t" "lookup t k = Some v"
  shows "total f t = f v + (\<Sum>j\<in>dom (lookup t) - {k}. f (the (lookup t j)))"
  using assms sum.remove [OF finite_dom, of t k "\<lambda>j. f (the (lookup t j))"]
  by (auto simp: total_def)

lemma total_member: "inv t \<Longrightarrow> lookup t k = Some v \<Longrightarrow> f v \<le> total f t"
  using total_split by simp

lemma total_rewrite:
  assumes "inv t" "lookup t (key v) = Some w"
  shows "total f (rewrite v t) + f w = total f t + f v"
proof -
  have new: "inv (rewrite v t)" "lookup (rewrite v t) = (lookup t)(key v \<mapsto> v)"
    using rewrite [of t v] assms by auto
  have "(\<Sum>j\<in>dom (lookup (rewrite v t)) - {key v}. f (the (lookup (rewrite v t) j))) =
      (\<Sum>j\<in>dom (lookup t) - {key v}. f (the (lookup t j)))"
    using new(2) by (intro sum.cong) auto
  then show ?thesis
    using total_split [OF assms, of f] total_split [OF new(1), of "key v" v f] new(2) by simp
qed

lemma total_remove:
  assumes "inv t" "lookup t k = Some v"
  shows "total f (snd (remove k t)) + f v = total f t"
proof -
  have new: "lookup (snd (remove k t)) = (lookup t)(k := None)"
    using remove [of t k] assms by blast
  have "total f (snd (remove k t)) = (\<Sum>j\<in>dom (lookup t) - {k}. f (the (lookup t j)))"
    unfolding total_def new by (intro sum.cong) auto
  then show ?thesis using total_split [OF assms, of f] by simp
qed

lemma total_remove_absent:
  assumes "inv t" "lookup t k = None"
  shows "total f (snd (remove k t)) = total f t"
proof -
  have "lookup (snd (remove k t)) = lookup t"
    using remove [of t k] assms by auto
  then show ?thesis by (simp add: total_def)
qed

lemma total_create:
  assumes "inv t" "usable k" "lookup t k = None" "create k t = (Some v, t')"
  shows "total f t' = total f t + f (fresh k)"
proof -
  have new: "inv t'" "lookup t' = (lookup t)(k \<mapsto> fresh k)"
    using create_new [OF assms] by auto
  have "(\<Sum>j\<in>dom (lookup t') - {k}. f (the (lookup t' j))) = total f t"
    unfolding total_def new(2) using assms(3) by (intro sum.cong) auto
  then show ?thesis using total_split [OF new(1), of k "fresh k" f] new(2) by simp
qed

end

end
