(* ===== verification/H2_Content.thy ===== *)
theory H2_Content
  imports Prelude
begin

text \<open>
  Content accounting of one HTTP/2 stream: what this endpoint may still send
  (\<open>http2_local_content_state.h\<close>) and what the peer may still send
  (\<open>http2_remote_content_state.h\<close>). Counters are 64-bit words that wrap as the C++ types do;
  the lemmas show that the guards before them exclude the wrap. An alternative of a
  \<open>std::variant\<close> is a constructor; an operation that returns a bool returns it with the new
  state.
\<close>

subsection \<open>Local content\<close>

datatype http2_local_content_mode =
    Local_unset
  | Local_forbidden
  | Local_unbounded
  | Local_known_length u64

record http2_local_content_state =
  lc_content :: http2_local_content_mode
  lc_accepted :: u64

datatype http2_local_content_check =
    Content_accepted
  | Content_not_started
  | Content_is_forbidden
  | Content_length_exceeded
  | Content_length_incomplete

definition initial_local_content :: http2_local_content_state where
  "initial_local_content = \<lparr>lc_content = Local_unset, lc_accepted = 0\<rparr>"

definition begin_forbidden :: "http2_local_content_state \<Rightarrow> http2_local_content_state" where
  "begin_forbidden c = c\<lparr>lc_content := Local_forbidden, lc_accepted := 0\<rparr>"

definition begin_unbounded :: "http2_local_content_state \<Rightarrow> http2_local_content_state" where
  "begin_unbounded c = c\<lparr>lc_content := Local_unbounded, lc_accepted := 0\<rparr>"

definition begin_known_length ::
  "u64 \<Rightarrow> http2_local_content_state \<Rightarrow> http2_local_content_state" where
  "begin_known_length len c = c\<lparr>lc_content := Local_known_length len, lc_accepted := 0\<rparr>"

definition check_accept ::
  "u64 \<Rightarrow> bool \<Rightarrow> http2_local_content_state \<Rightarrow> http2_local_content_check" where
  "check_accept amount terminal c =
     (if lc_content c = Local_unset then Content_not_started
      else if lc_content c = Local_forbidden then Content_is_forbidden
      else if amount > u64_max - lc_accepted c then Content_length_exceeded
      else case lc_content c of
        Local_known_length declared \<Rightarrow>
          if lc_accepted c > declared \<or> amount > declared - lc_accepted c
            then Content_length_exceeded
          else if terminal \<and> lc_accepted c + amount \<noteq> declared then Content_length_incomplete
          else Content_accepted
      | _ \<Rightarrow> Content_accepted)"

definition commit_content ::
  "u64 \<Rightarrow> http2_local_content_state \<Rightarrow> http2_local_content_state" where
  "commit_content amount c = c\<lparr>lc_accepted := lc_accepted c + amount\<rparr>"

definition length_complete :: "http2_local_content_state \<Rightarrow> bool" where
  "length_complete c \<longleftrightarrow>
     (case lc_content c of
        Local_unset \<Rightarrow> False
      | Local_known_length declared \<Rightarrow> lc_accepted c = declared
      | _ \<Rightarrow> True)"

subsection \<open>Remote content\<close>

datatype http2_remote_content_state =
    Allowed_without_length u64
  | Allowed_known_length u64 u64   \<comment> \<open>declared, received\<close>
  | Metadata_only_without_length
  | Metadata_only_known_length u64

datatype http2_remote_content_accounting_result =
    Accounted
  | Counter_overflow
  | Declared_length_exceeded
  | Content_forbidden

definition initial_remote_content :: http2_remote_content_state where
  "initial_remote_content = Allowed_without_length 0"

fun declare_known_length ::
  "u64 \<Rightarrow> http2_remote_content_state \<Rightarrow> bool \<times> http2_remote_content_state"
where
  "declare_known_length len (Allowed_known_length declared received) =
     (declared = len, Allowed_known_length declared received)"
| "declare_known_length len (Metadata_only_known_length declared) =
     (declared = len, Metadata_only_known_length declared)"
| "declare_known_length len (Allowed_without_length received) =
     (if received \<noteq> 0 then (False, Allowed_without_length received)
      else (True, Allowed_known_length len 0))"
| "declare_known_length len Metadata_only_without_length = (True, Metadata_only_known_length len)"

fun select_metadata_only ::
  "http2_remote_content_state \<Rightarrow> bool \<times> http2_remote_content_state"
where
  "select_metadata_only Metadata_only_without_length = (True, Metadata_only_without_length)"
| "select_metadata_only (Metadata_only_known_length declared) =
     (True, Metadata_only_known_length declared)"
| "select_metadata_only (Allowed_without_length received) =
     (if received \<noteq> 0 then (False, Allowed_without_length received)
      else (True, Metadata_only_without_length))"
| "select_metadata_only (Allowed_known_length declared received) =
     (if received \<noteq> 0 then (False, Allowed_known_length declared received)
      else (True, Metadata_only_known_length declared))"

fun account ::
  "u64 \<Rightarrow> http2_remote_content_state \<Rightarrow>
     http2_remote_content_accounting_result \<times> http2_remote_content_state"
where
  "account n (Allowed_without_length received) =
     (if n > u64_max - received then (Counter_overflow, Allowed_without_length received)
      else (Accounted, Allowed_without_length (received + n)))"
| "account n (Allowed_known_length declared received) =
     (if n > u64_max - received then (Counter_overflow, Allowed_known_length declared received)
      else if received > declared \<or> n > declared - received
        then (Declared_length_exceeded, Allowed_known_length declared received)
      else (Accounted, Allowed_known_length declared (received + n)))"
| "account n (Metadata_only_without_length) =
     (if n = 0 then Accounted else Content_forbidden, Metadata_only_without_length)"
| "account n (Metadata_only_known_length declared) =
     (if n = 0 then Accounted else Content_forbidden, Metadata_only_known_length declared)"

fun terminal_length_valid :: "http2_remote_content_state \<Rightarrow> bool" where
  "terminal_length_valid (Allowed_known_length declared received) \<longleftrightarrow> received = declared"
| "terminal_length_valid _ \<longleftrightarrow> True"

subsection \<open>The counters count\<close>

lemma unat_le_complement:
  fixes a b :: "'a :: len word"
  assumes "\<not> b > - 1 - a"
  shows "unat (a + b) = unat a + unat b"
proof -
  have "unat b \<le> unat (- 1 - a)" using assms by (simp add: word_le_nat_alt not_less)
  also have "unat (- 1 - a) = unat (- 1 :: 'a word) - unat a"
    by (rule unat_sub) simp
  finally have "unat a + unat b \<le> unat (- 1 :: 'a word)"
    using word_le_nat_alt [of a "- 1"] by simp
  then have "unat a + unat b < 2 ^ LENGTH('a)"
    using unsigned_less [where 'a = nat and w = "- 1 :: 'a word"] by (rule le_less_trans)
  then show ?thesis by (rule unat_add_lem [THEN iffD1])
qed

lemma unat_le_remaining:
  fixes a b d :: "'a :: len word"
  assumes "\<not> a > d" "\<not> b > d - a"
  shows "unat a + unat b \<le> unat d"
proof -
  have le: "a \<le> d" using assms(1) by simp
  have "unat b \<le> unat (d - a)" using assms(2) by (simp add: word_le_nat_alt not_less)
  also have "\<dots> = unat d - unat a" using le by (rule unat_sub)
  finally show ?thesis using le by (simp add: word_le_nat_alt)
qed

text \<open>The bytes accepted or received so far, and the limit a declared length sets.\<close>

fun received_bytes :: "http2_remote_content_state \<Rightarrow> nat" where
  "received_bytes (Allowed_without_length received) = unat received"
| "received_bytes (Allowed_known_length declared received) = unat received"
| "received_bytes _ = 0"

fun remote_content_ok :: "http2_remote_content_state \<Rightarrow> bool" where
  "remote_content_ok (Allowed_known_length declared received) \<longleftrightarrow> received \<le> declared"
| "remote_content_ok _ \<longleftrightarrow> True"

definition local_content_ok :: "http2_local_content_state \<Rightarrow> bool" where
  "local_content_ok c \<longleftrightarrow>
     (case lc_content c of Local_known_length declared \<Rightarrow> lc_accepted c \<le> declared | _ \<Rightarrow> True)"

lemma remote_content_ok_initial [simp]: "remote_content_ok initial_remote_content"
  by (simp add: initial_remote_content_def)

lemma local_content_ok_begin [simp]:
  "local_content_ok initial_local_content" "local_content_ok (begin_forbidden c)"
  "local_content_ok (begin_unbounded c)" "local_content_ok (begin_known_length len c)"
  by (simp_all add: local_content_ok_def initial_local_content_def begin_forbidden_def
      begin_unbounded_def begin_known_length_def)

lemma remote_content_ok_declare:
  "remote_content_ok r \<Longrightarrow> remote_content_ok (snd (declare_known_length len r))"
  by (cases r) auto

lemma remote_content_ok_metadata:
  "remote_content_ok r \<Longrightarrow> remote_content_ok (snd (select_metadata_only r))"
  by (cases r) auto

text \<open>An accepted amount is counted exactly; a refused one changes nothing.\<close>

lemma account_without_length:
  assumes "account n (Allowed_without_length received) = (Accounted, r')"
  shows "r' = Allowed_without_length (received + n)" "unat (received + n) = unat received + unat n"
  using assms unat_le_complement [where a = received and b = n] by (auto split: if_splits)

lemma account_known_length:
  assumes "account n (Allowed_known_length declared received) = (Accounted, r')"
  shows "r' = Allowed_known_length declared (received + n)"
    "unat (received + n) = unat received + unat n" "received + n \<le> declared"
proof -
  have guards: "\<not> n > - 1 - received" "\<not> received > declared" "\<not> n > declared - received"
    and r': "r' = Allowed_known_length declared (received + n)"
    using assms by (auto split: if_splits)
  show "r' = Allowed_known_length declared (received + n)" by (rule r')
  show sum: "unat (received + n) = unat received + unat n"
    using guards(1) by (rule unat_le_complement)
  show "received + n \<le> declared"
    using unat_le_remaining [OF guards(2,3)] sum by (simp add: word_le_nat_alt)
qed

lemma account_accepted:
  assumes "account n r = (Accounted, r')"
  shows "received_bytes r' = received_bytes r + unat n"
    and "remote_content_ok r'"
proof -
  have "received_bytes r' = received_bytes r + unat n \<and> remote_content_ok r'"
  proof (cases r)
    case (Allowed_without_length received)
    then show ?thesis using account_without_length [of n received r'] assms by simp
  next
    case (Allowed_known_length declared received)
    then show ?thesis using account_known_length [of n declared received r'] assms by simp
  qed (use assms in \<open>auto split: if_splits\<close>)
  then show "received_bytes r' = received_bytes r + unat n" and "remote_content_ok r'" by simp_all
qed

lemma account_refused: "account n r = (res, r') \<Longrightarrow> res \<noteq> Accounted \<Longrightarrow> r' = r"
  by (cases r) (auto split: if_splits)

lemma remote_content_ok_account:
  "remote_content_ok r \<Longrightarrow> remote_content_ok (snd (account n r))"
  using account_accepted(2) [of n r "snd (account n r)"] account_refused [of n r _ "snd (account n r)"]
  by (metis prod.collapse)

lemma check_accept_exact:
  assumes "check_accept amount terminal c = Content_accepted"
  shows "unat (lc_accepted c + amount) = unat (lc_accepted c) + unat amount"
    and "lc_content c = Local_known_length declared \<Longrightarrow>
      unat (lc_accepted c) + unat amount \<le> unat declared"
    and "lc_content c = Local_known_length declared \<Longrightarrow> terminal \<Longrightarrow>
      lc_accepted c + amount = declared"
proof -
  have guard: "\<not> amount > - 1 - lc_accepted c"
    using assms by (auto simp: check_accept_def split: if_splits)
  then show "unat (lc_accepted c + amount) = unat (lc_accepted c) + unat amount"
    by (rule unat_le_complement)
  {
    assume "lc_content c = Local_known_length declared"
    then have "\<not> lc_accepted c > declared \<and> \<not> amount > declared - lc_accepted c \<and>
        (terminal \<longrightarrow> lc_accepted c + amount = declared)"
      using assms guard by (auto simp: check_accept_def split: if_splits)
  }
  note known = this
  show "lc_content c = Local_known_length declared \<Longrightarrow>
      unat (lc_accepted c) + unat amount \<le> unat declared"
    using known unat_le_remaining [where a = "lc_accepted c" and d = declared and b = amount] by blast
  show "lc_content c = Local_known_length declared \<Longrightarrow> terminal \<Longrightarrow>
      lc_accepted c + amount = declared"
    using known by blast
qed

text \<open>A prefix of an offered chunk that was accepted may be committed.\<close>

lemma commit_prefix:
  assumes check: "check_accept amount terminal c = Content_accepted"
    and le: "k \<le> amount"
  shows "local_content_ok (commit_content k c)"
    and "unat (lc_accepted (commit_content k c)) = unat (lc_accepted c) + unat k"
proof -
  have k: "unat k \<le> unat amount" using le by (simp add: word_le_nat_alt)
  have "unat (lc_accepted c) + unat k < 2 ^ 64"
    using check_accept_exact(1) [OF check] k
      unsigned_less [where 'a = nat and w = "lc_accepted c + amount"] by simp
  then show eq: "unat (lc_accepted (commit_content k c)) = unat (lc_accepted c) + unat k"
    unfolding commit_content_def by (simp add: unat_add_lem [THEN iffD1])
  show "local_content_ok (commit_content k c)"
    using eq k check_accept_exact(2) [OF check]
    by (auto simp: local_content_ok_def commit_content_def word_le_nat_alt
        split: http2_local_content_mode.splits)
qed

lemma commit_terminal:
  assumes "check_accept amount True c = Content_accepted"
  shows "length_complete (commit_content amount c)"
  using check_accept_exact(3) [OF assms] assms
  by (auto simp: length_complete_def commit_content_def check_accept_def
      split: http2_local_content_mode.splits)

end
