(* ===== verification/H2_Phases.thy ===== *)
theory H2_Phases
  imports Prelude
begin

text \<open>
  The exclusive protocol states of an HTTP/2 stream: frame permission of this endpoint
  (\<open>http2_local_send_state.h\<close>), of the peer (\<open>http2_remote_receive_state.h\<close>), the CONNECT
  phase (\<open>http2_tunnel_state.h\<close>), and the drain state of the connection
  (\<open>http2_local_connection_state.h\<close>). An alternative of a \<open>std::variant\<close> is a
  constructor; a transition returns whether it was taken, with the new state.
\<close>

subsection \<open>Local frame permission\<close>

datatype http2_stream_close_source = Close_local | Close_peer | Close_peer_goaway

definition http2_is_valid_stream_close_source :: "http2_stream_close_source \<Rightarrow> bool" where
  "http2_is_valid_stream_close_source source_value \<longleftrightarrow>
     source_value = Close_local \<or> source_value = Close_peer \<or> source_value = Close_peer_goaway"

datatype http2_local_send_state =
    Send_head_pending
  | Send_request_content_open
  | Send_response_content_open
  | Send_connect_pending
  | Send_tunnel_open
  | Send_end_stream_committed
  | Send_aborted http2_stream_close_source

definition send_begin_request_content ::
  "http2_local_send_state \<Rightarrow> bool \<times> http2_local_send_state" where
  "send_begin_request_content s =
     (if s = Send_head_pending then (True, Send_request_content_open) else (False, s))"

definition send_begin_response_content ::
  "http2_local_send_state \<Rightarrow> bool \<times> http2_local_send_state" where
  "send_begin_response_content s =
     (if s = Send_head_pending then (True, Send_response_content_open) else (False, s))"

definition send_begin_connect_request ::
  "http2_local_send_state \<Rightarrow> bool \<times> http2_local_send_state" where
  "send_begin_connect_request s =
     (if s = Send_head_pending then (True, Send_connect_pending) else (False, s))"

definition send_open_tunnel :: "http2_local_send_state \<Rightarrow> bool \<times> http2_local_send_state" where
  "send_open_tunnel s =
     (if s = Send_head_pending \<or> s = Send_connect_pending then (True, Send_tunnel_open)
      else (False, s))"

definition send_commit_head_end_stream ::
  "http2_local_send_state \<Rightarrow> bool \<times> http2_local_send_state" where
  "send_commit_head_end_stream s =
     (if s = Send_head_pending then (True, Send_end_stream_committed) else (False, s))"

definition send_reject_connect :: "http2_local_send_state \<Rightarrow> bool \<times> http2_local_send_state" where
  "send_reject_connect s =
     (if s = Send_connect_pending then (True, Send_end_stream_committed) else (False, s))"

definition send_content_open :: "http2_local_send_state \<Rightarrow> bool" where
  "send_content_open s \<longleftrightarrow>
     s = Send_request_content_open \<or> s = Send_response_content_open \<or> s = Send_tunnel_open"

definition send_commit_end_stream ::
  "http2_local_send_state \<Rightarrow> bool \<times> http2_local_send_state" where
  "send_commit_end_stream s =
     (if send_content_open s then (True, Send_end_stream_committed) else (False, s))"

fun send_is_aborted :: "http2_local_send_state \<Rightarrow> bool" where
  "send_is_aborted (Send_aborted _) \<longleftrightarrow> True"
| "send_is_aborted _ \<longleftrightarrow> False"

definition send_abort ::
  "http2_stream_close_source \<Rightarrow> http2_local_send_state \<Rightarrow> bool \<times> http2_local_send_state" where
  "send_abort source_value s =
     (if \<not> http2_is_valid_stream_close_source source_value \<or> send_is_aborted s then (False, s)
      else (True, Send_aborted source_value))"

subsection \<open>Remote frame permission\<close>

datatype http2_remote_receive_state =
    Head_pending
  | Head_end_stream_pending
  | Remote_content_open
  | Connect_pending bool               \<comment> \<open>saw tunnel data\<close>
  | Connect_pending_end_stream bool    \<comment> \<open>ended without tunnel data\<close>
  | Connect_rejected_awaiting_end_stream
  | Tunnel_open
  | End_stream
  | Remote_aborted

fun record_head_end_stream ::
  "http2_remote_receive_state \<Rightarrow> bool \<times> http2_remote_receive_state" where
  "record_head_end_stream Head_pending = (True, Head_end_stream_pending)"
| "record_head_end_stream r = (False, r)"

fun finalize_content_head ::
  "http2_remote_receive_state \<Rightarrow> bool \<times> http2_remote_receive_state" where
  "finalize_content_head Head_pending = (True, Remote_content_open)"
| "finalize_content_head Head_end_stream_pending = (True, End_stream)"
| "finalize_content_head r = (False, r)"

fun finalize_connect_head ::
  "http2_remote_receive_state \<Rightarrow> bool \<times> http2_remote_receive_state" where
  "finalize_connect_head Head_pending = (True, Connect_pending False)"
| "finalize_connect_head Head_end_stream_pending = (True, Connect_pending_end_stream True)"
| "finalize_connect_head r = (False, r)"

fun can_accept_connect :: "http2_remote_receive_state \<Rightarrow> bool" where
  "can_accept_connect Head_pending \<longleftrightarrow> True"
| "can_accept_connect Head_end_stream_pending \<longleftrightarrow> True"
| "can_accept_connect (Connect_pending _) \<longleftrightarrow> True"
| "can_accept_connect (Connect_pending_end_stream _) \<longleftrightarrow> True"
| "can_accept_connect _ \<longleftrightarrow> False"

fun remote_accept_connect ::
  "http2_remote_receive_state \<Rightarrow> bool \<times> http2_remote_receive_state" where
  "remote_accept_connect Head_pending = (True, Tunnel_open)"
| "remote_accept_connect (Connect_pending _) = (True, Tunnel_open)"
| "remote_accept_connect Head_end_stream_pending = (True, End_stream)"
| "remote_accept_connect (Connect_pending_end_stream _) = (True, End_stream)"
| "remote_accept_connect r = (False, r)"

definition can_reject_connect :: "http2_remote_receive_state \<Rightarrow> bool" where
  "can_reject_connect r \<longleftrightarrow> can_accept_connect r"

fun remote_reject_connect ::
  "http2_remote_receive_state \<Rightarrow> bool \<times> http2_remote_receive_state" where
  "remote_reject_connect Head_pending = (True, Remote_content_open)"
| "remote_reject_connect Head_end_stream_pending = (True, End_stream)"
| "remote_reject_connect (Connect_pending_end_stream _) = (True, End_stream)"
| "remote_reject_connect (Connect_pending _) = (True, Connect_rejected_awaiting_end_stream)"
| "remote_reject_connect r = (False, r)"

fun finish_content :: "http2_remote_receive_state \<Rightarrow> bool \<times> http2_remote_receive_state" where
  "finish_content Remote_content_open = (True, End_stream)"
| "finish_content r = (False, r)"

fun mark_connect_tunnel_data ::
  "http2_remote_receive_state \<Rightarrow> bool \<times> http2_remote_receive_state" where
  "mark_connect_tunnel_data (Connect_pending _) = (True, Connect_pending True)"
| "mark_connect_tunnel_data r = (False, r)"

fun finish_pending_connect ::
  "http2_remote_receive_state \<Rightarrow> bool \<times> http2_remote_receive_state" where
  "finish_pending_connect (Connect_pending saw) = (True, Connect_pending_end_stream (\<not> saw))"
| "finish_pending_connect r = (False, r)"

fun finish_tunnel :: "http2_remote_receive_state \<Rightarrow> bool \<times> http2_remote_receive_state" where
  "finish_tunnel Tunnel_open = (True, End_stream)"
| "finish_tunnel r = (False, r)"

fun finish_rejected_connect ::
  "http2_remote_receive_state \<Rightarrow> bool \<times> http2_remote_receive_state" where
  "finish_rejected_connect Connect_rejected_awaiting_end_stream = (True, End_stream)"
| "finish_rejected_connect r = (False, r)"

definition remote_abort :: "http2_remote_receive_state \<Rightarrow> bool \<times> http2_remote_receive_state" where
  "remote_abort r = (if r = Remote_aborted then (False, r) else (True, Remote_aborted))"

subsection \<open>CONNECT\<close>

datatype http2_connect_form = Standard | Extended

datatype http2_tunnel_state =
    Not_connect
  | Tunnel_pending http2_connect_form
  | Tunnel_accepted
  | Tunnel_rejected

fun tunnel_is_pending :: "http2_tunnel_state \<Rightarrow> bool" where
  "tunnel_is_pending (Tunnel_pending _) \<longleftrightarrow> True"
| "tunnel_is_pending _ \<longleftrightarrow> False"

definition tunnel_begin ::
  "http2_connect_form \<Rightarrow> http2_tunnel_state \<Rightarrow> bool \<times> http2_tunnel_state" where
  "tunnel_begin form t =
     (if (form \<noteq> Standard \<and> form \<noteq> Extended) \<or> t \<noteq> Not_connect then (False, t)
      else (True, Tunnel_pending form))"

definition tunnel_accept :: "http2_tunnel_state \<Rightarrow> bool \<times> http2_tunnel_state" where
  "tunnel_accept t = (if \<not> tunnel_is_pending t then (False, t) else (True, Tunnel_accepted))"

definition tunnel_reject :: "http2_tunnel_state \<Rightarrow> bool \<times> http2_tunnel_state" where
  "tunnel_reject t = (if \<not> tunnel_is_pending t then (False, t) else (True, Tunnel_rejected))"

subsection \<open>Connection lifecycle\<close>

datatype http2_local_connection_state =
    Connection_open
  | Graceful_drain u32 bool u32    \<comment> \<open>last stream id, awaiting round trip, round-trip limit\<close>
  | Fatal_failure u32              \<comment> \<open>the error code\<close>

definition begin_graceful_drain ::
  "u32 \<Rightarrow> http2_local_connection_state \<Rightarrow> bool \<times> http2_local_connection_state" where
  "begin_graceful_drain last_id l =
     (if l \<noteq> Connection_open then (False, l) else (True, Graceful_drain last_id False last_id))"

definition begin_round_trip_drain ::
  "u32 \<Rightarrow> u32 \<Rightarrow> http2_local_connection_state \<Rightarrow> bool \<times> http2_local_connection_state" where
  "begin_round_trip_drain advertised limit l =
     (if l \<noteq> Connection_open then (False, l) else (True, Graceful_drain advertised True limit))"

fun finish_round_trip_drain ::
  "u32 \<Rightarrow> http2_local_connection_state \<Rightarrow> bool \<times> http2_local_connection_state" where
  "finish_round_trip_drain last_id (Graceful_drain d True limit) =
     (True, Graceful_drain last_id False last_id)"
| "finish_round_trip_drain last_id l = (False, l)"

fun connection_failed :: "http2_local_connection_state \<Rightarrow> bool" where
  "connection_failed (Fatal_failure _) \<longleftrightarrow> True"
| "connection_failed _ \<longleftrightarrow> False"

definition connection_fail :: "u32 \<Rightarrow> http2_local_connection_state \<Rightarrow> http2_local_connection_state" where
  "connection_fail error_code l = Fatal_failure error_code"

subsection \<open>Half-closed states\<close>

definition remote_final_head_decoded :: "http2_remote_receive_state \<Rightarrow> bool" where
  "remote_final_head_decoded r \<longleftrightarrow> r \<noteq> Head_pending \<and> r \<noteq> Head_end_stream_pending"

fun remote_peer_half_closed :: "http2_remote_receive_state \<Rightarrow> bool" where
  "remote_peer_half_closed Head_end_stream_pending \<longleftrightarrow> True"
| "remote_peer_half_closed (Connect_pending_end_stream _) \<longleftrightarrow> True"
| "remote_peer_half_closed End_stream \<longleftrightarrow> True"
| "remote_peer_half_closed Remote_aborted \<longleftrightarrow> True"
| "remote_peer_half_closed _ \<longleftrightarrow> False"

lemmas send_transitions [h2_defs] =
  send_begin_request_content_def send_begin_response_content_def send_begin_connect_request_def
  send_open_tunnel_def send_commit_head_end_stream_def send_reject_connect_def
  send_commit_end_stream_def send_content_open_def send_abort_def
  http2_is_valid_stream_close_source_def

lemmas tunnel_transitions [h2_defs] = tunnel_begin_def tunnel_accept_def tunnel_reject_def

lemmas remote_transitions [h2_defs] = remote_abort_def can_reject_connect_def
  remote_final_head_decoded_def

end
