(* ===== verification/H2_Stream.thy ===== *)
theory H2_Stream
  imports H2_Content H2_Phases
begin

text \<open>
  The message-level record of one HTTP/2 stream (\<open>http2_stream_state.h\<close> with the queries of
  \<open>http2_remote_receive_semantics.h\<close>). Every mutator of the record that concerns content,
  phases, credit or queued events is one function; an operation that returns a bool returns it
  with the new record. The decoded header storage of the record is not part of the model; of its
  request state, the response status and the informational mark are.
\<close>

datatype http2_local_request_content_gate = Gate_open | Gate_awaiting_continue | Gate_canceled

datatype http2_push_reservation = Push_none | Push_local | Push_remote

record http2_stream_state =
  stream_id :: u32
  push_reservation :: http2_push_reservation
  remote_content :: http2_remote_content_state
  local_content :: http2_local_content_state
  local_send :: http2_local_send_state
  remote_receive :: http2_remote_receive_state
  slot_held :: bool
  tunnel :: http2_tunnel_state
  window_debt :: u32
  content_gate :: http2_local_request_content_gate
  pinned :: bool
  pending_events :: nat
  response_status :: "nat option"
  informational_response :: bool

definition make_stream :: "u32 \<Rightarrow> http2_stream_state" where
  "make_stream i = \<lparr>stream_id = i, push_reservation = Push_none,
     remote_content = initial_remote_content, local_content = initial_local_content,
     local_send = Send_head_pending, remote_receive = Head_pending, slot_held = False,
     tunnel = Not_connect, window_debt = 0, content_gate = Gate_open, pinned = False,
     pending_events = 0, response_status = None, informational_response = False\<rparr>"

subsection \<open>Operations\<close>

definition on_send ::
  "(http2_local_send_state \<Rightarrow> bool \<times> http2_local_send_state) \<Rightarrow>
     http2_stream_state \<Rightarrow> bool \<times> http2_stream_state" where
  "on_send f s = (fst (f (local_send s)), s\<lparr>local_send := snd (f (local_send s))\<rparr>)"

definition on_remote ::
  "(http2_remote_receive_state \<Rightarrow> bool \<times> http2_remote_receive_state) \<Rightarrow>
     http2_stream_state \<Rightarrow> bool \<times> http2_stream_state" where
  "on_remote f s = (fst (f (remote_receive s)), s\<lparr>remote_receive := snd (f (remote_receive s))\<rparr>)"

definition on_tunnel ::
  "(http2_tunnel_state \<Rightarrow> bool \<times> http2_tunnel_state) \<Rightarrow>
     http2_stream_state \<Rightarrow> bool \<times> http2_stream_state" where
  "on_tunnel f s = (fst (f (tunnel s)), s\<lparr>tunnel := snd (f (tunnel s))\<rparr>)"

definition reserve_push :: "http2_push_reservation \<Rightarrow> http2_stream_state \<Rightarrow> http2_stream_state" where
  "reserve_push r s = s\<lparr>push_reservation := r\<rparr>"

definition activate_push :: "http2_stream_state \<Rightarrow> http2_stream_state" where
  "activate_push s = s\<lparr>push_reservation := Push_none\<rparr>"

definition set_pinned :: "bool \<Rightarrow> http2_stream_state \<Rightarrow> http2_stream_state" where
  "set_pinned p s = s\<lparr>pinned := p\<rparr>"

definition has_pending_events :: "http2_stream_state \<Rightarrow> bool" where
  "has_pending_events s \<longleftrightarrow> pending_events s \<noteq> 0"

definition add_pending_event :: "http2_stream_state \<Rightarrow> http2_stream_state" where
  "add_pending_event s = s\<lparr>pending_events := pending_events s + 1\<rparr>"

text \<open>\<open>None\<close> is \<open>std::terminate\<close>.\<close>

definition remove_pending_event :: "http2_stream_state \<Rightarrow> http2_stream_state option" where
  "remove_pending_event s =
     (if pending_events s = 0 then None else Some (s\<lparr>pending_events := pending_events s - 1\<rparr>))"

definition add_window_debt :: "u32 \<Rightarrow> http2_stream_state \<Rightarrow> http2_stream_state" where
  "add_window_debt n s = s\<lparr>window_debt := window_debt s + n\<rparr>"

definition take_all_window_debt :: "http2_stream_state \<Rightarrow> u32 \<times> http2_stream_state" where
  "take_all_window_debt s = (window_debt s, s\<lparr>window_debt := 0\<rparr>)"

definition take_window_debt :: "u32 \<Rightarrow> http2_stream_state \<Rightarrow> bool \<times> http2_stream_state" where
  "take_window_debt n s =
     (if n = 0 \<or> n > window_debt s then (False, s)
      else (True, s\<lparr>window_debt := window_debt s - n\<rparr>))"

text \<open>\<open>std::size_t\<close> is 64 bits wide, so the range check of the code never refuses.\<close>

definition declare_remote_content_length ::
  "u64 \<Rightarrow> http2_stream_state \<Rightarrow> bool \<times> http2_stream_state" where
  "declare_remote_content_length n s =
     (if n > u64_max then (False, s)
      else (fst (declare_known_length n (remote_content s)),
            s\<lparr>remote_content := snd (declare_known_length n (remote_content s))\<rparr>))"

definition select_remote_content_metadata_only ::
  "http2_stream_state \<Rightarrow> bool \<times> http2_stream_state" where
  "select_remote_content_metadata_only s =
     (fst (select_metadata_only (remote_content s)),
      s\<lparr>remote_content := snd (select_metadata_only (remote_content s))\<rparr>)"

definition account_remote_content ::
  "u64 \<Rightarrow> http2_stream_state \<Rightarrow> http2_remote_content_accounting_result \<times> http2_stream_state" where
  "account_remote_content n s =
     (fst (account n (remote_content s)),
      s\<lparr>remote_content := snd (account n (remote_content s))\<rparr>)"

definition begin_local_content_forbidden :: "http2_stream_state \<Rightarrow> http2_stream_state" where
  "begin_local_content_forbidden s = s\<lparr>local_content := begin_forbidden (local_content s)\<rparr>"

definition begin_local_content_unbounded :: "http2_stream_state \<Rightarrow> http2_stream_state" where
  "begin_local_content_unbounded s = s\<lparr>local_content := begin_unbounded (local_content s)\<rparr>"

definition begin_local_content_known_length ::
  "u64 \<Rightarrow> http2_stream_state \<Rightarrow> http2_stream_state" where
  "begin_local_content_known_length len s =
     s\<lparr>local_content := begin_known_length len (local_content s)\<rparr>"

definition commit_local_content :: "u64 \<Rightarrow> http2_stream_state \<Rightarrow> http2_stream_state" where
  "commit_local_content n s = s\<lparr>local_content := commit_content n (local_content s)\<rparr>"

definition is_aborted :: "http2_stream_state \<Rightarrow> bool" where
  "is_aborted s \<longleftrightarrow> send_is_aborted (local_send s)"

definition hold_peer_concurrency_slot :: "http2_stream_state \<Rightarrow> bool \<times> http2_stream_state" where
  "hold_peer_concurrency_slot s =
     (if slot_held s then (False, s) else (True, s\<lparr>slot_held := True\<rparr>))"

definition release_peer_concurrency_slot :: "http2_stream_state \<Rightarrow> bool \<times> http2_stream_state" where
  "release_peer_concurrency_slot s =
     (if \<not> slot_held s then (False, s) else (True, s\<lparr>slot_held := False\<rparr>))"

definition stream_abort ::
  "http2_stream_close_source \<Rightarrow> http2_stream_state \<Rightarrow> bool \<times> http2_stream_state" where
  "stream_abort source_value s =
     (if remote_receive s = Remote_aborted then (False, s)
      else (case on_send (send_abort source_value) s of
        (False, s') \<Rightarrow> (False, s')
      | (True, s') \<Rightarrow> on_remote remote_abort s'))"

definition record_remote_head_end_stream :: "http2_stream_state \<Rightarrow> bool \<times> http2_stream_state" where
  "record_remote_head_end_stream s = on_remote record_head_end_stream s"

definition finalize_remote_content_head :: "http2_stream_state \<Rightarrow> bool \<times> http2_stream_state" where
  "finalize_remote_content_head s =
     (if tunnel s \<noteq> Not_connect then (False, s) else on_remote finalize_content_head s)"

definition finalize_remote_connect_head :: "http2_stream_state \<Rightarrow> bool \<times> http2_stream_state" where
  "finalize_remote_connect_head s =
     (if \<not> tunnel_is_pending (tunnel s) then (False, s) else on_remote finalize_connect_head s)"

definition finish_remote_content :: "http2_stream_state \<Rightarrow> bool \<times> http2_stream_state" where
  "finish_remote_content s = on_remote finish_content s"

definition mark_remote_connect_tunnel_data :: "http2_stream_state \<Rightarrow> bool \<times> http2_stream_state" where
  "mark_remote_connect_tunnel_data s =
     (if \<not> tunnel_is_pending (tunnel s) then (False, s) else on_remote mark_connect_tunnel_data s)"

definition finish_remote_pending_connect :: "http2_stream_state \<Rightarrow> bool \<times> http2_stream_state" where
  "finish_remote_pending_connect s =
     (if \<not> tunnel_is_pending (tunnel s) then (False, s) else on_remote finish_pending_connect s)"

definition finish_remote_tunnel :: "http2_stream_state \<Rightarrow> bool \<times> http2_stream_state" where
  "finish_remote_tunnel s =
     (if tunnel s \<noteq> Tunnel_accepted then (False, s) else on_remote finish_tunnel s)"

definition finish_remote_rejected_connect :: "http2_stream_state \<Rightarrow> bool \<times> http2_stream_state" where
  "finish_remote_rejected_connect s =
     (if tunnel s \<noteq> Tunnel_rejected then (False, s) else on_remote finish_rejected_connect s)"

definition begin_local_request_content :: "http2_stream_state \<Rightarrow> bool \<times> http2_stream_state" where
  "begin_local_request_content s = on_send send_begin_request_content s"

definition await_request_continue :: "http2_stream_state \<Rightarrow> http2_stream_state" where
  "await_request_continue s = s\<lparr>content_gate := Gate_awaiting_continue\<rparr>"

definition request_continue_pending :: "http2_stream_state \<Rightarrow> bool" where
  "request_continue_pending s \<longleftrightarrow> content_gate s = Gate_awaiting_continue"

definition release_request_continue :: "http2_stream_state \<Rightarrow> bool \<times> http2_stream_state" where
  "release_request_continue s =
     (if \<not> request_continue_pending s then (False, s) else (True, s\<lparr>content_gate := Gate_open\<rparr>))"

definition cancel_pending_request_continue :: "http2_stream_state \<Rightarrow> bool \<times> http2_stream_state" where
  "cancel_pending_request_continue s =
     (if \<not> request_continue_pending s then (False, s) else (True, s\<lparr>content_gate := Gate_canceled\<rparr>))"

definition request_content_canceled :: "http2_stream_state \<Rightarrow> bool" where
  "request_content_canceled s \<longleftrightarrow> content_gate s = Gate_canceled"

definition begin_local_response_content :: "http2_stream_state \<Rightarrow> bool \<times> http2_stream_state" where
  "begin_local_response_content s = on_send send_begin_response_content s"

definition commit_local_head_end_stream :: "http2_stream_state \<Rightarrow> bool \<times> http2_stream_state" where
  "commit_local_head_end_stream s = on_send send_commit_head_end_stream s"

definition begin_local_connect_request :: "http2_stream_state \<Rightarrow> bool \<times> http2_stream_state" where
  "begin_local_connect_request s =
     (if \<not> tunnel_is_pending (tunnel s) then (False, s) else on_send send_begin_connect_request s)"

definition open_local_connect_tunnel :: "http2_stream_state \<Rightarrow> bool \<times> http2_stream_state" where
  "open_local_connect_tunnel s =
     (if tunnel s \<noteq> Tunnel_accepted then (False, s) else on_send send_open_tunnel s)"

definition reject_local_connect :: "http2_stream_state \<Rightarrow> bool \<times> http2_stream_state" where
  "reject_local_connect s =
     (if tunnel s \<noteq> Tunnel_rejected then (False, s) else on_send send_reject_connect s)"

definition commit_local_end_stream :: "http2_stream_state \<Rightarrow> bool \<times> http2_stream_state" where
  "commit_local_end_stream s = on_send send_commit_end_stream s"

definition request_content_will_follow :: "http2_stream_state \<Rightarrow> bool" where
  "request_content_will_follow s \<longleftrightarrow>
     remote_receive s = Remote_content_open \<and>
     (case remote_content s of
        Allowed_without_length _ \<Rightarrow> True
      | Allowed_known_length declared received \<Rightarrow> received < declared
      | _ \<Rightarrow> False)"

definition begin_standard_connect :: "http2_stream_state \<Rightarrow> bool \<times> http2_stream_state" where
  "begin_standard_connect s = on_tunnel (tunnel_begin Standard) s"

definition begin_extended_connect :: "http2_stream_state \<Rightarrow> bool \<times> http2_stream_state" where
  "begin_extended_connect s = on_tunnel (tunnel_begin Extended) s"

definition accept_connect :: "http2_stream_state \<Rightarrow> bool \<times> http2_stream_state" where
  "accept_connect s =
     (if \<not> tunnel_is_pending (tunnel s) \<or> \<not> can_accept_connect (remote_receive s) then (False, s)
      else (case on_tunnel tunnel_accept s of
        (False, s') \<Rightarrow> (False, s')
      | (True, s') \<Rightarrow> on_remote remote_accept_connect s'))"

definition reject_connect :: "http2_stream_state \<Rightarrow> bool \<times> http2_stream_state" where
  "reject_connect s =
     (if \<not> tunnel_is_pending (tunnel s) \<or> \<not> can_reject_connect (remote_receive s) then (False, s)
      else (case on_tunnel tunnel_reject s of
        (False, s') \<Rightarrow> (False, s')
      | (True, s') \<Rightarrow> on_remote remote_reject_connect s'))"

definition set_response_status :: "nat \<Rightarrow> http2_stream_state \<Rightarrow> bool \<times> http2_stream_state" where
  "set_response_status code s =
     (if response_status s \<noteq> None then (False, s) else (True, s\<lparr>response_status := Some code\<rparr>))"

definition mark_informational_response :: "http2_stream_state \<Rightarrow> http2_stream_state" where
  "mark_informational_response s = s\<lparr>informational_response := True\<rparr>"

definition stream_is_closed :: "http2_stream_state \<Rightarrow> bool" where
  "stream_is_closed s \<longleftrightarrow>
     is_aborted s \<or>
     (remote_peer_half_closed (remote_receive s) \<and> local_send s = Send_end_stream_committed)"

end
