(* ===== verification/H2_Stream_Table.thy ===== *)
theory H2_Stream_Table
  imports Slots Keyed_Store H2_Stream
begin

text \<open>
  The table of live stream records (\<open>http2_stream_table.h\<close>): two inline slots and an
  overflow array whose entries are tombstoned while an iteration is running and compacted when
  the outermost one ends. A pointer the code gets from \<open>find\<close> and writes through is modelled
  by \<open>write_stream\<close>, which replaces the record with that identifier. The constants are those of
  \<open>http2_local_settings.h\<close>.
\<close>

definition max_concurrent_streams :: nat where
  "max_concurrent_streams = 128"

definition max_streams :: nat where
  "max_streams = max_concurrent_streams * 4"

definition max_push_streams :: nat where
  "max_push_streams = max_streams - max_concurrent_streams"

record stream_table =
  inline_slots :: "http2_stream_state option list"
  overflow_ids :: "u32 list"
  overflow :: "http2_stream_state option list"
  table_size :: nat
  push_size :: nat
  iteration_depth :: nat
  needs_compact :: bool

definition empty_table :: stream_table where
  "empty_table = \<lparr>inline_slots = [None, None], overflow_ids = [], overflow = [], table_size = 0,
     push_size = 0, iteration_depth = 0, needs_compact = False\<rparr>"

definition holds :: "u32 \<Rightarrow> http2_stream_state option \<Rightarrow> bool" where
  "holds i slot \<longleftrightarrow> (case slot of None \<Rightarrow> False | Some s \<Rightarrow> stream_id s = i)"

definition find_stream :: "u32 \<Rightarrow> stream_table \<Rightarrow> http2_stream_state option" where
  "find_stream i t =
     (if i = 0 then None
      else case first_index (holds i) (inline_slots t) of
        Some k \<Rightarrow> inline_slots t ! k
      | None \<Rightarrow>
          (case first_index (\<lambda>j. j = i) (overflow_ids t) of
             Some k \<Rightarrow> overflow t ! k
           | None \<Rightarrow> None))"

definition is_push :: "u32 \<Rightarrow> bool" where
  "is_push i \<longleftrightarrow> i AND 1 = 0"

definition count_in :: "u32 \<Rightarrow> stream_table \<Rightarrow> stream_table" where
  "count_in i t = t\<lparr>table_size := table_size t + 1,
     push_size := (if is_push i then push_size t + 1 else push_size t)\<rparr>"

definition count_out :: "u32 \<Rightarrow> stream_table \<Rightarrow> stream_table" where
  "count_out i t = t\<lparr>table_size := table_size t - 1,
     push_size := (if is_push i then push_size t - 1 else push_size t)\<rparr>"

definition create_stream :: "u32 \<Rightarrow> stream_table \<Rightarrow> http2_stream_state option \<times> stream_table" where
  "create_stream i t =
     (case find_stream i t of
        Some existing \<Rightarrow> (Some existing, t)
      | None \<Rightarrow>
          if table_size t \<ge> max_streams \<or> (is_push i \<and> push_size t \<ge> max_push_streams)
            then (None, t)
          else
            (case first_index (\<lambda>slot. slot = None) (inline_slots t) of
               Some k \<Rightarrow>
                 (Some (make_stream i),
                  count_in i (t\<lparr>inline_slots := (inline_slots t)[k := Some (make_stream i)]\<rparr>))
             | None \<Rightarrow>
                 (Some (make_stream i),
                  count_in i (t\<lparr>overflow_ids := overflow_ids t @ [i],
                    overflow := overflow t @ [Some (make_stream i)]\<rparr>))))"

definition erase_overflow_at :: "nat \<Rightarrow> stream_table \<Rightarrow> stream_table" where
  "erase_overflow_at k t =
     (if iteration_depth t \<noteq> 0
        then t\<lparr>overflow_ids := (overflow_ids t)[k := 0], overflow := (overflow t)[k := None],
          needs_compact := True\<rparr>
      else t\<lparr>overflow_ids := swap_erase k (overflow_ids t), overflow := swap_erase k (overflow t)\<rparr>)"

definition remove_stream :: "u32 \<Rightarrow> stream_table \<Rightarrow> bool \<times> stream_table" where
  "remove_stream i t =
     (if i = 0 then (False, t)
      else case first_index (holds i) (inline_slots t) of
        Some k \<Rightarrow> (True, count_out i (t\<lparr>inline_slots := (inline_slots t)[k := None]\<rparr>))
      | None \<Rightarrow>
          (case first_index (\<lambda>j. j = i) (overflow_ids t) of
             Some k \<Rightarrow> (True, count_out i (erase_overflow_at k t))
           | None \<Rightarrow> (False, t)))"

definition write_stream :: "http2_stream_state \<Rightarrow> stream_table \<Rightarrow> stream_table" where
  "write_stream s t =
     (case first_index (holds (stream_id s)) (inline_slots t) of
        Some k \<Rightarrow> t\<lparr>inline_slots := (inline_slots t)[k := Some s]\<rparr>
      | None \<Rightarrow>
          (case first_index (\<lambda>j. j = stream_id s) (overflow_ids t) of
             Some k \<Rightarrow> t\<lparr>overflow := (overflow t)[k := Some s]\<rparr>
           | None \<Rightarrow> t))"

function compact_from :: "nat \<Rightarrow> stream_table \<Rightarrow> stream_table" where
  "compact_from i t =
     (if i < length (overflow t)
        then (if overflow t ! i = None
                then compact_from i (t\<lparr>overflow_ids := swap_erase i (overflow_ids t),
                  overflow := swap_erase i (overflow t)\<rparr>)
              else compact_from (i + 1) t)
      else t)"
  by pat_completeness auto
termination by (relation "measure (\<lambda>(i, t). length (overflow t) - i)") auto

declare compact_from.simps [simp del]

definition compact_overflow_if_idle :: "stream_table \<Rightarrow> stream_table" where
  "compact_overflow_if_idle t =
     (if iteration_depth t \<noteq> 0 \<or> \<not> needs_compact t then t
      else (compact_from 0 t)\<lparr>needs_compact := False\<rparr>)"

text \<open>An iteration visits the overflow entries that existed when it reached them; the callback
  may create and remove streams and keeps a state of its own.\<close>

fun visit_slots ::
  "(stream_table \<Rightarrow> http2_stream_state option list) \<Rightarrow>
     (http2_stream_state \<Rightarrow> 's \<times> stream_table \<Rightarrow> 's \<times> stream_table) \<Rightarrow> nat list \<Rightarrow>
     's \<times> stream_table \<Rightarrow> 's \<times> stream_table" where
  "visit_slots slots callback [] st = st"
| "visit_slots slots callback (k # ks) st =
     (case slots (snd st) ! k of
        None \<Rightarrow> visit_slots slots callback ks st
      | Some s \<Rightarrow> visit_slots slots callback ks (callback s st))"

definition for_each_stream ::
  "(http2_stream_state \<Rightarrow> 's \<times> stream_table \<Rightarrow> 's \<times> stream_table) \<Rightarrow>
     's \<times> stream_table \<Rightarrow> 's \<times> stream_table" where
  "for_each_stream callback st =
     (let (a, t) = st;
          st1 = visit_slots inline_slots callback [0, 1] (a, t\<lparr>iteration_depth := iteration_depth t + 1\<rparr>);
          (b, t2) = visit_slots overflow callback [0..<length (overflow (snd st1))] st1
      in (b, compact_overflow_if_idle (t2\<lparr>iteration_depth := iteration_depth t2 - 1\<rparr>)))"

subsection \<open>The live records\<close>

definition live :: "stream_table \<Rightarrow> http2_stream_state list" where
  "live t = somes (inline_slots t) @ somes (overflow t)"

definition slot_id :: "http2_stream_state option \<Rightarrow> u32" where
  "slot_id slot = (case slot of None \<Rightarrow> 0 | Some s \<Rightarrow> stream_id s)"

lemma slot_id_simps [simp]: "slot_id None = 0" "slot_id (Some s) = stream_id s"
  by (simp_all add: slot_id_def)

definition live_ids :: "stream_table \<Rightarrow> u32 multiset" where
  "live_ids t = image_mset stream_id (mset (live t))"

definition push_ids :: "u32 multiset \<Rightarrow> nat" where
  "push_ids M = size (filter_mset is_push M)"

definition table_ok :: "stream_table \<Rightarrow> bool" where
  "table_ok t \<longleftrightarrow>
     length (inline_slots t) = 2 \<and> overflow_ids t = map slot_id (overflow t) \<and>
     distinct (map stream_id (live t)) \<and> 0 \<notin> stream_id ` set (live t) \<and>
     table_size t = size (live_ids t) \<and> push_size t = push_ids (live_ids t) \<and>
     table_size t \<le> max_streams \<and> push_size t \<le> max_push_streams \<and>
     (None \<in> set (overflow t) \<longrightarrow> needs_compact t) \<and>
     (needs_compact t \<longrightarrow> iteration_depth t \<noteq> 0)"

lemma table_ok_empty [simp]: "table_ok empty_table"
  by (simp add: table_ok_def empty_table_def live_def live_ids_def push_ids_def)

lemma live_id_unique:
  assumes "table_ok t" "s \<in> set (live t)" "s' \<in> set (live t)" "stream_id s = stream_id s'"
  shows "s = s'"
  using assms by (auto simp: table_ok_def distinct_map dest: inj_onD)

lemma holds_Some [simp]: "holds i None = False" "holds i (Some s) = (stream_id s = i)"
  by (simp_all add: holds_def)

lemma find_inline_hit:
  assumes "first_index (holds i) (inline_slots t) = Some k"
  obtains s where "k < length (inline_slots t)" "inline_slots t ! k = Some s" "stream_id s = i"
    "s \<in> set (live t)"
proof -
  have k: "k < length (inline_slots t)" "holds i (inline_slots t ! k)"
    using first_index_Some [OF assms] by auto
  then obtain s where s: "inline_slots t ! k = Some s" "stream_id s = i"
    by (cases "inline_slots t ! k") auto
  have "Some s \<in> set (inline_slots t)" using k(1) s(1) by (metis nth_mem)
  then have "s \<in> set (live t)" by (simp add: live_def)
  with k s that show thesis by blast
qed

lemma find_overflow_hit:
  assumes "first_index (\<lambda>j. j = i) (overflow_ids t) = Some k" "table_ok t" "i \<noteq> 0"
  obtains s where "k < length (overflow t)" "overflow t ! k = Some s" "stream_id s = i"
    "s \<in> set (live t)"
proof -
  have k: "k < length (overflow_ids t)" "overflow_ids t ! k = i"
    using first_index_Some [OF assms(1)] by auto
  have ids: "overflow_ids t = map slot_id (overflow t)" using assms(2) by (simp add: table_ok_def)
  then have len: "k < length (overflow t)" using k(1) by simp
  then have "slot_id (overflow t ! k) = i" using k ids by simp
  then obtain s where s: "overflow t ! k = Some s" "stream_id s = i"
    using assms(3) by (cases "overflow t ! k") auto
  have "Some s \<in> set (overflow t)" using len s(1) by (metis nth_mem)
  then have "s \<in> set (live t)" by (simp add: live_def)
  with len s that show thesis by blast
qed

lemma find_miss:
  assumes "table_ok t" "first_index (holds i) (inline_slots t) = None"
    "first_index (\<lambda>j. j = i) (overflow_ids t) = None"
  shows "i \<notin> stream_id ` set (live t)"
proof -
  have ids: "overflow_ids t = map slot_id (overflow t)" using assms(1) by (simp add: table_ok_def)
  have over: "stream_id s \<noteq> i" if "Some s \<in> set (overflow t)" for s
  proof -
    have "slot_id (Some s) \<in> set (overflow_ids t)" using that unfolding ids by (simp del: slot_id_simps)
    then have mem: "stream_id s \<in> set (overflow_ids t)" by simp
    show ?thesis using assms(3) [unfolded first_index_None] mem by blast
  qed
  have inl: "stream_id s \<noteq> i" if "Some s \<in> set (inline_slots t)" for s
  proof -
    have "\<not> holds i (Some s)" using assms(2) that unfolding first_index_None by blast
    then show ?thesis by simp
  qed
  show ?thesis using over inl by (auto simp: live_def)
qed

text \<open>\<open>find\<close> returns the record with the identifier, wherever it is stored.\<close>

lemma find_stream_iff:
  assumes "table_ok t"
  shows "find_stream i t = Some s \<longleftrightarrow> s \<in> set (live t) \<and> stream_id s = i"
proof -
  have hit: ?thesis if "find_stream i t = Some r" "r \<in> set (live t)" "stream_id r = i" for r
  proof -
    have "r = s" if "s \<in> set (live t)" "stream_id s = i"
      using live_id_unique [OF assms \<open>r \<in> set (live t)\<close> that(1)] that(2) \<open>stream_id r = i\<close> by simp
    with that show ?thesis by (metis option.inject)
  qed
  have miss: ?thesis if "find_stream i t = None" "i \<notin> stream_id ` set (live t)"
    using that by (metis imageI option.distinct(1))
  show ?thesis
  proof (cases "i = 0")
    case True
    with assms show ?thesis by (intro miss) (auto simp: find_stream_def table_ok_def)
  next
    case nz: False
    show ?thesis
    proof (cases "first_index (holds i) (inline_slots t)")
      case (Some k)
      then obtain r where "inline_slots t ! k = Some r" "stream_id r = i" "r \<in> set (live t)"
        by (rule find_inline_hit)
      with Some nz show ?thesis by (intro hit) (simp_all add: find_stream_def)
    next
      case inl: None
      show ?thesis
      proof (cases "first_index (\<lambda>j. j = i) (overflow_ids t)")
        case (Some k)
        then obtain r where "overflow t ! k = Some r" "stream_id r = i" "r \<in> set (live t)"
          using assms nz by (rule find_overflow_hit)
        with Some inl nz show ?thesis by (intro hit) (simp_all add: find_stream_def)
      next
        case None
        with find_miss [OF assms inl None] inl nz show ?thesis
          by (intro miss) (simp_all add: find_stream_def)
      qed
    qed
  qed
qed

lemma find_stream_None:
  assumes "table_ok t"
  shows "find_stream i t = None \<longleftrightarrow> i \<notin> stream_id ` set (live t)"
proof (cases "find_stream i t")
  case None
  then have "s \<in> set (live t) \<longrightarrow> stream_id s \<noteq> i" for s
    using find_stream_iff [OF assms, of i s] by simp
  with None show ?thesis by auto
next
  case (Some a)
  then have "a \<in> set (live t)" "stream_id a = i" using find_stream_iff [OF assms] by auto
  with Some show ?thesis by auto
qed

subsection \<open>What the operations do to the live records\<close>

definition table_shape :: "stream_table \<Rightarrow> bool" where
  "table_shape t \<longleftrightarrow>
     length (inline_slots t) = 2 \<and> overflow_ids t = map slot_id (overflow t) \<and>
     (None \<in> set (overflow t) \<longrightarrow> needs_compact t) \<and>
     (needs_compact t \<longrightarrow> iteration_depth t \<noteq> 0)"

definition table_content :: "u32 multiset \<Rightarrow> nat \<Rightarrow> nat \<Rightarrow> bool" where
  "table_content ids n p \<longleftrightarrow>
     (\<forall>i. count ids i \<le> 1) \<and> 0 \<notin># ids \<and> n = size ids \<and> p = push_ids ids \<and>
     n \<le> max_streams \<and> p \<le> max_push_streams"

lemma table_ok_split:
  "table_ok t \<longleftrightarrow> table_shape t \<and> table_content (live_ids t) (table_size t) (push_size t)"
proof -
  have "live_ids t = mset (map stream_id (live t))" by (simp add: live_ids_def)
  then have "distinct (map stream_id (live t)) \<longleftrightarrow> (\<forall>i. count (live_ids t) i \<le> 1)"
    by (metis distinct_count_atmost_1 count_mset_0_iff le_zero_eq nat_le_linear le_SucE
        One_nat_def)
  then show ?thesis
    by (auto simp: table_ok_def table_shape_def table_content_def live_ids_def)
qed

lemma table_content_add:
  assumes "table_content ids n p" "i \<notin># ids" "i \<noteq> 0" "n < max_streams"
    "is_push i \<Longrightarrow> p < max_push_streams"
  shows "table_content (add_mset i ids) (n + 1) (if is_push i then p + 1 else p)"
  using assms by (auto simp: table_content_def push_ids_def not_in_iff)

lemma table_content_remove:
  assumes "table_content ids n p" "i \<in># ids"
  shows "table_content (ids - {#i#}) (n - 1) (if is_push i then p - 1 else p)"
proof -
  obtain rest where ids: "ids = add_mset i rest" using assms(2) by (metis insert_DiffM)
  have "count rest j \<le> 1" for j
    using assms(1) unfolding ids table_content_def
    by (metis count_add_mset le_SucI not_less_eq_eq)
  then show ?thesis using assms(1)
    by (auto simp: ids table_content_def push_ids_def split: if_splits)
qed

lemma live_update_inline:
  "k < length (inline_slots t) \<Longrightarrow>
     mset (live (t\<lparr>inline_slots := (inline_slots t)[k := y]\<rparr>)) + opt_mset (inline_slots t ! k) =
     mset (live t) + opt_mset y"
  using mset_somes_update [of k "inline_slots t" y] by (simp add: live_def ac_simps)

lemma live_update_overflow:
  "k < length (overflow t) \<Longrightarrow>
     mset (live (t\<lparr>overflow := (overflow t)[k := y]\<rparr>)) + opt_mset (overflow t ! k) =
     mset (live t) + opt_mset y"
  using mset_somes_update [of k "overflow t" y] by (simp add: live_def ac_simps)

lemma live_swap_erase_overflow:
  "k < length (overflow t) \<Longrightarrow>
     mset (live (t\<lparr>overflow := swap_erase k (overflow t)\<rparr>)) + opt_mset (overflow t ! k) =
     mset (live t)"
  using mset_somes_swap_erase [of k "overflow t"] by (simp add: live_def ac_simps)

lemma live_other_fields [simp]:
  "live (t\<lparr>overflow_ids := a\<rparr>) = live t" "live (t\<lparr>table_size := n\<rparr>) = live t"
  "live (t\<lparr>push_size := n\<rparr>) = live t" "live (t\<lparr>iteration_depth := n\<rparr>) = live t"
  "live (t\<lparr>needs_compact := b\<rparr>) = live t"
  by (simp_all add: live_def)

lemma live_counts [simp]: "live (count_in i t) = live t" "live (count_out i t) = live t"
  by (simp_all add: count_in_def count_out_def)

lemma shape_counts [simp]:
  "table_shape (count_in i t) = table_shape t" "table_shape (count_out i t) = table_shape t"
  by (simp_all add: table_shape_def count_in_def count_out_def)

text \<open>A created record is live, a removed one is gone, a written one replaces the old one.\<close>

lemma create_stream_new:
  assumes ok: "table_ok t" and i: "i \<noteq> 0" and absent: "find_stream i t = None"
    and create: "create_stream i t = (Some s, t')"
  shows "s = make_stream i" "mset (live t') = add_mset (make_stream i) (mset (live t))"
    "table_shape t'" "table_size t' = table_size t + 1"
    "push_size t' = (if is_push i then push_size t + 1 else push_size t)"
    "table_size t < max_streams" "is_push i \<Longrightarrow> push_size t < max_push_streams"
proof -
  have shape: "table_shape t" using ok by (simp add: table_ok_split)
  have room: "table_size t < max_streams" "is_push i \<Longrightarrow> push_size t < max_push_streams"
    using absent create by (auto simp: create_stream_def split: if_splits)
  show "table_size t < max_streams" "is_push i \<Longrightarrow> push_size t < max_push_streams" by (fact room)+
  have id: "stream_id (make_stream i) = i" by (simp add: make_stream_def)
  define u where "u = (case first_index (\<lambda>slot. slot = None) (inline_slots t) of
      Some k \<Rightarrow> t\<lparr>inline_slots := (inline_slots t)[k := Some (make_stream i)]\<rparr>
    | None \<Rightarrow> t\<lparr>overflow_ids := overflow_ids t @ [i], overflow := overflow t @ [Some (make_stream i)]\<rparr>)"
  have "create_stream i t = (Some (make_stream i), count_in i u)"
    using absent room by (auto simp: create_stream_def u_def split: option.splits)
  then have s: "s = make_stream i" and t': "t' = count_in i u" using create by auto
  show "s = make_stream i" by (rule s)
  have u: "mset (live u) = add_mset (make_stream i) (mset (live t)) \<and> table_shape u \<and>
      table_size u = table_size t \<and> push_size u = push_size t"
  proof (cases "first_index (\<lambda>slot. slot = None) (inline_slots t)")
    case (Some k)
    then have "k < length (inline_slots t)" "inline_slots t ! k = None"
      using first_index_Some [OF Some] by auto
    then show ?thesis
      using Some shape live_update_inline [of k t "Some (make_stream i)"]
      by (simp add: u_def table_shape_def)
  next
    case None
    then show ?thesis using shape id by (simp add: u_def live_def table_shape_def)
  qed
  show "mset (live t') = add_mset (make_stream i) (mset (live t))" "table_shape t'"
    "table_size t' = table_size t + 1"
    "push_size t' = (if is_push i then push_size t + 1 else push_size t)"
    using u by (simp_all add: t') (simp_all add: count_in_def)
qed

lemma erase_overflow_at_live:
  assumes shape: "table_shape t" and k: "k < length (overflow t)" "overflow t ! k = Some s"
  shows "mset (live (erase_overflow_at k t)) = mset (live t) - {#s#}"
    "table_shape (erase_overflow_at k t)"
    "table_size (erase_overflow_at k t) = table_size t"
    "push_size (erase_overflow_at k t) = push_size t"
proof -
  have ids: "overflow_ids t = map slot_id (overflow t)" using shape by (simp add: table_shape_def)
  have ne: "overflow t \<noteq> []" using k(1) by auto
  have "None \<in> set (swap_erase k (overflow t)) \<Longrightarrow> None \<in> set (overflow t)"
    using mset_swap_erase [OF k(1)] by (metis in_diffD set_mset_mset)
  then show "table_shape (erase_overflow_at k t)"
    using shape ne by (auto simp: erase_overflow_at_def table_shape_def map_swap_erase map_update)
  have "mset (live (erase_overflow_at k t)) + {#s#} = mset (live t)"
    using live_update_overflow [OF k(1), of None] live_swap_erase_overflow [OF k(1)] k(2)
    by (simp add: erase_overflow_at_def live_def)
  then show "mset (live (erase_overflow_at k t)) = mset (live t) - {#s#}"
    by (metis add_diff_cancel_right')
  show "table_size (erase_overflow_at k t) = table_size t"
    "push_size (erase_overflow_at k t) = push_size t"
    by (simp_all add: erase_overflow_at_def)
qed

lemma remove_stream_live:
  assumes ok: "table_ok t" and found: "find_stream i t = Some s"
  shows "fst (remove_stream i t)" "mset (live (snd (remove_stream i t))) = mset (live t) - {#s#}"
    "table_shape (snd (remove_stream i t))"
    "table_size (snd (remove_stream i t)) = table_size t - 1"
    "push_size (snd (remove_stream i t)) = (if is_push i then push_size t - 1 else push_size t)"
proof -
  have shape: "table_shape t" using ok by (simp add: table_ok_split)
  have nz: "i \<noteq> 0" using found by (auto simp: find_stream_def)
  obtain u where r: "remove_stream i t = (True, count_out i u)"
    and u: "mset (live u) = mset (live t) - {#s#}" "table_shape u" "table_size u = table_size t"
      "push_size u = push_size t"
  proof (cases "first_index (holds i) (inline_slots t)")
    case (Some k)
    then have k: "k < length (inline_slots t)" using first_index_Some [OF Some] by simp
    have s: "inline_slots t ! k = Some s" using found Some nz by (simp add: find_stream_def)
    let ?u = "t\<lparr>inline_slots := (inline_slots t)[k := None]\<rparr>"
    have "mset (live ?u) + {#s#} = mset (live t)" using live_update_inline [OF k, of None] s by simp
    then have "mset (live ?u) = mset (live t) - {#s#}" by (metis add_diff_cancel_right')
    moreover have "table_shape ?u" using shape by (simp add: table_shape_def)
    ultimately show thesis using that [of ?u] Some nz by (simp add: remove_stream_def)
  next
    case inl: None
    obtain k where hit: "first_index (\<lambda>j. j = i) (overflow_ids t) = Some k"
      and s: "overflow t ! k = Some s"
      using found inl nz by (auto simp: find_stream_def split: option.splits)
    have "k < length (overflow t)"
      using first_index_Some [OF hit] shape by (simp add: table_shape_def)
    note e = erase_overflow_at_live [OF shape this s]
    show thesis using that [of "erase_overflow_at k t"] e inl hit nz by (simp add: remove_stream_def)
  qed
  show "fst (remove_stream i t)" "mset (live (snd (remove_stream i t))) = mset (live t) - {#s#}"
    "table_shape (snd (remove_stream i t))"
    "table_size (snd (remove_stream i t)) = table_size t - 1"
    "push_size (snd (remove_stream i t)) = (if is_push i then push_size t - 1 else push_size t)"
    using u by (simp_all add: r) (simp_all add: count_out_def)
qed

lemma find_stream_None_cases:
  assumes "table_ok t" "find_stream i t = None" "i \<noteq> 0"
  shows "first_index (holds i) (inline_slots t) = None"
    "first_index (\<lambda>j. j = i) (overflow_ids t) = None"
proof -
  have absent: "i \<notin> stream_id ` set (live t)" using find_stream_None [OF assms(1)] assms(2) by simp
  show "first_index (holds i) (inline_slots t) = None"
  proof (rule ccontr)
    assume "first_index (holds i) (inline_slots t) \<noteq> None"
    then obtain k where "first_index (holds i) (inline_slots t) = Some k" by auto
    then show False by (rule find_inline_hit) (use absent in auto)
  qed
  show "first_index (\<lambda>j. j = i) (overflow_ids t) = None"
  proof (rule ccontr)
    assume "first_index (\<lambda>j. j = i) (overflow_ids t) \<noteq> None"
    then obtain k where "first_index (\<lambda>j. j = i) (overflow_ids t) = Some k" by auto
    then show False using assms(1,3) by (rule find_overflow_hit) (use absent in auto)
  qed
qed

lemma remove_stream_absent:
  "table_ok t \<Longrightarrow> find_stream i t = None \<Longrightarrow> remove_stream i t = (False, t)"
  using find_stream_None_cases [of t i] by (cases "i = 0") (simp_all add: remove_stream_def)

lemma write_stream_live:
  assumes ok: "table_ok t" and found: "find_stream (stream_id s) t = Some r"
  shows "mset (live (write_stream s t)) = mset (live t) - {#r#} + {#s#}"
    "table_shape (write_stream s t)"
    "table_size (write_stream s t) = table_size t" "push_size (write_stream s t) = push_size t"
proof -
  have shape: "table_shape t" using ok by (simp add: table_ok_split)
  have nz: "stream_id s \<noteq> 0" using found by (auto simp: find_stream_def)
  have "mset (live (write_stream s t)) + {#r#} = mset (live t) + {#s#} \<and>
      table_shape (write_stream s t) \<and>
      table_size (write_stream s t) = table_size t \<and> push_size (write_stream s t) = push_size t"
  proof (cases "first_index (holds (stream_id s)) (inline_slots t)")
    case (Some k)
    then have k: "k < length (inline_slots t)" using first_index_Some [OF Some] by simp
    have "inline_slots t ! k = Some r" using found Some nz by (simp add: find_stream_def)
    with live_update_inline [OF k, of "Some s"] Some shape show ?thesis
      by (simp add: write_stream_def table_shape_def)
  next
    case inl: None
    obtain k where hit: "first_index (\<lambda>j. j = stream_id s) (overflow_ids t) = Some k"
      and r: "overflow t ! k = Some r"
      using found inl nz by (auto simp: find_stream_def split: option.splits)
    have k: "k < length (overflow t)" and id: "overflow_ids t ! k = stream_id s"
      using first_index_Some [OF hit] shape by (auto simp: table_shape_def)
    have ids: "overflow_ids t = map slot_id (overflow t)" using shape by (simp add: table_shape_def)
    then have "map slot_id ((overflow t)[k := Some s]) = overflow_ids t"
      using k id by (simp add: map_update list_update_same_conv)
    moreover have "None \<in> set ((overflow t)[k := Some s]) \<Longrightarrow> None \<in> set (overflow t)"
      using set_update_subset_insert [of "overflow t" k "Some s"] by auto
    ultimately show ?thesis
      using live_update_overflow [OF k, of "Some s"] r inl hit shape
      by (auto simp: write_stream_def table_shape_def)
  qed
  then show "mset (live (write_stream s t)) = mset (live t) - {#r#} + {#s#}"
    "table_shape (write_stream s t)"
    "table_size (write_stream s t) = table_size t" "push_size (write_stream s t) = push_size t"
    using insert_DiffM [of r "mset (live t)"] find_stream_iff [OF ok, of "stream_id s" r] found
    by (auto simp: add_eq_conv_diff)
qed

subsection \<open>The invariant and the lookups\<close>

lemma live_ids_image: "live_ids t = image_mset stream_id (mset (live t))"
  by (simp add: live_ids_def)

lemma find_in_live: "table_ok t \<Longrightarrow> find_stream i t = Some s \<Longrightarrow> s \<in># mset (live t) \<and> stream_id s = i"
  by (simp add: find_stream_iff)

lemma live_distinct: "table_ok t \<Longrightarrow> distinct (live t)"
  by (simp add: table_ok_def distinct_map)

lemma find_nonzero: "find_stream i t = Some s \<Longrightarrow> i \<noteq> 0"
  by (auto simp: find_stream_def)

lemma create_stream_ok:
  assumes "table_ok t" "i \<noteq> 0" "find_stream i t = None" "create_stream i t = (Some s, t')"
  shows "table_ok t'" "find_stream j t' = (if j = i then Some (make_stream i) else find_stream j t)"
proof -
  note new = create_stream_new [OF assms]
  have id: "stream_id (make_stream i) = i" by (simp add: make_stream_def)
  have "i \<notin># live_ids t"
    using find_stream_None [OF assms(1)] assms(3) by (auto simp: live_ids_def)
  then show ok: "table_ok t'"
    using assms(1,2) new table_content_add [of "live_ids t" "table_size t" "push_size t" i]
    by (simp add: table_ok_split live_ids_image id)
  have "set (live t') = insert (make_stream i) (set (live t))"
    using new(2) by (metis set_mset_add_mset_insert set_mset_mset)
  moreover have "stream_id s \<noteq> i" if "s \<in> set (live t)" for s
    using find_stream_None [OF assms(1)] assms(3) that by auto
  ultimately show "find_stream j t' = (if j = i then Some (make_stream i) else find_stream j t)"
    using find_stream_iff [OF ok, of j] find_stream_iff [OF assms(1), of j] id
    by (metis insert_iff not_None_eq)
qed

lemma remove_stream_ok:
  assumes ok: "table_ok t"
  shows "table_ok (snd (remove_stream i t))"
    "find_stream j (snd (remove_stream i t)) = (if j = i then None else find_stream j t)"
proof -
  have "table_ok (snd (remove_stream i t)) \<and>
    find_stream j (snd (remove_stream i t)) = (if j = i then None else find_stream j t)"
  proof (cases "find_stream i t")
    case None
    with remove_stream_absent [OF ok] ok show ?thesis by simp
  next
    case (Some s)
    note gone = remove_stream_live [OF ok Some]
    have s: "s \<in># mset (live t)" "stream_id s = i" using find_in_live [OF ok Some] by auto
    then have "live_ids (snd (remove_stream i t)) = live_ids t - {#i#}"
      using gone(2) by (simp add: live_ids_image image_mset_Diff)
    moreover have "i \<in># live_ids t" using s by (auto simp: live_ids_def)
    ultimately have ok': "table_ok (snd (remove_stream i t))"
      using ok gone table_content_remove [of "live_ids t" "table_size t" "push_size t" i]
      by (simp add: table_ok_split)
    have "mset (live t) = add_mset s (mset (live (snd (remove_stream i t))))"
      using gone(2) s(1) by simp
    moreover have "count (mset (live t)) s = 1"
      using live_distinct [OF ok] s(1) by (simp add: distinct_count_atmost_1)
    ultimately have "s \<notin> set (live (snd (remove_stream i t)))"
      and "set (live t) = insert s (set (live (snd (remove_stream i t))))"
      by (metis count_add_mset count_mset_0_iff nat.inject One_nat_def,
          metis set_mset_add_mset_insert set_mset_mset)
    then have "r \<in> set (live (snd (remove_stream i t))) \<longleftrightarrow> r \<in> set (live t) \<and> r \<noteq> s" for r
      by auto
    then show ?thesis
      using ok' find_stream_iff [OF ok', of j] find_stream_iff [OF ok, of j] s(2)
        live_id_unique [OF ok] s(1)
      by (metis (no_types, lifting) not_None_eq set_mset_mset)
  qed
  then show "table_ok (snd (remove_stream i t))"
    "find_stream j (snd (remove_stream i t)) = (if j = i then None else find_stream j t)" by auto
qed

lemma write_stream_ok:
  assumes ok: "table_ok t" and found: "find_stream (stream_id s) t = Some r"
  shows "table_ok (write_stream s t)"
    "find_stream j (write_stream s t) = (if j = stream_id s then Some s else find_stream j t)"
proof -
  note w = write_stream_live [OF ok found]
  have r: "r \<in># mset (live t)" "stream_id r = stream_id s" using find_in_live [OF ok found] by auto
  define rest where "rest = mset (live t) - {#r#}"
  have live: "mset (live t) = add_mset r rest" "mset (live (write_stream s t)) = add_mset s rest"
    using r(1) w(1) by (simp_all add: rest_def)
  have "live_ids (write_stream s t) = live_ids t"
    using r(2) by (simp add: live_ids_image live)
  then show ok': "table_ok (write_stream s t)" using ok w by (simp add: table_ok_split)
  have "x \<in># rest \<Longrightarrow> stream_id x \<noteq> stream_id s" for x
  proof
    assume x: "x \<in># rest" and "stream_id x = stream_id s"
    moreover have "x \<in> set (live t)" "r \<in> set (live t)"
      using x r(1) live(1) by (metis insert_iff set_mset_add_mset_insert set_mset_mset)+
    ultimately have "x = r" using live_id_unique [OF ok] r(2) by simp
    moreover have "count (mset (live t)) r = 1"
      using live_distinct [OF ok] r(1) by (simp add: distinct_count_atmost_1)
    ultimately have "count rest r = 0" using live(1) by simp
    then show False using x \<open>x = r\<close> by (metis not_in_iff)
  qed
  moreover have "set (live (write_stream s t)) = insert s (set_mset rest)"
    "set (live t) = insert r (set_mset rest)"
    using live by (metis set_mset_add_mset_insert set_mset_mset)+
  ultimately show "find_stream j (write_stream s t) =
      (if j = stream_id s then Some s else find_stream j t)"
    using find_stream_iff [OF ok', of j] find_stream_iff [OF ok, of j] r(2)
    by (metis (no_types, lifting) insert_iff not_None_eq)
qed

lemma create_stream_refused: "create_stream i t = (None, t') \<Longrightarrow> t' = t"
  by (auto simp: create_stream_def split: option.splits if_splits)

interpretation streams: keyed_store table_ok "\<lambda>t i. find_stream i t" stream_id make_stream
  "\<lambda>i. i \<noteq> 0" create_stream write_stream remove_stream
proof
  fix t
  assume ok: "table_ok t"
  have "dom (\<lambda>i. find_stream i t) \<subseteq> stream_id ` set (live t)"
    using find_stream_iff [OF ok] by auto
  then show "finite (dom (\<lambda>i. find_stream i t))" by (rule finite_subset) simp
next
  fix t k v
  assume "table_ok t" "find_stream k t = Some v"
  then show "stream_id v = k" by (simp add: find_stream_iff)
next
  fix t k v
  assume "table_ok t" "find_stream k t = Some v"
  then show "create_stream k t = (Some v, t)" by (simp add: create_stream_def)
next
  fix t k t'
  assume "create_stream k t = (None, t')"
  then show "t' = t" by (rule create_stream_refused)
next
  fix t k v t'
  assume a: "table_ok t" "k \<noteq> 0" "find_stream k t = None" "create_stream k t = (Some v, t')"
  show "v = make_stream k \<and> table_ok t' \<and>
      (\<lambda>i. find_stream i t') = (\<lambda>i. find_stream i t)(k \<mapsto> make_stream k)"
    using create_stream_new(1) [OF a] create_stream_ok [OF a] by auto
next
  fix t and v :: http2_stream_state
  assume ok: "table_ok t" and "find_stream (stream_id v) t \<noteq> None"
  then obtain r where "find_stream (stream_id v) t = Some r" by auto
  note w = write_stream_ok [OF ok this]
  show "table_ok (write_stream v t) \<and>
      (\<lambda>i. find_stream i (write_stream v t)) = (\<lambda>i. find_stream i t)(stream_id v \<mapsto> v)"
    using w by auto
next
  fix t k
  assume ok: "table_ok t"
  show "table_ok (snd (remove_stream k t)) \<and>
      (\<lambda>i. find_stream i (snd (remove_stream k t))) = (\<lambda>i. find_stream i t)(k := None)"
    using remove_stream_ok [OF ok, where i = k] by (simp add: fun_eq_iff)
qed

subsection \<open>Iteration and compaction\<close>

lemma compact_from_live: "mset (live (compact_from i t)) = mset (live t)"
proof (induction i t rule: compact_from.induct)
  case (1 i t)
  have "mset (live (t\<lparr>overflow_ids := swap_erase i (overflow_ids t),
      overflow := swap_erase i (overflow t)\<rparr>)) = mset (live t)"
    if "i < length (overflow t)" "overflow t ! i = None"
    using live_swap_erase_overflow [OF that(1)] that(2) by (simp add: live_def)
  with 1 show ?case by (subst compact_from.simps) auto
qed

lemma compact_from_ids:
  "overflow_ids t = map slot_id (overflow t) \<Longrightarrow>
     overflow_ids (compact_from i t) = map slot_id (overflow (compact_from i t))"
proof (induction i t rule: compact_from.induct)
  case (1 i t)
  have "overflow t \<noteq> []" if "i < length (overflow t)" using that by auto
  then show ?case using 1 by (subst (1 2) compact_from.simps) (auto simp: map_swap_erase)
qed

lemma compact_from_frame:
  "inline_slots (compact_from i t) = inline_slots t" "table_size (compact_from i t) = table_size t"
  "push_size (compact_from i t) = push_size t"
  "iteration_depth (compact_from i t) = iteration_depth t"
  by (induction i t rule: compact_from.induct; subst compact_from.simps; auto)+

text \<open>After the loop no tombstone is left behind the entries already checked.\<close>

lemma compact_from_no_tombstone:
  "(\<forall>j<i. j < length (overflow t) \<longrightarrow> overflow t ! j \<noteq> None) \<Longrightarrow>
     None \<notin> set (overflow (compact_from i t))"
proof (induction i t rule: compact_from.induct)
  case (1 i t)
  show ?case
  proof (cases "i < length (overflow t)")
    case False
    with 1 show ?thesis by (subst compact_from.simps) (auto simp: in_set_conv_nth)
  next
    case inside: True
    show ?thesis
    proof (cases "overflow t ! i")
      case None
      have "swap_erase i (overflow t) ! j = overflow t ! j" if "j < i" "j < length (overflow t) - 1" for j
        using that by (simp add: swap_erase_def nth_butlast)
      with 1 None inside show ?thesis by (subst compact_from.simps) simp
    next
      case (Some s)
      with 1 inside show ?thesis
        by (subst compact_from.simps) (simp add: less_Suc_eq)
    qed
  qed
qed

text \<open>While an iteration runs, a slot keeps its record or loses it; nothing moves.\<close>

definition slots_shrink :: "'a option list \<Rightarrow> 'a option list \<Rightarrow> bool" where
  "slots_shrink xs ys \<longleftrightarrow> list_all2 (\<lambda>x y. y = x \<or> y = None) xs ys"

lemma slots_shrink_refl [simp]: "slots_shrink xs xs"
  by (simp add: slots_shrink_def list_all2_refl)

lemma slots_shrink_trans: "slots_shrink xs ys \<Longrightarrow> slots_shrink ys zs \<Longrightarrow> slots_shrink xs zs"
  unfolding slots_shrink_def list_all2_conv_all_nth by metis

lemma slots_shrink_clear: "slots_shrink xs (xs[k := None])"
proof -
  have "xs[k := None] ! i = xs ! i \<or> xs[k := None] ! i = None" if "i < length xs" for i
    using that by (cases "i = k") simp_all
  then show ?thesis by (simp add: slots_shrink_def list_all2_conv_all_nth)
qed

lemma slots_shrink_nth:
  "slots_shrink xs ys \<Longrightarrow> k < length xs \<Longrightarrow> ys ! k = xs ! k \<or> ys ! k = None"
  by (auto simp: slots_shrink_def list_all2_conv_all_nth)

lemma slots_shrink_length: "slots_shrink xs ys \<Longrightarrow> length ys = length xs"
  by (simp add: slots_shrink_def list_all2_lengthD)

lemma slots_shrink_somes:
  "slots_shrink xs ys \<Longrightarrow> mset (somes ys) \<subseteq># mset (somes xs)"
  unfolding slots_shrink_def
proof (induction rule: list_all2_induct)
  case (Cons x xs y ys)
  then show ?case
    by (cases x) (auto intro: subset_mset.order_trans [OF _ subset_mset.less_imp_le])
qed simp

definition shrinks :: "stream_table \<Rightarrow> stream_table \<Rightarrow> bool" where
  "shrinks t u \<longleftrightarrow> slots_shrink (inline_slots t) (inline_slots u) \<and>
     slots_shrink (overflow t) (overflow u) \<and> iteration_depth u = iteration_depth t"

lemma shrinks_refl [simp]: "shrinks t t"
  by (simp add: shrinks_def)

lemma shrinks_trans: "shrinks t u \<Longrightarrow> shrinks u v \<Longrightarrow> shrinks t v"
  by (auto simp: shrinks_def intro: slots_shrink_trans)

lemma remove_shrinks: "iteration_depth t \<noteq> 0 \<Longrightarrow> shrinks t (snd (remove_stream i t))"
  by (auto simp: remove_stream_def shrinks_def count_out_def erase_overflow_at_def
      slots_shrink_clear split: option.splits)

definition remove_streams :: "u32 list \<Rightarrow> stream_table \<Rightarrow> stream_table" where
  "remove_streams is t = fold (\<lambda>i u. snd (remove_stream i u)) is t"

lemma remove_streams_shrinks:
  "iteration_depth t \<noteq> 0 \<Longrightarrow> table_ok t \<Longrightarrow>
     shrinks t (remove_streams is t) \<and> table_ok (remove_streams is t)"
  unfolding remove_streams_def
proof (induction "is" arbitrary: t)
  case (Cons i js)
  have "shrinks t (snd (remove_stream i t))" using Cons.prems(1) by (rule remove_shrinks)
  moreover have "table_ok (snd (remove_stream i t))"
    using remove_stream_ok(1) [OF Cons.prems(2)] .
  ultimately show ?case
    using Cons.IH [of "snd (remove_stream i t)"] Cons.prems(1)
    by (auto simp: shrinks_def intro: slots_shrink_trans)
qed simp

text \<open>The most general callback that only removes: what it removes depends on the visits so
  far.\<close>

definition removing_callback ::
  "(http2_stream_state \<Rightarrow> http2_stream_state list \<Rightarrow> u32 list) \<Rightarrow> http2_stream_state \<Rightarrow>
     http2_stream_state list \<times> stream_table \<Rightarrow> http2_stream_state list \<times> stream_table" where
  "removing_callback kill s st =
     (fst st @ [s], remove_streams (kill s (fst st)) (snd st))"

lemma removing_callback_apply:
  "removing_callback kill s (log, t) = (log @ [s], remove_streams (kill s log) t)"
  by (simp add: removing_callback_def)

definition slot_array :: "(stream_table \<Rightarrow> http2_stream_state option list) \<Rightarrow> bool" where
  "slot_array slots \<longleftrightarrow> slots = inline_slots \<or> slots = overflow"

lemma slot_array_shrinks:
  "slot_array slots \<Longrightarrow> shrinks t u \<Longrightarrow> slots_shrink (slots t) (slots u)"
  by (auto simp: slot_array_def shrinks_def)

lemma somes_map_shrink:
  assumes "slots_shrink xs ys" "set ks \<subseteq> {..<length xs}"
  shows "mset (somes (map (\<lambda>k. ys ! k) ks)) \<subseteq># mset (somes (map (\<lambda>k. xs ! k) ks))"
proof -
  have "slots_shrink (map (\<lambda>k. xs ! k) ks) (map (\<lambda>k. ys ! k) ks)"
    using slots_shrink_nth [OF assms(1)] assms(2)
    by (auto simp: slots_shrink_def list_all2_conv_all_nth subset_iff)
  then show ?thesis by (rule slots_shrink_somes)
qed

lemma visit_slots_removing:
  assumes slots: "slot_array slots"
  shows "visit_slots slots (removing_callback kill) ks (log, t) = (log', u) \<Longrightarrow>
    iteration_depth t \<noteq> 0 \<Longrightarrow> table_ok t \<Longrightarrow> set ks \<subseteq> {..<length (slots t)} \<Longrightarrow>
    shrinks t u \<and> table_ok u \<and> set log \<subseteq> set log' \<and>
    (\<exists>new. log' = log @ new \<and> mset new \<subseteq># mset (somes (map (\<lambda>k. slots t ! k) ks))) \<and>
    (\<forall>k\<in>set ks. \<forall>s. slots u ! k = Some s \<longrightarrow> s \<in> set log')"
proof (induction ks arbitrary: log t)
  case Nil
  then show ?case by simp
next
  case (Cons k ks)
  have k: "k < length (slots t)" "set ks \<subseteq> {..<length (slots t)}" using Cons.prems(4) by auto
  show ?case
  proof (cases "slots t ! k")
    case None
    have ih: "shrinks t u \<and> table_ok u \<and> set log \<subseteq> set log' \<and>
      (\<exists>new. log' = log @ new \<and> mset new \<subseteq># mset (somes (map (\<lambda>k. slots t ! k) ks))) \<and>
      (\<forall>k\<in>set ks. \<forall>s. slots u ! k = Some s \<longrightarrow> s \<in> set log')"
      using Cons.IH [of log t] Cons.prems None k(2) by simp
    then have "slots u ! k = None"
      using slots_shrink_nth [OF slot_array_shrinks [OF slots] k(1)] None by auto
    with ih None show ?thesis by simp
  next
    case (Some s)
    define t1 where "t1 = remove_streams (kill s log) t"
    have t1: "shrinks t t1" "table_ok t1"
      using remove_streams_shrinks [OF Cons.prems(2,3)] by (simp_all add: t1_def)
    have len: "length (slots t1) = length (slots t)"
      using slots_shrink_length [OF slot_array_shrinks [OF slots t1(1)]] .
    have depth: "iteration_depth t1 \<noteq> 0" using t1(1) Cons.prems(2) by (simp add: shrinks_def)
    have run: "visit_slots slots (removing_callback kill) ks (log @ [s], t1) = (log', u)"
      using Cons.prems(1) Some by (simp add: removing_callback_apply t1_def)
    have ih: "shrinks t1 u" "table_ok u" "set (log @ [s]) \<subseteq> set log'"
      "\<exists>new. log' = (log @ [s]) @ new \<and> mset new \<subseteq># mset (somes (map (\<lambda>k. slots t1 ! k) ks))"
      "\<forall>k\<in>set ks. \<forall>s. slots u ! k = Some s \<longrightarrow> s \<in> set log'"
      using Cons.IH [OF run depth t1(2)] k(2) len by auto
    obtain new where new: "log' = (log @ [s]) @ new"
      "mset new \<subseteq># mset (somes (map (\<lambda>k. slots t1 ! k) ks))" using ih(4) by blast
    have shr: "shrinks t u" using t1(1) ih(1) by (rule shrinks_trans)
    have "mset new \<subseteq># mset (somes (map (\<lambda>k. slots t ! k) ks))"
      using new(2) somes_map_shrink [OF slot_array_shrinks [OF slots t1(1)] k(2)]
      by (rule subset_mset.order_trans)
    then have "mset (s # new) \<subseteq># mset (somes (map (\<lambda>k. slots t ! k) (k # ks)))"
      using Some by simp
    moreover have "slots u ! k = Some r \<longrightarrow> r \<in> set log'" for r
      using slots_shrink_nth [OF slot_array_shrinks [OF slots shr] k(1)] Some ih(3) by auto
    ultimately show ?thesis using shr ih(2,3,5) new(1) by auto
  qed
qed

lemma map_nth_slots [simp]: "map (\<lambda>k. xs ! k) [0..<length xs] = xs"
  by (rule map_nth)

lemma compact_overflow_ok:
  assumes "table_ok (t\<lparr>iteration_depth := n\<rparr>)" "n \<noteq> 0"
  shows "table_ok (compact_overflow_if_idle (t\<lparr>iteration_depth := 0\<rparr>))"
    and "mset (live (compact_overflow_if_idle (t\<lparr>iteration_depth := 0\<rparr>))) = mset (live t)"
proof -
  let ?t = "t\<lparr>iteration_depth := 0\<rparr>" and ?c = "compact_overflow_if_idle (t\<lparr>iteration_depth := 0\<rparr>)"
  have shape: "table_shape (t\<lparr>iteration_depth := n\<rparr>)"
    and content: "table_content (live_ids t) (table_size t) (push_size t)"
    using assms(1) by (simp_all add: table_ok_split live_ids_def)
  show live: "mset (live ?c) = mset (live t)"
    using compact_from_live [of 0 ?t] by (simp add: compact_overflow_if_idle_def)
  have "table_shape ?c"
  proof (cases "needs_compact t")
    case False
    with shape show ?thesis by (simp add: compact_overflow_if_idle_def table_shape_def)
  next
    case True
    with shape compact_from_ids [of ?t 0] compact_from_no_tombstone [of 0 ?t]
    show ?thesis
      by (simp add: compact_overflow_if_idle_def table_shape_def compact_from_frame)
  qed
  moreover have "live_ids ?c = live_ids t" by (simp add: live_ids_image live)
  ultimately show "table_ok ?c"
    using content by (simp add: table_ok_split compact_overflow_if_idle_def compact_from_frame)
qed

text \<open>
  An iteration whose callback removes streams, whichever and whenever it likes, visits no record
  twice, misses none that is still live at its end, and leaves a well-formed compacted table.\<close>

lemma for_each_removing:
  assumes ok: "table_ok t" and idle: "iteration_depth t = 0"
    and run: "for_each_stream (removing_callback kill) ([], t) = (log, u)"
  shows "distinct log" "set log \<subseteq> set (live t)" "set (live u) \<subseteq> set log" "table_ok u"
    "iteration_depth u = 0"
proof -
  define t0 where "t0 = t\<lparr>iteration_depth := 1\<rparr>"
  have t0: "table_ok t0" "live t0 = live t"
    using ok by (auto simp: t0_def table_ok_def live_def live_ids_def)
  obtain l1 t1 where v1:
    "visit_slots inline_slots (removing_callback kill) [0, 1] ([], t0) = (l1, t1)" by fastforce
  obtain l2 t2 where v2:
    "visit_slots overflow (removing_callback kill) [0..<length (overflow t1)] (l1, t1) = (l2, t2)"
    by fastforce
  have two: "length (inline_slots t0) = 2" using t0 by (simp add: table_ok_def)
  then have idx: "set [0, 1] \<subseteq> {..<length (inline_slots t0)}" by simp
  have s1: "shrinks t0 t1" "table_ok t1"
    "\<exists>new. l1 = [] @ new \<and> mset new \<subseteq># mset (somes (map (\<lambda>k. inline_slots t0 ! k) [0, 1]))"
    "\<forall>k\<in>set [0, 1]. \<forall>s. inline_slots t1 ! k = Some s \<longrightarrow> s \<in> set l1"
    using visit_slots_removing [OF _ v1 _ t0(1) idx] by (auto simp: slot_array_def t0_def)
  have depth: "iteration_depth t1 \<noteq> 0" using s1(1) by (simp add: shrinks_def t0_def)
  have s2: "shrinks t1 t2" "table_ok t2" "set l1 \<subseteq> set l2"
    "\<exists>new. l2 = l1 @ new \<and> mset new \<subseteq># mset (somes (overflow t1))"
    "\<forall>k\<in>set [0..<length (overflow t1)]. \<forall>s. overflow t2 ! k = Some s \<longrightarrow> s \<in> set l2"
    using visit_slots_removing [OF _ v2 depth s1(2)]
    by (auto simp: slot_array_def simp flip: lessThan_atLeast0)
  have t0_eq: "t\<lparr>iteration_depth := iteration_depth t + 1\<rparr> = t0" by (simp add: t0_def idle)
  have res: "log = l2" "u = compact_overflow_if_idle (t2\<lparr>iteration_depth := iteration_depth t2 - 1\<rparr>)"
    using run unfolding for_each_stream_def Let_def prod.case t0_eq v1 snd_conv v2 by simp_all
  have d2: "iteration_depth t2 = 1" using s1(1) s2(1) by (simp add: shrinks_def t0_def)
  have t2: "t2\<lparr>iteration_depth := 1\<rparr> = t2" using d2 by simp
  have u: "u = compact_overflow_if_idle (t2\<lparr>iteration_depth := 0\<rparr>)" using res(2) d2 by simp
  have "table_ok u" and live_u: "mset (live u) = mset (live t2)"
    using compact_overflow_ok [where t = t2 and n = 1] s2(2) t2 by (simp_all add: u)
  then show "table_ok u" by simp
  show "iteration_depth u = 0" by (simp add: u compact_overflow_if_idle_def compact_from_frame)
  obtain a b where ab: "inline_slots t0 = [a, b]"
    using two by (auto simp: length_Suc_conv numeral_2_eq_2)
  then have a1: "mset l1 \<subseteq># mset (somes (inline_slots t0))" using s1(3) by simp
  have a2: "mset (somes (overflow t1)) \<subseteq># mset (somes (overflow t0))"
    using s1(1) by (intro slots_shrink_somes) (simp add: shrinks_def)
  obtain new where new: "l2 = l1 @ new" "mset new \<subseteq># mset (somes (overflow t1))"
    using s2(4) by blast
  have "mset l1 + mset new \<subseteq># mset (somes (inline_slots t0)) + mset (somes (overflow t0))"
    using a1 subset_mset.order_trans [OF new(2) a2] by (rule subset_mset.add_mono)
  then have sub: "mset log \<subseteq># mset (live t)"
    unfolding t0(2) [symmetric] using new(1) res(1) by (simp add: live_def)
  show "distinct log" using sub live_distinct [OF ok] by (rule distinct_submset)
  show "set log \<subseteq> set (live t)" using set_mset_mono [OF sub] by simp
  show "set (live u) \<subseteq> set log"
  proof
    fix s
    assume "s \<in> set (live u)"
    then have "s \<in> set (live t2)" using live_u by (metis set_mset_mset)
    then consider "Some s \<in> set (inline_slots t2)" | "Some s \<in> set (overflow t2)"
      by (auto simp: live_def)
    then show "s \<in> set log"
    proof cases
      case 1
      then obtain k where k: "k < length (inline_slots t2)" "inline_slots t2 ! k = Some s"
        by (auto simp: in_set_conv_nth)
      have shr: "slots_shrink (inline_slots t0) (inline_slots t1)"
        "slots_shrink (inline_slots t1) (inline_slots t2)"
        using s1(1) s2(1) by (simp_all add: shrinks_def)
      then have "k < 2" "k < length (inline_slots t1)"
        using k(1) two by (simp_all add: slots_shrink_length)
      then have "inline_slots t1 ! k = Some s" "k \<in> set [0, 1]"
        using slots_shrink_nth [OF shr(2), of k] k(2) by auto
      then show ?thesis using s1(4) s2(3) res(1) by blast
    next
      case 2
      then obtain k where k: "k < length (overflow t2)" "overflow t2 ! k = Some s"
        by (auto simp: in_set_conv_nth)
      have "slots_shrink (overflow t1) (overflow t2)" using s2(1) by (simp add: shrinks_def)
      then have "k \<in> set [0..<length (overflow t1)]" using k(1) by (simp add: slots_shrink_length)
      then show ?thesis using s2(5) k(2) res(1) by blast
    qed
  qed
qed

subsection \<open>The table as a bounded map\<close>

lemma card_live_ids:
  assumes "table_ok t"
  shows "card (dom (\<lambda>i. find_stream i t)) = table_size t"
    and "card {i \<in> dom (\<lambda>i. find_stream i t). is_push i} = push_size t"
proof -
  have dom: "dom (\<lambda>i. find_stream i t) = stream_id ` set (live t)"
    using find_stream_iff [OF assms] by (auto simp: image_iff)
  have ids: "mset (map stream_id (live t)) = live_ids t" by (simp add: live_ids_def)
  have distinct: "distinct (map stream_id (live t))" using assms by (simp add: table_ok_def)
  have "card (set (map stream_id (live t))) = size (live_ids t)"
    unfolding distinct_card [OF distinct] ids [symmetric] by simp
  then show "card (dom (\<lambda>i. find_stream i t)) = table_size t"
    using assms by (simp add: dom table_ok_def)
  have "{i \<in> dom (\<lambda>i. find_stream i t). is_push i} = set (filter is_push (map stream_id (live t)))"
    by (auto simp: dom)
  also have "card \<dots> = length (filter is_push (map stream_id (live t)))"
    using distinct by (intro distinct_card distinct_filter)
  also have "\<dots> = push_ids (live_ids t)"
    unfolding push_ids_def ids [symmetric] by (metis mset_filter size_mset)
  also have "\<dots> = push_size t" using assms by (simp add: table_ok_def)
  finally show "card {i \<in> dom (\<lambda>i. find_stream i t). is_push i} = push_size t" .
qed

datatype table_op = Create_stream u32 | Write_stream http2_stream_state | Remove_stream u32

text \<open>The connection writes through pointers that \<open>find\<close> returned.\<close>

fun table_step :: "table_op \<Rightarrow> stream_table \<Rightarrow> stream_table" where
  "table_step (Create_stream i) t = (if i = 0 then t else snd (create_stream i t))"
| "table_step (Write_stream s) t =
     (case find_stream (stream_id s) t of None \<Rightarrow> t | Some _ \<Rightarrow> write_stream s t)"
| "table_step (Remove_stream i) t = snd (remove_stream i t)"

text \<open>The specification: a finite map that admits a new identifier while fewer than 512
  streams, and fewer than 384 pushed ones, are in it.\<close>

fun map_step :: "table_op \<Rightarrow> (u32 \<rightharpoonup> http2_stream_state) \<Rightarrow> (u32 \<rightharpoonup> http2_stream_state)" where
  "map_step (Create_stream i) m =
     (if i = 0 \<or> m i \<noteq> None \<or> card (dom m) \<ge> 512 \<or> (is_push i \<and> card {j \<in> dom m. is_push j} \<ge> 384)
      then m else m(i \<mapsto> make_stream i))"
| "map_step (Write_stream s) m = (if m (stream_id s) = None then m else m(stream_id s \<mapsto> s))"
| "map_step (Remove_stream i) m = m(i := None)"

lemma create_stream_admits:
  "find_stream i t = None \<Longrightarrow> table_size t < max_streams \<Longrightarrow>
     (is_push i \<Longrightarrow> push_size t < max_push_streams) \<Longrightarrow> \<exists>t'. create_stream i t = (Some (make_stream i), t')"
  by (cases "first_index (\<lambda>slot. slot = None) (inline_slots t)") (auto simp: create_stream_def)

lemma create_stream_full:
  "find_stream i t = None \<Longrightarrow>
     table_size t \<ge> max_streams \<or> (is_push i \<and> push_size t \<ge> max_push_streams) \<Longrightarrow>
     create_stream i t = (None, t)"
  by (auto simp: create_stream_def)

lemma table_limits: "max_streams = 512" "max_push_streams = 384"
  by (simp_all add: max_streams_def max_push_streams_def max_concurrent_streams_def)

lemma table_step_refines:
  assumes "table_ok t"
  shows "table_ok (table_step op t)"
    "(\<lambda>i. find_stream i (table_step op t)) = map_step op (\<lambda>i. find_stream i t)"
proof -
  have "table_ok (table_step op t) \<and>
    (\<lambda>i. find_stream i (table_step op t)) = map_step op (\<lambda>i. find_stream i t)"
  proof (cases op)
    case (Create_stream i)
    note full = create_stream_full [of i t] and admit = create_stream_admits [of i t]
    consider "i = 0 \<or> find_stream i t \<noteq> None" | "i \<noteq> 0" "find_stream i t = None"
      "table_size t \<ge> max_streams \<or> (is_push i \<and> push_size t \<ge> max_push_streams)"
      | "i \<noteq> 0" "find_stream i t = None" "table_size t < max_streams"
        "is_push i \<Longrightarrow> push_size t < max_push_streams"
      by fastforce
    then show ?thesis
    proof cases
      case 1
      then show ?thesis using Create_stream assms by (auto simp: create_stream_def)
    next
      case 2
      then show ?thesis
        using Create_stream assms full [OF 2(2,3)] card_live_ids [OF assms]
        by (auto simp: table_limits)
    next
      case 3
      then obtain t' where t': "create_stream i t = (Some (make_stream i), t')"
        using admit by blast
      show ?thesis
        using Create_stream 3 create_stream_ok [OF assms 3(1,2) t'] card_live_ids [OF assms] t'
        by (auto simp: table_limits)
    qed
  next
    case (Write_stream s)
    then show ?thesis
      using assms write_stream_ok [OF assms, of s] by (cases "find_stream (stream_id s) t") auto
  next
    case (Remove_stream i)
    then show ?thesis using remove_stream_ok [OF assms, where i = i] by (simp add: fun_eq_iff)
  qed
  then show "table_ok (table_step op t)"
    "(\<lambda>i. find_stream i (table_step op t)) = map_step op (\<lambda>i. find_stream i t)" by auto
qed

lemma stream_table_map:
  "(\<lambda>i. find_stream i (fold table_step ops empty_table)) = fold map_step ops Map.empty"
proof -
  have run: "table_ok t \<Longrightarrow> m = (\<lambda>i. find_stream i t) \<Longrightarrow>
      (\<lambda>i. find_stream i (fold table_step ops t)) = fold map_step ops m" for t m
  proof (induction ops arbitrary: t m)
    case (Cons op ops)
    then show ?case using table_step_refines [of t op] by simp
  qed simp
  have "(\<lambda>i. find_stream i empty_table) = Map.empty"
    by (simp add: fun_eq_iff find_stream_def empty_table_def)
  then show ?thesis using run [of empty_table Map.empty] by simp
qed

text \<open>
  Property C38. Over any sequence of creations, in-place updates and removals the stream table,
  with its inline slots and its overflow array compacted by moving the last entry, is the
  bounded map of its specification: a lookup by identifier returns what the map holds, and a
  creation is refused exactly when the map is full.\<close>

theorem stream_table_refines_map:
  "(\<lambda>i. find_stream i (fold table_step ops empty_table)) = fold map_step ops Map.empty"
  by (rule stream_table_map)

text \<open>
  Property C40. An iteration over the table whose callback removes streams, whichever and
  whenever it likes, visits no record twice, visits only records that were live when it
  started, misses none that is still live when it ends, and leaves the table well formed.\<close>

theorem iteration_survives_removal:
  assumes "for_each_stream (removing_callback kill) ([], fold table_step ops empty_table) = (visited, u)"
  shows "distinct visited \<and>
    (\<forall>s\<in>set visited. fold map_step ops Map.empty (stream_id s) = Some s) \<and>
    (\<forall>i s. find_stream i u = Some s \<longrightarrow> s \<in> set visited) \<and> table_ok u"
proof -
  define t where "t = fold table_step ops empty_table"
  have depth: "iteration_depth (table_step op v) = iteration_depth v" for op v
    by (cases op) (auto simp: create_stream_def remove_stream_def write_stream_def count_in_def
        count_out_def erase_overflow_at_def split: option.splits)
  have "iteration_depth (fold table_step ops v) = iteration_depth v" for v
    by (induction ops arbitrary: v) (simp_all add: depth)
  then have idle: "iteration_depth t = 0" by (simp add: t_def empty_table_def)
  have "table_ok (fold table_step ops v)" if "table_ok v" for v
    using that by (induction ops arbitrary: v) (simp_all add: table_step_refines)
  then have ok: "table_ok t" by (simp add: t_def)
  note it = for_each_removing [OF ok idle assms [folded t_def]]
  have "find_stream (stream_id s) t = Some s" if "s \<in> set visited" for s
    using it(2) that find_stream_iff [OF ok] by blast
  moreover have "(\<lambda>i. find_stream i t) = fold map_step ops Map.empty"
    unfolding t_def by (rule stream_table_map)
  moreover have "s \<in> set visited" if "find_stream i u = Some s" for i s
    using it(3) that find_stream_iff [OF it(4)] by blast
  ultimately show ?thesis using it(1,4) by (metis (no_types, lifting))
qed

text \<open>Removing stream 5 while stream 1 is visited: stream 5 is skipped, stream 3 is not.\<close>

definition demo_kill :: "http2_stream_state \<Rightarrow> http2_stream_state list \<Rightarrow> u32 list" where
  "demo_kill s log = (if stream_id s = 1 then [5] else [])"

definition demo_ops :: "table_op list" where
  "demo_ops = [Create_stream 1, Create_stream 3, Create_stream 5, Create_stream 7]"

definition demo_visit :: "http2_stream_state list \<times> stream_table" where
  "demo_visit = for_each_stream (removing_callback demo_kill) ([], fold table_step demo_ops empty_table)"

theorem iteration_survives_removal_witness:
  "distinct (fst demo_visit) \<and> map stream_id (fst demo_visit) = [1, 3, 7]"
proof
  have "for_each_stream (removing_callback demo_kill) ([], fold table_step demo_ops empty_table) =
      (fst demo_visit, snd demo_visit)"
    unfolding demo_visit_def by (rule prod.collapse [symmetric])
  then show "distinct (fst demo_visit)" using iteration_survives_removal by blast
  show "map stream_id (fst demo_visit) = [1, 3, 7]" by code_simp
qed

end
