(* ===== verification/H2_Ledger.thy ===== *)
theory H2_Ledger
  imports Slots H2_Stream_Table
begin

text \<open>
  Releases and credits that could not be applied yet (\<open>http2_stream_lease_ledger.h\<close>): two
  arrays bounded by the capacity of the stream table, each with at most one entry per stream.
  \<open>None\<close> is \<open>std::terminate\<close>.
\<close>

datatype release_kind = After_credits | After_remote_end | Abandon

record release_entry =
  re_stream :: u32
  re_kind :: release_kind

record credit_entry =
  ce_stream :: u32
  ce_bytes :: u32

text \<open>The first \<open>release_count\<close> (\<open>credit_count\<close>) elements of the arrays.\<close>

record lease_ledger =
  releases :: "release_entry list"
  credits :: "credit_entry list"

definition empty_ledger :: lease_ledger where
  "empty_ledger = \<lparr>releases = [], credits = []\<rparr>"

definition release_of :: "u32 \<Rightarrow> lease_ledger \<Rightarrow> release_entry option" where
  "release_of i l = map_option (\<lambda>k. releases l ! k) (first_index (\<lambda>e. re_stream e = i) (releases l))"

definition defer_release :: "u32 \<Rightarrow> release_kind \<Rightarrow> lease_ledger \<Rightarrow> lease_ledger option" where
  "defer_release i kind l =
     (case first_index (\<lambda>e. re_stream e = i) (releases l) of
        Some k \<Rightarrow>
          Some (if kind \<noteq> After_credits \<or> re_kind (releases l ! k) = Abandon
            then l\<lparr>releases := (releases l)[k := (releases l ! k)\<lparr>re_kind := kind\<rparr>]\<rparr> else l)
      | None \<Rightarrow>
          if length (releases l) = max_streams then None
          else Some (l\<lparr>releases := releases l @ [\<lparr>re_stream = i, re_kind = kind\<rparr>]\<rparr>))"

definition erase_release :: "u32 \<Rightarrow> lease_ledger \<Rightarrow> lease_ledger" where
  "erase_release i l =
     (case first_index (\<lambda>e. re_stream e = i) (releases l) of
        Some k \<Rightarrow> l\<lparr>releases := swap_erase k (releases l)\<rparr>
      | None \<Rightarrow> l)"

definition defer_credit :: "u32 \<Rightarrow> u32 \<Rightarrow> lease_ledger \<Rightarrow> lease_ledger option" where
  "defer_credit i bytes_value l =
     (case first_index (\<lambda>e. ce_stream e = i) (credits l) of
        Some k \<Rightarrow>
          if bytes_value > u32_max - ce_bytes (credits l ! k) then None
          else Some (l\<lparr>credits := (credits l)[k := (credits l ! k)\<lparr>ce_bytes :=
            ce_bytes (credits l ! k) + bytes_value\<rparr>]\<rparr>)
      | None \<Rightarrow>
          if length (credits l) = max_streams then None
          else Some (l\<lparr>credits := credits l @ [\<lparr>ce_stream = i, ce_bytes = bytes_value\<rparr>]\<rparr>))"

definition erase_credit :: "u32 \<Rightarrow> lease_ledger \<Rightarrow> lease_ledger" where
  "erase_credit i l =
     (case first_index (\<lambda>e. ce_stream e = i) (credits l) of
        Some k \<Rightarrow> l\<lparr>credits := swap_erase k (credits l)\<rparr>
      | None \<Rightarrow> l)"

subsection \<open>At most one entry per stream\<close>

definition ledger_ok :: "lease_ledger \<Rightarrow> bool" where
  "ledger_ok l \<longleftrightarrow> distinct (map re_stream (releases l)) \<and> distinct (map ce_stream (credits l)) \<and>
     length (releases l) \<le> max_streams \<and> length (credits l) \<le> max_streams"

lemma ledger_ok_empty [simp]: "ledger_ok empty_ledger"
  by (simp add: ledger_ok_def empty_ledger_def)

lemma distinct_swap_erase: "k < length xs \<Longrightarrow> distinct xs \<Longrightarrow> distinct (swap_erase k xs)"
  by (rule distinct_submset [of _ xs]) (simp_all add: mset_swap_erase)

lemma map_swap_erase_less: "k < length xs \<Longrightarrow> map f (swap_erase k xs) = swap_erase k (map f xs)"
  by (rule map_swap_erase) auto

lemma map_update_same:
  "k < length xs \<Longrightarrow> f y = f (xs ! k) \<Longrightarrow> map f (xs[k := y]) = map f xs"
  by (simp add: map_update list_update_same_conv)

lemma ledger_ok_defer_release:
  assumes "ledger_ok l" "defer_release i kind l = Some l'"
  shows "ledger_ok l'"
proof (cases "first_index (\<lambda>e. re_stream e = i) (releases l)")
  case None
  with assms show ?thesis
    by (auto simp: defer_release_def ledger_ok_def first_index_None split: if_splits)
next
  case (Some k)
  then have "k < length (releases l)" using first_index_Some [OF Some] by simp
  with assms Some show ?thesis
    by (auto simp: defer_release_def ledger_ok_def map_update_same split: if_splits)
qed

lemma ledger_ok_erase_release: "ledger_ok l \<Longrightarrow> ledger_ok (erase_release i l)"
  by (auto simp: erase_release_def ledger_ok_def map_swap_erase_less distinct_swap_erase
      dest!: first_index_Some split: option.splits)

lemma ledger_ok_defer_credit:
  assumes "ledger_ok l" "defer_credit i n l = Some l'"
  shows "ledger_ok l'"
proof (cases "first_index (\<lambda>e. ce_stream e = i) (credits l)")
  case None
  with assms show ?thesis
    by (auto simp: defer_credit_def ledger_ok_def first_index_None split: if_splits)
next
  case (Some k)
  then have "k < length (credits l)" using first_index_Some [OF Some] by simp
  with assms Some show ?thesis
    by (auto simp: defer_credit_def ledger_ok_def map_update_same split: if_splits)
qed

lemma ledger_ok_erase_credit: "ledger_ok l \<Longrightarrow> ledger_ok (erase_credit i l)"
  by (auto simp: erase_credit_def ledger_ok_def map_swap_erase_less distinct_swap_erase
      dest!: first_index_Some split: option.splits)

text \<open>The ledger as a map from streams to the pending release.\<close>

lemma release_of_iff:
  assumes "ledger_ok l"
  shows "release_of i l = Some e \<longleftrightarrow> e \<in> set (releases l) \<and> re_stream e = i"
proof (cases "first_index (\<lambda>e. re_stream e = i) (releases l)")
  case None
  have "\<forall>x\<in>set (releases l). re_stream x \<noteq> i" using None by (simp add: first_index_None)
  with None show ?thesis by (auto simp: release_of_def)
next
  case (Some k)
  then have k: "k < length (releases l)" "re_stream (releases l ! k) = i"
    using first_index_Some [OF Some] by auto
  have "e = releases l ! k" if "e \<in> set (releases l)" "re_stream e = i"
    using assms k that by (auto simp: ledger_ok_def distinct_map dest: inj_onD)
  then show ?thesis using Some k by (auto simp: release_of_def)
qed

end
