(* ===== verification/H2_Connection.thy ===== *)
theory H2_Connection
  imports H2_Ledger
begin

text \<open>
  The connection around the stream records: creation and removal of records, owner leases,
  receive credit, resets, queued events, peer DATA and the callbacks of a send
  (\<open>http2_connection.cpp\<close>, \<open>http2_connection_streams.cpp\<close>, \<open>http2_connection_leases.cpp\<close>,
  \<open>http2_connection_flow.cpp\<close>, \<open>http2_connection_receive.cpp\<close>, \<open>http2_connection_submit.cpp\<close>).

  The nghttp2 session is not in the repository. Its state is the type \<open>'s\<close>, the functions the
  code calls are the fields of \<open>nghttp2\<close>, and \<open>ng_mem_send\<close> is one drain of
  \<open>nghttp2_session_mem_send2\<close> until it produces nothing, which runs callbacks on the connection, as does \<open>ng_mem_recv\<close> over an input.
  An exception is a value; allocation succeeds. The output buffer is not part of the model.
  Three history fields that no operation reads record the identifiers for which a stream record
  was created, the DATA bytes nghttp2 delivered and the bytes credited back to it. Two more watch
  the rule of nghttp2 that its callbacks must not send or receive on the session:
  \<open>in_nghttp2\<close> holds while it runs callbacks, and \<open>reentered\<close> records a call that breaks the rule, of
  which nghttp2 does not say what it does.
\<close>

datatype h2_exception = Runtime_error | Logic_error | Invalid_argument | Bad_alloc

text \<open>Of an event, the streams it names and the DATA it carries.\<close>

datatype h2_event =
    Informational_head u32 bool
  | Message_head u32 bool bool
  | Message_data u32 bytes u32
  | Message_end u32
  | Tunnel_data u32 bytes u32
  | Tunnel_end u32
  | Stream_closed u32 http2_stream_close_source u32
  | Request_unprocessed u32
  | Goaway_event u32 u32
  | Push_promise_event u32 u32
  | Metadata_event   \<comment> \<open>priorities, settings, window updates, advertisements\<close>

fun event_streams :: "h2_event \<Rightarrow> u32 list" where
  "event_streams (Informational_head i _) = [i]"
| "event_streams (Message_head i _ _) = [i]"
| "event_streams (Message_data i _ _) = [i]"
| "event_streams (Message_end i) = [i]"
| "event_streams (Tunnel_data i _ _) = [i]"
| "event_streams (Tunnel_end i) = [i]"
| "event_streams (Stream_closed i _ _) = [i]"
| "event_streams (Request_unprocessed i) = [i]"
| "event_streams (Goaway_event _ _) = []"
| "event_streams (Push_promise_event associated promised) = [associated, promised]"
| "event_streams Metadata_event = []"

text \<open>The block nghttp2 is delivering: of a stream of the table, or of the request promised in
  \<open>push_scratch_\<close>.\<close>

datatype header_block_kind =
  Block_request | Block_response | Block_request_trailers | Block_response_trailers

datatype header_block_type =
    Stream_block header_block_kind u32
  | Promise_block bool   \<comment> \<open>\<open>reject_connected_tunnel_\<close>\<close>

record 's h2_connection =
  session :: 's
  streams :: stream_table
  leases :: lease_ledger
  priority_ids :: "u32 list"
  events :: "h2_event list"
  owner_resets :: "u32 list"
  header_block :: "header_block_type option"
  header_block_in_progress :: bool
  header_block_bytes :: nat
  push_scratch :: "http2_stream_state option"
  push_associated :: u32
  started :: bool
  enable_push :: bool
  receive_frame_metadata :: bool
  receive_origin_advertisements :: bool
  received_peer_settings :: bool
  liveness_ping_outstanding :: bool
  callback_failure :: "h2_exception option"
  local_state :: http2_local_connection_state
  is_client :: bool
  last_peer_stream_id :: u32
  highest_peer_stream_id :: u32
  active_local_requests :: u32
  completed_responses :: u32
  peer_reset_streams :: u32
  undrained_control_frames :: u32
  peer_error_resets :: u32
  malformed_request_streams :: u32
  peer_goaway :: "(u32 \<times> u32) option"
  terminated :: bool
  in_nghttp2 :: bool
  reentered :: bool
  opened :: "u32 list"
  received_total :: nat
  credited_total :: nat

datatype ng_error_kind =
  Ng_nomem | Ng_flooded | Ng_too_many_continuations | Ng_settings_expected | Ng_bad_client_magic | Ng_other

record 's nghttp2 =
  ng_kind :: "int \<Rightarrow> ng_error_kind"
  ng_is_fatal :: "int \<Rightarrow> bool"
  ng_consume :: "u32 \<Rightarrow> nat \<Rightarrow> 's \<Rightarrow> int \<times> 's"
  ng_consume_connection :: "nat \<Rightarrow> 's \<Rightarrow> int \<times> 's"
  ng_submit_rst_stream :: "u32 \<Rightarrow> u32 \<Rightarrow> 's \<Rightarrow> int \<times> 's"
  ng_find_stream :: "u32 \<Rightarrow> 's \<Rightarrow> bool"
  ng_next_stream_id :: "'s \<Rightarrow> u32"
  ng_terminate_session :: "u32 \<Rightarrow> 's \<Rightarrow> 's"
  ng_submit_goaway :: "u32 \<Rightarrow> 's \<Rightarrow> int \<times> 's"
  ng_submit_shutdown_notice :: "'s \<Rightarrow> int \<times> 's"
  ng_submit_headers :: "bool \<Rightarrow> u32 option \<Rightarrow> 's \<Rightarrow> int \<times> 's"
  ng_submit_data :: "bool \<Rightarrow> u32 \<Rightarrow> bytes \<Rightarrow> 's \<Rightarrow> int \<times> 's"
  ng_data_finished :: "'s \<Rightarrow> bool"
  ng_submit_push_promise :: "u32 \<Rightarrow> 's \<Rightarrow> int \<times> 's"
  ng_submit_settings :: "u32 option \<Rightarrow> 's \<Rightarrow> int \<times> 's"
  ng_set_local_window :: "'s \<Rightarrow> int \<times> 's"
  ng_submit_liveness_ping :: "'s \<Rightarrow> int \<times> 's"
  ng_submit_priority_update :: "u32 \<Rightarrow> 's \<Rightarrow> int \<times> 's"
  ng_submit_extension :: "u32 \<Rightarrow> 's \<Rightarrow> int \<times> 's"
  ng_connection_window :: "'s \<Rightarrow> int"
  ng_stream_window :: "u32 \<Rightarrow> 's \<Rightarrow> int"
  ng_max_concurrent :: "'s \<Rightarrow> u32"
  ng_enable_push :: "'s \<Rightarrow> u32"
  ng_enable_connect_protocol :: "'s \<Rightarrow> u32"
  ng_no_rfc7540_priorities :: "'s \<Rightarrow> u32"
  ng_submit_drain_ping :: "'s \<Rightarrow> int \<times> 's"
  ng_mem_send :: "'s h2_connection \<Rightarrow> int \<times> 's h2_connection"
  ng_mem_recv :: "bytes \<Rightarrow> 's h2_connection \<Rightarrow> int \<times> 's h2_connection"

text \<open>The error codes of RFC 9113 that the code names.\<close>

definition no_error :: u32 where "no_error = 0x0"
definition protocol_error :: u32 where "protocol_error = 0x1"
definition internal_error :: u32 where "internal_error = 0x2"
definition stream_closed_error :: u32 where "stream_closed_error = 0x5"
definition refused_stream :: u32 where "refused_stream = 0x7"
definition cancel_error :: u32 where "cancel_error = 0x8"
definition enhance_your_calm :: u32 where "enhance_your_calm = 0xb"

definition http2_max_stream_id :: u32 where "http2_max_stream_id = 0x7fffffff"

definition initial_connection :: "bool \<Rightarrow> bool \<Rightarrow> bool \<Rightarrow> bool \<Rightarrow> 's \<Rightarrow> 's h2_connection" where
  "initial_connection client push origin_advertisements metadata s =
     \<lparr>session = s, streams = empty_table, leases = empty_ledger,
     priority_ids = [], events = [], owner_resets = [], header_block = None,
     header_block_in_progress = False, header_block_bytes = 0, push_scratch = None,
     push_associated = 0, started = False, enable_push = client \<and> push,
     receive_frame_metadata = metadata,
     receive_origin_advertisements = client \<and> origin_advertisements,
     received_peer_settings = False, liveness_ping_outstanding = False,
     callback_failure = None, local_state = Connection_open, is_client = client,
     last_peer_stream_id = 0, highest_peer_stream_id = 0, active_local_requests = 0,
     completed_responses = 0, peer_reset_streams = 0, undrained_control_frames = 0,
     peer_error_resets = 0, malformed_request_streams = 0, peer_goaway = None, terminated = False, in_nghttp2 = False, reentered = False,
     opened = [], received_total = 0, credited_total = 0\<rparr>"

definition failed :: "'s h2_connection \<Rightarrow> bool" where
  "failed c \<longleftrightarrow> connection_failed (local_state c)"

subsection \<open>Sequencing\<close>

text \<open>An operation returns the exception it threw, if any, and the new connection.\<close>

type_synonym 's h2_op = "'s h2_connection \<Rightarrow> h2_exception option \<times> 's h2_connection"

definition skip :: "'s h2_op" where
  "skip c = (None, c)"

definition then_op :: "'s h2_op \<Rightarrow> 's h2_op \<Rightarrow> 's h2_op" where
  "then_op f h c = (case f c of (None, c') \<Rightarrow> h c' | (Some e, c') \<Rightarrow> (Some e, c'))"

definition pure_op :: "('s h2_connection \<Rightarrow> 's h2_connection) \<Rightarrow> 's h2_op" where
  "pure_op f c = (None, f c)"

subsection \<open>Failing the connection\<close>

definition fail_connection :: "'s nghttp2 \<Rightarrow> u32 \<Rightarrow> 's h2_connection \<Rightarrow> 's h2_connection" where
  "fail_connection g error_code c =
     (if failed c then c
      else c\<lparr>header_block_in_progress := False, header_block := None, push_scratch := None,
        local_state := connection_fail error_code (local_state c),
        session := ng_terminate_session g error_code (session c)\<rparr>)"

definition failure_code :: "ng_error_kind \<Rightarrow> u32" where
  "failure_code kind =
     (case kind of
        Ng_flooded \<Rightarrow> enhance_your_calm
      | Ng_too_many_continuations \<Rightarrow> enhance_your_calm
      | Ng_settings_expected \<Rightarrow> protocol_error
      | Ng_bad_client_magic \<Rightarrow> protocol_error
      | _ \<Rightarrow> internal_error)"

definition fail_on_nghttp2_error :: "'s nghttp2 \<Rightarrow> int \<Rightarrow> 's h2_op" where
  "fail_on_nghttp2_error g rc c =
     (let c' = fail_connection g (failure_code (ng_kind g rc)) (c\<lparr>callback_failure := None\<rparr>) in
      case callback_failure c of
        Some failure \<Rightarrow> (Some failure, c')
      | None \<Rightarrow> (if ng_kind g rc = Ng_nomem then Some Bad_alloc else None, c'))"

definition check_nghttp2 :: "'s nghttp2 \<Rightarrow> int \<Rightarrow> 's h2_op" where
  "check_nghttp2 g rc c =
     (if rc \<ge> 0 then (None, c)
      else if ng_kind g rc = Ng_nomem \<or> ng_is_fatal g rc
        then then_op (fail_on_nghttp2_error g rc) (\<lambda>c'. (Some Runtime_error, c')) c
      else (Some Logic_error, c))"

definition call_session :: "'s nghttp2 \<Rightarrow> ('s \<Rightarrow> int \<times> 's) \<Rightarrow> 's h2_op" where
  "call_session g f c =
     (case f (session c) of (rc, s') \<Rightarrow> check_nghttp2 g rc (c\<lparr>session := s'\<rparr>))"

text \<open>The loop of \<open>flush_session\<close>: an error is terminal and rethrows what a callback threw.\<close>

definition flush_session :: "'s nghttp2 \<Rightarrow> 's h2_op" where
  "flush_session g c =
     (if in_nghttp2 c then (None, c\<lparr>reentered := True\<rparr>)
      else case ng_mem_send g (c\<lparr>in_nghttp2 := True\<rparr>) of (rc, c0) \<Rightarrow>
        (let c1 = c0\<lparr>in_nghttp2 := False\<rparr> in
         if rc \<ge> 0 then (None, c1)
         else
          (let c2 = (if failed c1 then c1
                     else c1\<lparr>local_state := connection_fail internal_error (local_state c1)\<rparr>) in
           case callback_failure c2 of
             Some failure \<Rightarrow> (Some failure, c2\<lparr>callback_failure := None\<rparr>)
           | None \<Rightarrow> (Some (if ng_kind g rc = Ng_nomem then Bad_alloc else Runtime_error), c2))))"

definition flush_output :: "'s nghttp2 \<Rightarrow> 's h2_connection \<Rightarrow> 's h2_connection" where
  "flush_output g c = snd (flush_session g c)"

subsection \<open>Stream records in place\<close>

definition lookup_stream :: "u32 \<Rightarrow> 's h2_connection \<Rightarrow> http2_stream_state option" where
  "lookup_stream i c = find_stream i (streams c)"

text \<open>Writing through the pointer \<open>find\<close> returned, when it is not null.\<close>

definition update_stream ::
  "u32 \<Rightarrow> (http2_stream_state \<Rightarrow> http2_stream_state) \<Rightarrow> 's h2_connection \<Rightarrow> 's h2_connection" where
  "update_stream i f c =
     (case lookup_stream i c of
        None \<Rightarrow> c
      | Some s \<Rightarrow> c\<lparr>streams := write_stream (f s) (streams c)\<rparr>)"

definition erase_stream :: "u32 \<Rightarrow> 's h2_connection \<Rightarrow> 's h2_connection" where
  "erase_stream i c = c\<lparr>streams := snd (remove_stream i (streams c))\<rparr>"

definition erase_priority :: "u32 \<Rightarrow> 's h2_connection \<Rightarrow> 's h2_connection" where
  "erase_priority i c = c\<lparr>priority_ids := removeAll i (priority_ids c)\<rparr>"

definition publish_event :: "h2_event \<Rightarrow> 's h2_connection \<Rightarrow> 's h2_connection" where
  "publish_event ev c =
     fold (\<lambda>i. update_stream i add_pending_event) (event_streams ev) (c\<lparr>events := events c @ [ev]\<rparr>)"

definition change_leases ::
  "(lease_ledger \<Rightarrow> lease_ledger option) \<Rightarrow> 's h2_connection \<Rightarrow> 's h2_connection" where
  "change_leases f c =
     (case f (leases c) of None \<Rightarrow> c\<lparr>terminated := True\<rparr> | Some l \<Rightarrow> c\<lparr>leases := l\<rparr>)"

definition erase_lease :: "u32 \<Rightarrow> 's h2_connection \<Rightarrow> 's h2_connection" where
  "erase_lease i c = c\<lparr>leases := erase_release i (leases c)\<rparr>"

definition release_local_request_stream :: "u32 \<Rightarrow> 's h2_connection \<Rightarrow> 's h2_connection" where
  "release_local_request_stream i c =
     (case lookup_stream i c of
        None \<Rightarrow> c
      | Some s \<Rightarrow>
          (let c' = update_stream i (snd \<circ> release_peer_concurrency_slot) c in
           if fst (release_peer_concurrency_slot s) \<and> active_local_requests c' \<noteq> 0
             then c'\<lparr>active_local_requests := active_local_requests c' - 1\<rparr> else c'))"

definition release_local_request_stream_if_closed :: "u32 \<Rightarrow> 's h2_connection \<Rightarrow> 's h2_connection" where
  "release_local_request_stream_if_closed i c =
     (case lookup_stream i c of
        None \<Rightarrow> c
      | Some s \<Rightarrow> if stream_is_closed s then release_local_request_stream i c else c)"

subsection \<open>Receive credit\<close>

definition consume_received :: "'s nghttp2 \<Rightarrow> u32 \<Rightarrow> nat \<Rightarrow> 's h2_op" where
  "consume_received g i n c =
     (if n = 0 \<or> failed c then (None, c)
      else case ng_consume g i n (session c) of (rc, s') \<Rightarrow>
        check_nghttp2 g rc (c\<lparr>session := s',
          credited_total := credited_total c + (if rc \<ge> 0 then n else 0)\<rparr>))"

definition flush_window_debt :: "'s nghttp2 \<Rightarrow> u32 \<Rightarrow> 's h2_op" where
  "flush_window_debt g i c =
     (case lookup_stream i c of
        None \<Rightarrow> (None, c)
      | Some s \<Rightarrow>
          (let debt = unat (fst (take_all_window_debt s));
               c1 = update_stream i (snd \<circ> take_all_window_debt) c in
           if debt = 0 \<or> failed c1 then (None, c1)
           else case ng_consume_connection g debt (session c1) of (rc, s') \<Rightarrow>
             check_nghttp2 g rc (c1\<lparr>session := s',
               credited_total := credited_total c1 + (if rc \<ge> 0 then debt else 0)\<rparr>)))"

definition release_received_data ::
  "'s nghttp2 \<Rightarrow> u32 \<Rightarrow> u32 \<Rightarrow> 's h2_connection \<Rightarrow> (h2_exception + bool) \<times> 's h2_connection" where
  "release_received_data g i n c =
     (case lookup_stream i c of
        None \<Rightarrow> (Inr False, c)
      | Some s \<Rightarrow>
          if n = 0 \<or> n > window_debt s then (Inr False, c)
          else case consume_received g i (unat n) c of
            (Some e, c') \<Rightarrow> (Inl e, c')
          | (None, c') \<Rightarrow> (Inr True, update_stream i (snd \<circ> take_window_debt n) c'))"

subsection \<open>Closing and resetting streams\<close>

text \<open>The block in progress refers to the record of stream \<open>i\<close>.\<close>

definition block_on :: "u32 \<Rightarrow> 's h2_connection \<Rightarrow> bool" where
  "block_on i c \<longleftrightarrow>
     (case header_block c of Some (Stream_block _ j) \<Rightarrow> j = i | _ \<Rightarrow> False)"

definition close_stream_impl ::
  "'s nghttp2 \<Rightarrow> u32 \<Rightarrow> http2_stream_close_source \<Rightarrow> u32 \<Rightarrow> bool \<Rightarrow> 's h2_connection \<Rightarrow>
     (h2_exception + bool) \<times> 's h2_connection" where
  "close_stream_impl g i src error_code emit_event c =
     (case lookup_stream i c of
        None \<Rightarrow> (Inr False, c)
      | Some s \<Rightarrow>
          if is_aborted s then (Inr False, c)
          else
            (let c1 = (if block_on i c then c\<lparr>header_block := None\<rparr> else c);
                 c2 = release_local_request_stream i c1;
                 c3 = erase_priority i c2;
                 c4 = update_stream i (snd \<circ> stream_abort src) c3;
                 c5 = (if emit_event then publish_event (Stream_closed i src error_code) c4 else c4)
             in if pinned s then (Inr True, c5)
                else case flush_window_debt g i c5 of
                  (Some e, c6) \<Rightarrow> (Inl e, c6)
                | (None, c6) \<Rightarrow> (Inr True, erase_stream i c6)))"

definition close_stream ::
  "'s nghttp2 \<Rightarrow> u32 \<Rightarrow> http2_stream_close_source \<Rightarrow> u32 \<Rightarrow> 's h2_connection \<Rightarrow>
     (h2_exception + bool) \<times> 's h2_connection" where
  "close_stream g i src error_code = close_stream_impl g i src error_code True"

text \<open>\<open>(void)f()\<close>: the value is dropped, an exception is not.\<close>

definition discard ::
  "('s h2_connection \<Rightarrow> (h2_exception + 'a) \<times> 's h2_connection) \<Rightarrow> 's h2_op" where
  "discard f c = (case f c of (Inl e, c') \<Rightarrow> (Some e, c') | (Inr _, c') \<Rightarrow> (None, c'))"

definition submit_owner_reset :: "'s nghttp2 \<Rightarrow> u32 \<Rightarrow> u32 \<Rightarrow> 's h2_op" where
  "submit_owner_reset g i error_code c =
     (if \<not> ng_find_stream g i (session c) then (None, c)
      else call_session g (ng_submit_rst_stream g i error_code)
        (c\<lparr>owner_resets := owner_resets c @ [i]\<rparr>))"

definition reset_stream_for_peer_error :: "'s nghttp2 \<Rightarrow> u32 \<Rightarrow> u32 \<Rightarrow> 's h2_op" where
  "reset_stream_for_peer_error g i error_code =
     then_op (call_session g (ng_submit_rst_stream g i error_code))
       (discard (close_stream g i Close_local error_code))"

datatype http2_submit_status =
  Submitted | Submit_closed | Submit_invalid_state | Submit_invalid_message
  | Submit_peer_capability_unavailable

text \<open>\<open>push_scratch_\<close> holds a record whenever a promise is being decoded.\<close>

definition cancel_push_promise_on :: "'s nghttp2 \<Rightarrow> u32 \<Rightarrow> 's h2_op" where
  "cancel_push_promise_on g i c =
     (case header_block c of
        Some (Promise_block _) \<Rightarrow>
          if push_associated c \<noteq> i then (None, c)
          else (case push_scratch c of
              None \<Rightarrow> (None, c)
            | Some scratch \<Rightarrow> submit_owner_reset g (stream_id scratch) cancel_error
                (c\<lparr>header_block := None, push_scratch := None\<rparr>))
      | _ \<Rightarrow> (None, c))"

text \<open>A stream identifier the connection has already used, although no record is left.\<close>

definition identifier_used :: "'s nghttp2 \<Rightarrow> u32 \<Rightarrow> 's h2_connection \<Rightarrow> bool" where
  "identifier_used g i c \<longleftrightarrow>
     (if (i AND 1 \<noteq> 0) = is_client c then i < ng_next_stream_id g (session c)
      else i \<le> highest_peer_stream_id c)"

definition submit_reset ::
  "'s nghttp2 \<Rightarrow> u32 \<Rightarrow> u32 \<Rightarrow> 's h2_connection \<Rightarrow>
     (h2_exception + http2_submit_status) \<times> 's h2_connection" where
  "submit_reset g i error_code c =
     (if i = 0 \<or> i > http2_max_stream_id then (Inr Submit_invalid_state, c)
      else case lookup_stream i c of
        None \<Rightarrow> (Inr (if identifier_used g i c then Submit_closed else Submit_invalid_state), c)
      | Some s \<Rightarrow>
          if is_aborted s then (Inr Submit_closed, c)
          else if failed c then
            (case close_stream_impl g i Close_local no_error False c of
               (Inl e, c') \<Rightarrow> (Inl e, c')
             | (Inr closed, c') \<Rightarrow> (Inr (if closed then Submitted else Submit_closed), c'))
          else if (\<not> is_client c \<and> \<not> remote_final_head_decoded (remote_receive s)) \<or>
              (stream_is_closed s \<and> error_code \<noteq> protocol_error)
            then (Inr Submit_invalid_state, c)
          else
            (case then_op (if \<not> stream_is_closed s then submit_owner_reset g i error_code else skip)
               (then_op (cancel_push_promise_on g i)
                 (then_op (discard (close_stream_impl g i Close_local error_code False))
                   (flush_session g))) c of
               (Some e, c') \<Rightarrow> (Inl e, c')
             | (None, c') \<Rightarrow> (Inr Submitted, c')))"

text \<open>The error an owner's reset of a stream that is still open carries.\<close>

definition owner_reset_error :: "http2_stream_state \<Rightarrow> u32" where
  "owner_reset_error s = (if local_send s = Send_end_stream_committed then no_error else cancel_error)"

subsection \<open>Owner leases\<close>

definition pin_stream :: "u32 \<Rightarrow> 's h2_connection \<Rightarrow> 's h2_connection" where
  "pin_stream i = update_stream i (set_pinned True)"

definition unpin_stream :: "'s nghttp2 \<Rightarrow> u32 \<Rightarrow> 's h2_op" where
  "unpin_stream g i c =
     (case lookup_stream i c of
        None \<Rightarrow> (None, erase_priority i c)
      | Some s \<Rightarrow>
          if is_aborted s then
            then_op (flush_window_debt g i)
              (pure_op (erase_stream i \<circ> release_local_request_stream i \<circ> erase_priority i)) c
          else if stream_is_closed s then
            then_op (flush_window_debt g i)
              (pure_op (erase_stream i \<circ> erase_priority i \<circ> release_local_request_stream_if_closed i \<circ>
                 (\<lambda>c'. c'\<lparr>completed_responses := completed_responses c' + 1\<rparr>))) c
          else
            then_op (discard (submit_reset g i (owner_reset_error s)))
              (\<lambda>c1. if lookup_stream i c1 = None then (None, c1)
                else then_op (flush_window_debt g i)
                  (pure_op (erase_stream i \<circ> release_local_request_stream i)) c1) c)"

definition defer_lease :: "u32 \<Rightarrow> release_kind \<Rightarrow> 's h2_connection \<Rightarrow> 's h2_connection" where
  "defer_lease i kind = change_leases (defer_release i kind)"

definition has_outstanding :: "http2_stream_state \<Rightarrow> bool" where
  "has_outstanding s \<longleftrightarrow> window_debt s \<noteq> 0 \<or> has_pending_events s"

definition release_stream_lease :: "'s nghttp2 \<Rightarrow> u32 \<Rightarrow> 's h2_op" where
  "release_stream_lease g i c =
     (case lookup_stream i c of
        Some s \<Rightarrow>
          if has_outstanding s then (None, defer_lease i After_credits c)
          else then_op (unpin_stream g i) (pure_op (erase_lease i)) c
      | None \<Rightarrow> then_op (unpin_stream g i) (pure_op (erase_lease i)) c)"

definition release_stream_lease_after_remote_end :: "u32 \<Rightarrow> 's h2_connection \<Rightarrow> 's h2_connection" where
  "release_stream_lease_after_remote_end i = defer_lease i After_remote_end"

definition abandon_stream_lease_checked :: "'s nghttp2 \<Rightarrow> u32 \<Rightarrow> 's h2_op" where
  "abandon_stream_lease_checked g i c =
     (case lookup_stream i c of
        None \<Rightarrow> (None, erase_lease i c)
      | Some s \<Rightarrow>
          then_op
            (if \<not> is_aborted s \<and> \<not> stream_is_closed s
               then discard (submit_reset g i (owner_reset_error s)) else skip)
            (release_stream_lease g i) c)"

definition abandon_stream_lease :: "'s nghttp2 \<Rightarrow> u32 \<Rightarrow> 's h2_connection \<Rightarrow> 's h2_connection" where
  "abandon_stream_lease g i c =
     (case abandon_stream_lease_checked g i c of
        (None, c') \<Rightarrow> flush_output g c'
      | (Some e, c') \<Rightarrow> flush_output g (defer_lease i Abandon c'))"

text \<open>A failed retry keeps the deferred entry for the next one.\<close>

definition retry_deferred_stream_lease :: "'s nghttp2 \<Rightarrow> u32 \<Rightarrow> 's h2_connection \<Rightarrow> 's h2_connection" where
  "retry_deferred_stream_lease g i c =
     (case release_of i (leases c) of
        None \<Rightarrow> c
      | Some pending \<Rightarrow>
          if re_kind pending = Abandon then snd (abandon_stream_lease_checked g i c)
          else
            (let waiting = (case lookup_stream i c of
                None \<Rightarrow> False
              | Some s \<Rightarrow> has_outstanding s \<or>
                  (re_kind pending = After_remote_end \<and> \<not> failed c \<and> \<not> stream_is_closed s))
             in if waiting then c
                else snd (then_op (unpin_stream g i) (pure_op (erase_lease i)) c)))"

definition abandon_received_data :: "'s nghttp2 \<Rightarrow> u32 \<Rightarrow> u32 \<Rightarrow> 's h2_connection \<Rightarrow> 's h2_connection" where
  "abandon_received_data g i n c =
     (case release_received_data g i n c of
        (Inl e, c') \<Rightarrow> flush_output g (change_leases (defer_credit i n) c')
      | (Inr _, c') \<Rightarrow> flush_output g (retry_deferred_stream_lease g i c'))"

definition acknowledge_received_data ::
  "'s nghttp2 \<Rightarrow> u32 \<Rightarrow> u32 \<Rightarrow> 's h2_connection \<Rightarrow> (h2_exception + bool) \<times> 's h2_connection" where
  "acknowledge_received_data g i n c =
     (case release_received_data g i n c of
        (Inl e, c') \<Rightarrow> (Inl e, change_leases (defer_credit i n) c')
      | (Inr False, c') \<Rightarrow> (Inr False, c')
      | (Inr True, c') \<Rightarrow>
          (case flush_session g (retry_deferred_stream_lease g i c') of
             (Some e, c'') \<Rightarrow> (Inl e, c'')
           | (None, c'') \<Rightarrow> (Inr True, c'')))"

text \<open>The two loops of \<open>retry_deferred_stream_leases\<close>; a credit whose application failed
  stays, everything else leaves the ledger.\<close>

definition retry_credit_at :: "'s nghttp2 \<Rightarrow> nat \<Rightarrow> 's h2_connection \<Rightarrow> bool \<times> 's h2_connection" where
  "retry_credit_at g index c =
     (let pending = credits (leases c) ! index in
      case release_received_data g (ce_stream pending) (ce_bytes pending) c of
        (Inl e, c') \<Rightarrow> (True, c')
      | (Inr _, c') \<Rightarrow> (False, retry_deferred_stream_lease g (ce_stream pending)
          (c'\<lparr>leases := erase_credit (ce_stream pending) (leases c')\<rparr>)))"

fun retry_credits :: "'s nghttp2 \<Rightarrow> nat \<Rightarrow> nat \<Rightarrow> 's h2_connection \<Rightarrow> 's h2_connection" where
  "retry_credits g 0 index c = c"
| "retry_credits g (Suc fuel) index c =
     (if index < length (credits (leases c))
        then (case retry_credit_at g index c of
          (True, c') \<Rightarrow> retry_credits g fuel (index + 1) c'
        | (False, c') \<Rightarrow> retry_credits g fuel index c')
      else c)"

text \<open>One round: whether the entry at the index stayed, and the new connection.\<close>

definition retry_release_at :: "'s nghttp2 \<Rightarrow> nat \<Rightarrow> 's h2_connection \<Rightarrow> bool \<times> 's h2_connection" where
  "retry_release_at g index c =
     (let i = re_stream (releases (leases c) ! index);
          c' = retry_deferred_stream_lease g i c
      in (index < length (releases (leases c')) \<and> re_stream (releases (leases c') ! index) = i, c'))"

fun retry_releases :: "'s nghttp2 \<Rightarrow> nat \<Rightarrow> nat \<Rightarrow> 's h2_connection \<Rightarrow> 's h2_connection" where
  "retry_releases g 0 index c = c"
| "retry_releases g (Suc fuel) index c =
     (if index < length (releases (leases c))
        then (case retry_release_at g index c of
          (True, c') \<Rightarrow> retry_releases g fuel (index + 1) c'
        | (False, c') \<Rightarrow> retry_releases g fuel index c')
      else c)"

definition retry_deferred_stream_leases :: "'s nghttp2 \<Rightarrow> 's h2_connection \<Rightarrow> 's h2_connection" where
  "retry_deferred_stream_leases g c =
     (let c1 = retry_credits g (length (credits (leases c))) 0 c;
          c2 = retry_releases g (length (releases (leases c1))) 0 c1
      in flush_output g c2)"

subsection \<open>Events\<close>

definition consume_event :: "'s nghttp2 \<Rightarrow> 's h2_connection \<Rightarrow> 's h2_connection" where
  "consume_event g c =
     (case events c of
        [] \<Rightarrow> c\<lparr>terminated := True\<rparr>
      | ev # rest \<Rightarrow>
          flush_output g
            (fold (\<lambda>i c'. retry_deferred_stream_lease g i
                (case lookup_stream i c' of
                   None \<Rightarrow> c'
                 | Some s \<Rightarrow>
                     (case remove_pending_event s of
                        None \<Rightarrow> c'\<lparr>terminated := True\<rparr>
                      | Some s' \<Rightarrow> c'\<lparr>streams := write_stream s' (streams c')\<rparr>)))
              (event_streams ev) (c\<lparr>events := rest\<rparr>)))"

subsection \<open>Peer DATA\<close>

definition drop_data :: "'s nghttp2 \<Rightarrow> u32 \<Rightarrow> u32 \<Rightarrow> nat \<Rightarrow> 's h2_op" where
  "drop_data g i error_code n =
     then_op (reset_stream_for_peer_error g i error_code) (consume_received g i n)"

definition deliver_data :: "h2_event \<Rightarrow> u32 \<Rightarrow> nat \<Rightarrow> 's h2_connection \<Rightarrow> 's h2_connection" where
  "deliver_data ev i n c = publish_event ev (update_stream i (add_window_debt (word_of_nat n)) c)"

definition content_discarded :: "http2_stream_state \<Rightarrow> bool" where
  "content_discarded s \<longleftrightarrow>
     (case remote_content s of
        Metadata_only_without_length \<Rightarrow> True
      | Metadata_only_known_length _ \<Rightarrow> True
      | _ \<Rightarrow> response_status s = Some 205)"

definition on_data_chunk_recv :: "'s nghttp2 \<Rightarrow> u32 \<Rightarrow> bytes \<Rightarrow> 's h2_op" where
  "on_data_chunk_recv g i data c0 =
     (let n = length data;
          c = c0\<lparr>received_total := received_total c0 + n\<rparr> in
      case lookup_stream i c of
        None \<Rightarrow> consume_received g i n c
      | Some s \<Rightarrow>
          if failed c \<or> is_aborted s then consume_received g i n c
          else case remote_receive s of
            Head_pending \<Rightarrow> drop_data g i protocol_error n c
          | Head_end_stream_pending \<Rightarrow> drop_data g i protocol_error n c
          | Connect_pending _ \<Rightarrow>
              (None, deliver_data (Tunnel_data i data (word_of_nat n)) i n
                (update_stream i (snd \<circ> mark_remote_connect_tunnel_data) c))
          | Connect_rejected_awaiting_end_stream \<Rightarrow> consume_received g i n c
          | Tunnel_open \<Rightarrow> (None, deliver_data (Tunnel_data i data (word_of_nat n)) i n c)
          | Remote_content_open \<Rightarrow>
              (let accounted = fst (account_remote_content (word_of_nat n) s);
                   c1 = update_stream i (snd \<circ> account_remote_content (word_of_nat n)) c in
               case accounted of
                 Accounted \<Rightarrow>
                   if content_discarded (snd (account_remote_content (word_of_nat n) s))
                     then consume_received g i n c1
                   else (None, deliver_data (Message_data i data (word_of_nat n)) i n c1)
               | Counter_overflow \<Rightarrow> drop_data g i cancel_error n c1
               | _ \<Rightarrow> drop_data g i protocol_error n c1)
          | _ \<Rightarrow> drop_data g i stream_closed_error n c)"

definition finish_data_frame :: "'s nghttp2 \<Rightarrow> u32 \<Rightarrow> 's h2_op" where
  "finish_data_frame g i c =
     (case lookup_stream i c of
        None \<Rightarrow> (None, c)
      | Some s \<Rightarrow>
          let closing = (\<lambda>c'. (None, release_local_request_stream_if_closed i c')) in
          (case remote_receive s of
             Connect_pending _ \<Rightarrow> closing (update_stream i (snd \<circ> finish_remote_pending_connect) c)
           | Connect_rejected_awaiting_end_stream \<Rightarrow>
               closing (update_stream i (snd \<circ> finish_remote_rejected_connect) c)
           | Tunnel_open \<Rightarrow>
               closing (publish_event (Tunnel_end i) (update_stream i (snd \<circ> finish_remote_tunnel) c))
           | Remote_content_open \<Rightarrow>
               if \<not> terminal_length_valid (remote_content s)
                 then reset_stream_for_peer_error g i protocol_error c
               else closing (publish_event (Message_end i)
                 (update_stream i (snd \<circ> finish_remote_content) c))
           | _ \<Rightarrow> reset_stream_for_peer_error g i protocol_error c))"

subsection \<open>Graceful drain\<close>

definition begin_final_drain :: "'s nghttp2 \<Rightarrow> 's h2_op" where
  "begin_final_drain g c =
     (if local_state c \<noteq> Connection_open then (None, c)
      else then_op (call_session g (ng_submit_goaway g (last_peer_stream_id c)))
        (pure_op (\<lambda>c'. c'\<lparr>local_state :=
          snd (begin_graceful_drain (last_peer_stream_id c') (local_state c'))\<rparr>)) c)"

definition awaiting_round_trip :: "http2_local_connection_state \<Rightarrow> bool" where
  "awaiting_round_trip l \<longleftrightarrow> (case l of Graceful_drain _ b _ \<Rightarrow> b | _ \<Rightarrow> False)"

definition finish_drain_round_trip :: "'s nghttp2 \<Rightarrow> 's h2_op" where
  "finish_drain_round_trip g c =
     (if \<not> awaiting_round_trip (local_state c) then (None, c)
      else then_op (call_session g (ng_submit_goaway g (last_peer_stream_id c)))
        (pure_op (\<lambda>c'. c'\<lparr>local_state :=
          snd (finish_round_trip_drain (last_peer_stream_id c') (local_state c'))\<rparr>)) c)"

definition stream_budget :: u32 where
  "stream_budget = 2 * 128"

definition round_trip_limit :: "u32 \<Rightarrow> u32" where
  "round_trip_limit last_id =
     (if last_id > http2_max_stream_id - stream_budget then http2_max_stream_id
      else last_id + stream_budget)"

definition begin_drain :: "'s nghttp2 \<Rightarrow> 's h2_op" where
  "begin_drain g c =
     (if local_state c \<noteq> Connection_open then (None, c)
      else if is_client c then then_op (begin_final_drain g) (flush_session g) c
      else
        (let limit = round_trip_limit (last_peer_stream_id c) in
         then_op (call_session g (ng_submit_shutdown_notice g))
           (then_op (flush_session g)
             (then_op (call_session g (ng_submit_drain_ping g))
               (then_op (pure_op (\<lambda>c'. c'\<lparr>local_state :=
                   snd (begin_round_trip_drain http2_max_stream_id limit (local_state c'))\<rparr>))
                 (flush_session g)))) c))"

definition finish_drain :: "'s nghttp2 \<Rightarrow> 's h2_op" where
  "finish_drain g c =
     then_op (if local_state c = Connection_open then begin_final_drain g else finish_drain_round_trip g)
       (flush_session g) c"

subsection \<open>Field blocks of the peer\<close>

text \<open>HEADERS of a peer stream at a server: its initial head, or trailers.\<close>

definition begin_initial_request :: "'s nghttp2 \<Rightarrow> u32 \<Rightarrow> bool \<Rightarrow> 's h2_op" where
  "begin_initial_request g i end_stream c =
     (let beyond = (case local_state c of Graceful_drain _ b limit \<Rightarrow> b \<and> i > limit | _ \<Rightarrow> False);
          refused = beyond \<or> (case local_state c of Graceful_drain d _ _ \<Rightarrow> i > d | _ \<Rightarrow> False);
          created = (if refused then (None, streams c) else create_stream i (streams c)) in
      case fst created of
        None \<Rightarrow>
          then_op (call_session g (ng_submit_rst_stream g i refused_stream))
            (if beyond then finish_drain_round_trip g else skip) c
      | Some _ \<Rightarrow>
          (let c1 = c\<lparr>streams := snd created, opened := opened c @ [i], last_peer_stream_id := i,
                 highest_peer_stream_id := max (highest_peer_stream_id c) i\<rparr>;
               c2 = (if end_stream then update_stream i (snd \<circ> record_remote_head_end_stream) c1 else c1)
           in (None, c2\<lparr>header_block := Some (Stream_block Block_request i)\<rparr>)))"

definition begin_request_headers :: "'s nghttp2 \<Rightarrow> bool \<Rightarrow> u32 \<Rightarrow> bool \<Rightarrow> 's h2_op" where
  "begin_request_headers g initial i end_stream c =
     (if initial then begin_initial_request g i end_stream c
      else case lookup_stream i c of
        None \<Rightarrow> (None, c)
      | Some s \<Rightarrow>
          if is_aborted s then (None, c)
          else if tunnel s = Tunnel_accepted \<or> tunnel_is_pending (tunnel s) \<or>
              remote_receive s \<noteq> Remote_content_open \<or> \<not> end_stream
            then reset_stream_for_peer_error g i protocol_error c
          else (None, c\<lparr>header_block := Some (Stream_block Block_request_trailers i)\<rparr>))"

definition begin_response_headers :: "'s nghttp2 \<Rightarrow> u32 \<Rightarrow> bool \<Rightarrow> 's h2_op" where
  "begin_response_headers g i end_stream c =
     (case lookup_stream i c of
        None \<Rightarrow> (None, c)
      | Some s \<Rightarrow>
          if is_aborted s then (None, c)
          else if \<not> remote_final_head_decoded (remote_receive s) then
            (None, (if end_stream then update_stream i (snd \<circ> record_remote_head_end_stream) c else c)
              \<lparr>header_block := Some (Stream_block Block_response i)\<rparr>)
          else if tunnel s = Tunnel_accepted \<or> remote_receive s \<noteq> Remote_content_open \<or> \<not> end_stream
            then reset_stream_for_peer_error g i protocol_error c
          else (None, c\<lparr>header_block := Some (Stream_block Block_response_trailers i)\<rparr>))"

definition begin_push_promise :: "'s nghttp2 \<Rightarrow> u32 \<Rightarrow> u32 \<Rightarrow> 's h2_connection \<Rightarrow> 's h2_connection" where
  "begin_push_promise g associated promised c =
     (if \<not> enable_push c then fail_connection g protocol_error c
      else c\<lparr>last_peer_stream_id := promised,
        highest_peer_stream_id := max (highest_peer_stream_id c) promised,
        push_scratch := Some (snd (record_remote_head_end_stream (make_stream promised))),
        push_associated := associated,
        header_block := Some (Promise_block
          (case lookup_stream associated c of
             None \<Rightarrow> False
           | Some parent \<Rightarrow> tunnel parent = Tunnel_accepted))\<rparr>)"

text \<open>HEADERS, or PUSH_PROMISE when a promised identifier is there.\<close>

record header_frame =
  hf_stream :: u32
  hf_end_stream :: bool
  hf_initial :: bool        \<comment> \<open>category REQUEST\<close>
  hf_promised :: "u32 option"
  hf_priority :: bool

definition on_begin_headers :: "'s nghttp2 \<Rightarrow> header_frame \<Rightarrow> 's h2_op" where
  "on_begin_headers g frame c =
     (let c0 = c\<lparr>header_block := None\<rparr> in
      if failed c0 then (None, c0)
      else
        (let c1 = (if hf_promised frame = None \<and> receive_frame_metadata c0 \<and> hf_priority frame
              then publish_event Metadata_event c0 else c0)
         in if \<not> is_client c1
              then begin_request_headers g (hf_initial frame) (hf_stream frame) (hf_end_stream frame) c1
            else case hf_promised frame of
              Some promised \<Rightarrow> (None, begin_push_promise g (hf_stream frame) promised c1)
            | None \<Rightarrow> begin_response_headers g (hf_stream frame) (hf_end_stream frame) c1))"

definition max_malformed_request_streams :: u32 where
  "max_malformed_request_streams = 32"

definition reject_header_block :: "'s nghttp2 \<Rightarrow> u32 \<Rightarrow> bool \<Rightarrow> 's h2_op" where
  "reject_header_block g i malformed_request_head =
     then_op (reset_stream_for_peer_error g i protocol_error)
       (if \<not> malformed_request_head then skip
        else pure_op (\<lambda>c.
          let c1 = c\<lparr>malformed_request_streams := malformed_request_streams c + 1\<rparr> in
          if malformed_request_streams c1 \<ge> max_malformed_request_streams
            then fail_connection g enhance_your_calm c1 else c1))"

text \<open>One field of the block. The field rules, which are not modelled, decide whether it is
  valid and whether it declares a content length.\<close>

record decoded_field =
  field_valid :: bool
  declared_length :: "u64 option"

definition declare_field :: "decoded_field \<Rightarrow> http2_stream_state \<Rightarrow> bool \<times> http2_stream_state" where
  "declare_field f s =
     (case declared_length f of
        None \<Rightarrow> (field_valid f, s)
      | Some n \<Rightarrow>
          (fst (declare_remote_content_length n s) \<and> field_valid f,
           snd (declare_remote_content_length n s)))"

text \<open>\<open>i\<close> is the stream of the frame, the promised one for PUSH_PROMISE.\<close>

definition on_header :: "'s nghttp2 \<Rightarrow> u32 \<Rightarrow> decoded_field \<Rightarrow> 's h2_op" where
  "on_header g i f c =
     (if failed c then (None, c)
      else case header_block c of
        None \<Rightarrow> (None, c)
      | Some (Stream_block kind j) \<Rightarrow>
          (case lookup_stream j c of
             None \<Rightarrow> (None, c)
           | Some s \<Rightarrow>
               let c1 = update_stream j (snd \<circ> declare_field f) c in
               if fst (declare_field f s) then (None, c1)
               else reject_header_block g i (kind = Block_request) (c1\<lparr>header_block := None\<rparr>))
      | Some (Promise_block _) \<Rightarrow>
          (case push_scratch c of
             None \<Rightarrow> (None, c)
           | Some scratch \<Rightarrow>
               if fst (declare_field f scratch)
                 then (None, c\<lparr>push_scratch := Some (snd (declare_field f scratch))\<rparr>)
               else reset_stream_for_peer_error g i protocol_error
                 (c\<lparr>header_block := None, push_scratch := None\<rparr>)))"

text \<open>What field validation, which is not modelled, found a complete head to be.\<close>

datatype request_head = Malformed_head | Regular_head | Connect_head http2_connect_form

datatype http_response_content_semantics = With_content | Without_content | Connect_tunnel

datatype response_head =
    No_status
  | Informational_status bool   \<comment> \<open>100 (Continue)\<close>
  | Final_status nat http_response_content_semantics

definition apply_head :: "request_head \<Rightarrow> http2_stream_state \<Rightarrow> bool \<times> http2_stream_state" where
  "apply_head head s =
     (case head of
        Malformed_head \<Rightarrow> (False, s)
      | Regular_head \<Rightarrow>
          (if tunnel_is_pending (tunnel s) then finalize_remote_connect_head s
           else finalize_remote_content_head s)
      | Connect_head form \<Rightarrow>
          (case on_tunnel (tunnel_begin form) s of
             (False, s') \<Rightarrow> (False, s')
           | (True, s') \<Rightarrow>
               (if tunnel_is_pending (tunnel s') then finalize_remote_connect_head s'
                else finalize_remote_content_head s')))"

definition finish_request_head :: "request_head \<Rightarrow> http2_stream_state \<Rightarrow> bool \<times> http2_stream_state" where
  "finish_request_head head s =
     (case apply_head head s of
        (False, s') \<Rightarrow> (False, s')
      | (True, s') \<Rightarrow>
          (\<not> remote_peer_half_closed (remote_receive s') \<or> terminal_length_valid (remote_content s'), s'))"

definition emit_request_headers :: "u32 \<Rightarrow> 's h2_connection \<Rightarrow> 's h2_connection" where
  "emit_request_headers i c =
     (case lookup_stream i c of
        None \<Rightarrow> c
      | Some s \<Rightarrow>
          (let c1 = (if \<not> is_client c then pin_stream i (erase_priority i c) else c);
               half_closed = remote_peer_half_closed (remote_receive s);
               body_open = (\<not> half_closed \<and> (is_client c \<or> \<not> tunnel_is_pending (tunnel s)));
               c2 = publish_event (Message_head i (request_content_canceled s) body_open) c1 in
           if \<not> is_client c \<and> tunnel_is_pending (tunnel s) then c2
           else if is_client c \<and> tunnel s = Tunnel_accepted
             then release_local_request_stream_if_closed i
               (if half_closed then publish_event (Tunnel_end i) c2 else c2)
           else release_local_request_stream_if_closed i
               (if half_closed then publish_event (Message_end i) c2 else c2)))"

subsubsection \<open>Response heads\<close>

text \<open>Steps on one record that stop at the first that fails.\<close>

definition and_then ::
  "(http2_stream_state \<Rightarrow> bool \<times> http2_stream_state) \<Rightarrow>
     (http2_stream_state \<Rightarrow> bool \<times> http2_stream_state) \<Rightarrow>
     http2_stream_state \<Rightarrow> bool \<times> http2_stream_state" where
  "and_then f h s = (case f s of (True, s') \<Rightarrow> h s' | (False, s') \<Rightarrow> (False, s'))"

definition require ::
  "(http2_stream_state \<Rightarrow> bool) \<Rightarrow> http2_stream_state \<Rightarrow> bool \<times> http2_stream_state" where
  "require p s = (p s, s)"

definition always ::
  "(http2_stream_state \<Rightarrow> http2_stream_state) \<Rightarrow> http2_stream_state \<Rightarrow> bool \<times> http2_stream_state" where
  "always f s = (True, f s)"

definition valid_end :: "http2_stream_state \<Rightarrow> bool" where
  "valid_end s \<longleftrightarrow>
     \<not> remote_peer_half_closed (remote_receive s) \<or> terminal_length_valid (remote_content s)"

definition apply_final_head ::
  "nat \<Rightarrow> http_response_content_semantics \<Rightarrow> http2_stream_state \<Rightarrow> bool \<times> http2_stream_state" where
  "apply_final_head code semantics =
     and_then (always (snd \<circ> cancel_pending_request_continue))
       (and_then (set_response_status code)
         (and_then (if semantics = Without_content then select_remote_content_metadata_only
             else require (\<lambda>_. True))
           (\<lambda>s. if tunnel_is_pending (tunnel s) then
               (if semantics = Connect_tunnel
                  then and_then accept_connect
                    (always (snd \<circ> open_local_connect_tunnel \<circ> begin_local_content_unbounded)) s
                else and_then reject_connect (require valid_end) s)
             else finalize_remote_content_head s)))"

text \<open>\<open>std::int32_t\<close> windows of nghttp2; an empty END_STREAM needs both to be positive.\<close>

definition send_window_state :: "'s nghttp2 \<Rightarrow> u32 \<Rightarrow> 's h2_connection \<Rightarrow> (int \<times> int \<times> nat) option" where
  "send_window_state g i c =
     (case lookup_stream i c of
        None \<Rightarrow> None
      | Some s \<Rightarrow>
          if stream_is_closed s then None
          else if ng_stream_window g i (session c) < 0 \<and> \<not> ng_find_stream g i (session c) then None
          else Some (ng_connection_window g (session c), ng_stream_window g i (session c),
            nat (min (ng_connection_window g (session c)) (ng_stream_window g i (session c)))))"

definition can_send_empty_end_stream :: "'s nghttp2 \<Rightarrow> u32 \<Rightarrow> 's h2_connection \<Rightarrow> bool" where
  "can_send_empty_end_stream g i c =
     (case send_window_state g i c of
        None \<Rightarrow> False
      | Some (connection_window, stream_window, _) \<Rightarrow> connection_window > 0 \<and> stream_window > 0)"

definition finish_informational_head :: "u32 \<Rightarrow> bool \<Rightarrow> http2_stream_state \<Rightarrow> 's h2_connection \<Rightarrow>
    (h2_exception + bool) \<times> 's h2_connection" where
  "finish_informational_head i continue s c =
     (if remote_receive s = Head_end_stream_pending then (Inr False, c)
      else
        (let c1 = update_stream i (activate_push \<circ> mark_informational_response) c;
             c2 = (if continue then update_stream i (snd \<circ> release_request_continue) c1 else c1)
         in (Inr True, publish_event
              (Informational_head i (continue \<and> fst (release_request_continue s))) c2)))"

text \<open>A rejected CONNECT owes an empty END_STREAM, which nghttp2 may hold back.\<close>

definition end_rejected_connect :: "'s nghttp2 \<Rightarrow> u32 \<Rightarrow> 's h2_op" where
  "end_rejected_connect g i =
     then_op (call_session g (ng_submit_data g True i []))
       (pure_op (\<lambda>c. if can_send_empty_end_stream g i c
          then update_stream i (snd \<circ> reject_local_connect) c else c))"

definition finish_response_head :: "'s nghttp2 \<Rightarrow> u32 \<Rightarrow> response_head \<Rightarrow> 's h2_connection \<Rightarrow>
    (h2_exception + bool) \<times> 's h2_connection" where
  "finish_response_head g i head c =
     (case lookup_stream i c of
        None \<Rightarrow> (Inr False, c)
      | Some s \<Rightarrow>
          (case head of
             No_status \<Rightarrow> (Inr False, c)
           | Informational_status continue \<Rightarrow> finish_informational_head i continue s c
           | Final_status code semantics \<Rightarrow>
               (let c1 = update_stream i (snd \<circ> apply_final_head code semantics) c in
                if \<not> fst (apply_final_head code semantics s) then (Inr False, c1)
                else case (if tunnel_is_pending (tunnel s) \<and> semantics \<noteq> Connect_tunnel
                    then end_rejected_connect g i else skip) c1 of
                  (Some e, c2) \<Rightarrow> (Inl e, c2)
                | (None, c2) \<Rightarrow>
                    (if \<not> (case lookup_stream i c2 of None \<Rightarrow> False | Some s2 \<Rightarrow> valid_end s2)
                       then (Inr False, c2)
                     else (Inr True, emit_request_headers i (update_stream i activate_push c2))))))"

definition finish_trailers :: "u32 \<Rightarrow> 's h2_connection \<Rightarrow> bool \<times> 's h2_connection" where
  "finish_trailers i c =
     (case lookup_stream i c of
        None \<Rightarrow> (False, c)
      | Some s \<Rightarrow>
          if \<not> terminal_length_valid (remote_content s) \<or> \<not> fst (finish_remote_content s)
            then (False, c)
          else (True, release_local_request_stream_if_closed i (publish_event (Message_end i)
            (update_stream i (snd \<circ> finish_remote_content) c))))"

subsubsection \<open>Push promises\<close>

text \<open>The result of decoding the promised request: its head and whether the method is GET or
  HEAD. The scratch record is dropped on every path.\<close>

definition push_refusal :: "bool \<Rightarrow> request_head \<Rightarrow> bool \<Rightarrow> http2_stream_state \<Rightarrow> u32 option" where
  "push_refusal reject_tunnel head safe scratch =
     (if reject_tunnel then Some cancel_error
      else if \<not> fst (finish_request_head head scratch) \<or> \<not> safe then Some protocol_error
      else None)"

definition finish_push_promise ::
  "'s nghttp2 \<Rightarrow> u32 \<Rightarrow> bool \<Rightarrow> request_head \<Rightarrow> bool \<Rightarrow> 's h2_op" where
  "finish_push_promise g promised reject_tunnel head safe c0 =
     (case push_scratch c0 of
        None \<Rightarrow> (None, c0)
      | Some scratch \<Rightarrow>
          (let c = c0\<lparr>push_scratch := None\<rparr>;
               refusal = push_refusal reject_tunnel head safe scratch;
               created = (if refusal \<noteq> None then (None, streams c)
                 else create_stream promised (streams c)) in
           case fst created of
             None \<Rightarrow>
               then_op (if reject_tunnel
                   then reset_stream_for_peer_error g (push_associated c) protocol_error else skip)
                 (call_session g (ng_submit_rst_stream g promised
                   (case refusal of Some e \<Rightarrow> e | None \<Rightarrow> enhance_your_calm))) c
           | Some _ \<Rightarrow>
               (None, publish_event (Push_promise_event (push_associated c) promised)
                 (update_stream promised
                   (reserve_push Push_remote \<circ> snd \<circ> commit_local_head_end_stream \<circ>
                    begin_local_content_forbidden)
                   (pin_stream promised
                     (c\<lparr>streams := snd created, opened := opened c @ [promised]\<rparr>))))))"

text \<open>What the decoder of the complete block found, by the kind of the block.\<close>

record decoded_block =
  db_request :: request_head
  db_response :: response_head
  db_safe_method :: bool

definition finish_header_block :: "'s nghttp2 \<Rightarrow> u32 \<Rightarrow> decoded_block \<Rightarrow> 's h2_op" where
  "finish_header_block g promised block c =
     (case header_block c of
        None \<Rightarrow> (None, c)
      | Some (Promise_block reject_tunnel) \<Rightarrow>
          finish_push_promise g promised reject_tunnel (db_request block) (db_safe_method block)
            (c\<lparr>header_block := None\<rparr>)
      | Some (Stream_block kind i) \<Rightarrow>
          (let c0 = c\<lparr>header_block := None\<rparr> in
           case lookup_stream i c0 of
             None \<Rightarrow> (None, c0)
           | Some s \<Rightarrow>
               (case kind of
                  Block_request \<Rightarrow>
                    (let c1 = update_stream i (snd \<circ> finish_request_head (db_request block)) c0 in
                     if fst (finish_request_head (db_request block) s)
                       then (None, emit_request_headers i c1)
                     else reject_header_block g i True c1)
                | Block_response \<Rightarrow>
                    (case finish_response_head g i (db_response block) c0 of
                       (Inl e, c1) \<Rightarrow> (Some e, c1)
                     | (Inr True, c1) \<Rightarrow> (None, c1)
                     | (Inr False, c1) \<Rightarrow> reject_header_block g i False c1)
                | _ \<Rightarrow>
                    (case finish_trailers i c0 of
                       (True, c1) \<Rightarrow> (None, c1)
                     | (False, c1) \<Rightarrow> reject_header_block g i False c1))))"

subsection \<open>Other frames of the peer\<close>

definition max_unprocessed_resets :: nat where
  "max_unprocessed_resets = 1000"

definition max_undrained_control_frames :: u32 where
  "max_undrained_control_frames = 1000"

definition max_peer_error_resets :: u32 where
  "max_peer_error_resets = 1024"

definition process_rst_stream :: "'s nghttp2 \<Rightarrow> u32 \<Rightarrow> u32 \<Rightarrow> 's h2_op" where
  "process_rst_stream g i error_code c =
     then_op
       (case lookup_stream i c of
          None \<Rightarrow> skip
        | Some s \<Rightarrow>
            if is_aborted s \<or> stream_is_closed s then skip
            else if is_client c \<and> error_code = refused_stream \<and> i AND 1 \<noteq> 0 \<and>
                response_status s = None \<and> \<not> informational_response s
              then (\<lambda>c0. case close_stream_impl g i Close_peer error_code False c0 of
                (Inl e, c') \<Rightarrow> (Some e, c')
              | (Inr True, c') \<Rightarrow> (None, publish_event (Request_unprocessed i) c')
              | (Inr False, c') \<Rightarrow> (None, c'))
            else discard (close_stream g i Close_peer error_code))
       (pure_op (\<lambda>c1.
          let c2 = c1\<lparr>peer_reset_streams := peer_reset_streams c1 + 1\<rparr> in
          if unat (peer_reset_streams c2) > unat (completed_responses c2) + max_unprocessed_resets
            then fail_connection g enhance_your_calm c2 else c2)) c"

text \<open>The streams a peer GOAWAY excludes, in the order of their identifiers.\<close>

definition goaway_scan ::
  "bool \<Rightarrow> u32 \<Rightarrow> http2_stream_state \<Rightarrow> (bool \<times> u32 list) \<times> stream_table \<Rightarrow>
     (bool \<times> u32 list) \<times> stream_table" where
  "goaway_scan client last_id s st =
     (case fst st of (reached, ids) \<Rightarrow>
        ((if client
            then (if stream_id s AND 1 = 0 \<or> stream_id s \<le> last_id \<or> is_aborted s then (reached, ids)
                  else if remote_final_head_decoded (remote_receive s) \<or> informational_response s
                    then (True, ids)
                  else (reached, ids @ [stream_id s]))
          else (if stream_id s AND 1 = 0 \<and> stream_id s > last_id \<and> \<not> stream_is_closed s
            then (reached, ids @ [stream_id s]) else (reached, ids))),
         snd st))"

definition close_excluded :: "'s nghttp2 \<Rightarrow> u32 \<Rightarrow> u32 \<Rightarrow> 's h2_op" where
  "close_excluded g error_code i c =
     (if \<not> is_client c then discard (close_stream g i Close_peer_goaway error_code) c
      else case close_stream_impl g i Close_peer_goaway error_code False c of
        (Inl e, c') \<Rightarrow> (Some e, c')
      | (Inr True, c') \<Rightarrow> (None, publish_event (Request_unprocessed i) c')
      | (Inr False, c') \<Rightarrow> (None, c'))"

definition process_goaway :: "'s nghttp2 \<Rightarrow> u32 \<Rightarrow> u32 \<Rightarrow> 's h2_op" where
  "process_goaway g last_id error_code c =
     (case for_each_stream (goaway_scan (is_client c) last_id) ((False, []), streams c) of
        ((reached, ids), t) \<Rightarrow>
          (let c0 = c\<lparr>streams := t\<rparr> in
           if reached then (None, fail_connection g protocol_error c0)
           else then_op
             (if local_state c0 = Connection_open then begin_final_drain g else finish_drain_round_trip g)
             (then_op
               (pure_op (\<lambda>c1. publish_event (Goaway_event last_id error_code)
                  (c1\<lparr>peer_goaway := Some (last_id, error_code)\<rparr>)))
               (fold (\<lambda>i k. then_op k (close_excluded g error_code i)) (sort ids) skip)) c0))"

subsection \<open>Callbacks of a send\<close>

datatype sent_frame =
    Sent_control_ack          \<comment> \<open>PING or SETTINGS with ACK\<close>
  | Sent_rst_stream u32
  | Sent_goaway u32
  | Sent_data_end_stream u32
  | Sent_other

definition on_stream_close :: "'s nghttp2 \<Rightarrow> u32 \<Rightarrow> u32 \<Rightarrow> 's h2_op" where
  "on_stream_close g i error_code c =
     (let c1 = c\<lparr>owner_resets := remove1 i (owner_resets c)\<rparr>;
          c2 = (if block_on i c1 \<and> lookup_stream i c1 \<noteq> None
            then c1\<lparr>header_block := None\<rparr> else c1) in
      case lookup_stream i c2 of
        None \<Rightarrow> (None, c2)
      | Some s \<Rightarrow>
          if is_aborted s \<or> stream_is_closed s \<or> failed c2 then (None, c2)
          else discard (close_stream g i Close_local error_code) c2)"

text \<open>The result says whether the frame is cancelled.\<close>

definition before_frame_send :: "'s nghttp2 \<Rightarrow> sent_frame \<Rightarrow> 's h2_connection \<Rightarrow> bool \<times> 's h2_connection" where
  "before_frame_send g frame c =
     (case frame of
        Sent_control_ack \<Rightarrow>
          if undrained_control_frames c \<ge> max_undrained_control_frames
            then (True, fail_connection g enhance_your_calm c)
          else (False, c\<lparr>undrained_control_frames := undrained_control_frames c + 1\<rparr>)
      | Sent_rst_stream i \<Rightarrow>
          if i \<in> set (owner_resets c) then (False, c\<lparr>owner_resets := remove1 i (owner_resets c)\<rparr>)
          else if peer_error_resets c \<ge> max_peer_error_resets \<or>
              undrained_control_frames c \<ge> max_undrained_control_frames
            then (True, fail_connection g enhance_your_calm c)
          else (False, c\<lparr>peer_error_resets := peer_error_resets c + 1,
            undrained_control_frames := undrained_control_frames c + 1\<rparr>)
      | _ \<Rightarrow> (False, c))"

definition on_frame_send :: "'s nghttp2 \<Rightarrow> sent_frame \<Rightarrow> 's h2_connection \<Rightarrow> 's h2_connection" where
  "on_frame_send g frame c =
     (case frame of
        Sent_goaway error_code \<Rightarrow>
          if error_code \<noteq> no_error \<and> \<not> failed c
            then c\<lparr>header_block_in_progress := False, header_block := None, push_scratch := None,
              local_state := connection_fail error_code (local_state c)\<rparr>
          else c
      | Sent_data_end_stream i \<Rightarrow>
          (case lookup_stream i c of
             None \<Rightarrow> c
           | Some s \<Rightarrow>
               if tunnel s = Tunnel_rejected \<and> local_send s = Send_connect_pending
                 then retry_deferred_stream_lease g i (release_local_request_stream_if_closed i
                   (update_stream i (snd \<circ> reject_local_connect) c))
               else c)
      | _ \<Rightarrow> c)"

subsection \<open>Metadata frames\<close>

text \<open>Parsing the field value is not part of the model. The map of the signals of idle streams is
  the list of its keys.\<close>

definition process_priority_update :: "'s nghttp2 \<Rightarrow> u32 \<Rightarrow> bool \<Rightarrow> 's h2_connection \<Rightarrow> 's h2_connection" where
  "process_priority_update g i parsed c =
     (if i = 0 then fail_connection g protocol_error c
      else if \<not> parsed then c
      else case lookup_stream i c of
        Some s \<Rightarrow>
          if stream_is_closed s \<or> local_send s = Send_end_stream_committed then c
          else publish_event Metadata_event c
      | None \<Rightarrow>
          if i AND 1 = 0 \<or> i \<le> highest_peer_stream_id c then c
          else if i \<in> set (priority_ids c) then publish_event Metadata_event c
          else
            (let kept = filter (\<lambda>j. j > highest_peer_stream_id c) (priority_ids c) in
             if length kept \<ge> max_concurrent_streams then c\<lparr>priority_ids := kept\<rparr>
             else publish_event Metadata_event (c\<lparr>priority_ids := kept @ [i]\<rparr>)))"

definition process_settings :: "'s h2_connection \<Rightarrow> 's h2_connection" where
  "process_settings c =
     (let c1 = c\<lparr>received_peer_settings := True\<rparr> in
      if receive_frame_metadata c1 then publish_event Metadata_event c1 else c1)"

datatype ping_payload = Drain_ping | Liveness_ping | Other_ping

definition process_ping :: "'s nghttp2 \<Rightarrow> bool \<Rightarrow> ping_payload \<Rightarrow> 's h2_op" where
  "process_ping g ack payload c =
     (if \<not> ack then (None, c)
      else case payload of
        Drain_ping \<Rightarrow> finish_drain_round_trip g c
      | Liveness_ping \<Rightarrow> (None, c\<lparr>liveness_ping_outstanding := False\<rparr>)
      | Other_ping \<Rightarrow> (None, c))"

text \<open>ORIGIN and ALTSVC; \<open>decoded\<close> says whether the payload decodes.\<close>

record advertisement_frame =
  af_origin :: bool
  af_stream :: u32
  af_flags :: byte
  af_decoded :: bool

definition process_advertisement :: "advertisement_frame \<Rightarrow> 's h2_connection \<Rightarrow> 's h2_connection" where
  "process_advertisement frame c =
     (if \<not> is_client c then c
      else if af_origin frame then
        (if \<not> receive_origin_advertisements c \<or> af_stream frame \<noteq> 0 \<or> af_flags frame AND 0xf \<noteq> 0 then c
         else if af_decoded frame then publish_event Metadata_event c else c)
      else if af_stream frame \<noteq> 0 \<and>
          (case lookup_stream (af_stream frame) c of
             None \<Rightarrow> True
           | Some s \<Rightarrow> stream_is_closed s \<or> push_reservation s \<noteq> Push_none \<or> tunnel s \<noteq> Not_connect)
        then c
      else if af_decoded frame then publish_event Metadata_event c else c)"

text \<open>\<open>4 * max_http_header_bytes\<close>.\<close>

definition max_http2_encoded_header_block_bytes :: nat where
  "max_http2_encoded_header_block_bytes = 4 * (64 * 1024)"

definition compression_error :: u32 where "compression_error = 0x9"

datatype begin_frame =
    Frame_headers u32 nat bool      \<comment> \<open>stream, length, END_HEADERS\<close>
  | Frame_push_promise nat bool
  | Frame_continuation nat bool
  | Frame_other

definition on_begin_frame :: "'s nghttp2 \<Rightarrow> begin_frame \<Rightarrow> 's h2_connection \<Rightarrow> 's h2_connection" where
  "on_begin_frame g frame c =
     (case frame of
        Frame_headers i len end_headers \<Rightarrow>
          (if \<not> is_client c \<and> i AND 1 \<noteq> 0
             then c\<lparr>highest_peer_stream_id := max (highest_peer_stream_id c) i\<rparr> else c)
          \<lparr>header_block_bytes := len, header_block_in_progress := \<not> end_headers\<rparr>
      | Frame_push_promise len end_headers \<Rightarrow>
          c\<lparr>header_block_bytes := len, header_block_in_progress := \<not> end_headers\<rparr>
      | Frame_continuation len end_headers \<Rightarrow>
          (let c1 = c\<lparr>header_block_in_progress := \<not> end_headers\<rparr> in
           if len > max_http2_encoded_header_block_bytes - header_block_bytes c1
             then fail_connection g compression_error c1
           else c1\<lparr>header_block_bytes := header_block_bytes c1 + len\<rparr>)
      | Frame_other \<Rightarrow> c\<lparr>header_block_in_progress := False\<rparr>)"

datatype recv_frame =
    Recv_data u32 bool
  | Recv_header_block u32 decoded_block
  | Recv_rst_stream u32 u32
  | Recv_settings bool
  | Recv_ping bool ping_payload
  | Recv_goaway u32 u32
  | Recv_window_update
  | Recv_priority_update u32 bool
  | Recv_advertisement advertisement_frame
  | Recv_other

definition on_frame_recv :: "'s nghttp2 \<Rightarrow> recv_frame \<Rightarrow> 's h2_op" where
  "on_frame_recv g frame c =
     (if failed c then (None, c)
      else case frame of
        Recv_data i end_stream \<Rightarrow>
          (if \<not> end_stream then (None, c)
           else case lookup_stream i c of
             None \<Rightarrow> (None, c)
           | Some s \<Rightarrow> if is_aborted s then (None, c) else finish_data_frame g i c)
      | Recv_header_block promised block \<Rightarrow>
          finish_header_block g promised block (c\<lparr>header_block_in_progress := False\<rparr>)
      | Recv_rst_stream i error_code \<Rightarrow> process_rst_stream g i error_code c
      | Recv_settings ack \<Rightarrow> (None, if ack then c else process_settings c)
      | Recv_ping ack payload \<Rightarrow> process_ping g ack payload c
      | Recv_goaway last_id error_code \<Rightarrow> process_goaway g last_id error_code c
      | Recv_window_update \<Rightarrow>
          (None, if receive_frame_metadata c then publish_event Metadata_event c else c)
      | Recv_priority_update i parsed \<Rightarrow> (None, process_priority_update g i parsed c)
      | Recv_advertisement frame \<Rightarrow> (None, process_advertisement frame c)
      | Recv_other \<Rightarrow> (None, c))"

subsection \<open>Callbacks\<close>

datatype h2_callback =
    Cb_begin_frame begin_frame
  | Cb_begin_headers header_frame
  | Cb_header u32 decoded_field
  | Cb_frame_recv recv_frame
  | Cb_data_chunk u32 bytes
  | Cb_stream_close u32 u32
  | Cb_before_frame_send sent_frame
  | Cb_frame_send sent_frame

definition callback_op :: "'s nghttp2 \<Rightarrow> h2_callback \<Rightarrow> 's h2_op" where
  "callback_op g callback c =
     (case callback of
        Cb_begin_frame frame \<Rightarrow> (None, on_begin_frame g frame c)
      | Cb_begin_headers frame \<Rightarrow> on_begin_headers g frame c
      | Cb_header i f \<Rightarrow> on_header g i f c
      | Cb_frame_recv frame \<Rightarrow> on_frame_recv g frame c
      | Cb_data_chunk i data \<Rightarrow> on_data_chunk_recv g i data c
      | Cb_stream_close i error_code \<Rightarrow> on_stream_close g i error_code c
      | Cb_before_frame_send frame \<Rightarrow> (None, snd (before_frame_send g frame c))
      | Cb_frame_send frame \<Rightarrow> (None, on_frame_send g frame c))"

subsection \<open>Feeding input\<close>

text \<open>A callback that throws records the first exception; nghttp2 then stops.\<close>

definition guard_callback :: "'s h2_op \<Rightarrow> 's h2_connection \<Rightarrow> 's h2_connection" where
  "guard_callback f c =
     (case f c of
        (None, c') \<Rightarrow> c'
      | (Some e, c') \<Rightarrow>
          (if callback_failure c' = None then c'\<lparr>callback_failure := Some e\<rparr> else c'))"

datatype http2_feed_result = Feed_accepted | Feed_events_pending | Feed_protocol_failure

definition h2_feed ::
  "'s nghttp2 \<Rightarrow> bytes \<Rightarrow> 's h2_connection \<Rightarrow> (h2_exception + http2_feed_result) \<times> 's h2_connection" where
  "h2_feed g input c =
     (if events c \<noteq> [] then (Inr Feed_events_pending, c)
      else if failed c then (Inr Feed_protocol_failure, c)
      else case ng_mem_recv g input (c\<lparr>in_nghttp2 := True\<rparr>) of (rc, c0) \<Rightarrow>
        (let c1 = c0\<lparr>in_nghttp2 := False\<rparr> in
         case (if rc < 0 then fail_on_nghttp2_error g rc c1 else (None, c1)) of
           (Some e, c2) \<Rightarrow> (Inl e, flush_output g c2)
         | (None, c2) \<Rightarrow>
             (case flush_session g c2 of
                (Some e, c3) \<Rightarrow> (Inl e, c3)
              | (None, c3) \<Rightarrow>
                  (Inr (if failed c3 then Feed_protocol_failure else Feed_accepted), c3))))"

end
