(* ===== verification/H2_Submit.thy ===== *)
theory H2_Submit
  imports H2_Connection
begin

text \<open>
  What the owner of a connection submits (\<open>http2_connection_submit.cpp\<close>,
  \<open>http2_connection_submit_request.cpp\<close>, \<open>http2_connection_advertisement.cpp\<close> and the control frames of
  \<open>http2_connection.cpp\<close>): request and response heads, DATA, the end of a message, push promises and
  control frames. Validating and encoding fields is not part of the model: whether it succeeded is
  an argument.
\<close>

subsection \<open>Request heads of a client\<close>

datatype request_head_error =
  Head_invalid_state | Head_connection_unavailable | Head_peer_stream_limit | Head_local_capacity
  | Head_invalid_message | Head_peer_capability_unavailable

definition local_request_admission_error :: "'s nghttp2 \<Rightarrow> 's h2_connection \<Rightarrow> request_head_error option" where
  "local_request_admission_error g c =
     (if \<not> is_client c then Some Head_invalid_state
      else if failed c \<or> peer_goaway c \<noteq> None \<or> ng_next_stream_id g (session c) > http2_max_stream_id
        then Some Head_connection_unavailable
      else if active_local_requests c \<ge> ng_max_concurrent g (session c) then Some Head_peer_stream_limit
      else None)"

definition available_local_request_streams :: "'s nghttp2 \<Rightarrow> nat \<Rightarrow> 's h2_connection \<Rightarrow> nat" where
  "available_local_request_streams g local_limit c =
     (if (case local_state c of Graceful_drain _ _ _ \<Rightarrow> True | _ \<Rightarrow> False) \<or>
         local_request_admission_error g c \<noteq> None
       then 0
      else min (min local_limit max_concurrent_streams) (unat (ng_max_concurrent g (session c))) -
        unat (active_local_requests c))"

text \<open>What the head decides about the record: its content, and whether the head ends the stream.\<close>

datatype request_content = No_content | Known_content u64 | Streaming_content "u64 option"

definition content_length_of :: "request_content \<Rightarrow> u64 option" where
  "content_length_of content =
     (case content of No_content \<Rightarrow> None | Known_content n \<Rightarrow> Some n | Streaming_content n \<Rightarrow> n)"

definition head_ends_stream :: "request_content \<Rightarrow> bool" where
  "head_ends_stream content \<longleftrightarrow> content = No_content \<or> content = Known_content 0"

definition prepare_regular :: "request_content \<Rightarrow> bool \<Rightarrow> http2_stream_state \<Rightarrow> http2_stream_state" where
  "prepare_regular content expect_continue s =
     (let s1 = (if content = No_content then begin_local_content_forbidden s
                else case content_length_of content of
                  Some n \<Rightarrow> begin_local_content_known_length n s
                | None \<Rightarrow> begin_local_content_unbounded s)
      in if head_ends_stream content then snd (commit_local_head_end_stream s1)
         else
           (let s2 = snd (begin_local_request_content s1)
            in if expect_continue then await_request_continue s2 else s2))"

definition prepare_connect :: "http2_connect_form \<Rightarrow> http2_stream_state \<Rightarrow> http2_stream_state" where
  "prepare_connect form s =
     snd (begin_local_connect_request (begin_local_content_forbidden (snd (on_tunnel (tunnel_begin form) s))))"

definition submit_local_request_head ::
  "'s nghttp2 \<Rightarrow> bool \<Rightarrow> (http2_stream_state \<Rightarrow> http2_stream_state) \<Rightarrow> 's h2_connection \<Rightarrow>
     (h2_exception + (u32 + request_head_error)) \<times> 's h2_connection" where
  "submit_local_request_head g end_stream prepare c =
     (if unat (active_local_requests c) \<ge> max_concurrent_streams then (Inr (Inr Head_local_capacity), c)
      else
        (let i = ng_next_stream_id g (session c);
             created = create_stream i (streams c) in
         case fst created of
           None \<Rightarrow> (Inr (Inr Head_local_capacity), c)
         | Some _ \<Rightarrow>
             (let c1 = update_stream i prepare (c\<lparr>streams := snd created, opened := opened c @ [i]\<rparr>) in
              case ng_submit_headers g end_stream None (session c1) of (submitted, s') \<Rightarrow>
                (case check_nghttp2 g submitted (c1\<lparr>session := s'\<rparr>) of
                   (Some e, c2) \<Rightarrow> (Inl e, erase_stream i c2)
                 | (None, c2) \<Rightarrow>
                     (let c3 = (if word_of_int submitted \<noteq> i then c2\<lparr>terminated := True\<rparr> else c2);
                          held = (case lookup_stream i c3 of
                            None \<Rightarrow> False | Some s \<Rightarrow> fst (hold_peer_concurrency_slot s));
                          c4 = update_stream i (snd \<circ> hold_peer_concurrency_slot) c3;
                          c5 = (if held then c4\<lparr>active_local_requests := active_local_requests c4 + 1\<rparr> else c4)
                      in case flush_session g c5 of
                        (Some e, c6) \<Rightarrow> (Inl e, c6)
                      | (None, c6) \<Rightarrow> (Inr (Inl i), c6))))))"

text \<open>The facade begins the connection before any local stream.\<close>

definition admitted ::
  "'s nghttp2 \<Rightarrow> ('s h2_connection \<Rightarrow> (h2_exception + (u32 + request_head_error)) \<times> 's h2_connection) \<Rightarrow>
     's h2_connection \<Rightarrow> (h2_exception + (u32 + request_head_error)) \<times> 's h2_connection" where
  "admitted g f c =
     (if is_client c \<and> \<not> started c then (Inr (Inr Head_invalid_state), c\<lparr>terminated := True\<rparr>)
      else case local_request_admission_error g c of
        Some e \<Rightarrow> (Inr (Inr e), c)
      | None \<Rightarrow> f c)"

text \<open>\<open>valid\<close> is the outcome of the checks on the complete head.\<close>

definition submit_regular_request_head ::
  "'s nghttp2 \<Rightarrow> bool \<Rightarrow> request_content \<Rightarrow> bool \<Rightarrow> 's h2_connection \<Rightarrow>
     (h2_exception + (u32 + request_head_error)) \<times> 's h2_connection" where
  "submit_regular_request_head g valid content expect_continue =
     admitted g (\<lambda>c.
       if \<not> valid then (Inr (Inr Head_invalid_message), c)
       else submit_local_request_head g (head_ends_stream content)
         (prepare_regular content expect_continue) c)"

definition submit_connect_request_head ::
  "'s nghttp2 \<Rightarrow> bool \<Rightarrow> 's h2_connection \<Rightarrow>
     (h2_exception + (u32 + request_head_error)) \<times> 's h2_connection" where
  "submit_connect_request_head g valid =
     admitted g (\<lambda>c.
       if \<not> valid then (Inr (Inr Head_invalid_message), c)
       else submit_local_request_head g False (prepare_connect Standard) c)"

definition submit_extended_connect_request_head ::
  "'s nghttp2 \<Rightarrow> bool \<Rightarrow> 's h2_connection \<Rightarrow>
     (h2_exception + (u32 + request_head_error)) \<times> 's h2_connection" where
  "submit_extended_connect_request_head g valid =
     admitted g (\<lambda>c.
       if ng_enable_connect_protocol g (session c) \<noteq> 1
         then (Inr (Inr Head_peer_capability_unavailable), c)
       else if \<not> valid then (Inr (Inr Head_invalid_message), c)
       else submit_local_request_head g False (prepare_connect Extended) c)"

definition lease_submitted_request ::
  "(u32 + request_head_error) \<Rightarrow> 's h2_connection \<Rightarrow> 's h2_connection" where
  "lease_submitted_request result c = (case result of Inl i \<Rightarrow> pin_stream i c | Inr _ \<Rightarrow> c)"

subsection \<open>Response heads of a server\<close>

definition find_outbound_stream :: "u32 \<Rightarrow> 's h2_connection \<Rightarrow> http2_stream_state option" where
  "find_outbound_stream i c =
     (if failed c then None
      else case lookup_stream i c of
        None \<Rightarrow> None
      | Some s \<Rightarrow> if is_aborted s then None else Some s)"

definition submit_header_frames :: "'s nghttp2 \<Rightarrow> u32 \<Rightarrow> bool \<Rightarrow> 's h2_op" where
  "submit_header_frames g i end_stream =
     then_op (call_session g (ng_submit_headers g end_stream (Some i)))
       (pure_op (\<lambda>c.
         let held = (case lookup_stream i c of
               None \<Rightarrow> False
             | Some s \<Rightarrow> push_reservation s = Push_local \<and> fst (hold_peer_concurrency_slot s));
             c1 = (if held then update_stream i (snd \<circ> hold_peer_concurrency_slot)
               (c\<lparr>active_local_requests := active_local_requests c + 1\<rparr>) else c)
         in update_stream i activate_push c1))"

text \<open>Nothing of \<open>bytes\<close> may be left after the session drained.\<close>

definition send_data :: "'s nghttp2 \<Rightarrow> u32 \<Rightarrow> bytes \<Rightarrow> bool \<Rightarrow> 's h2_op" where
  "send_data g i bytes_value end_stream =
     then_op (call_session g (ng_submit_data g end_stream i bytes_value))
       (then_op (flush_session g)
         (\<lambda>c. if ng_data_finished g (session c) then (None, c)
           else (Some Logic_error, flush_output g (fail_connection g internal_error c))))"

definition commit_connect_response_head :: "'s nghttp2 \<Rightarrow> u32 \<Rightarrow> bool \<Rightarrow> 's h2_op" where
  "commit_connect_response_head g i terminal_remote_half =
     then_op (submit_header_frames g i False)
       (then_op (pure_op (\<lambda>c.
           let c1 = update_stream i
             (snd \<circ> open_local_connect_tunnel \<circ> begin_local_content_unbounded \<circ> snd \<circ> accept_connect) c
           in if terminal_remote_half then publish_event (Tunnel_end i) c1 else c1))
         (flush_session g))"

datatype response_head_error =
  Response_closed | Response_invalid_state | Response_peer_stream_limit | Response_plan_mismatch
  | Response_invalid_message

definition response_head_admission_error ::
  "'s nghttp2 \<Rightarrow> http2_stream_state option \<Rightarrow> bool \<Rightarrow> 's h2_connection \<Rightarrow> response_head_error option" where
  "response_head_admission_error g stream successful c =
     (case stream of
        None \<Rightarrow> Some Response_closed
      | Some s \<Rightarrow>
          if is_client c \<or> \<not> remote_final_head_decoded (remote_receive s) \<or>
              local_send s \<noteq> Send_head_pending \<or> (successful \<and> tunnel_is_pending (tunnel s))
            then Some Response_invalid_state
          else if push_reservation s = Push_local \<and>
              active_local_requests c \<ge> ng_max_concurrent g (session c)
            then Some Response_peer_stream_limit
          else None)"

text \<open>The plan of a final head: whether its fields encode, whether the body is suppressed, the
  declared length, and whether the head ends the stream.\<close>

record final_head =
  fh_encodes :: bool
  fh_suppressed :: bool
  fh_length :: "u64 option"
  fh_end_stream :: bool

definition commit_final_content :: "final_head \<Rightarrow> http2_stream_state \<Rightarrow> http2_stream_state" where
  "commit_final_content head s =
     (let s1 = (if fh_suppressed head then begin_local_content_forbidden s
                else case fh_length head of
                  Some n \<Rightarrow> begin_local_content_known_length n s
                | None \<Rightarrow> begin_local_content_unbounded s);
          s2 = snd (if fh_end_stream head then commit_local_head_end_stream s1
                    else begin_local_response_content s1)
      in if tunnel_is_pending (tunnel s2) then snd (reject_connect s2) else s2)"

definition commit_final_response_head ::
  "'s nghttp2 \<Rightarrow> u32 \<Rightarrow> final_head \<Rightarrow> 's h2_connection \<Rightarrow> (h2_exception + bool) \<times> 's h2_connection" where
  "commit_final_response_head g i head c =
     (if \<not> fh_encodes head then (Inr False, c)
      else case then_op (submit_header_frames g i (fh_end_stream head))
          (then_op (pure_op (\<lambda>c. release_local_request_stream_if_closed i
              (update_stream i (commit_final_content head) c)))
            (flush_session g)) c of
        (Some e, c') \<Rightarrow> (Inl e, c')
      | (None, c') \<Rightarrow> (Inr True, c'))"

text \<open>What the checks on response and plan decide, for a buffered or a streaming head.\<close>

datatype planned_head = Plan_mismatch | Plan_invalid | Plan_head final_head

definition submit_response_head ::
  "'s nghttp2 \<Rightarrow> u32 \<Rightarrow> bool \<Rightarrow> planned_head \<Rightarrow> 's h2_connection \<Rightarrow>
     (h2_exception + response_head_error option) \<times> 's h2_connection" where
  "submit_response_head g i successful plan c =
     (case response_head_admission_error g (find_outbound_stream i c) successful c of
        Some e \<Rightarrow> (Inr (Some e), c)
      | None \<Rightarrow>
          (case plan of
             Plan_mismatch \<Rightarrow> (Inr (Some Response_plan_mismatch), c)
           | Plan_invalid \<Rightarrow> (Inr (Some Response_invalid_message), c)
           | Plan_head head \<Rightarrow>
               (case commit_final_response_head g i head c of
                  (Inl e, c') \<Rightarrow> (Inl e, c')
                | (Inr True, c') \<Rightarrow> (Inr None, c')
                | (Inr False, c') \<Rightarrow> (Inr (Some Response_invalid_message), c'))))"

definition submit_interim_response_head ::
  "'s nghttp2 \<Rightarrow> u32 \<Rightarrow> bool \<Rightarrow> 's h2_connection \<Rightarrow>
     (h2_exception + http2_submit_status) \<times> 's h2_connection" where
  "submit_interim_response_head g i encodes c =
     (case response_head_admission_error g (find_outbound_stream i c) False c of
        Some Response_closed \<Rightarrow> (Inr Submit_closed, c)
      | Some Response_peer_stream_limit \<Rightarrow> (Inr Submit_peer_capability_unavailable, c)
      | Some _ \<Rightarrow> (Inr Submit_invalid_state, c)
      | None \<Rightarrow>
          if \<not> encodes then (Inr Submit_invalid_message, c)
          else (case then_op (submit_header_frames g i False) (flush_session g) c of
            (Some e, c') \<Rightarrow> (Inl e, c')
          | (None, c') \<Rightarrow> (Inr Submitted, c')))"

text \<open>The 2xx to a CONNECT; a WebSocket handshake passes further checks on the request.\<close>

definition submit_connect_response_head ::
  "'s nghttp2 \<Rightarrow> u32 \<Rightarrow> bool \<Rightarrow> 's h2_connection \<Rightarrow>
     (h2_exception + http2_submit_status) \<times> 's h2_connection" where
  "submit_connect_response_head g i valid c =
     (case find_outbound_stream i c of
        None \<Rightarrow> (Inr Submit_closed, c)
      | Some s \<Rightarrow>
          if is_client c \<or> \<not> remote_final_head_decoded (remote_receive s) \<or>
              local_send s \<noteq> Send_head_pending \<or> \<not> tunnel_is_pending (tunnel s)
            then (Inr Submit_invalid_state, c)
          else if \<not> valid then (Inr Submit_invalid_message, c)
          else (case commit_connect_response_head g i (remote_peer_half_closed (remote_receive s)) c of
            (Some e, c') \<Rightarrow> (Inl e, c')
          | (None, c') \<Rightarrow> (Inr Submitted, c')))"

subsection \<open>Content and the end of a message\<close>

datatype data_status = Data_closed | Data_expectation_pending | Data_backpressured | Data_complete

definition submit_data ::
  "'s nghttp2 \<Rightarrow> u32 \<Rightarrow> bytes \<Rightarrow> bool \<Rightarrow> nat \<Rightarrow> 's h2_connection \<Rightarrow>
     (h2_exception + nat \<times> data_status) \<times> 's h2_connection" where
  "submit_data g i chunk end_stream max_payload_bytes c =
     (case find_outbound_stream i c of
        None \<Rightarrow> (Inr (0, Data_closed), c)
      | Some s \<Rightarrow>
          if local_send s \<noteq> Send_request_content_open \<and> local_send s \<noteq> Send_response_content_open \<and>
              local_send s \<noteq> Send_tunnel_open
            then (Inl Logic_error, c)
          else if local_send s = Send_request_content_open \<and> request_continue_pending s
            then (Inr (0, Data_expectation_pending), c)
          else if local_send s = Send_request_content_open \<and> request_content_canceled s
            then (Inl Logic_error, c)
          else case check_accept (word_of_nat (length chunk)) end_stream (local_content s) of
            Content_not_started \<Rightarrow> (Inl Logic_error, c)
          | Content_is_forbidden \<Rightarrow> (Inl Logic_error, c)
          | Content_length_exceeded \<Rightarrow> (Inl Invalid_argument, c)
          | Content_length_incomplete \<Rightarrow> (Inl Invalid_argument, c)
          | Content_accepted \<Rightarrow>
              (let available = (case send_window_state g i c of
                     None \<Rightarrow> 0 | Some (_, _, available) \<Rightarrow> available);
                   consumed = min (length chunk) (min max_payload_bytes available);
                   complete = (consumed = length chunk);
                   terminal = (complete \<and> end_stream);
                   empty_terminal = (chunk = [] \<and> terminal) in
               if empty_terminal \<and> \<not> can_send_empty_end_stream g i c
                 then (Inr (0, Data_backpressured), c)
               else
                 (let result = Inr (consumed, if complete then Data_complete else Data_backpressured)
                  in if consumed = 0 \<and> \<not> empty_terminal then (result, c)
                  else
                    (let c1 = update_stream i (commit_local_content (word_of_nat consumed)) c;
                         c2 = (if terminal then release_local_request_stream_if_closed i
                             (update_stream i (snd \<circ> commit_local_end_stream) c1) else c1)
                     in case send_data g i (take consumed chunk) terminal c2 of
                       (Some e, c3) \<Rightarrow> (Inl e, c3)
                     | (None, c3) \<Rightarrow> (result, c3)))))"

definition release_request_content :: "u32 \<Rightarrow> 's h2_connection \<Rightarrow> bool option \<times> 's h2_connection" where
  "release_request_content i c =
     (case find_outbound_stream i c of
        None \<Rightarrow> (None, c)
      | Some s \<Rightarrow>
          (Some (fst (release_request_continue s)), update_stream i (snd \<circ> release_request_continue) c))"

definition end_local_stream :: "'s nghttp2 \<Rightarrow> u32 \<Rightarrow> bool \<Rightarrow> 's h2_op" where
  "end_local_stream g i empty_data =
     (if empty_data then
        then_op (pure_op (\<lambda>c. release_local_request_stream_if_closed i
            (update_stream i (snd \<circ> commit_local_end_stream) c)))
          (send_data g i [] True)
      else
        then_op (submit_header_frames g i True)
          (then_op (pure_op (\<lambda>c. release_local_request_stream_if_closed i
              (update_stream i (snd \<circ> commit_local_end_stream) c)))
            (flush_session g)))"

datatype finish_status = Finish_closed | Finish_backpressured | Finish_accepted

text \<open>The trailers are absent, or whether they are valid.\<close>

definition finish_local ::
  "'s nghttp2 \<Rightarrow> u32 \<Rightarrow> bool option \<Rightarrow> (http2_stream_state \<Rightarrow> bool) \<Rightarrow> 's h2_connection \<Rightarrow>
     (h2_exception + finish_status) \<times> 's h2_connection" where
  "finish_local g i trailers open_for_end c =
     (case find_outbound_stream i c of
        None \<Rightarrow> (Inr Finish_closed, c)
      | Some s \<Rightarrow>
          if \<not> open_for_end s then (Inl Logic_error, c)
          else if \<not> length_complete (local_content s) then (Inl Invalid_argument, c)
          else if trailers = None \<and> \<not> can_send_empty_end_stream g i c
            then (Inr Finish_backpressured, c)
          else if trailers = Some False then (Inl Invalid_argument, c)
          else (case end_local_stream g i (trailers = None) c of
            (Some e, c') \<Rightarrow> (Inl e, c')
          | (None, c') \<Rightarrow> (Inr Finish_accepted, c')))"

definition finish_request ::
  "'s nghttp2 \<Rightarrow> u32 \<Rightarrow> bool option \<Rightarrow> 's h2_connection \<Rightarrow>
     (h2_exception + finish_status) \<times> 's h2_connection" where
  "finish_request g i trailers c =
     finish_local g i trailers (\<lambda>s. is_client c \<and> local_send s = Send_request_content_open \<and>
       \<not> request_continue_pending s \<and> \<not> request_content_canceled s) c"

text \<open>The trailers of a response were validated when their section was built.\<close>

definition finish_response ::
  "'s nghttp2 \<Rightarrow> u32 \<Rightarrow> bool \<Rightarrow> 's h2_connection \<Rightarrow>
     (h2_exception + finish_status) \<times> 's h2_connection" where
  "finish_response g i has_trailers =
     finish_local g i (if has_trailers then Some True else None)
       (\<lambda>s. local_send s = Send_response_content_open)"

subsection \<open>Push promises of a server\<close>

datatype push_submit_error = Push_invalid_state | Push_disabled | Push_stream_limit | Push_invalid_request

text \<open>The request of a promise: refused, too large for the record, or stored.\<close>

datatype push_request = Push_malformed | Push_too_large | Push_request

definition push_admission_error :: "'s nghttp2 \<Rightarrow> u32 \<Rightarrow> 's h2_connection \<Rightarrow> push_submit_error option" where
  "push_admission_error g associated c =
     (if is_client c \<or> \<not> received_peer_settings c \<or> local_state c \<noteq> Connection_open \<or>
         peer_goaway c \<noteq> None \<or>
         (case lookup_stream associated c of
            None \<Rightarrow> True
          | Some parent \<Rightarrow> is_aborted parent \<or> associated AND 1 = 0 \<or>
              \<not> remote_final_head_decoded (remote_receive parent) \<or> tunnel parent \<noteq> Not_connect \<or>
              local_send parent = Send_end_stream_committed) \<or>
         ng_next_stream_id g (session c) > http2_max_stream_id
       then Some Push_invalid_state
      else if ng_enable_push g (session c) = 0 then Some Push_disabled
      else if active_local_requests c \<ge> ng_max_concurrent g (session c) then Some Push_stream_limit
      else None)"

definition submit_push_promise ::
  "'s nghttp2 \<Rightarrow> u32 \<Rightarrow> push_request \<Rightarrow> 's h2_connection \<Rightarrow>
     (h2_exception + (u32 + push_submit_error)) \<times> 's h2_connection" where
  "submit_push_promise g associated request c =
     (case push_admission_error g associated c of
        Some e \<Rightarrow> (Inr (Inr e), c)
      | None \<Rightarrow>
          if request = Push_malformed then (Inr (Inr Push_invalid_request), c)
          else
            (let promised = ng_next_stream_id g (session c);
                 created = create_stream promised (streams c) in
             case fst created of
               None \<Rightarrow> (Inr (Inr Push_stream_limit), c)
             | Some _ \<Rightarrow>
                 (let c1 = c\<lparr>streams := snd created, opened := opened c @ [promised]\<rparr> in
                  if request = Push_too_large then (Inl Logic_error, erase_stream promised c1)
                  else
                    (let c2 = update_stream promised (reserve_push Push_local \<circ>
                           snd \<circ> finalize_remote_content_head \<circ> snd \<circ> record_remote_head_end_stream) c1 in
                     case ng_submit_push_promise g associated (session c2) of (submitted, s') \<Rightarrow>
                       (case check_nghttp2 g submitted (c2\<lparr>session := s'\<rparr>) of
                          (Some e, c3) \<Rightarrow> (Inl e, erase_stream promised c3)
                        | (None, c3) \<Rightarrow>
                            (case flush_session g
                                (if word_of_int submitted \<noteq> promised then c3\<lparr>terminated := True\<rparr>
                                 else c3) of
                               (Some e, c4) \<Rightarrow> (Inl e, c4)
                             | (None, c4) \<Rightarrow> (Inr (Inl promised), c4)))))))"

subsection \<open>Control frames\<close>

definition begin_connection :: "'s nghttp2 \<Rightarrow> 's h2_op" where
  "begin_connection g c =
     (if started c then (None, c)
      else then_op (call_session g (ng_submit_settings g None))
        (then_op (call_session g (ng_set_local_window g))
          (then_op (pure_op (\<lambda>c. c\<lparr>started := True\<rparr>)) (flush_session g))) c)"

definition submitted :: "'s h2_op \<Rightarrow> 's h2_connection \<Rightarrow> (h2_exception + http2_submit_status) \<times> 's h2_connection" where
  "submitted f c = (case f c of (Some e, c') \<Rightarrow> (Inl e, c') | (None, c') \<Rightarrow> (Inr Submitted, c'))"

definition submit_ping :: "'s nghttp2 \<Rightarrow> 's h2_connection \<Rightarrow>
    (h2_exception + http2_submit_status) \<times> 's h2_connection" where
  "submit_ping g c =
     (if failed c then (Inr Submit_closed, c)
      else if liveness_ping_outstanding c then (Inr Submitted, c)
      else submitted (then_op (call_session g (ng_submit_liveness_ping g))
        (then_op (pure_op (\<lambda>c. c\<lparr>liveness_ping_outstanding := True\<rparr>)) (flush_session g))) c)"

definition submit_max_concurrent_streams :: "'s nghttp2 \<Rightarrow> u32 \<Rightarrow> 's h2_connection \<Rightarrow>
    (h2_exception + http2_submit_status) \<times> 's h2_connection" where
  "submit_max_concurrent_streams g limit c =
     (if failed c then (Inr Submit_closed, c)
      else if unat limit > max_concurrent_streams then (Inr Submit_invalid_message, c)
      else submitted (then_op (call_session g (ng_submit_settings g (Some limit))) (flush_session g)) c)"

definition submit_priority_update :: "'s nghttp2 \<Rightarrow> u32 \<Rightarrow> bool \<Rightarrow> 's h2_connection \<Rightarrow>
    (h2_exception + http2_submit_status) \<times> 's h2_connection" where
  "submit_priority_update g i encodes c =
     (if \<not> is_client c \<or> local_state c \<noteq> Connection_open \<or> i = 0 \<or> i > http2_max_stream_id \<or>
         (i AND 1 = 0 \<and> i > highest_peer_stream_id c)
       then (Inr Submit_invalid_state, c)
      else if \<not> encodes then (Inr Submit_invalid_message, c)
      else if ng_no_rfc7540_priorities g (session c) = 0
        then (Inr Submit_peer_capability_unavailable, c)
      else submitted (then_op (call_session g (ng_submit_priority_update g i)) (flush_session g)) c)"

text \<open>\<open>fits\<close>: the payload encodes within the frame limit.\<close>

definition submit_origin_advertisement :: "'s nghttp2 \<Rightarrow> bool \<Rightarrow> 's h2_connection \<Rightarrow>
    (h2_exception + http2_submit_status) \<times> 's h2_connection" where
  "submit_origin_advertisement g fits c =
     (if is_client c then (Inr Submit_invalid_state, c)
      else if failed c \<or> peer_goaway c \<noteq> None then (Inr Submit_closed, c)
      else if \<not> received_peer_settings c then (Inr Submit_invalid_state, c)
      else if \<not> fits then (Inr Submit_invalid_message, c)
      else submitted (then_op (call_session g (ng_submit_extension g 0)) (flush_session g)) c)"

definition submit_alternative_service_advertisement ::
  "'s nghttp2 \<Rightarrow> u32 \<Rightarrow> bool \<Rightarrow> 's h2_connection \<Rightarrow>
     (h2_exception + http2_submit_status) \<times> 's h2_connection" where
  "submit_alternative_service_advertisement g i fits c =
     (if is_client c then (Inr Submit_invalid_state, c)
      else if failed c \<or> peer_goaway c \<noteq> None then (Inr Submit_closed, c)
      else if \<not> received_peer_settings c \<or>
          (i \<noteq> 0 \<and> (case lookup_stream i c of
             None \<Rightarrow> True
           | Some s \<Rightarrow> stream_is_closed s \<or> push_reservation s = Push_local \<or>
               \<not> remote_final_head_decoded (remote_receive s) \<or> tunnel s \<noteq> Not_connect))
        then (Inr Submit_invalid_state, c)
      else if \<not> fits then (Inr Submit_invalid_message, c)
      else submitted (then_op (call_session g (ng_submit_extension g i)) (flush_session g)) c)"

end
