(* ===== verification/H2_Stream_Steps.thy ===== *)
theory H2_Stream_Steps
  imports H2_Stream
begin

text \<open>
  What the operations of a stream record keep, in whatever order the connection calls them: the
  two halves abort together, the CONNECT phase agrees with the frame permissions of both halves,
  content never exceeds its declared length, and no phase is ever left backwards.
\<close>

subsection \<open>The step relation\<close>

text \<open>One rule per mutator. A commit of local content follows an accepted check of at least
  as many bytes, which is how \<open>submit_data\<close> calls it.\<close>

inductive stream_step :: "http2_stream_state \<Rightarrow> http2_stream_state \<Rightarrow> bool" where
  "stream_step s (reserve_push r s)"
| "stream_step s (activate_push s)"
| "stream_step s (set_pinned p s)"
| "stream_step s (add_pending_event s)"
| "remove_pending_event s = Some s' \<Longrightarrow> stream_step s s'"
| "stream_step s (add_window_debt n s)"
| "stream_step s (snd (take_all_window_debt s))"
| "stream_step s (snd (take_window_debt n s))"
| "stream_step s (snd (declare_remote_content_length m s))"
| "stream_step s (snd (select_remote_content_metadata_only s))"
| "stream_step s (snd (account_remote_content m s))"
| "stream_step s (begin_local_content_forbidden s)"
| "stream_step s (begin_local_content_unbounded s)"
| "stream_step s (begin_local_content_known_length m s)"
| commit: "check_accept offered terminal (local_content s) = Content_accepted \<Longrightarrow> m \<le> offered \<Longrightarrow>
     stream_step s (commit_local_content m s)"
| "stream_step s (snd (hold_peer_concurrency_slot s))"
| "stream_step s (snd (release_peer_concurrency_slot s))"
| "stream_step s (snd (stream_abort src s))"
| "stream_step s (snd (record_remote_head_end_stream s))"
| "stream_step s (snd (finalize_remote_content_head s))"
| "stream_step s (snd (finalize_remote_connect_head s))"
| "stream_step s (snd (finish_remote_content s))"
| "stream_step s (snd (mark_remote_connect_tunnel_data s))"
| "stream_step s (snd (finish_remote_pending_connect s))"
| "stream_step s (snd (finish_remote_tunnel s))"
| "stream_step s (snd (finish_remote_rejected_connect s))"
| "stream_step s (snd (begin_local_request_content s))"
| "stream_step s (await_request_continue s)"
| "stream_step s (snd (release_request_continue s))"
| "stream_step s (snd (cancel_pending_request_continue s))"
| "stream_step s (snd (begin_local_response_content s))"
| "stream_step s (snd (commit_local_head_end_stream s))"
| "stream_step s (snd (begin_local_connect_request s))"
| "stream_step s (snd (open_local_connect_tunnel s))"
| "stream_step s (snd (reject_local_connect s))"
| "stream_step s (snd (commit_local_end_stream s))"
| "stream_step s (snd (begin_standard_connect s))"
| "stream_step s (snd (begin_extended_connect s))"
| "stream_step s (snd (accept_connect s))"
| "stream_step s (snd (reject_connect s))"
| "stream_step s (snd (set_response_status code s))"
| "stream_step s (mark_informational_response s)"

inductive stream_run :: "http2_stream_state \<Rightarrow> http2_stream_state \<Rightarrow> bool" where
  stream_run_refl: "stream_run s s"
| stream_run_step: "stream_run s t \<Longrightarrow> stream_step t u \<Longrightarrow> stream_run s u"

lemmas stream_operations [h2_defs] =
  reserve_push_def activate_push_def set_pinned_def
  add_pending_event_def add_window_debt_def take_all_window_debt_def take_window_debt_def
  declare_remote_content_length_def select_remote_content_metadata_only_def
  account_remote_content_def begin_local_content_forbidden_def begin_local_content_unbounded_def
  begin_local_content_known_length_def commit_local_content_def is_aborted_def
  hold_peer_concurrency_slot_def release_peer_concurrency_slot_def
  record_remote_head_end_stream_def finalize_remote_content_head_def
  finalize_remote_connect_head_def finish_remote_content_def mark_remote_connect_tunnel_data_def
  finish_remote_pending_connect_def finish_remote_tunnel_def finish_remote_rejected_connect_def
  begin_local_request_content_def await_request_continue_def request_continue_pending_def
  release_request_continue_def cancel_pending_request_continue_def
  begin_local_response_content_def commit_local_head_end_stream_def
  begin_local_connect_request_def open_local_connect_tunnel_def reject_local_connect_def
  commit_local_end_stream_def begin_standard_connect_def begin_extended_connect_def
  set_response_status_def mark_informational_response_def

lemmas lifted_operations [h2_defs] = on_send_def on_remote_def on_tunnel_def

text \<open>The three compound operations without their intermediate records.\<close>

lemma stream_abort_eq:
  "stream_abort src s =
     (if remote_receive s = Remote_aborted \<or> send_is_aborted (local_send s) then (False, s)
      else (True, s\<lparr>local_send := Send_aborted src, remote_receive := Remote_aborted\<rparr>))"
  by (cases src) (auto simp: stream_abort_def h2_defs)

lemma accept_connect_eq:
  "accept_connect s =
     (if \<not> tunnel_is_pending (tunnel s) \<or> \<not> can_accept_connect (remote_receive s) then (False, s)
      else (True, s\<lparr>tunnel := Tunnel_accepted,
        remote_receive := (if remote_peer_half_closed (remote_receive s) then End_stream
          else Tunnel_open)\<rparr>))"
  by (cases "remote_receive s") (auto simp: accept_connect_def h2_defs)

lemma reject_connect_eq:
  "reject_connect s =
     (if \<not> tunnel_is_pending (tunnel s) \<or> \<not> can_accept_connect (remote_receive s) then (False, s)
      else (True, s\<lparr>tunnel := Tunnel_rejected,
        remote_receive := (if remote_peer_half_closed (remote_receive s) then End_stream
          else if remote_receive s = Head_pending then Remote_content_open
          else Connect_rejected_awaiting_end_stream)\<rparr>))"
  by (cases "remote_receive s") (auto simp: reject_connect_def h2_defs)

subsection \<open>The invariant\<close>

definition tunnel_agrees ::
  "http2_tunnel_state \<Rightarrow> http2_local_send_state \<Rightarrow> http2_remote_receive_state \<Rightarrow> bool" where
  "tunnel_agrees t l r \<longleftrightarrow>
     (t = Tunnel_accepted \<longrightarrow> r = Tunnel_open \<or> r = End_stream \<or> r = Remote_aborted) \<and>
     (t = Tunnel_rejected \<longrightarrow> r = Remote_content_open \<or> r = Connect_rejected_awaiting_end_stream \<or>
        r = End_stream \<or> r = Remote_aborted) \<and>
     (r = Tunnel_open \<longrightarrow> t = Tunnel_accepted) \<and>
     (r = Connect_rejected_awaiting_end_stream \<longrightarrow> t = Tunnel_rejected) \<and>
     ((\<exists>b. r = Connect_pending b \<or> r = Connect_pending_end_stream b) \<longrightarrow> tunnel_is_pending t) \<and>
     (l = Send_tunnel_open \<longrightarrow> t = Tunnel_accepted) \<and>
     (l = Send_connect_pending \<longrightarrow> t \<noteq> Not_connect)"

definition halves_agree :: "http2_local_send_state \<Rightarrow> http2_remote_receive_state \<Rightarrow> bool" where
  "halves_agree l r \<longleftrightarrow> (send_is_aborted l \<longleftrightarrow> r = Remote_aborted)"

definition stream_ok :: "http2_stream_state \<Rightarrow> bool" where
  "stream_ok s \<longleftrightarrow>
     halves_agree (local_send s) (remote_receive s) \<and>
     tunnel_agrees (tunnel s) (local_send s) (remote_receive s) \<and>
     remote_content_ok (remote_content s) \<and> local_content_ok (local_content s)"

lemma stream_ok_make: "stream_ok (make_stream i)"
  by (simp add: stream_ok_def make_stream_def halves_agree_def tunnel_agrees_def)

lemma remote_transition_aborted [simp]:
  "snd (record_head_end_stream r) = Remote_aborted \<longleftrightarrow> r = Remote_aborted"
  "snd (finalize_content_head r) = Remote_aborted \<longleftrightarrow> r = Remote_aborted"
  "snd (finalize_connect_head r) = Remote_aborted \<longleftrightarrow> r = Remote_aborted"
  "snd (finish_content r) = Remote_aborted \<longleftrightarrow> r = Remote_aborted"
  "snd (mark_connect_tunnel_data r) = Remote_aborted \<longleftrightarrow> r = Remote_aborted"
  "snd (finish_pending_connect r) = Remote_aborted \<longleftrightarrow> r = Remote_aborted"
  "snd (finish_tunnel r) = Remote_aborted \<longleftrightarrow> r = Remote_aborted"
  "snd (finish_rejected_connect r) = Remote_aborted \<longleftrightarrow> r = Remote_aborted"
  by (cases r; simp)+

lemma send_transition_aborted [simp]:
  "send_is_aborted (snd (send_begin_request_content l)) \<longleftrightarrow> send_is_aborted l"
  "send_is_aborted (snd (send_begin_response_content l)) \<longleftrightarrow> send_is_aborted l"
  "send_is_aborted (snd (send_begin_connect_request l)) \<longleftrightarrow> send_is_aborted l"
  "send_is_aborted (snd (send_open_tunnel l)) \<longleftrightarrow> send_is_aborted l"
  "send_is_aborted (snd (send_commit_head_end_stream l)) \<longleftrightarrow> send_is_aborted l"
  "send_is_aborted (snd (send_reject_connect l)) \<longleftrightarrow> send_is_aborted l"
  "send_is_aborted (snd (send_commit_end_stream l)) \<longleftrightarrow> send_is_aborted l"
  by (cases l; simp add: send_transitions)+

lemma halves_agree_step:
  assumes "stream_step s t" "halves_agree (local_send s) (remote_receive s)"
  shows "halves_agree (local_send t) (remote_receive t)"
  using assms
  by (cases rule: stream_step.cases)
    (auto simp: stream_operations lifted_operations halves_agree_def remove_pending_event_def
      stream_abort_eq accept_connect_eq reject_connect_eq split: if_splits)

lemma tunnel_is_pendingD [simp]: "tunnel_is_pending t \<Longrightarrow> t \<noteq> Not_connect \<and> t \<noteq> Tunnel_accepted \<and> t \<noteq> Tunnel_rejected"
  by (cases t) auto

lemma tunnel_agrees_step:
  assumes "stream_step s t" "tunnel_agrees (tunnel s) (local_send s) (remote_receive s)"
  shows "tunnel_agrees (tunnel t) (local_send t) (remote_receive t)"
  using assms
proof (cases rule: stream_step.cases)
qed (cases "remote_receive s";
  auto simp: h2_defs tunnel_agrees_def remove_pending_event_def stream_abort_eq accept_connect_eq
    reject_connect_eq split: if_splits)+

lemma content_ok_step:
  assumes "stream_step s t"
    and "remote_content_ok (remote_content s) \<and> local_content_ok (local_content s)"
  shows "remote_content_ok (remote_content t) \<and> local_content_ok (local_content t)"
  using assms
proof (cases rule: stream_step.cases)
qed (auto simp: h2_defs remove_pending_event_def stream_abort_eq accept_connect_eq reject_connect_eq
    commit_prefix remote_content_ok_declare remote_content_ok_metadata remote_content_ok_account
    split: if_splits)

lemma stream_ok_step: "stream_step s t \<Longrightarrow> stream_ok s \<Longrightarrow> stream_ok t"
  unfolding stream_ok_def
  using halves_agree_step [of s t] tunnel_agrees_step [of s t] content_ok_step [of s t] by blast

lemma stream_ok_run: "stream_run s t \<Longrightarrow> stream_ok s \<Longrightarrow> stream_ok t"
  by (induction rule: stream_run.induct) (auto intro: stream_ok_step)

subsection \<open>Phases only advance\<close>

text \<open>A rank of each half. Recording tunnel data on a pending CONNECT is the one transition
  that stays within a rank once it has been taken.\<close>

fun remote_rank :: "http2_remote_receive_state \<Rightarrow> nat" where
  "remote_rank Head_pending = 0"
| "remote_rank Head_end_stream_pending = 1"
| "remote_rank Remote_content_open = 1"
| "remote_rank (Connect_pending saw) = (if saw then 2 else 1)"
| "remote_rank (Connect_pending_end_stream _) = 3"
| "remote_rank Connect_rejected_awaiting_end_stream = 3"
| "remote_rank Tunnel_open = 3"
| "remote_rank End_stream = 4"
| "remote_rank Remote_aborted = 5"

fun send_rank :: "http2_local_send_state \<Rightarrow> nat" where
  "send_rank Send_head_pending = 0"
| "send_rank Send_request_content_open = 2"
| "send_rank Send_response_content_open = 2"
| "send_rank Send_connect_pending = 1"
| "send_rank Send_tunnel_open = 2"
| "send_rank Send_end_stream_committed = 3"
| "send_rank (Send_aborted _) = 4"

fun tunnel_rank :: "http2_tunnel_state \<Rightarrow> nat" where
  "tunnel_rank Not_connect = 0"
| "tunnel_rank (Tunnel_pending _) = 1"
| "tunnel_rank Tunnel_accepted = 2"
| "tunnel_rank Tunnel_rejected = 2"

definition stream_phases ::
  "http2_stream_state \<Rightarrow> http2_tunnel_state \<times> http2_local_send_state \<times> http2_remote_receive_state"
where
  "stream_phases s = (tunnel s, local_send s, remote_receive s)"

definition stream_rank :: "http2_stream_state \<Rightarrow> nat" where
  "stream_rank s = tunnel_rank (tunnel s) + send_rank (local_send s) + remote_rank (remote_receive s)"

lemma stream_rank_le: "stream_rank s \<le> 11"
proof -
  have "tunnel_rank (tunnel s) \<le> 2" by (cases "tunnel s") auto
  moreover have "send_rank (local_send s) \<le> 4" by (cases "local_send s") auto
  moreover have "remote_rank (remote_receive s) \<le> 5" by (cases "remote_receive s") auto
  ultimately show ?thesis by (simp add: stream_rank_def)
qed

lemma tunnel_rank_pending: "tunnel_is_pending t \<Longrightarrow> tunnel_rank t = 1"
  by (cases t) auto

definition advances :: "http2_stream_state \<Rightarrow> http2_stream_state \<Rightarrow> bool" where
  "advances s t \<longleftrightarrow> stream_phases t = stream_phases s \<or> stream_rank s < stream_rank t"

lemma advances_refl [simp]: "advances s s"
  by (simp add: advances_def)

lemma advances_update [simp]:
  "advances s (s\<lparr>push_reservation := a\<rparr>)" "advances s (s\<lparr>remote_content := b\<rparr>)"
  "advances s (s\<lparr>local_content := c\<rparr>)" "advances s (s\<lparr>slot_held := d\<rparr>)"
  "advances s (s\<lparr>window_debt := e\<rparr>)" "advances s (s\<lparr>content_gate := f\<rparr>)"
  "advances s (s\<lparr>pinned := d\<rparr>)" "advances s (s\<lparr>pending_events := h\<rparr>)"
  "advances s (s\<lparr>response_status := i\<rparr>)" "advances s (s\<lparr>informational_response := d\<rparr>)"
  by (simp_all add: advances_def stream_phases_def)

lemma advances_on_remote:
  "snd (f (remote_receive s)) = remote_receive s \<or>
     remote_rank (remote_receive s) < remote_rank (snd (f (remote_receive s))) \<Longrightarrow>
   advances s (snd (on_remote f s))"
  by (auto simp: advances_def on_remote_def stream_phases_def stream_rank_def)

lemma advances_on_send:
  "snd (f (local_send s)) = local_send s \<or>
     send_rank (local_send s) < send_rank (snd (f (local_send s))) \<Longrightarrow>
   advances s (snd (on_send f s))"
  by (auto simp: advances_def on_send_def stream_phases_def stream_rank_def)

lemma advances_on_tunnel:
  "snd (f (tunnel s)) = tunnel s \<or> tunnel_rank (tunnel s) < tunnel_rank (snd (f (tunnel s))) \<Longrightarrow>
   advances s (snd (on_tunnel f s))"
  by (auto simp: advances_def on_tunnel_def stream_phases_def stream_rank_def)

lemma remote_transition_rank:
  "snd (record_head_end_stream r) = r \<or> remote_rank r < remote_rank (snd (record_head_end_stream r))"
  "snd (finalize_content_head r) = r \<or> remote_rank r < remote_rank (snd (finalize_content_head r))"
  "snd (finalize_connect_head r) = r \<or> remote_rank r < remote_rank (snd (finalize_connect_head r))"
  "snd (finish_content r) = r \<or> remote_rank r < remote_rank (snd (finish_content r))"
  "snd (mark_connect_tunnel_data r) = r \<or> remote_rank r < remote_rank (snd (mark_connect_tunnel_data r))"
  "snd (finish_pending_connect r) = r \<or> remote_rank r < remote_rank (snd (finish_pending_connect r))"
  "snd (finish_tunnel r) = r \<or> remote_rank r < remote_rank (snd (finish_tunnel r))"
  "snd (finish_rejected_connect r) = r \<or> remote_rank r < remote_rank (snd (finish_rejected_connect r))"
  by (cases r; auto)+

lemma send_transition_rank:
  "snd (send_begin_request_content l) = l \<or> send_rank l < send_rank (snd (send_begin_request_content l))"
  "snd (send_begin_response_content l) = l \<or> send_rank l < send_rank (snd (send_begin_response_content l))"
  "snd (send_begin_connect_request l) = l \<or> send_rank l < send_rank (snd (send_begin_connect_request l))"
  "snd (send_open_tunnel l) = l \<or> send_rank l < send_rank (snd (send_open_tunnel l))"
  "snd (send_commit_head_end_stream l) = l \<or> send_rank l < send_rank (snd (send_commit_head_end_stream l))"
  "snd (send_reject_connect l) = l \<or> send_rank l < send_rank (snd (send_reject_connect l))"
  "snd (send_commit_end_stream l) = l \<or> send_rank l < send_rank (snd (send_commit_end_stream l))"
  by (cases l; simp add: send_transitions)+

lemma advances_begin: "advances s (snd (on_tunnel (tunnel_begin form) s))"
  by (rule advances_on_tunnel) (simp add: tunnel_begin_def)

lemma advances_compound:
  "halves_agree (local_send s) (remote_receive s) \<Longrightarrow> advances s (snd (stream_abort src s))"
  "advances s (snd (accept_connect s))" "advances s (snd (reject_connect s))"
  by (cases "local_send s"; cases "remote_receive s";
      simp add: stream_abort_eq advances_def stream_phases_def stream_rank_def halves_agree_def)
    (cases "remote_receive s";
      simp add: accept_connect_eq reject_connect_eq advances_def stream_phases_def stream_rank_def
        tunnel_rank_pending)+

lemmas transition_advances =
  advances_on_remote [where f = record_head_end_stream, OF remote_transition_rank(1)]
  advances_on_remote [where f = finalize_content_head, OF remote_transition_rank(2)]
  advances_on_remote [where f = finalize_connect_head, OF remote_transition_rank(3)]
  advances_on_remote [where f = finish_content, OF remote_transition_rank(4)]
  advances_on_remote [where f = mark_connect_tunnel_data, OF remote_transition_rank(5)]
  advances_on_remote [where f = finish_pending_connect, OF remote_transition_rank(6)]
  advances_on_remote [where f = finish_tunnel, OF remote_transition_rank(7)]
  advances_on_remote [where f = finish_rejected_connect, OF remote_transition_rank(8)]
  advances_on_send [where f = send_begin_request_content, OF send_transition_rank(1)]
  advances_on_send [where f = send_begin_response_content, OF send_transition_rank(2)]
  advances_on_send [where f = send_begin_connect_request, OF send_transition_rank(3)]
  advances_on_send [where f = send_open_tunnel, OF send_transition_rank(4)]
  advances_on_send [where f = send_commit_head_end_stream, OF send_transition_rank(5)]
  advances_on_send [where f = send_reject_connect, OF send_transition_rank(6)]
  advances_on_send [where f = send_commit_end_stream, OF send_transition_rank(7)]

lemma phase_step:
  assumes "stream_step s t" "halves_agree (local_send s) (remote_receive s)"
  shows "advances s t"
  using assms
  by (cases rule: stream_step.cases)
    (auto simp: stream_operations remove_pending_event_def advances_begin advances_compound
      transition_advances split: if_splits)

lemma stream_run_halves:
  "stream_run s t \<Longrightarrow> halves_agree (local_send s) (remote_receive s) \<Longrightarrow>
     halves_agree (local_send t) (remote_receive t)"
  by (induction rule: stream_run.induct) (auto intro: halves_agree_step)

lemma advances_trans: "advances s t \<Longrightarrow> advances t u \<Longrightarrow> advances s u"
  by (auto simp: advances_def stream_phases_def stream_rank_def)

lemma run_advances:
  "stream_run s t \<Longrightarrow> halves_agree (local_send s) (remote_receive s) \<Longrightarrow> advances s t"
proof (induction rule: stream_run.induct)
  case (stream_run_step s t u)
  then show ?case
    using phase_step [of t u] stream_run_halves [of s t] advances_trans [of s t u] by blast
qed simp

subsection \<open>Half-closed states last\<close>

lemma remote_transition_half_closed:
  "remote_peer_half_closed r \<Longrightarrow> remote_peer_half_closed (snd (record_head_end_stream r))"
  "remote_peer_half_closed r \<Longrightarrow> remote_peer_half_closed (snd (finalize_content_head r))"
  "remote_peer_half_closed r \<Longrightarrow> remote_peer_half_closed (snd (finalize_connect_head r))"
  "remote_peer_half_closed r \<Longrightarrow> remote_peer_half_closed (snd (finish_content r))"
  "remote_peer_half_closed r \<Longrightarrow> remote_peer_half_closed (snd (mark_connect_tunnel_data r))"
  "remote_peer_half_closed r \<Longrightarrow> remote_peer_half_closed (snd (finish_pending_connect r))"
  "remote_peer_half_closed r \<Longrightarrow> remote_peer_half_closed (snd (finish_tunnel r))"
  "remote_peer_half_closed r \<Longrightarrow> remote_peer_half_closed (snd (finish_rejected_connect r))"
  by (cases r; simp)+

lemma remote_transition_decoded:
  "remote_final_head_decoded r \<Longrightarrow> remote_final_head_decoded (snd (record_head_end_stream r))"
  "remote_final_head_decoded r \<Longrightarrow> remote_final_head_decoded (snd (finalize_content_head r))"
  "remote_final_head_decoded r \<Longrightarrow> remote_final_head_decoded (snd (finalize_connect_head r))"
  "remote_final_head_decoded r \<Longrightarrow> remote_final_head_decoded (snd (finish_content r))"
  "remote_final_head_decoded r \<Longrightarrow> remote_final_head_decoded (snd (mark_connect_tunnel_data r))"
  "remote_final_head_decoded r \<Longrightarrow> remote_final_head_decoded (snd (finish_pending_connect r))"
  "remote_final_head_decoded r \<Longrightarrow> remote_final_head_decoded (snd (finish_tunnel r))"
  "remote_final_head_decoded r \<Longrightarrow> remote_final_head_decoded (snd (finish_rejected_connect r))"
  by (cases r; simp add: remote_final_head_decoded_def)+

lemma remote_final_head_decoded_simps [simp]:
  "\<not> remote_final_head_decoded Head_pending" "remote_final_head_decoded Remote_content_open"
  "remote_final_head_decoded End_stream" "remote_final_head_decoded Remote_aborted"
  "remote_final_head_decoded Tunnel_open"
  "remote_final_head_decoded Connect_rejected_awaiting_end_stream"
  by (simp_all add: remote_final_head_decoded_def)

lemma half_closed_step:
  assumes "stream_step s t" "remote_peer_half_closed (remote_receive s)"
  shows "remote_peer_half_closed (remote_receive t)"
  using assms
  by (cases rule: stream_step.cases)
    (auto simp: stream_operations lifted_operations remove_pending_event_def stream_abort_eq
      accept_connect_eq reject_connect_eq remote_transition_half_closed split: if_splits)

lemma head_decoded_step:
  assumes "stream_step s t" "remote_final_head_decoded (remote_receive s)"
  shows "remote_final_head_decoded (remote_receive t)"
  using assms
  by (cases rule: stream_step.cases)
    (auto simp: stream_operations lifted_operations remove_pending_event_def stream_abort_eq
      accept_connect_eq reject_connect_eq remote_transition_decoded split: if_splits)

lemma local_end_step:
  assumes "stream_step s t" "local_send s = Send_end_stream_committed \<or> is_aborted s"
  shows "local_send t = Send_end_stream_committed \<or> is_aborted t"
  using assms
  by (cases rule: stream_step.cases)
    (auto simp: stream_operations lifted_operations remove_pending_event_def stream_abort_eq
      accept_connect_eq reject_connect_eq send_transitions split: if_splits)

lemma aborted_step:
  assumes "stream_step s t" "is_aborted s"
  shows "is_aborted t"
  using assms
  by (cases rule: stream_step.cases)
    (auto simp: stream_operations lifted_operations remove_pending_event_def stream_abort_eq
      accept_connect_eq reject_connect_eq split: if_splits)

lemma closed_step: "stream_step s t \<Longrightarrow> stream_is_closed s \<Longrightarrow> stream_is_closed t"
  using half_closed_step [of s t] local_end_step [of s t] aborted_step [of s t]
  by (auto simp: stream_is_closed_def)

lemma closed_run: "stream_run s t \<Longrightarrow> stream_is_closed s \<Longrightarrow> stream_is_closed t"
  by (induction rule: stream_run.induct) (auto intro: closed_step)

lemma half_closed_run:
  "stream_run s t \<Longrightarrow> remote_peer_half_closed (remote_receive s) \<Longrightarrow>
     remote_peer_half_closed (remote_receive t)"
  by (induction rule: stream_run.induct) (auto intro: half_closed_step)

lemma stream_run_trans: "stream_run t u \<Longrightarrow> stream_run s t \<Longrightarrow> stream_run s u"
  by (induction rule: stream_run.induct) (auto intro: stream_run.intros)

subsection \<open>Properties of stream records\<close>

lemma tunnel_agreesD:
  assumes "tunnel_agrees t l r"
  shows "t = Tunnel_accepted \<longrightarrow> r \<in> {Tunnel_open, End_stream, Remote_aborted}"
    "r = Tunnel_open \<or> l = Send_tunnel_open \<longrightarrow> t = Tunnel_accepted"
    "t = Tunnel_rejected \<longrightarrow> r \<in>
       {Remote_content_open, Connect_rejected_awaiting_end_stream, End_stream, Remote_aborted}"
    "\<forall>b. r = Connect_pending b \<longrightarrow> tunnel_is_pending t"
  using assms by (auto simp: tunnel_agrees_def)

lemma remote_content_known:
  "remote_content_ok c \<Longrightarrow>
     \<forall>declared received. c = Allowed_known_length declared received \<longrightarrow> received \<le> declared"
  by (cases c) auto

lemma local_content_known:
  "local_content_ok c \<Longrightarrow>
     \<forall>declared. lc_content c = Local_known_length declared \<longrightarrow> lc_accepted c \<le> declared"
  by (auto simp: local_content_ok_def)

text \<open>
  Property C39. In whatever order the operations of a stream record are called, its two halves
  are aborted together or not at all; an accepted CONNECT has its peer half open as a tunnel,
  ended or aborted, and nothing else opens a tunnel in either half; a rejected CONNECT only
  drains or resumes ordinary content; a pending one is the only state in which tunnel data may
  be recorded; and neither direction ever counts more content than its declared length.\<close>

theorem stream_record_consistent:
  assumes "stream_run (make_stream i) s"
  shows "(is_aborted s \<longleftrightarrow> remote_receive s = Remote_aborted) \<and>
    (tunnel s = Tunnel_accepted \<longrightarrow> remote_receive s \<in> {Tunnel_open, End_stream, Remote_aborted}) \<and>
    (remote_receive s = Tunnel_open \<or> local_send s = Send_tunnel_open \<longrightarrow> tunnel s = Tunnel_accepted) \<and>
    (tunnel s = Tunnel_rejected \<longrightarrow> remote_receive s \<in>
       {Remote_content_open, Connect_rejected_awaiting_end_stream, End_stream, Remote_aborted}) \<and>
    (\<forall>b. remote_receive s = Connect_pending b \<longrightarrow> tunnel_is_pending (tunnel s)) \<and>
    (\<forall>declared received. remote_content s = Allowed_known_length declared received \<longrightarrow>
       received \<le> declared) \<and>
    (\<forall>declared. lc_content (local_content s) = Local_known_length declared \<longrightarrow>
       lc_accepted (local_content s) \<le> declared)"
proof -
  have ok: "stream_ok s" using assms stream_ok_make by (rule stream_ok_run)
  then have "tunnel_agrees (tunnel s) (local_send s) (remote_receive s)"
    and "is_aborted s \<longleftrightarrow> remote_receive s = Remote_aborted"
    and "remote_content_ok (remote_content s)" and "local_content_ok (local_content s)"
    by (simp_all add: stream_ok_def halves_agree_def is_aborted_def)
  then show ?thesis
    using tunnel_agreesD [of "tunnel s" "local_send s" "remote_receive s"] remote_content_known
      local_content_known by (intro conjI) blast+
qed

text \<open>A CONNECT that is accepted after tunnel data arrived, and is then reset by the peer.\<close>

definition demo_connect :: http2_stream_state where
  "demo_connect = snd (stream_abort Close_peer (snd (accept_connect
     (snd (mark_remote_connect_tunnel_data (snd (finalize_remote_connect_head
       (snd (begin_standard_connect (make_stream 1)))))))))) "

lemma demo_connect_run: "stream_run (make_stream 1) demo_connect"
  unfolding demo_connect_def
  by (rule stream_run_step [OF _ stream_step.intros(18)],
      rule stream_run_step [OF _ stream_step.intros(39)],
      rule stream_run_step [OF _ stream_step.intros(23)],
      rule stream_run_step [OF _ stream_step.intros(21)],
      rule stream_run_step [OF _ stream_step.intros(37)], rule stream_run_refl)

theorem stream_record_consistent_witness:
  "tunnel demo_connect = Tunnel_accepted \<and> is_aborted demo_connect \<and>
   remote_receive demo_connect = Remote_aborted"
proof -
  have "is_aborted demo_connect \<and> tunnel demo_connect = Tunnel_accepted" by code_simp
  then show ?thesis using stream_record_consistent [OF demo_connect_run] by simp
qed

text \<open>
  Phases never go back. Along any run of a record's operations a half the peer
  has closed stays closed, a closed stream stays closed, and either no phase changed or the
  rank of the record grew; since a rank is at most 11, a stream changes phase at most 11 times.\<close>

theorem stream_phases_advance:
  assumes "stream_run (make_stream i) s" "stream_run s t"
  shows "(stream_is_closed s \<longrightarrow> stream_is_closed t) \<and>
    (remote_peer_half_closed (remote_receive s) \<longrightarrow> remote_peer_half_closed (remote_receive t)) \<and>
    (stream_phases t = stream_phases s \<or> stream_rank s < stream_rank t) \<and> stream_rank t \<le> 11"
proof -
  have "halves_agree (local_send s) (remote_receive s)"
    using stream_ok_run [OF assms(1) stream_ok_make] by (simp add: stream_ok_def)
  then have "advances s t" using assms(2) by (blast intro: run_advances)
  then show ?thesis
    using closed_run [OF assms(2)] half_closed_run [OF assms(2)] stream_rank_le [of t]
    by (simp add: advances_def)
qed

theorem stream_phases_advance_witness:
  "stream_is_closed (snd (accept_connect demo_connect))"
proof -
  have "stream_run demo_connect (snd (accept_connect demo_connect))"
    by (rule stream_run_step [OF _ stream_step.intros(39)], rule stream_run_refl)
  moreover have "stream_is_closed demo_connect" by code_simp
  ultimately show ?thesis using stream_phases_advance [OF demo_connect_run] by blast
qed

end
