(* ===== verification/H2_Invariant.thy ===== *)
theory H2_Invariant
  imports H2_Submit H2_Stream_Steps
begin

text \<open>
  What every operation of the connection keeps. Each record moves only by the mutators of
  \<open>H2_Stream_Steps\<close>, an identifier never comes back once its record is gone, the records count the
  queued events that name them, and every received byte is either credited to nghttp2 or owed by
  exactly one live record, until the connection has failed.
\<close>

subsection \<open>The invariant\<close>

definition debts :: "stream_table \<Rightarrow> nat" where
  "debts t = streams.total (\<lambda>s. unat (window_debt s)) t"

definition queued :: "'s h2_connection \<Rightarrow> u32 list" where
  "queued c = concat (map event_streams (events c))"

text \<open>
  In the middle of an operation the invariant holds up to a few things: bytes that were received
  and are not yet credited or charged to a record, streams whose deferred release is about to be
  retried, consumed events that their records still count, and whether nghttp2 is running.
\<close>

record mode =
  in_flight :: nat
  exempt :: "u32 set"
  uncounted :: "u32 list"
  inside :: bool

definition settled :: mode where
  "settled = \<lparr>in_flight = 0, exempt = {}, uncounted = [], inside = False\<rparr>"

definition record_ok :: "mode \<Rightarrow> 's h2_connection \<Rightarrow> http2_stream_state \<Rightarrow> bool" where
  "record_ok k c s \<longleftrightarrow> stream_ok s \<and> stream_id s \<in> set (opened c) \<and>
     pending_events s = count_list (queued c) (stream_id s) + count_list (uncounted k) (stream_id s)"

definition balanced :: "nat \<Rightarrow> 's h2_connection \<Rightarrow> bool" where
  "balanced n c \<longleftrightarrow> failed c \<or> received_total c = credited_total c + debts (streams c) + n"

text \<open>A release that waits for credits waits for something, unless the stream is closed.\<close>

definition waits :: "http2_stream_state \<Rightarrow> bool" where
  "waits s \<longleftrightarrow> stream_is_closed s \<or> has_outstanding s"

definition lease_ok :: "u32 set \<Rightarrow> 's h2_connection \<Rightarrow> release_entry \<Rightarrow> bool" where
  "lease_ok X c e \<longleftrightarrow> re_kind e \<noteq> Abandon \<and>
     (re_kind e = After_credits \<longrightarrow> re_stream e \<in> set (opened c) \<and>
        (\<forall>s. re_stream e \<notin> X \<longrightarrow> lookup_stream (re_stream e) c = Some s \<longrightarrow> waits s))"

definition leases_ok :: "u32 set \<Rightarrow> 's h2_connection \<Rightarrow> bool" where
  "leases_ok X c \<longleftrightarrow> failed c \<or> (\<forall>e\<in>set (releases (leases c)). lease_ok X c e)"

definition conn_ok :: "mode \<Rightarrow> 's h2_connection \<Rightarrow> bool" where
  "conn_ok k c \<longleftrightarrow> table_ok (streams c) \<and> ledger_ok (leases c) \<and>
     (\<forall>i s. lookup_stream i c = Some s \<longrightarrow> record_ok k c s) \<and>
     set (queued c) \<union> set (uncounted k) \<subseteq> set (opened c) \<and>
     balanced (in_flight k) c \<and> leases_ok (exempt k) c \<and>
     (\<forall>s. push_scratch c = Some s \<longrightarrow> stream_id s \<noteq> 0) \<and>
     in_nghttp2 c = inside k \<and> \<not> reentered c"

definition calm :: "mode \<Rightarrow> 's h2_connection \<Rightarrow> bool" where
  "calm k c \<longleftrightarrow> conn_ok k c \<and> callback_failure c = None"

text \<open>Between two states of one connection.\<close>

definition evolves :: "'s h2_connection \<Rightarrow> 's h2_connection \<Rightarrow> bool" where
  "evolves c c' \<longleftrightarrow> (failed c \<longrightarrow> failed c') \<and> set (opened c) \<subseteq> set (opened c') \<and>
     (\<forall>i s'. i \<in> set (opened c) \<longrightarrow> lookup_stream i c' = Some s' \<longrightarrow>
        (\<exists>s. lookup_stream i c = Some s \<and> stream_run s s'))"

lemma evolves_refl: "evolves c c"
  by (auto simp: evolves_def intro: stream_run_refl)

lemma evolves_trans: "evolves c d \<Longrightarrow> evolves d e \<Longrightarrow> evolves c e"
  unfolding evolves_def by (meson stream_run_trans subset_iff)

subsection \<open>Operations that keep it\<close>

definition keeps :: "('s h2_connection \<Rightarrow> 's h2_connection) \<Rightarrow> bool" where
  "keeps f \<longleftrightarrow> (\<forall>n c. calm n c \<longrightarrow> evolves c (f c) \<and> calm n (f c))"

lemma keepsD: "keeps f \<Longrightarrow> calm n c \<Longrightarrow> evolves c (f c)" "keeps f \<Longrightarrow> calm n c \<Longrightarrow> calm n (f c)"
  by (auto simp: keeps_def)

lemma keeps_comp: "keeps f \<Longrightarrow> keeps h \<Longrightarrow> keeps (\<lambda>c. h (f c))"
  unfolding keeps_def by (meson evolves_trans)

lemma keeps_id: "keeps (\<lambda>c. c)"
  by (simp add: keeps_def evolves_refl)

text \<open>
  What an operation did that started in \<open>c\<close> and came to the mode \<open>m\<close>: an exception means that the
  connection has failed. Only operations with a call that nghttp2 may refuse for other reasons are
  merely steady.
\<close>

definition solid :: "mode \<Rightarrow> 's h2_connection \<Rightarrow> h2_exception option \<times> 's h2_connection \<Rightarrow> bool" where
  "solid m c r \<longleftrightarrow> evolves c (snd r) \<and> calm m (snd r) \<and> (fst r \<noteq> None \<longrightarrow> failed (snd r))"

definition steady :: "mode \<Rightarrow> 's h2_connection \<Rightarrow> h2_exception option \<times> 's h2_connection \<Rightarrow> bool" where
  "steady m c r \<longleftrightarrow> evolves c (snd r) \<and> calm m (snd r)"

lemma solid_steady: "solid m c r \<Longrightarrow> steady m c r"
  by (simp add: solid_def steady_def)

lemma solidD:
  "solid m c r \<Longrightarrow> evolves c (snd r)" "solid m c r \<Longrightarrow> calm m (snd r)"
  "solid m c r \<Longrightarrow> fst r \<noteq> None \<Longrightarrow> failed (snd r)"
  by (auto simp: solid_def)

lemma solid_keeps: "keeps f \<Longrightarrow> calm k c \<Longrightarrow> solid k c (None, f c)"
  by (simp add: solid_def keepsD)

lemma solid_refl: "calm k c \<Longrightarrow> solid k c (None, c)"
  by (simp add: solid_def evolves_refl)

subsection \<open>Fields outside the invariant\<close>

definition same_core :: "'s h2_connection \<Rightarrow> 's h2_connection \<Rightarrow> bool" where
  "same_core c c' \<longleftrightarrow> streams c' = streams c \<and> leases c' = leases c \<and> events c' = events c \<and>
     opened c' = opened c \<and> received_total c' = received_total c \<and>
     credited_total c' = credited_total c \<and> (failed c \<longrightarrow> failed c') \<and>
     (push_scratch c' = push_scratch c \<or> push_scratch c' = None) \<and>
     in_nghttp2 c' = in_nghttp2 c \<and> reentered c' = reentered c"

lemma same_core_evolves: "same_core c c' \<Longrightarrow> evolves c c'"
  by (auto simp: same_core_def evolves_def lookup_stream_def intro: stream_run_refl)

lemma same_core_ok: "same_core c c' \<Longrightarrow> conn_ok k c \<Longrightarrow> conn_ok k c'"
  unfolding same_core_def conn_ok_def record_ok_def queued_def lookup_stream_def balanced_def
    leases_ok_def lease_ok_def by auto

lemma keeps_same_core:
  assumes "\<And>c. same_core c (f c)" "\<And>c. callback_failure c = None \<longrightarrow> callback_failure (f c) = None"
  shows "keeps f"
  unfolding keeps_def calm_def using assms by (meson same_core_evolves same_core_ok)

lemma failed_any: "failed c \<Longrightarrow> calm k c \<Longrightarrow> inside m = inside k \<Longrightarrow> uncounted m = uncounted k \<Longrightarrow> calm m c"
  by (auto simp: calm_def conn_ok_def balanced_def leases_ok_def record_ok_def)

lemma calm_weaken:
  "calm k c \<Longrightarrow> in_flight m = in_flight k \<Longrightarrow> exempt k \<subseteq> exempt m \<Longrightarrow> uncounted m = uncounted k \<Longrightarrow>
    inside m = inside k \<Longrightarrow> calm m c"
  unfolding calm_def conn_ok_def record_ok_def leases_ok_def lease_ok_def by auto

subsection \<open>Writing one record\<close>

definition quiet_at :: "(http2_stream_state \<Rightarrow> http2_stream_state) \<Rightarrow> http2_stream_state \<Rightarrow> bool" where
  "quiet_at f s \<longleftrightarrow> stream_id (f s) = stream_id s \<and> pending_events (f s) = pending_events s \<and>
     window_debt (f s) = window_debt s \<and> stream_run s (f s)"

abbreviation quiet :: "(http2_stream_state \<Rightarrow> http2_stream_state) \<Rightarrow> bool" where
  "quiet f \<equiv> \<forall>s. quiet_at f s"

lemma quiet_comp: "quiet f \<Longrightarrow> quiet h \<Longrightarrow> quiet (h \<circ> f)"
  unfolding quiet_at_def comp_def by (metis stream_run_trans)

lemma quietI:
  assumes "\<And>s. stream_id (f s) = stream_id s" "\<And>s. pending_events (f s) = pending_events s"
    "\<And>s. window_debt (f s) = window_debt s" "\<And>s. stream_step s (f s)"
  shows "quiet f"
  using assms by (auto simp: quiet_at_def intro: stream_run_step [OF stream_run_refl])

lemma lookup_id: "table_ok (streams c) \<Longrightarrow> lookup_stream i c = Some s \<Longrightarrow> stream_id s = i"
  unfolding lookup_stream_def by (rule streams.lookup_key)

lemma update_fields [simp]:
  "session (update_stream i f c) = session c" "leases (update_stream i f c) = leases c"
  "events (update_stream i f c) = events c" "opened (update_stream i f c) = opened c"
  "received_total (update_stream i f c) = received_total c"
  "credited_total (update_stream i f c) = credited_total c"
  "callback_failure (update_stream i f c) = callback_failure c"
  "failed (update_stream i f c) = failed c" "queued (update_stream i f c) = queued c"
  "local_state (update_stream i f c) = local_state c" "is_client (update_stream i f c) = is_client c"
  "push_scratch (update_stream i f c) = push_scratch c" "in_nghttp2 (update_stream i f c) = in_nghttp2 c"
  "reentered (update_stream i f c) = reentered c" "header_block (update_stream i f c) = header_block c"
  by (auto simp: update_stream_def failed_def queued_def split: option.splits)

lemma update_table:
  assumes ok: "table_ok (streams c)"
    and id: "\<And>s. lookup_stream i c = Some s \<Longrightarrow> stream_id (f s) = stream_id s"
  shows "table_ok (streams (update_stream i f c))"
    and "lookup_stream j (update_stream i f c) =
      (if j = i then map_option f (lookup_stream i c) else lookup_stream j c)"
proof -
  have "table_ok (streams (update_stream i f c)) \<and> lookup_stream j (update_stream i f c) =
      (if j = i then map_option f (lookup_stream i c) else lookup_stream j c)"
  proof (cases "lookup_stream i c")
    case None
    then show ?thesis using ok by (simp add: update_stream_def)
  next
    case (Some s)
    have i: "stream_id (f s) = i" using id [OF Some] lookup_id [OF ok Some] by simp
    have "find_stream (stream_id (f s)) (streams c) \<noteq> None"
      using Some i by (simp add: lookup_stream_def)
    then have "table_ok (write_stream (f s) (streams c))"
      "(\<lambda>j. find_stream j (write_stream (f s) (streams c))) =
        (\<lambda>j. find_stream j (streams c))(stream_id (f s) \<mapsto> f s)"
      using streams.rewrite [OF ok] by auto
    then show ?thesis using Some i
      by (auto simp: update_stream_def lookup_stream_def dest: fun_cong [of _ _ j])
  qed
  then show "table_ok (streams (update_stream i f c))"
    "lookup_stream j (update_stream i f c) =
      (if j = i then map_option f (lookup_stream i c) else lookup_stream j c)" by auto
qed

lemma update_debts:
  assumes "table_ok (streams c)" "lookup_stream i c = Some s" "stream_id (f s) = stream_id s"
  shows "debts (streams (update_stream i f c)) + unat (window_debt s) =
    debts (streams c) + unat (window_debt (f s))"
  using streams.total_rewrite [OF assms(1), where v = "f s" and w = s and f = "\<lambda>s. unat (window_debt s)"]
    assms lookup_id [OF assms(1,2)]
  by (simp add: debts_def update_stream_def lookup_stream_def)

lemma update_absent: "lookup_stream i c = None \<Longrightarrow> update_stream i f c = c"
  by (simp add: update_stream_def)

text \<open>A write that keeps the event count and moves bytes between the debt and those in flight.\<close>

lemma leases_ok_update:
  assumes X: "leases_ok X c" and table: "table_ok (streams c)" and s: "lookup_stream i c = Some s"
    and id: "stream_id (f s) = stream_id s"
    and w: "i \<in> Y \<or> (i \<notin> X \<and> (waits s \<longrightarrow> waits (f s))) \<or> waits (f s)" and Y: "X \<subseteq> Y"
  shows "leases_ok Y (update_stream i f c)"
proof -
  have id': "\<And>t. lookup_stream i c = Some t \<Longrightarrow> stream_id (f t) = stream_id t" using s id by simp
  note new = update_table(2) [where c = c and i = i and f = f, OF table id']
  show ?thesis
    using X w Y new s by (auto simp: leases_ok_def lease_ok_def split: if_splits)
qed

lemma conn_ok_update:
  assumes ok: "conn_ok k c" and s: "lookup_stream i c = Some s"
    and f: "stream_id (f s) = stream_id s" "stream_run s (f s)"
    and e: "pending_events (f s) + count_list (uncounted k) i = pending_events s + count_list (uncounted m) i"
      "set (uncounted m) \<subseteq> set (uncounted k)"
      "\<And>j. j \<noteq> i \<Longrightarrow> count_list (uncounted m) j = count_list (uncounted k) j"
    and n: "failed c \<or> in_flight k + unat (window_debt s) = in_flight m + unat (window_debt (f s))"
    and w: "i \<in> exempt m \<or> (i \<notin> exempt k \<and> (waits s \<longrightarrow> waits (f s))) \<or> waits (f s)"
      "exempt k \<subseteq> exempt m" "inside m = inside k"
  shows "evolves c (update_stream i f c)" "conn_ok m (update_stream i f c)"
proof -
  have table: "table_ok (streams c)" and rec: "record_ok k c s"
    using ok s by (auto simp: conn_ok_def)
  have i: "stream_id s = i" by (rule lookup_id [OF table s])
  have id: "\<And>t. lookup_stream i c = Some t \<Longrightarrow> stream_id (f t) = stream_id t" using s f by simp
  note new = update_table [where c = c and i = i and f = f, OF table id]
  show "evolves c (update_stream i f c)"
    using s f(2) new(2) by (auto simp: evolves_def intro: stream_run_refl)
  have "record_ok m c (f s)"
    using rec f(1) e(1) stream_ok_run [OF f(2)] i by (simp add: record_ok_def)
  moreover have "record_ok m c t" if "lookup_stream j c = Some t" "j \<noteq> i" for j t
    using that ok e(3) [OF that(2)] lookup_id [OF table that(1)] by (auto simp: conn_ok_def record_ok_def)
  ultimately have "\<forall>j t. lookup_stream j (update_stream i f c) = Some t \<longrightarrow> record_ok m c t"
    using s new(2) by (auto split: if_splits)
  moreover have "balanced (in_flight m) (update_stream i f c)"
    using ok n update_debts [where f = f, OF table s f(1)] by (auto simp: conn_ok_def balanced_def)
  moreover have "leases_ok (exempt m) (update_stream i f c)"
    using leases_ok_update [where f = f, OF _ table s f(1) w(1,2)] ok by (simp add: conn_ok_def)
  ultimately show "conn_ok m (update_stream i f c)"
    using ok new(1) e(2) w(3) by (auto simp: conn_ok_def record_ok_def)
qed

lemma quiet_waits:
  assumes "quiet_at f s" "waits s"
  shows "waits (f s)"
proof -
  have "stream_is_closed s \<Longrightarrow> stream_is_closed (f s)"
    using assms(1) closed_run by (auto simp: quiet_at_def)
  then show ?thesis
    using assms by (auto simp: waits_def has_outstanding_def has_pending_events_def quiet_at_def)
qed

lemma calm_update:
  assumes "calm k c" "\<And>s. lookup_stream i c = Some s \<Longrightarrow> quiet_at f s"
  shows "evolves c (update_stream i f c)" "calm k (update_stream i f c)"
proof -
  have "evolves c (update_stream i f c) \<and> calm k (update_stream i f c)"
  proof (cases "lookup_stream i c")
    case None
    then show ?thesis using assms(1) by (simp add: update_absent evolves_refl)
  next
    case (Some s)
    have q: "quiet_at f s" using assms(2) Some by blast
    then have "waits s \<longrightarrow> waits (f s)" using quiet_waits by blast
    then show ?thesis
      using conn_ok_update [OF _ Some, of k f k] q assms(1) by (auto simp: quiet_at_def calm_def)
  qed
  then show "evolves c (update_stream i f c)" "calm k (update_stream i f c)" by auto
qed

lemma keeps_update: "quiet f \<Longrightarrow> keeps (update_stream i f)"
  using calm_update [of _ _ i f] by (auto simp: keeps_def)

subsection \<open>Creating and removing records\<close>

lemma make_stream_fields:
  "stream_id (make_stream i) = i" "pending_events (make_stream i) = 0" "window_debt (make_stream i) = 0"
  by (simp_all add: make_stream_def)

lemma conn_ok_create:
  assumes ok: "conn_ok k c" and created: "create_stream i (streams c) = (Some s, t)"
    and i: "i \<noteq> 0" and new: "i \<notin> set (opened c)"
  shows "evolves c (c\<lparr>streams := t, opened := opened c @ [i]\<rparr>)"
    "conn_ok k (c\<lparr>streams := t, opened := opened c @ [i]\<rparr>)"
    "lookup_stream i (c\<lparr>streams := t, opened := opened c @ [i]\<rparr>) = Some (make_stream i)"
proof -
  let ?c = "c\<lparr>streams := t, opened := opened c @ [i]\<rparr>"
  have table: "table_ok (streams c)" using ok by (simp add: conn_ok_def)
  have absent: "find_stream i (streams c) = None"
  proof (rule ccontr)
    assume "find_stream i (streams c) \<noteq> None"
    then obtain r where r: "lookup_stream i c = Some r" by (auto simp: lookup_stream_def)
    then have "record_ok k c r" using ok by (auto simp: conn_ok_def)
    then show False using new lookup_id [OF table r] by (simp add: record_ok_def)
  qed
  note made = streams.create_new [OF table i absent created]
  have look: "lookup_stream j ?c = (if j = i then Some (make_stream i) else lookup_stream j c)" for j
    using made by (auto simp: lookup_stream_def dest: fun_cong [of _ _ j])
  then show "lookup_stream i ?c = Some (make_stream i)" by simp
  show "evolves c ?c"
    using look new by (auto simp: evolves_def failed_def intro: stream_run_refl)
  have zero: "count_list (queued c) i = 0" "count_list (uncounted k) i = 0"
    using ok new by (auto simp: conn_ok_def count_list_0_iff)
  have rec: "record_ok k ?c r" if "lookup_stream j ?c = Some r" for j r
  proof (cases "j = i")
    case True
    then have "r = make_stream i" using that look by simp
    then show ?thesis using zero stream_ok_make [of i]
      by (simp add: record_ok_def queued_def make_stream_fields)
  next
    case False
    then have "record_ok k c r" using that look ok by (auto simp: conn_ok_def)
    then show ?thesis by (auto simp: record_ok_def queued_def)
  qed
  have "debts t = debts (streams c)"
    using streams.total_create [OF table i absent created] by (simp add: debts_def make_stream_def)
  then have "balanced (in_flight k) ?c" using ok by (auto simp: conn_ok_def balanced_def failed_def)
  moreover have "leases_ok (exempt k) ?c"
    using ok look new by (auto simp: conn_ok_def leases_ok_def lease_ok_def failed_def split: if_splits)
  ultimately show "conn_ok k ?c"
    using ok made rec by (auto simp: conn_ok_def queued_def)
qed

lemma erase_table:
  assumes "table_ok (streams c)"
  shows "table_ok (streams (erase_stream i c))"
    "lookup_stream j (erase_stream i c) = (if j = i then None else lookup_stream j c)"
  using streams.remove [OF assms, of i]
  by (auto simp: erase_stream_def lookup_stream_def dest: fun_cong [of _ _ j])

lemma erase_fields [simp]:
  "events (erase_stream i c) = events c" "opened (erase_stream i c) = opened c"
  "leases (erase_stream i c) = leases c" "failed (erase_stream i c) = failed c"
  "received_total (erase_stream i c) = received_total c"
  "credited_total (erase_stream i c) = credited_total c"
  "callback_failure (erase_stream i c) = callback_failure c"
  "push_scratch (erase_stream i c) = push_scratch c" "in_nghttp2 (erase_stream i c) = in_nghttp2 c"
  "reentered (erase_stream i c) = reentered c" "queued (erase_stream i c) = queued c"
  by (simp_all add: erase_stream_def failed_def queued_def)

text \<open>A record leaves without taking debt with it, and then nothing of it is exempt any more.\<close>

lemma calm_erase:
  assumes c: "calm k c" and m: "m = k\<lparr>exempt := exempt k - {i}\<rparr>"
    and debt: "\<And>s. lookup_stream i c = Some s \<Longrightarrow> failed c \<or> window_debt s = 0"
  shows "evolves c (erase_stream i c)" "calm m (erase_stream i c)"
proof -
  have table: "table_ok (streams c)" using c by (simp add: calm_def conn_ok_def)
  note gone = erase_table [where i = i, OF table]
  show "evolves c (erase_stream i c)"
    using gone(2) by (auto simp: evolves_def intro: stream_run_refl)
  have "failed c \<or> debts (streams (erase_stream i c)) = debts (streams c)"
  proof (cases "lookup_stream i c")
    case None
    then show ?thesis
      using streams.total_remove_absent [OF table]
      by (simp add: debts_def erase_stream_def lookup_stream_def)
  next
    case (Some s)
    then show ?thesis
      using streams.total_remove [OF table, of i s "\<lambda>s. unat (window_debt s)"] debt [OF Some]
      by (auto simp: debts_def erase_stream_def lookup_stream_def)
  qed
  then have "balanced (in_flight k) (erase_stream i c)"
    using c by (auto simp: calm_def conn_ok_def balanced_def)
  moreover have "leases_ok (exempt m) (erase_stream i c)"
    using c gone(2) m by (auto simp: calm_def conn_ok_def leases_ok_def lease_ok_def split: if_splits)
  moreover have "record_ok m (erase_stream i c) s" if "lookup_stream j (erase_stream i c) = Some s" for j s
    using c gone(2) that m by (auto simp: calm_def conn_ok_def record_ok_def split: if_splits)
  ultimately show "calm m (erase_stream i c)"
    using c gone(1) m by (auto simp: calm_def conn_ok_def)
qed

subsection \<open>Queued events\<close>

definition add_events :: "u32 list \<Rightarrow> http2_stream_state \<Rightarrow> http2_stream_state" where
  "add_events ids s = s\<lparr>pending_events := pending_events s + count_list ids (stream_id s)\<rparr>"

lemma add_events_run: "stream_run s (add_events ids s)"
proof -
  have "stream_run s (s\<lparr>pending_events := pending_events s + n\<rparr>)" for n
  proof (induction n)
    case 0
    then show ?case using stream_run_refl by simp
  next
    case (Suc n)
    have "stream_step (s\<lparr>pending_events := pending_events s + n\<rparr>)
        (add_pending_event (s\<lparr>pending_events := pending_events s + n\<rparr>))"
      by (rule stream_step.intros)
    then show ?case using stream_run_step [OF Suc] by (simp add: add_pending_event_def)
  qed
  then show ?thesis by (simp add: add_events_def)
qed

abbreviation add_pending :: "u32 list \<Rightarrow> 's h2_connection \<Rightarrow> 's h2_connection" where
  "add_pending ids \<equiv> fold (\<lambda>i. update_stream i add_pending_event) ids"

lemma publish_fold_all:
  fixes c :: "'s h2_connection"
  assumes "table_ok (streams c)"
  shows "table_ok (streams (add_pending ids c)) \<and>
    (\<forall>j. lookup_stream j (add_pending ids c) = map_option (add_events ids) (lookup_stream j c)) \<and>
    debts (streams (add_pending ids c)) = debts (streams c) \<and>
    (\<exists>t. add_pending ids c = c\<lparr>streams := t\<rparr>)"
  using assms
proof (induction ids arbitrary: c)
  case Nil
  have "map_option (add_events []) r = r" for r by (cases r) (simp_all add: add_events_def)
  then show ?case using Nil by (auto intro: exI [of _ "streams c"])
next
  case (Cons i ids)
  have id: "\<And>s. stream_id (add_pending_event s) = stream_id s"
    by (simp add: add_pending_event_def)
  let ?c = "update_stream i add_pending_event c"
  have table: "table_ok (streams ?c)" by (rule update_table(1) [OF Cons.prems id])
  have look: "lookup_stream j ?c = (if j = i then map_option add_pending_event (lookup_stream i c)
      else lookup_stream j c)" for j
    by (rule update_table(2) [OF Cons.prems id])
  have "map_option (add_events ids) (lookup_stream j ?c) =
      map_option (add_events (i # ids)) (lookup_stream j c)" for j
    using look [of j] lookup_id [OF Cons.prems, of j]
    by (cases "lookup_stream j c") (auto simp: add_events_def add_pending_event_def)
  moreover have "debts (streams ?c) = debts (streams c)"
    using update_debts [where f = add_pending_event, OF Cons.prems _ id]
    by (cases "lookup_stream i c") (auto simp: update_absent add_pending_event_def)
  moreover obtain t where "add_pending ids ?c = ?c\<lparr>streams := t\<rparr>"
    using Cons.IH [OF table] by blast
  moreover have "\<exists>u. ?c\<lparr>streams := t\<rparr> = c\<lparr>streams := u\<rparr>"
    by (auto simp: update_stream_def split: option.splits)
  ultimately show ?case using Cons.IH [OF table] by auto
qed

lemma publish_fold:
  fixes c :: "'s h2_connection"
  assumes "table_ok (streams c)"
  shows "table_ok (streams (add_pending ids c))"
    and "lookup_stream j (add_pending ids c) = map_option (add_events ids) (lookup_stream j c)"
    and "debts (streams (add_pending ids c)) = debts (streams c)"
    and "\<exists>t. add_pending ids c = c\<lparr>streams := t\<rparr>"
  using publish_fold_all [OF assms] by auto

lemma calm_publish:
  assumes c: "calm k c" and named: "set (event_streams ev) \<subseteq> set (opened c)"
  shows "evolves c (publish_event ev c)" "calm k (publish_event ev c)"
proof -
  let ?c = "c\<lparr>events := events c @ [ev]\<rparr>"
  have table: "table_ok (streams ?c)" using c by (simp add: calm_def conn_ok_def)
  obtain t where p: "publish_event ev c = ?c\<lparr>streams := t\<rparr>"
    using publish_fold(4) [OF table] by (auto simp: publish_event_def)
  have look: "lookup_stream j (publish_event ev c) =
      map_option (add_events (event_streams ev)) (lookup_stream j c)" for j
    using publish_fold(2) [OF table] by (simp add: publish_event_def lookup_stream_def)
  show "evolves c (publish_event ev c)"
    using look add_events_run p by (auto simp: evolves_def failed_def)
  have rec: "record_ok k (publish_event ev c) (add_events (event_streams ev) s)"
    if s: "lookup_stream i c = Some s" for i s
  proof -
    have "record_ok k c s" using c s by (auto simp: calm_def conn_ok_def)
    moreover from this have "stream_ok (add_events (event_streams ev) s)"
      using stream_ok_run [OF add_events_run] by (simp add: record_ok_def)
    ultimately show ?thesis using p by (simp add: record_ok_def queued_def add_events_def)
  qed
  have w: "waits (add_events ids s)" if "waits s" for ids s
    using that closed_run [OF add_events_run, of s ids]
    by (auto simp: waits_def has_outstanding_def has_pending_events_def add_events_def)
  have "debts (streams (publish_event ev c)) = debts (streams c)"
    using publish_fold(3) [OF table] by (simp add: publish_event_def)
  then have "balanced (in_flight k) (publish_event ev c)"
    using c p by (auto simp: calm_def conn_ok_def balanced_def failed_def)
  moreover have "leases_ok (exempt k) (publish_event ev c)"
  proof -
    have "leases (publish_event ev c) = leases c" "failed (publish_event ev c) = failed c"
      "opened (publish_event ev c) = opened c" using p by (auto simp: failed_def)
    then show ?thesis using c look w
      by (auto simp: calm_def conn_ok_def leases_ok_def lease_ok_def)
  qed
  moreover have "table_ok (streams (publish_event ev c))"
    using publish_fold(1) [OF table] by (simp add: publish_event_def)
  ultimately show "calm k (publish_event ev c)"
    using c p look rec named by (auto simp: calm_def conn_ok_def queued_def)
qed

lemma keeps_publish_none: "event_streams ev = [] \<Longrightarrow> keeps (publish_event ev)"
  unfolding keeps_def using calm_publish by (metis empty_subsetI list.set(1))

lemma live_opened: "calm k c \<Longrightarrow> lookup_stream i c = Some s \<Longrightarrow> i \<in> set (opened c)"
  using lookup_id [of c i s] unfolding calm_def conn_ok_def record_ok_def by blast

subsection \<open>Failing\<close>

lemma connection_failed_fail [simp]: "connection_failed (connection_fail e l)"
  by (simp add: connection_fail_def)

lemma fail_connection_failed [simp]: "failed (fail_connection g e c)"
  by (auto simp: fail_connection_def failed_def)

lemma fail_connection_fields [simp]:
  "streams (fail_connection g e c) = streams c" "leases (fail_connection g e c) = leases c"
  "events (fail_connection g e c) = events c" "opened (fail_connection g e c) = opened c"
  "received_total (fail_connection g e c) = received_total c"
  "credited_total (fail_connection g e c) = credited_total c"
  "in_nghttp2 (fail_connection g e c) = in_nghttp2 c" "reentered (fail_connection g e c) = reentered c"
  "callback_failure (fail_connection g e c) = callback_failure c"
  by (simp_all add: fail_connection_def)

lemma fail_connection_scratch:
  "push_scratch (fail_connection g e c) = push_scratch c \<or> push_scratch (fail_connection g e c) = None"
  by (simp add: fail_connection_def)

lemma fail_connection_core: "same_core c (fail_connection g e c)"
  using fail_connection_scratch by (simp add: same_core_def)

lemma keeps_fail: "keeps (fail_connection g e)"
  by (rule keeps_same_core) (simp_all add: fail_connection_core)

subsection \<open>Sequences\<close>

lemma solid_pre: "evolves c d \<Longrightarrow> solid m d r \<Longrightarrow> solid m c r"
  by (auto simp: solid_def intro: evolves_trans)

lemma steady_pre: "evolves c d \<Longrightarrow> steady m d r \<Longrightarrow> steady m c r"
  by (auto simp: steady_def intro: evolves_trans)

lemma solid_then:
  assumes f: "solid m c (f c)"
    and h: "\<And>d. f c = (None, d) \<Longrightarrow> calm m d \<Longrightarrow> evolves c d \<Longrightarrow> solid m' d (h d)"
    and m: "inside m' = inside m" "uncounted m' = uncounted m"
  shows "solid m' c (then_op f h c)"
proof (cases "f c")
  case (Pair e d)
  show ?thesis
  proof (cases e)
    case None
    then show ?thesis using Pair h [of d] solid_pre solidD [OF f] by (fastforce simp: then_op_def)
  next
    case (Some x)
    then have "failed d" "calm m d" "evolves c d" using solidD [OF f] Pair by auto
    then show ?thesis using Some Pair failed_any m by (auto simp: then_op_def solid_def)
  qed
qed

lemma steady_then:
  assumes f: "steady m c (f c)"
    and h: "\<And>d. f c = (None, d) \<Longrightarrow> calm m d \<Longrightarrow> evolves c d \<Longrightarrow> steady m d (h d)"
  shows "steady m c (then_op f h c)"
proof (cases "f c")
  case (Pair e d)
  show ?thesis
  proof (cases e)
    case None
    then show ?thesis using Pair h [of d] steady_pre f by (fastforce simp: then_op_def steady_def)
  next
    case (Some x)
    then show ?thesis using f Pair by (auto simp: then_op_def steady_def)
  qed
qed

lemma solid_pure: "keeps f \<Longrightarrow> calm k c \<Longrightarrow> solid k c (pure_op f c)"
  by (simp add: pure_op_def solid_keeps)

lemma solid_skip: "calm k c \<Longrightarrow> solid k c (skip c)"
  by (simp add: skip_def solid_refl)

end
