(* ===== verification/H2_Operations.thy ===== *)
theory H2_Operations
  imports H2_Invariant
begin

text \<open>
  That every operation of the connection keeps the invariant of \<open>H2_Invariant\<close>, from the mutators
  of a record up to leases, credits and events.
\<close>

subsection \<open>Mutators\<close>

lemma quiet_mutators:
  "quiet (set_pinned b)" "quiet (reserve_push r)" "quiet activate_push"
  "quiet mark_informational_response" "quiet await_request_continue"
  "quiet begin_local_content_forbidden" "quiet begin_local_content_unbounded"
  "quiet (begin_local_content_known_length m)"
  "quiet (snd \<circ> release_peer_concurrency_slot)" "quiet (snd \<circ> hold_peer_concurrency_slot)"
  "quiet (snd \<circ> set_response_status code)" "quiet (snd \<circ> declare_remote_content_length m)"
  "quiet (snd \<circ> select_remote_content_metadata_only)" "quiet (snd \<circ> account_remote_content m)"
  "quiet (snd \<circ> release_request_continue)" "quiet (snd \<circ> cancel_pending_request_continue)"
  by (rule quietI; (simp only: comp_apply)?; (rule stream_step.intros | simp add: h2_defs))+

lemma quiet_send:
  "quiet (snd \<circ> begin_local_request_content)" "quiet (snd \<circ> begin_local_response_content)"
  "quiet (snd \<circ> commit_local_head_end_stream)" "quiet (snd \<circ> begin_local_connect_request)"
  "quiet (snd \<circ> open_local_connect_tunnel)" "quiet (snd \<circ> reject_local_connect)"
  "quiet (snd \<circ> commit_local_end_stream)"
  by (rule quietI; (simp only: comp_apply)?; (rule stream_step.intros | simp add: h2_defs))+

lemma quiet_remote:
  "quiet (snd \<circ> record_remote_head_end_stream)" "quiet (snd \<circ> finalize_remote_content_head)"
  "quiet (snd \<circ> finalize_remote_connect_head)" "quiet (snd \<circ> finish_remote_content)"
  "quiet (snd \<circ> mark_remote_connect_tunnel_data)" "quiet (snd \<circ> finish_remote_pending_connect)"
  "quiet (snd \<circ> finish_remote_tunnel)" "quiet (snd \<circ> finish_remote_rejected_connect)"
  by (rule quietI; (simp only: comp_apply)?; (rule stream_step.intros | simp add: h2_defs))+

lemma quiet_compound:
  "quiet (snd \<circ> stream_abort src)" "quiet (snd \<circ> accept_connect)" "quiet (snd \<circ> reject_connect)"
  by (rule quietI; (simp only: comp_apply)?;
    (rule stream_step.intros | simp add: stream_abort_eq accept_connect_eq reject_connect_eq))+

lemma quiet_begin_tunnel: "quiet (snd \<circ> on_tunnel (tunnel_begin form))"
proof (cases form)
  case Standard
  have "quiet (snd \<circ> begin_standard_connect)"
    by (rule quietI; (simp only: comp_apply)?; (rule stream_step.intros | simp add: h2_defs))
  then show ?thesis using Standard by (simp add: begin_standard_connect_def [abs_def] comp_def)
next
  case Extended
  have "quiet (snd \<circ> begin_extended_connect)"
    by (rule quietI; (simp only: comp_apply)?; (rule stream_step.intros | simp add: h2_defs))
  then show ?thesis using Extended by (simp add: begin_extended_connect_def [abs_def] comp_def)
qed

lemmas quiet_rules = quiet_mutators quiet_send quiet_remote quiet_compound quiet_begin_tunnel

lemma quiet_id: "quiet (\<lambda>s. s)"
  by (simp add: quiet_at_def stream_run_refl)

lemma quiet_comp2: "quiet f \<Longrightarrow> quiet h \<Longrightarrow> quiet (\<lambda>s. h (f s))"
  using quiet_comp [of f h] by (simp add: comp_def)

subsection \<open>Simple updates of the connection\<close>

lemma keeps_erase_priority: "keeps (erase_priority i)"
  by (rule keeps_same_core) (simp_all add: erase_priority_def same_core_def failed_def)

lemma keeps_release_local: "keeps (release_local_request_stream i)"
  unfolding keeps_def
proof (intro allI impI)
  fix k and c :: "'a h2_connection"
  assume c: "calm k c"
  note up = keepsD [OF keeps_update [OF quiet_mutators(9)] c, of i]
  have core: "same_core d (d\<lparr>active_local_requests := n\<rparr>)" for d :: "'a h2_connection" and n
    by (simp add: same_core_def failed_def)
  have "evolves d (d\<lparr>active_local_requests := n\<rparr>) \<and> calm k (d\<lparr>active_local_requests := n\<rparr>)"
    if "calm k d" for d :: "'a h2_connection" and n
    using that same_core_evolves [OF core] same_core_ok [OF core] by (simp add: calm_def)
  then show "evolves c (release_local_request_stream i c) \<and> calm k (release_local_request_stream i c)"
    using c up evolves_trans
    by (fastforce simp: release_local_request_stream_def Let_def evolves_refl split: option.splits)
qed

lemma keeps_release_local_if_closed: "keeps (release_local_request_stream_if_closed i)"
  using keeps_release_local keeps_id
  by (auto simp: keeps_def release_local_request_stream_if_closed_def split: option.splits)

lemma keeps_pin: "keeps (pin_stream i)"
  using keeps_update [OF quiet_mutators(1)] by (simp add: pin_stream_def [abs_def])

lemma calm_waits:
  assumes c: "calm k c" and w: "\<And>s. lookup_stream i c = Some s \<Longrightarrow> waits s"
  shows "calm (k\<lparr>exempt := exempt k - {i}\<rparr>) c"
proof -
  have "leases_ok (exempt k - {i}) c"
    using c w unfolding calm_def conn_ok_def leases_ok_def lease_ok_def by fastforce
  moreover have "record_ok (k\<lparr>exempt := exempt k - {i}\<rparr>) c s = record_ok k c s" for s
    by (simp add: record_ok_def)
  ultimately show ?thesis using c unfolding calm_def conn_ok_def by auto
qed

subsection \<open>Calls to nghttp2\<close>

text \<open>
  nghttp2 documents that these calls fail only for lack of memory: the automatic window update is
  off and no identifier is 0.
\<close>

definition fatal_code :: "'s nghttp2 \<Rightarrow> int \<Rightarrow> bool" where
  "fatal_code g rc \<longleftrightarrow> (rc < 0 \<longrightarrow> ng_kind g rc = Ng_nomem \<or> ng_is_fatal g rc)"

definition credit_calls_ok :: "'s nghttp2 \<Rightarrow> bool" where
  "credit_calls_ok g \<longleftrightarrow>
     (\<forall>i n s. i \<noteq> 0 \<longrightarrow> fatal_code g (fst (ng_consume g i n s))) \<and>
     (\<forall>n s. fatal_code g (fst (ng_consume_connection g n s))) \<and>
     (\<forall>i e s. i \<noteq> 0 \<longrightarrow> fatal_code g (fst (ng_submit_rst_stream g i e s)))"

lemma check_result: "fst (check_nghttp2 g rc c) = None \<longleftrightarrow> rc \<ge> 0"
  by (auto simp: check_nghttp2_def then_op_def split: option.splits prod.splits)

lemma check_ok [simp]: "rc \<ge> 0 \<Longrightarrow> check_nghttp2 g rc c = (None, c)"
  by (simp add: check_nghttp2_def)

lemma fail_on_state:
  "snd (fail_on_nghttp2_error g rc c) =
     fail_connection g (failure_code (ng_kind g rc)) (c\<lparr>callback_failure := None\<rparr>)"
  by (simp add: fail_on_nghttp2_error_def Let_def split: option.splits)

lemma check_state:
  "snd (check_nghttp2 g rc c) = c \<or>
   snd (check_nghttp2 g rc c) =
     fail_connection g (failure_code (ng_kind g rc)) (c\<lparr>callback_failure := None\<rparr>)"
  using fail_on_state [of g rc c]
  by (auto simp: check_nghttp2_def then_op_def split: option.splits prod.splits)

lemma check_failed:
  assumes "fatal_code g rc" "rc < 0"
  shows "failed (snd (check_nghttp2 g rc c))"
proof -
  have "snd (check_nghttp2 g rc c) =
      fail_connection g (failure_code (ng_kind g rc)) (c\<lparr>callback_failure := None\<rparr>)"
    using assms fail_on_state [of g rc c]
    by (auto simp: check_nghttp2_def fatal_code_def then_op_def split: option.splits prod.splits)
  then show ?thesis by simp
qed

lemma same_core_refl: "same_core c c"
  by (simp add: same_core_def)

lemma check_core:
  assumes "callback_failure c = None"
  shows "same_core c (snd (check_nghttp2 g rc c))" "callback_failure (snd (check_nghttp2 g rc c)) = None"
proof -
  have same: "c\<lparr>callback_failure := None\<rparr> = c" using assms by simp
  have "same_core c (snd (check_nghttp2 g rc c)) \<and> callback_failure (snd (check_nghttp2 g rc c)) = None"
    using check_state [of g rc c] fail_connection_core [of c g] assms same_core_refl [of c]
    unfolding same by (metis fail_connection_fields(9))
  then show "same_core c (snd (check_nghttp2 g rc c))" "callback_failure (snd (check_nghttp2 g rc c)) = None"
    by auto
qed

lemma steady_check: "calm k c \<Longrightarrow> steady k c (check_nghttp2 g rc c)"
  using check_core [of c g rc] same_core_evolves same_core_ok by (auto simp: steady_def calm_def)

lemma solid_check: "calm k c \<Longrightarrow> fatal_code g rc \<Longrightarrow> solid k c (check_nghttp2 g rc c)"
  using steady_check [of k c g rc] check_failed [of g rc c] check_result [of g rc c]
  by (auto simp: steady_def solid_def)

lemma calm_session: "calm k c \<Longrightarrow> calm k (c\<lparr>session := s\<rparr>) \<and> evolves c (c\<lparr>session := s\<rparr>)"
  using same_core_ok [of c "c\<lparr>session := s\<rparr>"] same_core_evolves [of c "c\<lparr>session := s\<rparr>"]
  by (simp add: calm_def same_core_def failed_def)

lemma steady_call:
  assumes "calm k c"
  shows "steady k c (call_session g f c)"
proof (cases "f (session c)")
  case (Pair rc s)
  have "calm k (c\<lparr>session := s\<rparr>)" "evolves c (c\<lparr>session := s\<rparr>)"
    using calm_session [OF assms] by auto
  then show ?thesis using Pair steady_check steady_pre by (simp add: call_session_def) blast
qed

lemma solid_call:
  assumes "calm k c" "fatal_code g (fst (f (session c)))"
  shows "solid k c (call_session g f c)"
proof (cases "f (session c)")
  case (Pair rc s)
  have "calm k (c\<lparr>session := s\<rparr>)" "evolves c (c\<lparr>session := s\<rparr>)"
    using calm_session [OF assms(1)] by auto
  moreover have "fatal_code g rc" using Pair assms(2) by simp
  ultimately show ?thesis
    using Pair solid_check solid_pre by (simp add: call_session_def) blast
qed

subsection \<open>Receive credit\<close>

text \<open>Bytes credited to nghttp2 are no longer in flight.\<close>

lemma conn_ok_credited:
  assumes "conn_ok k c" "in_flight k = in_flight m + n" "exempt m = exempt k" "uncounted m = uncounted k"
    "inside m = inside k"
  shows "conn_ok m (c\<lparr>session := s, credited_total := credited_total c + n\<rparr>)"
  using assms unfolding conn_ok_def record_ok_def queued_def lookup_stream_def balanced_def
    leases_ok_def lease_ok_def failed_def by auto

lemma credited_evolves: "evolves c (c\<lparr>session := s, credited_total := n\<rparr>)"
  by (auto simp: evolves_def failed_def lookup_stream_def intro: stream_run_refl)

text \<open>One call that credits \<open>n\<close> bytes, or fails the connection.\<close>

lemma solid_credit:
  assumes c: "calm k c" and rc: "fatal_code g rc"
    and m: "m = k\<lparr>in_flight := in_flight k - n\<rparr>" "n \<le> in_flight k"
  shows "solid m c (check_nghttp2 g rc (c\<lparr>session := s,
    credited_total := credited_total c + (if rc \<ge> 0 then n else 0)\<rparr>))"
proof (cases "rc \<ge> 0")
  case True
  have "conn_ok m (c\<lparr>session := s, credited_total := credited_total c + n\<rparr>)"
    by (rule conn_ok_credited [of k]) (use c m in \<open>auto simp: calm_def\<close>)
  then show ?thesis using True c credited_evolves by (simp add: solid_def calm_def)
next
  case False
  then have "solid k c (check_nghttp2 g rc (c\<lparr>session := s\<rparr>))"
    using solid_check [OF _ rc] calm_session [OF c] solid_pre by blast
  moreover have "failed (snd (check_nghttp2 g rc (c\<lparr>session := s\<rparr>)))"
    using check_failed [OF rc] False by simp
  ultimately have "solid m c (check_nghttp2 g rc (c\<lparr>session := s\<rparr>))"
    using failed_any [of _ k m] m by (auto simp: solid_def)
  then show ?thesis using False by simp
qed

lemma solid_consume:
  assumes g: "credit_calls_ok g" and c: "calm k c" and i: "i \<noteq> 0"
    and m: "m = k\<lparr>in_flight := in_flight k - n\<rparr>" "n \<le> in_flight k"
  shows "solid m c (consume_received g i n c)"
proof -
  obtain rc s where call: "ng_consume g i n (session c) = (rc, s)" by fastforce
  have rc: "fatal_code g rc" using g i call unfolding credit_calls_ok_def by (metis fst_conv)
  show ?thesis
  proof (cases "n = 0 \<or> failed c")
    case True
    then have "calm m c" using failed_any [OF _ c, of m] c m by auto
    then show ?thesis using True solid_refl by (auto simp: consume_received_def)
  next
    case False
    then have "consume_received g i n c = check_nghttp2 g rc (c\<lparr>session := s,
        credited_total := credited_total c + (if rc \<ge> 0 then n else 0)\<rparr>)"
      by (simp add: consume_received_def call)
    then show ?thesis using solid_credit [OF c rc m] by simp
  qed
qed

lemma take_all_run: "stream_run s (snd (take_all_window_debt s))"
  by (rule stream_run_step [OF stream_run_refl], rule stream_step.intros)

text \<open>The debt of a record turns into bytes in flight, which are credited at once.\<close>

lemma take_debt_calm:
  assumes c: "calm k c" and s: "lookup_stream i c = Some s"
    and m: "m = k\<lparr>in_flight := in_flight k + unat (window_debt s), exempt := insert i (exempt k)\<rparr>"
  shows "calm m (update_stream i (snd \<circ> take_all_window_debt) c)"
    "evolves c (update_stream i (snd \<circ> take_all_window_debt) c)"
  using conn_ok_update [where f = "snd \<circ> take_all_window_debt" and k = k and m = m, OF _ s] c m
    take_all_run [of s]
  by (auto simp: calm_def take_all_window_debt_def)

lemma solid_flush_debt:
  assumes g: "credit_calls_ok g" and c: "calm k c"
  shows "solid (k\<lparr>exempt := insert i (exempt k)\<rparr>) c (flush_window_debt g i c)"
proof (cases "lookup_stream i c")
  case None
  then show ?thesis
    using solid_refl [OF calm_weaken [OF c]] by (simp add: flush_window_debt_def subset_insertI)
next
  case (Some s)
  let ?n = "unat (window_debt s)"
  let ?k = "k\<lparr>in_flight := in_flight k + ?n, exempt := insert i (exempt k)\<rparr>"
  let ?c = "update_stream i (snd \<circ> take_all_window_debt) c"
  have taken: "calm ?k ?c" "evolves c ?c" using take_debt_calm [OF c Some refl] by auto
  have m: "k\<lparr>exempt := insert i (exempt k)\<rparr> = ?k\<lparr>in_flight := in_flight ?k - ?n\<rparr>" by simp
  obtain rc t where call: "ng_consume_connection g ?n (session ?c) = (rc, t)" by fastforce
  have rc: "fatal_code g rc" using g call unfolding credit_calls_ok_def by (metis fst_conv)
  have "solid (k\<lparr>exempt := insert i (exempt k)\<rparr>) ?c (flush_window_debt g i c)"
  proof (cases "?n = 0 \<or> failed ?c")
    case True
    then have "calm (k\<lparr>exempt := insert i (exempt k)\<rparr>) ?c"
      using failed_any [OF _ taken(1), of "k\<lparr>exempt := insert i (exempt k)\<rparr>"] taken(1) by auto
    moreover have "flush_window_debt g i c = (None, ?c)"
      using True Some by (auto simp: flush_window_debt_def take_all_window_debt_def)
    ultimately show ?thesis using solid_refl by simp
  next
    case False
    then have "flush_window_debt g i c = check_nghttp2 g rc (?c\<lparr>session := t,
        credited_total := credited_total ?c + (if rc \<ge> 0 then ?n else 0)\<rparr>)"
      using Some call by (auto simp: flush_window_debt_def take_all_window_debt_def Let_def)
    then show ?thesis using solid_credit [OF taken(1) rc m] by simp
  qed
  then show ?thesis using taken(2) solid_pre by blast
qed

lemma flush_debt_zero:
  assumes "table_ok (streams c)" "lookup_stream i (snd (flush_window_debt g i c)) = Some s"
  shows "window_debt s = 0"
proof -
  have "lookup_stream i (update_stream i (snd \<circ> take_all_window_debt) c) =
      map_option (snd \<circ> take_all_window_debt) (lookup_stream i c)"
    using update_table(2) [OF assms(1), of i "snd \<circ> take_all_window_debt" i]
    by (simp add: take_all_window_debt_def)
  moreover have "streams (snd (check_nghttp2 g rc d)) = streams d" for rc and d :: "'a h2_connection"
    using check_state [of g rc d] by auto
  ultimately show ?thesis
    using assms(2)
    by (auto simp: flush_window_debt_def lookup_stream_def Let_def take_all_window_debt_def
        split: option.splits prod.splits if_splits)
qed

text \<open>Acknowledging bytes credits them first and lowers the debt afterwards.\<close>

lemma update_session_credit:
  "update_stream i f (c\<lparr>session := s, credited_total := n\<rparr>) =
     (update_stream i f c)\<lparr>session := s, credited_total := n\<rparr>"
  by (auto simp: update_stream_def lookup_stream_def split: option.splits)

lemma take_debt_run: "stream_run s (snd (take_window_debt n s))"
  by (rule stream_run_step [OF stream_run_refl], rule stream_step.intros)

lemma take_part_calm:
  assumes c: "calm k c" and s: "lookup_stream i c = Some s" and n: "n \<noteq> 0" "n \<le> window_debt s"
    and m: "failed c \<or> in_flight m = in_flight k + unat n" "exempt m = insert i (exempt k)"
      "uncounted m = uncounted k" "inside m = inside k"
  shows "calm m (update_stream i (snd \<circ> take_window_debt n) c)"
    "evolves c (update_stream i (snd \<circ> take_window_debt n) c)"
proof -
  have "unat n \<le> unat (window_debt s)" using n(2) by (simp add: word_le_nat_alt)
  moreover have "window_debt (snd (take_window_debt n s)) = window_debt s - n"
    using n by (auto simp: take_window_debt_def)
  ultimately have debt: "unat (window_debt s) = unat n + unat (window_debt (snd (take_window_debt n s)))"
    using n(2) by (simp add: unat_sub)
  have fields: "stream_id (snd (take_window_debt n s)) = stream_id s"
    "pending_events (snd (take_window_debt n s)) = pending_events s"
    by (simp_all add: take_window_debt_def)
  show "calm m (update_stream i (snd \<circ> take_window_debt n) c)"
    "evolves c (update_stream i (snd \<circ> take_window_debt n) c)"
    using conn_ok_update [where f = "snd \<circ> take_window_debt n" and k = k and m = m, OF _ s] c m fields
      take_debt_run [of s n] debt
    by (auto simp: calm_def subset_insertI)
qed

definition sum_op ::
  "(h2_exception + 'a) \<times> 's h2_connection \<Rightarrow> h2_exception option \<times> 's h2_connection" where
  "sum_op r = (case r of (Inl e, c) \<Rightarrow> (Some e, c) | (Inr _, c) \<Rightarrow> (None, c))"

lemma discard_sum: "discard f c = sum_op (f c)"
  by (simp add: discard_def sum_op_def)

lemma sum_op_simps [simp]:
  "sum_op (Inl e, c) = (Some e, c)" "sum_op (Inr x, c) = (None, c)" "snd (sum_op r) = snd r"
  by (auto simp: sum_op_def split: prod.splits sum.splits)

lemma solid_release_data:
  assumes g: "credit_calls_ok g" and c: "calm k c"
  shows "solid (k\<lparr>exempt := insert i (exempt k)\<rparr>) c (sum_op (release_received_data g i n c))"
proof (cases "lookup_stream i c")
  case None
  then show ?thesis
    using solid_refl [OF calm_weaken [OF c]] by (simp add: release_received_data_def subset_insertI)
next
  case (Some s)
  let ?m = "k\<lparr>exempt := insert i (exempt k)\<rparr>"
  have m: "calm ?m c" by (rule calm_weaken [OF c]) auto
  show ?thesis
  proof (cases "n = 0 \<or> n > window_debt s")
    case True
    then show ?thesis using Some solid_refl [OF m] by (auto simp: release_received_data_def)
  next
    case False
    then have n: "n \<noteq> 0" "n \<le> window_debt s" "unat n \<noteq> 0" by (auto simp: unat_eq_0)
    have i: "i \<noteq> 0" using Some find_nonzero by (auto simp: lookup_stream_def)
    let ?take = "update_stream i (snd \<circ> take_window_debt n)"
    show ?thesis
    proof (cases "failed c")
      case True
      then have "consume_received g i (unat n) c = (None, c)" by (simp add: consume_received_def)
      moreover have "calm ?m (?take c)" "evolves c (?take c)"
        using take_part_calm [OF c Some n(1,2), of ?m] True by auto
      ultimately show ?thesis using Some False
        by (simp add: release_received_data_def solid_def)
    next
      case live: False
      obtain rc t where call: "ng_consume g i (unat n) (session c) = (rc, t)" by fastforce
      have rc: "fatal_code g rc" using g i call unfolding credit_calls_ok_def by (metis fst_conv)
      show ?thesis
      proof (cases "rc \<ge> 0")
        case True
        let ?k = "?m\<lparr>in_flight := in_flight k + unat n\<rparr>"
        have "calm ?k (?take c)" "evolves c (?take c)"
          using take_part_calm [OF c Some n(1,2), of ?k] by auto
        then have "conn_ok ?m ((?take c)\<lparr>session := t,
            credited_total := credited_total (?take c) + unat n\<rparr>)"
          using conn_ok_credited [of ?k "?take c" ?m "unat n" t] by (simp add: calm_def)
        then have "calm ?m (?take (c\<lparr>session := t, credited_total := credited_total c + unat n\<rparr>))"
          using c by (simp add: update_session_credit calm_def)
        moreover have "evolves c (?take (c\<lparr>session := t, credited_total := credited_total c + unat n\<rparr>))"
          unfolding update_session_credit
          by (rule evolves_trans [OF \<open>evolves c (?take c)\<close> credited_evolves])
        moreover have "consume_received g i (unat n) c =
            (None, c\<lparr>session := t, credited_total := credited_total c + unat n\<rparr>)"
          using live n True by (simp add: consume_received_def call)
        ultimately show ?thesis using Some False by (simp add: release_received_data_def solid_def)
      next
        case neg: False
        have cons: "consume_received g i (unat n) c = check_nghttp2 g rc (c\<lparr>session := t\<rparr>)"
          using live n neg by (simp add: consume_received_def call)
        have "fst (consume_received g i (unat n) c) \<noteq> None"
          unfolding cons using check_result [of g rc "c\<lparr>session := t\<rparr>"] neg by simp
        then obtain e d where thrown: "consume_received g i (unat n) c = (Some e, d)"
          by (metis prod.collapse option.exhaust)
        have "solid ?m c (Some e, d)"
          using solid_pre [OF _ solid_check [OF _ rc]] calm_session [OF m] cons thrown by metis
        then show ?thesis using Some False thrown by (simp add: release_received_data_def)
      qed
    qed
  qed
qed

subsection \<open>Closing and resetting streams\<close>

lemma aborted_closed: "is_aborted s \<Longrightarrow> stream_is_closed s"
  by (simp add: stream_is_closed_def)

lemma closed_waits: "stream_is_closed s \<Longrightarrow> waits s"
  by (simp add: waits_def)

lemma abort_aborted: "stream_ok s \<Longrightarrow> is_aborted (snd (stream_abort src s))"
  by (auto simp: stream_abort_eq is_aborted_def stream_ok_def halves_agree_def)

lemma calm_stream_ok: "calm k c \<Longrightarrow> lookup_stream i c = Some s \<Longrightarrow> stream_ok s"
  by (simp add: calm_def conn_ok_def record_ok_def)

lemma calm_table: "calm k c \<Longrightarrow> table_ok (streams c)"
  by (simp add: calm_def conn_ok_def)

lemma quiet_id_kept: "quiet f \<Longrightarrow> stream_id (f s) = stream_id s"
  by (simp add: quiet_at_def)

lemma lookup_quiet:
  assumes "calm k c" "quiet f"
  shows "lookup_stream j (update_stream i f c) =
    (if j = i then map_option f (lookup_stream i c) else lookup_stream j c)"
  by (rule update_table(2)) (use assms calm_table quiet_id_kept in auto)

lemma lookup_publish:
  assumes "table_ok (streams c)"
  shows "lookup_stream j (publish_event ev c) = map_option (add_events (event_streams ev)) (lookup_stream j c)"
  using publish_fold(2) [of "c\<lparr>events := events c @ [ev]\<rparr>"] assms
  by (simp add: publish_event_def lookup_stream_def)

lemma add_events_fields [simp]:
  "is_aborted (add_events ids s) = is_aborted s" "pinned (add_events ids s) = pinned s"
  "stream_is_closed (add_events ids s) = stream_is_closed s"
  "remote_receive (add_events ids s) = remote_receive s" "tunnel (add_events ids s) = tunnel s"
  "local_send (add_events ids s) = local_send s" "stream_id (add_events ids s) = stream_id s"
  by (simp_all add: add_events_def is_aborted_def stream_is_closed_def)

text \<open>A live record stays live through the updates before a close.\<close>

lemma lookup_release_local:
  assumes "calm k c"
  shows "lookup_stream j (release_local_request_stream i c) =
    (if j = i then map_option (snd \<circ> release_peer_concurrency_slot) (lookup_stream i c)
     else lookup_stream j c)"
  using lookup_quiet [OF assms quiet_mutators(9)]
  by (cases "lookup_stream i c") (auto simp: release_local_request_stream_def Let_def lookup_stream_def)

lemma lookup_erase_priority [simp]: "lookup_stream j (erase_priority i c) = lookup_stream j c"
  by (simp add: erase_priority_def lookup_stream_def)

text \<open>The part of a close before the record may be removed.\<close>

definition closing ::
  "u32 \<Rightarrow> http2_stream_close_source \<Rightarrow> u32 \<Rightarrow> bool \<Rightarrow> 's h2_connection \<Rightarrow> 's h2_connection" where
  "closing i src error_code emit c =
     (let c4 = update_stream i (snd \<circ> stream_abort src) (erase_priority i
        (release_local_request_stream i (if block_on i c then c\<lparr>header_block := None\<rparr> else c)))
      in if emit then publish_event (Stream_closed i src error_code) c4 else c4)"

lemma close_stream_impl_eq:
  "close_stream_impl g i src error_code emit c =
     (case lookup_stream i c of
        None \<Rightarrow> (Inr False, c)
      | Some s \<Rightarrow>
          if is_aborted s then (Inr False, c)
          else if pinned s then (Inr True, closing i src error_code emit c)
          else (case flush_window_debt g i (closing i src error_code emit c) of
              (Some e, c6) \<Rightarrow> (Inl e, c6)
            | (None, c6) \<Rightarrow> (Inr True, erase_stream i c6)))"
  by (simp add: close_stream_impl_def closing_def Let_def split: option.splits)

lemma keeps_header_block: "keeps (\<lambda>c. c\<lparr>header_block := b\<rparr>)"
  by (rule keeps_same_core) (simp_all add: same_core_def failed_def)

lemma closing_calm:
  assumes c: "calm k c" and s: "lookup_stream i c = Some s"
  shows "calm k (closing i src e emit c)" "evolves c (closing i src e emit c)"
    "\<exists>t. lookup_stream i (closing i src e emit c) = Some t \<and> is_aborted t \<and> pinned t = pinned s"
proof -
  let ?c1 = "if block_on i c then c\<lparr>header_block := None\<rparr> else c"
  let ?c2 = "release_local_request_stream i ?c1"
  let ?c3 = "erase_priority i ?c2"
  let ?c4 = "update_stream i (snd \<circ> stream_abort src) ?c3"
  have c1: "calm k ?c1" "evolves c ?c1" using keepsD [OF keeps_header_block c] c evolves_refl by auto
  have c2: "calm k ?c2" "evolves c ?c2"
    using keepsD [OF keeps_release_local c1(1)] c1(2) evolves_trans by blast+
  have c3: "calm k ?c3" "evolves c ?c3"
    using keepsD [OF keeps_erase_priority c2(1)] c2(2) evolves_trans by blast+
  have c4: "calm k ?c4" "evolves c ?c4"
    using keepsD [OF keeps_update [OF quiet_compound(1)] c3(1)] c3(2) evolves_trans by blast+
  have s1: "lookup_stream i ?c1 = Some s" using s by (simp add: lookup_stream_def)
  have s3: "lookup_stream i ?c3 = Some (snd (release_peer_concurrency_slot s))"
    using lookup_release_local [OF c1(1)] s1 by simp
  have s4: "lookup_stream i ?c4 = Some (snd (stream_abort src (snd (release_peer_concurrency_slot s))))"
    using lookup_quiet [OF c3(1) quiet_compound(1)] s3 by simp
  have "stream_ok (snd (release_peer_concurrency_slot s))" by (rule calm_stream_ok [OF c3(1) s3])
  then have ab: "is_aborted (snd (stream_abort src (snd (release_peer_concurrency_slot s))))"
    by (rule abort_aborted)
  have pin: "pinned (snd (stream_abort src (snd (release_peer_concurrency_slot s)))) = pinned s"
    by (simp add: stream_abort_eq release_peer_concurrency_slot_def)
  have named: "set (event_streams (Stream_closed i src e)) \<subseteq> set (opened ?c4)"
    using live_opened [OF c4(1) s4] by simp
  note pub = calm_publish [OF c4(1) named]
  note look = lookup_publish [OF calm_table [OF c4(1)], of i "Stream_closed i src e"]
  show "calm k (closing i src e emit c)"
    using pub(2) c4(1) by (simp add: closing_def Let_def)
  show "evolves c (closing i src e emit c)"
    using evolves_trans [OF c4(2) pub(1)] c4(2) by (simp add: closing_def Let_def)
  show "\<exists>t. lookup_stream i (closing i src e emit c) = Some t \<and> is_aborted t \<and> pinned t = pinned s"
    using look s4 ab pin by (cases emit) (simp_all add: closing_def Let_def)
qed

text \<open>After a close, a deferred release of the stream waits for nothing it should not.\<close>

lemma solid_close:
  assumes g: "credit_calls_ok g" and c: "calm k c"
  shows "solid (k\<lparr>exempt := exempt k - {i}\<rparr>) c (sum_op (close_stream_impl g i src e emit c))"
proof (cases "lookup_stream i c")
  case None
  then show ?thesis using solid_refl [OF calm_waits [OF c, of i]] by (simp add: close_stream_impl_eq)
next
  case (Some s)
  show ?thesis
  proof (cases "is_aborted s")
    case True
    then show ?thesis
      using Some solid_refl [OF calm_waits [OF c, of i]] aborted_closed closed_waits
      by (simp add: close_stream_impl_eq)
  next
    case live: False
    let ?c = "closing i src e emit c"
    note closed = closing_calm [OF c Some, where src = src and e = e and emit = emit]
    show ?thesis
    proof (cases "pinned s")
      case True
      have "calm (k\<lparr>exempt := exempt k - {i}\<rparr>) ?c"
        by (rule calm_waits [OF closed(1)]) (use closed(3) aborted_closed closed_waits in auto)
      then show ?thesis using True live Some closed(2) by (simp add: close_stream_impl_eq solid_def)
    next
      case False
      obtain r d where fl: "flush_window_debt g i ?c = (r, d)" by fastforce
      have f: "solid (k\<lparr>exempt := insert i (exempt k)\<rparr>) ?c (r, d)"
        using solid_flush_debt [OF g closed(1), of i] fl by simp
      have zero: "window_debt t = 0" if "lookup_stream i d = Some t" for t
        using flush_debt_zero [OF calm_table [OF closed(1)], of i g] fl that by auto
      show ?thesis
      proof (cases r)
        case None
        have d: "calm (k\<lparr>exempt := insert i (exempt k)\<rparr>) d" "evolves c d"
          using f closed(2) evolves_trans by (auto simp: solid_def)
        have "k\<lparr>exempt := exempt k - {i}\<rparr> = (k\<lparr>exempt := insert i (exempt k)\<rparr>)
            \<lparr>exempt := exempt (k\<lparr>exempt := insert i (exempt k)\<rparr>) - {i}\<rparr>" by simp
        note gone = calm_erase [OF d(1) this] 
        have "calm (k\<lparr>exempt := exempt k - {i}\<rparr>) (erase_stream i d)" "evolves d (erase_stream i d)"
          using gone zero by auto
        then show ?thesis using None fl False live Some evolves_trans [OF d(2)]
          by (simp add: close_stream_impl_eq solid_def)
      next
        case (Some x)
        then have d: "failed d" "calm (k\<lparr>exempt := insert i (exempt k)\<rparr>) d" "evolves c d"
          using f closed(2) evolves_trans by (auto simp: solid_def)
        then have "calm (k\<lparr>exempt := exempt k - {i}\<rparr>) d" using failed_any by fastforce
        then show ?thesis using Some fl False live \<open>lookup_stream i c = Some s\<close> d
          by (simp add: close_stream_impl_eq solid_def)
      qed
    qed
  qed
qed

lemma keeps_owner_reset: "keeps (\<lambda>c. c\<lparr>owner_resets := owner_resets c @ [i]\<rparr>)"
  by (rule keeps_same_core) (simp_all add: same_core_def failed_def)

lemma keep_mode [simp]: "k\<lparr>exempt := exempt k\<rparr> = k"
  by simp

lemma solid_owner_reset:
  assumes g: "credit_calls_ok g" and c: "calm k c" and i: "i \<noteq> 0"
  shows "solid k c (submit_owner_reset g i e c)"
proof -
  note core = keepsD [OF keeps_owner_reset c, of i]
  have "solid k c (call_session g (ng_submit_rst_stream g i e) (c\<lparr>owner_resets := owner_resets c @ [i]\<rparr>))"
    by (rule solid_pre [OF _ solid_call]) (use core g i in \<open>auto simp: credit_calls_ok_def\<close>)
  then show ?thesis using solid_refl [OF c] by (simp add: submit_owner_reset_def)
qed

lemma solid_peer_reset:
  assumes g: "credit_calls_ok g" and c: "calm k c" and i: "i \<noteq> 0"
  shows "solid (k\<lparr>exempt := exempt k - {i}\<rparr>) c (reset_stream_for_peer_error g i e c)"
  unfolding reset_stream_for_peer_error_def
proof (rule solid_then)
  show "solid k c (call_session g (ng_submit_rst_stream g i e) c)"
    by (rule solid_call [OF c]) (use g i in \<open>simp add: credit_calls_ok_def\<close>)
qed (simp_all add: discard_sum close_stream_def solid_close [OF g])

lemma solid_cancel_push:
  assumes g: "credit_calls_ok g" and c: "calm k c"
  shows "solid k c (cancel_push_promise_on g i c)"
proof -
  have "solid k c (submit_owner_reset g (stream_id s) cancel_error (c\<lparr>header_block := None, push_scratch := None\<rparr>))"
    if s: "push_scratch c = Some s" for s
  proof -
    let ?c = "c\<lparr>header_block := None, push_scratch := None\<rparr>"
    have "same_core c ?c" by (simp add: same_core_def failed_def)
    then have "calm k ?c" "evolves c ?c" using c same_core_ok same_core_evolves by (auto simp: calm_def)
    moreover have "stream_id s \<noteq> 0" using c s by (simp add: calm_def conn_ok_def)
    ultimately show ?thesis using solid_owner_reset [OF g] solid_pre by blast
  qed
  then show ?thesis using solid_refl [OF c]
    by (auto simp: cancel_push_promise_on_def split: option.splits header_block_type.splits)
qed

text \<open>Sending is solid outside nghttp2, when no stream is exempt. The theory of the runs of nghttp2
  discharges this; inside nghttp2 nothing below sends.\<close>

definition sends :: "'s nghttp2 \<Rightarrow> mode \<Rightarrow> bool" where
  "sends g k \<longleftrightarrow> (\<not> inside k \<longrightarrow>
     (\<forall>m c. inside m = inside k \<longrightarrow> exempt m = {} \<longrightarrow> calm m c \<longrightarrow> solid m c (flush_session g c)))"

lemma sends_cong: "sends g k \<Longrightarrow> inside m = inside k \<Longrightarrow> sends g m"
  by (simp add: sends_def)

lemma sendsD: "sends g k \<Longrightarrow> \<not> inside k \<Longrightarrow> exempt k = {} \<Longrightarrow> calm k c \<Longrightarrow> solid k c (flush_session g c)"
  by (simp add: sends_def)

lemma solid_weaken:
  "solid k c r \<Longrightarrow> in_flight m = in_flight k \<Longrightarrow> exempt k \<subseteq> exempt m \<Longrightarrow> uncounted m = uncounted k \<Longrightarrow>
    inside m = inside k \<Longrightarrow> solid m c r"
  unfolding solid_def using calm_weaken by blast

lemma sum_op_map:
  "sum_op (case r of (Inl e, d) \<Rightarrow> (Inl e, d) | (Inr x, d) \<Rightarrow> (Inr (h x), d)) = sum_op r"
  by (auto simp: sum_op_def split: prod.splits sum.splits)

lemma solid_submit_reset:
  assumes g: "credit_calls_ok g" and c: "calm k c" and X: "exempt k \<subseteq> {i}" and send: "sends g k"
    and in_cb: "inside k \<Longrightarrow> failed c \<or> (\<forall>s. lookup_stream i c = Some s \<longrightarrow> is_aborted s)"
  shows "solid k c (sum_op (submit_reset g i e c))"
proof (cases "i = 0 \<or> i > http2_max_stream_id \<or> lookup_stream i c = None")
  case True
  then show ?thesis using solid_refl [OF c] by (auto simp: submit_reset_def)
next
  case False
  then obtain s where s: "lookup_stream i c = Some s" and i: "i \<noteq> 0" by auto
  have X': "k\<lparr>exempt := exempt k - {i}\<rparr> = k\<lparr>exempt := {}\<rparr>" using X by auto
  have impl: "solid k c' (sum_op (close_stream_impl g i src e' emit c'))" if "calm k c'" for c' src e' emit
    by (rule solid_weaken [OF solid_close [OF g that]]) auto
  show ?thesis
  proof (cases "is_aborted s \<or> failed c")
    case True
    have "solid k c (sum_op (case close_stream_impl g i Close_local no_error False c of
        (Inl e, c') \<Rightarrow> (Inl e, c')
      | (Inr closed, c') \<Rightarrow> (Inr (if closed then Submitted else Submit_closed), c')))"
      unfolding sum_op_map by (rule impl [OF c])
    then show ?thesis using True False s solid_refl [OF c]
      by (cases "is_aborted s") (auto simp: submit_reset_def)
  next
    case live: False
    then have out: "\<not> inside k" using in_cb s by auto
    let ?k = "k\<lparr>exempt := exempt k - {i}\<rparr>"
    have "solid ?k c (then_op (if \<not> stream_is_closed s then submit_owner_reset g i e else skip)
        (then_op (cancel_push_promise_on g i)
          (then_op (discard (close_stream_impl g i Close_local e False)) (flush_session g))) c)"
    proof (rule solid_then [where m = k])
      show "solid k c ((if \<not> stream_is_closed s then submit_owner_reset g i e else skip) c)"
        using solid_owner_reset [OF g c i] solid_skip [OF c] by simp
    next
      fix d :: "'a h2_connection"
      assume d: "calm k d"
      show "solid ?k d (then_op (cancel_push_promise_on g i)
          (then_op (discard (close_stream_impl g i Close_local e False)) (flush_session g)) d)"
      proof (rule solid_then [where f = "cancel_push_promise_on g i" and m = k])
        show "solid k d (cancel_push_promise_on g i d)" by (rule solid_cancel_push [OF g d])
      next
        fix d2 :: "'a h2_connection"
        assume d2: "calm k d2"
        show "solid ?k d2 (then_op (discard (close_stream_impl g i Close_local e False)) (flush_session g) d2)"
        proof (rule solid_then [where m = ?k])
          show "solid ?k d2 (discard (close_stream_impl g i Close_local e False) d2)"
            using solid_close [OF g d2] by (simp add: discard_sum)
        next
          fix d3 :: "'a h2_connection"
          assume "calm ?k d3"
          then have "calm (k\<lparr>exempt := {}\<rparr>) d3" unfolding X' .
          from sendsD [OF sends_cong [OF send] _ _ this] out
          show "solid ?k d3 (flush_session g d3)" unfolding X' by simp
        qed simp_all
      qed simp_all
    qed simp_all
    then have "solid k c (then_op (if \<not> stream_is_closed s then submit_owner_reset g i e else skip)
        (then_op (cancel_push_promise_on g i)
          (then_op (discard (close_stream_impl g i Close_local e False)) (flush_session g))) c)"
      by (rule solid_weaken) auto
    then show ?thesis using live False s solid_refl [OF c]
      by (auto simp: submit_reset_def sum_op_def split: prod.splits option.splits)
  qed
qed

subsection \<open>Leases\<close>

lemma keeps_completed: "keeps (\<lambda>c. c\<lparr>completed_responses := completed_responses c + 1\<rparr>)"
  by (rule keeps_same_core) (simp_all add: same_core_def failed_def)

text \<open>The debt is settled, a few fields change, and the record goes.\<close>

lemma solid_settle_erase:
  assumes g: "credit_calls_ok g" and c: "calm k c" and f: "keeps f"
    and debt: "\<And>d s. calm (k\<lparr>exempt := insert i (exempt k)\<rparr>) d \<Longrightarrow> lookup_stream i (f d) = Some s \<Longrightarrow>
      \<exists>t. lookup_stream i d = Some t \<and> window_debt s = window_debt t"
  shows "solid (k\<lparr>exempt := exempt k - {i}\<rparr>) c
    (then_op (flush_window_debt g i) (pure_op (\<lambda>d. erase_stream i (f d))) c)"
    and "fst (flush_window_debt g i c) = None \<Longrightarrow>
      lookup_stream i (snd (then_op (flush_window_debt g i) (pure_op (\<lambda>d. erase_stream i (f d))) c)) = None"
proof -
  let ?k = "k\<lparr>exempt := insert i (exempt k)\<rparr>"
  show "solid (k\<lparr>exempt := exempt k - {i}\<rparr>) c
    (then_op (flush_window_debt g i) (pure_op (\<lambda>d. erase_stream i (f d))) c)"
  proof (rule solid_then [where m = ?k])
    show "solid ?k c (flush_window_debt g i c)" by (rule solid_flush_debt [OF g c])
  next
    fix d :: "'a h2_connection"
    assume fl: "flush_window_debt g i c = (None, d)" and d: "calm ?k d"
    have fd: "calm ?k (f d)" "evolves d (f d)" using keepsD [OF f d] by auto
    have "window_debt s = 0" if "lookup_stream i (f d) = Some s" for s
      using debt [OF d that] flush_debt_zero [OF calm_table [OF c], of i g] fl by auto
    moreover have "k\<lparr>exempt := exempt k - {i}\<rparr> = ?k\<lparr>exempt := exempt ?k - {i}\<rparr>" by simp
    ultimately have "calm (k\<lparr>exempt := exempt k - {i}\<rparr>) (erase_stream i (f d))"
      "evolves (f d) (erase_stream i (f d))"
      using calm_erase [OF fd(1), of _ i] by auto
    then show "solid (k\<lparr>exempt := exempt k - {i}\<rparr>) d (pure_op (\<lambda>d. erase_stream i (f d)) d)"
      using evolves_trans [OF fd(2)] by (simp add: solid_def pure_op_def)
  qed simp_all
  assume none: "fst (flush_window_debt g i c) = None"
  obtain d where fl: "flush_window_debt g i c = (None, d)" using none by (metis prod.collapse)
  have "calm ?k d" using solid_flush_debt [OF g c, of i] fl by (simp add: solid_def)
  then have "table_ok (streams (f d))" using keepsD(2) [OF f] calm_table by blast
  then have "lookup_stream i (erase_stream i (f d)) = None" using erase_table(2) by metis
  then show "lookup_stream i (snd (then_op (flush_window_debt g i)
      (pure_op (\<lambda>d. erase_stream i (f d))) c)) = None"
    using fl by (simp add: then_op_def pure_op_def)
qed

lemma same_debt_release:
  assumes "calm k d" "lookup_stream i (release_local_request_stream i d) = Some s"
  shows "\<exists>t. lookup_stream i d = Some t \<and> window_debt s = window_debt t"
  using lookup_release_local [OF assms(1), of i i] assms(2)
  by (cases "lookup_stream i d") (auto simp: release_peer_concurrency_slot_def)

lemma same_debt_release_if_closed:
  assumes "calm k d" "lookup_stream i (release_local_request_stream_if_closed i d) = Some s"
  shows "\<exists>t. lookup_stream i d = Some t \<and> window_debt s = window_debt t"
  using same_debt_release [OF assms(1), of i s] assms(2)
  by (auto simp: release_local_request_stream_if_closed_def split: option.splits if_splits)

lemma solid_unpin:
  assumes g: "credit_calls_ok g" and c: "calm k c" and X: "exempt k \<subseteq> {i}" and send: "sends g k"
    and in_cb: "inside k \<Longrightarrow> failed c \<or> (\<forall>s. lookup_stream i c = Some s \<longrightarrow> stream_is_closed s)"
  shows "solid (k\<lparr>exempt := {}\<rparr>) c (unpin_stream g i c)"
proof (cases "lookup_stream i c")
  case None
  have "calm (k\<lparr>exempt := exempt k - {i}\<rparr>) c" by (rule calm_waits [OF c]) (use None in simp)
  moreover have "exempt k - {i} = {}" using X by auto
  ultimately show ?thesis
    using None solid_keeps [OF keeps_erase_priority] by (simp add: unpin_stream_def)
next
  case (Some s)
  have X': "k\<lparr>exempt := exempt k - {i}\<rparr> = k\<lparr>exempt := {}\<rparr>" using X by auto
  consider "is_aborted s" | "\<not> is_aborted s" "stream_is_closed s" | "\<not> is_aborted s" "\<not> stream_is_closed s"
    by blast
  then show ?thesis
  proof cases
    case 1
    have f: "keeps (\<lambda>d. release_local_request_stream i (erase_priority i d))"
      by (rule keeps_comp [OF keeps_erase_priority keeps_release_local])
    have debt: "\<exists>t. lookup_stream i d = Some t \<and> window_debt r = window_debt t"
      if "calm m d" "lookup_stream i (release_local_request_stream i (erase_priority i d)) = Some r"
      for m d r
      using same_debt_release [OF keepsD(2) [OF keeps_erase_priority that(1)] that(2)] by simp
    show ?thesis
      using solid_settle_erase(1) [OF g c f debt] 1 Some unfolding X'
      by (simp add: unpin_stream_def comp_def)
  next
    case 2
    let ?done = "\<lambda>d. d\<lparr>completed_responses := completed_responses d + 1\<rparr>"
    have f: "keeps (\<lambda>d. erase_priority i (release_local_request_stream_if_closed i (?done d)))"
      by (rule keeps_comp [OF keeps_comp [OF keeps_completed keeps_release_local_if_closed] keeps_erase_priority])
    have debt: "\<exists>t. lookup_stream i d = Some t \<and> window_debt r = window_debt t"
      if "calm m d"
        "lookup_stream i (erase_priority i (release_local_request_stream_if_closed i (?done d))) = Some r"
      for m d r
    proof -
      have "lookup_stream i (release_local_request_stream_if_closed i (?done d)) = Some r"
        using that(2) by simp
      from same_debt_release_if_closed [OF keepsD(2) [OF keeps_completed that(1)] this]
      show ?thesis by (simp add: lookup_stream_def)
    qed
    show ?thesis
      using solid_settle_erase(1) [OF g c f debt] 2 Some unfolding X'
      by (simp add: unpin_stream_def comp_def)
  next
    case 3
    have "solid (k\<lparr>exempt := {}\<rparr>) c (then_op (discard (submit_reset g i (owner_reset_error s)))
      (\<lambda>c1. if lookup_stream i c1 = None then (None, c1)
        else then_op (flush_window_debt g i)
          (pure_op (\<lambda>d. erase_stream i (release_local_request_stream i d))) c1) c)"
    proof (rule solid_then [where m = k])
      show "solid k c (discard (submit_reset g i (owner_reset_error s)) c)"
        using solid_submit_reset [OF g c X send] in_cb 3 Some by (auto simp: discard_sum)
    next
      fix d :: "'a h2_connection"
      assume d: "calm k d"
      have "calm (k\<lparr>exempt := exempt k - {i}\<rparr>) d" if "lookup_stream i d = None"
        by (rule calm_waits [OF d]) (use that in simp)
      moreover have "solid (k\<lparr>exempt := exempt k - {i}\<rparr>) d (then_op (flush_window_debt g i)
          (pure_op (\<lambda>d. erase_stream i (release_local_request_stream i d))) d)"
        by (rule solid_settle_erase(1) [OF g d keeps_release_local]) (rule same_debt_release)
      ultimately show "solid (k\<lparr>exempt := {}\<rparr>) d (if lookup_stream i d = None then (None, d)
        else then_op (flush_window_debt g i)
          (pure_op (\<lambda>d. erase_stream i (release_local_request_stream i d))) d)"
        using solid_refl X' by auto
    qed simp_all
    then show ?thesis using 3 Some by (simp add: unpin_stream_def comp_def cong: if_cong)
  qed
qed

text \<open>Changes of the ledger alone.\<close>

lemma calm_ledger:
  assumes c: "calm k c" and l: "ledger_ok l"
    and ok: "failed c \<or> (\<forall>e\<in>set (releases l). lease_ok X c e)"
  shows "calm (k\<lparr>exempt := X\<rparr>) (c\<lparr>leases := l\<rparr>)" "evolves c (c\<lparr>leases := l\<rparr>)"
proof -
  show "evolves c (c\<lparr>leases := l\<rparr>)"
    by (auto simp: evolves_def failed_def lookup_stream_def intro: stream_run_refl)
  have "leases_ok X (c\<lparr>leases := l\<rparr>)"
    using ok by (auto simp: leases_ok_def lease_ok_def failed_def lookup_stream_def)
  moreover have "record_ok (k\<lparr>exempt := X\<rparr>) (c\<lparr>leases := l\<rparr>) s = record_ok k c s" for s
    by (simp add: record_ok_def queued_def)
  ultimately show "calm (k\<lparr>exempt := X\<rparr>) (c\<lparr>leases := l\<rparr>)"
    using c l unfolding calm_def conn_ok_def
    by (simp add: queued_def lookup_stream_def balanced_def failed_def)
qed

lemma set_swap_erase: "n < length xs \<Longrightarrow> set (swap_erase n xs) \<subseteq> set xs"
  using mset_swap_erase [of n xs] by (metis in_diffD set_mset_mset subsetI)

lemma releases_erase: "set (releases (erase_release i l)) \<subseteq> set (releases l)"
  by (auto simp: erase_release_def dest!: first_index_Some split: option.splits dest: subsetD [OF set_swap_erase])

lemma releases_erased:
  assumes "ledger_ok l" "e \<in> set (releases (erase_release i l))"
  shows "re_stream e \<noteq> i"
proof (cases "first_index (\<lambda>e. re_stream e = i) (releases l)")
  case None
  then have "erase_release i l = l" by (simp add: erase_release_def)
  then show ?thesis using assms(2) None by (auto simp: first_index_None)
next
  case (Some n)
  note n = first_index_Some [OF Some]
  let ?ids = "map re_stream (releases l)"
  have "mset (map re_stream (releases (erase_release i l))) = mset ?ids - {#i#}"
    using n Some by (simp add: erase_release_def map_swap_erase_less mset_swap_erase)
  moreover have "i \<notin># mset ?ids - {#i#}"
    using assms(1) by (simp add: ledger_ok_def distinct_count_atmost_1 not_in_iff split: if_splits)
  ultimately have "i \<notin> set (map re_stream (releases (erase_release i l)))" by (metis set_mset_mset)
  then show ?thesis using assms(2) by auto
qed

lemma keeps_erase_lease: "keeps (erase_lease i)"
  unfolding keeps_def
proof (intro allI impI)
  fix k and c :: "'a h2_connection"
  assume c: "calm k c"
  have l: "ledger_ok (erase_release i (leases c))"
    using c by (simp add: calm_def conn_ok_def ledger_ok_erase_release)
  have "failed c \<or> (\<forall>e\<in>set (releases (erase_release i (leases c))). lease_ok (exempt k) c e)"
    using c releases_erase [of i "leases c"] unfolding calm_def conn_ok_def leases_ok_def by blast
  from calm_ledger [OF c l this] show "evolves c (erase_lease i c) \<and> calm k (erase_lease i c)"
    by (simp add: erase_lease_def)
qed

lemma keeps_erase_credit: "keeps (\<lambda>c. c\<lparr>leases := erase_credit i (leases c)\<rparr>)"
  unfolding keeps_def
proof (intro allI impI)
  fix k and c :: "'a h2_connection"
  assume c: "calm k c"
  have l: "ledger_ok (erase_credit i (leases c))"
    using c by (simp add: calm_def conn_ok_def ledger_ok_erase_credit)
  have "releases (erase_credit i (leases c)) = releases (leases c)"
    by (simp add: erase_credit_def split: option.splits)
  then have "failed c \<or> (\<forall>e\<in>set (releases (erase_credit i (leases c))). lease_ok (exempt k) c e)"
    using c unfolding calm_def conn_ok_def leases_ok_def by auto
  from calm_ledger [OF c l this]
  show "evolves c (c\<lparr>leases := erase_credit i (leases c)\<rparr>) \<and> calm k (c\<lparr>leases := erase_credit i (leases c)\<rparr>)"
    by simp
qed

text \<open>Entering a release into the ledger.\<close>

lemma releases_defer:
  assumes "defer_release i kind l = Some l'" "e \<in> set (releases l')"
  shows "e \<in> set (releases l) \<or> (re_stream e = i \<and> re_kind e = kind)"
  using assms first_index_Some [of "\<lambda>e. re_stream e = i" "releases l"]
  by (auto simp: defer_release_def set_update_subset_insert split: option.splits if_splits
      dest!: subsetD [OF set_update_subset_insert])

lemma calm_defer:
  assumes c: "calm k c"
    and e: "failed c \<or> (kind \<noteq> Abandon \<and> (kind = After_credits \<longrightarrow>
      i \<in> set (opened c) \<and> (\<forall>s. lookup_stream i c = Some s \<longrightarrow> waits s)))"
  shows "calm k (defer_lease i kind c)" "evolves c (defer_lease i kind c)"
proof -
  have "calm k (defer_lease i kind c) \<and> evolves c (defer_lease i kind c)"
  proof (cases "defer_release i kind (leases c)")
    case None
    have "same_core c (c\<lparr>terminated := True\<rparr>)" by (simp add: same_core_def failed_def)
    then show ?thesis using None c same_core_ok same_core_evolves
      by (auto simp: defer_lease_def change_leases_def calm_def)
  next
    case (Some l)
    have l: "ledger_ok l" using ledger_ok_defer_release Some c by (auto simp: calm_def conn_ok_def)
    have "lease_ok (exempt k) c e" if "e \<in> set (releases l)" "\<not> failed c" for e
    proof (cases "e \<in> set (releases (leases c))")
      case True
      then show ?thesis using c that by (auto simp: calm_def conn_ok_def leases_ok_def)
    next
      case False
      then have "re_stream e = i" "re_kind e = kind" using releases_defer [OF Some that(1)] by auto
      then show ?thesis using e that(2) by (auto simp: lease_ok_def)
    qed
    then have "failed c \<or> (\<forall>e\<in>set (releases l). lease_ok (exempt k) c e)" by blast
    from calm_ledger [OF c l this] show ?thesis
      using Some by (simp add: defer_lease_def change_leases_def)
  qed
  then show "calm k (defer_lease i kind c)" "evolves c (defer_lease i kind c)" by auto
qed

lemma solid_release_lease:
  assumes g: "credit_calls_ok g" and c: "calm k c" and X: "exempt k \<subseteq> {i}" and send: "sends g k"
    and in_cb: "inside k \<Longrightarrow> failed c \<or> (\<forall>s. lookup_stream i c = Some s \<longrightarrow> stream_is_closed s)"
  shows "solid (k\<lparr>exempt := {}\<rparr>) c (release_stream_lease g i c)"
proof (cases "\<exists>s. lookup_stream i c = Some s \<and> has_outstanding s")
  case True
  then obtain s where s: "lookup_stream i c = Some s" "has_outstanding s" by blast
  have "k\<lparr>exempt := exempt k - {i}\<rparr> = k\<lparr>exempt := {}\<rparr>" using X by auto
  then have c': "calm (k\<lparr>exempt := {}\<rparr>) c"
    using calm_waits [OF c, of i] s by (simp add: waits_def)
  from calm_defer [OF c', of After_credits i] live_opened [OF c s(1)] s
  show ?thesis by (simp add: release_stream_lease_def solid_def waits_def)
next
  case False
  have "solid (k\<lparr>exempt := {}\<rparr>) c (then_op (unpin_stream g i) (pure_op (erase_lease i)) c)"
    by (rule solid_then [where m = "k\<lparr>exempt := {}\<rparr>"])
      (use solid_unpin [OF g c X send in_cb] solid_pure [OF keeps_erase_lease] in auto)
  then show ?thesis using False by (auto simp: release_stream_lease_def split: option.splits)
qed

lemma solid_abandon_checked:
  assumes g: "credit_calls_ok g" and c: "calm k c" and X: "exempt k \<subseteq> {i}" and send: "sends g k"
    and in_cb: "inside k \<Longrightarrow> failed c"
  shows "solid (k\<lparr>exempt := {}\<rparr>) c (abandon_stream_lease_checked g i c)"
proof (cases "lookup_stream i c")
  case None
  have "k\<lparr>exempt := exempt k - {i}\<rparr> = k\<lparr>exempt := {}\<rparr>" using X by auto
  then have "calm (k\<lparr>exempt := {}\<rparr>) c" using calm_waits [OF c, of i] None by simp
  then show ?thesis using None solid_keeps [OF keeps_erase_lease]
    by (simp add: abandon_stream_lease_checked_def)
next
  case (Some s)
  have "solid (k\<lparr>exempt := {}\<rparr>) c (then_op
      (if \<not> is_aborted s \<and> \<not> stream_is_closed s
         then discard (submit_reset g i (owner_reset_error s)) else skip)
      (release_stream_lease g i) c)"
  proof (rule solid_then [where m = k])
    show "solid k c ((if \<not> is_aborted s \<and> \<not> stream_is_closed s
         then discard (submit_reset g i (owner_reset_error s)) else skip) c)"
      using solid_submit_reset [OF g c X send] in_cb solid_skip [OF c] by (simp add: discard_sum)
  next
    fix d :: "'a h2_connection"
    assume d: "calm k d" "evolves c d"
    have "inside k \<Longrightarrow> failed d" using in_cb d(2) by (auto simp: evolves_def)
    then show "solid (k\<lparr>exempt := {}\<rparr>) d (release_stream_lease g i d)"
      using solid_release_lease [OF g d(1) X send] by blast
  qed simp_all
  then show ?thesis using Some by (simp add: abandon_stream_lease_checked_def)
qed

lemma release_of_member: "calm k c \<Longrightarrow> release_of i (leases c) = Some e \<Longrightarrow>
    e \<in> set (releases (leases c)) \<and> re_stream e = i"
  by (simp add: calm_def conn_ok_def release_of_iff)

text \<open>A retry leaves no exempt entry for its stream, and inside nghttp2 it sends nothing.\<close>

lemma calm_retry:
  assumes g: "credit_calls_ok g" and c: "calm k c" and X: "exempt k \<subseteq> {i}" and send: "sends g k"
    and in_cb: "inside k \<Longrightarrow> exempt k = {}"
  shows "calm (k\<lparr>exempt := {}\<rparr>) (retry_deferred_stream_lease g i c)"
    "evolves c (retry_deferred_stream_lease g i c)"
proof -
  have lift: "calm (k\<lparr>exempt := {}\<rparr>) (snd r) \<and> evolves c (snd r)" if "solid (k\<lparr>exempt := {}\<rparr>) c r" for r
    using that by (simp add: solid_def)
  have entries: "failed c \<or> (\<forall>e\<in>set (releases (leases c)). lease_ok (exempt k) c e)"
    using c by (simp add: calm_def conn_ok_def leases_ok_def)
  have "calm (k\<lparr>exempt := {}\<rparr>) (retry_deferred_stream_lease g i c) \<and>
      evolves c (retry_deferred_stream_lease g i c)"
  proof (cases "release_of i (leases c)")
    case None
    have "re_stream e \<noteq> i" if "e \<in> set (releases (leases c))" for e
      using None that c release_of_iff [of "leases c" i e] by (auto simp: calm_def conn_ok_def)
    then have "leases_ok {} c" using entries X by (fastforce simp: leases_ok_def lease_ok_def)
    then have "calm (k\<lparr>exempt := {}\<rparr>) c"
      using c by (simp add: calm_def conn_ok_def record_ok_def)
    then show ?thesis using None by (simp add: retry_deferred_stream_lease_def evolves_refl)
  next
    case (Some e)
    note mem = release_of_member [OF c Some]
    have ok: "failed c \<or> lease_ok (exempt k) c e" using entries mem by blast
    show ?thesis
    proof (cases "re_kind e = Abandon")
      case True
      then have "failed c" using ok by (simp add: lease_ok_def)
      then show ?thesis
        using lift [OF solid_abandon_checked [OF g c X send]] Some True
        by (simp add: retry_deferred_stream_lease_def)
    next
      case kind: False
      let ?waiting = "(case lookup_stream i c of
                None \<Rightarrow> False
              | Some s \<Rightarrow> has_outstanding s \<or>
                  (re_kind e = After_remote_end \<and> \<not> failed c \<and> \<not> stream_is_closed s))"
      show ?thesis
      proof (cases ?waiting)
        case True
        then obtain s where s: "lookup_stream i c = Some s"
          "has_outstanding s \<or> re_kind e = After_remote_end" by (auto split: option.splits)
        have "lease_ok {} c f" if "f \<in> set (releases (leases c))" "\<not> failed c" for f
        proof (cases "re_stream f = i")
          case True
          then have "f = e" using that mem c release_of_iff [of "leases c" i f] Some
            by (auto simp: calm_def conn_ok_def)
          then show ?thesis using ok that(2) s True by (auto simp: lease_ok_def waits_def)
        next
          case False
          then show ?thesis using entries that X by (auto simp: lease_ok_def)
        qed
        then have "leases_ok {} c" by (auto simp: leases_ok_def)
        then have "calm (k\<lparr>exempt := {}\<rparr>) c" using c by (simp add: calm_def conn_ok_def record_ok_def)
        then show ?thesis using Some kind True
          by (simp add: retry_deferred_stream_lease_def evolves_refl)
      next
        case False
        have closed: "failed c \<or> (\<forall>s. lookup_stream i c = Some s \<longrightarrow> stream_is_closed s)" if "inside k"
        proof -
          have "stream_is_closed s" if s: "lookup_stream i c = Some s" and live: "\<not> failed c" for s
            using False s live ok kind in_cb [OF \<open>inside k\<close>] mem
            by (cases "re_kind e") (auto simp: lease_ok_def waits_def)
          then show ?thesis by blast
        qed
        have "solid (k\<lparr>exempt := {}\<rparr>) c (then_op (unpin_stream g i) (pure_op (erase_lease i)) c)"
          by (rule solid_then [where m = "k\<lparr>exempt := {}\<rparr>"])
            (use solid_unpin [OF g c X send closed] solid_pure [OF keeps_erase_lease] in auto)
        from lift [OF this] show ?thesis using Some kind False
          by (simp add: retry_deferred_stream_lease_def)
      qed
    qed
  qed
  then show "calm (k\<lparr>exempt := {}\<rparr>) (retry_deferred_stream_lease g i c)"
    "evolves c (retry_deferred_stream_lease g i c)" by auto
qed

end
