(* ===== verification/H2_Callbacks.thy ===== *)
theory H2_Callbacks
  imports H2_Operations
begin

text \<open>
  That the callbacks nghttp2 runs keep the invariant of \<open>H2_Invariant\<close>, whatever frames they carry,
  provided nghttp2 respects flow control and never opens a stream twice.
\<close>

lemma steady_keeps: "keeps f \<Longrightarrow> calm k c \<Longrightarrow> steady k c (None, f c)"
  by (simp add: steady_def keepsD)

lemma steady_pure: "keeps f \<Longrightarrow> calm k c \<Longrightarrow> steady k c (pure_op f c)"
  by (simp add: pure_op_def steady_keeps)

lemma steady_refl: "calm k c \<Longrightarrow> steady k c (None, c)"
  by (simp add: steady_def evolves_refl)

lemma steady_skip: "calm k c \<Longrightarrow> steady k c (skip c)"
  by (simp add: skip_def steady_refl)

lemma steady_state: "steady k c (None, f c) \<longleftrightarrow> evolves c (f c) \<and> calm k (f c)"
  by (simp add: steady_def)

lemma steady_value: "evolves c d \<Longrightarrow> calm k d \<Longrightarrow> steady k c (e, d)"
  by (simp add: steady_def)

lemma exempt_empty [simp]: "exempt k = {} \<Longrightarrow> k\<lparr>exempt := {}\<rparr> = k"
  by (cases k) simp

lemma steady_close:
  assumes "credit_calls_ok g" "calm k c"
  shows "steady k c (sum_op (close_stream_impl g i src e emit c))"
  by (rule solid_steady, rule solid_weaken [OF solid_close [OF assms]]) auto

lemma steady_peer_reset:
  assumes "credit_calls_ok g" "calm k c" "i \<noteq> 0"
  shows "steady k c (reset_stream_for_peer_error g i e c)"
  by (rule solid_steady, rule solid_weaken [OF solid_peer_reset [OF assms]]) auto

text \<open>An event about a live stream.\<close>

lemma calm_publish_live:
  assumes c: "calm k c" and s: "lookup_stream i c = Some s" and ev: "event_streams ev = [i]"
  shows "calm k (publish_event ev c)" "evolves c (publish_event ev c)"
  using calm_publish [OF c, of ev] live_opened [OF c s] ev by auto

lemma live_nonzero: "lookup_stream i c = Some s \<Longrightarrow> i \<noteq> 0"
  using find_nonzero by (auto simp: lookup_stream_def)

text \<open>A quiet write, then an event about the stream, then the release of its slot.\<close>

lemma calm_write_publish:
  assumes c: "calm k c" and s: "lookup_stream i c = Some s" and f: "quiet f" and ev: "event_streams ev = [i]"
  shows "calm k (publish_event ev (update_stream i f c))" "evolves c (publish_event ev (update_stream i f c))"
proof -
  note up = keepsD [OF keeps_update [OF f] c, of i]
  have "lookup_stream i (update_stream i f c) = Some (f s)" using lookup_quiet [OF c f] s by simp
  note pub = calm_publish_live [OF up(2) this ev]
  show "calm k (publish_event ev (update_stream i f c))" by (rule pub(1))
  show "evolves c (publish_event ev (update_stream i f c))" by (rule evolves_trans [OF up(1) pub(2)])
qed

subsection \<open>The end of DATA\<close>

lemma steady_finish_data:
  assumes g: "credit_calls_ok g" and c: "calm k c"
  shows "steady k c (finish_data_frame g i c)"
proof (cases "lookup_stream i c")
  case None
  then show ?thesis using steady_refl [OF c] by (simp add: finish_data_frame_def)
next
  case (Some s)
  note reset = steady_peer_reset [OF g c live_nonzero [OF Some]]
  have upd: "steady k c (None, release_local_request_stream_if_closed i (update_stream i f c))"
    if "quiet f" for f
    by (rule steady_keeps [OF keeps_comp [OF keeps_update [OF that] keeps_release_local_if_closed] c])
  have pub: "steady k c (None, release_local_request_stream_if_closed i (publish_event ev (update_stream i f c)))"
    if f: "quiet f" and ev: "event_streams ev = [i]" for f ev
  proof -
    note w = calm_write_publish [OF c Some f ev]
    from keepsD [OF keeps_release_local_if_closed w(1), of i] show ?thesis
      using evolves_trans [OF w(2)] by (simp add: steady_def)
  qed
  show ?thesis using Some upd pub reset quiet_remote
    by (auto simp: finish_data_frame_def Let_def split: http2_remote_receive_state.splits)
qed

subsection \<open>Drain\<close>

lemma keeps_local_state:
  assumes "\<And>c. failed c \<Longrightarrow> connection_failed (f c)"
  shows "keeps (\<lambda>c. c\<lparr>local_state := f c\<rparr>)"
  by (rule keeps_same_core) (use assms in \<open>auto simp: same_core_def failed_def\<close>)

lemma failed_stays [simp]:
  "connection_failed l \<Longrightarrow> connection_failed (snd (begin_graceful_drain n l))"
  "connection_failed l \<Longrightarrow> connection_failed (snd (begin_round_trip_drain n m l))"
  "connection_failed l \<Longrightarrow> connection_failed (snd (finish_round_trip_drain n l))"
  by (cases l; simp add: begin_graceful_drain_def begin_round_trip_drain_def)+

lemma steady_call_pure:
  assumes "calm k c" "keeps f"
  shows "steady k c (then_op (call_session g h) (pure_op f) c)"
  by (rule steady_then [where f = "call_session g h"])
    (simp_all add: steady_call [OF assms(1)] steady_pure [OF assms(2)])

lemma keeps_final_drain:
  "keeps (\<lambda>c. c\<lparr>local_state := snd (begin_graceful_drain (last_peer_stream_id c) (local_state c))\<rparr>)"
  "keeps (\<lambda>c. c\<lparr>local_state := snd (finish_round_trip_drain (last_peer_stream_id c) (local_state c))\<rparr>)"
  "keeps (\<lambda>c. c\<lparr>local_state := snd (begin_round_trip_drain n m (local_state c))\<rparr>)"
  by (rule keeps_local_state, simp add: failed_def)+

lemma steady_begin_final: "calm k c \<Longrightarrow> steady k c (begin_final_drain g c)"
  by (auto simp: begin_final_drain_def intro: steady_refl steady_call_pure keeps_final_drain)

lemma steady_finish_round_trip: "calm k c \<Longrightarrow> steady k c (finish_drain_round_trip g c)"
  by (auto simp: finish_drain_round_trip_def intro: steady_refl steady_call_pure keeps_final_drain)

subsection \<open>Peer resets and GOAWAY\<close>

lemma keeps_counter:
  "keeps (\<lambda>c. c\<lparr>peer_reset_streams := n c\<rparr>)" "keeps (\<lambda>c. c\<lparr>malformed_request_streams := n c\<rparr>)"
  "keeps (\<lambda>c. c\<lparr>peer_goaway := x c\<rparr>)" "keeps (\<lambda>c. c\<lparr>owner_resets := y c\<rparr>)"
  "keeps (\<lambda>c. c\<lparr>undrained_control_frames := n c\<rparr>)"
  "keeps (\<lambda>c. c\<lparr>peer_error_resets := n c, undrained_control_frames := m c\<rparr>)"
  "keeps (\<lambda>c. c\<lparr>active_local_requests := n c\<rparr>)"
  "keeps (\<lambda>c. c\<lparr>header_block_in_progress := b c\<rparr>)"
  "keeps (\<lambda>c. c\<lparr>received_peer_settings := b c\<rparr>)" "keeps (\<lambda>c. c\<lparr>liveness_ping_outstanding := b c\<rparr>)"
  "keeps (\<lambda>c. c\<lparr>priority_ids := z c\<rparr>)"
  by (rule keeps_same_core; simp add: same_core_def failed_def)+

lemma keeps_if: "keeps f \<Longrightarrow> keeps h \<Longrightarrow> keeps (\<lambda>c. if b c then f c else h c)"
  by (auto simp: keeps_def)

text \<open>A close that announces itself with an event of its own.\<close>

lemma steady_close_event:
  assumes g: "credit_calls_ok g" and c: "calm k c" and ev: "event_streams ev = [i]"
  shows "steady k c (case close_stream_impl g i src e False c of
      (Inl e, c') \<Rightarrow> (Some e, c')
    | (Inr True, c') \<Rightarrow> (None, publish_event ev c')
    | (Inr False, c') \<Rightarrow> (None, c'))"
proof -
  obtain r d where r: "close_stream_impl g i src e False c = (r, d)" by fastforce
  have d: "calm k d" "evolves c d" using steady_close [OF g c, of i src e False] r by (auto simp: steady_def)
  show ?thesis
  proof (cases "lookup_stream i c")
    case None
    then show ?thesis using steady_refl [OF c] by (simp add: close_stream_impl_eq)
  next
    case (Some s)
    then have "set (event_streams ev) \<subseteq> set (opened d)"
      using ev live_opened [OF c] d(2) by (auto simp: evolves_def)
    note pub = calm_publish [OF d(1) this]
    show ?thesis
      using r d pub evolves_trans [OF d(2) pub(1)] by (auto simp: steady_def split: sum.splits bool.splits)
  qed
qed

lemma steady_rst:
  assumes g: "credit_calls_ok g" and c: "calm k c"
  shows "steady k c (process_rst_stream g i e c)"
  unfolding process_rst_stream_def
proof (rule steady_then)
  show "steady k c ((case lookup_stream i c of
          None \<Rightarrow> skip
        | Some s \<Rightarrow>
            if is_aborted s \<or> stream_is_closed s then skip
            else if is_client c \<and> e = refused_stream \<and> i AND 1 \<noteq> 0 \<and>
                response_status s = None \<and> \<not> informational_response s
              then (\<lambda>c0. case close_stream_impl g i Close_peer e False c0 of
                (Inl e, c') \<Rightarrow> (Some e, c')
              | (Inr True, c') \<Rightarrow> (None, publish_event (Request_unprocessed i) c')
              | (Inr False, c') \<Rightarrow> (None, c'))
            else discard (close_stream g i Close_peer e)) c)"
    using steady_skip [OF c] steady_close [OF g c] steady_close_event [OF g c]
    by (auto simp: discard_sum close_stream_def split: option.splits)
next
  fix d :: "'a h2_connection"
  assume "calm k d"
  moreover have "keeps (\<lambda>c1. let c2 = c1\<lparr>peer_reset_streams := peer_reset_streams c1 + 1\<rparr> in
          if unat (peer_reset_streams c2) > unat (completed_responses c2) + max_unprocessed_resets
            then fail_connection g enhance_your_calm c2 else c2)"
    unfolding Let_def
    by (rule keeps_if [OF keeps_comp [OF keeps_counter(1) keeps_fail] keeps_counter(1)])
  ultimately show "steady k d (pure_op (\<lambda>c1. let c2 = c1\<lparr>peer_reset_streams := peer_reset_streams c1 + 1\<rparr> in
          if unat (peer_reset_streams c2) > unat (completed_responses c2) + max_unprocessed_resets
            then fail_connection g enhance_your_calm c2 else c2) d)"
    by (rule steady_pure [rotated])
qed

text \<open>An iteration whose callback leaves the table alone keeps every record.\<close>

lemma visit_slots_quiet:
  assumes "\<And>s st. snd (callback s st) = snd st"
  shows "snd (visit_slots slots callback ks st) = snd st"
  by (induction ks arbitrary: st) (auto simp: assms split: option.splits)

lemma for_each_quiet:
  assumes ok: "table_ok t" and quiet: "\<And>s st. snd (callback s st) = snd st"
    and run: "for_each_stream callback (a, t) = (b, u)"
  shows "table_ok u \<and> mset (live u) = mset (live t)"
proof -
  let ?t = "t\<lparr>iteration_depth := iteration_depth t + 1\<rparr>"
  have pass: "visit_slots slots callback ks (x, ?t) = (fst (visit_slots slots callback ks (x, ?t)), ?t)"
    for slots ks x
    using visit_slots_quiet [of callback slots ks "(x, ?t)", OF quiet] by (simp add: prod_eq_iff)
  obtain x where x: "visit_slots inline_slots callback [0, 1] (a, ?t) = (x, ?t)"
    using pass by metis
  obtain y where y: "visit_slots overflow callback [0..<length (overflow ?t)] (x, ?t) = (y, ?t)"
    using pass by metis
  have "u = compact_overflow_if_idle (?t\<lparr>iteration_depth := iteration_depth ?t - 1\<rparr>)"
    using run unfolding for_each_stream_def Let_def prod.case x snd_conv y by simp
  then have u: "u = compact_overflow_if_idle t" by simp
  show ?thesis
  proof (cases "iteration_depth t = 0")
    case False
    then show ?thesis using ok by (simp add: u compact_overflow_if_idle_def)
  next
    case True
    then have same: "t\<lparr>iteration_depth := 0\<rparr> = t" by simp
    have "table_ok (t\<lparr>iteration_depth := 1\<rparr>)"
      using ok by (auto simp: table_ok_def live_def live_ids_def)
    from compact_overflow_ok [OF this] show ?thesis by (simp add: u same)
  qed
qed

lemma same_live_find:
  assumes "table_ok t" "table_ok u" "mset (live u) = mset (live t)"
  shows "find_stream i u = find_stream i t"
proof (rule option.expand)
  have "set (live u) = set (live t)" using assms(3) by (rule mset_eq_setD)
  then have same: "find_stream i u = Some s \<longleftrightarrow> find_stream i t = Some s" for s
    using assms(1,2) by (simp add: find_stream_iff)
  show "(find_stream i u = None) = (find_stream i t = None)" using same by (metis option.exhaust)
  show "\<lbrakk>find_stream i u \<noteq> None; find_stream i t \<noteq> None\<rbrakk> \<Longrightarrow> the (find_stream i u) = the (find_stream i t)"
    using same by force
qed

lemma calm_same_find:
  assumes c: "calm k c" and t: "table_ok t" "\<And>i. find_stream i t = find_stream i (streams c)"
  shows "calm k (c\<lparr>streams := t\<rparr>)" "evolves c (c\<lparr>streams := t\<rparr>)"
proof -
  have "debts t = debts (streams c)" using t(2) by (simp add: debts_def streams.total_def)
  then show "calm k (c\<lparr>streams := t\<rparr>)"
    using c t unfolding calm_def conn_ok_def record_ok_def queued_def lookup_stream_def balanced_def
      leases_ok_def lease_ok_def failed_def by simp
  show "evolves c (c\<lparr>streams := t\<rparr>)"
    using t(2) by (auto simp: evolves_def failed_def lookup_stream_def intro: stream_run_refl)
qed

lemma steady_fold:
  assumes f: "\<And>i d. calm k d \<Longrightarrow> steady k d (f i d)"
  shows "\<lbrakk>\<And>d. calm k d \<Longrightarrow> steady k d (h d); calm k c\<rbrakk> \<Longrightarrow>
    steady k c (fold (\<lambda>i h. then_op h (f i)) ids h c)"
proof (induction ids arbitrary: h)
  case (Cons i ids)
  have "steady k d (then_op h (f i) d)" if "calm k d" for d
    by (rule steady_then [where f = h]) (simp_all add: Cons.prems(1) [OF that] f)
  from Cons.IH [OF this Cons.prems(2)] show ?case by simp
qed simp

lemma steady_goaway:
  assumes g: "credit_calls_ok g" and c: "calm k c"
  shows "steady k c (process_goaway g last_id e c)"
proof -
  obtain reached ids t where it: "for_each_stream (goaway_scan (is_client c) last_id) ((False, []), streams c) =
      ((reached, ids), t)" by (metis prod.collapse)
  have "snd (goaway_scan b n s st) = snd st" for b n s st
    by (simp add: goaway_scan_def split: prod.splits)
  then have t: "table_ok t" "mset (live t) = mset (live (streams c))"
    using for_each_quiet [OF calm_table [OF c] _ it] by auto
  let ?c = "c\<lparr>streams := t\<rparr>"
  have c0: "calm k ?c" "evolves c ?c"
    using calm_same_find [OF c t(1)] same_live_find [OF calm_table [OF c] t] by auto
  have excl: "steady k d (close_excluded g e i d)" if "calm k d" for d i
    using steady_close [OF g that] steady_close_event [OF g that]
    by (simp add: close_excluded_def discard_sum close_stream_def)
  have pub: "keeps (\<lambda>c1. publish_event (Goaway_event last_id e) (c1\<lparr>peer_goaway := Some (last_id, e)\<rparr>))"
    by (rule keeps_comp [OF keeps_counter(3) keeps_publish_none]) simp
  have "steady k ?c (then_op
      (if local_state ?c = Connection_open then begin_final_drain g else finish_drain_round_trip g)
      (then_op (pure_op (\<lambda>c1. publish_event (Goaway_event last_id e) (c1\<lparr>peer_goaway := Some (last_id, e)\<rparr>)))
        (fold (\<lambda>i k. then_op k (close_excluded g e i)) (sort ids) skip)) ?c)"
  proof (rule steady_then)
    show "steady k ?c ((if local_state ?c = Connection_open then begin_final_drain g
        else finish_drain_round_trip g) ?c)"
      using steady_begin_final [OF c0(1)] steady_finish_round_trip [OF c0(1)] by simp
  next
    fix d :: "'a h2_connection"
    assume d: "calm k d"
    show "steady k d (then_op
        (pure_op (\<lambda>c1. publish_event (Goaway_event last_id e) (c1\<lparr>peer_goaway := Some (last_id, e)\<rparr>)))
        (fold (\<lambda>i k. then_op k (close_excluded g e i)) (sort ids) skip) d)"
    proof (rule steady_then [where m = k])
      show "steady k d (pure_op (\<lambda>c1. publish_event (Goaway_event last_id e)
          (c1\<lparr>peer_goaway := Some (last_id, e)\<rparr>)) d)" by (rule steady_pure [OF pub d])
    qed (rule steady_fold [OF excl steady_skip])
  qed
  moreover have "steady k ?c (None, fail_connection g protocol_error ?c)"
    by (rule steady_keeps [OF keeps_fail c0(1)])
  ultimately show ?thesis using steady_pre [OF c0(2)] it by (simp add: process_goaway_def Let_def)
qed

subsection \<open>Field blocks\<close>

text \<open>A step from one good state to the next, for chains of updates.\<close>

definition reaches :: "mode \<Rightarrow> 's h2_connection \<Rightarrow> 's h2_connection \<Rightarrow> bool" where
  "reaches k c d \<longleftrightarrow> evolves c d \<and> calm k d"

lemma reaches_refl: "calm k c \<Longrightarrow> reaches k c c"
  by (simp add: reaches_def evolves_refl)

lemma reaches_keeps: "keeps f \<Longrightarrow> reaches k c d \<Longrightarrow> reaches k c (f d)"
  unfolding reaches_def keeps_def by (meson evolves_trans)

lemma reaches_publish:
  "reaches k c d \<Longrightarrow> set (event_streams ev) \<subseteq> set (opened c) \<Longrightarrow> reaches k c (publish_event ev d)"
  unfolding reaches_def by (meson calm_publish evolves_def evolves_trans subset_trans)

lemma reaches_steady: "reaches k c d \<Longrightarrow> steady k c (e, d)"
  by (simp add: reaches_def steady_def)

lemma steady_after: "reaches k c d \<Longrightarrow> steady k d r \<Longrightarrow> steady k c r"
  unfolding reaches_def by (meson steady_pre)

lemma reaches_pin: "reaches k c d \<Longrightarrow> reaches k c (pin_stream i d)"
  by (rule reaches_keeps [OF keeps_pin])

lemma reaches_update: "quiet f \<Longrightarrow> reaches k c d \<Longrightarrow> reaches k c (update_stream i f d)"
  by (rule reaches_keeps [OF keeps_update])

lemma reaches_create:
  assumes c: "calm k c" and made: "fst (create_stream i (streams c)) = Some s"
    and i: "i \<noteq> 0" "i \<notin> set (opened c)"
  shows "reaches k c (c\<lparr>streams := snd (create_stream i (streams c)), opened := opened c @ [i]\<rparr>)"
proof -
  have "create_stream i (streams c) = (Some s, snd (create_stream i (streams c)))"
    using made by (metis prod.collapse)
  from conn_ok_create(1,2) [OF _ this i, of k] show ?thesis
    using c by (simp add: reaches_def calm_def)
qed

lemma reaches_same_core:
  "reaches k c d \<Longrightarrow> same_core d e \<Longrightarrow> callback_failure e = callback_failure d \<Longrightarrow> reaches k c e"
  unfolding reaches_def calm_def by (metis evolves_trans same_core_evolves same_core_ok)

lemma steady_begin_initial:
  assumes c: "calm k c" and i: "i \<noteq> 0" "i \<notin> set (opened c)"
  shows "steady k c (begin_initial_request g i es c)"
proof -
  define beyond where "beyond = (case local_state c of Graceful_drain _ b limit \<Rightarrow> b \<and> i > limit | _ \<Rightarrow> False)"
  define refused where "refused = (beyond \<or> (case local_state c of Graceful_drain d _ _ \<Rightarrow> i > d | _ \<Rightarrow> False))"
  have refuse: "steady k c (then_op (call_session g (ng_submit_rst_stream g i refused_stream))
      (if beyond then finish_drain_round_trip g else skip) c)"
    by (rule steady_then [where f = "call_session g (ng_submit_rst_stream g i refused_stream)"])
      (auto simp: steady_call [OF c] steady_finish_round_trip steady_skip)
  show ?thesis
  proof (cases "refused \<or> fst (create_stream i (streams c)) = None")
    case True
    then show ?thesis using refuse
      by (auto simp: begin_initial_request_def Let_def beyond_def [symmetric] refused_def [symmetric])
  next
    case False
    then obtain s where s: "fst (create_stream i (streams c)) = Some s" "\<not> refused" by auto
    let ?c1 = "c\<lparr>streams := snd (create_stream i (streams c)), opened := opened c @ [i]\<rparr>"
    let ?c2 = "?c1\<lparr>last_peer_stream_id := i, highest_peer_stream_id := max (highest_peer_stream_id c) i\<rparr>"
    have "reaches k c ?c2"
      by (rule reaches_same_core [OF reaches_create [OF c s(1) i]]) (simp_all add: same_core_def failed_def)
    then have "reaches k c (if es then update_stream i (snd \<circ> record_remote_head_end_stream) ?c2 else ?c2)"
      by (simp add: reaches_update [OF quiet_remote(1)])
    from reaches_keeps [OF keeps_header_block this] show ?thesis
      using s by (auto simp: begin_initial_request_def Let_def beyond_def [symmetric]
          refused_def [symmetric] intro: reaches_steady)
  qed
qed

lemma steady_begin_request:
  assumes g: "credit_calls_ok g" and c: "calm k c" and i: "initial \<Longrightarrow> i \<noteq> 0 \<and> i \<notin> set (opened c)"
  shows "steady k c (begin_request_headers g initial i es c)"
  using steady_begin_initial [OF c] i steady_refl [OF c] steady_peer_reset [OF g c live_nonzero]
    steady_keeps [OF keeps_header_block c]
  by (auto simp: begin_request_headers_def split: option.splits)

lemma steady_begin_response:
  assumes g: "credit_calls_ok g" and c: "calm k c"
  shows "steady k c (begin_response_headers g i es c)"
proof -
  have "steady k c (None, (if es then update_stream i (snd \<circ> record_remote_head_end_stream) c else c)
      \<lparr>header_block := b\<rparr>)" for b
    by (intro reaches_steady reaches_keeps [OF keeps_header_block])
      (simp add: reaches_refl [OF c] reaches_update [OF quiet_remote(1)])
  then show ?thesis
    using steady_refl [OF c] steady_peer_reset [OF g c live_nonzero] steady_keeps [OF keeps_header_block c]
    by (auto simp: begin_response_headers_def split: option.splits)
qed

lemma reaches_push_promise:
  assumes c: "calm k c" and p: "promised \<noteq> 0"
  shows "reaches k c (begin_push_promise g associated promised c)"
proof (cases "enable_push c")
  case False
  then show ?thesis using reaches_keeps [OF keeps_fail reaches_refl [OF c]]
    by (simp add: begin_push_promise_def)
next
  case True
  let ?s = "snd (record_remote_head_end_stream (make_stream promised))"
  have id: "stream_id ?s \<noteq> 0"
    using quiet_id_kept [OF quiet_remote(1)] p by (simp add: make_stream_fields)
  have "conn_ok k (c\<lparr>last_peer_stream_id := x, highest_peer_stream_id := y, push_scratch := Some ?s,
      push_associated := a, header_block := b\<rparr>)" for x y a b
    using c id unfolding calm_def conn_ok_def record_ok_def queued_def lookup_stream_def balanced_def
      leases_ok_def lease_ok_def failed_def by simp
  moreover have "evolves c (c\<lparr>last_peer_stream_id := x, highest_peer_stream_id := y, push_scratch := r,
      push_associated := a, header_block := b\<rparr>)" for x y a b r
    by (auto simp: evolves_def failed_def lookup_stream_def intro: stream_run_refl)
  ultimately show ?thesis
    using True c by (simp add: begin_push_promise_def reaches_def calm_def)
qed

lemma steady_begin_headers:
  assumes g: "credit_calls_ok g" and c: "calm k c"
    and new: "\<not> is_client c \<Longrightarrow> hf_promised frame = None \<Longrightarrow> hf_initial frame \<Longrightarrow>
      hf_stream frame \<noteq> 0 \<and> hf_stream frame \<notin> set (opened c)"
    and promised: "hf_promised frame \<noteq> Some 0"
    and server: "\<not> is_client c \<Longrightarrow> hf_promised frame = None"
  shows "steady k c (on_begin_headers g frame c)"
proof -
  let ?c0 = "c\<lparr>header_block := None\<rparr>"
  let ?c1 = "if hf_promised frame = None \<and> receive_frame_metadata ?c0 \<and> hf_priority frame
    then publish_event Metadata_event ?c0 else ?c0"
  have c0: "reaches k c ?c0" by (rule reaches_keeps [OF keeps_header_block reaches_refl [OF c]])
  then have c1: "reaches k c ?c1" using reaches_publish [OF c0, of Metadata_event] by simp
  then have ok: "calm k ?c1" by (simp add: reaches_def)
  have same: "opened ?c1 = opened c" "is_client ?c1 = is_client c"
    by (simp_all add: publish_event_def)
  have "steady k ?c1 (if \<not> is_client ?c1
      then begin_request_headers g (hf_initial frame) (hf_stream frame) (hf_end_stream frame) ?c1
      else case hf_promised frame of
        Some promised \<Rightarrow> (None, begin_push_promise g (hf_stream frame) promised ?c1)
      | None \<Rightarrow> begin_response_headers g (hf_stream frame) (hf_end_stream frame) ?c1)"
    using steady_begin_request [OF g ok] steady_begin_response [OF g ok]
      reaches_steady [OF reaches_push_promise [OF ok]] new promised server unfolding same
    by (auto split: option.splits)
  from steady_after [OF c1 this] show ?thesis
    unfolding on_begin_headers_def Let_def using reaches_steady [OF c0] by (rule if_split [THEN iffD2, OF conjI, rule_format, rotated])
qed

lemma steady_reject_block:
  assumes g: "credit_calls_ok g" and c: "calm k c" and i: "i \<noteq> 0"
  shows "steady k c (reject_header_block g i malformed c)"
  unfolding reject_header_block_def
proof (rule steady_then [where f = "reset_stream_for_peer_error g i protocol_error"])
  show "steady k c (reset_stream_for_peer_error g i protocol_error c)"
    by (rule steady_peer_reset [OF g c i])
next
  fix d :: "'a h2_connection"
  assume d: "calm k d"
  have "keeps (\<lambda>c. let c1 = c\<lparr>malformed_request_streams := malformed_request_streams c + 1\<rparr> in
      if malformed_request_streams c1 \<ge> max_malformed_request_streams
        then fail_connection g enhance_your_calm c1 else c1)"
    unfolding Let_def by (rule keeps_if [OF keeps_comp [OF keeps_counter(2) keeps_fail] keeps_counter(2)])
  then show "steady k d ((if \<not> malformed then skip
      else pure_op (\<lambda>c. let c1 = c\<lparr>malformed_request_streams := malformed_request_streams c + 1\<rparr> in
        if malformed_request_streams c1 \<ge> max_malformed_request_streams
          then fail_connection g enhance_your_calm c1 else c1)) d)"
    using steady_skip [OF d] steady_pure [OF _ d] by simp
qed

lemma quiet_declare: "quiet (snd \<circ> declare_field f)"
  using quiet_mutators(12) by (cases "declared_length f") (simp_all add: declare_field_def comp_def quiet_id)

lemma steady_header:
  assumes g: "credit_calls_ok g" and c: "calm k c" and i: "i \<noteq> 0"
  shows "steady k c (on_header g i f c)"
proof (cases "failed c \<or> header_block c = None")
  case True
  then show ?thesis using steady_refl [OF c] by (auto simp: on_header_def)
next
  case False
  then obtain b where b: "header_block c = Some b" "\<not> failed c" by auto
  show ?thesis
  proof (cases b)
    case (Stream_block kind j)
    have up: "reaches k c (update_stream j (snd \<circ> declare_field f) c)"
      by (rule reaches_update [OF quiet_declare reaches_refl [OF c]])
    then have "reaches k c ((update_stream j (snd \<circ> declare_field f) c)\<lparr>header_block := None\<rparr>)"
      by (rule reaches_keeps [OF keeps_header_block])
    then have "steady k c (reject_header_block g i m
        ((update_stream j (snd \<circ> declare_field f) c)\<lparr>header_block := None\<rparr>))" for m
      using steady_after steady_reject_block [OF g _ i] unfolding reaches_def by blast
    then show ?thesis using b Stream_block reaches_steady [OF up] steady_refl [OF c]
      by (simp add: on_header_def Let_def split: option.splits)
  next
    case (Promise_block reject)
    show ?thesis
    proof (cases "push_scratch c")
      case None
      then show ?thesis using b Promise_block steady_refl [OF c] by (simp add: on_header_def)
    next
      case (Some scratch)
      have id: "stream_id (snd (declare_field f scratch)) \<noteq> 0"
        using quiet_id_kept [OF quiet_declare] c Some by (simp add: calm_def conn_ok_def)
      have "conn_ok k (c\<lparr>push_scratch := Some (snd (declare_field f scratch))\<rparr>)"
        using c id unfolding calm_def conn_ok_def record_ok_def queued_def lookup_stream_def balanced_def
          leases_ok_def lease_ok_def failed_def by simp
      moreover have "evolves c (c\<lparr>push_scratch := r\<rparr>)" for r
        by (auto simp: evolves_def failed_def lookup_stream_def intro: stream_run_refl)
      ultimately have "steady k c (None, c\<lparr>push_scratch := Some (snd (declare_field f scratch))\<rparr>)"
        using c by (simp add: steady_def calm_def)
      moreover have "reaches k c (c\<lparr>header_block := None, push_scratch := None\<rparr>)"
        by (rule reaches_same_core [OF reaches_refl [OF c]]) (simp_all add: same_core_def failed_def)
      then have "steady k c (reset_stream_for_peer_error g i protocol_error
          (c\<lparr>header_block := None, push_scratch := None\<rparr>))"
        using steady_after steady_peer_reset [OF g _ i] unfolding reaches_def by blast
      ultimately show ?thesis using b Promise_block Some by (simp add: on_header_def)
    qed
  qed
qed

subsection \<open>Complete heads\<close>

lemma quiet_and_then:
  assumes "quiet (snd \<circ> f)" "quiet (snd \<circ> h)"
  shows "quiet (snd \<circ> and_then f h)"
proof
  fix s
  have f: "quiet_at (snd \<circ> f) s" and h: "quiet_at (snd \<circ> h) (snd (f s))" using assms by blast+
  have "quiet_at (\<lambda>s. snd (h (snd (f s)))) s"
    using f h by (auto simp: quiet_at_def intro: stream_run_trans)
  then show "quiet_at (snd \<circ> and_then f h) s"
    using f by (auto simp: and_then_def quiet_at_def split: prod.splits bool.splits)
qed

lemma quiet_if: "quiet (snd \<circ> f) \<Longrightarrow> quiet (snd \<circ> h) \<Longrightarrow> quiet (snd \<circ> (\<lambda>s. if b s then f s else h s))"
  by (simp add: quiet_at_def)

lemma quiet_require: "quiet (snd \<circ> require p)"
  using quiet_id by (simp add: require_def comp_def)

lemma quiet_always: "quiet f \<Longrightarrow> quiet (snd \<circ> always f)"
  by (simp add: always_def comp_def)

lemma apply_head_eq:
  "apply_head head = (case head of
     Malformed_head \<Rightarrow> require (\<lambda>_. False)
   | Regular_head \<Rightarrow> (\<lambda>s. if tunnel_is_pending (tunnel s) then finalize_remote_connect_head s
       else finalize_remote_content_head s)
   | Connect_head form \<Rightarrow> and_then (on_tunnel (tunnel_begin form))
       (\<lambda>s. if tunnel_is_pending (tunnel s) then finalize_remote_connect_head s
         else finalize_remote_content_head s))"
  by (rule ext) (auto simp: apply_head_def require_def and_then_def split: request_head.splits prod.splits bool.splits)

lemma quiet_apply_head: "quiet (snd \<circ> apply_head head)"
  unfolding apply_head_eq
  by (cases head) (simp_all add: quiet_require quiet_if quiet_and_then quiet_remote quiet_begin_tunnel del: comp_apply)

lemma finish_request_head_eq: "finish_request_head head = and_then (apply_head head) (require valid_end)"
  by (rule ext) (auto simp: finish_request_head_def and_then_def require_def valid_end_def split: prod.splits bool.splits)

lemma quiet_finish_head: "quiet (snd \<circ> finish_request_head head)"
  unfolding finish_request_head_eq by (rule quiet_and_then [OF quiet_apply_head quiet_require])

lemma quiet_final_head: "quiet (snd \<circ> apply_final_head code semantics)"
proof -
  define settle where "settle = (if semantics = Connect_tunnel
      then and_then accept_connect (always (snd \<circ> open_local_connect_tunnel \<circ> begin_local_content_unbounded))
      else and_then reject_connect (require valid_end))"
  have "quiet (snd \<circ> and_then accept_connect
      (always (snd \<circ> open_local_connect_tunnel \<circ> begin_local_content_unbounded)))"
    by (intro quiet_and_then quiet_always quiet_compound quiet_comp quiet_mutators quiet_send)
  moreover have "quiet (snd \<circ> and_then reject_connect (require valid_end))"
    by (intro quiet_and_then quiet_require quiet_compound)
  ultimately have settle: "quiet (snd \<circ> settle)" by (simp add: settle_def)
  have tail: "quiet (snd \<circ> (\<lambda>s. if tunnel_is_pending (tunnel s) then
      (if semantics = Connect_tunnel
         then and_then accept_connect (always (snd \<circ> open_local_connect_tunnel \<circ> begin_local_content_unbounded)) s
       else and_then reject_connect (require valid_end) s)
    else finalize_remote_content_head s))"
  proof -
    have eq: "(if semantics = Connect_tunnel
         then and_then accept_connect (always (snd \<circ> open_local_connect_tunnel \<circ> begin_local_content_unbounded)) s
       else and_then reject_connect (require valid_end) s) = settle s" for s
      by (cases "semantics = Connect_tunnel") (simp_all add: settle_def)
    show ?thesis unfolding eq by (rule quiet_if [OF settle quiet_remote(2)])
  qed
  have sel: "quiet (snd \<circ> (if semantics = Without_content then select_remote_content_metadata_only
      else require (\<lambda>_. True)))"
    using quiet_mutators(13) quiet_require by simp
  show ?thesis unfolding apply_final_head_def
    by (intro quiet_and_then quiet_always quiet_mutators sel tail)
qed

lemma reaches_emit:
  assumes c: "reaches k b c"
  shows "reaches k b (emit_request_headers i c)"
proof (cases "lookup_stream i c")
  case None
  then show ?thesis using c by (simp add: emit_request_headers_def)
next
  case (Some s)
  have ok: "calm k c" using c by (simp add: reaches_def)
  have i: "i \<in> set (opened c)" by (rule live_opened [OF ok Some])
  have pub: "reaches k c (publish_event ev d)" if "reaches k c d" "event_streams ev = [i]" for ev d
    by (rule reaches_publish [OF that(1)]) (use that(2) i in simp)
  define c1 where "c1 = (if \<not> is_client c then pin_stream i (erase_priority i c) else c)"
  define c2 where "c2 = publish_event (Message_head i (request_content_canceled s)
    (\<not> remote_peer_half_closed (remote_receive s) \<and> (is_client c \<or> \<not> tunnel_is_pending (tunnel s)))) c1"
  have emit: "emit_request_headers i c =
      (if \<not> is_client c \<and> tunnel_is_pending (tunnel s) then c2
       else release_local_request_stream_if_closed i
         (if remote_peer_half_closed (remote_receive s)
            then publish_event (if is_client c \<and> tunnel s = Tunnel_accepted then Tunnel_end i else Message_end i) c2
          else c2))"
    unfolding emit_request_headers_def c2_def c1_def Let_def Some option.case by auto
  have "reaches k c c1"
    using reaches_pin [OF reaches_keeps [OF keeps_erase_priority reaches_refl [OF ok]]]
      reaches_refl [OF ok] by (simp add: c1_def)
  then have c2: "reaches k c c2" unfolding c2_def by (rule pub) simp
  have "reaches k c (release_local_request_stream_if_closed i (if h then publish_event ev c2 else c2))"
    if "event_streams ev = [i]" for h ev
    by (rule reaches_keeps [OF keeps_release_local_if_closed]) (simp add: c2 pub [OF c2 that])
  then have "reaches k c (emit_request_headers i c)"
    using c2 unfolding emit by simp
  then show ?thesis using c unfolding reaches_def by (meson evolves_trans)
qed

lemma steady_end_rejected: "calm k c \<Longrightarrow> steady k c (end_rejected_connect g i c)"
  unfolding end_rejected_connect_def
proof (rule steady_call_pure)
  have "keeps (update_stream i (snd \<circ> reject_local_connect))" by (rule keeps_update [OF quiet_send(6)])
  then show "keeps (\<lambda>c. if can_send_empty_end_stream g i c
      then update_stream i (snd \<circ> reject_local_connect) c else c)"
    by (rule keeps_if [OF _ keeps_id])
qed

lemma reaches_informational:
  assumes c: "calm k c" and s: "lookup_stream i c = Some s"
  shows "reaches k c (snd (finish_informational_head i continue s c))"
proof -
  have "reaches k c (if continue then update_stream i (snd \<circ> release_request_continue)
        (update_stream i (activate_push \<circ> mark_informational_response) c)
      else update_stream i (activate_push \<circ> mark_informational_response) c)"
    by (simp add: reaches_update [OF quiet_mutators(15)] reaches_refl [OF c]
        reaches_update [OF quiet_comp [OF quiet_mutators(4) quiet_mutators(3)]])
  then have "reaches k c (publish_event (Informational_head i b)
      (if continue then update_stream i (snd \<circ> release_request_continue)
        (update_stream i (activate_push \<circ> mark_informational_response) c)
      else update_stream i (activate_push \<circ> mark_informational_response) c))" for b
    by (rule reaches_publish) (use live_opened [OF c s] in simp)
  then show ?thesis
    using reaches_refl [OF c] by (simp add: finish_informational_head_def Let_def)
qed

lemma steady_response_head:
  assumes c: "calm k c"
  shows "steady k c (sum_op (finish_response_head g i head c))"
proof (cases "lookup_stream i c")
  case None
  then show ?thesis using steady_refl [OF c] by (simp add: finish_response_head_def)
next
  case (Some s)
  show ?thesis
  proof (cases head)
    case No_status
    then show ?thesis using Some steady_refl [OF c] by (simp add: finish_response_head_def)
  next
    case (Informational_status continue)
    then show ?thesis using Some reaches_informational [OF c Some, of continue]
      by (simp add: finish_response_head_def steady_def reaches_def)
  next
    case (Final_status code semantics)
    let ?c1 = "update_stream i (snd \<circ> apply_final_head code semantics) c"
    let ?f = "if tunnel_is_pending (tunnel s) \<and> semantics \<noteq> Connect_tunnel
      then end_rejected_connect g i else skip"
    have c1: "reaches k c ?c1" by (rule reaches_update [OF quiet_final_head reaches_refl [OF c]])
    then have ok: "calm k ?c1" by (simp add: reaches_def)
    obtain r c2 where r: "?f ?c1 = (r, c2)" by fastforce
    have "steady k ?c1 (r, c2)"
      unfolding r [symmetric] using steady_end_rejected [OF ok, of g i] steady_skip [OF ok] by simp
    then have c2: "reaches k c c2"
      using c1 unfolding steady_def reaches_def by (auto intro: evolves_trans)
    have "reaches k c (emit_request_headers i (update_stream i activate_push c2))"
      by (rule reaches_emit [OF reaches_update [OF quiet_mutators(3) c2]])
    then show ?thesis
      using Some Final_status r c1 c2
      by (auto simp: finish_response_head_def Let_def steady_def reaches_def split: option.splits)
  qed
qed

lemma reaches_trailers: "calm k c \<Longrightarrow> reaches k c (snd (finish_trailers i c))"
proof (cases "lookup_stream i c")
  case None
  then show "calm k c \<Longrightarrow> ?thesis" by (simp add: finish_trailers_def reaches_refl)
next
  case (Some s)
  assume c: "calm k c"
  have "reaches k c (publish_event (Message_end i) (update_stream i (snd \<circ> finish_remote_content) c))"
    using calm_write_publish [OF c Some quiet_remote(4), of "Message_end i"] by (simp add: reaches_def)
  from reaches_keeps [OF keeps_release_local_if_closed this] show ?thesis
    using Some reaches_refl [OF c] by (simp add: finish_trailers_def)
qed

lemma steady_push_promise:
  assumes g: "credit_calls_ok g" and c: "calm k c"
    and promised: "promised \<noteq> 0" "promised \<notin> set (opened c)" "push_associated c \<in> set (opened c)"
      "push_associated c \<noteq> 0"
  shows "steady k c (finish_push_promise g promised reject head safe c)"
proof (cases "push_scratch c")
  case None
  then show ?thesis using steady_refl [OF c] by (simp add: finish_push_promise_def)
next
  case (Some scratch)
  let ?c = "c\<lparr>push_scratch := None\<rparr>"
  define refusal where "refusal = push_refusal reject head safe scratch"
  have c0: "reaches k c ?c"
    by (rule reaches_same_core [OF reaches_refl [OF c]]) (simp_all add: same_core_def failed_def)
  then have ok: "calm k ?c" by (simp add: reaches_def)
  have refuse: "steady k ?c (then_op (if reject then reset_stream_for_peer_error g (push_associated ?c) protocol_error
      else skip) (call_session g (ng_submit_rst_stream g promised e)) ?c)" for e
  proof (rule steady_then)
    show "steady k ?c ((if reject then reset_stream_for_peer_error g (push_associated ?c) protocol_error
      else skip) ?c)"
      using steady_peer_reset [OF g ok] steady_skip [OF ok] promised(4) by simp
  qed (rule steady_call)
  show ?thesis
  proof (cases "refusal \<noteq> None \<or> fst (create_stream promised (streams ?c)) = None")
    case True
    then show ?thesis using Some steady_after [OF c0 refuse]
      by (auto simp: finish_push_promise_def Let_def refusal_def [symmetric] split: option.splits)
  next
    case False
    then obtain s where s: "fst (create_stream promised (streams ?c)) = Some s" "refusal = None" by auto
    let ?c1 = "?c\<lparr>streams := snd (create_stream promised (streams ?c)), opened := opened ?c @ [promised]\<rparr>"
    have c1: "reaches k ?c ?c1"
      by (rule reaches_create [OF ok s(1) promised(1)]) (use promised(2) in simp)
    have quiet: "quiet (reserve_push Push_remote \<circ> snd \<circ> commit_local_head_end_stream \<circ> begin_local_content_forbidden)"
      using quiet_comp [OF quiet_mutators(6) quiet_comp [OF quiet_send(3) quiet_mutators(2)]]
      by (simp add: comp_assoc del: comp_apply)
    have c2: "reaches k ?c1 (update_stream promised
        (reserve_push Push_remote \<circ> snd \<circ> commit_local_head_end_stream \<circ> begin_local_content_forbidden)
        (pin_stream promised ?c1))"
      by (rule reaches_update [OF quiet reaches_pin [OF reaches_refl]]) (use c1 in \<open>simp add: reaches_def\<close>)
    have "reaches k ?c1 (publish_event (Push_promise_event (push_associated ?c) promised)
        (update_stream promised
        (reserve_push Push_remote \<circ> snd \<circ> commit_local_head_end_stream \<circ> begin_local_content_forbidden)
        (pin_stream promised ?c1)))"
      by (rule reaches_publish [OF c2]) (use promised(3) in simp)
    then have "reaches k c (publish_event (Push_promise_event (push_associated ?c) promised)
        (update_stream promised
        (reserve_push Push_remote \<circ> snd \<circ> commit_local_head_end_stream \<circ> begin_local_content_forbidden)
        (pin_stream promised ?c1)))"
      using c0 c1 unfolding reaches_def by (meson evolves_trans)
    then show ?thesis using s Some
      by (auto simp: finish_push_promise_def Let_def refusal_def [symmetric] intro: reaches_steady)
  qed
qed

end
