(* ===== verification/H2_Frames.thy ===== *)
theory H2_Frames
  imports H2_Callbacks
begin

text \<open>
  The remaining callbacks: complete field blocks, DATA, metadata frames, and the callbacks of a send.
  Together: every callback is steady, provided the peer's frames respect flow control and the
  numbering of streams, which nghttp2 checks before it calls back.
\<close>

lemma steady_finish_block:
  assumes g: "credit_calls_ok g" and c: "calm k c"
    and promise: "\<And>b. header_block c = Some (Promise_block b) \<Longrightarrow> promised \<noteq> 0 \<and>
      promised \<notin> set (opened c) \<and> push_associated c \<in> set (opened c) \<and> push_associated c \<noteq> 0"
  shows "steady k c (finish_header_block g promised block c)"
proof -
  let ?c = "c\<lparr>header_block := None\<rparr>"
  have c0: "reaches k c ?c" by (rule reaches_keeps [OF keeps_header_block reaches_refl [OF c]])
  then have ok: "calm k ?c" by (simp add: reaches_def)
  show ?thesis
  proof (cases "header_block c")
    case None
    then show ?thesis using steady_refl [OF c] by (simp add: finish_header_block_def)
  next
    case (Some b)
    show ?thesis
    proof (cases b)
      case (Promise_block reject)
      then show ?thesis
        using Some promise steady_after [OF c0 steady_push_promise [OF g ok]]
        by (simp add: finish_header_block_def)
    next
      case (Stream_block kind i)
      show ?thesis
      proof (cases "lookup_stream i ?c")
        case None
        then show ?thesis using Some Stream_block reaches_steady [OF c0]
          by (simp add: finish_header_block_def)
      next
        case live: (Some s)
        have reject: "steady k c (reject_header_block g i m d)" if "reaches k c d" for d m
          using steady_after [OF that] steady_reject_block [OF g _ live_nonzero [OF live]] that
          by (simp add: reaches_def)
        have request: "reaches k c (update_stream i (snd \<circ> finish_request_head head) ?c)" for head
          by (rule reaches_update [OF quiet_finish_head c0])
        have emit: "reaches k c (emit_request_headers i d)" if "reaches k c d" for d
          using reaches_emit [of k c d i] that .
        obtain r d where r: "finish_response_head g i (db_response block) ?c = (r, d)" by fastforce
        have d: "reaches k c d"
          using steady_after [OF c0 steady_response_head [OF ok]] r unfolding steady_def reaches_def
          by (metis sum_op_simps(3) snd_conv)
        obtain b t where t: "finish_trailers i ?c = (b, t)" by fastforce
        have trailers: "reaches k c t"
          using reaches_trailers [OF ok, of i] c0 t unfolding reaches_def by (auto intro: evolves_trans)
        show ?thesis
          using Some Stream_block live r t emit [OF request] reject [OF request] reject [OF d]
            reject [OF trailers] d trailers
          by (auto simp: finish_header_block_def Let_def intro: reaches_steady
              split: header_block_kind.splits sum.splits bool.splits)
      qed
    qed
  qed
qed

subsection \<open>Metadata\<close>

lemma keeps_metadata: "keeps (publish_event Metadata_event)"
  by (rule keeps_publish_none) simp

lemma keeps_choice: "(b \<Longrightarrow> keeps f) \<Longrightarrow> (\<not> b \<Longrightarrow> keeps h) \<Longrightarrow> keeps (if b then f else h)"
  by simp

lemma reaches_priority_update: "calm k c \<Longrightarrow> reaches k c (process_priority_update g i parsed c)"
  unfolding process_priority_update_def Let_def
  by (auto intro!: reaches_refl reaches_keeps [OF keeps_fail] reaches_keeps [OF keeps_metadata]
      reaches_keeps [OF keeps_counter(11)] split: option.splits)

lemma reaches_settings: "calm k c \<Longrightarrow> reaches k c (process_settings c)"
  unfolding process_settings_def Let_def
  by (auto intro!: reaches_refl reaches_keeps [OF keeps_metadata] reaches_keeps [OF keeps_counter(9)])

lemma reaches_advertisement: "calm k c \<Longrightarrow> reaches k c (process_advertisement frame c)"
  unfolding process_advertisement_def
  by (auto intro!: reaches_refl reaches_keeps [OF keeps_metadata])

lemma steady_ping: "calm k c \<Longrightarrow> steady k c (process_ping g ack payload c)"
  by (auto simp: process_ping_def intro!: steady_refl steady_finish_round_trip
      reaches_steady [OF reaches_keeps [OF keeps_counter(10) reaches_refl]] split: ping_payload.splits)

lemma keeps_block_fields:
  "keeps (\<lambda>c. c\<lparr>header_block_bytes := n c, header_block_in_progress := b\<rparr>)"
  "keeps (\<lambda>c. c\<lparr>header_block_bytes := n c\<rparr>)" "keeps (\<lambda>c. c\<lparr>highest_peer_stream_id := m c\<rparr>)"
  by (rule keeps_same_core; simp add: same_core_def failed_def)+

lemma reaches_begin_frame: "calm k c \<Longrightarrow> reaches k c (on_begin_frame g frame c)"
  unfolding on_begin_frame_def Let_def
  by (cases frame)
    (auto intro!: reaches_refl reaches_keeps [OF keeps_fail] reaches_keeps [OF keeps_block_fields(1)]
      reaches_keeps [OF keeps_block_fields(2)] reaches_keeps [OF keeps_block_fields(3)]
      reaches_keeps [OF keeps_counter(8)])

subsection \<open>Callbacks of a send\<close>

lemma steady_stream_close:
  assumes g: "credit_calls_ok g" and c: "calm k c"
  shows "steady k c (on_stream_close g i e c)"
proof -
  let ?c1 = "c\<lparr>owner_resets := remove1 i (owner_resets c)\<rparr>"
  define c2 where "c2 = (if block_on i ?c1 \<and> lookup_stream i ?c1 \<noteq> None
    then ?c1\<lparr>header_block := None\<rparr> else ?c1)"
  have c1: "reaches k c ?c1" by (rule reaches_keeps [OF keeps_counter(4) reaches_refl [OF c]])
  have "reaches k c (?c1\<lparr>header_block := None\<rparr>)" by (rule reaches_keeps [OF keeps_header_block c1])
  with c1 have c2: "reaches k c c2" unfolding c2_def by simp
  then have "steady k c (discard (close_stream g i Close_local e) c2)"
    using steady_after [OF c2] steady_close [OF g] by (simp add: discard_sum close_stream_def reaches_def)
  moreover have "on_stream_close g i e c = (case lookup_stream i c2 of None \<Rightarrow> (None, c2)
      | Some s \<Rightarrow> if is_aborted s \<or> stream_is_closed s \<or> failed c2 then (None, c2)
          else discard (close_stream g i Close_local e) c2)"
    by (simp only: on_stream_close_def Let_def c2_def)
  ultimately show ?thesis using reaches_steady [OF c2] by (auto split: option.splits)
qed

lemma reaches_before_send: "calm k c \<Longrightarrow> reaches k c (snd (before_frame_send g frame c))"
  unfolding before_frame_send_def
  by (cases frame) (auto intro!: reaches_refl reaches_keeps [OF keeps_fail] reaches_keeps [OF keeps_counter(4)]
      reaches_keeps [OF keeps_counter(5)] reaches_keeps [OF keeps_counter(6)])

lemma keeps_goaway_sent:
  "keeps (\<lambda>c. c\<lparr>header_block_in_progress := False, header_block := None, push_scratch := None,
    local_state := connection_fail e (local_state c)\<rparr>)"
  by (rule keeps_same_core) (simp_all add: same_core_def failed_def)

lemma reaches_frame_send:
  assumes g: "credit_calls_ok g" and c: "calm k c" and k: "inside k" "exempt k = {}"
  shows "reaches k c (on_frame_send g frame c)"
proof -
  have send: "sends g k" using k by (simp add: sends_def)
  have retry: "reaches k c (retry_deferred_stream_lease g i d)" if d: "reaches k c d" for d i
    using calm_retry [OF g, where c = d and k = k and i = i] send k d
    by (auto simp: reaches_def intro: evolves_trans)
  have "reaches k c (release_local_request_stream_if_closed i
      (update_stream i (snd \<circ> reject_local_connect) c))" for i
    by (rule reaches_keeps [OF keeps_release_local_if_closed
          reaches_update [OF quiet_send(6) reaches_refl [OF c]]])
  from retry [OF this] show ?thesis
    using reaches_refl [OF c] reaches_keeps [OF keeps_goaway_sent reaches_refl [OF c]]
    by (auto simp: on_frame_send_def split: sent_frame.splits option.splits)
qed

subsection \<open>DATA\<close>

text \<open>
  nghttp2 enforces the connection's flow-control window: what was received and not yet credited
  stays below the largest window, so no debt of a record wraps.
\<close>

definition window_respected :: "nat \<Rightarrow> 's h2_connection \<Rightarrow> bool" where
  "window_respected n c \<longleftrightarrow> received_total c + n \<le> credited_total c + (2 ^ 31 - 1)"

definition arriving :: "nat \<Rightarrow> mode \<Rightarrow> mode" where
  "arriving n k = k\<lparr>in_flight := in_flight k + n\<rparr>"

lemma arriving_fields [simp]:
  "in_flight (arriving n k) = in_flight k + n" "exempt (arriving n k) = exempt k"
  "uncounted (arriving n k) = uncounted k" "inside (arriving n k) = inside k"
  "(arriving n k)\<lparr>in_flight := in_flight k\<rparr> = k"
  by (simp_all add: arriving_def)

lemma reaches_received:
  assumes c: "calm k c"
  shows "evolves c (c\<lparr>received_total := received_total c + n\<rparr>)"
    "calm (arriving n k) (c\<lparr>received_total := received_total c + n\<rparr>)"
proof -
  show "evolves c (c\<lparr>received_total := received_total c + n\<rparr>)"
    by (auto simp: evolves_def failed_def lookup_stream_def intro: stream_run_refl)
  show "calm (arriving n k) (c\<lparr>received_total := received_total c + n\<rparr>)"
    using c unfolding calm_def conn_ok_def record_ok_def queued_def lookup_stream_def balanced_def
      leases_ok_def lease_ok_def failed_def by auto
qed

lemma solid_arrived_consume:
  assumes g: "credit_calls_ok g" and c: "calm (arriving n k) c" and i: "i \<noteq> 0"
  shows "solid k c (consume_received g i n c)"
  by (rule solid_consume [OF g c i]) (simp_all add: arriving_def)

lemma solid_drop_data:
  assumes g: "credit_calls_ok g" and c: "calm (arriving n k) c" and i: "i \<noteq> 0"
  shows "solid k c (drop_data g i e n c)"
  unfolding drop_data_def
proof (rule solid_then [where m = "arriving n k"])
  show "solid (arriving n k) c (reset_stream_for_peer_error g i e c)"
    by (rule solid_weaken [OF solid_peer_reset [OF g c i]]) auto
qed (use solid_arrived_consume [OF g _ i] in auto)

lemma debt_run: "stream_run s (add_window_debt n s)"
  by (rule stream_run_step [OF stream_run_refl], rule stream_step.intros)

lemma solid_deliver:
  assumes c: "calm (arriving n k) c" and s: "lookup_stream i c = Some s" and live: "\<not> failed c"
    and n: "debts (streams c) + n < 2 ^ 32" and ev: "event_streams ev = [i]" and X: "exempt k = {}"
  shows "solid k c (None, deliver_data ev i n c)"
proof -
  let ?f = "add_window_debt (word_of_nat n)"
  have table: "table_ok (streams c)" by (rule calm_table [OF c])
  have "unat (window_debt s) \<le> debts (streams c)"
    using streams.total_member [OF table, of i s "\<lambda>s. unat (window_debt s)"] s
    by (simp add: debts_def lookup_stream_def)
  then have fit: "unat (window_debt s) + n < 2 ^ 32" using n by simp
  have debt: "unat (window_debt (?f s)) = unat (window_debt s) + n"
    using fit by (simp add: add_window_debt_def unat_word_ariths unat_of_nat)
  have id: "stream_id (?f s) = stream_id s" by (simp add: add_window_debt_def)
  have waits: "waits s \<longrightarrow> waits (?f s)"
  proof
    assume w: "waits s"
    have "stream_is_closed s \<Longrightarrow> stream_is_closed (?f s)" using closed_run [OF debt_run] by blast
    moreover have "window_debt s \<noteq> 0 \<Longrightarrow> window_debt (?f s) \<noteq> 0"
      using debt by (metis add_is_0 unat_eq_zero)
    ultimately show "waits (?f s)"
      using w by (auto simp: waits_def has_outstanding_def has_pending_events_def add_window_debt_def)
  qed
  have "evolves c (update_stream i ?f c) \<and> conn_ok k (update_stream i ?f c)"
    using conn_ok_update [where f = ?f and k = "arriving n k" and m = k, OF _ s id debt_run] c waits debt X
    by (auto simp: calm_def add_window_debt_def)
  then have up: "reaches k c (update_stream i ?f c) " using c by (simp add: reaches_def calm_def)
  have "i \<in> set (opened c)" by (rule live_opened [OF c s])
  then have "reaches k c (deliver_data ev i n c)"
    unfolding deliver_data_def using reaches_publish [OF up, of ev] ev by simp
  then show ?thesis by (simp add: solid_def reaches_def)
qed

lemma debts_quiet:
  assumes c: "calm k c" and f: "quiet f"
  shows "debts (streams (update_stream i f c)) = debts (streams c)"
proof (cases "lookup_stream i c")
  case (Some s)
  have "stream_id (f s) = stream_id s" "window_debt (f s) = window_debt s"
    using f by (auto simp: quiet_at_def)
  then show ?thesis using update_debts [OF calm_table [OF c] Some, of f] by simp
qed (simp add: update_absent)

lemma steady_data:
  assumes g: "credit_calls_ok g" and c: "calm k c" and k: "exempt k = {}"
    and i: "i \<noteq> 0" and window: "window_respected (length data) c"
  shows "steady k c (on_data_chunk_recv g i data c)"
proof -
  define n where "n = length data"
  define d where "d = c\<lparr>received_total := received_total c + n\<rparr>"
  have d: "evolves c d" "calm (arriving n k) d" using reaches_received [OF c] by (auto simp: d_def)
  have wide: "debts (streams c) + n < 2 ^ 32" if "\<not> failed c"
    using c window k that by (simp add: calm_def conn_ok_def balanced_def window_respected_def n_def)
  have fields: "failed d = failed c" "streams d = streams c" by (simp_all add: d_def failed_def)
  have consume: "steady k d (consume_received g i n e)" if "reaches (arriving n k) d e" for e
    using that solid_steady [OF solid_pre [OF _ solid_arrived_consume [OF g _ i]]] by (simp add: reaches_def)
  have drop: "steady k d (drop_data g i x n e)" if "reaches (arriving n k) d e" for e x
    using that solid_steady [OF solid_pre [OF _ solid_drop_data [OF g _ i]]] by (simp add: reaches_def)
  have up: "reaches (arriving n k) d (update_stream i f d)" if "quiet f" for f
    by (rule reaches_update [OF that reaches_refl [OF d(2)]])
  have deliver: "steady k d (None, deliver_data ev i n e)"
    if e: "reaches (arriving n k) d e" "debts (streams e) = debts (streams d)" "lookup_stream i e = Some s"
      "failed e = failed c" and live: "\<not> failed c" and ev: "event_streams ev = [i]" for ev e s
  proof (rule solid_steady [OF solid_pre])
    show "evolves d e" using e(1) by (simp add: reaches_def)
    show "solid k e (None, deliver_data ev i n e)"
      by (rule solid_deliver [OF _ e(3) _ _ ev k]) (use e wide live fields in \<open>auto simp: reaches_def\<close>)
  qed
  have quiet: "steady k d (None, deliver_data ev i n (update_stream i f d))"
    if "quiet f" "lookup_stream i d = Some s" "\<not> failed c" "event_streams ev = [i]" for ev f s
    by (rule deliver [OF up [OF that(1)]])
      (use that debts_quiet [OF d(2) that(1)] lookup_quiet [OF d(2) that(1)] fields in auto)
  have plain: "steady k d (None, deliver_data ev i n d)"
    if "lookup_stream i d = Some s" "\<not> failed c" "event_streams ev = [i]" for ev s
    by (rule deliver [OF reaches_refl [OF d(2)]]) (use that fields in auto)
  have "on_data_chunk_recv g i data c = (case lookup_stream i d of
        None \<Rightarrow> consume_received g i n d
      | Some s \<Rightarrow>
          if failed d \<or> is_aborted s then consume_received g i n d
          else case remote_receive s of
            Head_pending \<Rightarrow> drop_data g i protocol_error n d
          | Head_end_stream_pending \<Rightarrow> drop_data g i protocol_error n d
          | Connect_pending _ \<Rightarrow>
              (None, deliver_data (Tunnel_data i data (word_of_nat n)) i n
                (update_stream i (snd \<circ> mark_remote_connect_tunnel_data) d))
          | Connect_rejected_awaiting_end_stream \<Rightarrow> consume_received g i n d
          | Tunnel_open \<Rightarrow> (None, deliver_data (Tunnel_data i data (word_of_nat n)) i n d)
          | Remote_content_open \<Rightarrow>
              (let accounted = fst (account_remote_content (word_of_nat n) s);
                   c1 = update_stream i (snd \<circ> account_remote_content (word_of_nat n)) d in
               case accounted of
                 Accounted \<Rightarrow>
                   if content_discarded (snd (account_remote_content (word_of_nat n) s))
                     then consume_received g i n c1
                   else (None, deliver_data (Message_data i data (word_of_nat n)) i n c1)
               | Counter_overflow \<Rightarrow> drop_data g i cancel_error n c1
               | _ \<Rightarrow> drop_data g i protocol_error n c1)
          | _ \<Rightarrow> drop_data g i stream_closed_error n d)"
    by (simp only: on_data_chunk_recv_def Let_def n_def d_def)
  moreover note refl = reaches_refl [OF d(2)] and account = quiet_mutators(14) [of "word_of_nat n"]
  ultimately have "steady k d (on_data_chunk_recv g i data c)"
    using consume [OF refl] drop [OF refl] consume [OF up [OF account]] drop [OF up [OF account]]
      plain quiet [OF account] quiet [OF quiet_remote(5)] fields
    by (simp add: Let_def split: option.splits http2_remote_receive_state.splits http2_remote_content_accounting_result.splits)
  then show ?thesis using steady_pre [OF d(1)] by simp
qed

subsection \<open>All callbacks\<close>

text \<open>
  What nghttp2 checks before it calls back: a stream is opened once and never has identifier 0, the
  promised stream of a PUSH_PROMISE is new and belongs to a stream this endpoint opened, no client
  promises anything, and DATA stays within the connection's window.
\<close>

definition promise_allowed :: "u32 \<Rightarrow> 's h2_connection \<Rightarrow> bool" where
  "promise_allowed promised c \<longleftrightarrow> promised \<noteq> 0 \<and> promised \<notin> set (opened c) \<and>
     push_associated c \<in> set (opened c) \<and> push_associated c \<noteq> 0"

definition callback_allowed :: "h2_callback \<Rightarrow> 's h2_connection \<Rightarrow> bool" where
  "callback_allowed callback c \<longleftrightarrow>
     (case callback of
        Cb_begin_headers frame \<Rightarrow>
          (if \<not> is_client c then hf_promised frame = None \<and>
             (hf_initial frame \<longrightarrow> hf_stream frame \<noteq> 0 \<and> hf_stream frame \<notin> set (opened c))
           else hf_promised frame \<noteq> Some 0)
      | Cb_header i f \<Rightarrow> i \<noteq> 0
      | Cb_frame_recv (Recv_header_block promised block) \<Rightarrow>
          (case header_block c of Some (Promise_block _) \<Rightarrow> promise_allowed promised c | _ \<Rightarrow> True)
      | Cb_data_chunk i data \<Rightarrow> i \<noteq> 0 \<and> window_respected (length data) c
      | _ \<Rightarrow> True)"

lemma steady_frame_recv:
  assumes g: "credit_calls_ok g" and c: "calm k c" and ok: "callback_allowed (Cb_frame_recv frame) c"
  shows "steady k c (on_frame_recv g frame c)"
proof (cases "failed c")
  case True
  then show ?thesis using steady_refl [OF c] by (simp add: on_frame_recv_def)
next
  case live: False
  have block: "steady k c (finish_header_block g promised b (c\<lparr>header_block_in_progress := False\<rparr>))"
    if allowed: "case header_block c of Some (Promise_block _) \<Rightarrow> promise_allowed promised c | _ \<Rightarrow> True"
    for promised b
  proof -
    have up: "reaches k c (c\<lparr>header_block_in_progress := False\<rparr>)"
      by (rule reaches_keeps [OF keeps_counter(8) reaches_refl [OF c]])
    then have "calm k (c\<lparr>header_block_in_progress := False\<rparr>)" by (simp add: reaches_def)
    then show ?thesis
      by (intro steady_after [OF up] steady_finish_block [OF g])
        (use allowed in \<open>auto simp: promise_allowed_def\<close>)
  qed
  show ?thesis
  proof (cases frame)
    case (Recv_data i es)
    then show ?thesis using live steady_refl [OF c] steady_finish_data [OF g c]
      by (simp add: on_frame_recv_def split: option.splits)
  next
    case (Recv_header_block promised b)
    then show ?thesis using live block ok by (simp add: on_frame_recv_def callback_allowed_def)
  next
    case (Recv_settings ack)
    then show ?thesis using live steady_refl [OF c] reaches_steady [OF reaches_settings [OF c]]
      by (simp add: on_frame_recv_def)
  next
    case Recv_window_update
    then show ?thesis using live steady_refl [OF c] reaches_steady [OF reaches_keeps [OF keeps_metadata reaches_refl [OF c]]]
      by (simp add: on_frame_recv_def)
  qed (use live steady_refl [OF c] steady_rst [OF g c] steady_ping [OF c] steady_goaway [OF g c]
      reaches_steady [OF reaches_priority_update [OF c]] reaches_steady [OF reaches_advertisement [OF c]]
      in \<open>simp_all add: on_frame_recv_def\<close>)
qed

theorem steady_callback:
  assumes g: "credit_calls_ok g" and c: "calm k c" and k: "exempt k = {}" "inside k"
    and ok: "callback_allowed callback c"
  shows "steady k c (callback_op g callback c)"
proof (cases callback)
  case (Cb_begin_headers frame)
  then show ?thesis using steady_begin_headers [OF g c, of frame] ok
    by (simp add: callback_op_def callback_allowed_def split: if_splits)
next
  case (Cb_header i f)
  then show ?thesis using steady_header [OF g c] ok by (simp add: callback_op_def callback_allowed_def)
next
  case (Cb_frame_recv frame)
  then show ?thesis using steady_frame_recv [OF g c] ok by (simp add: callback_op_def)
next
  case (Cb_data_chunk i data)
  then show ?thesis using steady_data [OF g c k(1)] ok by (simp add: callback_op_def callback_allowed_def)
qed (use reaches_steady [OF reaches_begin_frame [OF c]] steady_stream_close [OF g c]
    reaches_steady [OF reaches_before_send [OF c]] reaches_steady [OF reaches_frame_send [OF g c k(2,1)]]
    in \<open>simp_all add: callback_op_def\<close>)

end
