(* ===== verification/H2_Runs.thy ===== *)
theory H2_Runs
  imports H2_Frames
begin

text \<open>
  The nghttp2 session as the connection sees it: a run of the session changes its own state and
  calls back, one callback after the other, until one throws. From what nghttp2 documents about its
  calls and its runs, every public operation of the connection keeps the invariant of
  \<open>H2_Invariant\<close>.
\<close>

subsection \<open>Runs of the session\<close>

inductive runs :: "'s nghttp2 \<Rightarrow> 's h2_connection \<Rightarrow> 's h2_connection \<Rightarrow> bool" for g where
  run_done: "runs g c c"
| run_internal: "runs g c d \<Longrightarrow> runs g c (d\<lparr>session := s\<rparr>)"
| run_callback: "\<lbrakk>runs g c d; callback_failure d = None; callback_allowed callback d\<rbrakk> \<Longrightarrow>
    runs g c (guard_callback (callback_op g callback) d)"

definition ran :: "'s nghttp2 \<Rightarrow> 's h2_connection \<Rightarrow> int \<times> 's h2_connection \<Rightarrow> bool" where
  "ran g c r \<longleftrightarrow> runs g c (snd r) \<and> (callback_failure (snd r) \<noteq> None \<longrightarrow> fst r < 0)"

text \<open>A run in which a callback threw returns an error, and no other call errs but for lack of memory.\<close>

definition nghttp2_ok :: "'s nghttp2 \<Rightarrow> bool" where
  "nghttp2_ok g \<longleftrightarrow> credit_calls_ok g \<and> (\<forall>c. ran g c (ng_mem_send g c)) \<and>
     (\<forall>input c. ran g c (ng_mem_recv g input c))"

lemma conn_ok_session: "conn_ok k (c\<lparr>session := s\<rparr>) \<longleftrightarrow> conn_ok k c"
  by (simp add: conn_ok_def record_ok_def queued_def lookup_stream_def balanced_def
      leases_ok_def lease_ok_def failed_def)

lemma conn_ok_failure: "conn_ok k (c\<lparr>callback_failure := x\<rparr>) \<longleftrightarrow> conn_ok k c"
  by (simp add: conn_ok_def record_ok_def queued_def lookup_stream_def balanced_def
      leases_ok_def lease_ok_def failed_def)

lemma evolves_core:
  "evolves c (d\<lparr>session := s\<rparr>) \<longleftrightarrow> evolves c d"
  "evolves c (d\<lparr>callback_failure := x\<rparr>) \<longleftrightarrow> evolves c d"
  "evolves c (d\<lparr>in_nghttp2 := b\<rparr>) \<longleftrightarrow> evolves c d" "evolves (c\<lparr>in_nghttp2 := b\<rparr>) d \<longleftrightarrow> evolves c d"
  by (simp_all add: evolves_def failed_def lookup_stream_def)

lemma steady_guard:
  assumes "steady k c (f c)"
  shows "evolves c (guard_callback f c)" "conn_ok k (guard_callback f c)"
  using assms by (auto simp: guard_callback_def steady_def calm_def evolves_core conn_ok_failure
      split: prod.splits option.splits)

lemma runs_ok:
  assumes g: "credit_calls_ok g" and k: "exempt k = {}" "inside k"
  shows "runs g c d \<Longrightarrow> conn_ok k c \<Longrightarrow> evolves c d \<and> conn_ok k d"
proof (induction rule: runs.induct)
  case (run_callback c d callback)
  then have d: "evolves c d" "calm k d" by (auto simp: calm_def)
  note steady = steady_guard [where f = "callback_op g callback", OF steady_callback [OF g d(2) k run_callback.hyps(3)]]
  show ?case using evolves_trans [OF d(1) steady(1)] steady(2) by simp
qed (simp_all add: evolves_refl evolves_core conn_ok_session)

lemma ran_ok:
  assumes g: "credit_calls_ok g" and k: "exempt k = {}" "\<not> inside k" and c: "calm k c"
    and run: "ran g (c\<lparr>in_nghttp2 := True\<rparr>) (rc, d)"
  shows "evolves c d" "conn_ok k (d\<lparr>in_nghttp2 := False\<rparr>)" "rc \<ge> 0 \<Longrightarrow> callback_failure d = None"
proof -
  let ?m = "k\<lparr>inside := True\<rparr>"
  have enter: "conn_ok ?m (c\<lparr>in_nghttp2 := True\<rparr>)"
    using c unfolding calm_def conn_ok_def record_ok_def queued_def lookup_stream_def balanced_def
      leases_ok_def lease_ok_def failed_def by simp
  have "evolves (c\<lparr>in_nghttp2 := True\<rparr>) d \<and> conn_ok ?m d"
    by (rule runs_ok [OF g _ _ _ enter]) (use k run in \<open>auto simp: ran_def\<close>)
  then show "evolves c d" "conn_ok k (d\<lparr>in_nghttp2 := False\<rparr>)"
    using k unfolding evolves_core conn_ok_def record_ok_def queued_def lookup_stream_def balanced_def
      leases_ok_def lease_ok_def failed_def by auto
  show "rc \<ge> 0 \<Longrightarrow> callback_failure d = None" using run by (auto simp: ran_def)
qed

lemma solid_flush:
  assumes g: "nghttp2_ok g" and k: "exempt k = {}" "\<not> inside k" and c: "calm k c"
  shows "solid k c (flush_session g c)"
proof -
  obtain rc c0 where send: "ng_mem_send g (c\<lparr>in_nghttp2 := True\<rparr>) = (rc, c0)" by fastforce
  then have "ran g (c\<lparr>in_nghttp2 := True\<rparr>) (rc, c0)" using g unfolding nghttp2_ok_def by metis
  note run = ran_ok [OF _ k c this]
  have credit: "credit_calls_ok g" using g by (simp add: nghttp2_ok_def)
  define c1 where "c1 = c0\<lparr>in_nghttp2 := False\<rparr>"
  define c2 where "c2 = (if failed c1 then c1
    else c1\<lparr>local_state := connection_fail internal_error (local_state c1)\<rparr>)"
  have out: "\<not> in_nghttp2 c" using c k by (simp add: calm_def conn_ok_def)
  have c1: "evolves c c1" "conn_ok k c1" using run(1,2) credit by (simp_all add: evolves_core c1_def)
  have core: "same_core c1 c2" by (simp add: same_core_def failed_def c2_def)
  have c2: "evolves c c2" "conn_ok k c2" "failed c2"
    using evolves_trans [OF c1(1) same_core_evolves [OF core]] same_core_ok [OF core c1(2)]
    by (simp_all add: failed_def c2_def)
  have "flush_session g c = (if rc \<ge> 0 then (None, c1)
      else case callback_failure c2 of
        Some failure \<Rightarrow> (Some failure, c2\<lparr>callback_failure := None\<rparr>)
      | None \<Rightarrow> (Some (if ng_kind g rc = Ng_nomem then Bad_alloc else Runtime_error), c2))"
    using out send by (simp only: flush_session_def if_False prod.case Let_def c1_def c2_def)
  moreover have "failed (c2\<lparr>callback_failure := None\<rparr>)" using c2(3) by (simp add: failed_def)
  moreover have "callback_failure c1 = None" if "rc \<ge> 0" using run(3) credit that by (simp add: c1_def)
  ultimately show ?thesis using c1 c2
    by (simp add: solid_def calm_def evolves_core conn_ok_failure split: option.splits)
qed

lemma sends_ok: "nghttp2_ok g \<Longrightarrow> sends g k"
  by (simp add: sends_def solid_flush)

end
