(* ===== verification/H2_Owner.thy ===== *)
theory H2_Owner
  imports H2_Runs
begin

text \<open>
  The operations of the connection's owner on what it received: input, leases, credits, events,
  resets and the drain. Between two of them the connection is \<open>settled\<close>.
\<close>

abbreviation leads :: "'s h2_connection \<Rightarrow> 's h2_connection \<Rightarrow> bool" where
  "leads \<equiv> reaches settled"

lemma settled_simps [simp]:
  "in_flight settled = 0" "exempt settled = {}" "uncounted settled = []" "\<not> inside settled"
  "settled\<lparr>exempt := {}\<rparr> = settled"
  by (simp_all add: settled_def)

lemma reaches_trans: "reaches k c d \<Longrightarrow> reaches m d e \<Longrightarrow> reaches m c e"
  unfolding reaches_def by (meson evolves_trans)

lemma solid_reaches: "solid k c (r, d) \<Longrightarrow> reaches k c d"
  by (simp add: solid_def reaches_def)

lemma steady_reaches: "steady k c (r, d) \<Longrightarrow> reaches k c d"
  by (simp add: steady_def reaches_def)

lemma steady_snd: "steady k c r \<longleftrightarrow> reaches k c (snd r)"
  by (simp add: steady_def reaches_def)

lemma nghttp2_credit: "nghttp2_ok g \<Longrightarrow> credit_calls_ok g"
  by (simp add: nghttp2_ok_def)

lemma reaches_flush:
  assumes "nghttp2_ok g" "exempt k = {}" "\<not> inside k" "reaches k c d"
  shows "reaches k c (flush_output g d)" "steady k c (flush_session g d)"
proof -
  have "solid k d (flush_session g d)" by (rule solid_flush) (use assms in \<open>auto simp: reaches_def\<close>)
  then show "steady k c (flush_session g d)"
    by (rule steady_after [OF assms(4) solid_steady])
  then show "reaches k c (flush_output g d)" by (simp add: flush_output_def steady_snd)
qed

lemma reaches_retry:
  assumes g: "nghttp2_ok g" and k: "exempt k \<subseteq> {i}" "\<not> inside k" and d: "reaches k c d"
  shows "reaches (k\<lparr>exempt := {}\<rparr>) c (retry_deferred_stream_lease g i d)"
  using calm_retry [OF nghttp2_credit [OF g] _ k(1) sends_ok [OF g], of d] k(2) d
  by (auto simp: reaches_def intro: evolves_trans)

subsection \<open>Input\<close>

lemma leads_feed:
  assumes g: "nghttp2_ok g" and c: "calm settled c"
  shows "leads c (snd (h2_feed g input c))"
proof (cases "events c \<noteq> [] \<or> failed c")
  case True
  then show ?thesis using reaches_refl [OF c] by (auto simp: h2_feed_def)
next
  case False
  obtain rc c0 where recv: "ng_mem_recv g input (c\<lparr>in_nghttp2 := True\<rparr>) = (rc, c0)" by fastforce
  then have "ran g (c\<lparr>in_nghttp2 := True\<rparr>) (rc, c0)" using g unfolding nghttp2_ok_def by metis
  note run = ran_ok [OF nghttp2_credit [OF g] _ _ c this]
  define c1 where "c1 = c0\<lparr>in_nghttp2 := False\<rparr>"
  have c1: "evolves c c1" "conn_ok settled c1" using run(1,2) by (simp_all add: c1_def evolves_core)
  have failing: "reaches settled c (snd (fail_on_nghttp2_error g rc c1))"
  proof -
    have "reaches settled c (c1\<lparr>callback_failure := None\<rparr>)"
      using c1 by (simp add: reaches_def calm_def evolves_core conn_ok_failure)
    from reaches_keeps [OF keeps_fail this] show ?thesis unfolding fail_on_state .
  qed
  obtain r c2 where r: "(if rc < 0 then fail_on_nghttp2_error g rc c1 else (None, c1)) = (r, c2)" by fastforce
  have c2: "leads c c2"
  proof (cases "rc < 0")
    case True
    then show ?thesis using failing r by simp
  next
    case False
    then show ?thesis using c1 run(3) r by (auto simp: reaches_def calm_def c1_def)
  qed
  have eq: "h2_feed g input c = (case r of
         Some e \<Rightarrow> (Inl e, flush_output g c2)
       | None \<Rightarrow>
           (case flush_session g c2 of
              (Some e, c3) \<Rightarrow> (Inl e, c3)
            | (None, c3) \<Rightarrow>
                (Inr (if failed c3 then Feed_protocol_failure else Feed_accepted), c3)))"
    unfolding h2_feed_def recv prod.case Let_def c1_def [symmetric] r
    using False by (cases r) simp_all
  show ?thesis unfolding eq
    using reaches_flush [OF g _ _ c2] by (auto simp: steady_snd split: option.splits prod.splits)
qed

subsection \<open>Credits\<close>

lemma release_of_defer_credit: "defer_credit i n l = Some l' \<Longrightarrow> releases l' = releases l"
  by (auto simp: defer_credit_def split: option.splits if_splits)

lemma keeps_defer_credit: "keeps (change_leases (defer_credit i n))"
  unfolding keeps_def
proof (intro allI impI)
  fix k and c :: "'a h2_connection"
  assume c: "calm k c"
  show "evolves c (change_leases (defer_credit i n) c) \<and> calm k (change_leases (defer_credit i n) c)"
  proof (cases "defer_credit i n (leases c)")
    case None
    have "reaches k c (c\<lparr>terminated := True\<rparr>)"
      by (rule reaches_same_core [OF reaches_refl [OF c]]) (simp_all add: same_core_def failed_def)
    then show ?thesis using None by (simp add: change_leases_def reaches_def)
  next
    case (Some l)
    have "ledger_ok l" using c Some ledger_ok_defer_credit by (auto simp: calm_def conn_ok_def)
    moreover have "failed c \<or> (\<forall>e\<in>set (releases l). lease_ok (exempt k) c e)"
      using c release_of_defer_credit [OF Some] by (simp add: calm_def conn_ok_def leases_ok_def)
    ultimately show ?thesis using calm_ledger [OF c, of l "exempt k"] Some by (simp add: change_leases_def)
  qed
qed

text \<open>After an attempt to credit, in the three cases of its result.\<close>

lemma release_data_cases:
  assumes g: "nghttp2_ok g" and c: "calm settled c"
  shows "release_received_data g i n c = (Inl e, d) \<Longrightarrow> leads c d"
    "release_received_data g i n c = (Inr x, d) \<Longrightarrow> reaches (settled\<lparr>exempt := {i}\<rparr>) c d"
    "release_received_data g i n c = (Inr False, d) \<Longrightarrow> d = c"
proof -
  have "solid (settled\<lparr>exempt := {i}\<rparr>) c (sum_op (release_received_data g i n c))"
    using solid_release_data [OF nghttp2_credit [OF g] c] by simp
  note r = solidD [OF this]
  show "reaches (settled\<lparr>exempt := {i}\<rparr>) c d" if "release_received_data g i n c = (Inr x, d)"
    using r(1,2) that by (simp add: reaches_def)
  show "leads c d" if "release_received_data g i n c = (Inl e, d)"
    using r that failed_any [of d "settled\<lparr>exempt := {i}\<rparr>" settled] by (simp add: reaches_def)
  show "d = c" if "release_received_data g i n c = (Inr False, d)"
    using that by (auto simp: release_received_data_def split: option.splits if_splits prod.splits)
qed

lemma leads_acknowledge:
  assumes g: "nghttp2_ok g" and c: "calm settled c"
  shows "leads c (snd (acknowledge_received_data g i n c))"
proof -
  obtain r d where r: "release_received_data g i n c = (r, d)" by fastforce
  show ?thesis
  proof (cases r)
    case (Inl e)
    have "leads c d" using release_data_cases(1) [OF g c] r Inl by simp
    from reaches_keeps [OF keeps_defer_credit this] show ?thesis
      using r Inl by (simp add: acknowledge_received_data_def)
  next
    case (Inr x)
    have "reaches (settled\<lparr>exempt := {i}\<rparr>) c d" using release_data_cases(2) [OF g c] r Inr by simp
    then have "leads c (retry_deferred_stream_lease g i d)"
      using reaches_retry [OF g, of "settled\<lparr>exempt := {i}\<rparr>" i c d] by simp
    from reaches_flush(2) [OF g _ _ this] show ?thesis
      using r Inr release_data_cases(3) [OF g c, of i n d] reaches_refl [OF c]
      by (auto simp: acknowledge_received_data_def steady_snd split: bool.splits prod.splits option.splits)
  qed
qed

lemma leads_abandon_data:
  assumes g: "nghttp2_ok g" and c: "calm settled c"
  shows "leads c (abandon_received_data g i n c)"
proof -
  obtain r d where r: "release_received_data g i n c = (r, d)" by fastforce
  have "leads c (case r of Inl e \<Rightarrow> change_leases (defer_credit i n) d
      | Inr x \<Rightarrow> retry_deferred_stream_lease g i d)"
    using release_data_cases(1,2) [OF g c, of i n] r reaches_keeps [OF keeps_defer_credit]
      reaches_retry [OF g, of "settled\<lparr>exempt := {i}\<rparr>" i c d]
    by (auto split: sum.splits)
  from reaches_flush(1) [OF g _ _ this] show ?thesis
    using r by (simp add: abandon_received_data_def split: sum.splits)
qed

lemma leads_retry_credit:
  assumes g: "nghttp2_ok g" and c: "calm settled c"
  shows "leads c (snd (retry_credit_at g index c))"
proof -
  define i where "i = ce_stream (credits (leases c) ! index)"
  obtain r d where r: "release_received_data g i (ce_bytes (credits (leases c) ! index)) c = (r, d)"
    by fastforce
  show ?thesis
  proof (cases r)
    case (Inl e)
    then show ?thesis using release_data_cases(1) [OF g c] r
      by (simp add: retry_credit_at_def Let_def i_def)
  next
    case (Inr x)
    have "reaches (settled\<lparr>exempt := {i}\<rparr>) c d" using release_data_cases(2) [OF g c] r Inr by simp
    from reaches_keeps [OF keeps_erase_credit this]
    have "leads c (retry_deferred_stream_lease g i (d\<lparr>leases := erase_credit i (leases d)\<rparr>))"
      using reaches_retry [OF g, of "settled\<lparr>exempt := {i}\<rparr>" i c] by simp
    then show ?thesis using r Inr by (simp add: retry_credit_at_def Let_def i_def)
  qed
qed

lemma leads_retry_credits: "nghttp2_ok g \<Longrightarrow> calm settled c \<Longrightarrow> leads c (retry_credits g fuel index c)"
proof (induction fuel arbitrary: index c)
  case 0
  then show ?case by (simp add: reaches_refl)
next
  case (Suc fuel)
  obtain b d where d: "retry_credit_at g index c = (b, d)" by fastforce
  have "leads c d" using leads_retry_credit [OF Suc.prems, of index] d by simp
  moreover from this have "leads d (retry_credits g fuel j d)" for j
    by (intro Suc.IH) (simp_all add: Suc.prems reaches_def)
  ultimately show ?case using d reaches_refl [OF Suc.prems(2)]
    by (auto split: bool.splits intro: reaches_trans)
qed

lemma leads_retry_releases: "nghttp2_ok g \<Longrightarrow> calm settled c \<Longrightarrow> leads c (retry_releases g fuel index c)"
proof (induction fuel arbitrary: index c)
  case 0
  then show ?case by (simp add: reaches_refl)
next
  case (Suc fuel)
  obtain b d where d: "retry_release_at g index c = (b, d)" by fastforce
  have "leads c (retry_deferred_stream_lease g i c)" for i
    using reaches_retry [OF Suc.prems(1), of settled i c c] reaches_refl [OF Suc.prems(2)] by simp
  then have "leads c d" using d by (auto simp: retry_release_at_def Let_def)
  moreover from this have "leads d (retry_releases g fuel j d)" for j
    by (intro Suc.IH) (simp_all add: Suc.prems reaches_def)
  ultimately show ?case using d reaches_refl [OF Suc.prems(2)]
    by (auto split: bool.splits intro: reaches_trans)
qed

lemma leads_retry_all:
  assumes g: "nghttp2_ok g" and c: "calm settled c"
  shows "leads c (retry_deferred_stream_leases g c)"
proof -
  let ?c1 = "retry_credits g (length (credits (leases c))) 0 c"
  have c1: "leads c ?c1" by (rule leads_retry_credits [OF g c])
  then have "leads ?c1 (retry_releases g (length (releases (leases ?c1))) 0 ?c1)"
    by (intro leads_retry_releases [OF g]) (simp add: reaches_def)
  from reaches_flush(1) [OF g _ _ reaches_trans [OF c1 this]] show ?thesis
    by (simp add: retry_deferred_stream_leases_def Let_def)
qed

subsection \<open>Events\<close>

lemma count_remaining: "count_list (xs @ ys) z = count_list xs z + count_list ys z"
  by (induction xs) auto

text \<open>The event leaves the queue before the records it names stop counting it.\<close>

lemma calm_pop:
  assumes c: "calm settled c" and ev: "events c = ev # rest"
  shows "calm (settled\<lparr>uncounted := event_streams ev\<rparr>) (c\<lparr>events := rest\<rparr>)"
    "evolves c (c\<lparr>events := rest\<rparr>)"
proof -
  show "evolves c (c\<lparr>events := rest\<rparr>)"
    by (auto simp: evolves_def failed_def lookup_stream_def intro: stream_run_refl)
  show "calm (settled\<lparr>uncounted := event_streams ev\<rparr>) (c\<lparr>events := rest\<rparr>)"
    using c ev unfolding calm_def conn_ok_def record_ok_def queued_def lookup_stream_def balanced_def
      leases_ok_def lease_ok_def failed_def by (auto simp: settled_def)
qed

definition consume_at :: "'s nghttp2 \<Rightarrow> u32 \<Rightarrow> 's h2_connection \<Rightarrow> 's h2_connection" where
  "consume_at g i c = retry_deferred_stream_lease g i
     (case lookup_stream i c of
        None \<Rightarrow> c
      | Some s \<Rightarrow>
          (case remove_pending_event s of
             None \<Rightarrow> c\<lparr>terminated := True\<rparr>
           | Some s' \<Rightarrow> c\<lparr>streams := write_stream s' (streams c)\<rparr>))"

lemma pending_run:
  assumes "remove_pending_event s = Some t"
  shows "stream_run s t" "stream_id t = stream_id s" "window_debt t = window_debt s"
    "pending_events s = Suc (pending_events t)"
proof -
  show "stream_run s t"
    by (rule stream_run_step [OF stream_run_refl stream_step.intros(5) [OF assms]])
qed (use assms in \<open>auto simp: remove_pending_event_def split: if_splits\<close>)

lemma calm_uncount:
  assumes c: "calm (settled\<lparr>uncounted := i # js\<rparr>) c" and s: "lookup_stream i c = Some s"
    and t: "remove_pending_event s = Some t"
  shows "reaches (settled\<lparr>uncounted := js, exempt := {i}\<rparr>) c (c\<lparr>streams := write_stream t (streams c)\<rparr>)"
proof -
  let ?f = "\<lambda>_ :: http2_stream_state. t"
  have "update_stream i ?f c = c\<lparr>streams := write_stream t (streams c)\<rparr>" using s by (simp add: update_stream_def)
  moreover have "evolves c (update_stream i ?f c) \<and>
      conn_ok (settled\<lparr>uncounted := js, exempt := {i}\<rparr>) (update_stream i ?f c)"
    using conn_ok_update [where f = ?f and k = "settled\<lparr>uncounted := i # js\<rparr>"
        and m = "settled\<lparr>uncounted := js, exempt := {i}\<rparr>", OF _ s] c pending_run [OF t]
    by (auto simp: calm_def)
  ultimately show ?thesis using c by (auto simp: reaches_def calm_def)
qed

lemma calm_forget:
  assumes c: "calm (settled\<lparr>uncounted := i # js\<rparr>) c" and gone: "lookup_stream i c = None"
  shows "calm (settled\<lparr>uncounted := js\<rparr>) c"
proof -
  have "record_ok (settled\<lparr>uncounted := js\<rparr>) c s" if s: "lookup_stream j c = Some s" for j s
  proof -
    have "stream_id s = j" by (rule lookup_id [OF calm_table [OF c] s])
    moreover from this have "stream_id s \<noteq> i" using s gone by auto
    ultimately show ?thesis using c s by (auto simp: calm_def conn_ok_def record_ok_def)
  qed
  then show ?thesis using c by (auto simp: calm_def conn_ok_def)
qed

lemma reaches_consume_at:
  assumes g: "nghttp2_ok g" and c: "calm (settled\<lparr>uncounted := i # js\<rparr>) c"
  shows "reaches (settled\<lparr>uncounted := js\<rparr>) c (consume_at g i c)"
proof (cases "lookup_stream i c")
  case None
  then show ?thesis
    using reaches_retry [OF g, of "settled\<lparr>uncounted := js\<rparr>" i c c] reaches_refl [OF calm_forget [OF c]]
    by (simp add: consume_at_def)
next
  case (Some s)
  have "stream_id s = i" by (rule lookup_id [OF calm_table [OF c] Some])
  then have "pending_events s > 0" using c Some by (auto simp: calm_def conn_ok_def record_ok_def)
  then obtain t where t: "remove_pending_event s = Some t" by (auto simp: remove_pending_event_def)
  from reaches_retry [OF g _ _ calm_uncount [OF c Some t], of i] show ?thesis
    using Some t by (simp add: consume_at_def)
qed

lemma reaches_consume_all:
  assumes g: "nghttp2_ok g"
  shows "calm (settled\<lparr>uncounted := ids\<rparr>) c \<Longrightarrow> reaches settled c (fold (consume_at g) ids c)"
proof (induction ids arbitrary: c)
  case Nil
  have same: "settled\<lparr>uncounted := []\<rparr> = settled" by (simp add: settled_def)
  show ?case using reaches_refl [OF Nil [unfolded same]] by simp
next
  case (Cons i ids)
  have step: "reaches (settled\<lparr>uncounted := ids\<rparr>) c (consume_at g i c)"
    by (rule reaches_consume_at [OF g Cons.prems])
  then have "leads (consume_at g i c) (fold (consume_at g) ids (consume_at g i c))"
    by (intro Cons.IH) (simp add: reaches_def)
  from reaches_trans [OF step this] show ?case by simp
qed

lemma consume_event_eq:
  "consume_event g c =
     (case events c of
        [] \<Rightarrow> c\<lparr>terminated := True\<rparr>
      | ev # rest \<Rightarrow> flush_output g (fold (consume_at g) (event_streams ev) (c\<lparr>events := rest\<rparr>)))"
  unfolding consume_event_def consume_at_def [abs_def] by (rule refl)

lemma leads_terminate: "calm settled c \<Longrightarrow> leads c (c\<lparr>terminated := True\<rparr>)"
  by (rule reaches_same_core [OF reaches_refl]) (simp_all add: same_core_def failed_def)

lemma leads_consume_event:
  assumes g: "nghttp2_ok g" and c: "calm settled c"
  shows "leads c (consume_event g c)"
proof (cases "events c")
  case Nil
  then show ?thesis using leads_terminate [OF c] by (simp add: consume_event_eq)
next
  case (Cons ev rest)
  note pop = calm_pop [OF c Cons]
  have "leads c (fold (consume_at g) (event_streams ev) (c\<lparr>events := rest\<rparr>))"
    using reaches_consume_all [OF g pop(1)] pop(2) by (auto simp: reaches_def intro: evolves_trans)
  from reaches_flush(1) [OF g _ _ this] show ?thesis using Cons by (simp add: consume_event_eq)
qed

subsection \<open>Leases, resets and the drain\<close>

lemma leads_release_lease:
  assumes g: "nghttp2_ok g" and c: "calm settled c"
  shows "leads c (snd (release_stream_lease g i c))"
  using solid_release_lease [OF nghttp2_credit [OF g] c _ sends_ok [OF g], of i]
  by (simp add: solid_def reaches_def)

lemma leads_release_after_end: "calm settled c \<Longrightarrow> leads c (release_stream_lease_after_remote_end i c)"
  using calm_defer [of settled c After_remote_end i]
  by (simp add: release_stream_lease_after_remote_end_def reaches_def)

lemma leads_abandon_lease:
  assumes g: "nghttp2_ok g" and c: "calm settled c"
  shows "leads c (abandon_stream_lease g i c)"
proof -
  obtain r d where r: "abandon_stream_lease_checked g i c = (r, d)" by fastforce
  have "solid settled c (r, d)"
    using solid_abandon_checked [OF nghttp2_credit [OF g] c _ sends_ok [OF g], of i] r by simp
  then have d: "leads c d" "r \<noteq> None \<Longrightarrow> failed d" by (simp_all add: solid_def reaches_def)
  have "leads c (case r of None \<Rightarrow> d | Some e \<Rightarrow> defer_lease i Abandon d)"
  proof (cases r)
    case (Some e)
    then show ?thesis using d calm_defer [of settled d Abandon i]
      by (auto simp: reaches_def intro: evolves_trans)
  qed (simp add: d)
  from reaches_flush(1) [OF g _ _ this] show ?thesis
    using r by (simp add: abandon_stream_lease_def split: option.splits)
qed

lemma leads_reset:
  assumes g: "nghttp2_ok g" and c: "calm settled c"
  shows "leads c (snd (submit_reset g i e c))"
  using solid_submit_reset [OF nghttp2_credit [OF g] c _ sends_ok [OF g], of i e]
  by (simp add: solid_def reaches_def)

lemma steady_flush: "nghttp2_ok g \<Longrightarrow> calm settled c \<Longrightarrow> steady settled c (flush_session g c)"
  by (rule solid_steady [OF solid_flush]) simp_all

lemma steady_begin_drain:
  assumes g: "nghttp2_ok g" and c: "calm settled c"
  shows "steady settled c (begin_drain g c)"
proof -
  note then_steady = steady_then [where m = settled]
  have "steady settled c (then_op (begin_final_drain g) (flush_session g) c)"
    by (rule then_steady) (use steady_begin_final [OF c] steady_flush [OF g] in auto)
  moreover have "steady settled c (then_op (call_session g (ng_submit_shutdown_notice g))
           (then_op (flush_session g)
             (then_op (call_session g (ng_submit_drain_ping g))
               (then_op (pure_op (\<lambda>c'. c'\<lparr>local_state :=
                   snd (begin_round_trip_drain http2_max_stream_id limit (local_state c'))\<rparr>))
                 (flush_session g)))) c)" for limit
    by (intro then_steady)
      (use c steady_call steady_flush [OF g] steady_pure [OF keeps_final_drain(3)] in auto)
  ultimately show ?thesis using steady_refl [OF c] by (simp add: begin_drain_def Let_def)
qed

lemma steady_finish_drain:
  assumes g: "nghttp2_ok g" and c: "calm settled c"
  shows "steady settled c (finish_drain g c)"
  unfolding finish_drain_def
  by (rule steady_then [where m = settled])
    (use steady_begin_final [OF c] steady_finish_round_trip [OF c] steady_flush [OF g] in auto)

end
