(* ===== verification/H2_Reachable.thy ===== *)
theory H2_Reachable
  imports H2_Owner
begin

text \<open>
  The submissions of the owner, and the states a connection can reach through its public operations:
  what holds in all of them.
\<close>

lemma keepsI: "(\<And>k c. calm k c \<Longrightarrow> reaches k c (f c)) \<Longrightarrow> keeps f"
  by (simp add: keeps_def reaches_def)

lemma leads_calm: "leads c d \<Longrightarrow> calm settled d"
  by (simp add: reaches_def)

text \<open>The second step of a sequence starts in a state the first one reached.\<close>

lemma steady_seq:
  assumes "steady settled c (f c)" "\<And>d. leads c d \<Longrightarrow> steady settled d (h d)"
  shows "steady settled c (then_op f h c)"
  by (rule steady_then [where f = f, OF assms(1)]) (use assms(2) in \<open>auto simp: reaches_def\<close>)

lemma steady_seq_calm:
  assumes "calm settled c" "\<And>d. calm settled d \<Longrightarrow> steady settled d (f d)"
    "\<And>d. calm settled d \<Longrightarrow> steady settled d (h d)"
  shows "steady settled c (then_op f h c)"
  by (rule steady_seq) (use assms leads_calm in auto)

text \<open>The result of a sequence, with its exception or its value.\<close>

lemma snd_result [simp]:
  "snd (case r of (Some e, d) \<Rightarrow> (Inl e, d) | (None, d) \<Rightarrow> (v, d)) = snd r"
  by (cases r) (simp split: option.splits)

subsection \<open>A new local stream\<close>

text \<open>The identifier nghttp2 assigns next was never used.\<close>

definition fresh_id :: "'s nghttp2 \<Rightarrow> 's h2_connection \<Rightarrow> bool" where
  "fresh_id g c \<longleftrightarrow> ng_next_stream_id g (session c) \<noteq> 0 \<and>
     ng_next_stream_id g (session c) \<notin> set (opened c)"

definition with_stream :: "u32 \<Rightarrow> 's h2_connection \<Rightarrow> 's h2_connection" where
  "with_stream i c = c\<lparr>streams := snd (create_stream i (streams c)), opened := opened c @ [i]\<rparr>"

lemma leads_with_stream:
  assumes c: "calm settled c" and made: "fst (create_stream i (streams c)) = Some s"
    and i: "i \<noteq> 0" "i \<notin> set (opened c)"
  shows "leads c (with_stream i c)" "lookup_stream i (with_stream i c) = Some (make_stream i)"
proof -
  show "leads c (with_stream i c)" unfolding with_stream_def by (rule reaches_create [OF c made i])
  have "create_stream i (streams c) = (Some s, snd (create_stream i (streams c)))"
    using made by (metis prod.collapse)
  then show "lookup_stream i (with_stream i c) = Some (make_stream i)"
    using conn_ok_create(3) [OF _ _ i, where k = settled and s = s] c by (simp add: with_stream_def calm_def)
qed

lemma leads_created:
  assumes c: "calm settled c" and made: "fst (create_stream i (streams c)) = Some s"
    and i: "i \<noteq> 0" "i \<notin> set (opened c)" and f: "quiet f"
  shows "leads c (update_stream i f (with_stream i c))"
    "lookup_stream i (update_stream i f (with_stream i c)) = Some (f (make_stream i))"
proof -
  note new = leads_with_stream [OF c made i]
  show "leads c (update_stream i f (with_stream i c))" by (rule reaches_update [OF f new(1)])
  show "lookup_stream i (update_stream i f (with_stream i c)) = Some (f (make_stream i))"
    using lookup_quiet [OF leads_calm [OF new(1)] f] new(2) by simp
qed

lemma leads_erase:
  assumes c: "leads c d" and s: "lookup_stream i d = Some s" "window_debt s = 0"
  shows "leads c (erase_stream i d)"
  using calm_erase [of settled d settled i] c s by (auto simp: reaches_def intro: evolves_trans)

text \<open>The call that announces the stream, and the removal of the record when it fails.\<close>

lemma leads_announced:
  assumes c: "calm settled c" and made: "fst (create_stream i (streams c)) = Some s"
    and i: "i \<noteq> 0" "i \<notin> set (opened c)" and f: "quiet f"
    and call: "check_nghttp2 g rc ((update_stream i f (with_stream i c))\<lparr>session := t\<rparr>) = (r, d)"
  shows "leads c d" "leads c (erase_stream i d)"
proof -
  let ?c1 = "(update_stream i f (with_stream i c))\<lparr>session := t\<rparr>"
  note new = leads_created [OF c made i f]
  have c1: "leads c ?c1" using new(1) calm_session [of settled "update_stream i f (with_stream i c)"]
    by (simp add: reaches_def evolves_core)
  then have none: "callback_failure ?c1 = None" by (simp add: reaches_def calm_def)
  have core: "same_core ?c1 d" using check_core(1) [OF none, of g rc] call by simp
  show d: "leads c d"
    using steady_check [OF leads_calm [OF c1], of g rc] call c1 reaches_trans [of settled c ?c1 settled d]
    by (simp add: steady_snd)
  have "lookup_stream i d = Some (f (make_stream i))"
    using new(2) core by (simp add: same_core_def lookup_stream_def)
  moreover have "window_debt (f (make_stream i)) = 0" using f by (simp add: quiet_at_def make_stream_fields)
  ultimately show "leads c (erase_stream i d)" by (rule leads_erase [OF d])
qed

lemma leads_request_head:
  assumes g: "nghttp2_ok g" and c: "calm settled c" and f: "quiet prepare" and fresh: "fresh_id g c"
  shows "leads c (snd (submit_local_request_head g es prepare c))"
proof -
  define i where "i = ng_next_stream_id g (session c)"
  have i: "i \<noteq> 0" "i \<notin> set (opened c)" using fresh by (auto simp: fresh_id_def i_def)
  show ?thesis
  proof (cases "unat (active_local_requests c) \<ge> max_concurrent_streams \<or> fst (create_stream i (streams c)) = None")
    case True
    then show ?thesis using reaches_refl [OF c]
      by (auto simp: submit_local_request_head_def Let_def i_def)
  next
    case False
    then obtain s where s: "fst (create_stream i (streams c)) = Some s" by auto
    let ?c1 = "update_stream i prepare (with_stream i c)"
    obtain rc t where call: "ng_submit_headers g es None (session ?c1) = (rc, t)" by fastforce
    obtain r c2 where r: "check_nghttp2 g rc (?c1\<lparr>session := t\<rparr>) = (r, c2)" by fastforce
    note c2 = leads_announced [OF c s i f r]
    define c3 where "c3 = (if word_of_int rc \<noteq> i then c2\<lparr>terminated := True\<rparr> else c2)"
    define c4 where "c4 = update_stream i (snd \<circ> hold_peer_concurrency_slot) c3"
    have c3: "leads c c3"
      using c2(1) reaches_trans [OF c2(1) leads_terminate [OF leads_calm [OF c2(1)]]] by (simp add: c3_def)
    have c4: "leads c c4" unfolding c4_def by (rule reaches_update [OF quiet_mutators(10) c3])
    have "leads c (c4\<lparr>active_local_requests := active_local_requests c4 + 1\<rparr>)"
      by (rule reaches_keeps [OF keeps_counter(7) c4])
    then have c5: "leads c (if b then c4\<lparr>active_local_requests := active_local_requests c4 + 1\<rparr> else c4)" for b
      using c4 by simp
    have "submit_local_request_head g es prepare c =
        (case r of Some e \<Rightarrow> (Inl e, erase_stream i c2)
         | None \<Rightarrow> (case flush_session g (if (case lookup_stream i c3 of
                            None \<Rightarrow> False | Some s \<Rightarrow> fst (hold_peer_concurrency_slot s))
              then c4\<lparr>active_local_requests := active_local_requests c4 + 1\<rparr> else c4) of
                        (Some e, c6) \<Rightarrow> (Inl e, c6)
                      | (None, c6) \<Rightarrow> (Inr (Inl i), c6)))"
      unfolding submit_local_request_head_def Let_def i_def [symmetric] s option.case
        with_stream_def [symmetric] call prod.case r c3_def [symmetric] c4_def [symmetric]
      using False by (cases r) simp_all
    then show ?thesis using c2(2) reaches_flush(2) [OF g _ _ c5]
      by (cases r) (simp_all add: steady_snd)
  qed
qed

lemma quiet_regular: "quiet (prepare_regular content expect)"
proof -
  define begin_content where "begin_content = (if content = No_content then begin_local_content_forbidden
    else case content_length_of content of
      Some n \<Rightarrow> begin_local_content_known_length n | None \<Rightarrow> begin_local_content_unbounded)"
  define begin_send where "begin_send = (if head_ends_stream content then snd \<circ> commit_local_head_end_stream
    else if expect then await_request_continue \<circ> (snd \<circ> begin_local_request_content)
    else snd \<circ> begin_local_request_content)"
  have "quiet begin_content"
    by (cases content; cases "content_length_of content")
      (simp_all only: begin_content_def if_True if_False option.case quiet_mutators request_content.distinct simp_thms)
  moreover have "quiet begin_send"
    by (cases "head_ends_stream content"; cases expect)
      (simp_all only: begin_send_def if_True if_False quiet_send quiet_comp [OF quiet_send(1) quiet_mutators(5)] simp_thms)
  moreover have "prepare_regular content expect = begin_send \<circ> begin_content"
    by (rule ext) (simp add: prepare_regular_def Let_def begin_send_def begin_content_def split: option.splits)
  ultimately show ?thesis using quiet_comp by simp
qed

lemma quiet_connect: "quiet (prepare_connect form)"
proof -
  have "prepare_connect form = (snd \<circ> begin_local_connect_request) \<circ>
      (begin_local_content_forbidden \<circ> (snd \<circ> on_tunnel (tunnel_begin form)))"
    by (rule ext) (simp add: prepare_connect_def)
  then show ?thesis using quiet_comp [OF quiet_comp [OF quiet_begin_tunnel quiet_mutators(6)] quiet_send(4)]
    by simp
qed

lemma leads_admitted:
  assumes c: "calm settled c" and f: "leads c (snd (f c))"
  shows "leads c (snd (admitted g f c))"
  using reaches_refl [OF c] leads_terminate [OF c] f by (simp add: admitted_def split: option.splits)

lemma leads_requests:
  assumes g: "nghttp2_ok g" and c: "calm settled c" and fresh: "fresh_id g c"
  shows "leads c (snd (submit_regular_request_head g valid content expect c))"
    "leads c (snd (submit_connect_request_head g valid c))"
    "leads c (snd (submit_extended_connect_request_head g valid c))"
  unfolding submit_regular_request_head_def submit_connect_request_head_def
    submit_extended_connect_request_head_def
  by (rule leads_admitted [OF c];
      simp add: reaches_refl [OF c] leads_request_head [OF g c quiet_regular fresh]
        leads_request_head [OF g c quiet_connect fresh])+

lemma leads_lease_request: "calm settled c \<Longrightarrow> leads c (lease_submitted_request result c)"
  by (cases result) (simp_all add: lease_submitted_request_def reaches_refl reaches_pin)

subsection \<open>Response heads\<close>

lemma find_outbound: "find_outbound_stream i c = Some s \<Longrightarrow> lookup_stream i c = Some s"
  by (auto simp: find_outbound_stream_def split: if_splits option.splits)

lemma keeps_hold: "keeps (\<lambda>c.
    let held = (case lookup_stream i c of
          None \<Rightarrow> False
        | Some s \<Rightarrow> push_reservation s = Push_local \<and> fst (hold_peer_concurrency_slot s));
        c1 = (if held then update_stream i (snd \<circ> hold_peer_concurrency_slot)
          (c\<lparr>active_local_requests := active_local_requests c + 1\<rparr>) else c)
    in update_stream i activate_push c1)"
proof (rule keepsI, unfold Let_def)
  fix k and c :: "'a h2_connection"
  assume c: "calm k c"
  have "reaches k c (c\<lparr>active_local_requests := active_local_requests c + 1\<rparr>)"
    by (rule reaches_keeps [OF keeps_counter(7) reaches_refl [OF c]])
  from reaches_update [OF quiet_mutators(10) this]
  have "reaches k c (if b then update_stream i (snd \<circ> hold_peer_concurrency_slot)
      (c\<lparr>active_local_requests := active_local_requests c + 1\<rparr>) else c)" for b
    using reaches_refl [OF c] by simp
  then show "reaches k c (update_stream i activate_push
      (if (case lookup_stream i c of
          None \<Rightarrow> False
        | Some s \<Rightarrow> push_reservation s = Push_local \<and> fst (hold_peer_concurrency_slot s))
       then update_stream i (snd \<circ> hold_peer_concurrency_slot)
          (c\<lparr>active_local_requests := active_local_requests c + 1\<rparr>) else c))"
    by (rule reaches_update [OF quiet_mutators(3)])
qed

lemma steady_header_frames: "calm settled c \<Longrightarrow> steady settled c (submit_header_frames g i es c)"
  unfolding submit_header_frames_def by (rule steady_call_pure [OF _ keeps_hold])

lemma steady_send_data:
  assumes g: "nghttp2_ok g" and c: "calm settled c"
  shows "steady settled c (send_data g i data es c)"
  unfolding send_data_def
proof (rule steady_seq, rule steady_call [OF c], rule steady_seq)
  fix d :: "'a h2_connection"
  assume "leads c d"
  then show "steady settled d (flush_session g d)" by (rule steady_flush [OF g leads_calm])
next
  fix d e :: "'a h2_connection"
  assume e: "leads d e"
  have "leads e (flush_output g (fail_connection g internal_error e))"
    by (rule reaches_flush(1) [OF g _ _ reaches_keeps [OF keeps_fail reaches_refl [OF leads_calm [OF e]]]]) simp_all
  then show "steady settled e (if ng_data_finished g (session e) then (None, e)
      else (Some Logic_error, flush_output g (fail_connection g internal_error e)))"
    using reaches_refl [OF leads_calm [OF e]] by (simp add: steady_snd)
qed

lemma keeps_update_then_release:
  "quiet f \<Longrightarrow> keeps (\<lambda>c. release_local_request_stream_if_closed i (update_stream i f c))"
  by (rule keeps_comp [OF keeps_update keeps_release_local_if_closed])

lemma steady_commit_connect:
  assumes g: "nghttp2_ok g" and c: "calm settled c" and s: "lookup_stream i c = Some s"
  shows "steady settled c (commit_connect_response_head g i terminal c)"
  unfolding commit_connect_response_head_def
proof (rule steady_seq, rule steady_header_frames [OF c], rule steady_seq)
  fix d :: "'a h2_connection"
  assume d: "leads c d"
  let ?d = "update_stream i (snd \<circ> open_local_connect_tunnel \<circ> begin_local_content_unbounded \<circ> snd \<circ> accept_connect) d"
  have open_now: "i \<in> set (opened d)" using live_opened [OF c s] d by (auto simp: reaches_def evolves_def)
  have "quiet ((snd \<circ> open_local_connect_tunnel) \<circ> (begin_local_content_unbounded \<circ> (snd \<circ> accept_connect)))"
    by (intro quiet_comp quiet_compound quiet_mutators quiet_send)
  then have up: "leads d ?d" using reaches_update reaches_refl [OF leads_calm [OF d]] by (simp only: comp_assoc)
  have "leads d (publish_event (Tunnel_end i) ?d)" by (rule reaches_publish [OF up]) (use open_now in simp)
  then show "steady settled d (pure_op (\<lambda>c.
           let c1 = update_stream i
             (snd \<circ> open_local_connect_tunnel \<circ> begin_local_content_unbounded \<circ> snd \<circ> accept_connect) c
           in if terminal then publish_event (Tunnel_end i) c1 else c1) d)"
    using up by (simp add: pure_op_def steady_snd Let_def)
qed (rule steady_flush [OF g leads_calm])

lemma quiet_pick_at: "quiet f \<Longrightarrow> quiet h \<Longrightarrow> quiet (\<lambda>s. if b s then f s else h s)"
  by (simp add: quiet_at_def)

lemma quiet_final_content: "quiet (commit_final_content head)"
proof -
  define begin_content where "begin_content = (if fh_suppressed head then begin_local_content_forbidden
    else case fh_length head of
      Some n \<Rightarrow> begin_local_content_known_length n | None \<Rightarrow> begin_local_content_unbounded)"
  define begin_send where "begin_send = (if fh_end_stream head then snd \<circ> commit_local_head_end_stream
    else snd \<circ> begin_local_response_content)"
  have "quiet begin_content"
    by (cases "fh_suppressed head"; cases "fh_length head")
      (simp_all only: begin_content_def if_True if_False option.case quiet_mutators simp_thms)
  moreover have "quiet begin_send"
    by (cases "fh_end_stream head") (simp_all only: begin_send_def if_True if_False quiet_send simp_thms)
  moreover have "quiet (\<lambda>s. if tunnel_is_pending (tunnel s) then (snd \<circ> reject_connect) s else s)"
    by (rule quiet_pick_at [OF quiet_compound(3) quiet_id])
  moreover have "commit_final_content head =
      (\<lambda>s. if tunnel_is_pending (tunnel s) then (snd \<circ> reject_connect) s else s) \<circ> (begin_send \<circ> begin_content)"
    by (rule ext) (simp add: commit_final_content_def Let_def begin_send_def begin_content_def split: option.splits)
  ultimately show ?thesis using quiet_comp [OF quiet_comp] by simp
qed

lemma leads_final_head:
  assumes g: "nghttp2_ok g" and c: "calm settled c"
  shows "leads c (snd (commit_final_response_head g i head c))"
proof -
  have "steady settled c (then_op (submit_header_frames g i (fh_end_stream head))
          (then_op (pure_op (\<lambda>c. release_local_request_stream_if_closed i
              (update_stream i (commit_final_content head) c)))
            (flush_session g)) c)"
    by (intro steady_seq_calm [OF c] steady_header_frames steady_seq_calm
        steady_pure [OF keeps_update_then_release [OF quiet_final_content]] steady_flush [OF g])
  then show ?thesis using reaches_refl [OF c] by (simp add: commit_final_response_head_def steady_snd)
qed

lemma leads_response_head:
  assumes g: "nghttp2_ok g" and c: "calm settled c"
  shows "leads c (snd (submit_response_head g i successful plan c))"
proof -
  have "leads c d" if "commit_final_response_head g i head c = (r, d)" for head r d
    using leads_final_head [OF g c, of i head] that by simp
  then show ?thesis using reaches_refl [OF c]
    by (auto simp: submit_response_head_def split: option.splits planned_head.splits prod.splits sum.splits bool.splits)
qed

lemma leads_interim_head:
  assumes g: "nghttp2_ok g" and c: "calm settled c"
  shows "leads c (snd (submit_interim_response_head g i encodes c))"
proof -
  have "steady settled c (then_op (submit_header_frames g i False) (flush_session g) c)"
    by (intro steady_seq_calm [OF c] steady_header_frames steady_flush [OF g])
  then show ?thesis using reaches_refl [OF c]
    by (simp add: submit_interim_response_head_def steady_snd split: option.splits response_head_error.splits)
qed

lemma leads_connect_response:
  assumes g: "nghttp2_ok g" and c: "calm settled c"
  shows "leads c (snd (submit_connect_response_head g i valid c))"
  using steady_commit_connect [OF g c find_outbound] reaches_refl [OF c]
  by (simp add: submit_connect_response_head_def steady_snd split: option.splits)

subsection \<open>Content\<close>

text \<open>What is committed was offered to the record's own check.\<close>

lemma quiet_commit:
  assumes "check_accept (word_of_nat n) terminal (local_content s) = Content_accepted"
    and "m \<le> n" "n < 2 ^ 64"
  shows "quiet_at (commit_local_content (word_of_nat m)) s"
proof -
  have "(word_of_nat m :: u64) \<le> word_of_nat n"
    using assms(2,3) by (simp add: word_le_nat_alt unat_of_nat)
  then have "stream_step s (commit_local_content (word_of_nat m) s)" by (rule stream_step.commit [OF assms(1)])
  then show ?thesis
    by (auto simp: quiet_at_def commit_local_content_def intro: stream_run_step [OF stream_run_refl])
qed

lemma leads_submit_data:
  assumes g: "nghttp2_ok g" and c: "calm settled c" and len: "length chunk < 2 ^ 64"
  shows "leads c (snd (submit_data g i chunk es limit c))"
proof (cases "find_outbound_stream i c")
  case None
  then show ?thesis using reaches_refl [OF c] by (simp add: submit_data_def)
next
  case (Some s)
  note s = find_outbound [OF Some]
  have sent: "leads c (snd (case send_data g i data t
      (if b then release_local_request_stream_if_closed i
        (update_stream i (snd \<circ> commit_local_end_stream) (update_stream i (commit_local_content (word_of_nat m)) c))
       else update_stream i (commit_local_content (word_of_nat m)) c) of
        (Some e, d) \<Rightarrow> (Inl e, d) | (None, d) \<Rightarrow> (v, d)))"
    if ok: "check_accept (word_of_nat (length chunk)) es (local_content s) = Content_accepted"
      and m: "m \<le> length chunk" for m data t b and v :: "h2_exception + nat \<times> data_status"
  proof -
    have "leads c (update_stream i (commit_local_content (word_of_nat m)) c)"
      using calm_update [OF c, of i "commit_local_content (word_of_nat m)"] quiet_commit [OF ok m len] s
      by (simp add: reaches_def)
    from reaches_keeps [OF keeps_update_then_release [OF quiet_send(7)] this] this
    have up: "leads c (if b then release_local_request_stream_if_closed i
        (update_stream i (snd \<circ> commit_local_end_stream) (update_stream i (commit_local_content (word_of_nat m)) c))
       else update_stream i (commit_local_content (word_of_nat m)) c)" by simp
    show ?thesis
      using steady_send_data [OF g leads_calm [OF up]] reaches_trans [OF up] by (simp add: steady_snd)
  qed
  show ?thesis
  proof (cases "check_accept (word_of_nat (length chunk)) es (local_content s)")
    case Content_accepted
    then show ?thesis using Some reaches_refl [OF c] sent [OF Content_accepted]
      by (simp add: submit_data_def Let_def)
  qed (use Some reaches_refl [OF c] in \<open>simp_all add: submit_data_def\<close>)
qed

lemma leads_release_content: "calm settled c \<Longrightarrow> leads c (snd (release_request_content i c))"
  by (simp add: release_request_content_def reaches_refl reaches_update [OF quiet_mutators(15)] split: option.splits)

lemma steady_end_local:
  assumes g: "nghttp2_ok g" and c: "calm settled c"
  shows "steady settled c (end_local_stream g i empty_data c)"
proof -
  note release = steady_pure [OF keeps_update_then_release [OF quiet_send(7)]]
  have "steady settled c (then_op (pure_op (\<lambda>c. release_local_request_stream_if_closed i
            (update_stream i (snd \<circ> commit_local_end_stream) c))) (send_data g i [] True) c)"
    by (intro steady_seq_calm [OF c] release steady_send_data [OF g])
  moreover have "steady settled c (then_op (submit_header_frames g i True)
          (then_op (pure_op (\<lambda>c. release_local_request_stream_if_closed i
              (update_stream i (snd \<circ> commit_local_end_stream) c)))
            (flush_session g)) c)"
    by (intro steady_seq_calm [OF c] steady_header_frames steady_seq_calm release steady_flush [OF g])
  ultimately show ?thesis by (simp add: end_local_stream_def)
qed

lemma leads_finish:
  assumes g: "nghttp2_ok g" and c: "calm settled c"
  shows "leads c (snd (finish_request g i trailers c))" "leads c (snd (finish_response g i has_trailers c))"
proof -
  have "leads c (snd (finish_local g i tr p c))" for tr p
    using steady_end_local [OF g c] reaches_refl [OF c]
    by (simp add: finish_local_def steady_snd split: option.splits)
  then show "leads c (snd (finish_request g i trailers c))" "leads c (snd (finish_response g i has_trailers c))"
    by (simp_all add: finish_request_def finish_response_def)
qed

subsection \<open>Push promises and control frames\<close>

lemma leads_push_promise:
  assumes g: "nghttp2_ok g" and c: "calm settled c" and fresh: "fresh_id g c"
  shows "leads c (snd (submit_push_promise g associated request c))"
proof -
  define i where "i = ng_next_stream_id g (session c)"
  have i: "i \<noteq> 0" "i \<notin> set (opened c)" using fresh by (auto simp: fresh_id_def i_def)
  let ?f = "reserve_push Push_local \<circ> snd \<circ> finalize_remote_content_head \<circ> snd \<circ> record_remote_head_end_stream"
  have "quiet (reserve_push Push_local \<circ> ((snd \<circ> finalize_remote_content_head) \<circ> (snd \<circ> record_remote_head_end_stream)))"
    by (intro quiet_comp quiet_mutators quiet_remote)
  then have f: "quiet ?f" by (simp only: comp_assoc simp_thms)
  show ?thesis
  proof (cases "push_admission_error g associated c \<noteq> None \<or> request = Push_malformed \<or>
      fst (create_stream i (streams c)) = None")
    case True
    then show ?thesis using reaches_refl [OF c]
      by (auto simp: submit_push_promise_def Let_def i_def split: option.splits)
  next
    case False
    then obtain s where s: "fst (create_stream i (streams c)) = Some s" by auto
    note new = leads_with_stream [OF c s i]
    have bare: "leads c (erase_stream i (with_stream i c))"
      by (rule leads_erase [OF new]) (simp add: make_stream_fields)
    let ?c2 = "update_stream i ?f (with_stream i c)"
    obtain rc t where call: "ng_submit_push_promise g associated (session ?c2) = (rc, t)" by fastforce
    obtain r c3 where r: "check_nghttp2 g rc (?c2\<lparr>session := t\<rparr>) = (r, c3)" by fastforce
    note c3 = leads_announced [OF c s i f r]
    define c4 where "c4 = (if word_of_int rc \<noteq> i then c3\<lparr>terminated := True\<rparr> else c3)"
    have c4: "leads c c4"
      using c3(1) reaches_trans [OF c3(1) leads_terminate [OF leads_calm [OF c3(1)]]] by (simp add: c4_def)
    have admitted: "push_admission_error g associated c = None" "request \<noteq> Push_malformed" using False by auto
    have "submit_push_promise g associated request c =
        (if request = Push_too_large then (Inl Logic_error, erase_stream i (with_stream i c))
         else case r of Some e \<Rightarrow> (Inl e, erase_stream i c3)
         | None \<Rightarrow> (case flush_session g c4 of
             (Some e, d) \<Rightarrow> (Inl e, d) | (None, d) \<Rightarrow> (Inr (Inl i), d)))"
      unfolding submit_push_promise_def Let_def i_def [symmetric] s option.case admitted(1)
        with_stream_def [symmetric] call prod.case r c4_def [symmetric]
      using admitted(2) by (cases r) simp_all
    then show ?thesis using bare c3(2) reaches_flush(2) [OF g _ _ c4]
      by (cases r) (simp_all add: steady_snd)
  qed
qed

lemma leads_submitted: "steady settled c (f c) \<Longrightarrow> leads c (snd (submitted f c))"
  by (simp add: submitted_def steady_snd)

lemma keeps_started: "keeps (\<lambda>c. c\<lparr>started := b\<rparr>)"
  by (rule keeps_same_core) (simp_all add: same_core_def failed_def)

lemma steady_begin_connection:
  assumes g: "nghttp2_ok g" and c: "calm settled c"
  shows "steady settled c (begin_connection g c)"
proof -
  have "steady settled c (then_op (call_session g (ng_submit_settings g None))
        (then_op (call_session g (ng_set_local_window g))
          (then_op (pure_op (\<lambda>c. c\<lparr>started := True\<rparr>)) (flush_session g))) c)"
    by (intro steady_seq_calm [OF c] steady_seq_calm steady_call steady_pure [OF keeps_started] steady_flush [OF g])
  then show ?thesis using steady_refl [OF c] by (simp add: begin_connection_def)
qed

lemma leads_call_flush:
  assumes g: "nghttp2_ok g" and c: "calm settled c"
  shows "leads c (snd (submitted (then_op (call_session g f) (flush_session g)) c))"
  by (rule leads_submitted) (intro steady_seq_calm [OF c] steady_call steady_flush [OF g])

lemma leads_ping:
  assumes g: "nghttp2_ok g" and c: "calm settled c"
  shows "leads c (snd (submit_ping g c))"
proof -
  have "steady settled c (then_op (call_session g (ng_submit_liveness_ping g))
        (then_op (pure_op (\<lambda>c. c\<lparr>liveness_ping_outstanding := True\<rparr>)) (flush_session g)) c)"
    by (intro steady_seq_calm [OF c] steady_seq_calm steady_call steady_pure [OF keeps_counter(10)] steady_flush [OF g])
  from leads_submitted [where f = "then_op (call_session g (ng_submit_liveness_ping g))
        (then_op (pure_op (\<lambda>c. c\<lparr>liveness_ping_outstanding := True\<rparr>)) (flush_session g))", OF this]
  show ?thesis using reaches_refl [OF c] by (simp add: submit_ping_def)
qed

lemma leads_control:
  assumes g: "nghttp2_ok g" and c: "calm settled c"
  shows "leads c (snd (submit_max_concurrent_streams g limit c))"
    "leads c (snd (submit_priority_update g i valid c))"
    "leads c (snd (submit_origin_advertisement g valid c))"
    "leads c (snd (submit_alternative_service_advertisement g i valid c))"
  using leads_call_flush [OF g c] reaches_refl [OF c]
  by (simp_all add: submit_max_concurrent_streams_def submit_priority_update_def
      submit_origin_advertisement_def submit_alternative_service_advertisement_def)

subsection \<open>Reachable states\<close>

text \<open>One call of the owner. A call that opens a stream meets an identifier nghttp2 never used, and
  no buffer is larger than an address space.\<close>

inductive h2_step :: "'s nghttp2 \<Rightarrow> 's h2_connection \<Rightarrow> 's h2_connection \<Rightarrow> bool" for g where
  "h2_step g c (snd (h2_feed g input c))"
| "h2_step g c (flush_output g c)"
| "h2_step g c (consume_event g c)"
| "h2_step g c (snd (acknowledge_received_data g i n c))"
| "h2_step g c (abandon_received_data g i n c)"
| "h2_step g c (snd (release_stream_lease g i c))"
| "h2_step g c (release_stream_lease_after_remote_end i c)"
| "h2_step g c (abandon_stream_lease g i c)"
| "h2_step g c (retry_deferred_stream_leases g c)"
| "h2_step g c (snd (submit_reset g i e c))"
| "h2_step g c (snd (begin_connection g c))"
| "h2_step g c (snd (begin_drain g c))"
| "h2_step g c (snd (finish_drain g c))"
| "fresh_id g c \<Longrightarrow> h2_step g c (snd (submit_regular_request_head g valid content expect_continue c))"
| "fresh_id g c \<Longrightarrow> h2_step g c (snd (submit_connect_request_head g valid c))"
| "fresh_id g c \<Longrightarrow> h2_step g c (snd (submit_extended_connect_request_head g valid c))"
| "h2_step g c (lease_submitted_request result c)"
| "h2_step g c (snd (submit_response_head g i successful plan c))"
| "h2_step g c (snd (submit_interim_response_head g i valid c))"
| "h2_step g c (snd (submit_connect_response_head g i valid c))"
| "length chunk < 2 ^ 64 \<Longrightarrow> h2_step g c (snd (submit_data g i chunk end_stream limit c))"
| "h2_step g c (snd (release_request_content i c))"
| "h2_step g c (snd (finish_request g i trailers c))"
| "h2_step g c (snd (finish_response g i has_trailers c))"
| "fresh_id g c \<Longrightarrow> h2_step g c (snd (submit_push_promise g i request c))"
| "h2_step g c (snd (submit_ping g c))"
| "h2_step g c (snd (submit_max_concurrent_streams g n c))"
| "h2_step g c (snd (submit_priority_update g i valid c))"
| "h2_step g c (snd (submit_origin_advertisement g valid c))"
| "h2_step g c (snd (submit_alternative_service_advertisement g i valid c))"

inductive h2_steps :: "'s nghttp2 \<Rightarrow> 's h2_connection \<Rightarrow> 's h2_connection \<Rightarrow> bool" for g where
  steps_done: "h2_steps g c c"
| steps_step: "h2_steps g c d \<Longrightarrow> h2_step g d e \<Longrightarrow> h2_steps g c e"

definition h2_reachable :: "'s nghttp2 \<Rightarrow> 's h2_connection \<Rightarrow> bool" where
  "h2_reachable g c \<longleftrightarrow>
     (\<exists>client push origin metadata s. h2_steps g (initial_connection client push origin metadata s) c)"

lemmas owner_operations =
  leads_feed leads_consume_event leads_acknowledge leads_abandon_data leads_release_lease
  leads_abandon_lease leads_retry_all leads_reset leads_requests leads_response_head
  leads_interim_head leads_connect_response leads_submit_data leads_finish leads_push_promise
  leads_ping leads_control

lemma leads_step:
  assumes g: "nghttp2_ok g"
  shows "h2_step g c d \<Longrightarrow> calm settled c \<Longrightarrow> leads c d"
  by (induction rule: h2_step.induct)
    (assumption | rule owner_operations [OF g] leads_release_after_end leads_lease_request leads_release_content
      reaches_flush(1) [OF g settled_simps(2,4) reaches_refl] steady_begin_connection [OF g, unfolded steady_snd]
      steady_begin_drain [OF g, unfolded steady_snd] steady_finish_drain [OF g, unfolded steady_snd])+

lemma leads_steps:
  assumes g: "nghttp2_ok g"
  shows "h2_steps g c d \<Longrightarrow> calm settled c \<Longrightarrow> leads c d"
proof (induction rule: h2_steps.induct)
  case (steps_step c d e)
  have d: "leads c d" by (rule steps_step.IH [OF steps_step.prems])
  from reaches_trans [OF d leads_step [OF g steps_step.hyps(2) leads_calm [OF d]]] show ?case .
qed (rule reaches_refl)

lemma calm_initial: "calm settled (initial_connection client push origin metadata s)"
proof -
  let ?c = "initial_connection client push origin metadata s"
  have none: "find_stream i empty_table = None" for i by (simp add: find_stream_def empty_table_def)
  have "debts empty_table = 0" by (simp add: debts_def streams.total_def none)
  then have "balanced 0 ?c" by (simp add: balanced_def initial_connection_def)
  moreover have "leases_ok {} ?c" by (simp add: leases_ok_def initial_connection_def empty_ledger_def)
  ultimately show ?thesis
    by (simp add: calm_def conn_ok_def queued_def lookup_stream_def none)
      (simp add: initial_connection_def none)
qed

lemma reachable_calm:
  assumes g: "nghttp2_ok g" and c: "h2_reachable g c"
  shows "calm settled c"
proof -
  obtain client push origin metadata s
    where "h2_steps g (initial_connection client push origin metadata s) c"
    using c unfolding h2_reachable_def by blast
  from leads_calm [OF leads_steps [OF g this calm_initial]] show ?thesis .
qed

end
