(* ===== verification/H2_Script.thy ===== *)
theory H2_Script
  imports H2_Reachable
begin

text \<open>
  A session that plays a script: fed some input, it makes the callbacks a list names, as far as they
  are allowed. It meets what \<open>H2_Runs\<close> asks of nghttp2, so the properties of the connection are
  about something, and they can be evaluated on it.
\<close>

subsection \<open>Callbacks do not receive\<close>

text \<open>No callback feeds the session, so an operation does not depend on what receiving does.\<close>

named_theorems recv_free

lemma ng_fields [recv_free]:
  "ng_kind (g\<lparr>ng_mem_recv := r\<rparr>) = ng_kind g"
  "ng_is_fatal (g\<lparr>ng_mem_recv := r\<rparr>) = ng_is_fatal g"
  "ng_consume (g\<lparr>ng_mem_recv := r\<rparr>) = ng_consume g"
  "ng_consume_connection (g\<lparr>ng_mem_recv := r\<rparr>) = ng_consume_connection g"
  "ng_submit_rst_stream (g\<lparr>ng_mem_recv := r\<rparr>) = ng_submit_rst_stream g"
  "ng_find_stream (g\<lparr>ng_mem_recv := r\<rparr>) = ng_find_stream g"
  "ng_next_stream_id (g\<lparr>ng_mem_recv := r\<rparr>) = ng_next_stream_id g"
  "ng_terminate_session (g\<lparr>ng_mem_recv := r\<rparr>) = ng_terminate_session g"
  "ng_submit_goaway (g\<lparr>ng_mem_recv := r\<rparr>) = ng_submit_goaway g"
  "ng_submit_shutdown_notice (g\<lparr>ng_mem_recv := r\<rparr>) = ng_submit_shutdown_notice g"
  "ng_submit_headers (g\<lparr>ng_mem_recv := r\<rparr>) = ng_submit_headers g"
  "ng_submit_data (g\<lparr>ng_mem_recv := r\<rparr>) = ng_submit_data g"
  "ng_data_finished (g\<lparr>ng_mem_recv := r\<rparr>) = ng_data_finished g"
  "ng_submit_push_promise (g\<lparr>ng_mem_recv := r\<rparr>) = ng_submit_push_promise g"
  "ng_submit_settings (g\<lparr>ng_mem_recv := r\<rparr>) = ng_submit_settings g"
  "ng_set_local_window (g\<lparr>ng_mem_recv := r\<rparr>) = ng_set_local_window g"
  "ng_submit_liveness_ping (g\<lparr>ng_mem_recv := r\<rparr>) = ng_submit_liveness_ping g"
  "ng_submit_priority_update (g\<lparr>ng_mem_recv := r\<rparr>) = ng_submit_priority_update g"
  "ng_submit_extension (g\<lparr>ng_mem_recv := r\<rparr>) = ng_submit_extension g"
  "ng_connection_window (g\<lparr>ng_mem_recv := r\<rparr>) = ng_connection_window g"
  "ng_stream_window (g\<lparr>ng_mem_recv := r\<rparr>) = ng_stream_window g"
  "ng_max_concurrent (g\<lparr>ng_mem_recv := r\<rparr>) = ng_max_concurrent g"
  "ng_enable_push (g\<lparr>ng_mem_recv := r\<rparr>) = ng_enable_push g"
  "ng_enable_connect_protocol (g\<lparr>ng_mem_recv := r\<rparr>) = ng_enable_connect_protocol g"
  "ng_no_rfc7540_priorities (g\<lparr>ng_mem_recv := r\<rparr>) = ng_no_rfc7540_priorities g"
  "ng_submit_drain_ping (g\<lparr>ng_mem_recv := r\<rparr>) = ng_submit_drain_ping g"
  "ng_mem_send (g\<lparr>ng_mem_recv := r\<rparr>) = ng_mem_send g"
  by simp_all

lemma fail_connection_recv_free [recv_free]:
  "fail_connection (g\<lparr>ng_mem_recv := r\<rparr>) = fail_connection g"
  unfolding fail_connection_def [abs_def] recv_free
  by (rule refl)+

lemma fail_on_nghttp2_error_recv_free [recv_free]:
  "fail_on_nghttp2_error (g\<lparr>ng_mem_recv := r\<rparr>) = fail_on_nghttp2_error g"
  unfolding fail_on_nghttp2_error_def [abs_def] recv_free
  by (rule refl)+

lemma check_nghttp2_recv_free [recv_free]:
  "check_nghttp2 (g\<lparr>ng_mem_recv := r\<rparr>) = check_nghttp2 g"
  unfolding check_nghttp2_def [abs_def] recv_free
  by (rule refl)+

lemma call_session_recv_free [recv_free]:
  "call_session (g\<lparr>ng_mem_recv := r\<rparr>) = call_session g"
  "flush_session (g\<lparr>ng_mem_recv := r\<rparr>) = flush_session g"
  "consume_received (g\<lparr>ng_mem_recv := r\<rparr>) = consume_received g"
  "flush_window_debt (g\<lparr>ng_mem_recv := r\<rparr>) = flush_window_debt g"
  unfolding call_session_def [abs_def] flush_session_def [abs_def] consume_received_def [abs_def]
    flush_window_debt_def [abs_def] recv_free
  by (rule refl)+

lemma flush_output_recv_free [recv_free]:
  "flush_output (g\<lparr>ng_mem_recv := r\<rparr>) = flush_output g"
  "release_received_data (g\<lparr>ng_mem_recv := r\<rparr>) = release_received_data g"
  "close_stream_impl (g\<lparr>ng_mem_recv := r\<rparr>) = close_stream_impl g"
  "submit_owner_reset (g\<lparr>ng_mem_recv := r\<rparr>) = submit_owner_reset g"
  "identifier_used (g\<lparr>ng_mem_recv := r\<rparr>) = identifier_used g"
  "send_window_state (g\<lparr>ng_mem_recv := r\<rparr>) = send_window_state g"
  unfolding flush_output_def [abs_def] release_received_data_def [abs_def]
    close_stream_impl_def [abs_def] submit_owner_reset_def [abs_def] identifier_used_def [abs_def]
    send_window_state_def [abs_def] recv_free
  by (rule refl)+

lemma close_stream_recv_free [recv_free]:
  "close_stream (g\<lparr>ng_mem_recv := r\<rparr>) = close_stream g"
  "reset_stream_for_peer_error (g\<lparr>ng_mem_recv := r\<rparr>) = reset_stream_for_peer_error g"
  "cancel_push_promise_on (g\<lparr>ng_mem_recv := r\<rparr>) = cancel_push_promise_on g"
  "can_send_empty_end_stream (g\<lparr>ng_mem_recv := r\<rparr>) = can_send_empty_end_stream g"
  unfolding close_stream_def [abs_def] reset_stream_for_peer_error_def [abs_def]
    cancel_push_promise_on_def [abs_def] can_send_empty_end_stream_def [abs_def] recv_free
  by (rule refl)+

lemma submit_reset_recv_free [recv_free]:
  "submit_reset (g\<lparr>ng_mem_recv := r\<rparr>) = submit_reset g"
  "drop_data (g\<lparr>ng_mem_recv := r\<rparr>) = drop_data g"
  unfolding submit_reset_def [abs_def] drop_data_def [abs_def] recv_free
  by (rule refl)+

lemma unpin_stream_recv_free [recv_free]:
  "unpin_stream (g\<lparr>ng_mem_recv := r\<rparr>) = unpin_stream g"
  unfolding unpin_stream_def [abs_def] recv_free
  by (rule refl)+

lemma release_stream_lease_recv_free [recv_free]:
  "release_stream_lease (g\<lparr>ng_mem_recv := r\<rparr>) = release_stream_lease g"
  unfolding release_stream_lease_def [abs_def] recv_free
  by (rule refl)+

lemma abandon_stream_lease_checked_recv_free [recv_free]:
  "abandon_stream_lease_checked (g\<lparr>ng_mem_recv := r\<rparr>) = abandon_stream_lease_checked g"
  unfolding abandon_stream_lease_checked_def [abs_def] recv_free
  by (rule refl)+

lemma retry_deferred_stream_lease_recv_free [recv_free]:
  "retry_deferred_stream_lease (g\<lparr>ng_mem_recv := r\<rparr>) = retry_deferred_stream_lease g"
  "on_data_chunk_recv (g\<lparr>ng_mem_recv := r\<rparr>) = on_data_chunk_recv g"
  "finish_data_frame (g\<lparr>ng_mem_recv := r\<rparr>) = finish_data_frame g"
  "begin_final_drain (g\<lparr>ng_mem_recv := r\<rparr>) = begin_final_drain g"
  "finish_drain_round_trip (g\<lparr>ng_mem_recv := r\<rparr>) = finish_drain_round_trip g"
  unfolding retry_deferred_stream_lease_def [abs_def] on_data_chunk_recv_def [abs_def]
    finish_data_frame_def [abs_def] begin_final_drain_def [abs_def]
    finish_drain_round_trip_def [abs_def] recv_free
  by (rule refl)+

lemma begin_initial_request_recv_free [recv_free]:
  "begin_initial_request (g\<lparr>ng_mem_recv := r\<rparr>) = begin_initial_request g"
  "begin_response_headers (g\<lparr>ng_mem_recv := r\<rparr>) = begin_response_headers g"
  "begin_push_promise (g\<lparr>ng_mem_recv := r\<rparr>) = begin_push_promise g"
  "reject_header_block (g\<lparr>ng_mem_recv := r\<rparr>) = reject_header_block g"
  "end_rejected_connect (g\<lparr>ng_mem_recv := r\<rparr>) = end_rejected_connect g"
  "close_excluded (g\<lparr>ng_mem_recv := r\<rparr>) = close_excluded g"
  unfolding begin_initial_request_def [abs_def] begin_response_headers_def [abs_def]
    begin_push_promise_def [abs_def] reject_header_block_def [abs_def]
    end_rejected_connect_def [abs_def] close_excluded_def [abs_def] recv_free
  by (rule refl)+

lemma begin_request_headers_recv_free [recv_free]:
  "begin_request_headers (g\<lparr>ng_mem_recv := r\<rparr>) = begin_request_headers g"
  "on_header (g\<lparr>ng_mem_recv := r\<rparr>) = on_header g"
  "finish_response_head (g\<lparr>ng_mem_recv := r\<rparr>) = finish_response_head g"
  "finish_push_promise (g\<lparr>ng_mem_recv := r\<rparr>) = finish_push_promise g"
  "process_rst_stream (g\<lparr>ng_mem_recv := r\<rparr>) = process_rst_stream g"
  "process_goaway (g\<lparr>ng_mem_recv := r\<rparr>) = process_goaway g"
  "on_stream_close (g\<lparr>ng_mem_recv := r\<rparr>) = on_stream_close g"
  unfolding begin_request_headers_def [abs_def] on_header_def [abs_def]
    finish_response_head_def [abs_def] finish_push_promise_def [abs_def]
    process_rst_stream_def [abs_def] process_goaway_def [abs_def] on_stream_close_def [abs_def]
    recv_free
  by (rule refl)+

lemma on_begin_headers_recv_free [recv_free]:
  "on_begin_headers (g\<lparr>ng_mem_recv := r\<rparr>) = on_begin_headers g"
  "finish_header_block (g\<lparr>ng_mem_recv := r\<rparr>) = finish_header_block g"
  "before_frame_send (g\<lparr>ng_mem_recv := r\<rparr>) = before_frame_send g"
  "on_frame_send (g\<lparr>ng_mem_recv := r\<rparr>) = on_frame_send g"
  "process_priority_update (g\<lparr>ng_mem_recv := r\<rparr>) = process_priority_update g"
  "process_ping (g\<lparr>ng_mem_recv := r\<rparr>) = process_ping g"
  "on_begin_frame (g\<lparr>ng_mem_recv := r\<rparr>) = on_begin_frame g"
  unfolding on_begin_headers_def [abs_def] finish_header_block_def [abs_def]
    before_frame_send_def [abs_def] on_frame_send_def [abs_def]
    process_priority_update_def [abs_def] process_ping_def [abs_def] on_begin_frame_def [abs_def]
    recv_free
  by (rule refl)+

lemma on_frame_recv_recv_free [recv_free]:
  "on_frame_recv (g\<lparr>ng_mem_recv := r\<rparr>) = on_frame_recv g"
  unfolding on_frame_recv_def [abs_def] recv_free
  by (rule refl)+

lemma callback_op_recv_free [recv_free]:
  "callback_op (g\<lparr>ng_mem_recv := r\<rparr>) = callback_op g"
  unfolding callback_op_def [abs_def] recv_free
  by (rule refl)+

subsection \<open>Playing a script\<close>

definition play_one :: "'s nghttp2 \<Rightarrow> h2_callback \<Rightarrow> 's h2_connection \<Rightarrow> 's h2_connection" where
  "play_one g callback c =
     (if callback_failure c = None \<and> callback_allowed callback c
        then guard_callback (callback_op g callback) c else c)"

definition play :: "'s nghttp2 \<Rightarrow> h2_callback list \<Rightarrow> 's h2_connection \<Rightarrow> int \<times> 's h2_connection" where
  "play g script c =
     (let d = fold (play_one g) script c in (if callback_failure d = None then 0 else - 1, d))"

text \<open>A session whose calls succeed; its state is the identifier it assigns next.\<close>

definition willing_session :: "u32 nghttp2" where
  "willing_session =
     \<lparr>ng_kind = \<lambda>_. Ng_other, ng_is_fatal = \<lambda>_. True,
      ng_consume = \<lambda>_ _ s. (0, s), ng_consume_connection = \<lambda>_ s. (0, s),
      ng_submit_rst_stream = \<lambda>_ _ s. (0, s), ng_find_stream = \<lambda>_ _. True,
      ng_next_stream_id = \<lambda>s. s, ng_terminate_session = \<lambda>_ s. s,
      ng_submit_goaway = \<lambda>_ s. (0, s), ng_submit_shutdown_notice = \<lambda>s. (0, s),
      ng_submit_headers = \<lambda>_ i s. (case i of None \<Rightarrow> (uint s, s + 2) | Some _ \<Rightarrow> (0, s)),
      ng_submit_data = \<lambda>_ _ _ s. (0, s), ng_data_finished = \<lambda>_. True,
      ng_submit_push_promise = \<lambda>_ s. (uint s, s + 2), ng_submit_settings = \<lambda>_ s. (0, s),
      ng_set_local_window = \<lambda>s. (0, s), ng_submit_liveness_ping = \<lambda>s. (0, s),
      ng_submit_priority_update = \<lambda>_ s. (0, s), ng_submit_extension = \<lambda>_ s. (0, s),
      ng_connection_window = \<lambda>_. 65535, ng_stream_window = \<lambda>_ _. 65535,
      ng_max_concurrent = \<lambda>_. 100, ng_enable_push = \<lambda>_. 1, ng_enable_connect_protocol = \<lambda>_. 1,
      ng_no_rfc7540_priorities = \<lambda>_. 1, ng_submit_drain_ping = \<lambda>s. (0, s),
      ng_mem_send = \<lambda>c. (if callback_failure c = None then 0 else - 1, c), ng_mem_recv = \<lambda>_ c. (0, c)\<rparr>"

definition scripted :: "(bytes \<Rightarrow> h2_callback list) \<Rightarrow> u32 nghttp2" where
  "scripted script = willing_session\<lparr>ng_mem_recv := \<lambda>input. play willing_session (script input)\<rparr>"

lemma scripted_callback: "callback_op (scripted script) = callback_op willing_session"
  unfolding scripted_def recv_free by (rule refl)

lemma play_runs: "runs (scripted script) c d \<Longrightarrow> runs (scripted script) c (fold (play_one willing_session) cbs d)"
proof (induction cbs arbitrary: d)
  case (Cons cb cbs)
  have "runs (scripted script) c (play_one willing_session cb d)"
    using run_callback [OF Cons.prems, of cb] Cons.prems by (simp add: play_one_def scripted_callback)
  from Cons.IH [OF this] show ?case by simp
qed simp

lemma scripted_ok: "nghttp2_ok (scripted script)"
proof -
  have "credit_calls_ok (scripted script)"
    by (simp add: credit_calls_ok_def fatal_code_def scripted_def willing_session_def)
  moreover have "ng_mem_send (scripted script) c = (if callback_failure c = None then 0 else - 1, c)"
    "ng_mem_recv (scripted script) input c = play willing_session (script input) c" for input c
    by (simp_all add: scripted_def) (simp add: willing_session_def)
  then have "ran (scripted script) c (ng_mem_send (scripted script) c)"
    "ran (scripted script) c (ng_mem_recv (scripted script) input c)" for input c
    using run_done play_runs [OF run_done] by (auto simp: ran_def play_def Let_def)
  ultimately show ?thesis by (simp add: nghttp2_ok_def)
qed

lemma window_respected_code [code]:
  "window_respected n c \<longleftrightarrow> int (received_total c + n) \<le> int (credited_total c) + 2147483647"
  by (auto simp: window_respected_def)

subsection \<open>A server that receives a request\<close>

text \<open>The head of stream 1, then its content.\<close>

definition demo_script :: "bytes \<Rightarrow> h2_callback list" where
  "demo_script input =
     [Cb_begin_headers \<lparr>hf_stream = 1, hf_end_stream = False, hf_initial = True,
        hf_promised = None, hf_priority = False\<rparr>,
      Cb_frame_recv (Recv_header_block 0
        \<lparr>db_request = Regular_head, db_response = No_status, db_safe_method = False\<rparr>),
      Cb_data_chunk 1 input]"

definition demo_start :: "u32 h2_connection" where
  "demo_start = initial_connection False False False False 2"

definition demo_fed :: "u32 h2_connection" where
  "demo_fed = snd (h2_feed (scripted demo_script) [1, 2, 3] demo_start)"

end
