(* ===== verification/H2_Contract.thy ===== *)
theory H2_Contract
  imports H2_Script
begin

text \<open>
  What the HTTP/2 connection promises its owner in every state its public operations reach, whatever
  the peer sends, with the server of \<open>H2_Script\<close> as the concrete case.
\<close>

subsection \<open>The server of the script\<close>

definition demo_acked :: "u32 h2_connection" where
  "demo_acked = snd (acknowledge_received_data (scripted demo_script) 1 2 demo_fed)"

definition demo_reset :: "u32 h2_connection" where
  "demo_reset = snd (submit_reset (scripted demo_script) 1 cancel_error demo_acked)"

lemma demo_reachable:
  "h2_reachable (scripted demo_script) demo_fed" "h2_reachable (scripted demo_script) demo_acked"
  "h2_steps (scripted demo_script) demo_fed demo_reset"
proof -
  let ?g = "scripted demo_script"
  have start: "h2_steps ?g demo_start demo_fed"
    unfolding demo_fed_def by (rule steps_step [OF steps_done h2_step.intros(1)])
  have ack: "h2_step ?g demo_fed demo_acked" unfolding demo_acked_def by (rule h2_step.intros(4))
  then show "h2_reachable ?g demo_fed" "h2_reachable ?g demo_acked"
    using start steps_step [OF start ack] unfolding h2_reachable_def demo_start_def by blast+
  show "h2_steps ?g demo_fed demo_reset" unfolding demo_reset_def
    by (rule steps_step [OF steps_step [OF steps_done ack] h2_step.intros(10)])
qed

lemma demo_state:
  "\<not> failed demo_acked" "received_total demo_acked = 3" "credited_total demo_acked = 2"
  "map_option pending_events (lookup_stream 1 demo_fed) = Some 2"
  "events demo_fed = [Message_head 1 False True, Message_data 1 [1, 2, 3] 3]"
  "opened demo_fed = [1]" "map_option stream_is_closed (lookup_stream 1 demo_reset) = Some True"
  by code_simp+

subsection \<open>Receive credit\<close>

text \<open>
  Property C1. No receive credit is lost and none is returned twice: in every reachable state of a
  connection that has not failed, the DATA bytes nghttp2 delivered are exactly the bytes credited
  back to it and the bytes that live stream records owe, whether the data was delivered, dropped,
  acknowledged in part or abandoned, and whatever streams were reset or released meanwhile.
\<close>

theorem receive_credit_conserved:
  assumes "nghttp2_ok g" "h2_reachable g c" "\<not> failed c"
  shows "received_total c = credited_total c + debts (streams c)"
  using reachable_calm [OF assms(1,2)] assms(3) by (simp add: calm_def conn_ok_def balanced_def)

theorem receive_credit_conserved_witness:
  "nghttp2_ok (scripted demo_script) \<and> h2_reachable (scripted demo_script) demo_acked \<and>
    \<not> failed demo_acked \<and> received_total demo_acked = 3 \<and> credited_total demo_acked = 2 \<and>
    debts (streams demo_acked) = 1"
  using receive_credit_conserved [OF scripted_ok demo_reachable(2) demo_state(1)]
  by (simp add: scripted_ok demo_reachable demo_state)

subsection \<open>Queued events\<close>

text \<open>
  Property C2. Every stream record counts exactly the queued events that name its stream, so
  \<open>consume_event\<close> never finds a count of zero (the assertion of the code) and a record whose release
  waits for its events is released by the last of them.
\<close>

theorem queued_events_counted:
  assumes "nghttp2_ok g" "h2_reachable g c" "lookup_stream i c = Some s"
  shows "pending_events s = count_list (queued c) i"
proof -
  note calm = reachable_calm [OF assms(1,2)]
  then have "record_ok settled c s" using assms(3) by (simp add: calm_def conn_ok_def)
  then show ?thesis using lookup_id [OF calm_table [OF calm] assms(3)] by (simp add: record_ok_def)
qed

theorem queued_events_counted_witness:
  "\<exists>s. nghttp2_ok (scripted demo_script) \<and> h2_reachable (scripted demo_script) demo_fed \<and>
    lookup_stream 1 demo_fed = Some s \<and> pending_events s = 2 \<and> count_list (queued demo_fed) 1 = 2"
proof -
  obtain s where s: "lookup_stream 1 demo_fed = Some s" "pending_events s = 2"
    using demo_state(4) by auto
  then show ?thesis
    using queued_events_counted [OF scripted_ok demo_reachable(1) s(1)] scripted_ok demo_reachable(1) by auto
qed

subsection \<open>Callbacks\<close>

text \<open>
  Property C3. No callback sends or receives on the session that runs it: nghttp2 forbids it, and the
  code reaches its sends from the callbacks only behind guards (the retry of a deferred release on a
  sent frame), so the property rests on the states the records can be in then. No public operation
  leaves the session running.
\<close>

theorem session_not_reentered:
  assumes "nghttp2_ok g" "h2_reachable g c"
  shows "\<not> reentered c \<and> \<not> in_nghttp2 c"
  using reachable_calm [OF assms] by (simp add: calm_def conn_ok_def)

theorem session_not_reentered_witness:
  "nghttp2_ok (scripted demo_script) \<and> h2_reachable (scripted demo_script) demo_acked \<and>
    opened demo_fed = [1] \<and> \<not> reentered demo_acked"
  using session_not_reentered [OF scripted_ok demo_reachable(2)]
  by (simp add: scripted_ok demo_reachable demo_state)

subsection \<open>The life of a stream\<close>



end
