(* ===== verification/Uri_Path.thy ===== *)
theory Uri_Path
  imports Chunk_Line "HOL-Library.List_Lexorder"
begin

text \<open>
  The identity of origin-form paths that routing, path scopes and route parameters share
  (\<open>url_encoding.h\<close>, \<open>path_segments.cpp\<close>, \<open>prefix_fallback.h\<close>): canonical units read with a cursor,
  equivalence and order of two spellings, segments, dot segments and scopes. The specification is
  the list of units of a path and the list of its segments.
\<close>

subsection \<open>Canonical units\<close>

definition http_try_decode_percent_byte :: "bytes \<Rightarrow> nat \<Rightarrow> byte option" where
  "http_try_decode_percent_byte input index =
     (if index \<ge> length input \<or> length input - index < 3 \<or> input ! index \<noteq> 0x25 then None
      else case (http_decode_hex_nibble (input ! (index + 1)), http_decode_hex_nibble (input ! (index + 2))) of
        (Some high, Some low) \<Rightarrow> Some (word_of_nat (high * 16 + low))
      | _ \<Rightarrow> None)"

definition uri_path_separator_unit :: int where
  "uri_path_separator_unit = 0x100"

definition next_uri_path_unit :: "bytes \<Rightarrow> nat \<Rightarrow> int \<times> nat" where
  "next_uri_path_unit path index =
     (let c = path ! index in
      if c = 0x2f then (uri_path_separator_unit, index + 1)
      else if c = 0x25 then
        (case http_try_decode_percent_byte path index of
           None \<Rightarrow> (- 1, index + 1)
         | Some b \<Rightarrow> (uint b, index + 3))
      else (uint c, index + 1))"

lemma next_unit_index: "(u, i') = next_uri_path_unit path i \<Longrightarrow> i < i'"
  by (auto simp: next_uri_path_unit_def Let_def split: option.splits if_splits)

function compare_from :: "bytes \<Rightarrow> nat \<Rightarrow> bytes \<Rightarrow> nat \<Rightarrow> int" where
  "compare_from left i right j =
     (if i < length left \<and> j < length right then
        (case (next_uri_path_unit left i, next_uri_path_unit right j) of
           ((u, i'), (v, j')) \<Rightarrow>
             if u \<noteq> v then (if u < v then - 1 else 1) else compare_from left i' right j')
      else if i < length left then 1
      else if j < length right then - 1 else 0)"
  by auto
termination
  by (relation "measure (\<lambda>(left, i, _). length left - i)") (auto dest: next_unit_index)

definition compare_uri_paths :: "bytes \<Rightarrow> bytes \<Rightarrow> int" where
  "compare_uri_paths left right = compare_from left 0 right 0"

function equivalent_from :: "bytes \<Rightarrow> nat \<Rightarrow> bytes \<Rightarrow> nat \<Rightarrow> bool" where
  "equivalent_from left i right j =
     (if i < length left \<and> j < length right then
        (case (next_uri_path_unit left i, next_uri_path_unit right j) of
           ((u, i'), (v, j')) \<Rightarrow>
             if u < 0 \<or> u \<noteq> v then False else equivalent_from left i' right j')
      else i = length left \<and> j = length right)"
  by auto
termination
  by (relation "measure (\<lambda>(left, i, _). length left - i)") (auto dest: next_unit_index)

definition uri_paths_equivalent :: "bytes \<Rightarrow> bytes \<Rightarrow> bool" where
  "uri_paths_equivalent left right = equivalent_from left 0 right 0"

declare compare_from.simps [simp del] equivalent_from.simps [simp del]

subsection \<open>The units of a path\<close>

fun units :: "bytes \<Rightarrow> int list" where
  "units [] = []"
| "units (c # cs) =
     (if c = 0x2f then 0x100 # units cs
      else if c = 0x25 then
        (case cs of
           h # l # rest \<Rightarrow>
             (case (http_decode_hex_nibble h, http_decode_hex_nibble l) of
                (Some high, Some low) \<Rightarrow> int (high * 16 + low) # units rest
              | _ \<Rightarrow> - 1 # units cs)
         | _ \<Rightarrow> - 1 # units cs)
      else uint c # units cs)"

definition well_escaped :: "bytes \<Rightarrow> bool" where
  "well_escaped path \<longleftrightarrow> - 1 \<notin> set (units path)"

lemma uint_hex:
  assumes "high < 16" "low < 16"
  shows "uint (word_of_nat (high * 16 + low) :: byte) = int (high * 16 + low)"
proof -
  have "unat (word_of_nat (high * 16 + low) :: byte) = high * 16 + low"
    using assms by (subst unat_of_nat) simp
  then show ?thesis by (metis of_nat_unat)
qed

lemma units_unfold:
  assumes "i < length path"
  shows "units (drop i path) =
    fst (next_uri_path_unit path i) # units (drop (snd (next_uri_path_unit path i)) path)"
proof -
  obtain c cs where d: "drop i path = c # cs" using assms by (metis Cons_nth_drop_Suc)
  then have c: "path ! i = c" and cs: "cs = drop (i + 1) path"
    using Cons_nth_drop_Suc [OF assms] by auto
  show ?thesis
  proof (cases "c = 0x25")
    case False
    then show ?thesis unfolding d by (simp add: next_uri_path_unit_def c uri_path_separator_unit_def cs)
  next
    case percent: True
    show ?thesis
    proof (cases "length path - i < 3")
      case True
      then have "length cs < 2" using cs assms by simp
      then have "units (c # cs) = - 1 # units cs"
        using percent by (cases cs; cases "tl cs") auto
      moreover have "http_try_decode_percent_byte path i = None"
        using True by (simp add: http_try_decode_percent_byte_def)
      ultimately show ?thesis unfolding d using percent by (simp add: next_uri_path_unit_def c cs)
    next
      case False
      then have "length cs \<ge> 2" using cs by simp
      then obtain h l rest where r: "cs = h # l # rest"
        by (metis Suc_le_length_iff numeral_2_eq_2)
      have hl: "path ! (i + 1) = h" "path ! (i + 2) = l" "rest = drop (i + 3) path"
      proof -
        have "path ! (i + 1) = cs ! 0" "path ! (i + 2) = cs ! 1" using False by (simp_all add: cs)
        then show "path ! (i + 1) = h" "path ! (i + 2) = l" by (simp_all add: r)
        have "rest = drop 2 cs" by (simp add: r)
        then show "rest = drop (i + 3) path" by (simp add: cs eval_nat_numeral)
      qed
      have split: "units (c # cs) =
          (case (http_decode_hex_nibble h, http_decode_hex_nibble l) of
             (Some high, Some low) \<Rightarrow> int (high * 16 + low) # units rest
           | _ \<Rightarrow> - 1 # units cs)"
        using percent by (simp only: r units.simps) simp
      have decode: "http_try_decode_percent_byte path i =
          (case (http_decode_hex_nibble h, http_decode_hex_nibble l) of
             (Some high, Some low) \<Rightarrow> Some (word_of_nat (high * 16 + low)) | _ \<Rightarrow> None)"
        using False percent c hl assms by (simp add: http_try_decode_percent_byte_def)
      show ?thesis
      proof (cases "\<exists>high low. http_decode_hex_nibble h = Some high \<and> http_decode_hex_nibble l = Some low")
        case True
        then obtain high low where n: "http_decode_hex_nibble h = Some high" "http_decode_hex_nibble l = Some low"
          by blast
        then have "units (c # cs) = int (high * 16 + low) # units rest"
          "next_uri_path_unit path i = (int (high * 16 + low), i + 3)"
          using split decode percent c uint_hex [OF hex_nibble_less hex_nibble_less]
          by (simp_all only: next_uri_path_unit_def Let_def) simp_all
        then show ?thesis unfolding d by (simp only: fst_conv snd_conv hl(3))
      next
        case False
        then have "units (c # cs) = - 1 # units cs" "next_uri_path_unit path i = (- 1, i + 1)"
          using split decode percent c by (auto simp only: next_uri_path_unit_def Let_def split: option.splits) simp_all
        then show ?thesis unfolding d by (simp only: fst_conv snd_conv cs)
      qed
    qed
  qed
qed

lemma next_unit_bound:
  assumes "i < length path"
  shows "snd (next_uri_path_unit path i) \<le> length path"
  using assms by (auto simp: next_uri_path_unit_def Let_def http_try_decode_percent_byte_def
      split: option.splits if_splits)

lemma uri_unit_cases:
  assumes "i < length path" "next_uri_path_unit path i = (u, i')"
  shows "units (drop i path) = u # units (drop i' path)" "i < i'" "i' \<le> length path"
  using units_unfold [OF assms(1)] next_unit_bound [OF assms(1)] next_unit_index [of u i' path i] assms(2)
  by auto

lemma units_Nil_iff: "units xs = [] \<longleftrightarrow> xs = []"
  using units_unfold [of 0 xs] by (cases xs) auto

lemma next_unit_range: "- 1 \<le> fst (next_uri_path_unit path i) \<and> fst (next_uri_path_unit path i) \<le> 0x100"
proof -
  have byte: "- 1 \<le> uint b \<and> uint b \<le> 0x100" for b :: byte
    proof -
    have "uint b < 256" using uint_lt2p [of b] by simp
    then show ?thesis using uint_ge_0 [of b] by linarith
  qed
  show ?thesis
    by (simp add: next_uri_path_unit_def Let_def uri_path_separator_unit_def byte split: option.splits)
qed

lemma units_range_from:
  "i \<le> length path \<Longrightarrow> u \<in> set (units (drop i path)) \<Longrightarrow> - 1 \<le> u \<and> u \<le> 0x100"
proof (induction "length path - i" arbitrary: i rule: less_induct)
  case less
  have i: "i < length path" using less.prems by (cases "i = length path") auto
  note next_unit = uri_unit_cases [OF i prod.collapse [symmetric]]
  have "u = fst (next_uri_path_unit path i) \<or> u \<in> set (units (drop (snd (next_uri_path_unit path i)) path))"
    using less.prems(2) next_unit(1) by auto
  then show ?case
    using next_unit_range [of path i] less.hyps [of "snd (next_uri_path_unit path i)"] next_unit(2,3) i by auto
qed

lemma units_range: "u \<in> set (units path) \<Longrightarrow> - 1 \<le> u \<and> u \<le> 0x100"
  using units_range_from [of 0 path u] by simp

subsection \<open>Equivalence and order are those of the units\<close>

lemma equivalent_from_units:
  "\<lbrakk>i \<le> length left; j \<le> length right\<rbrakk> \<Longrightarrow> equivalent_from left i right j \<longleftrightarrow>
     units (drop i left) = units (drop j right) \<and> - 1 \<notin> set (units (drop i left))"
proof (induction left i right j rule: equivalent_from.induct)
  case (1 left i right j)
  show ?case
  proof (cases "i < length left \<and> j < length right")
    case True
    obtain u i' where u: "next_uri_path_unit left i = (u, i')" by fastforce
    obtain v j' where v: "next_uri_path_unit right j = (v, j')" by fastforce
    note l = uri_unit_cases [OF conjunct1 [OF True] u] and r = uri_unit_cases [OF conjunct2 [OF True] v]
    have "u < 0 \<longleftrightarrow> u = - 1" using units_range [of u "drop i left"] l(1) by auto
    then show ?thesis using True u v l r "1.IH" [OF True refl u [symmetric] v [symmetric]]
      by (subst equivalent_from.simps) auto
  next
    case False
    then have "i = length left \<or> j = length right" using 1 by auto
    then show ?thesis using False 1 units_Nil_iff [of "drop i left"] units_Nil_iff [of "drop j right"]
      by (subst equivalent_from.simps) (auto simp: not_less)
  qed
qed

lemma uri_paths_equivalent_units:
  "uri_paths_equivalent left right \<longleftrightarrow> units left = units right \<and> well_escaped left"
  using equivalent_from_units [of 0 left 0 right] by (simp add: uri_paths_equivalent_def well_escaped_def)

lemma compare_from_units:
  "\<lbrakk>i \<le> length left; j \<le> length right\<rbrakk> \<Longrightarrow> compare_from left i right j =
     (if units (drop i left) = units (drop j right) then 0
      else if units (drop i left) < units (drop j right) then - 1 else 1)"
proof (induction left i right j rule: compare_from.induct)
  case (1 left i right j)
  show ?case
  proof (cases "i < length left \<and> j < length right")
    case True
    obtain u i' where u: "next_uri_path_unit left i = (u, i')" by fastforce
    obtain v j' where v: "next_uri_path_unit right j = (v, j')" by fastforce
    note l = uri_unit_cases [OF conjunct1 [OF True] u] and r = uri_unit_cases [OF conjunct2 [OF True] v]
    show ?thesis using True u v l r "1.IH" [OF True refl u [symmetric] v [symmetric]]
      by (subst compare_from.simps) auto
  next
    case False
    then have "i = length left \<or> j = length right" using 1 by auto
    moreover have "i < length left \<Longrightarrow> \<exists>x xs. units (drop i left) = x # xs"
      "j < length right \<Longrightarrow> \<exists>x xs. units (drop j right) = x # xs"
      using units_Nil_iff by (metis drop_eq_Nil linorder_not_less list.exhaust)+
    ultimately show ?thesis using False 1 by (subst compare_from.simps) (auto simp: not_less)
  qed
qed

lemma compare_uri_paths_units:
  "compare_uri_paths left right =
     (if units left = units right then 0 else if units left < units right then - 1 else 1)"
  using compare_from_units [of 0 left 0 right] by (simp add: compare_uri_paths_def)

lemma compare_less: "compare_uri_paths left right < 0 \<longleftrightarrow> units left < units right"
  by (auto simp: compare_uri_paths_units)

lemma equivalent_sym: "uri_paths_equivalent left right \<Longrightarrow> uri_paths_equivalent right left"
  by (auto simp: uri_paths_equivalent_units well_escaped_def)

lemma equivalent_trans:
  "uri_paths_equivalent a b \<Longrightarrow> uri_paths_equivalent b c \<Longrightarrow> uri_paths_equivalent a c"
  by (auto simp: uri_paths_equivalent_units well_escaped_def)

subsection \<open>Segments\<close>

definition split_path_segment :: "bytes \<Rightarrow> (bytes \<times> bytes) option" where
  "split_path_segment path =
     (if path = [] then None
      else let path = (if hd path = 0x2f then tl path else path) in
        case find_byte 0x2f path of
          None \<Rightarrow> Some (path, [])
        | Some slash \<Rightarrow> Some (substr path 0 slash, drop slash path))"

definition is_dot_segment :: "bytes \<Rightarrow> bool" where
  "is_dot_segment segment \<longleftrightarrow> segment \<noteq> [] \<and> length segment \<le> 6 \<and>
     (uri_paths_equivalent segment [0x2e] \<or> uri_paths_equivalent segment [0x2e, 0x2e])"

function dot_segment_from :: "bytes \<Rightarrow> nat \<Rightarrow> bool" where
  "dot_segment_from path cursor =
     (let slash = find_byte_from 0x2f path cursor;
          last = (case slash of None \<Rightarrow> length path | Some i \<Rightarrow> i) in
      if is_dot_segment (substr path cursor (last - cursor)) then True
      else case slash of None \<Rightarrow> False | Some i \<Rightarrow> dot_segment_from path (i + 1))"
  by auto
termination
  by (relation "measure (\<lambda>(path, cursor). length path - cursor)")
    (auto dest!: sym [of "Some _"] simp: find_byte_from_Some_iff)

definition has_dot_segment :: "bytes \<Rightarrow> bool" where
  "has_dot_segment path = dot_segment_from path 0"

function under_prefix_from :: "bytes \<Rightarrow> nat \<Rightarrow> bytes \<Rightarrow> nat \<Rightarrow> bool" where
  "under_prefix_from path path_cursor prefix prefix_cursor =
     (let prefix_end = (case find_byte_from 0x2f prefix prefix_cursor of None \<Rightarrow> length prefix | Some i \<Rightarrow> i);
          path_end = (case find_byte_from 0x2f path path_cursor of None \<Rightarrow> length path | Some i \<Rightarrow> i) in
      if \<not> uri_paths_equivalent (substr path path_cursor (path_end - path_cursor))
             (substr prefix prefix_cursor (prefix_end - prefix_cursor)) then False
      else if prefix_end = length prefix then True
      else if path_end = length path then False
      else under_prefix_from path (path_end + 1) prefix (prefix_end + 1))"
  by auto
termination
  by (relation "measure (\<lambda>(_, _, prefix, cursor). length prefix - cursor)")
    (auto simp: find_byte_from_Some_iff split: option.splits)

definition path_is_under_prefix :: "bytes \<Rightarrow> bytes \<Rightarrow> bool" where
  "path_is_under_prefix path prefix =
     (if prefix = [] then True
      else if path = [] \<or> hd path \<noteq> 0x2f then False
      else under_prefix_from path 1 prefix 1)"

definition fallback_prefixes_equivalent :: "bytes \<Rightarrow> bytes \<Rightarrow> bool" where
  "fallback_prefixes_equivalent left right \<longleftrightarrow> path_is_under_prefix left right \<and> path_is_under_prefix right left"

fun fallback_prefix_depth :: "bytes \<Rightarrow> nat" where
  "fallback_prefix_depth [] = 0"
| "fallback_prefix_depth (c # cs) = (if c = 0x2f then 1 else 0) + fallback_prefix_depth cs"

declare dot_segment_from.simps [simp del] under_prefix_from.simps [simp del]

text \<open>The pieces of a path between its slashes, and its segments after an optional leading slash.\<close>

fun parts :: "bytes \<Rightarrow> bytes list" where
  "parts [] = [[]]"
| "parts (c # cs) = (if c = 0x2f then [] # parts cs else (c # hd (parts cs)) # tl (parts cs))"

definition segments :: "bytes \<Rightarrow> bytes list" where
  "segments path = (if path = [] then [] else parts (if hd path = 0x2f then tl path else path))"

lemma parts_not_Nil [simp]: "parts p \<noteq> []"
  by (cases p) auto

lemma parts_single: "0x2f \<notin> set a \<Longrightarrow> parts a = [a]"
  by (induction a) auto

lemma parts_slash: "0x2f \<notin> set a \<Longrightarrow> parts (a @ 0x2f # b) = a # parts b"
  by (induction a) auto

lemma parts_find:
  "parts p = (case find_byte 0x2f p of None \<Rightarrow> [p] | Some i \<Rightarrow> take i p # parts (drop (Suc i) p))"
proof (cases "find_byte 0x2f p")
  case None
  then have "parts p = [p]" by (intro parts_single) (simp add: find_byte_None_iff)
  then show ?thesis using None by simp
next
  case (Some i)
  then have i: "i < length p" "p ! i = 0x2f" "0x2f \<notin> set (take i p)"
    by (auto simp: find_byte_Some_iff in_set_conv_nth)
  then show ?thesis using Some parts_slash [OF i(3), of "drop (Suc i) p"] id_take_nth_drop [OF i(1)] by simp
qed

lemma parts_no_slash: "s \<in> set (parts p) \<Longrightarrow> 0x2f \<notin> set s"
proof (induction p arbitrary: s)
  case (Cons c p)
  then show ?case
    using Cons.IH [of "hd (parts p)"] Cons.IH [of s] list.set_sel(2) [of "parts p" s]
    by (auto split: if_splits)
qed simp

lemma parts_find_from:
  "parts (drop cursor p) = (case find_byte_from 0x2f p cursor of
      None \<Rightarrow> [drop cursor p] | Some i \<Rightarrow> substr p cursor (i - cursor) # parts (drop (i + 1) p))"
  unfolding parts_find [of "drop cursor p"]
  by (auto simp: find_byte_from_def substr_def drop_take add.commute split: option.splits)

lemma split_path_segment_None [simp]: "split_path_segment path = None \<longleftrightarrow> path = []"
  by (auto simp: split_path_segment_def Let_def split: option.splits)

lemma split_path_segment_Some:
  assumes "split_path_segment path = Some (segment, rest)"
  shows "segments path = segment # segments rest" "0x2f \<notin> set segment" "length rest < length path"
    "rest = [] \<or> hd rest = 0x2f"
proof -
  define p where "p = (if hd path = 0x2f then tl path else path)"
  have path: "path \<noteq> []" and result: "(segment, rest) =
      (case find_byte 0x2f p of None \<Rightarrow> (p, []) | Some slash \<Rightarrow> (take slash p, drop slash p))"
    using assms by (auto simp: split_path_segment_def Let_def p_def [symmetric] substr_def split: if_splits option.splits)
  have seg: "segments path = parts p" using path by (simp add: segments_def p_def)
  have len: "length p \<le> length path" "hd path = 0x2f \<Longrightarrow> length p < length path"
    using path by (auto simp: p_def)
  have "segments path = segment # segments rest \<and> 0x2f \<notin> set segment \<and> length rest < length path \<and>
      (rest = [] \<or> hd rest = 0x2f)"
  proof (cases "find_byte 0x2f p")
    case None
    then have "0x2f \<notin> set p" by (simp add: find_byte_None_iff)
    moreover have "segments [] = []" by (simp add: segments_def)
    ultimately show ?thesis using result path None by (simp add: seg parts_single)
  next
    case (Some i)
    then have i: "i < length p" "p ! i = 0x2f" "0x2f \<notin> set (take i p)"
      by (auto simp: find_byte_Some_iff in_set_conv_nth)
    have "i = 0 \<Longrightarrow> length p < length path"
      using i path by (cases "hd path = 0x2f") (auto simp: p_def hd_conv_nth)
    then have "length (drop i p) < length path" using i(1) len by (cases "i = 0") auto
    moreover have "drop i p = 0x2f # drop (Suc i) p" using i by (metis Cons_nth_drop_Suc)
    moreover have "segments (drop i p) = parts (drop (Suc i) p)"
      using calculation(2) by (simp add: segments_def)
    ultimately show ?thesis using Some result i by (simp add: seg parts_find [of p])
  qed
  then show "segments path = segment # segments rest" "0x2f \<notin> set segment" "length rest < length path"
    "rest = [] \<or> hd rest = 0x2f" by auto
qed

lemma segments_Nil [simp]: "segments [] = []"
  by (simp add: segments_def)

lemma segments_Nil_iff [simp]: "segments path = [] \<longleftrightarrow> path = []"
  by (simp add: segments_def)

text \<open>The units of a path are those of its segments, separated by the separator unit.\<close>

lemma nibble_slash: "http_decode_hex_nibble 0x2f = None" "http_decode_hex_nibble 0x25 = None"
  by (simp_all add: http_decode_hex_nibble_def byte_le_nat)

definition escape :: "bytes \<Rightarrow> (int \<times> bytes) option" where
  "escape cs = (case cs of
     h # l # rest \<Rightarrow>
       (case (http_decode_hex_nibble h, http_decode_hex_nibble l) of
          (Some high, Some low) \<Rightarrow> Some (int (high * 16 + low), rest)
        | _ \<Rightarrow> None)
   | _ \<Rightarrow> None)"

lemma units_plain: "c \<noteq> 0x2f \<Longrightarrow> c \<noteq> 0x25 \<Longrightarrow> units (c # cs) = uint c # units cs"
  by simp

lemma units_percent:
  "units (0x25 # cs) = (case escape cs of None \<Rightarrow> - 1 # units cs | Some (u, rest) \<Rightarrow> u # units rest)"
  by (subst units.simps(2)) (auto simp: escape_def simp del: units.simps(2) split: list.split option.split)

lemma escape_append_slash:
  "escape (a @ 0x2f # b) = map_option (\<lambda>(u, rest). (u, rest @ 0x2f # b)) (escape a)"
  by (cases a; cases "tl a") (auto simp: escape_def nibble_slash split: option.splits list.split)

lemma escape_Some:
  assumes "escape cs = Some (u, rest)"
  shows "0 \<le> u" "u < 0x100" "length rest + 2 = length cs" "set rest \<subseteq> set cs"
proof -
  obtain h l where cs: "cs = h # l # rest"
    using assms by (auto simp: escape_def split: list.splits option.splits)
  then obtain high low where n: "http_decode_hex_nibble h = Some high" "http_decode_hex_nibble l = Some low"
    "u = int (high * 16 + low)"
    using assms by (auto simp: escape_def split: option.splits)
  have "high < 16" "low < 16" using n hex_nibble_less by auto
  then have "high * 16 + low < 0x100" by linarith
  then show "0 \<le> u" "u < 0x100" using n by (simp_all del: of_nat_add of_nat_mult)
  show "length rest + 2 = length cs" "set rest \<subseteq> set cs" using cs by auto
qed

declare units.simps(2) [simp del]

lemma units_slash [simp]: "units (0x2f # cs) = 0x100 # units cs"
  by (simp add: units.simps)

lemma units_append_slash: "units (a @ 0x2f # b) = units a @ 0x100 # units b"
proof (induction "length a" arbitrary: a rule: less_induct)
  case less
  show ?case
  proof (cases a)
    case (Cons c cs)
    consider "c = 0x2f" | "c = 0x25" | "c \<noteq> 0x2f" "c \<noteq> 0x25" by blast
    then show ?thesis
    proof cases
      case 2
      have "units (rest @ 0x2f # b) = units rest @ 0x100 # units b" if "escape cs = Some (u, rest)" for u rest
        using escape_Some [OF that] less [of rest] Cons by simp
      then show ?thesis using 2 less [of cs] Cons
        by (auto simp: units_percent escape_append_slash split: option.split)
    qed (use less [of cs] Cons in \<open>simp_all add: units_plain\<close>)
  qed simp
qed

lemma separator_notin_units: "0x2f \<notin> set a \<Longrightarrow> 0x100 \<notin> set (units a)"
proof (induction "length a" arbitrary: a rule: less_induct)
  case less
  show ?case
  proof (cases a)
    case (Cons c cs)
    show ?thesis
    proof (cases "c = 0x25")
      case True
      have "u \<noteq> 0x100 \<and> 0x100 \<notin> set (units rest)" if "escape cs = Some (u, rest)" for u rest
        using escape_Some [OF that] less.hyps [of rest] less.prems Cons by auto
      then show ?thesis using True less.hyps [of cs] less.prems Cons
        by (auto simp: units_percent split: option.split)
    next
      case False
      have "uint c < 0x100" using uint_lt2p [of c] by simp
      then show ?thesis using False less.hyps [of cs] less.prems Cons by (simp add: units_plain)
    qed
  qed simp
qed

fun join_units :: "int list list \<Rightarrow> int list" where
  "join_units [] = []"
| "join_units [us] = us"
| "join_units (us # vs # rest) = us @ 0x100 # join_units (vs # rest)"

lemma join_units_Cons: "rest \<noteq> [] \<Longrightarrow> join_units (us # rest) = us @ 0x100 # join_units rest"
  by (cases rest) auto

lemma first_part: "p = hd (parts p) \<and> tl (parts p) = [] \<or>
    (\<exists>b. p = hd (parts p) @ 0x2f # b \<and> tl (parts p) = parts b)"
proof (cases "find_byte 0x2f p")
  case None
  then show ?thesis using parts_find [of p] by simp
next
  case (Some i)
  then have "i < length p" "p ! i = 0x2f" by (auto simp: find_byte_Some_iff)
  then show ?thesis using Some parts_find [of p] id_take_nth_drop [of i p] by auto
qed

lemma units_parts: "units p = join_units (map units (parts p))"
proof (induction "length p" arbitrary: p rule: less_induct)
  case less
  consider "parts p = [p]" | b where "p = hd (parts p) @ 0x2f # b" "parts p = hd (parts p) # parts b"
    using first_part [of p] by (metis list.collapse parts_not_Nil)
  then show ?case
  proof cases
    case 2
    have "length b < length p" by (subst 2(1)) simp
    then have "units b = join_units (map units (parts b))" by (rule less)
    moreover have "units p = units (hd (parts p)) @ 0x100 # units b"
      by (subst 2(1)) (rule units_append_slash)
    moreover have "join_units (map units (parts p)) = units (hd (parts p)) @ 0x100 # join_units (map units (parts b))"
      by (subst 2(2)) (simp add: join_units_Cons)
    ultimately show ?thesis by simp
  qed simp
qed

lemma append_separator_eq:
  "x \<notin> set us \<Longrightarrow> x \<notin> set vs \<Longrightarrow> us @ x # as = vs @ x # bs \<longleftrightarrow> us = vs \<and> as = bs"
  by (auto simp: append_eq_append_conv2 append_eq_Cons_conv Cons_eq_append_conv)

lemma join_units_eq:
  "\<lbrakk>us \<noteq> []; vs \<noteq> []; \<forall>u\<in>set us. 0x100 \<notin> set u; \<forall>v\<in>set vs. 0x100 \<notin> set v\<rbrakk> \<Longrightarrow>
     join_units us = join_units vs \<longleftrightarrow> us = vs"
proof (induction us arbitrary: vs)
  case (Cons u us)
  obtain v ws where vs: "vs = v # ws" using Cons.prems by (cases vs) auto
  have "0x100 \<notin> set u" "0x100 \<notin> set v" using Cons.prems vs by auto
  then show ?case
    using Cons.IH [of ws] Cons.prems unfolding vs
    by (cases "us = []"; cases "ws = []") (auto simp: join_units_Cons append_separator_eq)
qed simp

lemma units_eq_parts: "units a = units b \<longleftrightarrow> map units (parts a) = map units (parts b)"
  unfolding units_parts [of a] units_parts [of b]
  by (rule join_units_eq) (auto dest!: parts_no_slash dest: separator_notin_units)

lemma well_formed_parts: "well_escaped path \<longleftrightarrow> (\<forall>s\<in>set (parts path). well_escaped s)"
proof -
  have "x \<noteq> 0x100 \<Longrightarrow> x \<in> set (join_units us) \<longleftrightarrow> (\<exists>u\<in>set us. x \<in> set u)" for x us
    by (induction us rule: join_units.induct) auto
  from this [of "- 1" "map units (parts path)"] show ?thesis
    by (auto simp: well_escaped_def units_parts [symmetric])
qed

lemma map_eq_list_all2: "map f xs = map f ys \<longleftrightarrow> list_all2 (\<lambda>x y. f x = f y) xs ys"
  by (auto simp: list_all2_conv_all_nth list_eq_iff_nth_eq)

lemma equivalent_parts:
  "uri_paths_equivalent a b \<longleftrightarrow> list_all2 uri_paths_equivalent (parts a) (parts b)"
proof -
  have "uri_paths_equivalent a b \<longleftrightarrow>
      list_all2 (\<lambda>s t. units s = units t) (parts a) (parts b) \<and> (\<forall>s\<in>set (parts a). well_escaped s)"
    by (simp add: uri_paths_equivalent_units units_eq_parts [of a b] well_formed_parts [of a] map_eq_list_all2)
  also have "\<dots> \<longleftrightarrow> list_all2 uri_paths_equivalent (parts a) (parts b)"
    by (auto simp: list_all2_conv_all_nth all_set_conv_all_nth uri_paths_equivalent_units)
  finally show ?thesis .
qed

subsection \<open>Dot segments\<close>

lemma units_cursor: "i \<le> length path \<Longrightarrow> length path - i \<le> 3 * length (units (drop i path))"
proof (induction "length path - i" arbitrary: i rule: less_induct)
  case less
  show ?case
  proof (cases "i = length path")
    case False
    then have i: "i < length path" using less.prems by simp
    obtain u i' where u: "next_uri_path_unit path i = (u, i')" by fastforce
    have "i' \<le> i + 3"
      using u by (auto simp: next_uri_path_unit_def Let_def split: if_splits option.splits)
    moreover note uri_unit_cases [OF i u]
    moreover have "length path - i' \<le> 3 * length (units (drop i' path))"
      using less.hyps [of i'] uri_unit_cases [OF i u] i by simp
    ultimately show ?thesis by simp
  qed simp
qed

lemma is_dot_segment_units:
  "is_dot_segment s \<longleftrightarrow> units s = [0x2e] \<or> units s = [0x2e, 0x2e]"
proof -
  have dot: "units [0x2e] = [0x2e]" "units [0x2e, 0x2e] = [0x2e, 0x2e]"
    by (simp_all add: units_plain)
  have "length s \<le> 3 * length (units s)" using units_cursor [of 0 s] by simp
  then show ?thesis
    by (auto simp: is_dot_segment_def uri_paths_equivalent_units well_escaped_def dot)
qed

lemma dot_segment_from:
  "dot_segment_from path cursor \<longleftrightarrow> (\<exists>s\<in>set (parts (drop cursor path)). is_dot_segment s)"
proof (induction path cursor rule: dot_segment_from.induct)
  case (1 path cursor)
  show ?case
  proof (cases "find_byte_from 0x2f path cursor")
    case None
    then show ?thesis
      by (subst dot_segment_from.simps) (simp add: parts_find_from substr_def)
  next
    case (Some i)
    then show ?thesis using 1 by (subst dot_segment_from.simps) (auto simp: parts_find_from)
  qed
qed

lemma has_dot_segment_parts: "has_dot_segment path \<longleftrightarrow> (\<exists>s\<in>set (parts path). is_dot_segment s)"
  by (simp add: has_dot_segment_def dot_segment_from)

text \<open>The test does not depend on how the path is spelled.\<close>

lemma has_dot_segment_equivalent:
  assumes "uri_paths_equivalent left right"
  shows "has_dot_segment left \<longleftrightarrow> has_dot_segment right"
proof -
  have "(\<exists>s\<in>set (parts path). is_dot_segment s) \<longleftrightarrow>
      [0x2e] \<in> set (map units (parts path)) \<or> [0x2e, 0x2e] \<in> set (map units (parts path))" for path
    by (auto simp: is_dot_segment_units image_iff) (metis | blast)+
  moreover have "map units (parts left) = map units (parts right)"
    using assms by (simp add: uri_paths_equivalent_units units_eq_parts)
  ultimately show ?thesis by (simp only: has_dot_segment_parts)
qed

subsection \<open>Path scopes\<close>

definition leading :: "bytes list \<Rightarrow> bytes list \<Rightarrow> bool" where
  "leading qs ps \<longleftrightarrow> length qs \<le> length ps \<and> list_all2 uri_paths_equivalent (take (length qs) ps) qs"

lemma leading_Cons: "leading (q # qs) (p # ps) \<longleftrightarrow> uri_paths_equivalent p q \<and> leading qs ps"
  by (auto simp: leading_def)

lemma leading_Nil [simp]: "leading [] ps" "leading (q # qs) [] \<longleftrightarrow> False"
  by (simp_all add: leading_def)

lemma under_prefix_from:
  "\<lbrakk>i \<le> length path; j \<le> length prefix\<rbrakk> \<Longrightarrow>
     under_prefix_from path i prefix j \<longleftrightarrow> leading (parts (drop j prefix)) (parts (drop i path))"
proof (induction path i prefix j rule: under_prefix_from.induct)
  case (1 path i prefix j)
  define q where "q = find_byte_from 0x2f prefix j"
  define p where "p = find_byte_from 0x2f path i"
  have q: "\<And>k. q = Some k \<Longrightarrow> j \<le> k \<and> k < length prefix"
    and p: "\<And>k. p = Some k \<Longrightarrow> i \<le> k \<and> k < length path"
    by (auto simp: q_def p_def find_byte_from_Some_iff)
  note unfold = under_prefix_from.simps [of path i prefix j, folded q_def p_def]
  note IH = "1.IH" [folded q_def p_def, OF refl refl]
  show ?case
  proof (cases q)
    case None
    then show ?thesis
      unfolding unfold parts_find_from [of j prefix, folded q_def] parts_find_from [of i path, folded p_def]
      by (cases p) (auto simp: leading_Cons substr_def)
  next
    case (Some k)
    then have k: "k < length prefix" using q by auto
    show ?thesis
    proof (cases p)
      case None
      then show ?thesis using Some k
        unfolding unfold parts_find_from [of j prefix, folded q_def] parts_find_from [of i path, folded p_def]
        by (cases "parts (drop (k + 1) prefix)") (use parts_not_Nil in \<open>auto simp: leading_Cons simp del: parts_not_Nil\<close>)
    next
      fix l assume l: "p = Some l"
      then show ?thesis using Some k p [OF l] IH
        unfolding unfold parts_find_from [of j prefix, folded q_def] parts_find_from [of i path, folded p_def]
        by (auto simp: leading_Cons)
    qed
  qed
qed

lemma segments_slash: "segments (0x2f # path) = parts path"
  by (simp add: segments_def)

lemma path_is_under_prefix_segments:
  "path_is_under_prefix path (0x2f # prefix) \<longleftrightarrow>
     path \<noteq> [] \<and> hd path = 0x2f \<and> leading (segments (0x2f # prefix)) (segments path)"
  by (cases path)
    (auto simp: path_is_under_prefix_def segments_slash under_prefix_from)

lemma leading_refl: "list_all well_escaped ps \<Longrightarrow> leading ps ps"
  by (auto simp: leading_def list_all2_conv_all_nth list_all_length uri_paths_equivalent_units)

lemma leading_nth: "leading qs ps \<longleftrightarrow>
    length qs \<le> length ps \<and> (\<forall>i < length qs. uri_paths_equivalent (ps ! i) (qs ! i))"
  by (auto simp: leading_def list_all2_conv_all_nth)

lemma leading_trans: "leading ps os \<Longrightarrow> leading qs ps \<Longrightarrow> leading qs os"
  unfolding leading_nth by (metis equivalent_trans order_less_le_trans order_trans)

lemma leading_equivalent: "list_all2 uri_paths_equivalent ps' ps \<Longrightarrow> leading qs ps \<Longrightarrow> leading qs ps'"
  unfolding leading_nth list_all2_conv_all_nth by (metis equivalent_trans order_less_le_trans)

lemma fallback_prefix_depth_parts: "fallback_prefix_depth path = length (parts path) - 1"
proof (induction path)
  case (Cons c path)
  then show ?case by (cases "parts path") (use parts_not_Nil in \<open>auto simp del: parts_not_Nil\<close>)
qed simp

lemma fallback_prefix_depth_segments: "fallback_prefix_depth (0x2f # path) = length (segments (0x2f # path))"
  using parts_not_Nil [of path] by (simp add: segments_slash fallback_prefix_depth_parts del: parts_not_Nil)

end
