(* ===== verification/Route_Trie.thy ===== *)
theory Route_Trie
  imports Uri_Path
begin

text \<open>
  The trie of dynamic routes (\<open>router_dynamic_index.cpp\<close>, \<open>router_dynamic_index_build.cpp\<close>): insertion
  of a pattern, the sort of the literal children, and the search, which prefers a literal child to
  the parameter child to the wildcard and backtracks. A node stands for the arena node its parent
  points to. The specification is the map from patterns to route indices a trie represents.
\<close>

subsection \<open>Nodes\<close>

datatype dynamic_node = Node
  (static_children: "(bytes \<times> dynamic_node) list")
  (param_child: "dynamic_node option")
  (route_index: "nat option")
  (wildcard_route_index: "nat option")

definition empty_node :: dynamic_node where
  "empty_node = Node [] None None None"

definition max_route_params :: nat where
  "max_route_params = 16"

datatype route_error = Too_many_parameters | Wildcard_not_final | Empty_parameter_name

definition is_param :: "bytes \<Rightarrow> bool" where
  "is_param segment \<longleftrightarrow> segment \<noteq> [] \<and> hd segment = 0x3a"

subsection \<open>Building\<close>

definition append_dynamic_param_name :: "bytes list \<Rightarrow> bytes \<Rightarrow> route_error + bytes list" where
  "append_dynamic_param_name names name =
     (if length names \<ge> max_route_params then Inl Too_many_parameters else Inr (names @ [name]))"

fun equivalent_child :: "(bytes \<times> dynamic_node) list \<Rightarrow> bytes \<Rightarrow> nat option" where
  "equivalent_child [] segment = None"
| "equivalent_child (child # children) segment =
     (if uri_paths_equivalent (fst child) segment then Some 0
      else map_option Suc (equivalent_child children segment))"

function insert_dynamic ::
  "bytes \<Rightarrow> nat \<Rightarrow> dynamic_node \<Rightarrow> bytes list \<Rightarrow> route_error + dynamic_node \<times> bytes list" where
  "insert_dynamic path index node names =
     (case split_path_segment path of
        None \<Rightarrow> Inr (Node (static_children node) (param_child node) (Some index) (wildcard_route_index node), names)
      | Some (segment, rest) \<Rightarrow>
          if segment = [0x2a] then
            if rest \<noteq> [] then Inl Wildcard_not_final
            else (case append_dynamic_param_name names [0x2a] of
                Inl e \<Rightarrow> Inl e
              | Inr names \<Rightarrow>
                  Inr (Node (static_children node) (param_child node) (route_index node) (Some index), names))
          else if is_param segment then
            if length segment = 1 then Inl Empty_parameter_name
            else (case append_dynamic_param_name names (tl segment) of
                Inl e \<Rightarrow> Inl e
              | Inr names \<Rightarrow>
                  (let child = (case param_child node of None \<Rightarrow> empty_node | Some child \<Rightarrow> child) in
                   case (if rest = [] then
                           Inr (Node (static_children child) (param_child child) (Some index)
                                  (wildcard_route_index child), names)
                         else insert_dynamic rest index child names) of
                     Inl e \<Rightarrow> Inl e
                   | Inr (child, names) \<Rightarrow>
                       Inr (Node (static_children node) (Some child) (route_index node)
                              (wildcard_route_index node), names)))
          else
            (let (children, i) =
               (case equivalent_child (static_children node) segment of
                  Some i \<Rightarrow> (static_children node, i)
                | None \<Rightarrow> (static_children node @ [(segment, empty_node)], length (static_children node)));
                 child = snd (children ! i) in
             case (if rest = [] then
                     Inr (Node (static_children child) (param_child child) (Some index)
                            (wildcard_route_index child), names)
                   else insert_dynamic rest index child names) of
               Inl e \<Rightarrow> Inl e
             | Inr (child, names) \<Rightarrow>
                 Inr (Node (children [i := (fst (children ! i), child)]) (param_child node) (route_index node)
                        (wildcard_route_index node), names)))"
  by pat_completeness auto
termination
  by (relation "measure (length \<circ> fst)")
    (auto dest!: sym [of "Some _"] split_path_segment_Some(3))

declare insert_dynamic.simps [simp del]

fun insert_sorted :: "('a \<Rightarrow> 'a \<Rightarrow> bool) \<Rightarrow> 'a \<Rightarrow> 'a list \<Rightarrow> 'a list" where
  "insert_sorted before x [] = [x]"
| "insert_sorted before x (y # ys) = (if before y x then y # insert_sorted before x ys else x # y # ys)"

definition sort_children :: "(bytes \<times> dynamic_node) list \<Rightarrow> (bytes \<times> dynamic_node) list" where
  "sort_children children =
     foldr (insert_sorted (\<lambda>left right. compare_uri_paths (fst left) (fst right) < 0)) children []"

lemma insert_sorted_insort:
  "insert_sorted (\<lambda>left right. compare_uri_paths (fst left) (fst right) < 0) x xs = insort_key (units \<circ> fst) x xs"
  by (induction xs) (auto simp: compare_less)

lemma sort_children_sort: "sort_children children = sort_key (units \<circ> fst) children"
  by (simp add: sort_children_def sort_key_def insert_sorted_insort [abs_def])

lemma child_size:
  "(segment, child) \<in> set children \<Longrightarrow> size child < Suc (size_list (size_prod (\<lambda>_. 0) size) children + n)"
  using size_list_estimation [of "(segment, child)" children "size child" "size_prod (\<lambda>_. 0) size"]
  by simp

function sort_dynamic_node :: "dynamic_node \<Rightarrow> dynamic_node" where
  "sort_dynamic_node (Node children param route wildcard) =
     Node (map (\<lambda>(segment, child). (segment, sort_dynamic_node child)) (sort_children children))
       (case param of None \<Rightarrow> None | Some child \<Rightarrow> Some (sort_dynamic_node child)) route wildcard"
  by pat_completeness auto
termination
  by (relation "measure size") (auto simp: sort_children_sort child_size)

subsection \<open>Searching\<close>

definition match_add :: "bytes list \<Rightarrow> bytes \<Rightarrow> bytes list option" where
  "match_add match value = (if length match \<ge> max_route_params then None else Some (match @ [value]))"

function partition_point_from :: "('a \<Rightarrow> bool) \<Rightarrow> 'a list \<Rightarrow> nat \<Rightarrow> nat \<Rightarrow> nat" where
  "partition_point_from before xs first n =
     (if n = 0 then first
      else let half = n div 2 in
        if before (xs ! (first + half)) then partition_point_from before xs (first + half + 1) (n - (half + 1))
        else partition_point_from before xs first half)"
  by auto
termination
  by (relation "measure (\<lambda>(_, _, _, n). n)") auto

declare partition_point_from.simps [simp del]

definition find_dynamic_static_child :: "dynamic_node \<Rightarrow> bytes \<Rightarrow> (bytes \<times> dynamic_node) option" where
  "find_dynamic_static_child node segment =
     (let children = static_children node in
      if length children \<le> 4 then find (\<lambda>child. uri_paths_equivalent (fst child) segment) children
      else let i = partition_point_from (\<lambda>child. compare_uri_paths (fst child) segment < 0) children 0 (length children) in
        if i < length children \<and> uri_paths_equivalent (fst (children ! i)) segment then Some (children ! i) else None)"

function find_dynamic_node :: "dynamic_node \<Rightarrow> bytes \<Rightarrow> bytes list \<Rightarrow> nat option \<times> bytes list" where
  "find_dynamic_node node path match =
     (case split_path_segment path of
        None \<Rightarrow>
          if route_index node \<noteq> None then (route_index node, match)
          else if wildcard_route_index node \<noteq> None then
            (case match_add match [] of
               Some match \<Rightarrow> (wildcard_route_index node, match)
             | None \<Rightarrow> (None, match))
          else (None, match)
      | Some (segment, rest) \<Rightarrow>
          (let original = length match;
               literal = (case find_dynamic_static_child node segment of
                   None \<Rightarrow> (None, match)
                 | Some child \<Rightarrow>
                     (let found = find_dynamic_node (snd child) rest match in
                      if fst found \<noteq> None then found else (None, take original (snd found)))) in
           if fst literal \<noteq> None then literal
           else let match = snd literal;
               parameter = (case param_child node of
                   None \<Rightarrow> (None, match)
                 | Some child \<Rightarrow>
                     if segment = [] then (None, match)
                     else (case match_add match segment of
                         None \<Rightarrow> (None, match)
                       | Some match \<Rightarrow>
                           (let found = find_dynamic_node child rest match in
                            if fst found \<noteq> None then found else (None, take original (snd found))))) in
           if fst parameter \<noteq> None then parameter
           else let match = snd parameter in
             if wildcard_route_index node \<noteq> None then
               (case match_add match (if path \<noteq> [] \<and> hd path = 0x2f then tl path else path) of
                  Some match \<Rightarrow> (wildcard_route_index node, match)
                | None \<Rightarrow> (None, take original match))
             else (None, match)))"
  by pat_completeness auto
termination
  by (relation "measure (\<lambda>(_, path, _). length path)")
    (auto dest!: sym [of "Some _"] split_path_segment_Some(3))

function find_dynamic_node_no_params :: "dynamic_node \<Rightarrow> bytes \<Rightarrow> nat option" where
  "find_dynamic_node_no_params node path =
     (case split_path_segment path of
        None \<Rightarrow> if route_index node \<noteq> None then route_index node else wildcard_route_index node
      | Some (segment, rest) \<Rightarrow>
          (let literal = (case find_dynamic_static_child node segment of
               None \<Rightarrow> None | Some child \<Rightarrow> find_dynamic_node_no_params (snd child) rest) in
           if literal \<noteq> None then literal
           else let parameter = (case param_child node of
               None \<Rightarrow> None
             | Some child \<Rightarrow> if segment = [] then None else find_dynamic_node_no_params child rest) in
           if parameter \<noteq> None then parameter
           else wildcard_route_index node))"
  by pat_completeness auto
termination
  by (relation "measure (\<lambda>(_, path). length path)")
    (auto dest!: sym [of "Some _"] split_path_segment_Some(3))

declare find_dynamic_node.simps [simp del] find_dynamic_node_no_params.simps [simp del]

subsection \<open>Patterns\<close>

datatype slot = Literal "int list" | Param | Wild

definition slot_of :: "bytes \<Rightarrow> slot" where
  "slot_of segment = (if segment = [0x2a] then Wild else if is_param segment then Param else Literal (units segment))"

definition pattern_of :: "bytes \<Rightarrow> slot list" where
  "pattern_of path = map slot_of (segments path)"

definition capture_count :: "slot list \<Rightarrow> nat" where
  "capture_count pattern = length (filter (\<lambda>s. s = Param \<or> s = Wild) pattern)"

definition child_map :: "(bytes \<times> dynamic_node) list \<Rightarrow> int list \<Rightarrow> dynamic_node option" where
  "child_map children = map_of (map (\<lambda>(segment, child). (units segment, child)) children)"

fun node_lookup :: "dynamic_node \<Rightarrow> slot list \<Rightarrow> nat option" where
  "node_lookup node [] = route_index node"
| "node_lookup node (Literal us # pattern) =
     Option.bind (child_map (static_children node) us) (\<lambda>child. node_lookup child pattern)"
| "node_lookup node (Param # pattern) = Option.bind (param_child node) (\<lambda>child. node_lookup child pattern)"
| "node_lookup node [Wild] = wildcard_route_index node"
| "node_lookup node (Wild # _ # _) = None"

text \<open>The captures of a path under a pattern, and the preference among the patterns it matches.\<close>

function match_pattern :: "slot list \<Rightarrow> bytes \<Rightarrow> bytes list option" where
  "match_pattern [] path = (if path = [] then Some [] else None)"
| "match_pattern (Literal us # pattern) path =
     (case split_path_segment path of
        Some (segment, rest) \<Rightarrow>
          if units segment = us \<and> well_escaped segment then match_pattern pattern rest else None
      | None \<Rightarrow> None)"
| "match_pattern (Param # pattern) path =
     (case split_path_segment path of
        Some (segment, rest) \<Rightarrow>
          if segment \<noteq> [] then map_option (Cons segment) (match_pattern pattern rest) else None
      | None \<Rightarrow> None)"
| "match_pattern [Wild] path = Some [if path \<noteq> [] \<and> hd path = 0x2f then tl path else path]"
| "match_pattern (Wild # _ # _) path = None"
  by pat_completeness auto
termination by (relation "measure (length \<circ> fst)") auto

fun slot_rank :: "slot \<Rightarrow> nat" where
  "slot_rank (Literal _) = 0"
| "slot_rank Param = 1"
| "slot_rank Wild = 2"

definition pattern_rank :: "slot list \<Rightarrow> nat list" where
  "pattern_rank pattern = map slot_rank pattern"

subsection \<open>Insertion updates the map of patterns\<close>

inductive node_ok :: "dynamic_node \<Rightarrow> bool" where
  Node: "\<lbrakk>distinct (map (\<lambda>child. units (fst child)) children);
    \<forall>child\<in>set children. well_escaped (fst child) \<and> node_ok (snd child);
    \<forall>child. param = Some child \<longrightarrow> node_ok child\<rbrakk> \<Longrightarrow>
    node_ok (Node children param route wildcard)"

inductive_simps node_ok_Node: "node_ok (Node children param route wildcard)"

lemma node_ok_iff: "node_ok node \<longleftrightarrow>
    distinct (map (\<lambda>child. units (fst child)) (static_children node)) \<and>
    (\<forall>child\<in>set (static_children node). well_escaped (fst child) \<and> node_ok (snd child)) \<and>
    (\<forall>child. param_child node = Some child \<longrightarrow> node_ok child)"
  by (cases node) (simp add: node_ok_Node)

lemma empty_node_ok [simp]: "node_ok empty_node"
  by (simp add: empty_node_def node_ok_Node)

lemma empty_node_lookup [simp]: "node_lookup empty_node pattern = None"
  by (cases "(empty_node, pattern)" rule: node_lookup.cases) (simp_all add: empty_node_def child_map_def)

definition child_of :: "dynamic_node option \<Rightarrow> dynamic_node" where
  "child_of child = (case child of None \<Rightarrow> empty_node | Some child \<Rightarrow> child)"

lemma child_of_Some [simp]: "child_of (Some child) = child"
  by (simp add: child_of_def)

lemma child_of_lookup: "Option.bind child (\<lambda>child. node_lookup child pattern) = node_lookup (child_of child) pattern"
  by (cases child) (simp_all add: child_of_def)

lemma child_map_update:
  assumes "distinct (map (\<lambda>child. units (fst child)) children)" "i < length children"
  shows "child_map (children [i := (fst (children ! i), child)]) =
    (child_map children) (units (fst (children ! i)) \<mapsto> child)"
    "child_map children (units (fst (children ! i))) = Some (snd (children ! i))"
proof -
  have keys: "distinct (map fst (map (\<lambda>(segment, child). (units segment, child)) children))"
    using assms(1) by (simp add: case_prod_unfold comp_def)
  show "child_map children (units (fst (children ! i))) = Some (snd (children ! i))"
    unfolding child_map_def by (rule map_of_is_SomeI [OF keys])
      (use nth_mem [OF assms(2)] in \<open>force simp: case_prod_unfold\<close>)
  show "child_map (children [i := (fst (children ! i), child)]) =
      (child_map children) (units (fst (children ! i)) \<mapsto> child)"
    using assms
  proof (induction children arbitrary: i)
    case (Cons c children)
    show ?case
    proof (cases i)
      case 0
      then show ?thesis by (cases c) (auto simp: child_map_def)
    next
      case (Suc j)
      then have j: "j < length children" using Cons.prems by simp
      then have "units (fst (children ! j)) \<in> (\<lambda>child. units (fst child)) ` set children" by simp
      then have "units (fst (children ! j)) \<noteq> units (fst c)"
        using Cons.prems(1) by (metis distinct.simps(2) list.map(2) list.set_map)
      then show ?thesis using Cons.IH [of j] Cons.prems Suc j
        by (cases c) (auto simp: child_map_def fun_eq_iff)
    qed
  qed simp
qed

lemma child_map_append:
  "units segment \<notin> (\<lambda>child. units (fst child)) ` set children \<Longrightarrow>
     child_map (children @ [(segment, child)]) = (child_map children) (units segment \<mapsto> child)"
  by (induction children) (auto simp: child_map_def fun_eq_iff)

lemma child_map_None:
  "child_map children us = None \<longleftrightarrow> us \<notin> (\<lambda>child. units (fst child)) ` set children"
  by (force simp: child_map_def map_of_eq_None_iff)

lemma equivalent_child_Some:
  "equivalent_child children segment = Some i \<Longrightarrow>
     i < length children \<and> units (fst (children ! i)) = units segment"
  by (induction children arbitrary: i) (auto simp: uri_paths_equivalent_units split: if_splits)

lemma equivalent_child_None:
  "equivalent_child children segment = None \<Longrightarrow> \<forall>child\<in>set children. well_escaped (fst child) \<Longrightarrow>
     units segment \<notin> (\<lambda>child. units (fst child)) ` set children"
  by (induction children) (auto simp: uri_paths_equivalent_units split: if_splits)

definition param_names_of :: "bytes list \<Rightarrow> bytes list" where
  "param_names_of ss = map (\<lambda>s. if s = [0x2a] then s else tl s) (filter (\<lambda>s. s = [0x2a] \<or> is_param s) ss)"

fun accepts :: "nat \<Rightarrow> bytes list \<Rightarrow> bool" where
  "accepts k [] \<longleftrightarrow> True"
| "accepts k (s # ss) \<longleftrightarrow>
     (if s = [0x2a] then ss = [] \<and> k < max_route_params
      else if is_param s then length s \<noteq> 1 \<and> k < max_route_params \<and> accepts (Suc k) ss
      else accepts k ss)"

lemma insert_Nil:
  "insert_dynamic [] index node names =
     Inr (Node (static_children node) (param_child node) (Some index) (wildcard_route_index node), names)"
  by (simp add: insert_dynamic.simps split_path_segment_def)

definition insert_result ::
  "bytes \<Rightarrow> nat \<Rightarrow> dynamic_node \<Rightarrow> bytes list \<Rightarrow> route_error + dynamic_node \<times> bytes list \<Rightarrow> bool" where
  "insert_result path index node names result \<longleftrightarrow>
     (case result of
        Inl _ \<Rightarrow> \<not> accepts (length names) (segments path)
      | Inr (node', names') \<Rightarrow>
          accepts (length names) (segments path) \<and> node_ok node' \<and>
          node_lookup node' = (node_lookup node) (pattern_of path \<mapsto> index) \<and>
          names' = names @ param_names_of (segments path))"

lemma pattern_of_Nil [simp]: "pattern_of [] = []"
  by (simp add: pattern_of_def)

lemma pattern_of_split:
  "split_path_segment path = Some (segment, rest) \<Longrightarrow> pattern_of path = slot_of segment # pattern_of rest"
  by (simp add: pattern_of_def split_path_segment_Some(1))

lemma lookup_upd_route:
  "node_lookup (Node (static_children node) (param_child node) (Some index) (wildcard_route_index node)) =
     (node_lookup node) ([] \<mapsto> index)"
proof
  fix p show "node_lookup (Node (static_children node) (param_child node) (Some index) (wildcard_route_index node)) p =
     ((node_lookup node) ([] \<mapsto> index)) p"
    by (cases "(node, p)" rule: node_lookup.cases) auto
qed

lemma lookup_upd_wildcard:
  "node_lookup (Node (static_children node) (param_child node) (route_index node) (Some index)) =
     (node_lookup node) ([Wild] \<mapsto> index)"
proof
  fix p show "node_lookup (Node (static_children node) (param_child node) (route_index node) (Some index)) p =
     ((node_lookup node) ([Wild] \<mapsto> index)) p"
    by (cases "(node, p)" rule: node_lookup.cases) auto
qed

lemma lookup_upd_param:
  assumes "node_lookup child' = (node_lookup (child_of (param_child node))) (pattern \<mapsto> index)"
  shows "node_lookup (Node (static_children node) (Some child') (route_index node) (wildcard_route_index node)) =
    (node_lookup node) (Param # pattern \<mapsto> index)"
proof
  fix p show "node_lookup (Node (static_children node) (Some child') (route_index node) (wildcard_route_index node)) p =
    ((node_lookup node) (Param # pattern \<mapsto> index)) p"
    using assms by (cases "(node, p)" rule: node_lookup.cases) (auto simp: child_of_lookup)
qed

lemma lookup_upd_literal:
  assumes "child_map children' = (child_map (static_children node)) (us \<mapsto> child')"
    and "node_lookup child' = (node_lookup (child_of (child_map (static_children node) us))) (pattern \<mapsto> index)"
  shows "node_lookup (Node children' (param_child node) (route_index node) (wildcard_route_index node)) =
    (node_lookup node) (Literal us # pattern \<mapsto> index)"
proof
  fix p show "node_lookup (Node children' (param_child node) (route_index node) (wildcard_route_index node)) p =
    ((node_lookup node) (Literal us # pattern \<mapsto> index)) p"
    using assms by (cases "(node, p)" rule: node_lookup.cases) (auto simp: child_of_lookup)
qed

lemma insert_result_Inl: "insert_result path index node names (Inl e) \<longleftrightarrow> \<not> accepts (length names) (segments path)"
  by (simp add: insert_result_def)

lemma child_of_ok:
  "node_ok node \<Longrightarrow> node_ok (child_of (param_child node))"
  by (cases "param_child node") (auto simp: node_ok_iff [of node] child_of_def)

lemma insert_dynamic_step:
  assumes "split_path_segment path = Some (segment, rest)"
  shows "insert_dynamic path index node names =
     (if segment = [0x2a] then
        if rest \<noteq> [] then Inl Wildcard_not_final
        else (case append_dynamic_param_name names [0x2a] of
            Inl e \<Rightarrow> Inl e
          | Inr names \<Rightarrow>
              Inr (Node (static_children node) (param_child node) (route_index node) (Some index), names))
      else if is_param segment then
        if length segment = 1 then Inl Empty_parameter_name
        else (case append_dynamic_param_name names (tl segment) of
            Inl e \<Rightarrow> Inl e
          | Inr names \<Rightarrow>
              (case insert_dynamic rest index (child_of (param_child node)) names of
                 Inl e \<Rightarrow> Inl e
               | Inr (child, names) \<Rightarrow>
                   Inr (Node (static_children node) (Some child) (route_index node)
                          (wildcard_route_index node), names)))
      else
        (let (children, i) =
           (case equivalent_child (static_children node) segment of
              Some i \<Rightarrow> (static_children node, i)
            | None \<Rightarrow> (static_children node @ [(segment, empty_node)], length (static_children node))) in
         case insert_dynamic rest index (snd (children ! i)) names of
           Inl e \<Rightarrow> Inl e
         | Inr (child, names) \<Rightarrow>
             Inr (Node (children [i := (fst (children ! i), child)]) (param_child node) (route_index node)
                    (wildcard_route_index node), names)))"
proof -
  have tail: "(if rest = [] then Inr (Node (static_children c) (param_child c) (Some index) (wildcard_route_index c), ns)
      else insert_dynamic rest index c ns) = insert_dynamic rest index c ns" for c ns
    by (simp add: insert_Nil)
  show ?thesis
    by (subst insert_dynamic.simps) (simp only: assms option.case prod.case tail Let_def child_of_def)
qed

lemma insert_dynamic_refines:
  "\<lbrakk>node_ok node; \<forall>s\<in>set (segments path). well_escaped s\<rbrakk> \<Longrightarrow>
     insert_result path index node names (insert_dynamic path index node names)"
proof (induction "length path" arbitrary: path node names rule: less_induct)
  case less
  show ?case
  proof (cases "split_path_segment path")
    case None
    have "node_ok (Node (static_children node) (param_child node) (Some index) (wildcard_route_index node))"
      using less.prems(1) by (cases node) (simp add: node_ok_Node)
    then show ?thesis using None
      by (simp add: insert_Nil insert_result_def lookup_upd_route param_names_of_def)
  next
    case (Some sr)
    obtain segment rest where sr: "split_path_segment path = Some (segment, rest)" using Some by (cases sr) auto
    note split = split_path_segment_Some [OF sr] and pattern = pattern_of_split [OF sr]
    have rest: "insert_result rest index c ns (insert_dynamic rest index c ns)" if "node_ok c" for c ns
      using less.hyps [OF split(3) that] less.prems(2) split(1) by simp
    have wf: "well_escaped segment" using less.prems(2) split(1) by simp
    note step = insert_dynamic_step [OF sr, of index node names]
    consider (wild) "segment = [0x2a]" | (param) "segment \<noteq> [0x2a]" "is_param segment"
      | (literal) "segment \<noteq> [0x2a]" "\<not> is_param segment" by blast
    then show ?thesis
    proof cases
      case wild
      have "node_ok (Node (static_children node) (param_child node) (route_index node) (Some index))"
        using less.prems(1) by (cases node) (simp add: node_ok_Node)
      then show ?thesis unfolding step using wild
        by (simp add: insert_result_def append_dynamic_param_name_def split(1) pattern slot_of_def
            lookup_upd_wildcard param_names_of_def)
    next
      case param
      define child where "child = child_of (param_child node)"
      have ok: "node_ok child" using child_of_ok [OF less.prems(1)] by (simp add: child_def)
      show ?thesis
      proof (cases "insert_dynamic rest index child (names @ [tl segment])")
        case (Inl e)
        then show ?thesis unfolding step child_def [symmetric] using param rest [OF ok, of "names @ [tl segment]"]
          by (simp add: insert_result_def append_dynamic_param_name_def split(1))
      next
        case (Inr result)
        obtain child' names' where r: "insert_dynamic rest index child (names @ [tl segment]) = Inr (child', names')"
          using Inr by (cases result) auto
        have inner: "accepts (Suc (length names)) (segments rest)" "node_ok child'"
          "node_lookup child' = (node_lookup child) (pattern_of rest \<mapsto> index)"
          "names' = names @ tl segment # param_names_of (segments rest)"
          using rest [OF ok, of "names @ [tl segment]"] r by (auto simp: insert_result_def)
        have ok': "node_ok (Node (static_children node) (Some child') (route_index node) (wildcard_route_index node))"
          using less.prems(1) inner(2) by (cases node) (simp add: node_ok_Node)
        show ?thesis unfolding step child_def [symmetric] using param r inner(1,2,4) ok'
            lookup_upd_param [OF inner(3) [unfolded child_def]]
          by (simp add: insert_result_def append_dynamic_param_name_def split(1) pattern slot_of_def param_names_of_def)
      qed
    next
      case literal
      obtain children i where ci: "(children, i) =
           (case equivalent_child (static_children node) segment of
              Some i \<Rightarrow> (static_children node, i)
            | None \<Rightarrow> (static_children node @ [(segment, empty_node)], length (static_children node)))"
        by (metis surj_pair)
      have wfc: "\<forall>c\<in>set (static_children node). well_escaped (fst c)"
        and dist: "distinct (map (\<lambda>child. units (fst child)) (static_children node))"
        using less.prems(1) by (auto simp: node_ok_iff [of node])
      have children: "distinct (map (\<lambda>child. units (fst child)) children)" "i < length children"
        "units (fst (children ! i)) = units segment" "\<forall>c\<in>set children. well_escaped (fst c) \<and> node_ok (snd c)"
        "snd (children ! i) = child_of (child_map (static_children node) (units segment))"
        "\<And>c. (child_map children) (units segment \<mapsto> c) = (child_map (static_children node)) (units segment \<mapsto> c)"
      proof -
        note none = equivalent_child_None [OF _ wfc, of segment]
        show c1: "distinct (map (\<lambda>child. units (fst child)) children)" and c2: "i < length children"
          and c3: "units (fst (children ! i)) = units segment"
          using ci dist none equivalent_child_Some [of "static_children node" segment i]
          by (cases "equivalent_child (static_children node) segment"; force)+
        show "\<forall>c\<in>set children. well_escaped (fst c) \<and> node_ok (snd c)"
          using ci wf less.prems(1) by (cases "equivalent_child (static_children node) segment")
            (auto simp: node_ok_iff [of node])
        show "snd (children ! i) = child_of (child_map (static_children node) (units segment))"
          using ci none child_map_update(2) [OF c1 c2] c3
          by (cases "equivalent_child (static_children node) segment")
            (auto simp: child_of_def child_map_None [THEN iffD2])
        show "(child_map children) (units segment \<mapsto> c) = (child_map (static_children node)) (units segment \<mapsto> c)" for c
          using ci none by (cases "equivalent_child (static_children node) segment") (auto simp: child_map_append)
      qed
      define child where "child = snd (children ! i)"
      have ok: "node_ok child" using children(2,4) by (simp add: child_def)
      have step': "insert_dynamic path index node names =
          (case insert_dynamic rest index child names of
             Inl e \<Rightarrow> Inl e
           | Inr (child, names) \<Rightarrow>
               Inr (Node (children [i := (fst (children ! i), child)]) (param_child node) (route_index node)
                      (wildcard_route_index node), names))"
        unfolding step ci [symmetric] using literal by (simp add: child_def)
      show ?thesis
      proof (cases "insert_dynamic rest index child names")
        case (Inl e)
        then show ?thesis unfolding step' using literal rest [OF ok, of names]
          by (simp add: insert_result_def split(1))
      next
        case (Inr result)
        obtain child' names' where r: "insert_dynamic rest index child names = Inr (child', names')"
          using Inr by (cases result) auto
        have inner: "accepts (length names) (segments rest)" "node_ok child'"
          "node_lookup child' = (node_lookup child) (pattern_of rest \<mapsto> index)"
          "names' = names @ param_names_of (segments rest)"
          using rest [OF ok, of names] r by (auto simp: insert_result_def)
        have map: "child_map (children [i := (fst (children ! i), child')]) =
            (child_map (static_children node)) (units segment \<mapsto> child')"
          using child_map_update(1) [OF children(1,2), of child'] children(3,6) by simp
        have "map (\<lambda>child. units (fst child)) (children [i := (fst (children ! i), child')]) =
            map (\<lambda>child. units (fst child)) children"
          by (simp add: map_update list_update_same_conv children(2))
        then have "node_ok (Node (children [i := (fst (children ! i), child')]) (param_child node) (route_index node)
            (wildcard_route_index node))"
          using less.prems(1) inner(2) children(1,2,4)
          by (auto simp: node_ok_iff [of node] node_ok_Node dest!: set_update_subset_insert [THEN subsetD])
        then show ?thesis unfolding step' r using literal inner(1,4)
            lookup_upd_literal [OF map inner(3) [unfolded child_def children(5)]]
          by (simp add: insert_result_def split(1) pattern slot_of_def param_names_of_def)
      qed
    qed
  qed
qed

text \<open>Which paths are accepted: the wildcard only at the end, no empty name, at most sixteen parameters.\<close>

lemma accepts_iff:
  "k \<le> max_route_params \<Longrightarrow> accepts k ss \<longleftrightarrow>
     [0x2a] \<notin> set (butlast ss) \<and> [0x3a] \<notin> set ss \<and>
     k + length (filter (\<lambda>s. s = [0x2a] \<or> is_param s) ss) \<le> max_route_params"
proof (induction ss arbitrary: k)
  case (Cons s ss)
  have "is_param s \<Longrightarrow> length s = 1 \<longleftrightarrow> s = [0x3a]" by (auto simp: is_param_def length_Suc_conv)
  moreover have "is_param [0x3a]" by (simp add: is_param_def)
  moreover have "\<not> is_param [0x2a]" by (simp add: is_param_def)
  ultimately show ?case
    using Cons.IH [of k] Cons.IH [of "Suc k"] Cons.prems by (cases "ss = []") auto
qed simp

lemma slot_of_capture: "slot_of s = Param \<or> slot_of s = Wild \<longleftrightarrow> s = [0x2a] \<or> is_param s"
  by (simp add: slot_of_def)

lemma accepts_captures: "accepts 0 ss \<Longrightarrow> length (param_names_of ss) \<le> max_route_params"
  using accepts_iff [of 0 ss] by (simp add: param_names_of_def)

lemma capture_count_segments:
  "capture_count (pattern_of path) = length (param_names_of (segments path))"
  by (simp add: capture_count_def pattern_of_def param_names_of_def filter_map comp_def slot_of_capture)

subsection \<open>Sorting keeps the map\<close>

inductive node_sorted :: "dynamic_node \<Rightarrow> bool" where
  Node: "\<lbrakk>sorted (map (\<lambda>child. units (fst child)) children);
    \<forall>child\<in>set children. node_sorted (snd child);
    \<forall>child. param = Some child \<longrightarrow> node_sorted child\<rbrakk> \<Longrightarrow>
    node_sorted (Node children param route wildcard)"

inductive_simps node_sorted_Node: "node_sorted (Node children param route wildcard)"

lemma node_sorted_iff: "node_sorted node \<longleftrightarrow>
    sorted (map (\<lambda>child. units (fst child)) (static_children node)) \<and>
    (\<forall>child\<in>set (static_children node). node_sorted (snd child)) \<and>
    (\<forall>child. param_child node = Some child \<longrightarrow> node_sorted child)"
  by (cases node) (simp add: node_sorted_Node)

lemma keys_map_child [simp]:
  "(\<lambda>child. units (fst child)) \<circ> (\<lambda>(segment, child). (segment, f child)) = (\<lambda>child. units (fst child))"
  by (simp add: fun_eq_iff case_prod_unfold)

lemma child_map_Some:
  "child_map children us = Some child \<Longrightarrow> \<exists>segment. (segment, child) \<in> set children \<and> units segment = us"
  by (auto simp: child_map_def dest!: map_of_SomeD)

lemma child_ok: "node_ok node \<Longrightarrow> child_map (static_children node) us = Some child \<Longrightarrow> node_ok child"
  using child_map_Some [of "static_children node" us child] node_ok_iff [of node] by fastforce

lemma child_sorted:
  "node_sorted node \<Longrightarrow> child_map (static_children node) us = Some child \<Longrightarrow> node_sorted child"
  using child_map_Some [of "static_children node" us child] node_sorted_iff [of node] by fastforce

lemma sort_dynamic_node_sorted: "node_sorted (sort_dynamic_node node)"
proof (induction node rule: sort_dynamic_node.induct)
  case (1 children param route wildcard)
  have "sorted (map (\<lambda>child. units (fst child)) (sort_children children))"
    using sorted_sort_key [of "units \<circ> fst" children] by (simp add: sort_children_sort comp_def)
  then show ?case using 1 by (auto simp: node_sorted_Node split: option.splits)
qed

lemma sort_dynamic_node_ok: "node_ok node \<Longrightarrow> node_ok (sort_dynamic_node node)"
proof (induction node rule: sort_dynamic_node.induct)
  case (1 children param route wildcard)
  have "distinct (map (\<lambda>child. units (fst child)) (sort_children children))"
    using "1.prems" by (simp add: node_ok_Node sort_children_sort distinct_map)
  moreover have "set (sort_children children) = set children" by (simp add: sort_children_sort)
  ultimately show ?case using 1 by (fastforce simp: node_ok_Node split: option.splits)
qed

lemma child_map_sort:
  assumes "distinct (map (\<lambda>child. units (fst child)) children)"
  shows "child_map (map (\<lambda>(segment, child). (segment, f child)) (sort_children children)) us =
    map_option f (child_map children us)"
proof -
  let ?keys = "map (\<lambda>(segment, child). (units segment, child))"
  have "map_of (?keys (sort_children children)) = map_of (?keys children)"
    by (rule map_of_inject_set [THEN iffD2])
      (use assms in \<open>simp_all add: sort_children_sort distinct_map case_prod_unfold comp_def inj_on_def\<close>)
  moreover have "child_map (map (\<lambda>(segment, child). (segment, f child)) cs) us = map_option f (map_of (?keys cs) us)" for cs
    by (induction cs) (auto simp: child_map_def)
  ultimately show ?thesis by (simp add: child_map_def)
qed

lemma sort_dynamic_node_lookup: "node_ok node \<Longrightarrow> node_lookup (sort_dynamic_node node) pattern = node_lookup node pattern"
proof (induction pattern arbitrary: node)
  case Nil
  then show ?case by (cases node) simp
next
  case (Cons slot pattern)
  obtain children param route wildcard where node: "node = Node children param route wildcard" by (cases node)
  show ?case
  proof (cases slot)
    case (Literal us)
    have "node_ok child" if "child_map children us = Some child" for child
      using child_ok [OF Cons.prems] that by (simp add: node)
    then show ?thesis using Cons Literal
      by (cases "child_map children us") (simp_all add: node child_map_sort node_ok_Node)
  next
    case Param
    then show ?thesis using Cons by (cases param) (simp_all add: node node_ok_Node)
  next
    case Wild
    then show ?thesis by (cases pattern) (simp_all add: node)
  qed
qed

subsection \<open>The search\<close>

lemma partition_point_from:
  assumes "first + n \<le> length xs"
    and "\<And>i j. \<lbrakk>i \<le> j; j < length xs; before (xs ! j)\<rbrakk> \<Longrightarrow> before (xs ! i)"
    and "\<And>j. j < first \<Longrightarrow> before (xs ! j)"
    and "\<And>j. \<lbrakk>first + n \<le> j; j < length xs\<rbrakk> \<Longrightarrow> \<not> before (xs ! j)"
  shows "(\<forall>j < partition_point_from before xs first n. before (xs ! j)) \<and>
    (\<forall>j. partition_point_from before xs first n \<le> j \<longrightarrow> j < length xs \<longrightarrow> \<not> before (xs ! j)) \<and>
    partition_point_from before xs first n \<le> length xs"
  using assms
proof (induction before xs first n rule: partition_point_from.induct)
  case (1 before xs first n)
  show ?case
  proof (cases "n = 0")
    case True
    then have "partition_point_from before xs first n = first" by (simp add: partition_point_from.simps)
    then show ?thesis using "1.prems" True by simp
  next
    case False
    define half where "half = n div 2"
    have half: "half < n" using False by (simp add: half_def)
    note unfold = partition_point_from.simps [of before xs first n, folded half_def]
    show ?thesis
    proof (cases "before (xs ! (first + half))")
      case True
      have "j < first + half + 1 \<Longrightarrow> before (xs ! j)" for j
        using "1.prems"(2) [of j "first + half"] "1.prems"(1) half True by simp
      then have IH: "(\<forall>j < partition_point_from before xs (first + half + 1) (n - (half + 1)). before (xs ! j)) \<and>
        (\<forall>j. partition_point_from before xs (first + half + 1) (n - (half + 1)) \<le> j \<longrightarrow> j < length xs \<longrightarrow> \<not> before (xs ! j)) \<and>
        partition_point_from before xs (first + half + 1) (n - (half + 1)) \<le> length xs"
        by (intro "1.IH"(1) [OF False half_def True]) (use "1.prems" half in auto)
      then show ?thesis using False True
        unfolding unfold by (simp add: Let_def)
    next
      case after: False
      have "\<not> before (xs ! j)" if "first + half \<le> j" "j < length xs" for j
        using "1.prems"(2) [of "first + half" j] after that by blast
      then have IH: "(\<forall>j < partition_point_from before xs first half. before (xs ! j)) \<and>
        (\<forall>j. partition_point_from before xs first half \<le> j \<longrightarrow> j < length xs \<longrightarrow> \<not> before (xs ! j)) \<and>
        partition_point_from before xs first half \<le> length xs"
        by (intro "1.IH"(2) [OF False half_def after]) (use "1.prems" half in auto)
      then show ?thesis using False after
        unfolding unfold by (simp add: Let_def)
    qed
  qed
qed

lemma find_child_linear:
  assumes "\<forall>child\<in>set children. well_escaped (fst child)"
  shows "map_option snd (find (\<lambda>child. uri_paths_equivalent (fst child) segment) children) =
    child_map children (units segment)"
  using assms by (induction children) (auto simp: child_map_def uri_paths_equivalent_units)

lemma find_child:
  assumes "node_ok node" "node_sorted node"
  shows "map_option snd (find_dynamic_static_child node segment) = child_map (static_children node) (units segment)"
proof (cases "length (static_children node) \<le> 4")
  case True
  have "\<forall>child\<in>set (static_children node). well_escaped (fst child)" using assms(1) node_ok_iff [of node] by simp
  then show ?thesis using True find_child_linear by (simp add: find_dynamic_static_child_def Let_def)
next
  case False
  define children where "children = static_children node"
  define before where "before = (\<lambda>child :: bytes \<times> dynamic_node. compare_uri_paths (fst child) segment < 0)"
  define i where "i = partition_point_from before children 0 (length children)"
  have dist: "distinct (map (\<lambda>child. units (fst child)) children)"
    and wf: "\<forall>child\<in>set children. well_escaped (fst child)"
    and sorted: "sorted (map (\<lambda>child. units (fst child)) children)"
    using assms by (auto simp: node_ok_iff [of node] node_sorted_iff [of node] children_def)
  have mono: "units (fst (children ! k)) \<le> units (fst (children ! l))" if "k \<le> l" "l < length children" for k l
    using sorted_nth_mono [OF sorted that(1)] that by simp
  have point: "(\<forall>j < i. before (children ! j)) \<and> (\<forall>j. i \<le> j \<longrightarrow> j < length children \<longrightarrow> \<not> before (children ! j)) \<and>
      i \<le> length children"
    unfolding i_def by (rule partition_point_from) (use mono in \<open>auto simp: before_def compare_less intro: order_le_less_trans\<close>)
  have result: "find_dynamic_static_child node segment =
      (if i < length children \<and> uri_paths_equivalent (fst (children ! i)) segment then Some (children ! i) else None)"
    using False by (simp add: find_dynamic_static_child_def children_def [symmetric] before_def [symmetric] i_def Let_def)
  show ?thesis
  proof (cases "units segment \<in> (\<lambda>child. units (fst child)) ` set children")
    case False
    then have "\<not> (i < length children \<and> uri_paths_equivalent (fst (children ! i)) segment)"
      unfolding uri_paths_equivalent_units by (metis (no_types, lifting) image_eqI nth_mem)
    then show ?thesis using False by (simp add: result children_def [symmetric] child_map_None [THEN iffD2])
  next
    case True
    then obtain k where k: "k < length children" "units (fst (children ! k)) = units segment"
      by (force simp: in_set_conv_nth)
    then have le: "i \<le> k" using point by (force simp: before_def compare_less not_le)
    then have "units (fst (children ! i)) = units segment"
      using point k mono [of i k] by (force simp: before_def compare_less)
    then show ?thesis using le k wf child_map_update(2) [OF dist, of i]
      by (simp add: result uri_paths_equivalent_units children_def [symmetric])
  qed
qed

text \<open>
  The patterns a node stores that match a path, and what a search has to return: the stored pattern of
  least rank with its captures appended, or nothing when no stored pattern matches.
\<close>

definition candidate :: "dynamic_node \<Rightarrow> bytes \<Rightarrow> slot list \<Rightarrow> bool" where
  "candidate node path q \<longleftrightarrow> node_lookup node q \<noteq> None \<and> match_pattern q path \<noteq> None"

definition selects :: "dynamic_node \<Rightarrow> bytes \<Rightarrow> bytes list \<Rightarrow> nat option \<times> bytes list \<Rightarrow> bool" where
  "selects node path match result \<longleftrightarrow>
     (case fst result of
        None \<Rightarrow> snd result = match \<and> (\<forall>q. \<not> candidate node path q)
      | Some index \<Rightarrow> \<exists>p captures. node_lookup node p = Some index \<and> match_pattern p path = Some captures \<and>
          snd result = match @ captures \<and> (\<forall>q. candidate node path q \<longrightarrow> pattern_rank p \<le> pattern_rank q))"

definition bounded :: "nat \<Rightarrow> dynamic_node \<Rightarrow> bool" where
  "bounded k node \<longleftrightarrow> (\<forall>p. node_lookup node p \<noteq> None \<longrightarrow> k + capture_count p \<le> max_route_params)"

lemma capture_count_simps [simp]:
  "capture_count [] = 0" "capture_count (Literal us # p) = capture_count p"
  "capture_count (Param # p) = Suc (capture_count p)" "capture_count (Wild # p) = Suc (capture_count p)"
  by (simp_all add: capture_count_def)

lemma boundedD: "bounded k node \<Longrightarrow> node_lookup node p \<noteq> None \<Longrightarrow> k + capture_count p \<le> max_route_params"
  by (simp add: bounded_def)

lemma split_path_segment_Nil [simp]: "split_path_segment [] = None"
  by simp

lemma match_pattern_Nil: "match_pattern q [] \<noteq> None \<longleftrightarrow> q = [] \<or> q = [Wild]"
  by (cases "(q, [] :: bytes)" rule: match_pattern.cases) auto

lemma candidate_Nil:
  "candidate node [] q \<longleftrightarrow> q = [] \<and> route_index node \<noteq> None \<or> q = [Wild] \<and> wildcard_route_index node \<noteq> None"
  unfolding candidate_def match_pattern_Nil by auto

lemma candidate_split:
  assumes "split_path_segment path = Some (segment, rest)"
  shows "candidate node path q \<longleftrightarrow>
    (\<exists>child q'. child_map (static_children node) (units segment) = Some child \<and> well_escaped segment \<and>
       q = Literal (units segment) # q' \<and> candidate child rest q') \<or>
    (\<exists>child q'. param_child node = Some child \<and> segment \<noteq> [] \<and> q = Param # q' \<and> candidate child rest q') \<or>
    q = [Wild] \<and> wildcard_route_index node \<noteq> None"
proof -
  have "path \<noteq> []" using assms by (metis option.distinct(1) split_path_segment_Nil)
  then show ?thesis
    by (cases "(node, q)" rule: node_lookup.cases)
      (auto simp: candidate_def assms bind_eq_Some_conv split: if_splits)
qed

lemma pattern_rank_Cons: "pattern_rank (s # p) = slot_rank s # pattern_rank p"
  by (simp add: pattern_rank_def)

lemma bounded_literal:
  assumes "bounded k node" "child_map (static_children node) us = Some child"
  shows "bounded k child"
  unfolding bounded_def using boundedD [OF assms(1), of "Literal us # _"] assms(2) by simp

lemma bounded_param:
  assumes "bounded k node" "param_child node = Some child"
  shows "bounded (Suc k) child"
  unfolding bounded_def using boundedD [OF assms(1), of "Param # _"] assms(2) by simp

lemma bounded_wild: "bounded k node \<Longrightarrow> wildcard_route_index node \<noteq> None \<Longrightarrow> k < max_route_params"
  using boundedD [of k node "[Wild]"] by simp

lemma bounded_full:
  "bounded k node \<Longrightarrow> max_route_params \<le> k \<Longrightarrow> param_child node = Some child \<Longrightarrow> node_lookup child p = None"
  using boundedD [OF bounded_param, of k node child p] by fastforce

lemma find_dynamic_node_selects:
  "\<lbrakk>node_ok node; node_sorted node; bounded (length match) node\<rbrakk> \<Longrightarrow>
     selects node path match (find_dynamic_node node path match)"
proof (induction "length path" arbitrary: path node match rule: less_induct)
  case less
  show ?case
  proof (cases "split_path_segment path")
    case None
    then have path: "path = []" by simp
    show ?thesis
    proof (cases "route_index node")
      case (Some r)
      then show ?thesis using path
        by (subst find_dynamic_node.simps)
          (auto simp: selects_def candidate_Nil pattern_rank_def intro!: exI [of _ "[]"])
    next
      fix r assume none: "route_index node = None"
      show ?thesis
      proof (cases "wildcard_route_index node")
        case None
        then show ?thesis using none path
          by (subst find_dynamic_node.simps) (simp add: selects_def candidate_Nil)
      next
        case (Some w)
        then have "match_add match [] = Some (match @ [[]])"
          using bounded_wild [OF less.prems(3)] by (simp add: match_add_def not_le)
        then show ?thesis using none path Some
          by (subst find_dynamic_node.simps)
            (auto simp: selects_def candidate_Nil pattern_rank_def intro!: exI [of _ "[Wild]"])
      qed
    qed
  next
    case (Some sr)
    obtain segment rest where sr: "split_path_segment path = Some (segment, rest)" using Some by (cases sr) auto
    note cand = candidate_split [OF sr, of node]
    have path: "path \<noteq> []" using sr by (metis option.distinct(1) split_path_segment_Nil)
    note IH = less.hyps [OF split_path_segment_Some(3) [OF sr]]
    define literal where "literal = (case find_dynamic_static_child node segment of
        None \<Rightarrow> (None, match)
      | Some child \<Rightarrow>
          (let found = find_dynamic_node (snd child) rest match in
           if fst found \<noteq> None then found else (None, take (length match) (snd found))))"
    define parameter where "parameter = (case param_child node of
        None \<Rightarrow> (None, match)
      | Some child \<Rightarrow>
          if segment = [] then (None, match)
          else (case match_add match segment of
              None \<Rightarrow> (None, match)
            | Some m \<Rightarrow>
                (let found = find_dynamic_node child rest m in
                 if fst found \<noteq> None then found else (None, take (length match) (snd found)))))"
    have literal: "if fst literal = None
      then snd literal = match \<and> (\<forall>child q. child_map (static_children node) (units segment) = Some child \<longrightarrow>
          \<not> candidate child rest q)
      else \<exists>child. child_map (static_children node) (units segment) = Some child \<and> well_escaped segment \<and>
          selects child rest match literal"
    proof (cases "find_dynamic_static_child node segment")
      case None
      then show ?thesis using find_child [OF less.prems(1,2), of segment] by (simp add: literal_def)
    next
      case (Some c)
      then have c: "child_map (static_children node) (units segment) = Some (snd c)"
        using find_child [OF less.prems(1,2), of segment] by simp
      have "well_escaped segment"
        using child_map_Some [OF c] less.prems(1) by (auto simp: node_ok_iff [of node] well_escaped_def)
      moreover have "selects (snd c) rest match (find_dynamic_node (snd c) rest match)"
        using IH child_ok [OF less.prems(1) c] child_sorted [OF less.prems(2) c] bounded_literal [OF less.prems(3) c]
        by blast
      ultimately show ?thesis using Some c
        by (cases "fst (find_dynamic_node (snd c) rest match)") (auto simp: literal_def Let_def selects_def)
    qed
    have parameter: "if fst parameter = None
      then snd parameter = match \<and> (\<forall>child q. param_child node = Some child \<longrightarrow> segment \<noteq> [] \<longrightarrow>
          \<not> candidate child rest q)
      else \<exists>child. param_child node = Some child \<and> segment \<noteq> [] \<and>
          selects child rest (match @ [segment]) parameter"
    proof (cases "segment = [] \<or> param_child node = None \<or> max_route_params \<le> length match")
      case True
      then show ?thesis using bounded_full [OF less.prems(3)]
        by (cases "param_child node") (auto simp: parameter_def match_add_def candidate_def)
    next
      case False
      then obtain c where c: "param_child node = Some c" by auto
      have "node_ok c" "node_sorted c"
        using less.prems(1,2) c node_ok_iff [of node] node_sorted_iff [of node] by auto
      moreover have "bounded (length (match @ [segment])) c" using bounded_param [OF less.prems(3) c] by simp
      ultimately have "selects c rest (match @ [segment]) (find_dynamic_node c rest (match @ [segment]))"
        using IH by blast
      then show ?thesis using False c
        by (cases "fst (find_dynamic_node c rest (match @ [segment]))")
          (auto simp: parameter_def match_add_def Let_def selects_def)
    qed
    have step: "find_dynamic_node node path match =
        (if fst literal \<noteq> None then literal
         else if fst parameter \<noteq> None then parameter
         else if wildcard_route_index node \<noteq> None then
           (case match_add match (if path \<noteq> [] \<and> hd path = 0x2f then tl path else path) of
              Some m \<Rightarrow> (wildcard_route_index node, m) | None \<Rightarrow> (None, match))
         else (None, match))"
    proof (cases "fst literal = None")
      case True
      then have l: "literal = (None, match)" using literal by (cases literal) auto
      have p: "fst parameter = None \<Longrightarrow> parameter = (None, match)" using parameter by (cases parameter) auto
      show ?thesis
        by (subst find_dynamic_node.simps)
          (simp only: sr option.case prod.case Let_def literal_def [unfolded Let_def, symmetric] l fst_conv snd_conv
            parameter_def [unfolded Let_def, symmetric], cases "fst parameter = None", simp_all add: p match_add_def)
    next
      case False
      then show ?thesis
        by (subst find_dynamic_node.simps)
          (simp only: sr option.case prod.case Let_def literal_def [unfolded Let_def, symmetric] False
            not_False_eq_True if_True)
    qed
    show ?thesis
    proof (cases "fst literal")
      case (Some r)
      then obtain child p captures where child: "child_map (static_children node) (units segment) = Some child"
        "well_escaped segment" "node_lookup child p = Some r" "match_pattern p rest = Some captures"
        "snd literal = match @ captures" "\<forall>q. candidate child rest q \<longrightarrow> pattern_rank p \<le> pattern_rank q"
        using literal by (auto simp: selects_def)
      have "candidate node path q \<Longrightarrow> pattern_rank (Literal (units segment) # p) \<le> pattern_rank q" for q
        using child(1,6) unfolding cand by (auto simp: pattern_rank_Cons)
      then show ?thesis using Some child sr unfolding step
        by (auto simp: selects_def intro!: exI [of _ "Literal (units segment) # p"])
    next
      case no_literal: None
      show ?thesis
      proof (cases "fst parameter")
        case (Some r)
        then obtain child p captures where child: "param_child node = Some child" "segment \<noteq> []"
          "node_lookup child p = Some r" "match_pattern p rest = Some captures"
          "snd parameter = match @ segment # captures" "\<forall>q. candidate child rest q \<longrightarrow> pattern_rank p \<le> pattern_rank q"
          using parameter by (auto simp: selects_def)
        have "candidate node path q \<Longrightarrow> pattern_rank (Param # p) \<le> pattern_rank q" for q
          using child(1,6) literal no_literal unfolding cand by (auto simp: pattern_rank_Cons pattern_rank_def [of "[]"])
        then show ?thesis using no_literal Some child sr unfolding step
          by (auto simp: selects_def intro!: exI [of _ "Param # p"])
      next
        case None
        have only: "candidate node path q \<Longrightarrow> q = [Wild] \<and> wildcard_route_index node \<noteq> None" for q
          using literal parameter no_literal None unfolding cand by auto
        show ?thesis
        proof (cases "wildcard_route_index node")
          case None
          then show ?thesis using only no_literal \<open>fst parameter = None\<close> unfolding step by (auto simp: selects_def)
        next
          case (Some w)
          then have "length match < max_route_params" using bounded_wild [OF less.prems(3)] by simp
          then show ?thesis using only no_literal \<open>fst parameter = None\<close> Some unfolding step
            by (auto simp: selects_def match_add_def intro!: exI [of _ "[Wild]"])
        qed
      qed
    qed
  qed
qed

end
