(* ===== verification/Route_Patterns.thy ===== *)
theory Route_Patterns
  imports Route_Trie
begin

text \<open>
  What registration and the middleware plan read off a route pattern (\<open>router_dynamic_index_build.cpp\<close>,
  \<open>router_registration.cpp\<close>, \<open>router_build.cpp\<close>): whether it is dynamic, whether two patterns occupy the same
  trie slot or are the same route, the storage a trie needs, and how much of a route's request paths one path
  scope covers; and the search that does not record captures, used for \<open>Allow\<close>.
\<close>

subsection \<open>The search without captures\<close>

lemma no_params_empty:
  "\<lbrakk>node_ok node; node_sorted node; \<And>p. node_lookup node p = None\<rbrakk> \<Longrightarrow> find_dynamic_node_no_params node path = None"
proof (induction "length path" arbitrary: path node rule: less_induct)
  case less
  have ends: "route_index node = None" "wildcard_route_index node = None"
    using less.prems(3) [of "[]"] less.prems(3) [of "[Wild]"] by simp_all
  show ?case
  proof (cases "split_path_segment path")
    case None
    then show ?thesis by (subst find_dynamic_node_no_params.simps) (simp add: ends)
  next
    case (Some sr)
    obtain segment rest where sr: "split_path_segment path = Some (segment, rest)" using Some by (cases sr) auto
    note IH = less.hyps [OF split_path_segment_Some(3) [OF sr]]
    have "find_dynamic_node_no_params (snd c) rest = None" if "find_dynamic_static_child node segment = Some c" for c
    proof -
      have c: "child_map (static_children node) (units segment) = Some (snd c)"
        using find_child [OF less.prems(1,2), of segment] that by simp
      have "node_lookup (snd c) p = None" for p
        using less.prems(3) [of "Literal (units segment) # p"] c by simp
      then show ?thesis
        by (rule IH [OF child_ok [OF less.prems(1) c] child_sorted [OF less.prems(2) c]])
    qed
    moreover have "find_dynamic_node_no_params c rest = None" if "param_child node = Some c" for c
    proof -
      have "node_ok c" "node_sorted c"
        using less.prems(1,2) that node_ok_iff [of node] node_sorted_iff [of node] by auto
      moreover have "node_lookup c p = None" for p using less.prems(3) [of "Param # p"] that by simp
      ultimately show ?thesis by (rule IH)
    qed
    ultimately show ?thesis
      by (subst find_dynamic_node_no_params.simps) (auto simp: sr ends Let_def split: option.splits)
  qed
qed

lemma find_no_params:
  "\<lbrakk>node_ok node; node_sorted node; bounded (length match) node\<rbrakk> \<Longrightarrow>
     find_dynamic_node_no_params node path = fst (find_dynamic_node node path match)"
proof (induction "length path" arbitrary: path node match rule: less_induct)
  case less
  show ?case
  proof (cases "split_path_segment path")
    case None
    then show ?thesis using bounded_wild [OF less.prems(3)]
      by (subst find_dynamic_node_no_params.simps, subst find_dynamic_node.simps)
        (auto simp: match_add_def)
  next
    case (Some sr)
    obtain segment rest where sr: "split_path_segment path = Some (segment, rest)" using Some by (cases sr) auto
    note IH = less.hyps [OF split_path_segment_Some(3) [OF sr]]
    define literal where "literal = (case find_dynamic_static_child node segment of
        None \<Rightarrow> (None, match)
      | Some child \<Rightarrow>
          (let found = find_dynamic_node (snd child) rest match in
           if fst found \<noteq> None then found else (None, take (length match) (snd found))))"
    have lit: "(case find_dynamic_static_child node segment of
        None \<Rightarrow> None | Some child \<Rightarrow> find_dynamic_node_no_params (snd child) rest) = fst literal"
      "fst literal = None \<Longrightarrow> literal = (None, match)"
    proof -
      have "find_dynamic_node_no_params (snd c) rest = fst (find_dynamic_node (snd c) rest match) \<and>
          selects (snd c) rest match (find_dynamic_node (snd c) rest match)"
        if "find_dynamic_static_child node segment = Some c" for c
      proof -
        have c: "child_map (static_children node) (units segment) = Some (snd c)"
          using find_child [OF less.prems(1,2), of segment] that by simp
        note ok = child_ok [OF less.prems(1) c] child_sorted [OF less.prems(2) c] bounded_literal [OF less.prems(3) c]
        show ?thesis using IH [OF ok] find_dynamic_node_selects [OF ok] by simp
      qed
      note child = this
      show "(case find_dynamic_static_child node segment of
          None \<Rightarrow> None | Some child \<Rightarrow> find_dynamic_node_no_params (snd child) rest) = fst literal"
        using child by (auto simp: literal_def Let_def split: option.split)
      show "fst literal = None \<Longrightarrow> literal = (None, match)"
        using child by (auto simp: literal_def Let_def selects_def split: option.splits if_splits)
    qed
    define parameter where "parameter = (case param_child node of
        None \<Rightarrow> (None, match)
      | Some child \<Rightarrow>
          if segment = [] then (None, match)
          else (case match_add match segment of
              None \<Rightarrow> (None, match)
            | Some m \<Rightarrow>
                (let found = find_dynamic_node child rest m in
                 if fst found \<noteq> None then found else (None, take (length match) (snd found)))))"
    have par: "(case param_child node of
        None \<Rightarrow> None | Some child \<Rightarrow> if segment = [] then None else find_dynamic_node_no_params child rest) = fst parameter"
      "fst parameter = None \<Longrightarrow> parameter = (None, match)"
    proof -
      have ok: "node_ok c" "node_sorted c" if "param_child node = Some c" for c
        using less.prems(1,2) that node_ok_iff [of node] node_sorted_iff [of node] by auto
      have child: "find_dynamic_node_no_params c rest = fst (find_dynamic_node c rest (match @ [segment])) \<and>
          selects c rest (match @ [segment]) (find_dynamic_node c rest (match @ [segment]))"
        if c: "param_child node = Some c" for c
      proof -
        have "bounded (length (match @ [segment])) c" using bounded_param [OF less.prems(3) c] by simp
        then show ?thesis using IH [OF ok [OF c]] find_dynamic_node_selects [OF ok [OF c]] by blast
      qed
      have full: "find_dynamic_node_no_params c rest = None"
        if c: "param_child node = Some c" and "max_route_params \<le> length match" for c
        by (rule no_params_empty [OF ok [OF c]]) (rule bounded_full [OF less.prems(3) that(2) c])
      show "(case param_child node of
          None \<Rightarrow> None | Some child \<Rightarrow> if segment = [] then None else find_dynamic_node_no_params child rest) = fst parameter"
        using child full by (auto simp: parameter_def Let_def match_add_def split: option.split)
      show "fst parameter = None \<Longrightarrow> parameter = (None, match)"
        using child by (auto simp: parameter_def Let_def selects_def match_add_def split: option.splits if_splits)
    qed
    have wild: "wildcard_route_index node \<noteq> None \<Longrightarrow> \<not> max_route_params \<le> length match"
      using bounded_wild [OF less.prems(3)] by simp
    show ?thesis
    proof (cases "fst literal = None")
      case True
      then show ?thesis using lit(2) par(2) wild
        by (subst find_dynamic_node_no_params.simps, subst find_dynamic_node.simps)
          (simp only: sr option.case prod.case Let_def lit(1) par(1) literal_def [unfolded Let_def, symmetric] fst_conv snd_conv
            parameter_def [unfolded Let_def, symmetric], auto simp: match_add_def)
    next
      case False
      then show ?thesis
        by (subst find_dynamic_node_no_params.simps, subst find_dynamic_node.simps)
          (simp only: sr option.case prod.case Let_def lit(1) literal_def [unfolded Let_def, symmetric]
            not_False_eq_True if_True)
    qed
  qed
qed

subsection \<open>Patterns read off paths\<close>

function is_dynamic_path :: "bytes \<Rightarrow> bool" where
  "is_dynamic_path path =
     (if path = [] then False
      else case split_path_segment path of
        None \<Rightarrow> False
      | Some (segment, rest) \<Rightarrow> if segment = [0x2a] \<or> is_param segment then True else is_dynamic_path rest)"
  by auto
termination
  by (relation "measure length") (auto dest!: sym [of "Some _"] split_path_segment_Some(3))

function same_dynamic_shape :: "bytes \<Rightarrow> bytes \<Rightarrow> bool" where
  "same_dynamic_shape left right =
     (case (split_path_segment left, split_path_segment right) of
        (Some (left_segment, left_rest), Some (right_segment, right_rest)) \<Rightarrow>
          (let left_literal = \<not> is_param left_segment \<and> left_segment \<noteq> [0x2a];
               right_literal = \<not> is_param right_segment \<and> right_segment \<noteq> [0x2a] in
           if left_literal \<noteq> right_literal then False
           else if (if left_literal then \<not> uri_paths_equivalent left_segment right_segment
                    else is_param left_segment \<noteq> is_param right_segment) then False
           else same_dynamic_shape left_rest right_rest)
      | (has_left, has_right) \<Rightarrow> (has_left \<noteq> None) = (has_right \<noteq> None))"
  by pat_completeness auto
termination
  by (relation "measure (length \<circ> fst)") (auto dest!: sym [of "Some _"] split_path_segment_Some(3))

definition segment_kind :: "bytes \<Rightarrow> nat" where
  "segment_kind segment = (if segment = [0x2a] then 2 else if is_param segment then 1 else 0)"

function same_route_pattern :: "bytes \<Rightarrow> bytes \<Rightarrow> bool" where
  "same_route_pattern left right =
     (case (split_path_segment left, split_path_segment right) of
        (Some (left_segment, left_rest), Some (right_segment, right_rest)) \<Rightarrow>
          if segment_kind left_segment \<noteq> segment_kind right_segment \<or>
             \<not> uri_paths_equivalent left_segment right_segment then False
          else same_route_pattern left_rest right_rest
      | (has_left, has_right) \<Rightarrow> (has_left \<noteq> None) = (has_right \<noteq> None))"
  by pat_completeness auto
termination
  by (relation "measure (length \<circ> fst)") (auto dest!: sym [of "Some _"] split_path_segment_Some(3))

function upper_bounds_from :: "bytes \<Rightarrow> nat \<Rightarrow> nat \<Rightarrow> nat \<times> nat" where
  "upper_bounds_from path nodes names =
     (case split_path_segment path of
        None \<Rightarrow> (nodes, names)
      | Some (segment, rest) \<Rightarrow>
          (let nodes' = (if segment = [0x2a] then nodes else nodes + 1);
               names' = (if segment = [0x2a] \<or> is_param segment then names + 1 else names) in
           if rest = [] then (nodes', names') else upper_bounds_from rest nodes' names'))"
  by pat_completeness auto
termination
  by (relation "measure (length \<circ> fst)") (auto dest!: sym [of "Some _"] split_path_segment_Some(3))

definition dynamic_upper_bounds :: "bytes \<Rightarrow> nat \<times> nat" where
  "dynamic_upper_bounds path = upper_bounds_from path 0 0"

declare is_dynamic_path.simps [simp del] same_dynamic_shape.simps [simp del]
  same_route_pattern.simps [simp del] upper_bounds_from.simps [simp del]

lemma split_induct [case_names Nil Segment]:
  assumes "P []"
    and "\<And>path segment rest. \<lbrakk>split_path_segment path = Some (segment, rest); segments path = segment # segments rest;
      P rest\<rbrakk> \<Longrightarrow> P path"
  shows "P path"
proof (induction "length path" arbitrary: path rule: less_induct)
  case less
  show ?case
  proof (cases "split_path_segment path")
    case None
    then show ?thesis using assms(1) by simp
  next
    case (Some sr)
    then show ?thesis using assms(2) [of path "fst sr" "snd sr"] split_path_segment_Some [of path "fst sr" "snd sr"] less
      by simp
  qed
qed

lemma is_dynamic_path: "is_dynamic_path path \<longleftrightarrow> Param \<in> set (pattern_of path) \<or> Wild \<in> set (pattern_of path)"
proof (induction path rule: split_induct)
  case Nil
  then show ?case by (simp add: is_dynamic_path.simps)
next
  case (Segment path segment rest)
  then have "path \<noteq> []" by (metis option.distinct(1) split_path_segment_Nil)
  then show ?case using Segment
    by (subst is_dynamic_path.simps) (simp add: pattern_of_split slot_of_def)
qed

lemma static_pattern: "\<not> is_dynamic_path path \<Longrightarrow> pattern_of path = map (Literal \<circ> units) (segments path)"
  by (auto simp: is_dynamic_path pattern_of_def slot_of_def image_iff split: if_splits)

lemma same_dynamic_shape_pattern:
  "(\<forall>s\<in>set (segments left). well_escaped s) \<Longrightarrow> same_dynamic_shape left right \<longleftrightarrow> pattern_of left = pattern_of right"
proof (induction left arbitrary: right rule: split_induct)
  case Nil
  have "pattern_of right = [] \<longleftrightarrow> right = []" by (simp add: pattern_of_def)
  then show ?case
    by (cases "split_path_segment right"; subst same_dynamic_shape.simps)
      (auto dest: split_path_segment_Some(1))
next
  case (Segment left segment rest)
  show ?case
  proof (cases "split_path_segment right")
    case None
    then show ?thesis using Segment by (subst same_dynamic_shape.simps) (simp add: pattern_of_split)
  next
    case (Some sr)
    then show ?thesis using Segment
      by (cases sr, subst same_dynamic_shape.simps)
        (auto simp: pattern_of_split slot_of_def uri_paths_equivalent_units is_param_def Let_def)
  qed
qed

lemma same_route_pattern_segments:
  "same_route_pattern left right \<longleftrightarrow>
     list_all2 (\<lambda>l r. segment_kind l = segment_kind r \<and> uri_paths_equivalent l r) (segments left) (segments right)"
proof (induction left arbitrary: right rule: split_induct)
  case Nil
  show ?case
    by (cases "split_path_segment right"; subst same_route_pattern.simps)
      (auto dest: split_path_segment_Some(1))
next
  case (Segment left segment rest)
  show ?case
  proof (cases "split_path_segment right")
    case None
    then show ?thesis using Segment by (subst same_route_pattern.simps) simp
  next
    case (Some sr)
    then show ?thesis using Segment
      by (cases sr, subst same_route_pattern.simps) (auto simp: split_path_segment_Some(1))
  qed
qed

lemma upper_bounds_from:
  "upper_bounds_from path nodes names =
     (nodes + length (filter (\<lambda>s. s \<noteq> [0x2a]) (segments path)),
      names + length (filter (\<lambda>s. s = [0x2a] \<or> is_param s) (segments path)))"
proof (induction path arbitrary: nodes names rule: split_induct)
  case Nil
  then show ?case by (simp add: upper_bounds_from.simps)
next
  case (Segment path segment rest)
  then show ?case by (subst upper_bounds_from.simps) (simp add: Let_def)
qed

subsection \<open>The reserved storage suffices\<close>

text \<open>The nodes of a trie besides its root, which the arena holds.\<close>

function arena_nodes :: "dynamic_node \<Rightarrow> nat" where
  "arena_nodes (Node children param route wildcard) =
     sum_list (map (\<lambda>(segment, child). Suc (arena_nodes child)) children) +
     (case param of None \<Rightarrow> 0 | Some child \<Rightarrow> Suc (arena_nodes child))"
  by pat_completeness auto
termination
  by (relation "measure size") (auto simp: child_size)

lemma arena_nodes_parts:
  "arena_nodes (Node children (param_child node) route wildcard) + sum_list (map (\<lambda>c. Suc (arena_nodes (snd c))) (static_children node)) =
     arena_nodes node + sum_list (map (\<lambda>c. Suc (arena_nodes (snd c))) children)"
  by (cases node) (simp add: case_prod_unfold)

lemma sum_list_update_nat:
  "i < length xs \<Longrightarrow> sum_list (map f (xs [i := x])) + f (xs ! i) = sum_list (map f xs) + (f x :: nat)"
  by (induction xs arbitrary: i) (auto split: nat.split)

lemma insert_dynamic_nodes:
  "insert_dynamic path index node names = Inr (node', names') \<Longrightarrow>
     arena_nodes node' \<le> arena_nodes node + length (filter (\<lambda>s. s \<noteq> [0x2a]) (segments path))"
proof (induction path arbitrary: node names node' names' rule: split_induct)
  case Nil
  then show ?case by (cases node) (auto simp: insert_Nil)
next
  case (Segment path segment rest)
  note step = insert_dynamic_step [OF Segment(1), of index node names]
  consider (wild) "segment = [0x2a]" | (param) "segment \<noteq> [0x2a]" "is_param segment"
    | (literal) "segment \<noteq> [0x2a]" "\<not> is_param segment" by blast
  then show ?case
  proof cases
    case wild
    then show ?thesis using Segment.prems unfolding step
      by (cases node) (auto simp: append_dynamic_param_name_def split: if_splits)
  next
    case param
    then obtain c names'' where c: "insert_dynamic rest index (child_of (param_child node)) names'' = Inr (c, names')"
      "node' = Node (static_children node) (Some c) (route_index node) (wildcard_route_index node)"
      using Segment.prems unfolding step
      by (auto simp: append_dynamic_param_name_def split: if_splits sum.splits)
    have "arena_nodes c \<le> arena_nodes (child_of (param_child node)) + length (filter (\<lambda>s. s \<noteq> [0x2a]) (segments rest))"
      by (rule Segment.IH [OF c(1)])
    moreover have "arena_nodes empty_node = 0" by (simp add: empty_node_def)
    ultimately show ?thesis using param Segment(2) c(2)
      by (cases node) (auto simp: child_of_def split: option.splits)
  next
    case literal
    obtain children i where ci: "(children, i) =
         (case equivalent_child (static_children node) segment of
            Some i \<Rightarrow> (static_children node, i)
          | None \<Rightarrow> (static_children node @ [(segment, empty_node)], length (static_children node)))"
      by (metis surj_pair)
    obtain c where c: "insert_dynamic rest index (snd (children ! i)) names = Inr (c, names')"
      "node' = Node (children [i := (fst (children ! i), c)]) (param_child node) (route_index node) (wildcard_route_index node)"
      using Segment.prems literal unfolding step ci [symmetric] by (auto split: sum.splits)
    let ?total = "\<lambda>cs. sum_list (map (\<lambda>c. Suc (arena_nodes (snd c))) cs)"
    have "arena_nodes empty_node = 0" by (simp add: empty_node_def)
    then have i: "i < length children" "?total children \<le> Suc (?total (static_children node))"
      using ci equivalent_child_Some [of "static_children node" segment i]
      by (cases "equivalent_child (static_children node) segment"; simp)+
    have "arena_nodes c \<le> arena_nodes (snd (children ! i)) + length (filter (\<lambda>s. s \<noteq> [0x2a]) (segments rest))"
      by (rule Segment.IH [OF c(1)])
    then show ?thesis
      using sum_list_update_nat [OF i(1), of "\<lambda>c. Suc (arena_nodes (snd c))" "(fst (children ! i), c)"] i(2) literal Segment(2)
        arena_nodes_parts [of "children [i := (fst (children ! i), c)]" node "route_index node" "wildcard_route_index node"]
      by (simp add: c(2))
  qed
qed

subsection \<open>Middleware scopes\<close>

datatype middleware_scope_coverage = Coverage_none | Coverage_partial | Coverage_full

function scope_coverage_from :: "bytes \<Rightarrow> bytes \<Rightarrow> bool \<Rightarrow> middleware_scope_coverage" where
  "scope_coverage_from pattern prefix request_dependent =
     (case split_path_segment prefix of
        None \<Rightarrow> if request_dependent then Coverage_partial else Coverage_full
      | Some (prefix_segment, prefix_rest) \<Rightarrow>
          (case split_path_segment pattern of
             None \<Rightarrow> Coverage_none
           | Some (pattern_segment, pattern_rest) \<Rightarrow>
               if pattern_segment = [0x2a] then Coverage_partial
               else if is_param pattern_segment then
                 if prefix_segment = [] then Coverage_none
                 else scope_coverage_from pattern_rest prefix_rest True
               else if \<not> uri_paths_equivalent pattern_segment prefix_segment then Coverage_none
               else scope_coverage_from pattern_rest prefix_rest request_dependent))"
  by pat_completeness auto
termination
  by (relation "measure (\<lambda>(pattern, _, _). length pattern)") (auto dest!: sym [of "Some _"] split_path_segment_Some(3))

definition route_scope_coverage :: "bytes \<Rightarrow> bool \<Rightarrow> bytes \<Rightarrow> middleware_scope_coverage" where
  "route_scope_coverage pattern is_dynamic prefix =
     (if \<not> is_dynamic then (if path_is_under_prefix pattern prefix then Coverage_full else Coverage_none)
      else if prefix = [] then Coverage_full
      else scope_coverage_from pattern prefix False)"

declare scope_coverage_from.simps [simp del]

lemma scope_coverage_from:
  "match_pattern (pattern_of pattern) path = Some captures \<Longrightarrow>
     (scope_coverage_from pattern prefix dep = Coverage_full \<longrightarrow> leading (segments prefix) (segments path)) \<and>
     (scope_coverage_from pattern prefix dep = Coverage_none \<longrightarrow> \<not> leading (segments prefix) (segments path))"
proof (induction pattern prefix dep arbitrary: path captures rule: scope_coverage_from.induct)
  case (1 pattern prefix dep)
  note unfold = scope_coverage_from.simps [of pattern prefix dep]
  show ?case
  proof (cases "split_path_segment prefix")
    case None
    then show ?thesis unfolding unfold by simp
  next
    case (Some pr)
    obtain pseg prest where pr: "split_path_segment prefix = Some (pseg, prest)" using Some by (cases pr) auto
    note prefix = split_path_segment_Some(1) [OF pr]
    show ?thesis
    proof (cases "split_path_segment pattern")
      case None
      then have "path = []" using "1.prems" by (simp split: if_splits)
      then show ?thesis unfolding unfold by (simp add: pr None prefix)
    next
      case (Some sr)
      obtain seg rest where sr: "split_path_segment pattern = Some (seg, rest)" using Some by (cases sr) auto
      note pattern = pattern_of_split [OF sr]
      consider (wild) "seg = [0x2a]" | (param) "seg \<noteq> [0x2a]" "is_param seg" | (literal) "seg \<noteq> [0x2a]" "\<not> is_param seg"
        by blast
      then show ?thesis
      proof cases
        case wild
        then show ?thesis unfolding unfold by (simp add: pr sr)
      next
        case param
        obtain s r caps where path: "split_path_segment path = Some (s, r)" "s \<noteq> []"
          "match_pattern (pattern_of rest) r = Some caps"
          using "1.prems" param by (auto simp: pattern slot_of_def split: option.splits if_splits)
        have empty: "\<not> uri_paths_equivalent s []" using path(2) by (simp add: uri_paths_equivalent_units units_Nil_iff)
        show ?thesis
        proof (cases "pseg = []")
          case True
          then show ?thesis unfolding unfold using param empty
            by (simp add: pr sr prefix split_path_segment_Some(1) [OF path(1)] leading_Cons)
        next
          case False
          note IH = "1.IH"(1) [OF pr refl sr refl param(1) param(2) False path(3)]
          have full: "dep' \<Longrightarrow> scope_coverage_from a b dep' \<noteq> Coverage_full" for a b dep'
            by (induction a b dep' rule: scope_coverage_from.induct)
              (subst scope_coverage_from.simps, auto split: option.split)
          show ?thesis unfolding unfold using param False IH full [of True rest prest]
            by (simp add: pr sr prefix split_path_segment_Some(1) [OF path(1)] leading_Cons)
        qed
      next
        case literal
        obtain s r where path: "split_path_segment path = Some (s, r)" "units s = units seg" "well_escaped s"
          "match_pattern (pattern_of rest) r = Some captures"
          using "1.prems" literal by (auto simp: pattern slot_of_def split: option.splits if_splits)
        have eq: "uri_paths_equivalent s pseg \<longleftrightarrow> uri_paths_equivalent seg pseg"
          using path(2,3) by (simp add: uri_paths_equivalent_units well_escaped_def)
        show ?thesis
        proof (cases "uri_paths_equivalent seg pseg")
          case True
          then have ne: "\<not> \<not> uri_paths_equivalent seg pseg" by simp
          note IH = "1.IH"(2) [OF pr refl sr refl literal ne path(4)]
          show ?thesis unfolding unfold using literal True IH eq
            by (simp add: pr sr prefix split_path_segment_Some(1) [OF path(1)] leading_Cons)
        next
          case False
          then show ?thesis unfolding unfold using literal eq
            by (simp add: pr sr prefix split_path_segment_Some(1) [OF path(1)] leading_Cons)
        qed
      qed
    qed
  qed
qed

definition route_serves :: "bytes \<Rightarrow> bool \<Rightarrow> bytes \<Rightarrow> bool" where
  "route_serves pattern is_dynamic path \<longleftrightarrow>
     (if is_dynamic then match_pattern (pattern_of pattern) path \<noteq> None else uri_paths_equivalent pattern path)"

lemma first_unit_slash:
  assumes "path \<noteq> []" "hd (units path) = 0x100"
  shows "hd path = 0x2f"
proof (rule ccontr)
  assume "hd path \<noteq> 0x2f"
  obtain c cs where path: "path = c # cs" using assms(1) by (cases path) auto
  have "uint c < 0x100" using uint_lt2p [of c] by simp
  then show False using assms(2) \<open>hd path \<noteq> 0x2f\<close> escape_Some(2) [of cs]
    by (cases "c = 0x25") (auto simp: path units_percent units_plain split: option.splits)
qed

lemma equivalent_segments:
  assumes "uri_paths_equivalent left right" "left \<noteq> []" "hd left = 0x2f"
  shows "right \<noteq> []" "hd right = 0x2f" "list_all2 uri_paths_equivalent (segments left) (segments right)"
proof -
  obtain l where l: "left = 0x2f # l" using assms(2,3) by (cases left) auto
  have eq: "units right = 0x100 # units l" "well_escaped left"
    using assms(1) by (simp_all add: uri_paths_equivalent_units l)
  then have "right \<noteq> []" by auto
  then show right: "right \<noteq> []" "hd right = 0x2f" using first_unit_slash [of right] eq(1) by simp_all
  then obtain r where r: "right = 0x2f # r" by (cases right) auto
  have "uri_paths_equivalent l r"
    using eq by (simp add: uri_paths_equivalent_units well_escaped_def l r)
  then show "list_all2 uri_paths_equivalent (segments left) (segments right)"
    by (simp add: l r segments_slash equivalent_parts)
qed

lemma scope_coverage_exact:
  assumes "pattern \<noteq> []" "hd pattern = 0x2f" "path \<noteq> []" "hd path = 0x2f" "prefix = [] \<or> hd prefix = 0x2f"
    and "route_serves pattern is_dynamic path"
  shows "route_scope_coverage pattern is_dynamic prefix = Coverage_full \<Longrightarrow> path_is_under_prefix path prefix"
    "route_scope_coverage pattern is_dynamic prefix = Coverage_none \<Longrightarrow> \<not> path_is_under_prefix path prefix"
proof -
  have "(route_scope_coverage pattern is_dynamic prefix = Coverage_full \<longrightarrow> path_is_under_prefix path prefix) \<and>
    (route_scope_coverage pattern is_dynamic prefix = Coverage_none \<longrightarrow> \<not> path_is_under_prefix path prefix)"
  proof (cases "prefix = []")
    case True
    then show ?thesis by (simp add: route_scope_coverage_def path_is_under_prefix_def)
  next
    case False
    then obtain p where prefix: "prefix = 0x2f # p" using assms(5) by (cases prefix) auto
    note under = path_is_under_prefix_segments [of path p, folded prefix] path_is_under_prefix_segments [of pattern p, folded prefix]
    show ?thesis
    proof (cases is_dynamic)
      case True
      then obtain captures where "match_pattern (pattern_of pattern) path = Some captures"
        using assms(6) by (auto simp: route_serves_def)
      from scope_coverage_from [OF this, of prefix False] show ?thesis
        using True False assms(3,4) by (simp add: route_scope_coverage_def under)
    next
      case static: False
      then have eq: "uri_paths_equivalent pattern path" using assms(6) by (simp add: route_serves_def)
      have "list_all2 uri_paths_equivalent (segments pattern) (segments path)"
        "list_all2 uri_paths_equivalent (segments path) (segments pattern)"
        using equivalent_segments(3) [OF eq assms(1,2)] equivalent_segments(3) [OF equivalent_sym [OF eq] assms(3,4)] .
      then have "leading (segments prefix) (segments pattern) \<longleftrightarrow> leading (segments prefix) (segments path)"
        using leading_equivalent by blast
      then show ?thesis using static assms(1-4) by (simp add: route_scope_coverage_def under)
    qed
  qed
  then show "route_scope_coverage pattern is_dynamic prefix = Coverage_full \<Longrightarrow> path_is_under_prefix path prefix"
    "route_scope_coverage pattern is_dynamic prefix = Coverage_none \<Longrightarrow> \<not> path_is_under_prefix path prefix" by auto
qed

subsection \<open>Tries built from patterns\<close>

fun insert_patterns :: "(bytes \<times> nat) list \<Rightarrow> dynamic_node \<Rightarrow> dynamic_node option" where
  "insert_patterns [] node = Some node"
| "insert_patterns ((pattern, index) # entries) node =
     (case insert_dynamic pattern index node [] of Inl _ \<Rightarrow> None | Inr (node, _) \<Rightarrow> insert_patterns entries node)"

definition entry_updates :: "(bytes \<times> nat) list \<Rightarrow> (slot list \<Rightarrow> nat option) \<Rightarrow> slot list \<Rightarrow> nat option" where
  "entry_updates entries L = foldl (\<lambda>L (pattern, index). L (pattern_of pattern \<mapsto> index)) L entries"

lemma entry_updates_Cons:
  "entry_updates ((pattern, index) # entries) L = entry_updates entries (L (pattern_of pattern \<mapsto> index))"
  by (simp add: entry_updates_def)

lemma entry_updates_Some:
  "entry_updates entries L p = Some index \<Longrightarrow>
     (\<exists>pattern. (pattern, index) \<in> set entries \<and> pattern_of pattern = p) \<or> L p = Some index"
proof (induction entries arbitrary: L)
  case (Cons entry entries)
  obtain pattern i where entry: "entry = (pattern, i)" by (cases entry)
  define L' where "L' = L (pattern_of pattern \<mapsto> i)"
  have "entry_updates entries L' p = Some index" using Cons.prems by (simp add: entry entry_updates_Cons L'_def)
  from Cons.IH [OF this] show ?case by (auto simp: entry L'_def split: if_splits)
qed (simp add: entry_updates_def)

lemma entry_updates_not_None:
  "entry_updates entries L p \<noteq> None \<longleftrightarrow> (\<exists>(pattern, index) \<in> set entries. pattern_of pattern = p) \<or> L p \<noteq> None"
proof (induction entries arbitrary: L)
  case (Cons entry entries)
  obtain pattern i where entry: "entry = (pattern, i)" by (cases entry)
  define L' where "L' = L (pattern_of pattern \<mapsto> i)"
  have step: "entry_updates (entry # entries) L p = entry_updates entries L' p" by (simp add: entry entry_updates_Cons L'_def)
  have "L' p \<noteq> None \<longleftrightarrow> pattern_of pattern = p \<or> L p \<noteq> None" by (simp add: L'_def)
  then show ?case unfolding step Cons.IH [of L'] by (simp add: entry) blast
qed (simp add: entry_updates_def)

lemma insert_patterns_ok:
  "\<lbrakk>node_ok node; \<forall>(pattern, index) \<in> set entries. \<forall>s\<in>set (segments pattern). well_escaped s;
    insert_patterns entries node = Some node'\<rbrakk> \<Longrightarrow>
     node_ok node' \<and> node_lookup node' = entry_updates entries (node_lookup node) \<and>
     (\<forall>(pattern, index) \<in> set entries. accepts 0 (segments pattern))"
proof (induction entries arbitrary: node)
  case Nil
  then show ?case by (simp add: entry_updates_def)
next
  case (Cons entry entries)
  obtain pattern index where entry: "entry = (pattern, index)" by (cases entry)
  obtain node1 names where one: "insert_dynamic pattern index node [] = Inr (node1, names)"
    and rest: "insert_patterns entries node1 = Some node'"
    using Cons.prems(3) by (auto simp: entry split: sum.splits)
  have "insert_result pattern index node [] (Inr (node1, names))"
    using insert_dynamic_refines [OF Cons.prems(1), of pattern index "[]"] Cons.prems(2) one by (simp add: entry)
  then have step: "node_ok node1" "node_lookup node1 = (node_lookup node) (pattern_of pattern \<mapsto> index)"
    "accepts 0 (segments pattern)"
    by (simp_all add: insert_result_def)
  have wf: "\<forall>(pattern, index) \<in> set entries. \<forall>s\<in>set (segments pattern). well_escaped s" using Cons.prems(2) by simp
  show ?case using Cons.IH [OF step(1) wf rest] step(3) unfolding step(2) entry entry_updates_Cons by (simp del: fun_upd_apply)
qed

lemma empty_lookup: "node_lookup empty_node p = None"
  by (induction "empty_node" p rule: node_lookup.induct) (simp_all add: empty_node_def child_map_def)

text \<open>
  Property C7. Whatever patterns a trie was built from, the search returns the route of the most specific one that
  matches the path, segment by segment literal before parameter before wildcard, with its captures; it finds nothing
  exactly when none matches; and the search without captures finds the same route.
\<close>

theorem trie_serves_most_specific:
  assumes "\<forall>(pattern, index) \<in> set entries. \<forall>s\<in>set (segments pattern). well_escaped s"
    and "insert_patterns entries empty_node = Some node"
  shows "(case find_dynamic_node (sort_dynamic_node node) path [] of
       (None, captures) \<Rightarrow> captures = [] \<and> (\<forall>(pattern, index) \<in> set entries. match_pattern (pattern_of pattern) path = None)
     | (Some found, captures) \<Rightarrow> \<exists>pattern. (pattern, found) \<in> set entries \<and>
         match_pattern (pattern_of pattern) path = Some captures \<and>
         (\<forall>(q, index) \<in> set entries. match_pattern (pattern_of q) path \<noteq> None \<longrightarrow>
            pattern_rank (pattern_of pattern) \<le> pattern_rank (pattern_of q))) \<and>
    find_dynamic_node_no_params (sort_dynamic_node node) path = fst (find_dynamic_node (sort_dynamic_node node) path [])"
proof -
  define root where "root = sort_dynamic_node node"
  have built: "node_ok node" "node_lookup node = entry_updates entries (node_lookup empty_node)"
    "\<forall>(pattern, index) \<in> set entries. accepts 0 (segments pattern)"
    using insert_patterns_ok [OF empty_node_ok assms] by auto
  have lookup: "node_lookup root p = entry_updates entries (\<lambda>_. None) p" for p
  proof -
    have "node_lookup empty_node = (\<lambda>_. None)" by (rule ext) (rule empty_lookup)
    then show ?thesis using built(2) sort_dynamic_node_lookup [OF built(1)] by (simp add: root_def)
  qed
  have ok: "node_ok root" "node_sorted root"
    using sort_dynamic_node_ok [OF built(1)] sort_dynamic_node_sorted by (simp_all add: root_def)
  have member: "node_lookup root p \<noteq> None \<longleftrightarrow> (\<exists>(pattern, index) \<in> set entries. pattern_of pattern = p)" for p
    using entry_updates_not_None [of entries "\<lambda>_. None" p] by (simp add: lookup)
  have "bounded (length ([] :: bytes list)) root"
    unfolding bounded_def
  proof (intro allI impI)
    fix p assume "node_lookup root p \<noteq> None"
    then obtain pattern index where "(pattern, index) \<in> set entries" "pattern_of pattern = p" using member by blast
    then show "length ([] :: bytes list) + capture_count p \<le> max_route_params"
      using built(3) accepts_captures capture_count_segments [of pattern] by fastforce
  qed
  note found = find_dynamic_node_selects [OF ok this, of path] and same = find_no_params [OF ok this, of path]
  obtain r captures where result: "find_dynamic_node root path [] = (r, captures)" by fastforce
  have candidates: "candidate root path p \<longleftrightarrow> (\<exists>(q, index) \<in> set entries. pattern_of q = p) \<and> match_pattern p path \<noteq> None" for p
    unfolding candidate_def member ..
  show ?thesis
  proof (cases r)
    case None
    then show ?thesis using found same candidates unfolding root_def [symmetric] by (auto simp: result selects_def)
  next
    case (Some index)
    then obtain p where p: "node_lookup root p = Some index" "match_pattern p path = Some captures"
      "\<forall>q. candidate root path q \<longrightarrow> pattern_rank p \<le> pattern_rank q"
      using found by (auto simp: result selects_def)
    obtain pattern where "(pattern, index) \<in> set entries" "pattern_of pattern = p"
      using entry_updates_Some [OF p(1) [unfolded lookup]] by auto
    moreover have "\<forall>(q, i) \<in> set entries. match_pattern (pattern_of q) path \<noteq> None \<longrightarrow> pattern_rank p \<le> pattern_rank (pattern_of q)"
      using p(3) candidates by blast
    ultimately show ?thesis using same Some p(2) unfolding root_def [symmetric] by (auto simp: result)
  qed
qed

lemma trie_serves_most_specific_witness:
  "\<exists>node. insert_patterns [(ascii ''/u/:x'', 0), (ascii ''/u/me'', 1), (ascii ''/*'', 2)] empty_node = Some node \<and>
     find_dynamic_node_no_params (sort_dynamic_node node) (ascii ''/u/%6de'') = Some 1"
proof -
  define entries :: "(bytes \<times> nat) list" where "entries = [(ascii ''/u/:x'', 0), (ascii ''/u/me'', 1), (ascii ''/*'', 2)]"
  have wf: "\<forall>(pattern, index) \<in> set entries. \<forall>s\<in>set (segments pattern). well_escaped s"
    unfolding entries_def by code_simp
  have "insert_patterns entries empty_node \<noteq> None" unfolding entries_def by code_simp
  then obtain node where node: "insert_patterns entries empty_node = Some node" by blast
  have "case insert_patterns entries empty_node of None \<Rightarrow> False
     | Some node \<Rightarrow> fst (find_dynamic_node (sort_dynamic_node node) (ascii ''/u/%6de'') []) = Some 1"
    unfolding entries_def by code_simp
  then show ?thesis
    using trie_serves_most_specific [OF wf node, of "ascii ''/u/%6de''"] node by (simp add: entries_def)
qed

text \<open>
  Property C14. When a scope covers a route fully, every request path the route serves lies under the scope's
  prefix; when it does not cover it at all, none does. A request to the route never skips a middleware of its scope
  and never runs one of another.
\<close>

theorem middleware_scope_exact:
  assumes "pattern \<noteq> []" "hd pattern = 0x2f" "path \<noteq> []" "hd path = 0x2f" "prefix = [] \<or> hd prefix = 0x2f"
    and "route_serves pattern is_dynamic path"
  shows "(route_scope_coverage pattern is_dynamic prefix = Coverage_full \<longrightarrow> path_is_under_prefix path prefix) \<and>
    (route_scope_coverage pattern is_dynamic prefix = Coverage_none \<longrightarrow> \<not> path_is_under_prefix path prefix)"
  using scope_coverage_exact [OF assms] by blast

lemma middleware_scope_exact_witness:
  "route_scope_coverage (ascii ''/api/:id/x'') True (ascii ''/%61pi'') = Coverage_full \<and>
   path_is_under_prefix (ascii ''/api/7/x'') (ascii ''/%61pi'')"
proof -
  have "route_serves (ascii ''/api/:id/x'') True (ascii ''/api/7/x'')" by code_simp
  moreover have "route_scope_coverage (ascii ''/api/:id/x'') True (ascii ''/%61pi'') = Coverage_full" by code_simp
  moreover have "ascii ''/api/:id/x'' \<noteq> [] \<and> hd (ascii ''/api/:id/x'') = 0x2f \<and> ascii ''/api/7/x'' \<noteq> [] \<and>
      hd (ascii ''/api/7/x'') = 0x2f \<and> hd (ascii ''/%61pi'') = 0x2f"
    by code_simp
  ultimately show ?thesis
    using middleware_scope_exact [of "ascii ''/api/:id/x''" "ascii ''/api/7/x''" "ascii ''/%61pi''" True] by blast
qed

end
