(* ===== verification/Uri_Grammar.thy ===== *)
theory Uri_Grammar
  imports Uri_Path
begin

text \<open>
  The URI syntax of \<open>http_uri_grammar.cpp\<close>: the character classes, percent-encoded components, the split of
  host and port, decimal ports, IPv4, IPv6 and IPvFuture literals, registered names and DNS names.
\<close>

subsection \<open>Characters and percent-encoded components\<close>

definition is_decimal_digit :: "byte \<Rightarrow> bool" where
  "is_decimal_digit c \<longleftrightarrow> 0x30 \<le> c \<and> c \<le> 0x39"

definition is_unreserved_byte :: "byte \<Rightarrow> bool" where
  "is_unreserved_byte b \<longleftrightarrow> 0x30 \<le> b \<and> b \<le> 0x39 \<or> 0x41 \<le> b \<and> b \<le> 0x5a \<or> 0x61 \<le> b \<and> b \<le> 0x7a \<or>
     b = 0x2d \<or> b = 0x2e \<or> b = 0x5f \<or> b = 0x7e"

definition is_uri_sub_delimiter :: "byte \<Rightarrow> bool" where
  "is_uri_sub_delimiter b \<longleftrightarrow> b \<in> {0x21, 0x24, 0x26, 0x27, 0x28, 0x29, 0x2a, 0x2b, 0x2c, 0x3b, 0x3d}"

definition reg_name_char_table :: "byte \<Rightarrow> bool" where
  "reg_name_char_table b \<longleftrightarrow> is_unreserved_byte b \<or> is_uri_sub_delimiter b"

definition is_uri_userinfo_literal :: "byte \<Rightarrow> bool" where
  "is_uri_userinfo_literal b \<longleftrightarrow> reg_name_char_table b \<or> b = 0x3a"

definition is_uri_pchar :: "byte \<Rightarrow> bool" where
  "is_uri_pchar b \<longleftrightarrow> is_uri_userinfo_literal b \<or> b = 0x40"

function percent_encoded_from :: "(byte \<Rightarrow> bool) \<Rightarrow> bytes \<Rightarrow> nat \<Rightarrow> bool" where
  "percent_encoded_from is_allowed val index =
     (if index < length val then
        (if val ! index = 0x25 then
           (if http_try_decode_percent_byte val index = None then False
            else percent_encoded_from is_allowed val (index + 2 + 1))
         else if \<not> is_allowed (val ! index) then False
         else percent_encoded_from is_allowed val (index + 1))
      else True)"
  by auto
termination
  by (relation "measure (\<lambda>(_, val, index). length val - index)") auto

declare percent_encoded_from.simps [simp del]

definition is_valid_percent_encoded :: "(byte \<Rightarrow> bool) \<Rightarrow> bytes \<Rightarrow> bool" where
  "is_valid_percent_encoded is_allowed val = percent_encoded_from is_allowed val 0"

definition is_valid_uri_userinfo :: "bytes \<Rightarrow> bool" where
  "is_valid_uri_userinfo val = is_valid_percent_encoded is_uri_userinfo_literal val"

definition is_valid_uri_component :: "bytes \<Rightarrow> bool \<Rightarrow> bool \<Rightarrow> bool" where
  "is_valid_uri_component val allow_slash allow_question =
     is_valid_percent_encoded
       (\<lambda>b. is_uri_pchar b \<or> allow_slash \<and> b = 0x2f \<or> allow_question \<and> b = 0x3f) val"

definition is_valid_reg_name :: "bytes \<Rightarrow> bool" where
  "is_valid_reg_name val \<longleftrightarrow> val \<noteq> [] \<and> is_valid_percent_encoded reg_name_char_table val"

text \<open>A percent-encoded text has no malformed escape, and its literal bytes are allowed.\<close>

lemma percent_encoded_from:
  "index \<le> length val \<Longrightarrow> percent_encoded_from is_allowed val index \<Longrightarrow> - 1 \<notin> set (units (drop index val))"
proof (induction is_allowed val index rule: percent_encoded_from.induct)
  case (1 is_allowed val index)
  show ?case
  proof (cases "index < length val")
    case True
    obtain u i' where u: "next_uri_path_unit val index = (u, i')" by fastforce
    note cases = uri_unit_cases [OF True u]
    have rec: "percent_encoded_from is_allowed val i' \<and> u \<noteq> - 1"
    proof -
      have "0 \<le> uint b" for b :: byte by simp
      then have nonneg: "uint b \<noteq> - 1" for b :: byte by (metis neg_0_le_iff_le not_one_le_zero)
      have three: "index + 3 = Suc (Suc (Suc index))" by simp
      show ?thesis using "1.prems"(2) True u nonneg
        by (subst (asm) percent_encoded_from.simps)
          (auto simp: next_uri_path_unit_def Let_def uri_path_separator_unit_def three split: if_splits option.splits)
    qed
    have "- 1 \<notin> set (units (drop i' val))"
    proof (cases "val ! index = 0x25")
      case percent: True
      have ok: "http_try_decode_percent_byte val index \<noteq> None"
        using "1.prems"(2) True percent by (subst (asm) percent_encoded_from.simps) (auto split: if_splits)
      then have "i' = index + 2 + 1"
        using u percent by (auto simp: next_uri_path_unit_def Let_def split: option.splits)
      then show ?thesis using "1.IH"(1) [OF True percent ok] cases(3) rec by simp
    next
      case False
      have ok: "\<not> \<not> is_allowed (val ! index)"
        using "1.prems"(2) True False by (subst (asm) percent_encoded_from.simps) (auto split: if_splits)
      have "i' = index + 1"
        using u False by (auto simp: next_uri_path_unit_def Let_def split: if_splits)
      then show ?thesis using "1.IH"(2) [OF True False ok] cases(3) rec by simp
    qed
    then show ?thesis using cases(1) rec by auto
  qed simp
qed

lemma uri_component_well_formed: "is_valid_uri_component val s q \<Longrightarrow> well_escaped val"
  using percent_encoded_from [of 0 val] by (simp add: is_valid_uri_component_def is_valid_percent_encoded_def well_escaped_def)

subsection \<open>Hosts, ports and IP literals\<close>

definition is_valid_uri_port :: "bytes \<Rightarrow> bool" where
  "is_valid_uri_port val = list_all is_decimal_digit val"

text \<open>The result is host, port and whether there is a port; \<open>None\<close> is the failed split.\<close>

definition split_uri_host_port :: "bytes \<Rightarrow> (bytes \<times> bytes \<times> bool) option" where
  "split_uri_host_port val =
     (if val \<noteq> [] \<and> hd val = 0x5b then
        (case find_byte 0x5d val of
           None \<Rightarrow> None
         | Some close \<Rightarrow>
             (let host = substr val 0 (close + 1); remainder = drop (close + 1) val in
              if remainder = [] then Some (host, [], False)
              else if hd remainder \<noteq> 0x3a then None
              else Some (host, drop 1 remainder, True)))
      else (case find_byte 0x3a val of
          None \<Rightarrow> Some (val, [], False)
        | Some delimiter \<Rightarrow>
            (let host = substr val 0 delimiter; port = drop (delimiter + 1) val in
             if find_byte 0x3a port = None then Some (host, port, True) else None)))"

datatype errc = Invalid_argument | Result_out_of_range

definition decimal_value :: "bytes \<Rightarrow> nat" where
  "decimal_value ds = foldl (\<lambda>n d. n * 10 + (unat d - 0x30)) 0 ds"

text \<open>\<open>std::from_chars\<close> reads the longest run of digits; the value must fit sixteen bits.\<close>

definition parse_port_value :: "bytes \<Rightarrow> errc + u16" where
  "parse_port_value val =
     (if val = [] then Inl Invalid_argument
      else let digits = takeWhile is_decimal_digit val in
        if digits = [] then Inl Invalid_argument
        else if decimal_value digits > 65535 then Inl Result_out_of_range
        else if length digits \<noteq> length val then Inl Invalid_argument
        else Inr (word_of_nat (decimal_value digits)))"

function ipv4_octet :: "bytes \<Rightarrow> nat \<Rightarrow> nat \<Rightarrow> nat \<Rightarrow> (nat \<times> nat \<times> nat) option" where
  "ipv4_octet val offset octet digits =
     (if offset < length val \<and> is_decimal_digit (val ! offset) then
        let octet = octet * 10 + (unat (val ! offset) - 0x30); digits = digits + 1 in
        if digits > 3 \<or> octet > 255 then None else ipv4_octet val (offset + 1) octet digits
      else Some (offset, octet, digits))"
  by auto
termination
  by (relation "measure (\<lambda>(val, offset, _). length val - offset)") auto

function ipv4_from :: "bytes \<Rightarrow> nat \<Rightarrow> byte list \<Rightarrow> byte list option" where
  "ipv4_from val offset octets =
     (if length octets \<ge> 4 then None
      else if offset \<ge> length val \<or> \<not> is_decimal_digit (val ! offset) then None
      else (case ipv4_octet val offset 0 0 of
          None \<Rightarrow> None
        | Some (offset', octet, digits) \<Rightarrow>
            if digits > 1 \<and> val ! offset = 0x30 then None
            else let octets = octets @ [word_of_nat octet] in
              if length octets = 4 then (if offset' = length val then Some octets else None)
              else if offset' \<ge> length val \<or> val ! offset' \<noteq> 0x2e then None
              else ipv4_from val (offset' + 1) octets))"
  by pat_completeness auto
termination
  by (relation "measure (\<lambda>(_, _, octets). 4 - length octets)") auto

declare ipv4_octet.simps [simp del] ipv4_from.simps [simp del]

definition parse_ipv4_address :: "bytes \<Rightarrow> byte list option" where
  "parse_ipv4_address val = ipv4_from val 0 []"

fun ipv6_hex_group :: "nat \<Rightarrow> bytes \<Rightarrow> nat \<Rightarrow> u16 \<Rightarrow> nat \<times> u16" where
  "ipv6_hex_group 0 literal offset grp = (offset, grp)"
| "ipv6_hex_group (Suc left) literal offset grp =
     (if offset < length literal then
        (case http_decode_hex_nibble (literal ! offset) of
           None \<Rightarrow> (offset, grp)
         | Some nibble \<Rightarrow> ipv6_hex_group left literal (offset + 1) (push_bit 4 grp OR word_of_nat nibble))
      else (offset, grp))"

definition parse_ipv6_hex_group :: "bytes \<Rightarrow> nat \<Rightarrow> (nat \<times> u16) option" where
  "parse_ipv6_hex_group literal offset =
     (let (offset', grp) = ipv6_hex_group 4 literal offset 0 in
      if offset' \<noteq> offset then Some (offset', grp) else None)"

lemma ipv6_hex_group_offset: "offset \<le> fst (ipv6_hex_group n literal offset grp)"
  by (induction n literal offset grp rule: ipv6_hex_group.induct) (auto split: option.split)

lemma parse_ipv6_hex_group_offset: "parse_ipv6_hex_group literal offset = Some (offset', grp) \<Longrightarrow> offset < offset'"
  using ipv6_hex_group_offset [of offset 4 literal 0]
  by (auto simp: parse_ipv6_hex_group_def split: prod.splits if_splits)

text \<open>The loop over the groups: \<open>None\<close> is the rejected literal, otherwise the groups and the compression point.\<close>

function ipv6_groups :: "bytes \<Rightarrow> nat \<Rightarrow> u16 list \<Rightarrow> nat option \<Rightarrow> (u16 list \<times> nat option) option" where
  "ipv6_groups literal offset groups compression =
     (if offset < length literal then
        if length groups = 8 then None
        else let next_dot = find_byte_from 0x2e literal offset; next_colon = find_byte_from 0x3a literal offset in
        if is_decimal_digit (literal ! offset) \<and>
           (case next_dot of None \<Rightarrow> False
            | Some d \<Rightarrow> (case next_colon of None \<Rightarrow> True | Some c \<Rightarrow> d < c)) then
          (case parse_ipv4_address (drop offset literal) of
             None \<Rightarrow> None
           | Some octets \<Rightarrow>
               if length groups > 8 - 2 then None
               else Some (groups @ [push_bit 8 (ucast (octets ! 0)) OR ucast (octets ! 1),
                                    push_bit 8 (ucast (octets ! 2)) OR ucast (octets ! 3)], compression))
        else (case parse_ipv6_hex_group literal offset of
            None \<Rightarrow> None
          | Some (offset', grp) \<Rightarrow>
              let groups = groups @ [grp] in
              if offset' = length literal then Some (groups, compression)
              else if literal ! offset' \<noteq> 0x3a then None
              else if offset' + 1 < length literal \<and> literal ! (offset' + 1) = 0x3a then
                if compression \<noteq> None then None
                else ipv6_groups literal (offset' + 2) groups (Some (length groups))
              else if offset' + 1 = length literal then None
              else ipv6_groups literal (offset' + 1) groups compression)
      else Some (groups, compression))"
  by pat_completeness auto
termination
  by (relation "measure (\<lambda>(literal, offset, _). length literal - offset)")
    (auto dest!: sym [of "Some _"] parse_ipv6_hex_group_offset)

declare ipv6_groups.simps [simp del]

definition parse_ipv6_address :: "bytes \<Rightarrow> u16 list option" where
  "parse_ipv6_address literal =
     (if literal = [] then None
      else let (offset, compression) = (if take 2 literal = [0x3a, 0x3a] then (2, Some 0) else (0, None)) in
        (case ipv6_groups literal offset [] compression of
           None \<Rightarrow> None
         | Some (groups, None) \<Rightarrow> if length groups = 8 then Some groups else None
         | Some (groups, Some at) \<Rightarrow>
             if length groups \<ge> 8 \<or> at > length groups then None
             else Some (take at groups @ replicate (8 - length groups) 0 @ drop at groups)))"

definition is_valid_ipv_future :: "bytes \<Rightarrow> bool" where
  "is_valid_ipv_future literal =
     (if length literal < 4 \<or> hd literal \<noteq> 0x76 \<and> hd literal \<noteq> 0x56 then False
      else let cursor_value = 1 + length (takeWhile (\<lambda>c. http_decode_hex_nibble c \<noteq> None) (drop 1 literal)) in
        if cursor_value = 1 \<or> cursor_value \<ge> length literal \<or> literal ! cursor_value \<noteq> 0x2e then False
        else let cursor_value = cursor_value + 1 in
          if cursor_value = length literal then False
          else list_all is_uri_userinfo_literal (drop cursor_value literal))"

fun dns_labels :: "bytes \<Rightarrow> nat \<Rightarrow> bool \<Rightarrow> bool" where
  "dns_labels [] label_length label_ends_with_alnum \<longleftrightarrow> label_length \<noteq> 0 \<and> label_ends_with_alnum"
| "dns_labels (c # name) label_length label_ends_with_alnum \<longleftrightarrow>
     (let alnum = (0x61 \<le> c \<and> c \<le> 0x7a \<or> 0x41 \<le> c \<and> c \<le> 0x5a \<or> 0x30 \<le> c \<and> c \<le> 0x39) in
      if c = 0x2e then
        (if label_length = 0 \<or> \<not> label_ends_with_alnum then False else dns_labels name 0 False)
      else if \<not> alnum \<and> c \<noteq> 0x2d \<or> label_length = 63 \<or> label_length = 0 \<and> \<not> alnum then False
      else dns_labels name (label_length + 1) alnum)"

definition is_valid_dns_domain_name :: "bytes \<Rightarrow> bool" where
  "is_valid_dns_domain_name name = (if name = [] \<or> length name > 253 then False else dns_labels name 0 False)"

end
