(* ===== verification/Request_Target.thy ===== *)
theory Request_Target
  imports Uri_Grammar
begin

text \<open>
  Methods (\<open>http_method.cpp\<close>, \<open>http_known_method.h\<close>) and the four forms of a request target
  (\<open>http_request_target.cpp\<close>, \<open>http_request_authority.cpp\<close>): validation and split of the target, authorities,
  hosts and their equality.
\<close>

subsection \<open>Methods\<close>

datatype http_known_method = Get | Post | Put | Delete_value | Patch | Head | Options | Connect | Unknown

definition method_index :: "http_known_method \<Rightarrow> nat" where
  "method_index m = (case m of Get \<Rightarrow> 0 | Post \<Rightarrow> 1 | Put \<Rightarrow> 2 | Delete_value \<Rightarrow> 3 | Patch \<Rightarrow> 4 | Head \<Rightarrow> 5
     | Options \<Rightarrow> 6 | Connect \<Rightarrow> 7 | Unknown \<Rightarrow> 8)"

definition classify_http_method :: "bytes \<Rightarrow> http_known_method" where
  "classify_http_method m =
     (if length m = 3 \<and> m = ascii ''GET'' then Get
      else if length m = 3 \<and> m = ascii ''PUT'' then Put
      else if length m = 4 \<and> m = ascii ''POST'' then Post
      else if length m = 4 \<and> m = ascii ''HEAD'' then Head
      else if length m = 5 \<and> m = ascii ''PATCH'' then Patch
      else if length m = 6 \<and> m = ascii ''DELETE'' then Delete_value
      else if length m = 7 \<and> m = ascii ''OPTIONS'' then Options
      else if length m = 7 \<and> m = ascii ''CONNECT'' then Connect
      else Unknown)"

definition known_http_method_token :: "http_known_method \<Rightarrow> bytes" where
  "known_http_method_token m = (case m of Get \<Rightarrow> ascii ''GET'' | Post \<Rightarrow> ascii ''POST'' | Put \<Rightarrow> ascii ''PUT''
     | Delete_value \<Rightarrow> ascii ''DELETE'' | Patch \<Rightarrow> ascii ''PATCH'' | Head \<Rightarrow> ascii ''HEAD''
     | Options \<Rightarrow> ascii ''OPTIONS'' | Connect \<Rightarrow> ascii ''CONNECT'' | Unknown \<Rightarrow> [])"

definition is_valid_http_method_token :: "bytes \<Rightarrow> bool" where
  "is_valid_http_method_token m = is_valid_http_header_name m"

definition is_http_method_safe :: "bytes \<Rightarrow> bool" where
  "is_http_method_safe m \<longleftrightarrow> m = ascii ''GET'' \<or> m = ascii ''HEAD'' \<or> m = ascii ''OPTIONS'' \<or> m = ascii ''TRACE''"

definition is_http_method_idempotent :: "bytes \<Rightarrow> bool" where
  "is_http_method_idempotent m \<longleftrightarrow> is_http_method_safe m \<or> m = ascii ''PUT'' \<or> m = ascii ''DELETE''"

lemma method_index_inj: "method_index m = method_index n \<longleftrightarrow> m = n"
  by (cases m; cases n) (simp_all add: method_index_def)

lemma classify_token: "classify_http_method (known_http_method_token m) = m"
  by (cases m) (simp_all add: classify_http_method_def known_http_method_token_def word_eq_iff_unsigned)

subsection \<open>Hosts and authorities\<close>

definition is_valid_http_host :: "bytes \<Rightarrow> bool" where
  "is_valid_http_host val =
     (if val = [] then False
      else if hd val = 0x5b then
        (if length val < 3 \<or> last val \<noteq> 0x5d then False
         else let literal = substr val 1 (length val - 2) in
           parse_ipv6_address literal \<noteq> None \<or> is_valid_ipv_future literal)
      else find_byte 0x3a val = None \<and> is_valid_reg_name val)"

datatype http_authority_port_kind = Absent | Empty_port | Port_value

record http_authority_view =
  au_host :: bytes
  au_port_kind :: http_authority_port_kind
  au_port :: u16

definition authority_port :: "http_authority_view \<Rightarrow> u16 option" where
  "authority_port a = (if au_port_kind a = Port_value then Some (au_port a) else None)"

definition effective_port :: "http_authority_view \<Rightarrow> u16 \<Rightarrow> u16" where
  "effective_port a default_port = (if au_port_kind a = Port_value then au_port a else default_port)"

definition parse_http_authority :: "bytes \<Rightarrow> http_authority_view option" where
  "parse_http_authority val =
     (if val = [] then None
      else (case split_uri_host_port val of
          None \<Rightarrow> None
        | Some (host, port_text, has_port_delimiter) \<Rightarrow>
            if \<not> is_valid_http_host host then None
            else if \<not> has_port_delimiter then Some \<lparr>au_host = host, au_port_kind = Absent, au_port = 0\<rparr>
            else if port_text = [] then Some \<lparr>au_host = host, au_port_kind = Empty_port, au_port = 0\<rparr>
            else (case parse_port_value port_text of
                Inl _ \<Rightarrow> None
              | Inr port \<Rightarrow> Some \<lparr>au_host = host, au_port_kind = Port_value, au_port = port\<rparr>)))"

definition parse_http_authority_host :: "bytes \<Rightarrow> bytes option" where
  "parse_http_authority_host val =
     (if val = [] then Some val else map_option au_host (parse_http_authority val))"

text \<open>One host unit: the byte, whether it is an encoded reserved one, and the next position.\<close>

definition next_normalized_host_unit :: "bytes \<Rightarrow> nat \<Rightarrow> ((byte \<times> bool) \<times> nat) option" where
  "next_normalized_host_unit val cursor =
     (if cursor \<ge> length val then None
      else let b = val ! cursor in
        (case (if b = 0x25 then http_try_decode_percent_byte val cursor else None) of
           Some decoded \<Rightarrow>
             (let encoded_reserved = \<not> is_unreserved_byte decoded in
              Some ((if encoded_reserved then decoded else http_ascii_to_lower decoded, encoded_reserved), cursor + 3))
         | None \<Rightarrow> Some ((http_ascii_to_lower b, False), cursor + 1)))"

lemma next_host_unit_progress: "next_normalized_host_unit val cursor = Some (u, c) \<Longrightarrow> cursor < c \<and> cursor < length val"
  by (auto simp: next_normalized_host_unit_def Let_def split: if_splits option.splits)

function host_units_equal :: "bytes \<Rightarrow> nat \<Rightarrow> bytes \<Rightarrow> nat \<Rightarrow> bool" where
  "host_units_equal left i right j =
     (case (next_normalized_host_unit left i, next_normalized_host_unit right j) of
        (Some (u, i'), Some (v, j')) \<Rightarrow> if u \<noteq> v then False else host_units_equal left i' right j'
      | (has_left, has_right) \<Rightarrow> (has_left \<noteq> None) = (has_right \<noteq> None))"
  by pat_completeness auto
termination
  by (relation "measure (\<lambda>(left, i, _). length left - i)")
    (auto dest!: sym [of "Some _"] next_host_unit_progress)

declare host_units_equal.simps [simp del]

definition http_uri_host_equals :: "bytes \<Rightarrow> bytes \<Rightarrow> bool" where
  "http_uri_host_equals left right =
     (if left = right then True
      else let literals = length left > 2 \<and> length right > 2 \<and> hd left = 0x5b \<and> hd right = 0x5b;
          left_address = parse_ipv6_address (substr left 1 (length left - 2));
          right_address = parse_ipv6_address (substr right 1 (length right - 2)) in
        if literals \<and> (left_address \<noteq> None \<or> right_address \<noteq> None) then
          left_address \<noteq> None \<and> right_address \<noteq> None \<and> left_address = right_address
        else host_units_equal left 0 right 0)"

definition authority_matches_host :: "bytes \<Rightarrow> bytes \<Rightarrow> u16 \<Rightarrow> bool" where
  "authority_matches_host authority host default_port =
     (case (parse_http_authority authority, parse_http_authority host) of
        (Some a, Some h) \<Rightarrow>
          if \<not> http_uri_host_equals (au_host a) (au_host h) then False
          else if default_port = 0 then
            (let authority_has_port = au_port_kind a = Port_value; host_has_port = au_port_kind h = Port_value in
             if authority_has_port \<noteq> host_has_port then False
             else \<not> authority_has_port \<or> authority_port a = authority_port h)
          else effective_port a default_port = effective_port h default_port
      | _ \<Rightarrow> False)"

definition is_valid_connect_authority_form :: "bytes \<Rightarrow> bool" where
  "is_valid_connect_authority_form target =
     (case parse_http_authority target of
        None \<Rightarrow> False
      | Some a \<Rightarrow> if au_port_kind a \<noteq> Port_value then False else authority_port a \<noteq> Some 0)"

definition is_valid_uri_authority :: "bytes \<Rightarrow> bool" where
  "is_valid_uri_authority val =
     (let at = find_byte 0x40 val;
          host_and_port = (case at of None \<Rightarrow> val | Some d \<Rightarrow> drop (d + 1) val) in
      if (case at of None \<Rightarrow> False
          | Some d \<Rightarrow> \<not> is_valid_uri_userinfo (substr val 0 d) \<or> find_byte_from 0x40 val (d + 1) \<noteq> None) then False
      else (case split_uri_host_port host_and_port of
          None \<Rightarrow> False
        | Some (host, port, has_port) \<Rightarrow>
            (host = [] \<or> is_valid_http_host host) \<and> (\<not> has_port \<or> is_valid_uri_port port)))"

definition is_valid_host_header :: "bytes \<Rightarrow> bool" where
  "is_valid_host_header val \<longleftrightarrow> val = [] \<or> parse_http_authority val \<noteq> None"

subsection \<open>Request targets\<close>

function request_target_bytes_from :: "bytes \<Rightarrow> nat \<Rightarrow> bool" where
  "request_target_bytes_from target i =
     (if i < length target then
        (let b = target ! i in
         if b = 0x25 then
           (if http_try_decode_percent_byte target i = None then False
            else request_target_bytes_from target (i + 2 + 1))
         else if \<not> is_uri_pchar b \<and> b \<noteq> 0x2f \<and> b \<noteq> 0x3f \<and> b \<noteq> 0x5b \<and> b \<noteq> 0x5d then False
         else request_target_bytes_from target (i + 1))
      else True)"
  by auto
termination
  by (relation "measure (\<lambda>(target, i). length target - i)") auto

declare request_target_bytes_from.simps [simp del]

definition is_valid_request_target_bytes :: "bytes \<Rightarrow> bool" where
  "is_valid_request_target_bytes target = (if target = [] then False else request_target_bytes_from target 0)"

definition split_origin_form_target :: "bytes \<Rightarrow> (bytes \<times> bytes) option" where
  "split_origin_form_target target =
     (if target = [] \<or> hd target \<noteq> 0x2f then None
      else let separator = find_byte 0x3f target;
          path = (case separator of None \<Rightarrow> target | Some i \<Rightarrow> substr target 0 i);
          query = (case separator of None \<Rightarrow> [] | Some i \<Rightarrow> drop (i + 1) target) in
        if is_valid_uri_component path True False \<and> is_valid_uri_component query True True then Some (path, query)
        else None)"

definition is_valid_origin_form_target :: "bytes \<Rightarrow> bool" where
  "is_valid_origin_form_target target \<longleftrightarrow> split_origin_form_target target \<noteq> None"

definition is_valid_origin_or_asterisk_form_target :: "http_known_method \<Rightarrow> bytes \<Rightarrow> bool" where
  "is_valid_origin_or_asterisk_form_target m target =
     (if target = [0x2a] then m = Options else is_valid_origin_form_target target)"

definition is_alpha_byte :: "byte \<Rightarrow> bool" where
  "is_alpha_byte b \<longleftrightarrow> 0x41 \<le> b \<and> b \<le> 0x5a \<or> 0x61 \<le> b \<and> b \<le> 0x7a"

definition is_valid_uri_scheme :: "bytes \<Rightarrow> bool" where
  "is_valid_uri_scheme val =
     (if val = [] \<or> \<not> is_alpha_byte (hd val) then False
      else list_all (\<lambda>b. is_alpha_byte b \<or> 0x30 \<le> b \<and> b \<le> 0x39 \<or> b = 0x2b \<or> b = 0x2d \<or> b = 0x2e) (drop 1 val))"

datatype http_request_target_form = Origin_form | Absolute_form | Authority_form | Asterisk_form

record request_target_view =
  rt_scheme :: bytes
  rt_path :: bytes
  rt_query :: bytes
  rt_authority :: bytes
  rt_form :: http_request_target_form

definition parse_absolute_target :: "http_known_method \<Rightarrow> bytes \<Rightarrow> request_target_view option" where
  "parse_absolute_target m target =
     (case find_byte 0x3a target of
        None \<Rightarrow> None
      | Some scheme_end \<Rightarrow>
          (let scheme = substr target 0 scheme_end in
           if \<not> http_ascii_equals_ignore_case scheme (ascii ''http'') \<and>
              \<not> http_ascii_equals_ignore_case scheme (ascii ''https'') then None
           else let remainder = drop (scheme_end + 1) target;
               query_separator = find_byte 0x3f remainder;
               hierarchy = (case query_separator of None \<Rightarrow> remainder | Some i \<Rightarrow> substr remainder 0 i);
               query = (case query_separator of None \<Rightarrow> [] | Some i \<Rightarrow> drop (i + 1) remainder) in
             if take 2 hierarchy \<noteq> [0x2f, 0x2f] \<or> \<not> is_valid_uri_component query True True then None
             else let authority_and_path = drop 2 hierarchy;
                 path_separator = find_byte 0x2f authority_and_path;
                 authority = (case path_separator of None \<Rightarrow> authority_and_path | Some i \<Rightarrow> substr authority_and_path 0 i);
                 path = (case path_separator of None \<Rightarrow> [] | Some i \<Rightarrow> drop i authority_and_path) in
               if authority = [] \<or> \<not> is_valid_host_header authority \<or> \<not> is_valid_uri_component path True False then None
               else Some \<lparr>rt_scheme = scheme,
                   rt_path = (if path = [] \<and> m = Options \<and> query_separator = None then [0x2a]
                     else if path = [] then [0x2f] else path),
                   rt_query = query, rt_authority = authority, rt_form = Absolute_form\<rparr>))"

definition parse_request_target :: "http_known_method \<Rightarrow> bytes \<Rightarrow> request_target_view option" where
  "parse_request_target m target =
     (if target = [0x2a] then
        (if m \<noteq> Options then None
         else Some \<lparr>rt_scheme = [], rt_path = [0x2a], rt_query = [], rt_authority = [], rt_form = Asterisk_form\<rparr>)
      else if m = Connect then
        (if \<not> is_valid_connect_authority_form target then None
         else Some \<lparr>rt_scheme = [], rt_path = target, rt_query = [], rt_authority = target, rt_form = Authority_form\<rparr>)
      else if target = [] then None
      else if hd target = 0x2f then
        (case split_origin_form_target target of
           None \<Rightarrow> None
         | Some (path, query) \<Rightarrow>
             Some \<lparr>rt_scheme = [], rt_path = path, rt_query = query, rt_authority = [], rt_form = Origin_form\<rparr>)
      else if \<not> is_valid_request_target_bytes target then None
      else parse_absolute_target m target)"

definition is_valid_http_connect_authority :: "bytes \<Rightarrow> bool" where
  "is_valid_http_connect_authority authority \<longleftrightarrow> parse_request_target Connect authority \<noteq> None"

definition http_uri_scheme_default_port :: "bytes \<Rightarrow> u16" where
  "http_uri_scheme_default_port scheme =
     (if http_ascii_equals_ignore_case scheme (ascii ''https'') then 443
      else if http_ascii_equals_ignore_case scheme (ascii ''http'') then 80 else 0)"

end
