(* ===== verification/Route_Index.thy ===== *)
theory Route_Index
  imports Route_Patterns Request_Target
begin

text \<open>
  Routes and the index of the static ones (\<open>route_entry.h\<close>, \<open>router_index.cpp\<close>, \<open>router_index_build.cpp\<close>): the hash of
  a path, which every spelling of the path shares, the open-addressed table of slots, and the probe that looks a
  method and a path up.
\<close>

subsection \<open>Routes\<close>

datatype route_endpoint = Buffered | Response_stream | Websocket | Tunnel (tunnel_protocol: bytes)

record route_entry =
  re_index :: nat
  re_method :: http_known_method
  re_method_token :: bytes
  re_path :: bytes
  re_endpoint :: route_endpoint
  re_dynamic :: bool
  re_param_names :: "bytes list"

definition is_tunnel :: "route_endpoint \<Rightarrow> bool" where
  "is_tunnel e = (case e of Tunnel _ \<Rightarrow> True | _ \<Rightarrow> False)"

definition routable_method_count :: nat where
  "routable_method_count = 7"

definition is_routable_method :: "http_known_method \<Rightarrow> bool" where
  "is_routable_method m \<longleftrightarrow> method_index m < routable_method_count"

definition supports_head_fallback :: "route_entry \<Rightarrow> bool" where
  "supports_head_fallback route \<longleftrightarrow>
     re_method route = Get \<and> (re_endpoint route = Buffered \<or> re_endpoint route = Response_stream)"

subsection \<open>Hashing\<close>

definition fnv1a_offset_basis :: u64 where
  "fnv1a_offset_basis = 14695981039346656037"

definition fnv1a_prime :: u64 where
  "fnv1a_prime = 1099511628211"

function path_hash_from :: "bytes \<Rightarrow> nat \<Rightarrow> u64 \<Rightarrow> u64" where
  "path_hash_from path i hash =
     (if i < length path then
        (let (u, i') = (if path ! i = 0x25 then next_uri_path_unit path i else (uint (path ! i), i + 1)) in
         path_hash_from path i' ((hash XOR ucast (word_of_int u :: byte)) * fnv1a_prime))
      else hash)"
  by auto
termination
  by (relation "measure (\<lambda>(path, i, _). length path - i)") (auto dest: next_unit_index split: if_splits)

declare path_hash_from.simps [simp del]

definition fmix64 :: "u64 \<Rightarrow> u64" where
  "fmix64 hash =
     (let hash = hash XOR drop_bit 33 hash;
          hash = hash * 0xff51afd7ed558ccd;
          hash = hash XOR drop_bit 33 hash;
          hash = hash * 0xc4ceb9fe1a85ec53 in
      hash XOR drop_bit 33 hash)"

definition path_hash :: "bytes \<Rightarrow> u64" where
  "path_hash path = fmix64 (path_hash_from path 0 fnv1a_offset_basis)"

definition route_hash :: "http_known_method \<Rightarrow> u64 \<Rightarrow> u64" where
  "route_hash m hash = hash XOR (word_of_nat (method_index m) * fnv1a_prime)"

text \<open>Both spellings of a unit feed the same byte to the hash.\<close>

definition hash_unit :: "u64 \<Rightarrow> int \<Rightarrow> u64" where
  "hash_unit hash u = (hash XOR ucast (word_of_int (if u = 0x100 then 0x2f else u) :: byte)) * fnv1a_prime"

lemma path_hash_from_units:
  "i \<le> length path \<Longrightarrow> path_hash_from path i hash = foldl hash_unit hash (units (drop i path))"
proof (induction "length path - i" arbitrary: i hash rule: less_induct)
  case less
  show ?case
  proof (cases "i = length path")
    case True
    then show ?thesis by (simp add: path_hash_from.simps)
  next
    case False
    then have i: "i < length path" using less.prems by simp
    obtain u i' where u: "next_uri_path_unit path i = (u, i')" by fastforce
    note cases = uri_unit_cases [OF i u]
    have byte: "uint b \<noteq> 0x100" for b :: byte using uint_lt2p [of b] by simp
    have "path_hash_from path i hash = path_hash_from path i' (hash_unit hash u)"
    proof (cases "path ! i = 0x25")
      case True
      then have "u \<noteq> 0x100" using u byte by (auto simp: next_uri_path_unit_def Let_def split: option.splits)
      then show ?thesis using i True u by (subst path_hash_from.simps) (simp add: hash_unit_def)
    next
      case plain: False
      show ?thesis
      proof (cases "path ! i = 0x2f")
        case True
        then have "u = 0x100" "i' = i + 1"
          using u by (simp_all add: next_uri_path_unit_def uri_path_separator_unit_def)
        then show ?thesis using i True by (subst path_hash_from.simps) (simp add: hash_unit_def)
      next
        case False
        then have "u = uint (path ! i)" "i' = i + 1" using u plain by (simp_all add: next_uri_path_unit_def)
        then show ?thesis using i plain byte by (subst path_hash_from.simps) (simp add: hash_unit_def)
      qed
    qed
    then show ?thesis using less.hyps [of i'] cases i by simp
  qed
qed

lemma path_hash_units: "path_hash path = fmix64 (foldl hash_unit fnv1a_offset_basis (units path))"
  using path_hash_from_units [of 0 path] by (simp add: path_hash_def)

lemma path_hash_equivalent: "uri_paths_equivalent left right \<Longrightarrow> path_hash left = path_hash right"
  by (simp add: path_hash_units uri_paths_equivalent_units)

subsection \<open>The table of slots\<close>

record static_slot =
  slot_hash :: u64
  slot_route :: "nat option"

definition empty_static_slot :: static_slot where
  "empty_static_slot = \<lparr>slot_hash = 0, slot_route = None\<rparr>"

function bit_ceil_from :: "nat \<Rightarrow> nat \<Rightarrow> nat" where
  "bit_ceil_from n p = (if p = 0 \<or> n \<le> p then p else bit_ceil_from n (2 * p))"
  by auto
termination
  by (relation "measure (\<lambda>(n, p). n - p)") auto

declare bit_ceil_from.simps [simp del]

definition bit_ceil :: "nat \<Rightarrow> nat" where
  "bit_ceil n = bit_ceil_from n 1"

text \<open>
  The loop \<open>while (slots[i] is occupied) i = (i + 1) & slot_mask\<close> and the probe of a lookup: a \<open>None\<close> is a loop that
  does not end.
\<close>

partial_function (option) first_empty_slot :: "static_slot list \<Rightarrow> nat \<Rightarrow> nat \<Rightarrow> nat option" where
  "first_empty_slot slots slot_mask i =
     (if slot_route (slots ! i) = None then Some i else first_empty_slot slots slot_mask ((i + 1) AND slot_mask))"

definition is_indexed :: "route_entry \<Rightarrow> bool" where
  "is_indexed route \<longleftrightarrow> \<not> re_dynamic route \<and> is_routable_method (re_method route)"

definition insert_static :: "nat \<Rightarrow> static_slot list \<Rightarrow> route_entry \<Rightarrow> static_slot list option" where
  "insert_static slot_mask slots route =
     (if \<not> is_indexed route then Some slots
      else let hash = route_hash (re_method route) (path_hash (re_path route)) in
        map_option (\<lambda>i. slots [i := \<lparr>slot_hash = hash, slot_route = Some (re_index route)\<rparr>])
          (first_empty_slot slots slot_mask (unat hash AND slot_mask)))"

fun insert_all_static :: "nat \<Rightarrow> static_slot list \<Rightarrow> route_entry list \<Rightarrow> static_slot list option" where
  "insert_all_static slot_mask slots [] = Some slots"
| "insert_all_static slot_mask slots (route # routes) =
     (case insert_static slot_mask slots route of
        None \<Rightarrow> None | Some slots \<Rightarrow> insert_all_static slot_mask slots routes)"

text \<open>The slots and the slot_mask; the length error needs more routes than an address space holds.\<close>

definition build_static_index :: "route_entry list \<Rightarrow> (static_slot list \<times> nat) option" where
  "build_static_index routes =
     (let route_count = length (filter is_indexed routes) in
      if route_count = 0 then Some ([], 0)
      else let slots = replicate (bit_ceil (route_count * 2)) empty_static_slot; slot_mask = length slots - 1 in
        map_option (\<lambda>slots. (slots, slot_mask)) (insert_all_static slot_mask slots routes))"

definition slot_matches :: "route_entry list \<Rightarrow> http_known_method \<Rightarrow> bytes \<Rightarrow> u64 \<Rightarrow> static_slot \<Rightarrow> bool" where
  "slot_matches routes m path key_hash slot \<longleftrightarrow>
     (case slot_route slot of
        None \<Rightarrow> False
      | Some r \<Rightarrow> slot_hash slot = key_hash \<and> re_method (routes ! r) = m \<and>
          (re_path (routes ! r) = path \<or> uri_paths_equivalent (re_path (routes ! r)) path))"

partial_function (option) find_static_from ::
  "route_entry list \<Rightarrow> static_slot list \<Rightarrow> nat \<Rightarrow> http_known_method \<Rightarrow> bytes \<Rightarrow> u64 \<Rightarrow> nat \<Rightarrow> nat option option" where
  "find_static_from routes slots slot_mask m path key_hash i =
     (if slot_route (slots ! i) = None then Some None
      else if slot_matches routes m path key_hash (slots ! i) then Some (slot_route (slots ! i))
      else find_static_from routes slots slot_mask m path key_hash ((i + 1) AND slot_mask))"

definition find_static_route ::
  "route_entry list \<Rightarrow> static_slot list \<times> nat \<Rightarrow> http_known_method \<Rightarrow> bytes \<Rightarrow> u64 \<Rightarrow> nat option option" where
  "find_static_route routes index m path hash =
     (let key_hash = route_hash m hash in
      find_static_from routes (fst index) (snd index) m path key_hash (unat key_hash AND snd index))"

text \<open>Evaluation masks the hash as a binary integer.\<close>

lemma unat_and: "unat hash AND n = nat (uint hash AND int n)" for hash :: u64
  by (metis nat_int of_nat_and_eq of_nat_unat)

lemmas insert_static_code [code] = insert_static_def [unfolded unat_and]

lemmas find_static_route_code [code] = find_static_route_def [unfolded unat_and]

declare first_empty_slot.simps [code] find_static_from.simps [code]

subsection \<open>Probing a power-of-two table\<close>

lemma and_mask_mod: "n AND (2 ^ k - 1) = n mod 2 ^ k" "n AND (2 ^ k - Suc 0) = n mod 2 ^ k" for n :: nat
  using take_bit_eq_mask [of k n] by (simp_all add: take_bit_eq_mod mask_eq_exp_minus_1)

lemma bit_ceil_from_power: "\<exists>k. bit_ceil_from n (2 ^ j) = 2 ^ k"
proof (induction "n - 2 ^ j" arbitrary: j rule: less_induct)
  case less
  show ?case
  proof (cases "n \<le> 2 ^ j")
    case True
    then show ?thesis by (subst bit_ceil_from.simps) auto
  next
    case False
    have "n - 2 ^ Suc j < n - 2 ^ j" using False by (intro diff_less_mono2) auto
    then show ?thesis using less [of "Suc j"] False by (subst bit_ceil_from.simps) simp
  qed
qed

lemma bit_ceil_from_ge: "0 < p \<Longrightarrow> n \<le> bit_ceil_from n p"
  by (induction n p rule: bit_ceil_from.induct) (subst bit_ceil_from.simps, auto)

lemma bit_ceil: "\<exists>k. bit_ceil n = 2 ^ k" "n \<le> bit_ceil n"
  using bit_ceil_from_power [of n 0] bit_ceil_from_ge [of 1 n] by (simp_all add: bit_ceil_def)

lemma first_distance:
  fixes n :: nat
  assumes "P e" "e < n" "i < n"
  shows "\<exists>d < n. P ((i + d) mod n) \<and> (\<forall>d' < d. \<not> P ((i + d') mod n))"
proof -
  define Q where "Q = (\<lambda>d. P ((i + d) mod n))"
  have "(i + (e + n - i) mod n) mod n = e" using assms(2,3) by (simp add: mod_simps)
  then have Q: "Q ((e + n - i) mod n)" using assms(1) by (simp add: Q_def)
  then have "Q (LEAST d. Q d)" "\<forall>d' < (LEAST d. Q d). \<not> Q d'" by (auto intro: LeastI dest: not_less_Least)
  moreover have "(e + n - i) mod n < n" using assms(2) by simp
  then have "(LEAST d. Q d) < n" using Least_le [of Q, OF Q] by linarith
  ultimately show ?thesis unfolding Q_def by blast
qed

lemma first_empty_slot_walk:
  assumes "\<forall>d' < d. slot_route (slots ! ((i + d') mod 2 ^ k)) \<noteq> None"
    and "slot_route (slots ! ((i + d) mod 2 ^ k)) = None"
  shows "first_empty_slot slots (2 ^ k - 1) (i mod 2 ^ k) = Some ((i + d) mod 2 ^ k)"
  using assms
proof (induction d arbitrary: i)
  case 0
  then show ?case by (subst first_empty_slot.simps) simp
next
  case (Suc d)
  have step: "Suc (i mod 2 ^ k) mod 2 ^ k = Suc i mod 2 ^ k" by (simp add: mod_Suc_eq)
  have "slot_route (slots ! (i mod 2 ^ k)) \<noteq> None" using Suc.prems(1) by (metis add.right_neutral zero_less_Suc)
  moreover have "\<forall>d' < d. slot_route (slots ! ((Suc i + d') mod 2 ^ k)) \<noteq> None"
    using Suc.prems(1) by (metis Suc_less_eq add_Suc add_Suc_right)
  moreover have "slot_route (slots ! ((Suc i + d) mod 2 ^ k)) = None" using Suc.prems(2) by simp
  ultimately show ?case
    using Suc.IH [of "Suc i"] step by (subst first_empty_slot.simps) (auto simp: and_mask_mod)
qed

lemma find_static_walk:
  assumes "\<forall>d' < d. slot_route (slots ! ((i + d') mod 2 ^ k)) \<noteq> None \<and>
      \<not> slot_matches routes m path key_hash (slots ! ((i + d') mod 2 ^ k))"
    and "slot_route (slots ! ((i + d) mod 2 ^ k)) = None \<or> slot_matches routes m path key_hash (slots ! ((i + d) mod 2 ^ k))"
  shows "find_static_from routes slots (2 ^ k - 1) m path key_hash (i mod 2 ^ k) =
    Some (slot_route (slots ! ((i + d) mod 2 ^ k)))"
  using assms
proof (induction d arbitrary: i)
  case 0
  then show ?case by (subst find_static_from.simps) auto
next
  case (Suc d)
  have step: "Suc (i mod 2 ^ k) mod 2 ^ k = Suc i mod 2 ^ k" by (simp add: mod_Suc_eq)
  have "slot_route (slots ! (i mod 2 ^ k)) \<noteq> None \<and> \<not> slot_matches routes m path key_hash (slots ! (i mod 2 ^ k))"
    using Suc.prems(1) by (metis add.right_neutral zero_less_Suc)
  moreover have "\<forall>d' < d. slot_route (slots ! ((Suc i + d') mod 2 ^ k)) \<noteq> None \<and>
      \<not> slot_matches routes m path key_hash (slots ! ((Suc i + d') mod 2 ^ k))"
    using Suc.prems(1) by (metis Suc_less_eq add_Suc add_Suc_right)
  ultimately show ?case
    using Suc.IH [of "Suc i"] Suc.prems(2)
    step by (subst find_static_from.simps) (auto simp: and_mask_mod)
qed

subsection \<open>What the table holds\<close>

definition entry_hash :: "route_entry \<Rightarrow> u64" where
  "entry_hash route = route_hash (re_method route) (path_hash (re_path route))"

definition occupied :: "static_slot list \<Rightarrow> nat \<Rightarrow> bool" where
  "occupied slots i \<longleftrightarrow> slot_route (slots ! i) \<noteq> None"

text \<open>
  The table of a set of route indices: every slot in use holds one of them under its hash, every one of them is
  found by walking over slots in use from the slot of its hash.
\<close>

definition static_table_ok :: "route_entry list \<Rightarrow> nat \<Rightarrow> static_slot list \<Rightarrow> nat set \<Rightarrow> bool" where
  "static_table_ok routes k slots stored \<longleftrightarrow>
     length slots = 2 ^ k \<and> card {i. i < 2 ^ k \<and> occupied slots i} \<le> card stored \<and>
     (\<forall>i < 2 ^ k. \<forall>r. slot_route (slots ! i) = Some r \<longrightarrow> r \<in> stored \<and> slot_hash (slots ! i) = entry_hash (routes ! r)) \<and>
     (\<forall>r \<in> stored. \<exists>d. slot_route (slots ! ((unat (entry_hash (routes ! r)) + d) mod 2 ^ k)) = Some r \<and>
        (\<forall>d' < d. occupied slots ((unat (entry_hash (routes ! r)) + d') mod 2 ^ k)))"

lemma table_empty: "static_table_ok routes k (replicate (2 ^ k) empty_static_slot) {}"
  by (auto simp: static_table_ok_def occupied_def empty_static_slot_def)

lemma table_free_slot:
  assumes "static_table_ok routes k slots stored" "card stored < 2 ^ k"
  shows "\<exists>e < 2 ^ k. \<not> occupied slots e"
proof (rule ccontr)
  assume "\<not> (\<exists>e < 2 ^ k. \<not> occupied slots e)"
  then have "{i. i < 2 ^ k \<and> occupied slots i} = {..< 2 ^ k}" by auto
  then show False using assms by (simp add: static_table_ok_def)
qed

lemma insert_static_ok:
  assumes "static_table_ok routes k slots stored" "card stored < 2 ^ k" "is_indexed route" "finite stored"
    and "re_index route \<notin> stored" "routes ! re_index route = route"
  shows "\<exists>slots'. insert_static (2 ^ k - 1) slots route = Some slots' \<and> static_table_ok routes k slots' (insert (re_index route) stored)"
proof -
  define h where "h = unat (entry_hash route)"
  define r where "r = re_index route"
  obtain e where e: "e < 2 ^ k" "\<not> occupied slots e" using table_free_slot [OF assms(1,2)] by blast
  obtain d where d: "\<not> occupied slots ((h mod 2 ^ k + d) mod 2 ^ k)" "\<forall>d' < d. occupied slots ((h mod 2 ^ k + d') mod 2 ^ k)"
    using first_distance [of "\<lambda>i. \<not> occupied slots i" e "2 ^ k" "h mod 2 ^ k"] e by auto
  define j where "j = (h + d) mod 2 ^ k"
  have walk: "first_empty_slot slots (2 ^ k - 1) (h mod 2 ^ k) = Some j"
    unfolding j_def by (rule first_empty_slot_walk) (use d in \<open>auto simp: occupied_def mod_add_left_eq\<close>)
  define slots' where "slots' = slots [j := \<lparr>slot_hash = entry_hash route, slot_route = Some r\<rparr>]"
  have insert: "insert_static (2 ^ k - 1) slots route = Some slots'"
    using assms(3) walk by (simp add: insert_static_def Let_def slots'_def h_def entry_hash_def and_mask_mod r_def)
  have len: "length slots = 2 ^ k" and j: "j < 2 ^ k" using assms(1) by (simp_all add: static_table_ok_def j_def)
  have free: "\<not> occupied slots j" using d(1) by (simp add: j_def mod_add_left_eq)
  have nth: "slots' ! i = (if i = j then \<lparr>slot_hash = entry_hash route, slot_route = Some r\<rparr> else slots ! i)" for i
    using j len by (simp add: slots'_def nth_list_update)
  have occ: "occupied slots' i \<longleftrightarrow> i = j \<or> occupied slots i" for i by (simp add: occupied_def nth)
  have "{i. i < 2 ^ k \<and> occupied slots' i} = insert j {i. i < 2 ^ k \<and> occupied slots i}" using j by (auto simp: occ)
  then have "card {i. i < 2 ^ k \<and> occupied slots' i} \<le> card (insert r stored)"
    using assms(1,4,5) free by (simp add: static_table_ok_def r_def)
  moreover have "\<exists>d. slot_route (slots' ! ((unat (entry_hash (routes ! q)) + d) mod 2 ^ k)) = Some q \<and>
      (\<forall>d' < d. occupied slots' ((unat (entry_hash (routes ! q)) + d') mod 2 ^ k))" if "q \<in> insert r stored" for q
  proof (cases "q = r")
    case True
    have "routes ! q = route" using True assms(6) by (simp add: r_def)
    then show ?thesis using True d(2) by (intro exI [of _ d]) (auto simp: nth occ j_def h_def mod_add_left_eq)
  next
    case False
    then have "q \<in> stored" using that by simp
    then obtain d0 where d0: "slot_route (slots ! ((unat (entry_hash (routes ! q)) + d0) mod 2 ^ k)) = Some q"
      "\<forall>d' < d0. occupied slots ((unat (entry_hash (routes ! q)) + d') mod 2 ^ k)"
      using assms(1) by (auto simp: static_table_ok_def)
    then have "(unat (entry_hash (routes ! q)) + d0) mod 2 ^ k \<noteq> j" using free by (auto simp: occupied_def)
    then show ?thesis using d0 by (intro exI [of _ d0]) (auto simp: nth occ)
  qed
  moreover have "\<forall>i < 2 ^ k. \<forall>q. slot_route (slots' ! i) = Some q \<longrightarrow>
      q \<in> insert r stored \<and> slot_hash (slots' ! i) = entry_hash (routes ! q)"
    using assms(1,6) by (auto simp: nth static_table_ok_def r_def)
  moreover have "length slots' = 2 ^ k" using len by (simp add: slots'_def)
  ultimately have "static_table_ok routes k slots' (insert (re_index route) stored)" unfolding static_table_ok_def r_def by blast
  then show ?thesis using insert by blast
qed

definition indices_ok :: "route_entry list \<Rightarrow> bool" where
  "indices_ok routes \<longleftrightarrow> (\<forall>i < length routes. re_index (routes ! i) = i)"

lemma insert_all_static_ok:
  "\<lbrakk>static_table_ok routes k slots stored; finite stored; card stored + length (filter is_indexed rs) < 2 ^ k;
    distinct (map re_index rs); \<forall>r\<in>set rs. re_index r \<notin> stored \<and> routes ! re_index r = r\<rbrakk> \<Longrightarrow>
   \<exists>slots'. insert_all_static (2 ^ k - 1) slots rs = Some slots' \<and>
     static_table_ok routes k slots' (stored \<union> re_index ` set (filter is_indexed rs))"
proof (induction rs arbitrary: slots stored)
  case (Cons r rs)
  show ?case
  proof (cases "is_indexed r")
    case True
    have r: "re_index r \<notin> stored" "routes ! re_index r = r" and less: "card stored < 2 ^ k" using Cons.prems True by auto
    obtain slots1 where one: "insert_static (2 ^ k - 1) slots r = Some slots1" "static_table_ok routes k slots1 (insert (re_index r) stored)"
      using insert_static_ok [OF Cons.prems(1) less True Cons.prems(2) r] by blast
    have "card (insert (re_index r) stored) + length (filter is_indexed rs) < 2 ^ k"
      using Cons.prems(2,3) True r by simp
    moreover have "re_index r \<notin> re_index ` set rs" using Cons.prems(4) by simp
    then have "\<forall>q\<in>set rs. re_index q \<notin> insert (re_index r) stored \<and> routes ! re_index q = q"
      using Cons.prems(5) by (metis imageI insert_iff list.set_intros(2))
    ultimately obtain slots2 where "insert_all_static (2 ^ k - 1) slots1 rs = Some slots2"
      "static_table_ok routes k slots2 (insert (re_index r) stored \<union> re_index ` set (filter is_indexed rs))"
      using Cons.IH [OF one(2)] Cons.prems(2,4) by auto
    moreover have "insert (re_index r) stored \<union> re_index ` set (filter is_indexed rs) =
        stored \<union> re_index ` set (filter is_indexed (r # rs))" using True by simp
    ultimately show ?thesis using one(1) by simp
  next
    case False
    then have "insert_static (2 ^ k - 1) slots r = Some slots" by (simp add: insert_static_def)
    then show ?thesis using Cons.IH [OF Cons.prems(1,2)] Cons.prems(3-5) False by auto
  qed
qed auto

definition indexed_set :: "route_entry list \<Rightarrow> nat set" where
  "indexed_set routes = re_index ` set (filter is_indexed routes)"

lemma build_static_index_ok:
  assumes "indices_ok routes" "filter is_indexed routes \<noteq> []"
  shows "\<exists>slots k. build_static_index routes = Some (slots, 2 ^ k - 1) \<and> static_table_ok routes k slots (indexed_set routes) \<and>
    card (indexed_set routes) < 2 ^ k"
proof -
  define n where "n = length (filter is_indexed routes)"
  have n: "0 < n" using assms(2) by (simp add: n_def)
  obtain k where k: "bit_ceil (n * 2) = 2 ^ k" "n * 2 \<le> 2 ^ k" using bit_ceil by metis
  have less: "n < 2 ^ k" using k(2) n by linarith
  have map: "map re_index routes = [0..<length routes]"
    using assms(1) by (intro nth_equalityI) (auto simp: indices_ok_def)
  have "\<forall>r\<in>set routes. re_index r \<notin> {} \<and> routes ! re_index r = r"
    using assms(1) by (auto simp: indices_ok_def in_set_conv_nth)
  moreover have "distinct (map re_index routes)" by (simp add: map)
  ultimately obtain slots where "insert_all_static (2 ^ k - 1) (replicate (2 ^ k) empty_static_slot) routes = Some slots"
    "static_table_ok routes k slots (indexed_set routes)"
    using insert_all_static_ok [OF table_empty, of routes k routes] less by (auto simp: n_def indexed_set_def)
  moreover have "card (indexed_set routes) \<le> n"
    unfolding indexed_set_def n_def by (rule order_trans [OF card_image_le card_length]) simp
  ultimately show ?thesis using k n by (auto simp: build_static_index_def n_def [symmetric] Let_def)
qed

lemma find_static_route_ok:
  assumes "indices_ok routes" "filter is_indexed routes \<noteq> []" "build_static_index routes = Some index"
  shows "case find_static_route routes index m path (path_hash path) of
      None \<Rightarrow> False
    | Some (Some r) \<Rightarrow> r \<in> indexed_set routes \<and> re_method (routes ! r) = m \<and>
        (re_path (routes ! r) = path \<or> uri_paths_equivalent (re_path (routes ! r)) path)
    | Some None \<Rightarrow> \<forall>r \<in> indexed_set routes. re_method (routes ! r) = m \<longrightarrow>
        \<not> (re_path (routes ! r) = path \<or> uri_paths_equivalent (re_path (routes ! r)) path)"
proof -
  obtain slots k where index: "index = (slots, 2 ^ k - 1)" and ok: "static_table_ok routes k slots (indexed_set routes)"
    and card: "card (indexed_set routes) < 2 ^ k"
    using build_static_index_ok [OF assms(1,2)] assms(3) by auto
  define key_hash where "key_hash = route_hash m (path_hash path)"
  define h where "h = unat key_hash"
  define stop where "stop = (\<lambda>i. slot_route (slots ! i) = None \<or> slot_matches routes m path key_hash (slots ! i))"
  obtain e where e: "e < 2 ^ k" "stop e"
    using table_free_slot [OF ok card] by (auto simp: occupied_def stop_def)
  obtain d where d: "stop ((h mod 2 ^ k + d) mod 2 ^ k)" "\<forall>d' < d. \<not> stop ((h mod 2 ^ k + d') mod 2 ^ k)"
    using first_distance [of stop e "2 ^ k" "h mod 2 ^ k"] e by auto
  then have stop: "stop ((h + d) mod 2 ^ k)" "\<forall>d' < d. \<not> stop ((h + d') mod 2 ^ k)" by (simp_all add: mod_add_left_eq)
  define j where "j = (h + d) mod 2 ^ k"
  have result: "find_static_route routes index m path (path_hash path) = Some (slot_route (slots ! j))"
    using find_static_walk [of d slots h k routes m path key_hash] stop
    by (simp add: find_static_route_def Let_def index key_hash_def [symmetric] h_def and_mask_mod j_def stop_def)
  show ?thesis
  proof (cases "slot_route (slots ! j)")
    case (Some r)
    then have "slot_matches routes m path key_hash (slots ! j)" using stop(1) by (simp add: stop_def j_def)
    moreover have "j < 2 ^ k" by (simp add: j_def)
    then have "r \<in> indexed_set routes" using ok Some unfolding static_table_ok_def by blast
    ultimately show ?thesis using Some by (simp add: result slot_matches_def)
  next
    case None
    have "\<not> (re_path (routes ! r) = path \<or> uri_paths_equivalent (re_path (routes ! r)) path)"
      if r: "r \<in> indexed_set routes" "re_method (routes ! r) = m" for r
    proof
      assume same: "re_path (routes ! r) = path \<or> uri_paths_equivalent (re_path (routes ! r)) path"
      then have hash: "entry_hash (routes ! r) = key_hash"
        using r(2) path_hash_equivalent by (auto simp: entry_hash_def key_hash_def)
      obtain c where c: "slot_route (slots ! ((h + c) mod 2 ^ k)) = Some r" "\<forall>d' < c. occupied slots ((h + d') mod 2 ^ k)"
        using ok r(1) hash unfolding static_table_ok_def h_def by metis
      have "slot_hash (slots ! ((h + c) mod 2 ^ k)) = entry_hash (routes ! r)"
        using ok c(1) by (simp add: static_table_ok_def)
      then have "stop ((h + c) mod 2 ^ k)" using c(1) hash same r(2) by (simp add: stop_def slot_matches_def)
      then have "d \<le> c" using stop(2) not_less by blast
      then have "occupied slots j \<or> j = (h + c) mod 2 ^ k" using c(2) by (cases "d = c") (auto simp: j_def)
      then show False using None c(1) by (auto simp: occupied_def)
    qed
    then show ?thesis by (simp add: result None)
  qed
qed

text \<open>
  Property C9. Building the index of the static routes ends, and so does every lookup in it; a lookup returns an
  indexed route of the method whose path is the requested one in some spelling, and misses only when there is none.
\<close>

theorem static_lookup_exact:
  assumes "\<forall>i < length routes. re_index (routes ! i) = i" "filter is_indexed routes \<noteq> []"
  shows "\<exists>index. build_static_index routes = Some index \<and>
    (\<forall>m path. case find_static_route routes index m path (path_hash path) of
       None \<Rightarrow> False
     | Some (Some r) \<Rightarrow> r < length routes \<and> is_indexed (routes ! r) \<and> re_method (routes ! r) = m \<and>
         (re_path (routes ! r) = path \<or> uri_paths_equivalent (re_path (routes ! r)) path)
     | Some None \<Rightarrow> \<forall>r < length routes. is_indexed (routes ! r) \<longrightarrow> re_method (routes ! r) = m \<longrightarrow>
         \<not> (re_path (routes ! r) = path \<or> uri_paths_equivalent (re_path (routes ! r)) path))"
proof -
  have ok: "indices_ok routes" using assms(1) by (simp add: indices_ok_def)
  obtain index where index: "build_static_index routes = Some index" using build_static_index_ok [OF ok assms(2)] by blast
  have member: "r \<in> indexed_set routes \<longleftrightarrow> r < length routes \<and> is_indexed (routes ! r)" for r
    using assms(1) by (force simp: indexed_set_def in_set_conv_nth)
  have "case find_static_route routes index m path (path_hash path) of
       None \<Rightarrow> False
     | Some (Some r) \<Rightarrow> r < length routes \<and> is_indexed (routes ! r) \<and> re_method (routes ! r) = m \<and>
         (re_path (routes ! r) = path \<or> uri_paths_equivalent (re_path (routes ! r)) path)
     | Some None \<Rightarrow> \<forall>r < length routes. is_indexed (routes ! r) \<longrightarrow> re_method (routes ! r) = m \<longrightarrow>
         \<not> (re_path (routes ! r) = path \<or> uri_paths_equivalent (re_path (routes ! r)) path)" for m path
    using find_static_route_ok [OF ok assms(2) index, where m = m and path = path]
    by (auto simp: member Ball_def split: option.splits)
  then show ?thesis using index by blast
qed

lemma static_lookup_exact_witness:
  "\<exists>index. build_static_index
     [\<lparr>re_index = 0, re_method = Get, re_method_token = [], re_path = ascii ''/a'', re_endpoint = Buffered,
       re_dynamic = False, re_param_names = []\<rparr>] = Some index"
  using static_lookup_exact [of "[\<lparr>re_index = 0, re_method = Get, re_method_token = [], re_path = ascii ''/a'',
      re_endpoint = Buffered, re_dynamic = False, re_param_names = []\<rparr>]"]
  by (auto simp: is_indexed_def is_routable_method_def method_index_def routable_method_count_def)

end
