(* ===== verification/Url_For.thy ===== *)
theory Url_For
  imports Route_Patterns
begin

text \<open>
  Reverse routing (\<open>router_url.cpp\<close>) and the decoding of one URL component (\<open>url_encoding.h\<close>): \<open>url_for\<close>
  substitutes values into a pattern, and a request for its result reads the same values back.
\<close>

subsection \<open>Decoding a component\<close>

datatype url_decode_mode = Percent | Form

function decode_from :: "url_decode_mode \<Rightarrow> bytes \<Rightarrow> nat \<Rightarrow> bytes option \<Rightarrow> bytes option" where
  "decode_from mode input i target =
     (if i < length input then
        (let c = input ! i;
             (c, advance, transformed, malformed) =
               (if mode = Form \<and> c = 0x2b then (0x20, 0, True, False)
                else if c = 0x25 then
                  (case http_try_decode_percent_byte input i of
                     Some b \<Rightarrow> (b, 2, True, False)
                   | None \<Rightarrow> (c, 0, False, mode \<noteq> Form))
                else (c, 0, False, False)) in
         if malformed then None
         else if \<not> transformed then
           decode_from mode input (i + 1) (case target of Some t \<Rightarrow> Some (t @ [c]) | None \<Rightarrow> None)
         else decode_from mode input (i + advance + 1)
                (Some ((case target of Some t \<Rightarrow> t | None \<Rightarrow> take i input) @ [c])))
      else (case target of Some t \<Rightarrow> Some t | None \<Rightarrow> Some input))"
  by auto
termination
  by (relation "measure (\<lambda>(_, input, i, _). length input - i)") (auto split: if_splits)

definition decode_url_component :: "bytes \<Rightarrow> url_decode_mode \<Rightarrow> bytes option" where
  "decode_url_component input mode = decode_from mode input 0 None"

declare decode_from.simps [simp del]

subsection \<open>Encoding values\<close>

definition is_url_for_segment_byte :: "byte \<Rightarrow> bool" where
  "is_url_for_segment_byte b \<longleftrightarrow> 0x41 \<le> b \<and> b \<le> 0x5a \<or> 0x61 \<le> b \<and> b \<le> 0x7a \<or> 0x30 \<le> b \<and> b \<le> 0x39 \<or>
     b = 0x2d \<or> b = 0x2e \<or> b = 0x5f \<or> b = 0x7e \<or> b = 0x21 \<or> b = 0x24 \<or> b = 0x26 \<or> b = 0x27 \<or>
     b = 0x28 \<or> b = 0x29 \<or> b = 0x2a \<or> b = 0x2b \<or> b = 0x2c \<or> b = 0x3b \<or> b = 0x3d \<or> b = 0x3a \<or> b = 0x40"

definition url_for_plain :: "bool \<Rightarrow> byte \<Rightarrow> bool" where
  "url_for_plain keep_slashes b \<longleftrightarrow> is_url_for_segment_byte b \<or> keep_slashes \<and> b = 0x2f"

definition url_for_encoded_size :: "bytes \<Rightarrow> bool \<Rightarrow> nat" where
  "url_for_encoded_size value keep_slashes =
     foldl (\<lambda>n b. if \<not> is_url_for_segment_byte b \<and> \<not> (keep_slashes \<and> b = 0x2f) then n + 2 else n) (length value) value"

definition http_append_percent_byte :: "bytes \<Rightarrow> byte \<Rightarrow> bytes" where
  "http_append_percent_byte out b =
     out @ [0x25] @ [http_upper_hex_digit (unat b div 16)] @ [http_upper_hex_digit (unat b)]"

function append_url_for_value :: "bytes \<Rightarrow> bytes \<Rightarrow> bool \<Rightarrow> bytes" where
  "append_url_for_value out value keep_slashes =
     (if value = [] then out
      else let plain_size = length (takeWhile (url_for_plain keep_slashes) value);
          out = (if plain_size \<noteq> 0 then out @ take plain_size value else out) in
        if plain_size = length value then out
        else append_url_for_value (http_append_percent_byte out (value ! plain_size)) (drop (plain_size + 1) value) keep_slashes)"
  by auto
termination
  by (relation "measure (\<lambda>(_, value, _). length value)") auto

declare append_url_for_value.simps [simp del]

definition is_url_for_dot_segment :: "bytes \<Rightarrow> bool" where
  "is_url_for_dot_segment segment \<longleftrightarrow> segment = [0x2e] \<or> segment = [0x2e, 0x2e]"

function has_url_for_dot_segment :: "bytes \<Rightarrow> bool" where
  "has_url_for_dot_segment value =
     (let slash = find_byte 0x2f value in
      if is_url_for_dot_segment (case slash of None \<Rightarrow> value | Some i \<Rightarrow> substr value 0 i) then True
      else case slash of None \<Rightarrow> False | Some i \<Rightarrow> has_url_for_dot_segment (drop (i + 1) value))"
  by auto
termination
  by (relation "measure length") (auto dest!: sym [of "Some _"] simp: find_byte_Some_iff)

declare has_url_for_dot_segment.simps [simp del]

subsection \<open>Reverse routing\<close>

datatype url_error =
    Pattern_not_registered
  | Missing_wildcard_value
  | Wildcard_dot_segment
  | Wildcard_separator
  | Leading_empty_segment
  | Missing_parameter_value
  | Empty_parameter_value
  | Parameter_dot_segment
  | Too_many_values

function url_for_check :: "bytes \<Rightarrow> bytes list \<Rightarrow> nat \<Rightarrow> nat \<Rightarrow> url_error + nat \<times> nat" where
  "url_for_check remaining values next_value size_so_far =
     (case split_path_segment remaining of
        None \<Rightarrow> Inr (next_value, size_so_far)
      | Some (segment, remaining) \<Rightarrow>
          if segment = [0x2a] \<and> remaining = [] then
            if next_value \<ge> length values then Inl Missing_wildcard_value
            else (let value = values ! next_value in
              if has_url_for_dot_segment value then Inl Wildcard_dot_segment
              else if find_byte 0x5c value \<noteq> None \<or> size_so_far = 0 \<and> value \<noteq> [] \<and> hd value = 0x2f then
                Inl Wildcard_separator
              else url_for_check remaining values (next_value + 1)
                (if value \<noteq> [] then size_so_far + (1 + url_for_encoded_size value True)
                 else if size_so_far = 0 then size_so_far + 1 else size_so_far))
          else if size_so_far = 0 \<and> segment = [] then Inl Leading_empty_segment
          else if is_param segment then
            if next_value \<ge> length values then Inl Missing_parameter_value
            else (let value = values ! next_value in
              if value = [] then Inl Empty_parameter_value
              else if is_url_for_dot_segment value then Inl Parameter_dot_segment
              else url_for_check remaining values (next_value + 1)
                (size_so_far + 1 + url_for_encoded_size value False))
          else url_for_check remaining values next_value (size_so_far + 1 + length segment))"
  by pat_completeness auto
termination
  by (relation "measure (length \<circ> fst)") (auto dest!: sym [of "Some _"] split_path_segment_Some(3))

function url_for_build :: "bytes \<Rightarrow> bytes list \<Rightarrow> nat \<Rightarrow> bytes \<Rightarrow> bytes" where
  "url_for_build remaining values next_value url =
     (case split_path_segment remaining of
        None \<Rightarrow> url
      | Some (segment, remaining) \<Rightarrow>
          if segment = [0x2a] \<and> remaining = [] then
            (let value = values ! next_value in
             url_for_build remaining values (next_value + 1)
               (if value \<noteq> [] then append_url_for_value (url @ [0x2f]) value True
                else if url = [] then url @ [0x2f] else url))
          else if is_param segment then
            url_for_build remaining values (next_value + 1)
              (append_url_for_value (url @ [0x2f]) (values ! next_value) False)
          else url_for_build remaining values next_value ((url @ [0x2f]) @ segment))"
  by pat_completeness auto
termination
  by (relation "measure (length \<circ> fst)") (auto dest!: sym [of "Some _"] split_path_segment_Some(3))

text \<open>\<open>std::ranges::binary_search\<close> over the sorted patterns, compared byte by byte.\<close>

definition pattern_registered :: "bytes list \<Rightarrow> bytes \<Rightarrow> bool" where
  "pattern_registered url_patterns pattern =
     (let i = partition_point_from (\<lambda>registered. registered < pattern) url_patterns 0 (length url_patterns) in
      i < length url_patterns \<and> \<not> pattern < url_patterns ! i)"

definition url_for :: "bytes list \<Rightarrow> bytes \<Rightarrow> bytes list \<Rightarrow> url_error + bytes" where
  "url_for url_patterns pattern values =
     (if \<not> pattern_registered url_patterns pattern then Inl Pattern_not_registered
      else case url_for_check pattern values 0 0 of
        Inl e \<Rightarrow> Inl e
      | Inr (next_value, _) \<Rightarrow>
          if next_value \<noteq> length values then Inl Too_many_values
          else Inr (url_for_build pattern values 0 []))"

declare url_for_check.simps [simp del] url_for_build.simps [simp del]

subsection \<open>Encoding and decoding\<close>

lemma pattern_registered_iff:
  assumes "sorted url_patterns"
  shows "pattern_registered url_patterns pattern \<longleftrightarrow> pattern \<in> set url_patterns"
proof -
  define i where "i = partition_point_from (\<lambda>registered. registered < pattern) url_patterns 0 (length url_patterns)"
  have point: "(\<forall>j < i. url_patterns ! j < pattern) \<and>
      (\<forall>j. i \<le> j \<longrightarrow> j < length url_patterns \<longrightarrow> \<not> url_patterns ! j < pattern) \<and> i \<le> length url_patterns"
    unfolding i_def
    by (rule partition_point_from) (use sorted_nth_mono [OF assms] in \<open>auto intro: order_le_less_trans\<close>)
  have "i < length url_patterns \<and> \<not> pattern < url_patterns ! i \<longleftrightarrow> pattern \<in> set url_patterns"
  proof
    assume "i < length url_patterns \<and> \<not> pattern < url_patterns ! i"
    then have "url_patterns ! i = pattern" using point by (metis linorder_neqE order_refl)
    then show "pattern \<in> set url_patterns" using \<open>i < length url_patterns \<and> _\<close> nth_mem by blast
  next
    assume "pattern \<in> set url_patterns"
    then obtain k where k: "k < length url_patterns" "url_patterns ! k = pattern" by (auto simp: in_set_conv_nth)
    then have "i \<le> k" using point by (metis not_le order_less_irrefl)
    then show "i < length url_patterns \<and> \<not> pattern < url_patterns ! i"
      using k sorted_nth_mono [OF assms, of i k] by auto
  qed
  then show ?thesis by (simp add: pattern_registered_def i_def [symmetric] Let_def)
qed

lemma upper_hex_digit_mod: "http_upper_hex_digit (n mod 16) = http_upper_hex_digit n"
proof -
  have "k AND 15 = k mod 16" for k :: nat
    using take_bit_eq_mask [of 4 k] by (simp add: take_bit_eq_mod mask_eq_exp_minus_1)
  then show ?thesis by (simp add: http_upper_hex_digit_def)
qed

definition encode_byte :: "bool \<Rightarrow> byte \<Rightarrow> bytes" where
  "encode_byte keep b = (if url_for_plain keep b then [b]
     else [0x25, http_upper_hex_digit (unat b div 16), http_upper_hex_digit (unat b mod 16)])"

definition encode :: "bool \<Rightarrow> bytes \<Rightarrow> bytes" where
  "encode keep v = concat (map (encode_byte keep) v)"

lemma encode_simps [simp]:
  "encode keep [] = []" "encode keep (b # v) = encode_byte keep b @ encode keep v"
  by (simp_all add: encode_def)

lemma encode_append: "encode keep (a @ b) = encode keep a @ encode keep b"
  by (simp add: encode_def)

lemma append_url_for_value: "append_url_for_value out v keep = out @ encode keep v"
proof (induction out v keep rule: append_url_for_value.induct)
  case (1 out v keep)
  define n where "n = length (takeWhile (url_for_plain keep) v)"
  define rest where "rest = dropWhile (url_for_plain keep) v"
  have v: "v = take n v @ rest" and take: "take n v = takeWhile (url_for_plain keep) v"
    and drop: "rest = drop n v"
    using append_take_drop_id [of n v]
    by (simp_all add: n_def rest_def takeWhile_eq_take [symmetric] dropWhile_eq_drop)
  have plain: "encode keep (take n v) = take n v"
    unfolding take by (induction v) (auto simp: encode_byte_def)
  note IH = "1.IH" [folded n_def, OF _ refl refl]
  show ?case
  proof (cases rest)
    case Nil
    then have "n = length v" using drop by (simp add: n_def length_takeWhile_le antisym)
    then show ?thesis using plain by (subst append_url_for_value.simps) (auto simp: n_def [symmetric] Let_def)
  next
    case (Cons b bs)
    then have "drop n v = b # bs" using drop by simp
    then have n: "n < length v" "v ! n = b" "drop (n + 1) v = bs"
      by (metis drop_eq_Nil list.distinct(1) not_le, rule nth_via_drop, metis Suc_eq_plus1 drop_Suc list.sel(3) tl_drop)
    have "\<not> url_for_plain keep b" using Cons unfolding rest_def by (metis hd_dropWhile list.distinct(1) list.sel(1))
    then have "encode_byte keep b = [0x25, http_upper_hex_digit (unat b div 16), http_upper_hex_digit (unat b mod 16)]"
      by (simp add: encode_byte_def)
    moreover have "encode keep v = take n v @ encode_byte keep b @ encode keep bs"
      by (subst v) (simp add: encode_append plain Cons)
    moreover have "v \<noteq> []" using n by auto
    ultimately show ?thesis using IH n
      by (subst append_url_for_value.simps) (simp add: n_def [symmetric] Let_def http_append_percent_byte_def upper_hex_digit_mod)
  qed
qed

lemma foldl_size: "foldl (\<lambda>n b. if P b then n + 2 else n) k v = k + 2 * length (filter P v)" for k :: nat
  by (induction v arbitrary: k) auto

lemma url_for_encoded_size: "url_for_encoded_size v keep = length (encode keep v)"
proof -
  have "length (encode keep v) =
      length v + 2 * length (filter (\<lambda>b. \<not> is_url_for_segment_byte b \<and> \<not> (keep \<and> b = 0x2f)) v)"
    by (induction v) (auto simp: encode_byte_def url_for_plain_def)
  then show ?thesis by (simp add: url_for_encoded_size_def foldl_size)
qed

lemma segment_byte_not: "\<not> is_url_for_segment_byte 0x25" "\<not> is_url_for_segment_byte 0x2f" "is_url_for_segment_byte 0x2e"
  by (simp_all add: is_url_for_segment_byte_def byte_le_nat)

lemma upper_hex_nibble: "n < 16 \<Longrightarrow> http_decode_hex_nibble (http_upper_hex_digit n) = Some n"
  using hex_digit_cases by blast

lemma escape_encoded:
  "escape (http_upper_hex_digit (unat b div 16) # http_upper_hex_digit (unat b mod 16) # rest) = Some (uint b, rest)" for b :: byte
proof -
  have "unat b div 16 < 16" using unat_byte_less [of b] by simp
  moreover have "int (unat b div 16 * 16 + unat b mod 16) = uint b" by simp
  ultimately show ?thesis by (simp add: escape_def upper_hex_nibble)
qed

lemma encode_units: "0x2f \<notin> set v \<or> \<not> keep \<Longrightarrow> units (encode keep v @ rest) = map uint v @ units rest"
proof (induction v)
  case (Cons b v)
  show ?case
  proof (cases "url_for_plain keep b")
    case True
    then have "b \<noteq> 0x25" "b \<noteq> 0x2f"
      using segment_byte_not Cons.prems by (auto simp: url_for_plain_def)
    then show ?thesis using True Cons by (auto simp: encode_byte_def units_plain)
  next
    case False
    then show ?thesis using Cons by (auto simp: encode_byte_def units_percent escape_encoded)
  qed
qed simp

lemma encode_no_slash: "0x2f \<notin> set v \<or> \<not> keep \<Longrightarrow> 0x2f \<notin> set (encode keep v)"
proof (induction v)
  case (Cons b v)
  have "http_upper_hex_digit n \<noteq> 0x2f" if "n < 16" for n
    using upper_hex_nibble [OF that] nibble_slash by force
  moreover have "unat b div 16 < 16" using unat_byte_less [of b] by simp
  ultimately show ?case using Cons segment_byte_not(2)
    by (auto simp: encode_byte_def url_for_plain_def)
qed simp

text \<open>Decoding in percent mode, on lists.\<close>

function percent_decode :: "bytes \<Rightarrow> bytes option" where
  "percent_decode [] = Some []"
| "percent_decode (c # cs) =
     (if c = 0x25 then
        (case escape cs of None \<Rightarrow> None | Some (u, rest) \<Rightarrow> map_option (Cons (word_of_int u)) (percent_decode rest))
      else map_option (Cons c) (percent_decode cs))"
  by pat_completeness auto
termination
  by (relation "measure length") (auto dest!: sym [of "Some _"] dest: escape_Some(3))

lemma try_decode_escape:
  assumes "i < length input" "input ! i = 0x25"
  shows "http_try_decode_percent_byte input i =
    map_option (\<lambda>(u, _). word_of_int u) (escape (drop (i + 1) input))"
    "escape (drop (i + 1) input) = Some (u, rest) \<Longrightarrow> rest = drop (i + 3) input"
proof -
  define cs where "cs = drop (i + 1) input"
  have len: "length cs = length input - i - 1" by (simp add: cs_def)
  have nth: "0 < length cs \<Longrightarrow> input ! (i + 1) = cs ! 0" "1 < length cs \<Longrightarrow> input ! (i + 2) = cs ! 1"
    by (simp_all add: cs_def)
  have tl2: "drop 2 cs = drop (i + 3) input" by (simp add: cs_def eval_nat_numeral)
  consider "length cs < 2" | h l r where "cs = h # l # r"
    by (cases cs; cases "tl cs") auto
  then have "http_try_decode_percent_byte input i = map_option (\<lambda>(u, _). word_of_int u) (escape cs) \<and>
      (escape cs = Some (u, rest) \<longrightarrow> rest = drop (i + 3) input)"
  proof cases
    case 1
    then have "length input - i < 3" using len by simp
    moreover have "escape cs = None" using 1 by (cases cs; cases "tl cs") (auto simp: escape_def)
    ultimately show ?thesis using assms by (simp add: http_try_decode_percent_byte_def)
  next
    case (2 h l r)
    then have "\<not> length input - i < 3" "input ! (i + 1) = h" "input ! (i + 2) = l" "r = drop (i + 3) input"
      using len nth tl2 by auto
    then show ?thesis using assms 2
      by (auto simp: http_try_decode_percent_byte_def escape_def split: option.split)
  qed
  then show "http_try_decode_percent_byte input i = map_option (\<lambda>(u, _). word_of_int u) (escape (drop (i + 1) input))"
    "escape (drop (i + 1) input) = Some (u, rest) \<Longrightarrow> rest = drop (i + 3) input"
    by (simp_all add: cs_def)
qed

lemma decode_from:
  "i \<le> length input \<Longrightarrow> decode_from Percent input i target =
     map_option (\<lambda>d. (case target of Some t \<Rightarrow> t | None \<Rightarrow> take i input) @ d) (percent_decode (drop i input))"
proof (induction "length input - i" arbitrary: i target rule: less_induct)
  case less
  show ?case
  proof (cases "i = length input")
    case True
    then show ?thesis by (subst decode_from.simps) (auto split: option.split)
  next
    case False
    then have i: "i < length input" using less.prems by simp
    then have drop: "drop i input = input ! i # drop (i + 1) input" by (simp add: Cons_nth_drop_Suc)
    have take: "take (i + 1) input = take i input @ [input ! i]" using i by (simp add: take_Suc_conv_app_nth)
    show ?thesis
    proof (cases "input ! i = 0x25")
      case plain: False
      have "decode_from Percent input i target =
          decode_from Percent input (i + 1) (case target of Some t \<Rightarrow> Some (t @ [input ! i]) | None \<Rightarrow> None)"
        using i plain by (subst decode_from.simps) (simp add: Let_def)
      then show ?thesis using less.hyps [of "i + 1"] i plain take
        by (cases "percent_decode (drop (i + 1) input)") (auto simp: drop split: option.split)
    next
      case True
      note escape = try_decode_escape [OF i True]
      show ?thesis
      proof (cases "escape (drop (i + 1) input)")
        case None
        then have "decode_from Percent input i target = None"
          using i True escape(1) by (subst decode_from.simps) (simp add: Let_def)
        then show ?thesis using None True by (simp add: drop)
      next
        case (Some ur)
        obtain u rest where ur: "escape (drop (i + 1) input) = Some (u, rest)" using Some by (cases ur) auto
        then have rest: "rest = drop (i + 3) input" by (rule escape(2))
        have "length rest + 2 = length (drop (i + 1) input)" by (rule escape_Some(3) [OF ur])
        then have le: "i + 3 \<le> length input" using rest i by simp
        have "decode_from Percent input i target =
            decode_from Percent input (i + 3)
              (Some ((case target of Some t \<Rightarrow> t | None \<Rightarrow> take i input) @ [word_of_int u]))"
          using i True escape(1) ur by (subst decode_from.simps) (simp add: Let_def eval_nat_numeral)
        then show ?thesis using less.hyps [of "i + 3"] le i True ur rest
          by (cases "percent_decode (drop (i + 3) input)") (auto simp: drop)
      qed
    qed
  qed
qed

lemma decode_url_component: "decode_url_component input Percent = percent_decode input"
  by (simp add: decode_url_component_def decode_from option.map_ident)

lemma percent_decode_encode: "percent_decode (encode keep v) = Some v"
proof (induction v)
  case (Cons b v)
  show ?case
  proof (cases "url_for_plain keep b")
    case True
    then have "b \<noteq> 0x25" using segment_byte_not by (auto simp: url_for_plain_def)
    then show ?thesis using True Cons by (simp add: encode_byte_def)
  next
    case False
    then show ?thesis using Cons by (simp add: encode_byte_def escape_encoded)
  qed
qed simp

subsection \<open>What \<open>url_for\<close> accepts and builds\<close>

fun url_tail :: "bytes list \<Rightarrow> bytes list \<Rightarrow> bool \<Rightarrow> bytes" where
  "url_tail [] vs start = []"
| "url_tail (s # ss) vs start =
     (if s = [0x2a] \<and> ss = [] then
        (if hd vs \<noteq> [] then 0x2f # encode True (hd vs) else if start then [0x2f] else [])
      else if is_param s then 0x2f # encode False (hd vs) @ url_tail ss (tl vs) False
      else 0x2f # s @ url_tail ss vs False)"

fun url_valid :: "bytes list \<Rightarrow> bytes list \<Rightarrow> bool \<Rightarrow> bool" where
  "url_valid [] vs start \<longleftrightarrow> vs = []"
| "url_valid (s # ss) vs start \<longleftrightarrow>
     (if s = [0x2a] \<and> ss = [] then
        length vs = 1 \<and> \<not> has_url_for_dot_segment (hd vs) \<and> 0x5c \<notin> set (hd vs) \<and>
        \<not> (start \<and> hd vs \<noteq> [] \<and> hd (hd vs) = 0x2f)
      else \<not> (start \<and> s = []) \<and>
        (if is_param s then vs \<noteq> [] \<and> hd vs \<noteq> [] \<and> \<not> is_url_for_dot_segment (hd vs) \<and> url_valid ss (tl vs) False
         else url_valid ss vs False))"

lemma drop_hd_tl:
  "drop k vals \<noteq> [] \<Longrightarrow> hd (drop k vals) = vals ! k"
  "drop k vals \<noteq> [] \<Longrightarrow> tl (drop k vals) = drop (k + 1) vals"
  by (simp_all add: hd_drop_conv_nth tl_drop drop_Suc)

lemma url_for_build:
  "url_valid (segments path) (drop k vals) start \<Longrightarrow>
     url_for_build path vals k url = url @ url_tail (segments path) (drop k vals) (url = [])"
proof (induction path arbitrary: k url start rule: split_induct)
  case Nil
  then show ?case by (simp add: url_for_build.simps)
next
  case (Segment path segment rest)
  have rest: "segments rest = [] \<longleftrightarrow> rest = []" by simp
  consider (wild) "segment = [0x2a] \<and> rest = []" | (param) "\<not> (segment = [0x2a] \<and> rest = [])" "is_param segment"
    | (literal) "\<not> (segment = [0x2a] \<and> rest = [])" "\<not> is_param segment" by blast
  then show ?case
  proof cases
    case wild
    then have "hd (drop k vals) = vals ! k"
      using Segment.prems Segment(2) drop_hd_tl(1) [of k vals] by (cases "drop k vals") auto
    then show ?thesis using wild Segment(1,2)
      by (subst url_for_build.simps) (auto simp: append_url_for_value Let_def url_for_build.simps [of "[]"])
  next
    case param
    then have valid: "drop k vals \<noteq> []" "url_valid (segments rest) (tl (drop k vals)) False"
      using Segment.prems Segment(2) by (auto simp: rest)
    note step = drop_hd_tl [OF valid(1)]
    have "url_valid (segments rest) (drop (k + 1) vals) False" using valid(2) step(2) by simp
    from Segment.IH [OF this] show ?thesis using param Segment(1,2) step
      by (subst url_for_build.simps) (auto simp: append_url_for_value Let_def)
  next
    case literal
    then have valid: "url_valid (segments rest) (drop k vals) False"
      using Segment.prems Segment(2) by (auto simp: rest)
    show ?thesis using literal Segment(1,2) Segment.IH [OF valid]
      by (subst url_for_build.simps) (auto simp: Let_def)
  qed
qed

lemma url_for_check:
  "url_for_check path vals k n = Inr (length vals, m) \<Longrightarrow> k \<le> length vals \<Longrightarrow>
     url_valid (segments path) (drop k vals) (n = 0) \<and>
     m = n + length (url_tail (segments path) (drop k vals) (n = 0))"
proof (induction path arbitrary: k n rule: split_induct)
  case Nil
  then show ?case by (simp add: url_for_check.simps)
next
  case (Segment path segment rest)
  have unfold: "url_for_check path vals k n = Inr (length vals, m)" by (rule Segment.prems(1))
  have rest: "segments rest = [] \<longleftrightarrow> rest = []" by simp
  consider (wild) "segment = [0x2a] \<and> rest = []" | (param) "\<not> (segment = [0x2a] \<and> rest = [])" "is_param segment"
    | (literal) "\<not> (segment = [0x2a] \<and> rest = [])" "\<not> is_param segment" by blast
  then show ?case
  proof cases
    case wild
    then have k: "k < length vals" "\<not> has_url_for_dot_segment (vals ! k)" "find_byte 0x5c (vals ! k) = None"
      "\<not> (n = 0 \<and> vals ! k \<noteq> [] \<and> hd (vals ! k) = 0x2f)"
      and last: "length vals = k + 1" "m = (if vals ! k \<noteq> [] then n + (1 + url_for_encoded_size (vals ! k) True)
                 else if n = 0 then n + 1 else n)"
      using Segment(1) unfold
      by (subst (asm) url_for_check.simps; auto simp: Let_def url_for_check.simps [of "[]"] split: if_splits)+
    have "drop k vals = [vals ! k]" using k(1) last(1) by (simp add: Cons_nth_drop_Suc [symmetric])
    then show ?thesis using wild k last Segment(2)
      by (auto simp: url_for_encoded_size find_byte_None_iff)
  next
    case param
    then have k: "k < length vals" "\<not> (n = 0 \<and> segment = [])" "vals ! k \<noteq> []" "\<not> is_url_for_dot_segment (vals ! k)"
      and next_value: "url_for_check rest vals (k + 1) (n + 1 + url_for_encoded_size (vals ! k) False) = Inr (length vals, m)"
      using Segment(1) unfold
      by (subst (asm) url_for_check.simps; auto simp: Let_def split: if_splits)+
    have d: "drop k vals = vals ! k # drop (k + 1) vals" using k(1) by (simp add: Cons_nth_drop_Suc)
    show ?thesis using param k Segment(2) Segment.IH [OF next_value] d
      by (auto simp: rest url_for_encoded_size)
  next
    case literal
    then have k: "\<not> (n = 0 \<and> segment = [])"
      and next_value: "url_for_check rest vals k (n + 1 + length segment) = Inr (length vals, m)"
      using Segment(1) unfold
      by (subst (asm) url_for_check.simps; auto simp: Let_def split: if_splits)+
    show ?thesis using literal k Segment(2) Segment.IH [OF next_value] Segment.prems(2)
      by (auto simp: rest)
  qed
qed

subsection \<open>Reading a built URL back\<close>

lemma split_slash:
  "\<lbrakk>0x2f \<notin> set x; rest = [] \<or> hd rest = 0x2f\<rbrakk> \<Longrightarrow> split_path_segment (0x2f # x @ rest) = Some (x, rest)"
  by (cases rest)
    (auto simp: split_path_segment_def Let_def substr_def find_byte_append_Cons find_byte_None_iff [THEN iffD2])

lemma segments_slash_append:
  "\<lbrakk>0x2f \<notin> set x; rest = [] \<or> hd rest = 0x2f\<rbrakk> \<Longrightarrow> segments (0x2f # x @ rest) = x # segments rest"
  by (rule split_path_segment_Some(1) [OF split_slash])

lemma url_tail_slash: "url_tail ss vs start = [] \<or> hd (url_tail ss vs start) = 0x2f"
  by (cases ss) auto

lemma segments_no_slash: "s \<in> set (segments path) \<Longrightarrow> 0x2f \<notin> set s"
  using parts_no_slash by (auto simp: segments_def split: if_splits)

lemma url_tail_matches:
  "\<lbrakk>url_valid ss vs start; [0x2a] \<notin> set (butlast ss); \<forall>s\<in>set ss. 0x2f \<notin> set s \<and> well_escaped s\<rbrakk> \<Longrightarrow>
     \<exists>captures. match_pattern (map slot_of ss) (url_tail ss vs start) = Some captures \<and>
       map (\<lambda>c. decode_url_component c Percent) captures = map Some vs"
proof (induction ss arbitrary: vs start)
  case Nil
  then show ?case by simp
next
  case (Cons s ss)
  have last: "s = [0x2a] \<longrightarrow> ss = []" using Cons.prems(2) by (cases ss) auto
  consider (wild) "s = [0x2a]" "ss = []" | (param) "s \<noteq> [0x2a]" "is_param s" | (literal) "s \<noteq> [0x2a]" "\<not> is_param s"
    using last by blast
  then show ?case
  proof cases
    case wild
    then have "length vs = 1" using Cons.prems(1) by simp
    then obtain v where vs: "vs = [v]" by (cases vs) auto
    have "percent_decode [] = Some []" by simp
    then show ?thesis using wild
      by (auto simp: vs slot_of_def decode_url_component percent_decode_encode)
  next
    case param
    then obtain v vs' where vs: "vs = v # vs'" "v \<noteq> []" "url_valid ss vs' False"
      using Cons.prems(1) by (cases vs) auto
    have "[0x2a] \<notin> set (butlast ss)" using Cons.prems(2) by (cases ss) auto
    then obtain captures where c: "match_pattern (map slot_of ss) (url_tail ss vs' False) = Some captures"
      "map (\<lambda>c. decode_url_component c Percent) captures = map Some vs'"
      using Cons.IH [OF vs(3)] Cons.prems(3) by auto
    have "encode False v \<noteq> []" using vs(2) by (cases v) (auto simp: encode_byte_def)
    moreover have "split_path_segment (0x2f # encode False v @ url_tail ss vs' False) = Some (encode False v, url_tail ss vs' False)"
      by (rule split_slash [OF encode_no_slash url_tail_slash]) simp
    moreover have "slot_of s = Param" using param by (simp add: slot_of_def)
    ultimately show ?thesis using param c
      by (intro exI [of _ "encode False v # captures"])
        (simp add: vs(1) decode_url_component percent_decode_encode)
  next
    case literal
    then have "url_valid ss vs False" using Cons.prems(1) by auto
    moreover have "[0x2a] \<notin> set (butlast ss)" using Cons.prems(2) by (cases ss) auto
    ultimately obtain captures where c: "match_pattern (map slot_of ss) (url_tail ss vs False) = Some captures"
      "map (\<lambda>c. decode_url_component c Percent) captures = map Some vs"
      using Cons.IH Cons.prems(3) by fastforce
    have "split_path_segment (0x2f # s @ url_tail ss vs False) = Some (s, url_tail ss vs False)"
      using split_slash [OF _ url_tail_slash] Cons.prems(3) by simp
    moreover have "slot_of s = Literal (units s)" using literal by (simp add: slot_of_def)
    ultimately show ?thesis using literal c Cons.prems(3) by simp
  qed
qed

lemma has_url_for_dot_segment_parts: "has_url_for_dot_segment v \<longleftrightarrow> (\<exists>s\<in>set (parts v). is_url_for_dot_segment s)"
proof (induction v rule: has_url_for_dot_segment.induct)
  case (1 v)
  show ?case
  proof (cases "find_byte 0x2f v")
    case None
    then show ?thesis by (subst has_url_for_dot_segment.simps) (simp add: parts_find [of v])
  next
    case (Some i)
    then show ?thesis using 1
      by (subst has_url_for_dot_segment.simps) (auto simp: parts_find [of v] substr_def Let_def)
  qed
qed

lemma encode_dot: "0x2f \<notin> set x \<or> \<not> keep \<Longrightarrow> is_dot_segment (encode keep x) \<longleftrightarrow> is_url_for_dot_segment x"
proof -
  assume "0x2f \<notin> set x \<or> \<not> keep"
  then have "units (encode keep x) = map uint x" using encode_units [of x keep "[]"] by simp
  moreover have "uint b = 0x2e \<longleftrightarrow> b = 0x2e" for b :: byte by (simp add: word_uint_eq_iff)
  then have "map uint x = [0x2e] \<longleftrightarrow> x = [0x2e]" "map uint x = [0x2e, 0x2e] \<longleftrightarrow> x = [0x2e, 0x2e]"
    by (cases x; cases "tl x"; auto)+
  ultimately show ?thesis by (simp add: is_dot_segment_units is_url_for_dot_segment_def)
qed

lemma parts_encode: "parts (encode True v) = map (encode True) (parts v)"
proof (induction v)
  case (Cons b v)
  show ?case
  proof (cases "b = 0x2f")
    case True
    then show ?thesis using Cons by (simp add: encode_byte_def url_for_plain_def)
  next
    case False
    have "0x2f \<notin> set (encode True [b])" by (rule encode_no_slash) (use False in simp)
    then have "0x2f \<notin> set (encode_byte True b)" by simp
    moreover have "0x2f \<notin> set xs \<Longrightarrow> parts (xs @ ys) = (xs @ hd (parts ys)) # tl (parts ys)" for xs ys
      by (induction xs) auto
    ultimately show ?thesis using False Cons by (cases "parts v") (use parts_not_Nil in auto)
  qed
qed simp

lemma url_tail_no_dot:
  "\<lbrakk>url_valid ss vs start; [0x2a] \<notin> set (butlast ss); \<forall>s\<in>set ss. 0x2f \<notin> set s \<and> \<not> is_dot_segment s\<rbrakk> \<Longrightarrow>
     \<forall>s\<in>set (segments (url_tail ss vs start)). \<not> is_dot_segment s"
proof (induction ss arbitrary: vs start)
  case Nil
  then show ?case by simp
next
  case (Cons s ss)
  have last: "s = [0x2a] \<longrightarrow> ss = []" using Cons.prems(2) by (cases ss) auto
  have bl: "[0x2a] \<notin> set (butlast ss)" using Cons.prems(2) by (cases ss) auto
  consider (wild) "s = [0x2a]" "ss = []" | (param) "s \<noteq> [0x2a]" "is_param s" | (literal) "s \<noteq> [0x2a]" "\<not> is_param s"
    using last by blast
  then show ?case
  proof cases
    case wild
    then obtain v where vs: "vs = [v]" "\<not> has_url_for_dot_segment v" using Cons.prems(1) by (cases vs) auto
    have "\<not> is_dot_segment []" by (simp add: is_dot_segment_def)
    moreover have "\<forall>p\<in>set (parts v). \<not> is_dot_segment (encode True p)"
      using vs(2) parts_no_slash by (auto simp: has_url_for_dot_segment_parts encode_dot)
    ultimately show ?thesis using wild
      by (auto simp: vs(1) segments_slash parts_encode)
  next
    case param
    then obtain v vs' where vs: "vs = v # vs'" "\<not> is_url_for_dot_segment v" "url_valid ss vs' False"
      using Cons.prems(1) by (cases vs) auto
    have "\<not> is_dot_segment (encode False v)" using vs(2) encode_dot [of v False] by simp
    then show ?thesis using param Cons.IH [OF vs(3) bl] Cons.prems(3) encode_no_slash [of v False]
      by (simp add: vs(1) segments_slash_append url_tail_slash)
  next
    case literal
    then have "url_valid ss vs False" using Cons.prems(1) by auto
    then show ?thesis using literal Cons.IH [OF _ bl] Cons.prems(3)
      by (simp add: segments_slash_append url_tail_slash)
  qed
qed

lemma url_for_Inr:
  assumes "url_for url_patterns pattern vals = Inr url"
  shows "url_valid (segments pattern) vals True" "url = url_tail (segments pattern) vals True"
proof -
  obtain m where check: "url_for_check pattern vals 0 0 = Inr (length vals, m)"
    and url: "url = url_for_build pattern vals 0 []"
    using assms by (auto simp: url_for_def split: if_splits sum.splits prod.splits)
  show valid: "url_valid (segments pattern) vals True" using url_for_check [OF check] by simp
  show "url = url_tail (segments pattern) vals True"
    using url_for_build [of pattern 0 vals True "[]"] valid by (simp add: url)
qed

text \<open>The size reserved for the URL is its length.\<close>

lemma url_for_size:
  assumes "url_for_check pattern vals 0 0 = Inr (length vals, m)"
  shows "m = length (url_for_build pattern vals 0 [])"
  using url_for_check [OF assms] url_for_build [of pattern 0 vals True "[]"] by simp

end
