(* ===== verification/Router.thy ===== *)
theory Router
  imports Route_Index Url_For
begin

text \<open>
  The router: registration of routes (\<open>router.cpp\<close>, \<open>router_registration.cpp\<close>), compilation of the plan
  (\<open>router_build.cpp\<close>, \<open>router_dynamic_index_build.cpp\<close>, \<open>router_index_build.cpp\<close>) and resolution of a request
  (\<open>router_index.cpp\<close>, \<open>route_resolution.h\<close>).
\<close>

subsection \<open>Registration\<close>

datatype router_error =
    Invalid_method_token
  | Known_method_token
  | Tunnel_requires_connect
  | Connect_requires_authority
  | Tunnel_requires_origin_path
  | Method_not_routable
  | Extension_route_not_static
  | Path_not_origin_form
  | Path_has_dot_segment
  | Duplicate_connect_route
  | Duplicate_route
  | Conflicting_dynamic_routes
  | Dynamic_route_error route_error

record router_state =
  rs_routes :: "route_entry list"
  rs_route_hashes :: "u64 list"

definition validate_route_target ::
  "http_known_method \<Rightarrow> bytes \<Rightarrow> bytes \<Rightarrow> route_endpoint \<Rightarrow> router_error option" where
  "validate_route_target m method_token path endpoint =
     (case endpoint of
        Tunnel protocol \<Rightarrow>
          if m \<noteq> Connect \<or> method_token \<noteq> [] then Some Tunnel_requires_connect
          else if protocol = [] then
            (if path \<noteq> [0x2a] \<and> \<not> is_valid_http_connect_authority path then Some Connect_requires_authority else None)
          else if find_byte 0x3f path \<noteq> None \<or> \<not> is_valid_origin_form_target path \<or> has_dot_segment path then
            Some Tunnel_requires_origin_path
          else None
      | _ \<Rightarrow>
          if method_token = [] \<and> \<not> is_routable_method m then Some Method_not_routable
          else if method_token \<noteq> [] \<and> is_dynamic_path path then Some Extension_route_not_static
          else if find_byte 0x3f path \<noteq> None \<or> \<not> is_valid_origin_form_target path then Some Path_not_origin_form
          else if has_dot_segment path then Some Path_has_dot_segment
          else None)"

definition registration_hash :: "http_known_method \<Rightarrow> bytes \<Rightarrow> bytes \<Rightarrow> route_endpoint \<Rightarrow> u64" where
  "registration_hash m method_token path endpoint =
     (let hash = route_hash m (path_hash (case endpoint of Tunnel protocol \<Rightarrow> protocol | _ \<Rightarrow> path)) in
      if method_token \<noteq> [] then hash XOR path_hash method_token else hash)"

definition duplicates :: "http_known_method \<Rightarrow> bytes \<Rightarrow> bytes \<Rightarrow> route_endpoint \<Rightarrow> route_entry \<Rightarrow> bool" where
  "duplicates m method_token path endpoint registered =
     (if re_method registered \<noteq> m \<or> re_method_token registered \<noteq> method_token then False
      else (case endpoint of
          Tunnel protocol \<Rightarrow>
            (case re_endpoint registered of
               Tunnel registered_protocol \<Rightarrow>
                 registered_protocol = protocol \<and>
                 (if protocol = [] then re_path registered = path \<or> authority_matches_host path (re_path registered) 0
                  else same_route_pattern (re_path registered) path)
             | _ \<Rightarrow> False)
        | _ \<Rightarrow> same_route_pattern (re_path registered) path))"

fun has_duplicate ::
  "u64 list \<Rightarrow> route_entry list \<Rightarrow> u64 \<Rightarrow> http_known_method \<Rightarrow> bytes \<Rightarrow> bytes \<Rightarrow> route_endpoint \<Rightarrow> bool" where
  "has_duplicate (h # hashes) (registered # routes) hash m method_token path endpoint =
     (if h \<noteq> hash then has_duplicate hashes routes hash m method_token path endpoint
      else if duplicates m method_token path endpoint registered then True
      else has_duplicate hashes routes hash m method_token path endpoint)"
| "has_duplicate _ _ hash m method_token path endpoint = False"

definition register_endpoint ::
  "router_state \<Rightarrow> http_known_method \<Rightarrow> bytes \<Rightarrow> bytes \<Rightarrow> route_endpoint \<Rightarrow> router_error + router_state" where
  "register_endpoint s m method_token path endpoint =
     (if method_token \<noteq> [] \<and> \<not> is_valid_http_method_token method_token then Inl Invalid_method_token
      else if method_token \<noteq> [] \<and> classify_http_method method_token \<noteq> Unknown then Inl Known_method_token
      else (case validate_route_target m method_token path endpoint of
          Some e \<Rightarrow> Inl e
        | None \<Rightarrow>
            (let hash = registration_hash m method_token path endpoint in
             if has_duplicate (rs_route_hashes s) (rs_routes s) hash m method_token path endpoint then
               Inl (if is_tunnel endpoint then Duplicate_connect_route else Duplicate_route)
             else Inr \<lparr>rs_routes = rs_routes s @
                 [\<lparr>re_index = length (rs_routes s), re_method = m, re_method_token = method_token, re_path = path,
                   re_endpoint = endpoint,
                   re_dynamic = ((\<not> is_tunnel endpoint \<or> tunnel_protocol endpoint \<noteq> []) \<and> is_dynamic_path path),
                   re_param_names = []\<rparr>],
               rs_route_hashes = rs_route_hashes s @ [hash]\<rparr>)))"

fun register_all ::
  "router_state \<Rightarrow> (http_known_method \<times> bytes \<times> bytes \<times> route_endpoint) list \<Rightarrow> router_error + router_state" where
  "register_all s [] = Inr s"
| "register_all s ((m, method_token, path, endpoint) # calls) =
     (case register_endpoint s m method_token path endpoint of
        Inl e \<Rightarrow> Inl e
      | Inr s \<Rightarrow> register_all s calls)"

subsection \<open>Compilation\<close>

definition routes_conflict :: "route_entry \<Rightarrow> route_entry \<Rightarrow> bool" where
  "routes_conflict left right =
     (if \<not> re_dynamic left then False
      else if \<not> re_dynamic right \<or> re_method left \<noteq> re_method right then False
      else if is_tunnel (re_endpoint left) \<noteq> is_tunnel (re_endpoint right) \<or>
              is_tunnel (re_endpoint left) \<and> tunnel_protocol (re_endpoint left) \<noteq> tunnel_protocol (re_endpoint right) then False
      else same_dynamic_shape (re_path left) (re_path right))"

fun has_dynamic_conflict :: "route_entry list \<Rightarrow> bool" where
  "has_dynamic_conflict [] = False"
| "has_dynamic_conflict (left # routes) =
     (if list_ex (routes_conflict left) routes then True else has_dynamic_conflict routes)"

definition method_bit :: "http_known_method \<Rightarrow> u32" where
  "method_bit m = push_bit (method_index m) 1"

definition static_method_mask :: "route_entry list \<Rightarrow> u32" where
  "static_method_mask routes =
     foldl (\<lambda>acc route. if is_routable_method (re_method route) \<and> \<not> re_dynamic route
       then acc OR method_bit (re_method route) else acc) 0 routes"

record dynamic_index =
  di_roots :: "dynamic_node list"
  di_protocols :: "(bytes \<times> dynamic_node) list"
  di_mask :: u32

fun protocol_index :: "(bytes \<times> dynamic_node) list \<Rightarrow> bytes \<Rightarrow> nat option" where
  "protocol_index [] protocol = None"
| "protocol_index (p # ps) protocol = (if fst p = protocol then Some 0 else map_option Suc (protocol_index ps protocol))"

text \<open>One dynamic route goes into the trie of its method, or of its protocol; it learns its parameter names.\<close>

definition add_dynamic :: "dynamic_index \<Rightarrow> route_entry \<Rightarrow> route_error + dynamic_index \<times> route_entry" where
  "add_dynamic d route =
     (if \<not> re_dynamic route then Inr (d, route)
      else if is_tunnel (re_endpoint route) then
        (let protocol = tunnel_protocol (re_endpoint route);
             (protocols, i) = (case protocol_index (di_protocols d) protocol of
                 Some i \<Rightarrow> (di_protocols d, i)
               | None \<Rightarrow> (di_protocols d @ [(protocol, empty_node)], length (di_protocols d))) in
         case insert_dynamic (re_path route) (re_index route) (snd (protocols ! i)) (re_param_names route) of
           Inl e \<Rightarrow> Inl e
         | Inr (root, names) \<Rightarrow>
             Inr (d\<lparr>di_protocols := protocols [i := (fst (protocols ! i), root)]\<rparr>, route\<lparr>re_param_names := names\<rparr>))
      else
        (let i = method_index (re_method route) in
         case insert_dynamic (re_path route) (re_index route) (di_roots d ! i) (re_param_names route) of
           Inl e \<Rightarrow> Inl e
         | Inr (root, names) \<Rightarrow>
             Inr (d\<lparr>di_roots := (di_roots d) [i := root], di_mask := di_mask d OR method_bit (re_method route)\<rparr>,
                  route\<lparr>re_param_names := names\<rparr>)))"

fun add_all_dynamic :: "dynamic_index \<Rightarrow> route_entry list \<Rightarrow> route_error + dynamic_index \<times> route_entry list" where
  "add_all_dynamic d [] = Inr (d, [])"
| "add_all_dynamic d (route # routes) =
     (case add_dynamic d route of
        Inl e \<Rightarrow> Inl e
      | Inr (d, route) \<Rightarrow>
          (case add_all_dynamic d routes of
             Inl e \<Rightarrow> Inl e
           | Inr (d, routes) \<Rightarrow> Inr (d, route # routes)))"

definition build_dynamic_routes :: "route_entry list \<Rightarrow> route_error + dynamic_index \<times> route_entry list" where
  "build_dynamic_routes routes =
     (case add_all_dynamic \<lparr>di_roots = replicate routable_method_count empty_node, di_protocols = [], di_mask = 0\<rparr> routes of
        Inl e \<Rightarrow> Inl e
      | Inr (d, routes) \<Rightarrow>
          Inr (d\<lparr>di_protocols := map (\<lambda>(protocol, root). (protocol, sort_dynamic_node root)) (di_protocols d),
                 di_roots := map sort_dynamic_node (di_roots d)\<rparr>, routes))"

fun extension_paths_from :: "route_entry list \<Rightarrow> (bytes \<times> bytes list) list \<Rightarrow> (bytes \<times> bytes list) list" where
  "extension_paths_from [] paths = paths"
| "extension_paths_from (route # routes) paths =
     (if list_ex (\<lambda>entry. uri_paths_equivalent (fst entry) (re_path route)) paths then extension_paths_from routes paths
      else extension_paths_from routes
        (paths @ [(re_path route,
           map re_method_token (filter (\<lambda>r. uri_paths_equivalent (re_path r) (re_path route)) (route # routes)))]))"

definition build_url_patterns :: "route_entry list \<Rightarrow> bytes list" where
  "build_url_patterns routes =
     remdups_adj (sort (map re_path (filter (\<lambda>r. \<not> (is_tunnel (re_endpoint r) \<and> tunnel_protocol (re_endpoint r) = [])) routes)))"

record compiled_route_plan =
  plan_routes :: "route_entry list"
  plan_extension_indices :: "nat list"
  plan_extension_paths :: "(bytes \<times> bytes list) list"
  plan_connect_indices :: "nat list"
  plan_static :: "static_slot list \<times> nat"
  plan_static_mask :: u32
  plan_dynamic :: dynamic_index
  plan_url_patterns :: "bytes list"

text \<open>\<open>None\<close> is an index build that does not end, \<open>Inl\<close> a rejected plan.\<close>

definition compile_plan :: "route_entry list \<Rightarrow> (router_error + compiled_route_plan) option" where
  "compile_plan routes =
     (if has_dynamic_conflict routes then Some (Inl Conflicting_dynamic_routes)
      else let extension = filter (\<lambda>r. re_method r = Unknown) routes in
        (case build_static_index routes of
           None \<Rightarrow> None
         | Some static \<Rightarrow>
             (case build_dynamic_routes routes of
                Inl e \<Rightarrow> Some (Inl (Dynamic_route_error e))
              | Inr (d, named) \<Rightarrow>
                  Some (Inr \<lparr>plan_routes = named,
                    plan_extension_indices = map re_index extension,
                    plan_extension_paths = extension_paths_from extension [],
                    plan_connect_indices = map re_index (filter (\<lambda>r. is_tunnel (re_endpoint r)) routes),
                    plan_static = static,
                    plan_static_mask = static_method_mask routes,
                    plan_dynamic = d,
                    plan_url_patterns = build_url_patterns named\<rparr>))))"

subsection \<open>Resolution\<close>

datatype route_resolution = Not_found | Method_not_allowed u32 "bytes list" | Resolved nat "bytes list" | Rejected

definition method_not_allowed :: "u32 \<Rightarrow> bytes list \<Rightarrow> route_resolution" where
  "method_not_allowed allowed extension =
     (if allowed = 0 \<and> extension = [] then Not_found else Method_not_allowed allowed extension)"

definition has_bit :: "u32 \<Rightarrow> http_known_method \<Rightarrow> bool" where
  "has_bit bits m \<longleftrightarrow> bits AND method_bit m \<noteq> 0"

definition find_static :: "compiled_route_plan \<Rightarrow> http_known_method \<Rightarrow> bytes \<Rightarrow> u64 \<Rightarrow> nat option option" where
  "find_static plan m path hash = find_static_route (plan_routes plan) (plan_static plan) m path hash"

definition find_dynamic_route :: "compiled_route_plan \<Rightarrow> http_known_method \<Rightarrow> bytes \<Rightarrow> (nat \<times> bytes list) option" where
  "find_dynamic_route plan m path =
     (if \<not> is_routable_method m then None
      else if \<not> has_bit (di_mask (plan_dynamic plan)) m then None
      else (case find_dynamic_node (di_roots (plan_dynamic plan) ! method_index m) path [] of
          (None, _) \<Rightarrow> None
        | (Some r, match) \<Rightarrow>
            if length match \<noteq> length (re_param_names (plan_routes plan ! r)) then None else Some (r, match)))"

definition countr_zero32 :: "u32 \<Rightarrow> nat" where
  "countr_zero32 w = length (takeWhile (\<lambda>n. \<not> bit w n) [0..<32])"

lemma countr_zero32_bit: "w \<noteq> 0 \<Longrightarrow> bit w (countr_zero32 w) \<and> countr_zero32 w < 32"
proof -
  assume "w \<noteq> 0"
  then obtain n where "bit w n" using bit_eq_iff [of w 0] by auto
  then have n: "n < 32" "bit w n" using bit_imp_le_length [of w n] by simp_all
  have "length (takeWhile (\<lambda>n. \<not> bit w n) [0..<32]) < length [0..<32]"
  proof (rule ccontr)
    assume "\<not> ?thesis"
    then have "takeWhile (\<lambda>n. \<not> bit w n) [0..<32] = [0..<32]"
      using takeWhile_eq_take [of "\<lambda>n. \<not> bit w n" "[0..<32]"] by simp
    then show False using n by (metis atLeastLessThan_iff set_takeWhileD set_upt zero_le)
  qed
  then show ?thesis using nth_length_takeWhile [of "\<lambda>n. \<not> bit w n" "[0..<32]"] by (simp add: countr_zero32_def)
qed

lemma clear_bit_less: "w \<noteq> 0 \<Longrightarrow> unat (w AND NOT (push_bit (countr_zero32 w) 1)) < unat w"
proof -
  assume w: "w \<noteq> 0"
  let ?c = "w AND NOT (push_bit (countr_zero32 w) 1)"
  have "\<not> bit ?c (countr_zero32 w)" using countr_zero32_bit [OF w] by (simp add: bit_simps)
  then have "?c \<noteq> w" using countr_zero32_bit [OF w] by metis
  moreover have "?c \<le> w" by (rule word_and_le2)
  ultimately show ?thesis by (simp add: word_less_nat_alt [symmetric])
qed

lemma clear_power_less: "w \<noteq> 0 \<Longrightarrow> unat (w AND NOT (2 ^ countr_zero32 w)) < unat w"
  using clear_bit_less [of w] by (simp add: push_bit_eq_mult)

definition method_of_index :: "nat \<Rightarrow> http_known_method" where
  "method_of_index i = (if i < 8 then [Get, Post, Put, Delete_value, Patch, Head, Options, Connect] ! i else Unknown)"

text \<open>What a resource offers under one method: its static route, else the one its trie finds.\<close>

definition offered :: "compiled_route_plan \<Rightarrow> http_known_method \<Rightarrow> bytes \<Rightarrow> u64 \<Rightarrow> nat option option" where
  "offered plan m path hash =
     (case (if has_bit (plan_static_mask plan) m then find_static plan m path hash else Some None) of
        None \<Rightarrow> None
      | Some (Some r) \<Rightarrow> Some (Some r)
      | Some None \<Rightarrow>
          Some (if has_bit (di_mask (plan_dynamic plan)) m
            then find_dynamic_node_no_params (di_roots (plan_dynamic plan) ! method_index m) path else None))"

function allowed_from :: "compiled_route_plan \<Rightarrow> bytes \<Rightarrow> u64 \<Rightarrow> u32 \<Rightarrow> u32 \<Rightarrow> u32 option" where
  "allowed_from plan path hash candidates allowed =
     (if candidates = 0 then Some allowed
      else let i = countr_zero32 candidates; m = method_of_index i;
          candidates' = candidates AND NOT (push_bit i 1) in
        (case offered plan m path hash of
           None \<Rightarrow> None
         | Some None \<Rightarrow> allowed_from plan path hash candidates' allowed
         | Some (Some r) \<Rightarrow>
             (let allowed' = allowed OR push_bit i 1 in
              allowed_from plan path hash candidates'
                (if supports_head_fallback (plan_routes plan ! r) then allowed' OR method_bit Head else allowed'))))"
  by pat_completeness auto
termination
  by (relation "measure (\<lambda>(_, _, _, candidates, _). unat candidates)") (auto simp: clear_power_less)

declare allowed_from.simps [simp del]

definition allowed_methods :: "compiled_route_plan \<Rightarrow> bytes \<Rightarrow> u64 \<Rightarrow> u32 \<Rightarrow> u32 \<Rightarrow> u32 option" where
  "allowed_methods plan path hash excluded initial =
     allowed_from plan path hash ((plan_static_mask plan OR di_mask (plan_dynamic plan)) AND NOT excluded) initial"

definition extension_methods_for :: "compiled_route_plan \<Rightarrow> bytes \<Rightarrow> bytes list" where
  "extension_methods_for plan path =
     (case find (\<lambda>entry. uri_paths_equivalent (fst entry) path) (plan_extension_paths plan) of
        None \<Rightarrow> [] | Some entry \<Rightarrow> snd entry)"

definition not_allowed :: "compiled_route_plan \<Rightarrow> bytes \<Rightarrow> u64 \<Rightarrow> u32 \<Rightarrow> u32 \<Rightarrow> route_resolution option" where
  "not_allowed plan path hash excluded initial =
     map_option (\<lambda>allowed.
       let extension = extension_methods_for plan path in
       method_not_allowed (if allowed \<noteq> 0 \<or> extension \<noteq> [] then allowed OR method_bit Options else allowed) extension)
     (allowed_methods plan path hash excluded initial)"

definition resolve_method :: "compiled_route_plan \<Rightarrow> http_known_method \<Rightarrow> bytes \<Rightarrow> route_resolution option" where
  "resolve_method plan m path =
     (if m = Options \<and> path = [0x2a] then Some Not_found
      else let has_static_method = is_routable_method m \<and> has_bit (plan_static_mask plan) m;
          hash = (if has_static_method then path_hash path else 0) in
        (case (if has_static_method then find_static plan m path hash else Some None) of
           None \<Rightarrow> None
         | Some (Some r) \<Rightarrow> Some (Resolved r [])
         | Some None \<Rightarrow>
             (case find_dynamic_route plan m path of
                Some (r, match) \<Rightarrow> Some (Resolved r match)
              | None \<Rightarrow>
                  (let hash = (if \<not> has_static_method \<and> plan_static_mask plan \<noteq> 0 then path_hash path else hash);
                       excluded = (if is_routable_method m then method_bit m else 0) in
                   if m = Head then
                     (case (if has_bit (plan_static_mask plan) Get then find_static plan Get path hash else Some None) of
                        None \<Rightarrow> None
                      | Some static \<Rightarrow>
                          (let fallback = (case static of
                               Some r \<Rightarrow> Some (r, []) | None \<Rightarrow> find_dynamic_route plan Get path) in
                           case fallback of
                             Some (r, match) \<Rightarrow>
                               if supports_head_fallback (plan_routes plan ! r) then Some (Resolved r match)
                               else not_allowed plan path hash (excluded OR method_bit Get) (method_bit Get)
                           | None \<Rightarrow> not_allowed plan path hash (excluded OR method_bit Get) 0))
                   else not_allowed plan path hash excluded 0))))"

fun resolve_extension_from ::
  "compiled_route_plan \<Rightarrow> bytes \<Rightarrow> bytes \<Rightarrow> nat list \<Rightarrow> bool \<Rightarrow> nat option \<times> bool" where
  "resolve_extension_from plan method_token path [] recognized = (None, recognized)"
| "resolve_extension_from plan method_token path (i # indices) recognized =
     (if re_method_token (plan_routes plan ! i) \<noteq> method_token then
        resolve_extension_from plan method_token path indices recognized
      else if uri_paths_equivalent (re_path (plan_routes plan ! i)) path then (Some i, True)
      else resolve_extension_from plan method_token path indices True)"

definition resolve_extension_method :: "compiled_route_plan \<Rightarrow> bytes \<Rightarrow> bytes \<Rightarrow> route_resolution option" where
  "resolve_extension_method plan method_token path =
     (case resolve_extension_from plan method_token path (plan_extension_indices plan) False of
        (Some r, _) \<Rightarrow> Some (Resolved r [])
      | (None, recognized) \<Rightarrow>
          if \<not> recognized then Some Not_found
          else not_allowed plan path (if plan_static_mask plan \<noteq> 0 then path_hash path else 0) 0 0)"

definition recognizes_method_token :: "compiled_route_plan \<Rightarrow> bytes \<Rightarrow> bool" where
  "recognizes_method_token plan method_token \<longleftrightarrow>
     list_ex (\<lambda>i. re_method_token (plan_routes plan ! i) = method_token) (plan_extension_indices plan)"

fun connect_scan ::
  "compiled_route_plan \<Rightarrow> bytes \<Rightarrow> bytes \<Rightarrow> nat list \<Rightarrow> nat option \<Rightarrow> nat option \<times> nat option" where
  "connect_scan plan protocol target [] fallback = (None, fallback)"
| "connect_scan plan protocol target (i # indices) fallback =
     (let route = plan_routes plan ! i in
      if tunnel_protocol (re_endpoint route) \<noteq> protocol then connect_scan plan protocol target indices fallback
      else if \<not> re_dynamic route \<and>
        (if protocol = [] then authority_matches_host (re_path route) target 0
         else uri_paths_equivalent (re_path route) target) then (Some i, fallback)
      else connect_scan plan protocol target indices
        (if protocol = [] \<and> re_path route = [0x2a] then Some i else fallback))"

definition resolve_connect :: "compiled_route_plan \<Rightarrow> bytes \<Rightarrow> bytes \<Rightarrow> route_resolution" where
  "resolve_connect plan protocol target =
     (case connect_scan plan protocol target (plan_connect_indices plan) None of
        (Some r, _) \<Rightarrow> Resolved r []
      | (None, fallback) \<Rightarrow>
          (let found = (if protocol \<noteq> [] then
               (case find (\<lambda>index. fst index = protocol) (di_protocols (plan_dynamic plan)) of
                  None \<Rightarrow> (None, []) | Some index \<Rightarrow> find_dynamic_node (snd index) target [])
             else (None, [])) in
           case found of
             (Some r, match) \<Rightarrow> Resolved r match
           | (None, _) \<Rightarrow> (case fallback of None \<Rightarrow> Not_found | Some r \<Rightarrow> Resolved r [])))"

definition is_routable_origin_or_asterisk_path :: "http_known_method \<Rightarrow> bytes \<Rightarrow> bool" where
  "is_routable_origin_or_asterisk_path m path \<longleftrightarrow>
     path \<noteq> [] \<and> (hd path = 0x2f \<or> path = [0x2a] \<and> m = Options) \<and> \<not> has_dot_segment path"

record route_request_view =
  rr_known_method :: http_known_method
  rr_method :: bytes
  rr_path :: bytes
  rr_connect_target :: bytes
  rr_extended_protocol :: bytes

text \<open>The resolution of a request head of HTTP/2 and HTTP/3 (\<open>resolve(route_request_view)\<close>).\<close>

definition resolve :: "compiled_route_plan \<Rightarrow> route_request_view \<Rightarrow> route_resolution option" where
  "resolve plan request =
     (if rr_known_method request = Connect \<and> rr_extended_protocol request = [] then
        Some (resolve_connect plan [] (rr_connect_target request))
      else let path = rr_path request in
        if \<not> is_routable_origin_or_asterisk_path (rr_known_method request) path then Some Rejected
        else if rr_known_method request = Connect then
          (if rr_extended_protocol request = ascii ''websocket'' then
             (case resolve_method plan Get path of
                None \<Rightarrow> None
              | Some websocket \<Rightarrow>
                  Some (case websocket of
                    Resolved r match \<Rightarrow> if re_endpoint (plan_routes plan ! r) = Websocket then websocket else Rejected
                  | _ \<Rightarrow> Rejected))
           else Some (resolve_connect plan (rr_extended_protocol request) path))
        else if rr_known_method request = Unknown then resolve_extension_method plan (rr_method request) path
        else resolve_method plan (rr_known_method request) path)"

text \<open>
  The resolution of an HTTP/1 request (\<open>resolve(http_request)\<close>); whether its fields ask for a \<open>connect-udp\<close> upgrade
  is a parameter.
\<close>

definition resolve_request ::
  "compiled_route_plan \<Rightarrow> bool \<Rightarrow> http_known_method \<Rightarrow> bytes \<Rightarrow> bytes \<Rightarrow> route_resolution option" where
  "resolve_request plan connect_udp_upgrade m method_token path =
     (if m = Connect then Some (resolve_connect plan [] path)
      else if \<not> is_routable_origin_or_asterisk_path m path then Some Rejected
      else case (if connect_udp_upgrade then resolve_connect plan (ascii ''connect-udp'') path else Not_found) of
        Resolved r match \<Rightarrow> Some (Resolved r match)
      | _ \<Rightarrow>
          if m = Unknown then resolve_extension_method plan method_token path
          else resolve_method plan m path)"

end
