(* ===== verification/Router_Registration.thy ===== *)
theory Router_Registration
  imports Router
begin

text \<open>
  What registration guarantees of the routes of a plan: their indices, the syntax of their paths, and that no two of
  them are the same route. Comparing hashes first loses no duplicate.
\<close>

subsection \<open>Paths in origin form\<close>

lemma take_notin: "find_byte c xs = Some i \<Longrightarrow> c \<notin> set (take i xs)"
  by (auto simp: find_byte_Some_iff in_set_conv_nth)

lemma split_origin_form:
  assumes "split_origin_form_target target = Some (path, query)"
  shows "path \<noteq> []" "hd path = 0x2f" "0x3f \<notin> set path" "well_escaped path" "well_escaped query"
    "target = path @ (if 0x3f \<in> set target then 0x3f # query else [])"
proof -
  define separator where "separator = find_byte 0x3f target"
  have target: "target \<noteq> []" "hd target = 0x2f"
    and path: "path = (case separator of None \<Rightarrow> target | Some i \<Rightarrow> substr target 0 i)"
    and query: "query = (case separator of None \<Rightarrow> [] | Some i \<Rightarrow> drop (i + 1) target)"
    and valid: "is_valid_uri_component path True False" "is_valid_uri_component query True True"
    using assms by (auto simp: split_origin_form_target_def separator_def Let_def split: if_splits)
  show "well_escaped path" "well_escaped query" using valid uri_component_well_formed by auto
  have "path \<noteq> [] \<and> hd path = 0x2f \<and> 0x3f \<notin> set path \<and> target = path @ (if 0x3f \<in> set target then 0x3f # query else [])"
  proof (cases separator)
    case None
    then have "0x3f \<notin> set target" using find_byte_None_iff [of "0x3f" target] by (simp add: separator_def)
    then show ?thesis using None target path query by simp
  next
    case (Some i)
    then have i: "i < length target" "target ! i = 0x3f" "0x3f \<notin> set (take i target)"
      using find_byte_Some_iff [of "0x3f" target i] take_notin [of "0x3f" target i] by (auto simp: separator_def)
    then have "i \<noteq> 0" using target by (cases i) (simp_all add: hd_conv_nth)
    moreover have "target = take i target @ 0x3f # drop (i + 1) target" using i id_take_nth_drop by fastforce
    moreover have "0x3f \<in> set target" using i(1,2) nth_mem by metis
    ultimately show ?thesis using Some target path query i(3)
      by (cases target; cases i) (auto simp: substr_def)
  qed
  then show "path \<noteq> []" "hd path = 0x2f" "0x3f \<notin> set path"
    "target = path @ (if 0x3f \<in> set target then 0x3f # query else [])" by auto
qed

lemma origin_form_path:
  assumes "is_valid_origin_form_target path" "find_byte 0x3f path = None"
  shows "path \<noteq> []" "hd path = 0x2f" "well_escaped path"
proof -
  obtain p q where pq: "split_origin_form_target path = Some (p, q)"
    using assms(1) by (auto simp: is_valid_origin_form_target_def)
  have "0x3f \<notin> set path" using assms(2) by (simp add: find_byte_None_iff)
  then have "path = p" using split_origin_form(6) [OF pq] by simp
  then show "path \<noteq> []" "hd path = 0x2f" "well_escaped path" using split_origin_form(1,2,4) [OF pq] by simp_all
qed

lemma segments_well_formed:
  assumes "path \<noteq> []" "hd path = 0x2f" "well_escaped path"
  shows "\<forall>s\<in>set (segments path). well_escaped s"
proof -
  obtain p where "path = 0x2f # p" using assms by (cases path) auto
  then show ?thesis using assms(3) well_formed_parts [of path] by (auto simp: segments_slash)
qed

lemma equivalent_iff_segments:
  assumes "left \<noteq> []" "hd left = 0x2f" "right \<noteq> []" "hd right = 0x2f"
  shows "uri_paths_equivalent left right \<longleftrightarrow> list_all2 uri_paths_equivalent (segments left) (segments right)"
proof -
  obtain l r where "left = 0x2f # l" "right = 0x2f # r" using assms by (cases left; cases right) auto
  moreover have "uri_paths_equivalent [] []" by (simp add: uri_paths_equivalent_units well_escaped_def)
  ultimately show ?thesis using equivalent_parts [of left right] by (simp add: segments_slash)
qed

subsection \<open>Registered routes\<close>

definition entry_ok :: "route_entry \<Rightarrow> bool" where
  "entry_ok r \<longleftrightarrow>
     re_param_names r = [] \<and>
     re_dynamic r = ((\<not> is_tunnel (re_endpoint r) \<or> tunnel_protocol (re_endpoint r) \<noteq> []) \<and> is_dynamic_path (re_path r)) \<and>
     (is_tunnel (re_endpoint r) \<longrightarrow> re_method r = Connect \<and> re_method_token r = []) \<and>
     (is_tunnel (re_endpoint r) \<longrightarrow> tunnel_protocol (re_endpoint r) \<noteq> [] \<longrightarrow>
        is_valid_origin_form_target (re_path r) \<and> find_byte 0x3f (re_path r) = None \<and> \<not> has_dot_segment (re_path r)) \<and>
     (\<not> is_tunnel (re_endpoint r) \<longrightarrow>
        is_valid_origin_form_target (re_path r) \<and> find_byte 0x3f (re_path r) = None \<and> \<not> has_dot_segment (re_path r) \<and>
        (if re_method_token r = [] then is_routable_method (re_method r)
         else re_method r = Unknown \<and> \<not> is_dynamic_path (re_path r)))"

definition entry_duplicates :: "route_entry \<Rightarrow> route_entry \<Rightarrow> bool" where
  "entry_duplicates registered r =
     duplicates (re_method r) (re_method_token r) (re_path r) (re_endpoint r) registered"

definition routes_ok :: "route_entry list \<Rightarrow> bool" where
  "routes_ok routes \<longleftrightarrow> indices_ok routes \<and> (\<forall>r\<in>set routes. entry_ok r) \<and>
     (\<forall>i j. i < j \<longrightarrow> j < length routes \<longrightarrow> \<not> entry_duplicates (routes ! i) (routes ! j))"

definition state_ok :: "router_state \<Rightarrow> bool" where
  "state_ok s \<longleftrightarrow> routes_ok (rs_routes s) \<and>
     rs_route_hashes s =
       map (\<lambda>r. registration_hash (re_method r) (re_method_token r) (re_path r) (re_endpoint r)) (rs_routes s)"

lemma entry_path:
  assumes "entry_ok r" "\<not> is_tunnel (re_endpoint r) \<or> tunnel_protocol (re_endpoint r) \<noteq> []"
  shows "re_path r \<noteq> []" "hd (re_path r) = 0x2f" "well_escaped (re_path r)"
  using assms origin_form_path [of "re_path r"] by (auto simp: entry_ok_def)

text \<open>The hash of a route is that of its duplicates.\<close>

lemma duplicates_hash:
  assumes "entry_ok registered" "entry_ok r" "entry_duplicates registered r"
  shows "registration_hash (re_method registered) (re_method_token registered) (re_path registered) (re_endpoint registered) =
    registration_hash (re_method r) (re_method_token r) (re_path r) (re_endpoint r)"
proof -
  have same: "re_method registered = re_method r" "re_method_token registered = re_method_token r"
    using assms(3) by (auto simp: entry_duplicates_def duplicates_def split: if_splits)
  show ?thesis
  proof (cases "is_tunnel (re_endpoint r)")
    case True
    then show ?thesis using assms(3) same
      by (auto simp: entry_duplicates_def duplicates_def registration_hash_def is_tunnel_def split: route_endpoint.splits if_splits)
  next
    case False
    have "re_method r \<noteq> Connect"
      using assms(2) False by (auto simp: entry_ok_def is_routable_method_def routable_method_count_def method_index_def split: if_splits)
    then have registered: "\<not> is_tunnel (re_endpoint registered)" using assms(1) same by (auto simp: entry_ok_def)
    have "same_route_pattern (re_path registered) (re_path r)"
      using assms(3) False by (cases "re_endpoint r") (auto simp: entry_duplicates_def duplicates_def is_tunnel_def split: if_splits)
    then have "list_all2 uri_paths_equivalent (segments (re_path registered)) (segments (re_path r))"
      by (auto simp: same_route_pattern_segments elim: list_all2_mono)
    then have "uri_paths_equivalent (re_path registered) (re_path r)"
      using equivalent_iff_segments entry_path [OF assms(1)] entry_path [OF assms(2)] registered False by blast
    then have "path_hash (re_path registered) = path_hash (re_path r)" by (rule path_hash_equivalent)
    then show ?thesis using same False registered
      by (cases "re_endpoint r"; cases "re_endpoint registered") (auto simp: registration_hash_def is_tunnel_def)
  qed
qed

lemma has_duplicate_exact:
  assumes "\<forall>r\<in>set routes. entry_ok r" "entry_ok new"
  shows "has_duplicate (map (\<lambda>r. registration_hash (re_method r) (re_method_token r) (re_path r) (re_endpoint r)) routes) routes
      (registration_hash (re_method new) (re_method_token new) (re_path new) (re_endpoint new))
      (re_method new) (re_method_token new) (re_path new) (re_endpoint new) \<longleftrightarrow>
    (\<exists>r\<in>set routes. entry_duplicates r new)"
  using assms(1)
proof (induction routes)
  case (Cons r routes)
  then show ?case using duplicates_hash [of r new] assms(2) by (auto simp: entry_duplicates_def)
qed simp

lemma register_endpoint_ok:
  assumes "state_ok s" "method_token \<noteq> [] \<longrightarrow> m = Unknown"
    and "register_endpoint s m method_token path endpoint = Inr s'"
  shows "state_ok s'"
    and "\<exists>new. rs_routes s' = rs_routes s @ [new] \<and> re_method new = m \<and> re_method_token new = method_token \<and>
      re_path new = path \<and> re_endpoint new = endpoint"
proof -
  define new where "new = \<lparr>re_index = length (rs_routes s), re_method = m, re_method_token = method_token, re_path = path,
       re_endpoint = endpoint,
       re_dynamic = ((\<not> is_tunnel endpoint \<or> tunnel_protocol endpoint \<noteq> []) \<and> is_dynamic_path path),
       re_param_names = []\<rparr>"
  define hash where "hash = registration_hash m method_token path endpoint"
  have s': "s' = \<lparr>rs_routes = rs_routes s @ [new], rs_route_hashes = rs_route_hashes s @ [hash]\<rparr>"
    and valid: "validate_route_target m method_token path endpoint = None"
    and none: "\<not> has_duplicate (rs_route_hashes s) (rs_routes s) hash m method_token path endpoint"
    using assms(3) unfolding register_endpoint_def
    by (auto simp: new_def hash_def Let_def split: if_splits option.splits)
  have new: "re_method new = m" "re_method_token new = method_token" "re_path new = path" "re_endpoint new = endpoint"
    by (simp_all add: new_def)
  have ok: "entry_ok new"
    using valid assms(2)
    by (cases endpoint) (auto simp: new_def entry_ok_def validate_route_target_def is_tunnel_def split: if_splits)
  have fresh: "\<not> (\<exists>r\<in>set (rs_routes s). entry_duplicates r new)"
    using none has_duplicate_exact [of "rs_routes s" new] ok assms(1)
    by (simp add: state_ok_def routes_ok_def new hash_def)
  have "\<not> entry_duplicates ((rs_routes s @ [new]) ! i) ((rs_routes s @ [new]) ! j)"
    if "i < j" "j < length (rs_routes s @ [new])" for i j
    using that fresh assms(1) by (cases "j < length (rs_routes s)") (auto simp: state_ok_def routes_ok_def nth_append)
  then show "state_ok s'" using assms(1) ok
    by (auto simp: s' state_ok_def routes_ok_def indices_ok_def new hash_def nth_append new_def less_Suc_eq)
  show "\<exists>new. rs_routes s' = rs_routes s @ [new] \<and> re_method new = m \<and> re_method_token new = method_token \<and>
      re_path new = path \<and> re_endpoint new = endpoint"
    using s' new by auto
qed

definition empty_router :: router_state where
  "empty_router = \<lparr>rs_routes = [], rs_route_hashes = []\<rparr>"

lemma empty_router_ok: "state_ok empty_router"
  by (simp add: empty_router_def state_ok_def routes_ok_def indices_ok_def)

text \<open>What the route macros pass: a method token only with the unknown method.\<close>

definition call_ok :: "http_known_method \<times> bytes \<times> bytes \<times> route_endpoint \<Rightarrow> bool" where
  "call_ok call = (case call of (m, method_token, _, _) \<Rightarrow> method_token \<noteq> [] \<longrightarrow> m = Unknown)"

lemma register_all_ok:
  "\<lbrakk>state_ok s; list_all call_ok calls; register_all s calls = Inr s'\<rbrakk> \<Longrightarrow> state_ok s'"
proof (induction calls arbitrary: s)
  case (Cons call calls)
  obtain m method_token path endpoint where call: "call = (m, method_token, path, endpoint)" by (cases call) auto
  obtain s1 where s1: "register_endpoint s m method_token path endpoint = Inr s1"
    using Cons.prems(3) by (auto simp: call split: sum.splits)
  have "state_ok s1" using register_endpoint_ok(1) [OF Cons.prems(1) _ s1] Cons.prems(2) by (simp add: call call_ok_def)
  then show ?case using Cons.IH Cons.prems(2,3) s1 by (simp add: call)
qed simp

end
