(* ===== verification/Router_Plan.thy ===== *)
theory Router_Plan
  imports Router_Registration
begin

text \<open>
  The compiled plan of registered routes: every trie stores exactly the patterns of its routes, the static index and
  the method masks cover exactly the static routes, and every route knows its parameter names.
\<close>

subsection \<open>Folding insertions\<close>

definition dyn_updates ::
  "(route_entry \<Rightarrow> bool) \<Rightarrow> route_entry list \<Rightarrow> (slot list \<Rightarrow> nat option) \<Rightarrow> slot list \<Rightarrow> nat option" where
  "dyn_updates sel rs L = foldl (\<lambda>L r. if sel r then L (pattern_of (re_path r) \<mapsto> re_index r) else L) L rs"

lemma dyn_updates_Cons:
  "dyn_updates sel (r # rs) L = dyn_updates sel rs (if sel r then L (pattern_of (re_path r) \<mapsto> re_index r) else L)"
  by (simp add: dyn_updates_def)

lemma dyn_updates_Some:
  "distinct (map (\<lambda>r. pattern_of (re_path r)) (filter sel rs)) \<Longrightarrow>
     dyn_updates sel rs L p = Some i \<longleftrightarrow>
       (\<exists>r\<in>set rs. sel r \<and> pattern_of (re_path r) = p \<and> re_index r = i) \<or>
       L p = Some i \<and> (\<forall>r\<in>set rs. sel r \<longrightarrow> pattern_of (re_path r) \<noteq> p)"
proof (induction rs arbitrary: L)
  case Nil
  then show ?case by (simp add: dyn_updates_def)
next
  case (Cons r rs)
  show ?case
  proof (cases "sel r")
    case True
    have fresh: "\<forall>q\<in>set rs. sel q \<longrightarrow> pattern_of (re_path q) \<noteq> pattern_of (re_path r)"
      using Cons.prems True by (auto simp: image_iff)
    have dist: "distinct (map (\<lambda>r. pattern_of (re_path r)) (filter sel rs))" using Cons.prems True by simp
    define L' where "L' = L (pattern_of (re_path r) \<mapsto> re_index r)"
    have L': "L' p = (if p = pattern_of (re_path r) then Some (re_index r) else L p)" by (simp add: L'_def)
    have step: "dyn_updates sel (r # rs) L p = dyn_updates sel rs L' p" using True by (simp add: dyn_updates_Cons L'_def)
    show ?thesis unfolding step Cons.IH [OF dist, of L'] using L' True fresh by (auto split: if_splits)
  next
    case False
    then show ?thesis using Cons by (simp add: dyn_updates_Cons)
  qed
qed

definition in_trie :: "http_known_method \<Rightarrow> route_entry \<Rightarrow> bool" where
  "in_trie m r \<longleftrightarrow> re_dynamic r \<and> \<not> is_tunnel (re_endpoint r) \<and> re_method r = m"

definition named :: "route_entry \<Rightarrow> route_entry" where
  "named r = r\<lparr>re_param_names := (if re_dynamic r then param_names_of (segments (re_path r)) else [])\<rparr>"

lemma named_simps [simp]:
  "re_index (named r) = re_index r" "re_method (named r) = re_method r" "re_method_token (named r) = re_method_token r"
  "re_path (named r) = re_path r" "re_endpoint (named r) = re_endpoint r" "re_dynamic (named r) = re_dynamic r"
  by (simp_all add: named_def)

definition dyn_ok :: "dynamic_index \<Rightarrow> bool" where
  "dyn_ok d \<longleftrightarrow> length (di_roots d) = routable_method_count \<and> (\<forall>root\<in>set (di_roots d). node_ok root) \<and>
     (\<forall>p\<in>set (di_protocols d). node_ok (snd p))"

lemma protocol_index_less: "protocol_index ps protocol = Some i \<Longrightarrow> i < length ps"
  by (induction ps arbitrary: i) (auto split: if_splits)

definition has_index_bit :: "u32 \<Rightarrow> http_known_method \<Rightarrow> bool" where
  "has_index_bit bits m \<longleftrightarrow> bit bits (method_index m)"

lemma method_index_less: "method_index m < 9"
  by (cases m) (simp_all add: method_index_def)

lemma has_bit_index: "has_bit bits m \<longleftrightarrow> has_index_bit bits m"
  by (simp add: has_bit_def has_index_bit_def method_bit_def bit_iff_and_push_bit_not_eq_0)

lemma has_bit_or: "has_bit (a OR b) m \<longleftrightarrow> has_bit a m \<or> has_bit b m"
  by (simp add: has_bit_index has_index_bit_def bit_or_iff)

lemma has_bit_method_bit: "has_bit (method_bit n) m \<longleftrightarrow> m = n"
  using method_index_less [of m] method_index_less [of n]
  by (auto simp: has_bit_index has_index_bit_def method_bit_def bit_simps method_index_inj [symmetric])

lemma has_bit_zero: "\<not> has_bit 0 m"
  by (simp add: has_bit_def)

lemma add_dynamic_ok:
  assumes "dyn_ok d" "entry_ok r" "add_dynamic d r = Inr (d', r')"
  shows "dyn_ok d'" "r' = named r" "re_dynamic r \<Longrightarrow> accepts 0 (segments (re_path r))"
    "is_routable_method m \<Longrightarrow> node_lookup (di_roots d' ! method_index m) =
       (if in_trie m r then (node_lookup (di_roots d ! method_index m)) (pattern_of (re_path r) \<mapsto> re_index r)
        else node_lookup (di_roots d ! method_index m))"
    "has_bit (di_mask d') m \<longleftrightarrow> has_bit (di_mask d) m \<or> in_trie m r"
proof -
  have names: "re_param_names r = []" using assms(2) by (simp add: entry_ok_def)
  have "dyn_ok d' \<and> r' = named r \<and> (re_dynamic r \<longrightarrow> accepts 0 (segments (re_path r))) \<and>
    (is_routable_method m \<longrightarrow> node_lookup (di_roots d' ! method_index m) =
       (if in_trie m r then (node_lookup (di_roots d ! method_index m)) (pattern_of (re_path r) \<mapsto> re_index r)
        else node_lookup (di_roots d ! method_index m))) \<and>
    (has_bit (di_mask d') m \<longleftrightarrow> has_bit (di_mask d) m \<or> in_trie m r)" for m
  proof (cases "re_dynamic r")
    case False
    then have "d' = d" "r' = r" using assms(3) by (auto simp: add_dynamic_def)
    moreover have "named r = r" using False names by (simp add: named_def)
    ultimately show ?thesis using False assms(1) by (simp add: in_trie_def)
  next
    case True
    then have "\<not> is_tunnel (re_endpoint r) \<or> tunnel_protocol (re_endpoint r) \<noteq> []"
      using assms(2) by (auto simp: entry_ok_def)
    then have wf: "\<forall>s\<in>set (segments (re_path r)). well_escaped s"
      using segments_well_formed entry_path [OF assms(2)] by blast
    show ?thesis
    proof (cases "is_tunnel (re_endpoint r)")
      case tunnel: True
      define protocol where "protocol = tunnel_protocol (re_endpoint r)"
      obtain protocols i where pi: "(protocols, i) = (case protocol_index (di_protocols d) protocol of
           Some i \<Rightarrow> (di_protocols d, i)
         | None \<Rightarrow> (di_protocols d @ [(protocol, empty_node)], length (di_protocols d)))"
        by (metis surj_pair)
      then have i: "i < length protocols" "\<forall>p\<in>set protocols. node_ok (snd p)"
        using assms(1) protocol_index_less [of "di_protocols d" protocol]
        by (auto simp: dyn_ok_def split: option.splits)
      then have ok: "node_ok (snd (protocols ! i))" by simp
      obtain root ns where ins: "insert_dynamic (re_path r) (re_index r) (snd (protocols ! i)) [] = Inr (root, ns)"
        and d': "d' = d\<lparr>di_protocols := protocols [i := (fst (protocols ! i), root)]\<rparr>" "r' = r\<lparr>re_param_names := ns\<rparr>"
        using assms(3) True tunnel names unfolding add_dynamic_def Let_def protocol_def [symmetric] pi [symmetric]
        by (auto split: sum.splits)
      have "insert_result (re_path r) (re_index r) (snd (protocols ! i)) [] (Inr (root, ns))"
        using insert_dynamic_refines [OF ok wf, of "re_index r" "[]"] ins by simp
      then have res: "accepts 0 (segments (re_path r))" "node_ok root" "ns = param_names_of (segments (re_path r))"
        by (auto simp: insert_result_def)
      have "\<forall>p\<in>set (protocols [i := (fst (protocols ! i), root)]). node_ok (snd p)"
        using i(2) res(2) by (auto dest!: set_update_subset_insert [THEN subsetD])
      then show ?thesis using assms(1) d' res True tunnel by (simp add: dyn_ok_def named_def in_trie_def)
    next
      case False
      define k where "k = method_index (re_method r)"
      have "re_method_token r = []" using assms(2) True False by (auto simp: entry_ok_def split: if_splits)
      then have k: "k < routable_method_count" using assms(2) False by (simp add: entry_ok_def is_routable_method_def k_def)
      then have ok: "node_ok (di_roots d ! k)" using assms(1) by (auto simp: dyn_ok_def)
      obtain root ns where ins: "insert_dynamic (re_path r) (re_index r) (di_roots d ! k) [] = Inr (root, ns)"
        and d': "d' = d\<lparr>di_roots := (di_roots d) [k := root], di_mask := di_mask d OR method_bit (re_method r)\<rparr>"
          "r' = r\<lparr>re_param_names := ns\<rparr>"
        using assms(3) True False names unfolding add_dynamic_def Let_def k_def [symmetric]
        by (auto split: sum.splits)
      have "insert_result (re_path r) (re_index r) (di_roots d ! k) [] (Inr (root, ns))"
        using insert_dynamic_refines [OF ok wf, of "re_index r" "[]"] ins by simp
      then have res: "accepts 0 (segments (re_path r))" "node_ok root" "ns = param_names_of (segments (re_path r))"
        "node_lookup root = (node_lookup (di_roots d ! k)) (pattern_of (re_path r) \<mapsto> re_index r)"
        by (auto simp: insert_result_def)
      have len: "length (di_roots d) = routable_method_count" using assms(1) by (simp add: dyn_ok_def)
      have "\<forall>n\<in>set ((di_roots d) [k := root]). node_ok n"
        using assms(1) res(2) by (auto simp: dyn_ok_def dest!: set_update_subset_insert [THEN subsetD])
      moreover have "in_trie m r \<longleftrightarrow> method_index m = k" using True False method_index_inj by (auto simp: in_trie_def k_def)
      moreover have "in_trie m r \<longleftrightarrow> m = re_method r" using True False by (auto simp: in_trie_def)
      ultimately show ?thesis using assms(1) d' res True False len k
        by (auto simp: dyn_ok_def named_def has_bit_or has_bit_method_bit nth_list_update)
    qed
  qed
  then show "dyn_ok d'" "r' = named r" "re_dynamic r \<Longrightarrow> accepts 0 (segments (re_path r))"
    "is_routable_method m \<Longrightarrow> node_lookup (di_roots d' ! method_index m) =
       (if in_trie m r then (node_lookup (di_roots d ! method_index m)) (pattern_of (re_path r) \<mapsto> re_index r)
        else node_lookup (di_roots d ! method_index m))"
    "has_bit (di_mask d') m \<longleftrightarrow> has_bit (di_mask d) m \<or> in_trie m r"
    by blast+
qed

lemma add_all_dynamic_ok:
  assumes "dyn_ok d" "\<forall>r\<in>set rs. entry_ok r" "add_all_dynamic d rs = Inr (d', rs')"
  shows "dyn_ok d' \<and> rs' = map named rs \<and> (\<forall>r\<in>set rs. re_dynamic r \<longrightarrow> accepts 0 (segments (re_path r))) \<and>
    (\<forall>m. is_routable_method m \<longrightarrow> node_lookup (di_roots d' ! method_index m) =
       dyn_updates (in_trie m) rs (node_lookup (di_roots d ! method_index m))) \<and>
    (\<forall>m. has_bit (di_mask d') m \<longleftrightarrow> has_bit (di_mask d) m \<or> (\<exists>r\<in>set rs. in_trie m r))"
  using assms
proof (induction rs arbitrary: d rs')
  case Nil
  then show ?case by (simp add: dyn_updates_def)
next
  case (Cons r rs)
  obtain d1 r1 rs1 where one: "add_dynamic d r = Inr (d1, r1)" and rest: "add_all_dynamic d1 rs = Inr (d', rs1)"
    and rs': "rs' = r1 # rs1"
    using Cons.prems(3) by (auto split: sum.splits)
  have ok: "entry_ok r" using Cons.prems(2) by simp
  note step = add_dynamic_ok [OF Cons.prems(1) ok one]
  have "\<forall>r\<in>set rs. entry_ok r" using Cons.prems(2) by simp
  note IH = Cons.IH [OF step(1) this rest]
  show ?case using IH step(2,3) step(4,5) rs' by (auto simp: dyn_updates_Cons)
qed

subsection \<open>The compiled plan\<close>

definition plan_of :: "route_entry list \<Rightarrow> compiled_route_plan \<Rightarrow> bool" where
  "plan_of routes plan \<longleftrightarrow> routes_ok routes \<and> compile_plan routes = Some (Inr plan)"

lemma in_trie_wf:
  assumes "entry_ok r" "in_trie m r"
  shows "\<forall>s\<in>set (segments (re_path r)). well_escaped s"
proof -
  have "\<not> is_tunnel (re_endpoint r) \<or> tunnel_protocol (re_endpoint r) \<noteq> []" using assms(2) by (simp add: in_trie_def)
  note path = entry_path [OF assms(1) this]
  show ?thesis by (rule segments_well_formed [OF path])
qed

lemma in_trie_distinct:
  assumes "\<forall>r\<in>set routes. entry_ok r" "\<not> has_dynamic_conflict routes"
  shows "distinct (map (\<lambda>r. pattern_of (re_path r)) (filter (in_trie m) routes))"
  using assms
proof (induction routes)
  case (Cons r routes)
  have "pattern_of (re_path q) \<noteq> pattern_of (re_path r)" if "in_trie m r" "q \<in> set routes" "in_trie m q" for q
  proof -
    have "\<not> routes_conflict r q" using Cons.prems(2) that(2) by (auto simp: list_ex_iff split: if_splits)
    then have "\<not> same_dynamic_shape (re_path r) (re_path q)"
      using that by (auto simp: routes_conflict_def in_trie_def)
    then show ?thesis using same_dynamic_shape_pattern [OF in_trie_wf [of r m]] Cons.prems(1) that(1) by auto
  qed
  then have "in_trie m r \<Longrightarrow> pattern_of (re_path r) \<notin> (\<lambda>r. pattern_of (re_path r)) ` set (filter (in_trie m) routes)"
    by (metis (no_types, lifting) imageE mem_Collect_eq set_filter)
  moreover have "distinct (map (\<lambda>r. pattern_of (re_path r)) (filter (in_trie m) routes))"
    using Cons by (simp split: if_splits)
  ultimately show ?case by simp
qed simp

lemma build_static_index_map:
  assumes "\<And>r. re_index (f r) = re_index r \<and> re_method (f r) = re_method r \<and> re_path (f r) = re_path r \<and>
      re_dynamic (f r) = re_dynamic r"
  shows "build_static_index (map f routes) = build_static_index routes"
proof -
  have indexed: "is_indexed (f r) = is_indexed r" for r by (simp add: is_indexed_def assms)
  have "insert_all_static slot_mask slots (map f rs) = insert_all_static slot_mask slots rs" for slot_mask slots rs
    by (induction rs arbitrary: slots) (simp_all add: insert_static_def indexed assms split: option.split)
  then show ?thesis by (simp add: build_static_index_def filter_map comp_def indexed)
qed

lemma static_method_mask_bit:
  "has_bit (static_method_mask routes) m \<longleftrightarrow>
     (\<exists>r\<in>set routes. is_routable_method (re_method r) \<and> \<not> re_dynamic r \<and> re_method r = m)"
proof -
  have "has_bit (foldl (\<lambda>acc route. if is_routable_method (re_method route) \<and> \<not> re_dynamic route
       then acc OR method_bit (re_method route) else acc) a routes) m \<longleftrightarrow>
     has_bit a m \<or> (\<exists>r\<in>set routes. is_routable_method (re_method r) \<and> \<not> re_dynamic r \<and> re_method r = m)" for a
    by (induction routes arbitrary: a) (auto simp: has_bit_or has_bit_method_bit)
  then show ?thesis by (simp add: static_method_mask_def has_bit_zero)
qed

lemma plan_facts:
  assumes "plan_of routes plan"
  shows "plan_routes plan = map named routes" "\<forall>r\<in>set routes. entry_ok r" "indices_ok routes"
    "build_static_index (plan_routes plan) = Some (plan_static plan)"
    "has_bit (plan_static_mask plan) m \<longleftrightarrow>
       (\<exists>r\<in>set routes. is_routable_method (re_method r) \<and> \<not> re_dynamic r \<and> re_method r = m)"
    "has_bit (di_mask (plan_dynamic plan)) m \<longleftrightarrow> (\<exists>r\<in>set routes. in_trie m r)"
    "\<forall>r\<in>set routes. re_dynamic r \<longrightarrow> accepts 0 (segments (re_path r))"
proof -
  obtain static d rs where static: "build_static_index routes = Some static"
    and dyn: "build_dynamic_routes routes = Inr (d, rs)"
    and plan: "plan = \<lparr>plan_routes = rs,
        plan_extension_indices = map re_index (filter (\<lambda>r. re_method r = Unknown) routes),
        plan_extension_paths = extension_paths_from (filter (\<lambda>r. re_method r = Unknown) routes) [],
        plan_connect_indices = map re_index (filter (\<lambda>r. is_tunnel (re_endpoint r)) routes),
        plan_static = static, plan_static_mask = static_method_mask routes, plan_dynamic = d,
        plan_url_patterns = build_url_patterns rs\<rparr>"
    using assms by (auto simp: plan_of_def compile_plan_def Let_def split: if_splits option.splits sum.splits)
  obtain d0 where d0: "add_all_dynamic \<lparr>di_roots = replicate routable_method_count empty_node, di_protocols = [], di_mask = 0\<rparr> routes = Inr (d0, rs)"
    and d: "d = d0\<lparr>di_protocols := map (\<lambda>(protocol, root). (protocol, sort_dynamic_node root)) (di_protocols d0),
                 di_roots := map sort_dynamic_node (di_roots d0)\<rparr>"
    using dyn by (auto simp: build_dynamic_routes_def split: sum.splits)
  have entries: "\<forall>r\<in>set routes. entry_ok r" using assms by (simp add: plan_of_def routes_ok_def)
  have "dyn_ok \<lparr>di_roots = replicate routable_method_count empty_node, di_protocols = [], di_mask = 0\<rparr>"
    by (simp add: dyn_ok_def)
  note all = add_all_dynamic_ok [OF this entries d0]
  show routes: "plan_routes plan = map named routes" using all by (simp add: plan)
  show "\<forall>r\<in>set routes. entry_ok r" "indices_ok routes" using assms by (simp_all add: plan_of_def routes_ok_def)
  show "build_static_index (plan_routes plan) = Some (plan_static plan)"
    unfolding routes using static by (subst build_static_index_map) (simp_all add: plan)
  show "has_bit (plan_static_mask plan) m \<longleftrightarrow>
       (\<exists>r\<in>set routes. is_routable_method (re_method r) \<and> \<not> re_dynamic r \<and> re_method r = m)"
    by (simp add: plan static_method_mask_bit)
  show "has_bit (di_mask (plan_dynamic plan)) m \<longleftrightarrow> (\<exists>r\<in>set routes. in_trie m r)"
    using all by (simp add: plan d has_bit_zero)
  show "\<forall>r\<in>set routes. re_dynamic r \<longrightarrow> accepts 0 (segments (re_path r))" using all by blast
qed

lemma plan_trie:
  assumes "plan_of routes plan" "is_routable_method m"
  defines "root \<equiv> di_roots (plan_dynamic plan) ! method_index m"
  shows "node_ok root" "node_sorted root" "bounded 0 root"
    "node_lookup root p = Some i \<longleftrightarrow> i < length routes \<and> in_trie m (routes ! i) \<and> pattern_of (re_path (routes ! i)) = p"
proof -
  obtain d rs where dyn: "build_dynamic_routes routes = Inr (d, rs)" and plan: "plan_dynamic plan = d"
    and conflict: "\<not> has_dynamic_conflict routes"
    using assms(1) by (auto simp: plan_of_def compile_plan_def Let_def split: if_splits option.splits sum.splits)
  obtain d0 where d0: "add_all_dynamic \<lparr>di_roots = replicate routable_method_count empty_node, di_protocols = [], di_mask = 0\<rparr> routes = Inr (d0, rs)"
    and d: "d = d0\<lparr>di_protocols := map (\<lambda>(protocol, root). (protocol, sort_dynamic_node root)) (di_protocols d0),
                 di_roots := map sort_dynamic_node (di_roots d0)\<rparr>"
    using dyn by (auto simp: build_dynamic_routes_def split: sum.splits)
  note entries = plan_facts(2) [OF assms(1)] and indices = plan_facts(3) [OF assms(1)]
  have "dyn_ok \<lparr>di_roots = replicate routable_method_count empty_node, di_protocols = [], di_mask = 0\<rparr>"
    by (simp add: dyn_ok_def)
  note all = add_all_dynamic_ok [OF this entries d0]
  define root0 where "root0 = di_roots d0 ! method_index m"
  have k: "method_index m < routable_method_count" using assms(2) by (simp add: is_routable_method_def)
  then have len: "method_index m < length (di_roots d0)" using all by (simp add: dyn_ok_def)
  then have root: "root = sort_dynamic_node root0" by (simp add: root_def plan d root0_def)
  have ok0: "node_ok root0" using all len by (auto simp: dyn_ok_def root0_def)
  show "node_ok root" "node_sorted root" unfolding root by (simp_all add: sort_dynamic_node_ok [OF ok0] sort_dynamic_node_sorted)
  have "node_lookup root0 = dyn_updates (in_trie m) routes (node_lookup empty_node)"
    using all assms(2) k by (simp add: root0_def)
  then have lookup: "node_lookup root p = Some i \<longleftrightarrow> (\<exists>r\<in>set routes. in_trie m r \<and> pattern_of (re_path r) = p \<and> re_index r = i)" for p i
    unfolding root sort_dynamic_node_lookup [OF ok0] using dyn_updates_Some [OF in_trie_distinct [OF entries conflict]]
    by simp
  show "node_lookup root p = Some i \<longleftrightarrow> i < length routes \<and> in_trie m (routes ! i) \<and> pattern_of (re_path (routes ! i)) = p"
    unfolding lookup using indices by (auto simp: indices_ok_def in_set_conv_nth) (metis nth_mem)
  show "bounded 0 root"
    unfolding bounded_def
  proof (intro allI impI)
    fix p assume "node_lookup root p \<noteq> None"
    then obtain r where r: "r \<in> set routes" "in_trie m r" "pattern_of (re_path r) = p" using lookup by auto
    then have "accepts 0 (segments (re_path r))" using plan_facts(7) [OF assms(1)] by (auto simp: in_trie_def)
    then show "0 + capture_count p \<le> max_route_params"
      using accepts_captures capture_count_segments [of "re_path r"] r(3) by simp
  qed
qed

end
