(* ===== verification/Router_Resolution.thy ===== *)
theory Router_Resolution
  imports Router_Plan
begin

text \<open>
  What resolution answers: the route that serves the request, the static one before the most specific dynamic one;
  GET's route for a HEAD no route serves; the exact set of methods a resource offers when none of its routes has the
  method; and not found when it offers nothing.
\<close>

subsection \<open>Finding the route of a method\<close>

definition serves :: "route_entry list \<Rightarrow> http_known_method \<Rightarrow> bytes \<Rightarrow> nat \<Rightarrow> bool" where
  "serves routes m path r \<longleftrightarrow> r < length routes \<and> \<not> is_tunnel (re_endpoint (routes ! r)) \<and> re_method (routes ! r) = m \<and>
     route_serves (re_path (routes ! r)) (re_dynamic (routes ! r)) path"

text \<open>The preferred one of the routes of a method that serve a path, with its captures.\<close>

definition preferred :: "route_entry list \<Rightarrow> http_known_method \<Rightarrow> bytes \<Rightarrow> nat \<Rightarrow> bytes list \<Rightarrow> bool" where
  "preferred routes m path r captures \<longleftrightarrow> serves routes m path r \<and>
     (if re_dynamic (routes ! r) then
        match_pattern (pattern_of (re_path (routes ! r))) path = Some captures \<and>
        length captures = length (re_param_names (routes ! r)) \<and>
        (\<forall>q. serves routes m path q \<longrightarrow> re_dynamic (routes ! q) \<and>
           pattern_rank (pattern_of (re_path (routes ! r))) \<le> pattern_rank (pattern_of (re_path (routes ! q))))
      else captures = [])"

lemma is_routable_not_connect: "is_routable_method m \<Longrightarrow> m \<noteq> Connect \<and> m \<noteq> Unknown"
  by (auto simp: is_routable_method_def method_index_def routable_method_count_def)

lemma match_pattern_length: "match_pattern pattern path = Some captures \<Longrightarrow> length captures = capture_count pattern"
  by (induction pattern path arbitrary: captures rule: match_pattern.induct)
    (auto split: if_splits option.splits)

lemma plan_nth:
  assumes "plan_of routes plan"
  shows "length (plan_routes plan) = length routes" "r < length routes \<Longrightarrow> plan_routes plan ! r = named (routes ! r)"
  using plan_facts(1) [OF assms] by simp_all

lemma plan_static_ok:
  assumes "plan_of routes plan" "is_routable_method m"
  defines "P \<equiv> plan_routes plan"
  shows "has_bit (plan_static_mask plan) m \<Longrightarrow>
      (\<exists>r. find_static plan m path (path_hash path) = Some (Some r) \<and> serves P m path r \<and> \<not> re_dynamic (P ! r)) \<or>
      find_static plan m path (path_hash path) = Some None \<and> (\<forall>r. serves P m path r \<longrightarrow> re_dynamic (P ! r))"
    "\<not> has_bit (plan_static_mask plan) m \<Longrightarrow> serves P m path r \<Longrightarrow> re_dynamic (P ! r)"
proof -
  note facts = plan_facts [OF assms(1)] and nth = plan_nth [OF assms(1), folded P_def]
  have P: "P = map named routes" using facts(1) by (simp add: P_def)
  have indices: "indices_ok P" using facts(3) by (simp add: indices_ok_def P)
  have member: "r \<in> indexed_set P \<longleftrightarrow> r < length P \<and> is_indexed (P ! r)" for r
    using indices by (force simp: indexed_set_def indices_ok_def in_set_conv_nth)
  have entry: "entry_ok (routes ! r)" if "r < length routes" for r using facts(2) that by simp
  have static: "serves P m path r \<and> \<not> re_dynamic (P ! r) \<longleftrightarrow>
      r \<in> indexed_set P \<and> re_method (P ! r) = m \<and> (re_path (P ! r) = path \<or> uri_paths_equivalent (re_path (P ! r)) path)" for r
  proof (cases "r < length routes")
    case True
    have "re_method (P ! r) = m \<Longrightarrow> \<not> is_tunnel (re_endpoint (P ! r))"
      using entry [OF True] is_routable_not_connect [OF assms(2)] True by (auto simp: nth entry_ok_def)
    moreover have "\<not> is_tunnel (re_endpoint (P ! r)) \<Longrightarrow> uri_paths_equivalent (re_path (P ! r)) (re_path (P ! r))"
      using entry_path(3) [OF entry [OF True]] True by (simp add: nth uri_paths_equivalent_units)
    ultimately show ?thesis using True assms(2) by (auto simp: serves_def route_serves_def member is_indexed_def nth(1))
  next
    case False
    then show ?thesis by (simp add: serves_def member nth(1))
  qed
  show "(\<exists>r. find_static plan m path (path_hash path) = Some (Some r) \<and> serves P m path r \<and> \<not> re_dynamic (P ! r)) \<or>
      find_static plan m path (path_hash path) = Some None \<and> (\<forall>r. serves P m path r \<longrightarrow> re_dynamic (P ! r))"
    if bit: "has_bit (plan_static_mask plan) m"
  proof -
    obtain r where r: "r \<in> set routes" "is_routable_method (re_method r)" "\<not> re_dynamic r"
      using bit facts(5) by blast
    then have "filter is_indexed P \<noteq> []" by (auto simp: P filter_empty_conv is_indexed_def)
    from find_static_route_ok [OF indices this facts(4) [folded P_def], of m path] show ?thesis
      using static unfolding find_static_def P_def [symmetric] by (fastforce split: option.splits)
  qed
  show "re_dynamic (P ! r)" if "\<not> has_bit (plan_static_mask plan) m" "serves P m path r"
  proof (rule ccontr)
    assume "\<not> re_dynamic (P ! r)"
    moreover have "r < length routes" using that(2) by (simp add: serves_def nth(1))
    ultimately have "routes ! r \<in> set routes" "\<not> re_dynamic (routes ! r)" "re_method (routes ! r) = m"
      using that(2) by (simp_all add: serves_def nth)
    then show False using that(1) facts(5) assms(2) by blast
  qed
qed

lemma plan_dynamic_ok:
  assumes "plan_of routes plan" "is_routable_method m"
  defines "P \<equiv> plan_routes plan"
  shows "find_dynamic_route plan m path = Some (r, captures) \<Longrightarrow> serves P m path r \<and> re_dynamic (P ! r) \<and>
      match_pattern (pattern_of (re_path (P ! r))) path = Some captures \<and> length captures = length (re_param_names (P ! r)) \<and>
      (\<forall>q. serves P m path q \<longrightarrow> re_dynamic (P ! q) \<longrightarrow>
         pattern_rank (pattern_of (re_path (P ! r))) \<le> pattern_rank (pattern_of (re_path (P ! q))))"
    "find_dynamic_route plan m path = None \<Longrightarrow> serves P m path r \<Longrightarrow> \<not> re_dynamic (P ! r)"
    "has_bit (di_mask (plan_dynamic plan)) m \<Longrightarrow>
       find_dynamic_node_no_params (di_roots (plan_dynamic plan) ! method_index m) path =
       map_option fst (find_dynamic_route plan m path)"
    "\<not> has_bit (di_mask (plan_dynamic plan)) m \<Longrightarrow> find_dynamic_route plan m path = None"
proof -
  define root where "root = di_roots (plan_dynamic plan) ! method_index m"
  note facts = plan_facts [OF assms(1)] and nth = plan_nth [OF assms(1), folded P_def]
    and trie = plan_trie [OF assms(1,2), folded root_def]
  have stored: "serves P m path q \<and> re_dynamic (P ! q) \<longleftrightarrow>
      node_lookup root (pattern_of (re_path (P ! q))) = Some q \<and> match_pattern (pattern_of (re_path (P ! q))) path \<noteq> None" for q
  proof (cases "q < length routes")
    case True
    then show ?thesis unfolding trie(4) serves_def in_trie_def route_serves_def by (auto simp: nth)
  next
    case False
    then show ?thesis unfolding trie(4) serves_def by (simp add: nth(1))
  qed
  have lookup: "node_lookup root p = Some q \<Longrightarrow> p = pattern_of (re_path (P ! q)) \<and> q < length routes \<and> in_trie m (routes ! q)" for p q
    unfolding trie(4) by (auto simp: nth)
  have names: "node_lookup root p = Some q \<Longrightarrow> capture_count p = length (re_param_names (P ! q))" for p q
    using lookup [of p q] capture_count_segments [of "re_path (routes ! q)"] by (auto simp: nth named_def in_trie_def)
  have bounded: "bounded (length ([] :: bytes list)) root" using trie(3) by simp
  note selects = find_dynamic_node_selects [OF trie(1,2) bounded, of path]
    and no_params = find_no_params [OF trie(1,2) bounded, of path]
  have found: "find_dynamic_node root path [] = (Some q, caps) \<Longrightarrow>
      serves P m path q \<and> re_dynamic (P ! q) \<and> match_pattern (pattern_of (re_path (P ! q))) path = Some caps \<and>
      length caps = length (re_param_names (P ! q)) \<and>
      (\<forall>q'. serves P m path q' \<longrightarrow> re_dynamic (P ! q') \<longrightarrow>
         pattern_rank (pattern_of (re_path (P ! q))) \<le> pattern_rank (pattern_of (re_path (P ! q'))))" for q caps
  proof -
    assume "find_dynamic_node root path [] = (Some q, caps)"
    then obtain p where p: "node_lookup root p = Some q" "match_pattern p path = Some caps"
      "\<forall>q'. candidate root path q' \<longrightarrow> pattern_rank p \<le> pattern_rank q'"
      using selects by (auto simp: selects_def)
    have eq: "p = pattern_of (re_path (P ! q))" using lookup [OF p(1)] by simp
    have "serves P m path q \<and> re_dynamic (P ! q)" using p stored [of q] eq by simp
    moreover have "length caps = length (re_param_names (P ! q))" using names [OF p(1)] match_pattern_length [OF p(2)] by simp
    moreover have "pattern_rank p \<le> pattern_rank (pattern_of (re_path (P ! q')))"
      if "serves P m path q'" "re_dynamic (P ! q')" for q'
      using p(3) stored [of q'] that by (auto simp: candidate_def)
    ultimately show ?thesis using p(2) eq by blast
  qed
  have none: "find_dynamic_node root path [] = (None, caps) \<Longrightarrow> serves P m path q \<Longrightarrow> \<not> re_dynamic (P ! q)" for q caps
  proof
    assume a: "find_dynamic_node root path [] = (None, caps)" "serves P m path q" "re_dynamic (P ! q)"
    then have "\<not> candidate root path (pattern_of (re_path (P ! q)))" using selects by (simp add: selects_def)
    then show False using a stored [of q] by (simp add: candidate_def)
  qed
  have mask: "serves P m path q \<Longrightarrow> re_dynamic (P ! q) \<Longrightarrow> has_bit (di_mask (plan_dynamic plan)) m" for q
  proof -
    assume q: "serves P m path q" "re_dynamic (P ! q)"
    then have "q < length routes" by (simp add: serves_def nth(1))
    then have "in_trie m (routes ! q)" "routes ! q \<in> set routes" using q by (simp_all add: serves_def in_trie_def nth)
    then show ?thesis unfolding facts(6) by blast
  qed
  show "find_dynamic_route plan m path = Some (r, captures) \<Longrightarrow> serves P m path r \<and> re_dynamic (P ! r) \<and>
      match_pattern (pattern_of (re_path (P ! r))) path = Some captures \<and> length captures = length (re_param_names (P ! r)) \<and>
      (\<forall>q. serves P m path q \<longrightarrow> re_dynamic (P ! q) \<longrightarrow>
         pattern_rank (pattern_of (re_path (P ! r))) \<le> pattern_rank (pattern_of (re_path (P ! q))))"
    using found [of r captures]
    by (auto simp: find_dynamic_route_def root_def [symmetric] P_def [symmetric] split: if_splits option.splits prod.splits)
  show "\<not> re_dynamic (P ! r)" if none': "find_dynamic_route plan m path = None" and r: "serves P m path r"
  proof
    assume dynamic: "re_dynamic (P ! r)"
    obtain found_r caps where f: "find_dynamic_node root path [] = (found_r, caps)" by (cases "find_dynamic_node root path []") auto
    show False
    proof (cases found_r)
      case None
      then show False using none f r dynamic by blast
    next
      case (Some q)
      then show False using found [of q caps] f none' mask [OF r dynamic] assms(2)
        by (auto simp: find_dynamic_route_def root_def [symmetric] P_def [symmetric] split: if_splits)
    qed
  qed
  show "find_dynamic_node_no_params (di_roots (plan_dynamic plan) ! method_index m) path =
       map_option fst (find_dynamic_route plan m path)" if "has_bit (di_mask (plan_dynamic plan)) m"
    using that assms(2) no_params found
    by (cases "find_dynamic_node root path []")
      (auto simp: find_dynamic_route_def root_def [symmetric] P_def [symmetric] split: option.splits)
  show "\<not> has_bit (di_mask (plan_dynamic plan)) m \<Longrightarrow> find_dynamic_route plan m path = None"
    by (simp add: find_dynamic_route_def)
qed

subsection \<open>The answer of a resolution\<close>

definition head_fallback :: "compiled_route_plan \<Rightarrow> bytes \<Rightarrow> bool" where
  "head_fallback plan path \<longleftrightarrow>
     (\<exists>r captures. preferred (plan_routes plan) Get path r captures \<and> supports_head_fallback (plan_routes plan ! r))"

lemma preferred_static:
  "\<lbrakk>serves routes m path r; \<not> re_dynamic (routes ! r)\<rbrakk> \<Longrightarrow> preferred routes m path r captures \<longleftrightarrow> captures = []"
  by (simp add: preferred_def)

lemma offered_ok:
  assumes "plan_of routes plan" "is_routable_method m"
  shows "(\<exists>r captures. offered plan m path (path_hash path) = Some (Some r) \<and> preferred (plan_routes plan) m path r captures) \<or>
    offered plan m path (path_hash path) = Some None \<and> (\<forall>r. \<not> serves (plan_routes plan) m path r)"
proof -
  note static = plan_static_ok [OF assms, of path] and dynamic = plan_dynamic_ok [OF assms, of path]
  show ?thesis
  proof (cases "\<exists>r. find_static plan m path (path_hash path) = Some (Some r) \<and> has_bit (plan_static_mask plan) m")
    case True
    then show ?thesis using static(1) by (auto simp: offered_def preferred_static split: option.splits)
  next
    case False
    then have none: "(if has_bit (plan_static_mask plan) m then find_static plan m path (path_hash path) else Some None) = Some None"
      and only: "\<And>r. serves (plan_routes plan) m path r \<Longrightarrow> re_dynamic (plan_routes plan ! r)"
      using static by auto
    have eq: "offered plan m path (path_hash path) = Some (map_option fst (find_dynamic_route plan m path))"
      using none dynamic(3,4) by (auto simp: offered_def)
    show ?thesis
    proof (cases "find_dynamic_route plan m path")
      case None
      then show ?thesis using eq only dynamic(2) by auto
    next
      case (Some rc)
      then show ?thesis using eq only dynamic(1) [of "fst rc" "snd rc"] by (auto simp: preferred_def)
    qed
  qed
qed

lemma method_of_index: "is_routable_method m \<Longrightarrow> method_of_index (method_index m) = m"
  by (cases m) (simp_all add: method_of_index_def method_index_def is_routable_method_def routable_method_count_def)

lemma index_of_method: "i < routable_method_count \<Longrightarrow> method_index (method_of_index i) = i \<and> is_routable_method (method_of_index i)"
proof -
  assume "i < routable_method_count"
  then have "i \<in> {0,1,2,3,4,5,6}" by (auto simp: routable_method_count_def)
  then show ?thesis by (auto simp: method_of_index_def method_index_def is_routable_method_def routable_method_count_def)
qed

lemma match_rank_unique:
  "\<lbrakk>match_pattern p path \<noteq> None; match_pattern q path \<noteq> None; pattern_rank p = pattern_rank q\<rbrakk> \<Longrightarrow> p = q"
proof (induction p arbitrary: q path)
  case Nil
  then show ?case by (simp add: pattern_rank_def)
next
  case (Cons s p)
  then obtain t q' where q: "q = t # q'" "slot_rank s = slot_rank t" "pattern_rank p = pattern_rank q'"
    by (cases q) (auto simp: pattern_rank_def)
  show ?case
  proof (cases s)
    case (Literal us)
    then obtain seg rest where rest: "split_path_segment path = Some (seg, rest)"
      using Cons.prems(1) by (auto split: option.splits)
    then show ?thesis using Cons.prems Cons.IH [of rest q'] q Literal by (cases t) (auto split: if_splits)
  next
    case Param
    then obtain seg rest where rest: "split_path_segment path = Some (seg, rest)"
      using Cons.prems(1) by (auto split: option.splits)
    then show ?thesis using Cons.prems Cons.IH [of rest q'] q Param by (cases t) (auto split: if_splits)
  next
    case Wild
    then show ?thesis using Cons.prems q by (cases t; cases p; cases q') auto
  qed
qed

lemma static_segment_kind: "\<not> is_dynamic_path path \<Longrightarrow> s \<in> set (segments path) \<Longrightarrow> segment_kind s = 0"
proof -
  assume "\<not> is_dynamic_path path" "s \<in> set (segments path)"
  then have "slot_of s \<noteq> Param" "slot_of s \<noteq> Wild" unfolding is_dynamic_path pattern_of_def by (metis image_eqI list.set_map)+
  then show "segment_kind s = 0" by (auto simp: slot_of_def segment_kind_def split: if_splits)
qed

lemma static_routes_distinct:
  assumes "routes_ok routes" "i < length routes" "j < length routes" "i \<noteq> j"
    and "\<not> is_tunnel (re_endpoint (routes ! i))" "\<not> is_tunnel (re_endpoint (routes ! j))"
    and "\<not> re_dynamic (routes ! i)" "\<not> re_dynamic (routes ! j)" "is_routable_method (re_method (routes ! i))"
    and "re_method (routes ! i) = re_method (routes ! j)"
  shows "\<not> uri_paths_equivalent (re_path (routes ! i)) (re_path (routes ! j))"
  using assms
proof (induction i j rule: linorder_wlog)
  case (le i j)
  have entries: "entry_ok (routes ! i)" "entry_ok (routes ! j)" using le by (simp_all add: routes_ok_def)
  then have token: "re_method_token (routes ! i) = []" "re_method_token (routes ! j) = []"
    using le is_routable_not_connect [of "re_method (routes ! i)"] by (auto simp: entry_ok_def split: if_splits)
  have static: "\<not> is_dynamic_path (re_path (routes ! i))" "\<not> is_dynamic_path (re_path (routes ! j))"
    using entries le by (auto simp: entry_ok_def)
  have "\<not> entry_duplicates (routes ! i) (routes ! j)" using le by (auto simp: routes_ok_def)
  then have "\<not> same_route_pattern (re_path (routes ! i)) (re_path (routes ! j))"
    using le token by (cases "re_endpoint (routes ! j)") (auto simp: entry_duplicates_def duplicates_def is_tunnel_def)
  moreover have "same_route_pattern (re_path (routes ! i)) (re_path (routes ! j))"
    if "uri_paths_equivalent (re_path (routes ! i)) (re_path (routes ! j))"
  proof -
    have "\<not> is_tunnel (re_endpoint (routes ! i)) \<or> tunnel_protocol (re_endpoint (routes ! i)) \<noteq> []"
      "\<not> is_tunnel (re_endpoint (routes ! j)) \<or> tunnel_protocol (re_endpoint (routes ! j)) \<noteq> []" using le by auto
    note paths = entry_path [OF entries(1) this(1)] entry_path [OF entries(2) this(2)]
    have "list_all2 uri_paths_equivalent (segments (re_path (routes ! i))) (segments (re_path (routes ! j)))"
      using equivalent_iff_segments [OF paths(1,2,4,5)] that by simp
    then show ?thesis unfolding same_route_pattern_segments
      using static_segment_kind [OF static(1)] static_segment_kind [OF static(2)] by (simp add: list_all2_conv_all_nth)
  qed
  ultimately show ?case by blast
next
  case (sym i j)
  then show ?case using equivalent_sym by metis
qed

lemma preferred_dynamic:
  "\<lbrakk>preferred routes m path r c; re_dynamic (routes ! r); serves routes m path q\<rbrakk> \<Longrightarrow> re_dynamic (routes ! q) \<and>
     pattern_rank (pattern_of (re_path (routes ! r))) \<le> pattern_rank (pattern_of (re_path (routes ! q)))"
  by (simp add: preferred_def)

lemma preferred_unique:
  assumes "plan_of routes plan" "is_routable_method m"
    and "preferred (plan_routes plan) m path r c" "preferred (plan_routes plan) m path q c'"
  shows "r = q"
proof -
  define P where "P = plan_routes plan"
  note nth = plan_nth [OF assms(1), folded P_def]
  have serve: "serves P m path r" "serves P m path q" using assms(3,4) by (simp_all add: preferred_def P_def)
  then have less: "r < length routes" "q < length routes" by (simp_all add: serves_def nth(1))
  have same: "re_dynamic (P ! r) \<longleftrightarrow> re_dynamic (P ! q)"
    using preferred_dynamic [OF assms(3) [folded P_def] _ serve(2)] preferred_dynamic [OF assms(4) [folded P_def] _ serve(1)]
    by blast
  show ?thesis
  proof (cases "re_dynamic (P ! r)")
    case True
    then have dynamic: "re_dynamic (P ! q)" using same by blast
    have ranks: "pattern_rank (pattern_of (re_path (P ! r))) = pattern_rank (pattern_of (re_path (P ! q)))"
      by (rule antisym)
        (rule conjunct2 [OF preferred_dynamic [OF assms(3) [folded P_def] True serve(2)]]
          conjunct2 [OF preferred_dynamic [OF assms(4) [folded P_def] dynamic serve(1)]])+
    have "match_pattern (pattern_of (re_path (P ! r))) path \<noteq> None" "match_pattern (pattern_of (re_path (P ! q))) path \<noteq> None"
      using serve True same by (simp_all add: serves_def route_serves_def)
    then have pattern: "pattern_of (re_path (P ! r)) = pattern_of (re_path (P ! q))" using match_rank_unique ranks by blast
    have "in_trie m (routes ! r)" "in_trie m (routes ! q)"
      using serve True same less by (simp_all add: serves_def in_trie_def nth)
    then show ?thesis
      using plan_trie(4) [OF assms(1,2), of "pattern_of (re_path (routes ! r))"] less pattern
      by (metis named_simps(4) nth(2) option.inject)
  next
    case False
    have "uri_paths_equivalent (re_path (routes ! r)) path" "uri_paths_equivalent (re_path (routes ! q)) path"
      using serve False same less by (simp_all add: serves_def route_serves_def nth)
    then have "uri_paths_equivalent (re_path (routes ! r)) (re_path (routes ! q))" using equivalent_sym equivalent_trans by blast
    moreover have "routes_ok routes" using assms(1) by (simp add: plan_of_def)
    moreover have "\<not> is_tunnel (re_endpoint (routes ! r))" "\<not> is_tunnel (re_endpoint (routes ! q))"
      "\<not> re_dynamic (routes ! r)" "\<not> re_dynamic (routes ! q)" "is_routable_method (re_method (routes ! r))"
      "re_method (routes ! r) = re_method (routes ! q)"
      using serve False same less assms(2) by (simp_all add: serves_def nth)
    ultimately show ?thesis using static_routes_distinct [OF _ less] by blast
  qed
qed

lemma allowed_from_ok:
  assumes "plan_of routes plan" "\<And>i. bit candidates i \<Longrightarrow> i < routable_method_count"
  shows "\<exists>bits. allowed_from plan path (path_hash path) candidates allowed = Some bits \<and>
    (\<forall>m. has_bit bits m \<longleftrightarrow> has_bit allowed m \<or>
       has_bit candidates m \<and> (\<exists>r. serves (plan_routes plan) m path r) \<or>
       m = Head \<and> has_bit candidates Get \<and>
         (\<exists>r. offered plan Get path (path_hash path) = Some (Some r) \<and> supports_head_fallback (plan_routes plan ! r)))"
  using assms(2)
proof (induction "unat candidates" arbitrary: candidates allowed rule: less_induct)
  case less
  show ?case
  proof (cases "candidates = 0")
    case True
    then show ?thesis by (subst allowed_from.simps) (simp add: has_bit_zero)
  next
    case False
    define i where "i = countr_zero32 candidates"
    define m where "m = method_of_index i"
    define rest where "rest = candidates AND NOT (push_bit i 1)"
    have bit_i: "bit candidates i" using countr_zero32_bit [OF False] by (simp add: i_def)
    then have i: "method_index m = i" "is_routable_method m" using index_of_method [of i] less.prems by (auto simp: m_def)
    have smaller: "unat rest < unat candidates" using clear_bit_less [OF False] by (simp add: rest_def i_def)
    have rest_bit: "bit rest j \<longleftrightarrow> bit candidates j \<and> j \<noteq> i" for j
      using bit_imp_le_length [of candidates j] by (auto simp: rest_def bit_simps)
    then have rest_less: "\<And>j. bit rest j \<Longrightarrow> j < routable_method_count" using less.prems by blast
    have rest_has: "has_bit rest n \<longleftrightarrow> has_bit candidates n \<and> n \<noteq> m" for n
      using rest_bit i(1) method_index_inj by (auto simp: has_bit_index has_index_bit_def)
    have cand_m: "has_bit candidates m" using bit_i i(1) by (simp add: has_bit_index has_index_bit_def)
    have bit_m: "push_bit i 1 = method_bit m" using i(1) by (simp add: method_bit_def)
    note unfold = allowed_from.simps [of plan path "path_hash path" candidates allowed, unfolded Let_def,
      folded i_def, folded m_def rest_def, unfolded bit_m]
    consider (none) "offered plan m path (path_hash path) = Some None" "\<forall>r. \<not> serves (plan_routes plan) m path r"
      | (some) r captures where "offered plan m path (path_hash path) = Some (Some r)" "preferred (plan_routes plan) m path r captures"
      using offered_ok [OF assms(1) i(2)] by blast
    then show ?thesis
    proof cases
      case none
      obtain bits where bits: "allowed_from plan path (path_hash path) rest allowed = Some bits"
        "\<forall>n. has_bit bits n \<longleftrightarrow> has_bit allowed n \<or> has_bit rest n \<and> (\<exists>r. serves (plan_routes plan) n path r) \<or>
         n = Head \<and> has_bit rest Get \<and>
         (\<exists>r. offered plan Get path (path_hash path) = Some (Some r) \<and> supports_head_fallback (plan_routes plan ! r))"
        using less.hyps [OF smaller rest_less] by blast
      have "allowed_from plan path (path_hash path) candidates allowed = Some bits"
        unfolding unfold using bits(1) none(1) False by simp
      moreover have "m = Get \<Longrightarrow> \<not> (\<exists>r. offered plan Get path (path_hash path) = Some (Some r))" using none(1) by auto
      ultimately show ?thesis using bits(2) none(2) rest_has by blast
    next
      case some
      define allowed' where "allowed' = (if supports_head_fallback (plan_routes plan ! r)
        then (allowed OR method_bit m) OR method_bit Head else allowed OR method_bit m)"
      obtain bits where bits: "allowed_from plan path (path_hash path) rest allowed' = Some bits"
        "\<forall>n. has_bit bits n \<longleftrightarrow> has_bit allowed' n \<or> has_bit rest n \<and> (\<exists>r. serves (plan_routes plan) n path r) \<or>
         n = Head \<and> has_bit rest Get \<and>
         (\<exists>r. offered plan Get path (path_hash path) = Some (Some r) \<and> supports_head_fallback (plan_routes plan ! r))"
        using less.hyps [OF smaller rest_less] by blast
      have "allowed_from plan path (path_hash path) candidates allowed = Some bits"
        unfolding unfold using bits(1) some(1) False by (simp add: allowed'_def)
      moreover have serve: "serves (plan_routes plan) m path r" using some(2) by (simp add: preferred_def)
      moreover have "supports_head_fallback (plan_routes plan ! r) \<Longrightarrow> m = Get"
        using serve by (auto simp: supports_head_fallback_def serves_def)
      moreover have "has_bit allowed' n \<longleftrightarrow> has_bit allowed n \<or> n = m \<or> n = Head \<and> supports_head_fallback (plan_routes plan ! r)" for n
        by (auto simp: allowed'_def has_bit_or has_bit_method_bit)
      moreover have "m = Get \<Longrightarrow> offered plan Get path (path_hash path) = Some (Some q) \<longleftrightarrow> q = r" for q using some(1) by auto
      ultimately show ?thesis using bits(2) rest_has cand_m by (intro exI [of _ bits] conjI allI; (assumption | (cases "m = Get"; metis)))
    qed
  qed
qed

text \<open>The methods of a resource.\<close>

definition offers :: "compiled_route_plan \<Rightarrow> bytes \<Rightarrow> http_known_method \<Rightarrow> bool" where
  "offers plan path m \<longleftrightarrow> (\<exists>r. serves (plan_routes plan) m path r) \<or> m = Head \<and> head_fallback plan path"

lemma serves_mask:
  assumes "plan_of routes plan" "serves (plan_routes plan) m path r" "is_routable_method m"
  shows "has_bit (plan_static_mask plan OR di_mask (plan_dynamic plan)) m"
proof -
  note facts = plan_facts [OF assms(1)] and nth = plan_nth [OF assms(1)]
  have r: "r < length routes" using assms(2) by (simp add: serves_def nth(1))
  then have member: "routes ! r \<in> set routes" and "re_method (routes ! r) = m" "\<not> is_tunnel (re_endpoint (routes ! r))"
    using assms(2) by (simp_all add: serves_def nth)
  then have "has_bit (plan_static_mask plan) m \<or> has_bit (di_mask (plan_dynamic plan)) m"
    unfolding facts(5,6) using assms(3) by (auto simp: in_trie_def)
  then show ?thesis by (simp add: has_bit_or)
qed

lemma offered_head_fallback:
  assumes "plan_of routes plan"
  shows "(\<exists>r. offered plan Get path (path_hash path) = Some (Some r) \<and> supports_head_fallback (plan_routes plan ! r)) \<longleftrightarrow>
    head_fallback plan path"
proof -
  have get: "is_routable_method Get" by (simp add: is_routable_method_def method_index_def routable_method_count_def)
  consider (some) r captures where "offered plan Get path (path_hash path) = Some (Some r)" "preferred (plan_routes plan) Get path r captures"
    | (none) "offered plan Get path (path_hash path) = Some None" "\<forall>r. \<not> serves (plan_routes plan) Get path r"
    using offered_ok [OF assms get, of path] by blast
  then show ?thesis
  proof cases
    case some
    have unique: "q = r" if "preferred (plan_routes plan) Get path q c" for q c
      using preferred_unique [OF assms get that some(2)] .
    have "(\<exists>q. offered plan Get path (path_hash path) = Some (Some q) \<and> supports_head_fallback (plan_routes plan ! q)) \<longleftrightarrow>
        supports_head_fallback (plan_routes plan ! r)" using some(1) by simp
    moreover have "head_fallback plan path \<longleftrightarrow> supports_head_fallback (plan_routes plan ! r)"
      unfolding head_fallback_def using unique some(2) by metis
    ultimately show ?thesis by simp
  next
    case none
    then show ?thesis by (auto simp: head_fallback_def preferred_def)
  qed
qed

lemma method_bit_less: "bit (method_bit m) i \<Longrightarrow> i < 9"
  using method_index_less [of m] by (auto simp: method_bit_def bit_simps)

lemma static_mask_less: "bit (static_method_mask routes) i \<Longrightarrow> i < 9"
proof -
  have "bit (foldl (\<lambda>acc route. if is_routable_method (re_method route) \<and> \<not> re_dynamic route
       then acc OR method_bit (re_method route) else acc) a routes) i \<Longrightarrow> bit a i \<or> i < 9" for a
    by (induction routes arbitrary: a) (fastforce simp: bit_or_iff dest: method_bit_less split: if_splits)+
  then show "bit (static_method_mask routes) i \<Longrightarrow> i < 9" by (fastforce simp: static_method_mask_def)
qed

lemma dynamic_mask_less:
  "add_all_dynamic d rs = Inr (d', rs') \<Longrightarrow> bit (di_mask d') i \<Longrightarrow> bit (di_mask d) i \<or> i < 9"
proof (induction rs arbitrary: d rs')
  case (Cons r rs)
  obtain d1 r1 rs1 where one: "add_dynamic d r = Inr (d1, r1)" and rest: "add_all_dynamic d1 rs = Inr (d', rs1)"
    using Cons.prems(1) by (auto split: sum.splits)
  have "di_mask d1 = di_mask d \<or> di_mask d1 = di_mask d OR method_bit (re_method r)"
    using one by (auto simp: add_dynamic_def Let_def split: if_splits sum.splits prod.splits)
  then show ?case using Cons.IH [OF rest Cons.prems(2)] method_bit_less by (auto simp: bit_or_iff)
qed auto

lemma mask_less:
  assumes "plan_of routes plan" "bit ((plan_static_mask plan OR di_mask (plan_dynamic plan)) AND NOT excluded) i"
  shows "i < routable_method_count"
proof -
  obtain d rs where dyn: "build_dynamic_routes routes = Inr (d, rs)" and plan: "plan_dynamic plan = d"
    "plan_static_mask plan = static_method_mask routes"
    using assms(1) by (auto simp: plan_of_def compile_plan_def Let_def split: if_splits option.splits sum.splits)
  obtain d0 where d0: "add_all_dynamic \<lparr>di_roots = replicate routable_method_count empty_node, di_protocols = [], di_mask = 0\<rparr> routes = Inr (d0, rs)"
    and d: "di_mask d = di_mask d0"
    using dyn by (auto simp: build_dynamic_routes_def split: sum.splits)
  have bits: "bit (plan_static_mask plan) i \<or> bit (di_mask (plan_dynamic plan)) i" using assms(2) by (auto simp: bit_simps)
  then have "i < 9" using static_mask_less [of routes i] dynamic_mask_less [OF d0, of i] by (auto simp: plan d)
  then have "\<exists>m. method_index m = i"
  proof -
    have "i \<in> {0,1,2,3,4,5,6,7,8}" using \<open>i < 9\<close> by auto
    then have "method_index (if i = 8 then Unknown else method_of_index i) = i"
      by (auto simp: method_of_index_def method_index_def)
    then show ?thesis by blast
  qed
  then obtain m where m: "method_index m = i" by blast
  then have "has_bit (plan_static_mask plan) m \<or> has_bit (di_mask (plan_dynamic plan)) m"
    using bits by (simp add: has_bit_index has_index_bit_def)
  then obtain r where r: "r \<in> set routes" "re_method r = m" "is_routable_method m \<or> in_trie m r"
    unfolding plan_facts(5,6) [OF assms(1)] by (auto simp: in_trie_def)
  have "in_trie m r \<Longrightarrow> is_routable_method m"
    using plan_facts(2) [OF assms(1)] r(1,2) by (auto simp: in_trie_def entry_ok_def split: if_splits)
  then show ?thesis using r(3) m by (auto simp: is_routable_method_def)
qed

lemma allowed_methods_ok:
  assumes "plan_of routes plan"
    and "\<And>m. has_bit excluded m \<Longrightarrow> (\<exists>r. serves (plan_routes plan) m path r) \<Longrightarrow> has_bit initial m"
    and "\<And>m. has_bit initial m \<Longrightarrow> is_routable_method m \<and> (\<exists>r. serves (plan_routes plan) m path r)"
    and "has_bit excluded Get \<Longrightarrow> \<not> head_fallback plan path"
  shows "\<exists>bits. allowed_methods plan path (path_hash path) excluded initial = Some bits \<and>
    (\<forall>m. has_bit bits m \<longleftrightarrow> is_routable_method m \<and> offers plan path m)"
proof -
  define candidates where "candidates = (plan_static_mask plan OR di_mask (plan_dynamic plan)) AND NOT excluded"
  obtain bits where bits: "allowed_from plan path (path_hash path) candidates initial = Some bits"
    "\<forall>m. has_bit bits m \<longleftrightarrow> has_bit initial m \<or>
       has_bit candidates m \<and> (\<exists>r. serves (plan_routes plan) m path r) \<or>
       m = Head \<and> has_bit candidates Get \<and> head_fallback plan path"
    using allowed_from_ok [OF assms(1), of candidates path initial] mask_less [OF assms(1)]
    unfolding offered_head_fallback [OF assms(1)] candidates_def by blast
  have cand: "has_bit candidates m \<longleftrightarrow>
      has_bit (plan_static_mask plan OR di_mask (plan_dynamic plan)) m \<and> \<not> has_bit excluded m" for m
    using bit_imp_le_length [of "plan_static_mask plan" "method_index m"] bit_imp_le_length [of "di_mask (plan_dynamic plan)" "method_index m"]
    by (auto simp: candidates_def has_bit_index has_index_bit_def bit_simps)
  have get: "is_routable_method Get" by (simp add: is_routable_method_def method_index_def routable_method_count_def)
  have fallback: "head_fallback plan path \<Longrightarrow> has_bit candidates Get"
    using assms(4) serves_mask [OF assms(1) _ get] by (auto simp: cand head_fallback_def preferred_def)
  have "has_bit bits m = offers plan path m" if "is_routable_method m" for m
  proof -
    have "(\<exists>r. serves (plan_routes plan) m path r) \<Longrightarrow> has_bit candidates m \<or> has_bit initial m"
      using serves_mask [OF assms(1) _ that] cand [of m] assms(2) [of m] by blast
    then show ?thesis using bits(2) fallback assms(3) unfolding offers_def by blast
  qed
  moreover have "is_routable_method m \<and> offers plan path m" if "has_bit bits m" for m
  proof -
    have "has_bit candidates m \<Longrightarrow> is_routable_method m"
      using mask_less [OF assms(1), of excluded "method_index m"]
      by (simp add: has_bit_index has_index_bit_def candidates_def is_routable_method_def)
    moreover have "is_routable_method Head" by (simp add: is_routable_method_def method_index_def routable_method_count_def)
    ultimately show ?thesis using bits(2) assms(3) that unfolding offers_def by blast
  qed
  ultimately have "\<forall>m. has_bit bits m \<longleftrightarrow> is_routable_method m \<and> offers plan path m" by blast
  then show ?thesis using bits(1) by (auto simp: allowed_methods_def candidates_def)
qed

text \<open>
  What a resolution under a method has to answer: the preferred route with its captures; for a HEAD without a route, the
  preferred GET route when it can answer without content; otherwise exactly the methods the resource offers, plus
  OPTIONS, and its extension tokens; and not found when it offers none.
\<close>

definition lists_methods :: "compiled_route_plan \<Rightarrow> bytes \<Rightarrow> route_resolution \<Rightarrow> bool" where
  "lists_methods plan path result \<longleftrightarrow>
     (case result of
        Method_not_allowed bits extension \<Rightarrow>
          extension = extension_methods_for plan path \<and>
          ((\<exists>n. is_routable_method n \<and> offers plan path n) \<or> extension \<noteq> []) \<and>
          (\<forall>n. has_bit bits n \<longleftrightarrow> n = Options \<or> is_routable_method n \<and> offers plan path n)
      | Not_found \<Rightarrow> (\<forall>n. is_routable_method n \<longrightarrow> \<not> offers plan path n) \<and> extension_methods_for plan path = []
      | _ \<Rightarrow> False)"

definition answers :: "compiled_route_plan \<Rightarrow> http_known_method \<Rightarrow> bytes \<Rightarrow> route_resolution \<Rightarrow> bool" where
  "answers plan m path result \<longleftrightarrow>
     (case result of
        Resolved r captures \<Rightarrow>
          preferred (plan_routes plan) m path r captures \<or>
          m = Head \<and> (\<forall>q. \<not> serves (plan_routes plan) Head path q) \<and>
          preferred (plan_routes plan) Get path r captures \<and> supports_head_fallback (plan_routes plan ! r)
      | _ \<Rightarrow> \<not> offers plan path m \<and> lists_methods plan path result)"

lemma has_bit_zero_iff:
  assumes "\<And>i. bit bits i \<Longrightarrow> i < 9"
  shows "bits = 0 \<longleftrightarrow> (\<forall>m. \<not> has_bit bits m)"
proof
  assume none: "\<forall>m. \<not> has_bit bits m"
  have "\<not> bit bits i" for i
  proof
    assume "bit bits i"
    moreover from assms [OF this] have "i \<in> {0,1,2,3,4,5,6,7,8}" by auto
    then have "method_index (if i = 8 then Unknown else method_of_index i) = i"
      by (auto simp: method_of_index_def method_index_def)
    ultimately show False using none by (metis has_bit_index has_index_bit_def)
  qed
  then show "bits = 0" by (intro bit_eqI) simp
qed (simp add: has_bit_zero)

lemma allowed_from_less:
  "\<lbrakk>allowed_from plan path hash candidates allowed = Some bits; \<And>i. bit allowed i \<Longrightarrow> i < 9;
    \<And>i. bit candidates i \<Longrightarrow> i < 9\<rbrakk> \<Longrightarrow> bit bits i \<Longrightarrow> i < 9"
proof (induction "unat candidates" arbitrary: candidates allowed rule: less_induct)
  case less
  show ?case
  proof (cases "candidates = 0")
    case True
    then show ?thesis using less.prems by (simp add: allowed_from.simps)
  next
    case False
    define k where "k = countr_zero32 candidates"
    define rest where "rest = candidates AND NOT (push_bit k 1)"
    have k: "k < 9" using countr_zero32_bit [OF False] less.prems(3) by (simp add: k_def)
    have smaller: "unat rest < unat candidates" using clear_bit_less [OF False] by (simp add: rest_def k_def)
    have rest: "\<And>i. bit rest i \<Longrightarrow> i < 9" using less.prems(3) by (auto simp: rest_def bit_simps)
    obtain allowed' where step: "allowed_from plan path hash rest allowed' = Some bits"
      and allowed': "allowed' \<in> {allowed, allowed OR push_bit k 1, (allowed OR push_bit k 1) OR method_bit Head}"
      using less.prems(1) False
      unfolding allowed_from.simps [of plan path hash candidates allowed, unfolded Let_def, folded k_def, folded rest_def]
      by (auto split: option.splits if_splits)
    have "\<And>i. bit allowed' i \<Longrightarrow> i < 9"
      using allowed' less.prems(2) k method_bit_less by (auto simp: bit_simps)
    from less.hyps [OF smaller step this rest less.prems(4)] show ?thesis by simp
  qed
qed

lemma not_allowed_ok:
  assumes "plan_of routes plan"
    and "\<And>m. has_bit excluded m \<Longrightarrow> (\<exists>r. serves (plan_routes plan) m path r) \<Longrightarrow> has_bit initial m"
    and "\<And>m. has_bit initial m \<Longrightarrow> is_routable_method m \<and> (\<exists>r. serves (plan_routes plan) m path r)"
    and "has_bit excluded Get \<Longrightarrow> \<not> head_fallback plan path" "\<And>i. bit initial i \<Longrightarrow> i < 9"
  shows "\<exists>result. not_allowed plan path (path_hash path) excluded initial = Some result \<and> lists_methods plan path result"
proof -
  obtain bits where bits: "allowed_methods plan path (path_hash path) excluded initial = Some bits"
    "\<forall>m. has_bit bits m \<longleftrightarrow> is_routable_method m \<and> offers plan path m"
    using allowed_methods_ok [OF assms(1-4)] by blast
  have "bit bits i \<Longrightarrow> i < 9" for i
    using allowed_from_less [OF bits(1) [unfolded allowed_methods_def] assms(5)] mask_less [OF assms(1), of excluded]
    by (fastforce simp: routable_method_count_def)
  then have zero: "bits = 0 \<longleftrightarrow> (\<forall>m. \<not> has_bit bits m)" by (rule has_bit_zero_iff)
  define extension where "extension = extension_methods_for plan path"
  define allowed where "allowed = (if bits \<noteq> 0 \<or> extension \<noteq> [] then bits OR method_bit Options else bits)"
  have result: "not_allowed plan path (path_hash path) excluded initial = Some (method_not_allowed allowed extension)"
    by (simp add: not_allowed_def bits(1) allowed_def extension_def Let_def)
  have "lists_methods plan path (method_not_allowed allowed extension)"
  proof (cases "bits = 0 \<and> extension = []")
    case True
    then show ?thesis using bits(2) zero
      by (auto simp: allowed_def method_not_allowed_def lists_methods_def extension_def)
  next
    case False
    then have allowed: "allowed = bits OR method_bit Options" by (auto simp: allowed_def)
    then have has: "has_bit allowed n \<longleftrightarrow> n = Options \<or> is_routable_method n \<and> offers plan path n" for n
      using bits(2) by (auto simp: has_bit_or has_bit_method_bit)
    then have "allowed \<noteq> 0" using has_bit_zero by metis
    then show ?thesis using False zero bits(2) has
      by (auto simp: method_not_allowed_def lists_methods_def extension_def)
  qed
  then show ?thesis using result by blast
qed

lemma not_allowed_hash:
  assumes "plan_static_mask plan = 0"
  shows "not_allowed plan path hash excluded initial = not_allowed plan path hash' excluded initial"
proof -
  have offered: "offered plan m path hash = offered plan m path hash'" for m
    by (simp add: offered_def assms has_bit_zero)
  have "allowed_from plan path hash candidates allowed = allowed_from plan path hash' candidates allowed" for candidates allowed
  proof (induction "unat candidates" arbitrary: candidates allowed rule: less_induct)
    case less
    show ?case
    proof (cases "candidates = 0")
      case True
      then show ?thesis by (simp add: allowed_from.simps)
    next
      case False
      note IH = less [OF clear_bit_less [OF False]]
      show ?thesis
        unfolding allowed_from.simps [of plan path hash candidates] allowed_from.simps [of plan path hash' candidates]
          Let_def offered IH ..
    qed
  qed
  then show ?thesis by (simp add: not_allowed_def allowed_methods_def)
qed

lemma find_route:
  fixes path :: bytes
  assumes "plan_of routes plan" "is_routable_method n"
  defines "S \<equiv> (if has_bit (plan_static_mask plan) n then find_static plan n path (path_hash path) else Some None)"
  obtains (static) r where "S = Some (Some r)" "preferred (plan_routes plan) n path r []"
    | (dynamic) r captures where "S = Some None" "find_dynamic_route plan n path = Some (r, captures)"
        "preferred (plan_routes plan) n path r captures"
    | (none) "S = Some None" "find_dynamic_route plan n path = None" "\<forall>r. \<not> serves (plan_routes plan) n path r"
proof -
  note static = plan_static_ok [OF assms(1,2), of path] and dynamic = plan_dynamic_ok [OF assms(1,2), of path]
  show ?thesis
  proof (cases "\<exists>r. S = Some (Some r)")
    case True
    then obtain r where r: "S = Some (Some r)" by blast
    then have "preferred (plan_routes plan) n path r []"
      using static(1) by (auto simp: S_def preferred_static split: if_splits)
    then show ?thesis using r that(1) by blast
  next
    case False
    then have S: "S = Some None" using static(1) by (auto simp: S_def split: if_splits)
    have only: "\<And>r. serves (plan_routes plan) n path r \<Longrightarrow> re_dynamic (plan_routes plan ! r)"
      using static S by (auto simp: S_def split: if_splits)
    show ?thesis
    proof (cases "find_dynamic_route plan n path")
      case None
      then show ?thesis using that(3) S only dynamic(2) by blast
    next
      case (Some rc)
      then have rc: "find_dynamic_route plan n path = Some (fst rc, snd rc)" by simp
      have "preferred (plan_routes plan) n path (fst rc) (snd rc)"
        using dynamic(1) [OF rc] only by (simp add: preferred_def)
      then show ?thesis using that(2) S rc by blast
    qed
  qed
qed

lemma resolve_method_cases:
  fixes plan :: compiled_route_plan
  assumes "\<not> (m = Options \<and> path = [0x2a])" "is_routable_method m"
  defines "S \<equiv> \<lambda>n. if has_bit (plan_static_mask plan) n then find_static plan n path (path_hash path) else Some None"
  shows "S m = Some (Some r) \<Longrightarrow> resolve_method plan m path = Some (Resolved r [])"
    "\<lbrakk>S m = Some None; find_dynamic_route plan m path = Some (r, captures)\<rbrakk> \<Longrightarrow>
       resolve_method plan m path = Some (Resolved r captures)"
    "\<lbrakk>S m = Some None; find_dynamic_route plan m path = None; m \<noteq> Head\<rbrakk> \<Longrightarrow>
       resolve_method plan m path = not_allowed plan path (path_hash path) (method_bit m) 0"
    "\<lbrakk>S m = Some None; find_dynamic_route plan m path = None; m = Head; S Get = Some static\<rbrakk> \<Longrightarrow>
       resolve_method plan m path =
         (case (case static of Some r \<Rightarrow> Some (r, []) | None \<Rightarrow> find_dynamic_route plan Get path) of
            Some (r, match) \<Rightarrow>
              if supports_head_fallback (plan_routes plan ! r) then Some (Resolved r match)
              else not_allowed plan path (path_hash path) (method_bit m OR method_bit Get) (method_bit Get)
          | None \<Rightarrow> not_allowed plan path (path_hash path) (method_bit m OR method_bit Get) 0)"
proof -
  have guard: "(m = Options \<and> path = [0x2a]) = False" using assms(1) by simp
  define has_static where "has_static \<longleftrightarrow> has_bit (plan_static_mask plan) m"
  define hash where "hash = (if \<not> has_static \<and> plan_static_mask plan \<noteq> 0 then path_hash path
      else if has_static then path_hash path else 0)"
  have zero: "plan_static_mask plan = 0 \<or> hash = path_hash path" by (simp add: hash_def)
  then have missing: "not_allowed plan path hash e i = not_allowed plan path (path_hash path) e i" for e i
    using not_allowed_hash by blast
  have get: "(if has_bit (plan_static_mask plan) Get then find_static plan Get path hash else Some None) = S Get"
    using zero by (auto simp: S_def has_bit_zero)
  have Sm: "(if has_static then find_static plan m path (if has_static then path_hash path else 0) else Some None) = S m"
    by (simp add: S_def has_static_def)
  have unfold: "resolve_method plan m path =
     (case S m of
        None \<Rightarrow> None
      | Some None \<Rightarrow>
          (case find_dynamic_route plan m path of
             None \<Rightarrow>
               if m = Head then
                 (case S Get of
                    None \<Rightarrow> None
                  | Some static \<Rightarrow>
                      (case (case static of Some r \<Rightarrow> Some (r, []) | None \<Rightarrow> find_dynamic_route plan Get path) of
                         None \<Rightarrow> not_allowed plan path (path_hash path) (method_bit m OR method_bit Get) 0
                       | Some (r, match) \<Rightarrow>
                           if supports_head_fallback (plan_routes plan ! r) then Some (Resolved r match)
                           else not_allowed plan path (path_hash path) (method_bit m OR method_bit Get) (method_bit Get)))
               else not_allowed plan path (path_hash path) (method_bit m) 0
           | Some (r, match) \<Rightarrow> Some (Resolved r match))
      | Some (Some r) \<Rightarrow> Some (Resolved r []))"
    by (simp only: resolve_method_def guard if_False if_True Let_def assms(2) simp_thms has_static_def [symmetric]
        hash_def [symmetric] Sm get missing)
  show "S m = Some (Some r) \<Longrightarrow> resolve_method plan m path = Some (Resolved r [])"
    "\<lbrakk>S m = Some None; find_dynamic_route plan m path = Some (r, captures)\<rbrakk> \<Longrightarrow>
       resolve_method plan m path = Some (Resolved r captures)"
    "\<lbrakk>S m = Some None; find_dynamic_route plan m path = None; m \<noteq> Head\<rbrakk> \<Longrightarrow>
       resolve_method plan m path = not_allowed plan path (path_hash path) (method_bit m) 0"
    "\<lbrakk>S m = Some None; find_dynamic_route plan m path = None; m = Head; S Get = Some static\<rbrakk> \<Longrightarrow>
       resolve_method plan m path =
         (case (case static of Some r \<Rightarrow> Some (r, []) | None \<Rightarrow> find_dynamic_route plan Get path) of
            Some (r, match) \<Rightarrow>
              if supports_head_fallback (plan_routes plan ! r) then Some (Resolved r match)
              else not_allowed plan path (path_hash path) (method_bit m OR method_bit Get) (method_bit Get)
          | None \<Rightarrow> not_allowed plan path (path_hash path) (method_bit m OR method_bit Get) 0)"
    unfolding unfold by simp_all
qed

theorem resolve_method_answers:
  assumes "plan_of routes plan" "is_routable_method m" "\<not> (m = Options \<and> path = [0x2a])"
  shows "\<exists>result. resolve_method plan m path = Some result \<and> answers plan m path result"
  using assms(1,2)
proof (cases rule: find_route [where path = path])
  case (static r)
  then show ?thesis using resolve_method_cases(1) [OF assms(3,2) static(1)] by (simp add: answers_def)
next
  case (dynamic r captures)
  then show ?thesis using resolve_method_cases(2) [OF assms(3,2) dynamic(1,2)] by (simp add: answers_def)
next
  case none
  have get: "is_routable_method Get" by (simp add: is_routable_method_def method_index_def routable_method_count_def)
  have no_initial: "\<And>n. has_bit 0 n \<Longrightarrow> is_routable_method n \<and> (\<exists>r. serves (plan_routes plan) n path r)"
    by (simp add: has_bit_zero)
  show ?thesis
  proof (cases "m = Head")
    case False
    have "head_fallback plan path \<Longrightarrow> \<exists>r. serves (plan_routes plan) Get path r" by (auto simp: head_fallback_def preferred_def)
    then have fallback: "has_bit (method_bit m) Get \<Longrightarrow> \<not> head_fallback plan path" using none(3) by (auto simp: has_bit_method_bit)
    have initial: "has_bit 0 n" if "has_bit (method_bit m) n" "\<exists>r. serves (plan_routes plan) n path r" for n
      using none(3) that by (auto simp: has_bit_method_bit)
    obtain result where result: "not_allowed plan path (path_hash path) (method_bit m) 0 = Some result"
        "lists_methods plan path result"
      using not_allowed_ok [OF assms(1) initial no_initial fallback] by (metis bit_0_eq bot_apply bot_bool_def)
    have "\<not> offers plan path m" using none(3) False by (simp add: offers_def)
    then have "answers plan m path result"
      using result(2) none(3) False by (cases result) (simp_all add: answers_def lists_methods_def)
    then show ?thesis using resolve_method_cases(3) [OF assms(3,2) none(1,2) False] result(1) by simp
  next
    case True
    have no_head: "\<forall>q. \<not> serves (plan_routes plan) Head path q" using none(3) True by simp
    have excluded: "has_bit (method_bit m OR method_bit Get) n \<longleftrightarrow> n = Head \<or> n = Get" for n
      using True by (auto simp: has_bit_or has_bit_method_bit)
    have missing: "answers plan m path result"
      if "lists_methods plan path result" "\<not> head_fallback plan path" for result
      using that no_head True by (auto simp: answers_def lists_methods_def offers_def split: route_resolution.splits)
    have fallback: "\<exists>result. (if supports_head_fallback (plan_routes plan ! r) then Some (Resolved r captures)
          else not_allowed plan path (path_hash path) (method_bit m OR method_bit Get) (method_bit Get)) = Some result \<and>
        answers plan m path result"
      if r: "preferred (plan_routes plan) Get path r captures" for r captures
    proof (cases "supports_head_fallback (plan_routes plan ! r)")
      case True
      then show ?thesis using r no_head \<open>m = Head\<close> by (simp add: answers_def)
    next
      case False
      have absent: "\<not> head_fallback plan path"
        unfolding head_fallback_def using preferred_unique [OF assms(1) get r] False by blast
      have "serves (plan_routes plan) Get path r" using r by (simp add: preferred_def)
      then have get_served: "is_routable_method n \<and> (\<exists>r. serves (plan_routes plan) n path r)" if "has_bit (method_bit Get) n" for n
        using get that by (auto simp: has_bit_method_bit)
      have initial: "has_bit (method_bit Get) n"
        if "has_bit (method_bit m OR method_bit Get) n" "\<exists>r. serves (plan_routes plan) n path r" for n
        using no_head that by (auto simp: excluded has_bit_method_bit)
      obtain result where "not_allowed plan path (path_hash path) (method_bit m OR method_bit Get) (method_bit Get) = Some result"
        "lists_methods plan path result"
        using not_allowed_ok [OF assms(1) initial get_served absent] method_bit_less by blast
      then show ?thesis using missing [OF _ absent] False by simp
    qed
    show ?thesis
      using assms(1) get
    proof (cases rule: find_route [where path = path])
      case (static r)
      then show ?thesis using resolve_method_cases(4) [OF assms(3,2) none(1,2) True static(1)] fallback [OF static(2)] by simp
    next
      case (dynamic r captures)
      then show ?thesis using resolve_method_cases(4) [OF assms(3,2) none(1,2) True dynamic(1)] fallback [OF dynamic(3)] by simp
    next
      case no_get: none
      have absent: "\<not> head_fallback plan path" using no_get(3) by (auto simp: head_fallback_def preferred_def)
      have initial: "has_bit 0 n" if "has_bit (method_bit m OR method_bit Get) n" "\<exists>r. serves (plan_routes plan) n path r" for n
        using no_head no_get(3) that by (auto simp: excluded)
      obtain result where "not_allowed plan path (path_hash path) (method_bit m OR method_bit Get) 0 = Some result"
        "lists_methods plan path result"
        using not_allowed_ok [OF assms(1) initial no_initial absent] by (metis bit_0_eq bot_apply bot_bool_def)
      then show ?thesis
        using resolve_method_cases(4) [OF assms(3,2) none(1,2) True no_get(1)] no_get(2) missing [OF _ absent] by simp
    qed
  qed
qed

end
