(* ===== verification/Router_Contract.thy ===== *)
theory Router_Contract
  imports Router_Resolution
begin

text \<open>
  What the router promises of a program that registers its routes one after another, compiles the plan and resolves
  requests: which registrations and plans are refused, that compilation ends, and which route answers a request.
\<close>

subsection \<open>Compilation\<close>

text \<open>Two dynamic routes compete when their patterns are the same once literal segments are decoded.\<close>

definition compete :: "route_entry \<Rightarrow> route_entry \<Rightarrow> bool" where
  "compete left right \<longleftrightarrow> re_dynamic left \<and> re_dynamic right \<and> re_method left = re_method right \<and>
     is_tunnel (re_endpoint left) = is_tunnel (re_endpoint right) \<and>
     (is_tunnel (re_endpoint left) \<longrightarrow> tunnel_protocol (re_endpoint left) = tunnel_protocol (re_endpoint right)) \<and>
     pattern_of (re_path left) = pattern_of (re_path right)"

text \<open>A pattern fits when its wildcard is its last segment and its captures are named and few enough.\<close>

definition fits :: "route_entry \<Rightarrow> bool" where
  "fits r \<longleftrightarrow> (let ss = segments (re_path r) in
     [0x2a] \<notin> set (butlast ss) \<and> [0x3a] \<notin> set ss \<and> length (param_names_of ss) \<le> max_route_params)"

lemma fits_accepts: "fits r \<longleftrightarrow> accepts 0 (segments (re_path r))"
  using accepts_iff [of 0 "segments (re_path r)"] by (simp add: fits_def param_names_of_def Let_def)

lemma dynamic_well_formed:
  assumes "entry_ok r" "re_dynamic r"
  shows "\<forall>s\<in>set (segments (re_path r)). well_escaped s"
proof -
  have "\<not> is_tunnel (re_endpoint r) \<or> tunnel_protocol (re_endpoint r) \<noteq> []"
    using assms unfolding entry_ok_def by blast
  then show ?thesis using segments_well_formed [OF entry_path [OF assms(1)]] by blast
qed

lemma routes_conflict_compete:
  assumes "entry_ok left"
  shows "routes_conflict left right \<longleftrightarrow> compete left right"
proof (cases "re_dynamic left")
  case True
  show ?thesis using same_dynamic_shape_pattern [OF dynamic_well_formed [OF assms True], of "re_path right"] True
    by (auto simp: routes_conflict_def compete_def)
qed (simp add: routes_conflict_def compete_def)

lemma has_dynamic_conflict_compete:
  "\<forall>r\<in>set routes. entry_ok r \<Longrightarrow> has_dynamic_conflict routes \<longleftrightarrow>
     (\<exists>i j. i < j \<and> j < length routes \<and> compete (routes ! i) (routes ! j))"
proof (induction routes)
  case (Cons r routes)
  have "list_ex (routes_conflict r) routes \<longleftrightarrow> (\<exists>j < length routes. compete r (routes ! j))"
    using routes_conflict_compete [of r] Cons.prems by (simp add: list_ex_length)
  moreover have "(\<exists>i j. i < j \<and> j < length (r # routes) \<and> compete ((r # routes) ! i) ((r # routes) ! j)) \<longleftrightarrow>
      (\<exists>j < length routes. compete r (routes ! j)) \<or>
      (\<exists>i j. i < j \<and> j < length routes \<and> compete (routes ! i) (routes ! j))" (is "?L \<longleftrightarrow> ?A \<or> ?B")
  proof
    assume ?L
    then obtain i j where ij: "i < j" "j < length (r # routes)" "compete ((r # routes) ! i) ((r # routes) ! j)" by blast
    then obtain k where k: "j = Suc k" by (cases j) auto
    show "?A \<or> ?B"
    proof (cases i)
      case 0
      then show ?thesis using ij k by auto
    next
      case (Suc l)
      then show ?thesis using ij k by auto
    qed
  next
    assume "?A \<or> ?B"
    then show ?L
    proof
      assume ?A
      then obtain j where "j < length routes" "compete r (routes ! j)" by blast
      then have "0 < Suc j \<and> Suc j < length (r # routes) \<and> compete ((r # routes) ! 0) ((r # routes) ! Suc j)" by simp
      then show ?L by blast
    next
      assume ?B
      then obtain i j where "i < j" "j < length routes" "compete (routes ! i) (routes ! j)" by blast
      then have "Suc i < Suc j \<and> Suc j < length (r # routes) \<and> compete ((r # routes) ! Suc i) ((r # routes) ! Suc j)" by simp
      then show ?L by blast
    qed
  qed
  moreover have "has_dynamic_conflict (r # routes) \<longleftrightarrow> list_ex (routes_conflict r) routes \<or> has_dynamic_conflict routes"
    by simp
  ultimately show ?case using Cons by (simp only: list.set ball_simps) blast
qed simp

lemma add_dynamic_rejects:
  assumes "dyn_ok d" "entry_ok r" "add_dynamic d r = Inl e"
  shows "re_dynamic r \<and> \<not> fits r"
proof -
  have dynamic: "re_dynamic r" using assms(3) by (simp add: add_dynamic_def split: if_splits)
  have names: "re_param_names r = []" using assms(2) by (simp add: entry_ok_def)
  have inserted: "\<exists>node. node_ok node \<and> insert_dynamic (re_path r) (re_index r) node [] = Inl e"
  proof (cases "is_tunnel (re_endpoint r)")
    case True
    define protocol where "protocol = tunnel_protocol (re_endpoint r)"
    obtain protocols i where pi: "(protocols, i) = (case protocol_index (di_protocols d) protocol of
         Some i \<Rightarrow> (di_protocols d, i)
       | None \<Rightarrow> (di_protocols d @ [(protocol, empty_node)], length (di_protocols d)))"
      by (metis surj_pair)
    then have i: "i < length protocols" "\<forall>p\<in>set protocols. node_ok (snd p)"
      using assms(1) protocol_index_less [of "di_protocols d" protocol] by (auto simp: dyn_ok_def split: option.splits)
    have "insert_dynamic (re_path r) (re_index r) (snd (protocols ! i)) [] = Inl e"
      using assms(3) True dynamic names unfolding add_dynamic_def Let_def protocol_def [symmetric] pi [symmetric]
      by (auto split: sum.splits)
    then show ?thesis using i by auto
  next
    case False
    define k where "k = method_index (re_method r)"
    have "re_method_token r = []" using assms(2) dynamic False by (auto simp: entry_ok_def split: if_splits)
    then have "k < length (di_roots d)"
      using assms(1,2) False by (simp add: entry_ok_def is_routable_method_def k_def dyn_ok_def)
    moreover have "insert_dynamic (re_path r) (re_index r) (di_roots d ! k) [] = Inl e"
      using assms(3) dynamic False names unfolding add_dynamic_def Let_def k_def [symmetric] by (auto split: sum.splits)
    ultimately show ?thesis using assms(1) by (auto simp: dyn_ok_def)
  qed
  then obtain node where "node_ok node" "insert_dynamic (re_path r) (re_index r) node [] = Inl e" by blast
  then have "insert_result (re_path r) (re_index r) node [] (Inl e)"
    using insert_dynamic_refines [OF _ dynamic_well_formed [OF assms(2) dynamic], of node "re_index r" "[]"] by simp
  then show ?thesis using dynamic by (simp add: insert_result_def fits_accepts)
qed

lemma add_all_dynamic_rejects:
  "\<lbrakk>dyn_ok d; \<forall>r\<in>set rs. entry_ok r\<rbrakk> \<Longrightarrow>
     (\<exists>e. add_all_dynamic d rs = Inl e) \<longleftrightarrow> (\<exists>r\<in>set rs. re_dynamic r \<and> \<not> fits r)"
proof (induction rs arbitrary: d)
  case (Cons r rs)
  have ok: "entry_ok r" "\<forall>r\<in>set rs. entry_ok r" using Cons.prems(2) by simp_all
  show ?case
  proof (cases "add_dynamic d r")
    case (Inl e)
    then show ?thesis using add_dynamic_rejects [OF Cons.prems(1) ok(1) Inl] by auto
  next
    case (Inr dr)
    obtain d' r' where dr: "dr = (d', r')" by (cases dr)
    note step = add_dynamic_ok [OF Cons.prems(1) ok(1) Inr [unfolded dr]]
    have "re_dynamic r \<Longrightarrow> fits r" using step(3) by (simp add: fits_accepts)
    then show ?thesis using Cons.IH [OF step(1) ok(2)] Inr dr by (auto split: sum.splits)
  qed
qed simp

lemma build_static_index_total: "indices_ok routes \<Longrightarrow> \<exists>index. build_static_index routes = Some index"
  using build_static_index_ok [of routes] by (cases "filter is_indexed routes = []") (auto simp: build_static_index_def)

lemma compile_plan_exact:
  assumes "routes_ok routes"
  shows "\<exists>result. compile_plan routes = Some result \<and>
    (isl result \<longleftrightarrow> (\<exists>i j. i < j \<and> j < length routes \<and> compete (routes ! i) (routes ! j)) \<or>
       (\<exists>r\<in>set routes. re_dynamic r \<and> \<not> fits r))"
proof -
  have entries: "\<forall>r\<in>set routes. entry_ok r" and indices: "indices_ok routes" using assms by (simp_all add: routes_ok_def)
  obtain static where static: "build_static_index routes = Some static" using build_static_index_total [OF indices] by blast
  have "dyn_ok \<lparr>di_roots = replicate routable_method_count empty_node, di_protocols = [], di_mask = 0\<rparr>"
    by (simp add: dyn_ok_def)
  note rejects = add_all_dynamic_rejects [OF this entries]
  have built: "(\<exists>e. build_dynamic_routes routes = Inl e) \<longleftrightarrow> (\<exists>r\<in>set routes. re_dynamic r \<and> \<not> fits r)"
    unfolding rejects [symmetric] by (auto simp: build_dynamic_routes_def split: sum.splits)
  show ?thesis
    using built has_dynamic_conflict_compete [OF entries] static
    by (cases "build_dynamic_routes routes") (auto simp: compile_plan_def Let_def)
qed

subsection \<open>Registering the routes of a program\<close>

definition call_of :: "route_entry \<Rightarrow> http_known_method \<times> bytes \<times> bytes \<times> route_endpoint" where
  "call_of r = (re_method r, re_method_token r, re_path r, re_endpoint r)"

lemma register_all_calls:
  "\<lbrakk>state_ok s; list_all call_ok calls; register_all s calls = Inr s'\<rbrakk> \<Longrightarrow>
     map call_of (rs_routes s') = map call_of (rs_routes s) @ calls"
proof (induction calls arbitrary: s)
  case (Cons call calls)
  obtain m method_token path endpoint where call: "call = (m, method_token, path, endpoint)" by (cases call) auto
  obtain s1 where s1: "register_endpoint s m method_token path endpoint = Inr s1"
    using Cons.prems(3) by (auto simp: call split: sum.splits)
  have tok: "method_token \<noteq> [] \<longrightarrow> m = Unknown" using Cons.prems(2) by (simp add: call call_ok_def)
  note step = register_endpoint_ok [OF Cons.prems(1) tok s1]
  have "map call_of (rs_routes s') = map call_of (rs_routes s1) @ calls"
    using Cons.IH [OF step(1)] Cons.prems(2,3) s1 by (simp add: call)
  moreover have "call_of new = call \<longleftrightarrow> re_method new = m \<and> re_method_token new = method_token \<and>
      re_path new = path \<and> re_endpoint new = endpoint" for new
    by (simp add: call call_of_def)
  ultimately show ?case using step(2) by auto
qed simp

lemma registered_ok:
  assumes "list_all call_ok calls" "register_all empty_router calls = Inr s"
  shows "state_ok s" "routes_ok (rs_routes s)" "map call_of (rs_routes s) = calls"
proof -
  show "state_ok s" by (rule register_all_ok [OF empty_router_ok assms])
  then show "routes_ok (rs_routes s)" by (simp add: state_ok_def)
  show "map call_of (rs_routes s) = calls"
    using register_all_calls [OF empty_router_ok assms] by (simp add: empty_router_def)
qed

lemma call_of_named [simp]: "call_of (named r) = call_of r"
  by (simp add: call_of_def)

lemma registered_plan:
  assumes "list_all call_ok calls" "register_all empty_router calls = Inr s"
    and "compile_plan (rs_routes s) = Some (Inr plan)"
  shows "plan_of (rs_routes s) plan" "map call_of (plan_routes plan) = calls"
proof -
  show plan: "plan_of (rs_routes s) plan" using registered_ok(2) [OF assms(1,2)] assms(3) by (simp add: plan_of_def)
  show "map call_of (plan_routes plan) = calls"
    using plan_facts(1) [OF plan] registered_ok(3) [OF assms(1,2)] by (simp add: comp_def)
qed




subsection \<open>Requests\<close>

text \<open>A path that may reach a route: rooted, and no segment decodes to \<open>.\<close> or \<open>..\<close>, however it is spelled.\<close>

definition safe_path :: "bytes \<Rightarrow> bool" where
  "safe_path path \<longleftrightarrow> path \<noteq> [] \<and> hd path = 0x2f \<and>
     (\<forall>s\<in>set (parts path). units s \<noteq> [0x2e] \<and> units s \<noteq> [0x2e, 0x2e])"

lemma asterisk_parts: "parts [0x2a] = [[0x2a]]" "units [0x2a] = [0x2a]"
  by code_simp+

lemma routable_path_safe:
  "is_routable_origin_or_asterisk_path m path \<longleftrightarrow> safe_path path \<or> path = [0x2a] \<and> m = Options"
  by (auto simp: is_routable_origin_or_asterisk_path_def safe_path_def has_dot_segment_parts is_dot_segment_units asterisk_parts)

lemma asterisk_not_safe: "\<not> safe_path [0x2a]"
  by (simp add: safe_path_def)

lemma resolve_routable:
  assumes "is_routable_method (rr_known_method request)"
  shows "resolve plan request =
    (if rr_known_method request = Options \<and> rr_path request = [0x2a] then Some Not_found
     else if \<not> safe_path (rr_path request) then Some Rejected
     else resolve_method plan (rr_known_method request) (rr_path request))"
proof -
  have "rr_known_method request \<noteq> Connect" "rr_known_method request \<noteq> Unknown"
    using assms by (auto simp: is_routable_method_def method_index_def routable_method_count_def)
  then show ?thesis
    using asterisk_not_safe by (auto simp: resolve_def Let_def routable_path_safe resolve_method_def)
qed

lemma resolve_request_routable:
  assumes "is_routable_method m"
  shows "resolve_request plan False m method_token path =
    (if m = Options \<and> path = [0x2a] then Some Not_found
     else if \<not> safe_path path then Some Rejected
     else resolve_method plan m path)"
proof -
  have "m \<noteq> Connect" "m \<noteq> Unknown"
    using assms by (auto simp: is_routable_method_def method_index_def routable_method_count_def)
  then show ?thesis
    using asterisk_not_safe by (auto simp: resolve_request_def Let_def routable_path_safe resolve_method_def)
qed

lemma resolved_not_asterisk: "resolve_method plan Options [0x2a] = Some Not_found"
  by (simp add: resolve_method_def)

lemma resolve_safe:
  assumes "resolve plan request = Some (Resolved r captures)"
    and "\<not> (rr_known_method request = Connect \<and> rr_extended_protocol request = [])"
  shows "safe_path (rr_path request)"
proof -
  have "is_routable_origin_or_asterisk_path (rr_known_method request) (rr_path request)"
    using assms by (auto simp: resolve_def Let_def split: if_splits)
  moreover have "\<not> (rr_path request = [0x2a] \<and> rr_known_method request = Options)"
    using assms(1) by (auto simp: resolve_def Let_def resolved_not_asterisk routable_path_safe)
  ultimately show ?thesis by (simp add: routable_path_safe)
qed

subsection \<open>Extension methods\<close>






subsection \<open>Plain CONNECT\<close>






subsection \<open>Links\<close>

lemma url_patterns_of:
  assumes "plan_of routes plan"
  shows "sorted (plan_url_patterns plan)"
    "pattern \<in> set (plan_url_patterns plan) \<longleftrightarrow> (\<exists>r < length (plan_routes plan). re_path (plan_routes plan ! r) = pattern \<and>
       \<not> (is_tunnel (re_endpoint (plan_routes plan ! r)) \<and> tunnel_protocol (re_endpoint (plan_routes plan ! r)) = []))"
proof -
  have patterns: "plan_url_patterns plan = build_url_patterns (plan_routes plan)"
    using assms by (auto simp: plan_of_def compile_plan_def Let_def split: if_splits option.splits sum.splits)
  show "sorted (plan_url_patterns plan)" by (simp add: patterns build_url_patterns_def)
  show "pattern \<in> set (plan_url_patterns plan) \<longleftrightarrow> (\<exists>r < length (plan_routes plan). re_path (plan_routes plan ! r) = pattern \<and>
       \<not> (is_tunnel (re_endpoint (plan_routes plan ! r)) \<and> tunnel_protocol (re_endpoint (plan_routes plan ! r)) = []))"
    by (auto simp: patterns build_url_patterns_def in_set_conv_nth)
qed

lemma pattern_facts:
  assumes "plan_of routes plan" "r < length (plan_routes plan)"
    and "\<not> (is_tunnel (re_endpoint (plan_routes plan ! r)) \<and> tunnel_protocol (re_endpoint (plan_routes plan ! r)) = [])"
  defines "pattern \<equiv> re_path (plan_routes plan ! r)"
  shows "pattern \<noteq> []" "[0x2a] \<notin> set (butlast (segments pattern))"
    "\<forall>s\<in>set (segments pattern). 0x2f \<notin> set s \<and> well_escaped s \<and> \<not> is_dot_segment s"
proof -
  define route where "route = routes ! r"
  have r: "r < length routes" "plan_routes plan ! r = named route"
    using plan_nth [OF assms(1)] assms(2) by (simp_all add: route_def)
  have entry: "entry_ok route" and member: "route \<in> set routes" using plan_facts(2) [OF assms(1)] r(1) by (simp_all add: route_def)
  have pattern: "pattern = re_path route" by (simp add: pattern_def r(2))
  have kind: "\<not> is_tunnel (re_endpoint route) \<or> tunnel_protocol (re_endpoint route) \<noteq> []" using assms(3) by (simp add: r(2))
  note path = entry_path [OF entry kind]
  show "pattern \<noteq> []" using path(1) by (simp add: pattern)
  have dot: "\<not> has_dot_segment pattern" using entry kind by (auto simp: entry_ok_def pattern)
  obtain p where p: "pattern = 0x2f # p" using path(1,2) by (cases "re_path route") (auto simp: pattern)
  then have "\<forall>s\<in>set (segments pattern). \<not> is_dot_segment s" using dot by (simp add: has_dot_segment_parts segments_slash)
  then show "\<forall>s\<in>set (segments pattern). 0x2f \<notin> set s \<and> well_escaped s \<and> \<not> is_dot_segment s"
    using segments_well_formed [OF path] segments_no_slash [of _ pattern] by (simp add: pattern)
  show "[0x2a] \<notin> set (butlast (segments pattern))"
  proof (cases "re_dynamic route")
    case True
    then have "accepts 0 (segments pattern)" using plan_facts(7) [OF assms(1)] member by (simp add: pattern)
    then show ?thesis using accepts_iff [of 0 "segments pattern"] by simp
  next
    case False
    then have "\<not> is_dynamic_path pattern" using entry kind by (auto simp: entry_ok_def pattern)
    then have "Wild \<notin> set (pattern_of pattern)" by (simp add: is_dynamic_path)
    then have "[0x2a] \<notin> set (segments pattern)" by (force simp: pattern_of_def slot_of_def image_iff)
    then show ?thesis using in_set_butlastD by metis
  qed
qed

lemma safe_path_segments:
  assumes "path \<noteq> []" "hd path = 0x2f" "\<forall>s\<in>set (segments path). \<not> is_dot_segment s"
  shows "safe_path path"
proof -
  obtain p where "path = 0x2f # p" using assms(1,2) by (cases path) auto
  then show ?thesis using assms(3) by (simp add: safe_path_def segments_slash is_dot_segment_units)
qed

lemma url_for_link:
  assumes "plan_of routes plan" "url_for (plan_url_patterns plan) pattern vals = Inr url"
  shows "safe_path url" "\<exists>r < length (plan_routes plan). re_path (plan_routes plan ! r) = pattern"
    "\<exists>captures. match_pattern (pattern_of pattern) url = Some captures \<and>
       map (\<lambda>c. decode_url_component c Percent) captures = map Some vals"
proof -
  have "pattern_registered (plan_url_patterns plan) pattern" using assms(2) by (simp add: url_for_def split: if_splits)
  then have "pattern \<in> set (plan_url_patterns plan)" using pattern_registered_iff url_patterns_of(1) [OF assms(1)] by blast
  then obtain r where r: "r < length (plan_routes plan)" "re_path (plan_routes plan ! r) = pattern"
    "\<not> (is_tunnel (re_endpoint (plan_routes plan ! r)) \<and> tunnel_protocol (re_endpoint (plan_routes plan ! r)) = [])"
    using url_patterns_of(2) [OF assms(1)] by blast
  show "\<exists>r < length (plan_routes plan). re_path (plan_routes plan ! r) = pattern" using r by blast
  note facts = pattern_facts [OF assms(1) r(1,3), unfolded r(2)]
  note built = url_for_Inr [OF assms(2)]
  show "\<exists>captures. match_pattern (pattern_of pattern) url = Some captures \<and>
       map (\<lambda>c. decode_url_component c Percent) captures = map Some vals"
    unfolding pattern_of_def built(2) by (rule url_tail_matches [OF built(1) facts(2)]) (use facts(3) in blast)
  have "\<forall>s\<in>set (segments url). \<not> is_dot_segment s"
    unfolding built(2) by (rule url_tail_no_dot [OF built(1) facts(2)]) (use facts(3) in blast)
  moreover have "url \<noteq> []"
    using facts(1) unfolding built(2) by (cases "segments pattern") (auto simp: segments_def split: if_splits)
  moreover have "hd url = 0x2f" using url_tail_slash [of "segments pattern" vals True] \<open>url \<noteq> []\<close> by (simp add: built(2))
  ultimately show "safe_path url" using safe_path_segments by blast
qed

text \<open>
  The root pattern has an empty first segment, so no link to it can be built; and a wildcard value with a leading
  slash is refused at the root, not encoded.
\<close>

lemma root_link_refused: "[0x2f] \<in> set url_patterns \<Longrightarrow> sorted url_patterns \<Longrightarrow>
    url_for url_patterns [0x2f] [] = Inl Leading_empty_segment"
proof -
  assume "[0x2f] \<in> set url_patterns" "sorted url_patterns"
  then have "pattern_registered url_patterns [0x2f]" by (simp add: pattern_registered_iff)
  moreover have "url_for_check [0x2f] [] 0 0 = Inl Leading_empty_segment" by code_simp
  ultimately show ?thesis by (simp add: url_for_def)
qed

lemma root_wildcard_slash_refused: "[0x2f, 0x2a] \<in> set url_patterns \<Longrightarrow> sorted url_patterns \<Longrightarrow>
    url_for url_patterns [0x2f, 0x2a] [[0x2f, 0x61]] = Inl Wildcard_separator"
proof -
  assume "[0x2f, 0x2a] \<in> set url_patterns" "sorted url_patterns"
  then have "pattern_registered url_patterns [0x2f, 0x2a]" by (simp add: pattern_registered_iff)
  moreover have "url_for_check [0x2f, 0x2a] [[0x2f, 0x61]] 0 0 = Inl Wildcard_separator" by code_simp
  ultimately show ?thesis by (simp add: url_for_def)
qed

subsection \<open>The router of a program\<close>

definition sample_calls :: "(http_known_method \<times> bytes \<times> bytes \<times> route_endpoint) list" where
  "sample_calls = [(Get, [], ascii ''/a'', Buffered), (Post, [], ascii ''/b/:x'', Buffered),
     (Unknown, ascii ''PURGE'', ascii ''/a'', Buffered), (Connect, [], ascii ''*'', Tunnel [])]"

lemma sample_registered:
  obtains s plan where "register_all empty_router sample_calls = Inr s" "compile_plan (rs_routes s) = Some (Inr plan)"
    "list_all call_ok sample_calls" "pattern_registered (plan_url_patterns plan) (ascii ''/b/:x'')"
proof -
  have computed: "case register_all empty_router sample_calls of
      Inl _ \<Rightarrow> False
    | Inr s \<Rightarrow> (case compile_plan (rs_routes s) of
          Some (Inr plan) \<Rightarrow> pattern_registered (plan_url_patterns plan) (ascii ''/b/:x'')
        | _ \<Rightarrow> False)"
    by code_simp
  have calls: "list_all call_ok sample_calls" by code_simp
  obtain s where s: "register_all empty_router sample_calls = Inr s"
    using computed by (cases "register_all empty_router sample_calls") auto
  obtain result where result: "compile_plan (rs_routes s) = Some result"
    using computed by (cases "compile_plan (rs_routes s)") (auto simp: s)
  show thesis using computed that [OF s _ calls] by (cases result) (auto simp: s result)
qed

text \<open>
  Property C5. For every program of accepted registrations whose plan compiles, a request with a routable method is
  rejected when its path is not rooted or hides a dot segment, and is otherwise resolved: to the static route of its
  path in any spelling, else to the most specific dynamic route with its captures, for \<open>HEAD\<close> else to a \<open>GET\<close> route
  that may answer it, else to exactly the methods the path offers, else to not found.
\<close>

theorem registered_routes_answer:
  assumes "list_all call_ok calls" "register_all empty_router calls = Inr s"
    and "compile_plan (rs_routes s) = Some (Inr plan)" "is_routable_method (rr_known_method request)"
  shows "map call_of (plan_routes plan) = calls \<and>
    (\<exists>result. resolve plan request = Some result \<and>
      (if rr_known_method request = Options \<and> rr_path request = [0x2a] then result = Not_found
       else if \<not> safe_path (rr_path request) then result = Rejected
       else answers plan (rr_known_method request) (rr_path request) result))"
proof -
  note plan = registered_plan [OF assms(1-3)]
  show ?thesis
  proof (cases "rr_known_method request = Options \<and> rr_path request = [0x2a]")
    case True
    then show ?thesis using plan(2) by (simp add: resolve_routable [OF assms(4)])
  next
    case False
    then show ?thesis using plan(2) resolve_method_answers [OF plan(1) assms(4) False]
      by (auto simp: resolve_routable [OF assms(4)])
  qed
qed

lemma registered_routes_answer_witness:
  "\<exists>s plan. register_all empty_router sample_calls = Inr s \<and> compile_plan (rs_routes s) = Some (Inr plan) \<and>
     map call_of (plan_routes plan) = sample_calls \<and>
     (\<exists>result. resolve plan \<lparr>rr_known_method = Head, rr_method = [], rr_path = ascii ''/%61'', rr_connect_target = [],
        rr_extended_protocol = []\<rparr> = Some result)"
proof (rule sample_registered)
  fix s plan
  assume sample: "register_all empty_router sample_calls = Inr s" "compile_plan (rs_routes s) = Some (Inr plan)"
    "list_all call_ok sample_calls"
  have "is_routable_method (rr_known_method \<lparr>rr_known_method = Head, rr_method = [], rr_path = ascii ''/%61'',
      rr_connect_target = [], rr_extended_protocol = []\<rparr>)"
    by code_simp
  from registered_routes_answer [OF sample(3,1,2) this] show ?thesis using sample by blast
qed



text \<open>
  Property C10. Compiling the routes of any program of accepted registrations ends. It refuses the program exactly when
  two dynamic routes compete for one pattern, or a dynamic pattern has a wildcard before its end, an unnamed
  parameter, or more than sixteen captures.
\<close>

theorem plan_compilation_exact:
  assumes "list_all call_ok calls" "register_all empty_router calls = Inr s"
  shows "\<exists>result. compile_plan (rs_routes s) = Some result \<and>
    (isl result \<longleftrightarrow>
       (\<exists>i j. i < j \<and> j < length (rs_routes s) \<and> compete (rs_routes s ! i) (rs_routes s ! j)) \<or>
       (\<exists>r\<in>set (rs_routes s). re_dynamic r \<and> \<not> fits r))"
  by (rule compile_plan_exact) (rule registered_ok(2) [OF assms])

lemma plan_compilation_exact_witness:
  "\<exists>s. register_all empty_router sample_calls = Inr s \<and> (\<exists>result. compile_plan (rs_routes s) = Some result)"
proof (rule sample_registered)
  fix s plan
  assume sample: "register_all empty_router sample_calls = Inr s" "list_all call_ok sample_calls"
  from plan_compilation_exact [OF sample(2,1)] show ?thesis using sample(1) by blast
qed



text \<open>
  Property C8. A link built for a registered pattern leads back to it: it is a safe path the pattern matches, and the
  captures decode to the values the link was built from.
\<close>

theorem link_leads_back:
  assumes "list_all call_ok calls" "register_all empty_router calls = Inr s"
    and "compile_plan (rs_routes s) = Some (Inr plan)" "url_for (plan_url_patterns plan) pattern vals = Inr url"
  shows "safe_path url \<and> (\<exists>r < length (plan_routes plan). re_path (plan_routes plan ! r) = pattern) \<and>
    (\<exists>captures. match_pattern (pattern_of pattern) url = Some captures \<and>
       map (\<lambda>c. decode_url_component c Percent) captures = map Some vals)"
  using url_for_link [OF registered_plan(1) [OF assms(1-3)] assms(4)] by blast

lemma link_leads_back_witness:
  "\<exists>s plan url. register_all empty_router sample_calls = Inr s \<and> compile_plan (rs_routes s) = Some (Inr plan) \<and>
     url_for (plan_url_patterns plan) (ascii ''/b/:x'') [ascii ''a/..''] = Inr url \<and> safe_path url"
proof (rule sample_registered)
  fix s plan
  assume sample: "register_all empty_router sample_calls = Inr s" "compile_plan (rs_routes s) = Some (Inr plan)"
    "list_all call_ok sample_calls" "pattern_registered (plan_url_patterns plan) (ascii ''/b/:x'')"
  have "case url_for_check (ascii ''/b/:x'') [ascii ''a/..''] 0 0 of Inl _ \<Rightarrow> False | Inr (n, _) \<Rightarrow> n = 1" by code_simp
  then obtain url where "url_for (plan_url_patterns plan) (ascii ''/b/:x'') [ascii ''a/..''] = Inr url"
    using sample(4) by (auto simp: url_for_def split: sum.splits)
  then show ?thesis using link_leads_back [OF sample(3,1,2)] sample(1,2) by blast
qed





end
