(* ===== verification/Spec2Isabelle.thy ===== *)
theory Spec2Isabelle
  imports Ring_Queue Rate_Limiter Chunked_Decoder Websocket_Runs H2_Contract Router_Contract
begin

text \<open>
  A verification library of Ruvia, a C++20 coroutine web framework. The repository has three
  libraries: \<open>ruvia-core\<close> (tasks, event loops, bounded channels, pools), \<open>ruvia-http\<close>
  (a protocol layer without I/O: HTTP/1, HTTP/2, HTTP/3 and WebSocket) and \<open>ruvia-web\<close>
  (server, clients, routing, data access). This library models the parts whose correctness is a
  matter of state and bytes rather than of I/O, in the order below. Definitions carry the names
  of the C++ functions; paths are relative to the repository.

  \<^bold>\<open>How the code is read.\<close> A byte is an \<open>8 word\<close>, a \<open>std::string_view\<close>
  the list of its bytes. Machine integers are words of their width wherever the code lets them
  wrap or masks them; a \<open>std::size_t\<close> that the code guards against wrapping is a
  natural number with the guard written against \<open>size_max\<close>. A class is a record of its data
  members, an enum or a \<open>std::variant\<close> a datatype. A member function is a function from
  the record to the new record, paired with what the function returns; \<open>std::terminate\<close>,
  a thrown exception and an error return are values. Memory allocation succeeds, except where a
  size beyond the addressable range makes the code throw. Code that is not in the repository is
  an argument: the hash key and the clock of the rate limiter, the mask key generator and the
  deflate codec of a WebSocket connection (the record \<open>ws_env\<close>).

  \<^bold>\<open>Shared theories.\<close> \<open>Prelude\<close> names the machine types and the byte searches.
  \<open>Fifo\<close>, \<open>Byte_Stream\<close> and \<open>Keyed_Store\<close> are the interfaces: a bounded queue, a byte
  stream written at one end and read at the other, and a table of records that carry their own
  key. Each is a locale whose lemmas its clients use through an interpretation on the code's own
  operations. \<open>Slots\<close> holds the lemmas on slot arrays.

  \<^bold>\<open>Core.\<close> \<open>Ring_Queue\<close> is \<open>local_ring_queue.h\<close> of \<open>ruvia-core\<close>: slots that stay
  constructed, a head index and a size. It is interpreted as the bounded queue of \<open>Fifo\<close>, which
  gives order, losslessness and the capacity bound over any run.

  \<^bold>\<open>Rate limiting.\<close> \<open>Wide\<close> and \<open>Rate_Limiter\<close> are \<open>ruvia-web/src/ratelimit\<close>: the
  128-bit product, predecessor and division in two words, and the open-addressed table of
  sliding windows. The lemmas show that the word arithmetic decides as the rule over unbounded
  integers, that the reported delay is the first at which the key is admitted again, and that a
  key keeps its slot.

  \<^bold>\<open>HTTP/1.\<close> \<open>Field_Scan\<close> (\<open>field_value_scan.h\<close>), \<open>Field_Syntax\<close>
  (\<open>http_field_syntax.h\<close>, \<open>http_field_values.h\<close>, \<open>http_ascii.h\<close>), \<open>Byte_Budget\<close>
  (\<open>http_field_section.h\<close>, \<open>protocol_byte_limit.h\<close>), \<open>Header_Kinds\<close>
  (\<open>request_header_kind.h\<close>, \<open>http_parser_syntax.cpp\<close>), \<open>Chunk_Line\<close> (the chunk-size line of
  \<open>http_parser_syntax.cpp\<close>), \<open>Trailer_Block\<close> (\<open>http_trailer_fields.h\<close>,
  \<open>field_line_folding.h\<close>) and \<open>Chunked_Decoder\<close> (\<open>http1_chunked_body_decoder.cpp\<close>) build on
  each other in this order: the decoder parses size lines and trailers, trailers are split,
  classified and charged to the section budget, and fields pass the scan. The lemmas relate
  each optimised routine to a plain one (word scan, switch on length and letter), show round
  trips with writers, and show that decoding is independent of how the input is split, that the
  body limit holds whatever the peer sends, and that a failure is final.

  \<^bold>\<open>WebSocket.\<close> \<open>Utf8\<close> (\<open>http_utf8.h\<close>), \<open>Io_Buffer\<close> (\<open>http_io_buffer.cpp\<close>),
  \<open>Masking\<close> and \<open>Websocket_Frame\<close> (\<open>http_websocket_frame_codec.h\<close>,
  \<open>http_websocket_frame_reader.h\<close>, \<open>websocket_close_payload.cpp\<close>), \<open>Websocket_Assembler\<close>
  (\<open>http_websocket_inbound_assembler.h\<close>) and \<open>Websocket_Connection\<close>
  (\<open>websocket_connection.cpp\<close>). The reader unmasks in place in the input buffer; the assembler
  joins fragments; the connection drives both, queues output and runs the closing handshake.
  The record of a connection has two history fields that no operation reads: \<open>ws_sent\<close>, the
  frames queued, and \<open>ws_written\<close>, the output already consumed. \<open>Websocket_Output\<close> and
  \<open>Websocket_Invariant\<close> prove the invariant, \<open>Websocket_Runs\<close> has the step relation, one rule
  per public operation labelled with its result, and the properties of every reachable state:
  output is well framed, at most one Close is sent, \<open>next_event\<close> returns, delivered messages
  are valid, and a closing handshake completes.

  \<^bold>\<open>HTTP/2 streams.\<close> \<open>H2_Content\<close> (\<open>http2_local_content_state.h\<close>,
  \<open>http2_remote_content_state.h\<close>), \<open>H2_Phases\<close> (\<open>http2_local_send_state.h\<close>,
  \<open>http2_remote_receive_state.h\<close>, \<open>http2_tunnel_state.h\<close>,
  \<open>http2_local_connection_state.h\<close>), \<open>H2_Stream\<close> (\<open>http2_stream_state.h\<close>) and
  \<open>H2_Stream_Table\<close> (\<open>http2_stream_table.h\<close>). A stream record holds one state of each
  machine; \<open>H2_Stream_Steps\<close> has a rule per mutator of the record and shows what holds in any
  order of calls: the halves abort together, the CONNECT phase agrees with both halves, content
  stays within its declared length, and phases only advance, by a rank of at most 11. The
  table is interpreted as a keyed store; its iteration is proved to survive removals by its
  callback.

  \<^bold>\<open>HTTP/2 connection.\<close> \<open>H2_Ledger\<close> (\<open>http2_stream_lease_ledger.h\<close>),
  \<open>H2_Connection\<close> (\<open>http2_connection.cpp\<close> and its \<open>_streams\<close>, \<open>_leases\<close>, \<open>_flow\<close> and \<open>_receive\<close>
  parts) and \<open>H2_Submit\<close> (the \<open>_submit\<close>, \<open>_submit_request\<close> and \<open>_advertisement\<close> parts). The
  nghttp2 session is an argument: its state is a type variable and the functions the code
  calls are the fields of the record \<open>nghttp2\<close>. The callbacks it runs are \<open>callback_op\<close>; the codes
  they return to nghttp2 are dropped, except whether a frame to be sent is cancelled. What
  decoding a field or a head found is an argument of the callback.

  \<^bold>\<open>What the HTTP/2 connection keeps.\<close> Three history fields record the identifiers that got a
  record, the DATA bytes received and the bytes credited back; two watch nghttp2's rule that its
  callbacks must not send or receive (\<open>in_nghttp2\<close>, \<open>reentered\<close>). \<open>H2_Invariant\<close> states the
  invariant, with a \<open>mode\<close> for what an operation owes in its middle, and proves it for writing,
  creating and removing a record and for queuing an event. \<open>H2_Operations\<close> takes the internal
  operations (credits, resets, leases), \<open>H2_Callbacks\<close> and \<open>H2_Frames\<close> the callbacks, \<open>H2_Owner\<close> and
  \<open>H2_Reachable\<close> the public operations, with the step relation that has a rule for each of them.
  \<open>H2_Runs\<close> says what nghttp2 is relied on for (\<open>nghttp2_ok\<close>): a send or a receive is a run of
  callbacks, one after the other until one throws; it reports an error when one threw; crediting
  and resetting fail only for lack of memory; and a callback is made only when it is allowed
  (\<open>callback_allowed\<close>): streams are numbered once, and DATA stays within the flow-control window.
  A submission that opens a stream is a step only while nghttp2's next identifier was never used
  (\<open>fresh_id\<close>). \<open>H2_Script\<close> has a session that meets this and plays a script of callbacks, and
  \<open>H2_Contract\<close> the properties of every reachable state, evaluated on it: received bytes are
  credited or owed, events are counted exactly, callbacks do not reenter the session, and a stream
  lives once.

  \<^bold>\<open>URIs.\<close> \<open>Uri_Path\<close> (\<open>url_encoding.h\<close>, \<open>path_segments.cpp\<close>, \<open>prefix_fallback.h\<close>) has the canonical
  form of a path: its \<open>units\<close>, decoded octets with a literal slash kept apart. Equivalence, order,
  dot segments and prefix scopes are shown to depend on it alone. \<open>Uri_Grammar\<close>
  (\<open>http_uri_grammar.cpp\<close>) and \<open>Request_Target\<close> (\<open>http_request_target.cpp\<close>,
  \<open>http_request_authority.cpp\<close>, \<open>http_method.cpp\<close>) are the components, IP literals, authorities,
  request targets and methods.

  \<^bold>\<open>Router.\<close> \<open>Route_Trie\<close> (\<open>router_dynamic_index.cpp\<close> and \<open>_build\<close>) inserts patterns, sorts and
  searches; a trie stands for a map from slot patterns to routes, insertion updates the map, and
  the search picks the least matching pattern in the order literal, parameter, wildcard. Trie
  nodes the code links by address are values here. \<open>Route_Patterns\<close> has what is read off a
  pattern, with the coverage of middleware scopes (\<open>router_build.cpp\<close>), \<open>Route_Index\<close>
  (\<open>router_index_build.cpp\<close>) the open-addressed table of static routes, whose probes end because
  it is at most half full, and \<open>Url_For\<close> (\<open>router_url.cpp\<close>) the links. \<open>Router\<close> puts them together:
  registration, compilation and resolution (\<open>router.cpp\<close>, \<open>router_registration.cpp\<close>,
  \<open>router_index.cpp\<close>). \<open>Router_Registration\<close>, \<open>Router_Plan\<close> and \<open>Router_Resolution\<close> show what
  registered routes satisfy, what the compiled plan stores and which route \<open>resolve\<close> picks;
  \<open>Router_Contract\<close> states it for a program's registrations. A loop over the table is a partial
  function whose \<open>None\<close> is a loop that does not end, and is shown never to be \<open>None\<close>.

  \<^bold>\<open>Bounds and fuel.\<close> Loops are structural recursions or have a measure. The event loop
  of a WebSocket connection runs with one unit of fuel more than there are unread bytes, and a
  property shows that this is always enough, because every round that does not return consumes
  input. The word loops of masking take the remaining length as their measure; compaction of the
  stream table the number of entries not yet checked. The growth bound of the input buffer is
  four bytes moved per byte appended.

  \<^bold>\<open>Not modelled.\<close> The event loops, coroutines, sockets, TLS and file access are I/O.
  The HTTP/1 request and response parsers, HTTP/2 header validation and the output buffer, HTTP/3 and QUIC, content coding, middleware and error dispatch, static files, the
  declarative models, the SQL and Redis clients and the ORM are left for later. Of a stream
  record, the decoded header storage is not part of the model; of a chunked decoder, its error
  tables; of the assembler, the retained capacity of its string.
\<close>

end
